(* ===== verification/Mc_Prelude.thy ===== *)
theory Mc_Prelude
  imports Main "HOL-Library.Word" "HOL-Library.Monad_Syntax"
begin

text \<open>
  Shared vocabulary of the memcached development: the machine-integer widths of the C sources,
  pointers, the flag bits of an item, the failure monad, and the generic lemmas on words, lists
  and functions that every component uses.

  Pointers are natural numbers and \<open>NULL\<close> is \<open>0\<close>. An operation of the C code that can abort
  (\<^verbatim>\<open>assert\<close>) or that contains a loop over a linked structure returns an
  \<^typ>\<open>'a option\<close>: \<^const>\<open>None\<close> stands for an aborted or a diverging run, so a theorem that an
  operation returns \<open>Some\<close> says both that no assertion fires and that every loop stops.
\<close>

unbundle bit_operations_syntax

named_theorems flag_simps \<open>evaluation of item flag tests\<close>
named_theorems state_defs \<open>definitions of straight-line state updates\<close>

section \<open>Machine integers and pointers\<close>

type_synonym u8 = "8 word"
type_synonym u16 = "16 word"
type_synonym u32 = "32 word"
type_synonym u64 = "64 word"
type_synonym addr = nat
type_synonym bytes = "8 word list"

abbreviation (input) NULL :: addr where "NULL \<equiv> 0"

section \<open>Assertions\<close>

definition c_assert :: "bool \<Rightarrow> unit option" where
  "c_assert P = (if P then Some () else None)"

lemma c_assert_True [simp]: "c_assert True = Some ()"
  by (simp add: c_assert_def)

lemma c_assert_False [simp]: "c_assert False = None"
  by (simp add: c_assert_def)

lemma c_assert_bind_eq_Some [simp]: "(c_assert P \<bind> f = Some y) \<longleftrightarrow> P \<and> f () = Some y"
  by (simp add: c_assert_def)

lemma c_assert_bind: "P \<Longrightarrow> c_assert P \<bind> f = f ()"
  by simp

section \<open>Flag words\<close>

definition has_flag :: "u8 \<Rightarrow> u8 \<Rightarrow> bool" where
  "has_flag f m \<longleftrightarrow> f AND m \<noteq> 0"

definition set_flag :: "u8 \<Rightarrow> u8 \<Rightarrow> u8" where
  "set_flag f m = f OR m"

definition clr_flag :: "u8 \<Rightarrow> u8 \<Rightarrow> u8" where
  "clr_flag f m = f AND NOT m"

definition ITEM_LINKED :: u8 where "ITEM_LINKED = 1"
definition ITEM_CAS :: u8 where "ITEM_CAS = 2"
definition ITEM_SLABBED :: u8 where "ITEM_SLABBED = 4"
definition ITEM_FETCHED :: u8 where "ITEM_FETCHED = 8"
definition ITEM_ACTIVE :: u8 where "ITEM_ACTIVE = 16"
definition ITEM_CHUNKED :: u8 where "ITEM_CHUNKED = 32"
definition ITEM_CHUNK :: u8 where "ITEM_CHUNK = 64"

lemmas item_flag_defs = ITEM_LINKED_def ITEM_CAS_def ITEM_SLABBED_def ITEM_FETCHED_def
  ITEM_ACTIVE_def ITEM_CHUNKED_def ITEM_CHUNK_def

lemma has_flag_0 [simp, flag_simps]: "\<not> has_flag 0 m"
  by (simp add: has_flag_def)

lemma word_or_eq_0_iff: "(a OR b = (0 :: 'a::len word)) \<longleftrightarrow> a = 0 \<and> b = 0"
  by (auto simp: bit_eq_iff bit_or_iff)

lemma has_flag_set: "has_flag (set_flag f m) n \<longleftrightarrow> has_flag f n \<or> has_flag m n"
  by (simp add: has_flag_def set_flag_def bit.conj_disj_distrib2 word_or_eq_0_iff)

lemma has_flag_clr_same [simp, flag_simps]: "\<not> has_flag (clr_flag f m) m"
  by (simp add: has_flag_def clr_flag_def and.assoc)

lemma has_flag_clr_other: "m AND n = 0 \<Longrightarrow> has_flag (clr_flag f m) n = has_flag f n"
proof -
  assume a: "m AND n = 0"
  have "(f AND NOT m) AND n = f AND n"
  proof (rule bit_word_eqI)
    fix k assume k: "k < LENGTH(8)"
    have "\<not> (bit m k \<and> bit n k)"
      using a by (metis bit_0_eq bit_and_iff bot_apply bot_bool_def)
    with k show "bit ((f AND NOT m) AND n) k \<longleftrightarrow> bit (f AND n) k"
      by (auto simp: bit_and_iff bit_not_iff_eq)
  qed
  then show ?thesis by (simp add: has_flag_def clr_flag_def)
qed

lemma flag_disjoint [flag_simps]:
  "ITEM_LINKED AND ITEM_CAS = 0" "ITEM_LINKED AND ITEM_SLABBED = 0" "ITEM_LINKED AND ITEM_FETCHED = 0"
  "ITEM_LINKED AND ITEM_ACTIVE = 0" "ITEM_LINKED AND ITEM_CHUNKED = 0" "ITEM_LINKED AND ITEM_CHUNK = 0"
  "ITEM_ACTIVE AND ITEM_LINKED = 0" "ITEM_ACTIVE AND ITEM_SLABBED = 0" "ITEM_ACTIVE AND ITEM_CAS = 0"
  "ITEM_ACTIVE AND ITEM_CHUNKED = 0" "ITEM_ACTIVE AND ITEM_FETCHED = 0" "ITEM_ACTIVE AND ITEM_CHUNK = 0"
  "ITEM_SLABBED AND ITEM_LINKED = 0" "ITEM_SLABBED AND ITEM_CAS = 0" "ITEM_SLABBED AND ITEM_FETCHED = 0"
  "ITEM_SLABBED AND ITEM_ACTIVE = 0" "ITEM_SLABBED AND ITEM_CHUNKED = 0" "ITEM_SLABBED AND ITEM_CHUNK = 0"
  by (simp_all add: item_flag_defs)

lemma flag_consts [simp, flag_simps]:
  "has_flag ITEM_LINKED ITEM_LINKED" "\<not> has_flag ITEM_LINKED ITEM_CAS"
  "\<not> has_flag ITEM_LINKED ITEM_SLABBED" "\<not> has_flag ITEM_LINKED ITEM_FETCHED"
  "\<not> has_flag ITEM_LINKED ITEM_ACTIVE" "\<not> has_flag ITEM_LINKED ITEM_CHUNKED"
  "\<not> has_flag ITEM_LINKED ITEM_CHUNK"
  "has_flag ITEM_SLABBED ITEM_SLABBED" "\<not> has_flag ITEM_SLABBED ITEM_LINKED"
  "\<not> has_flag ITEM_SLABBED ITEM_CAS" "\<not> has_flag ITEM_SLABBED ITEM_CHUNKED"
  "\<not> has_flag ITEM_SLABBED ITEM_CHUNK" "\<not> has_flag ITEM_SLABBED ITEM_ACTIVE"
  "\<not> has_flag ITEM_SLABBED ITEM_FETCHED"
  "has_flag ITEM_FETCHED ITEM_FETCHED" "\<not> has_flag ITEM_FETCHED ITEM_LINKED"
  "\<not> has_flag ITEM_FETCHED ITEM_SLABBED" "\<not> has_flag ITEM_FETCHED ITEM_CAS"
  "\<not> has_flag ITEM_FETCHED ITEM_ACTIVE" "\<not> has_flag ITEM_FETCHED ITEM_CHUNKED"
  "has_flag ITEM_ACTIVE ITEM_ACTIVE" "\<not> has_flag ITEM_ACTIVE ITEM_LINKED"
  "\<not> has_flag ITEM_ACTIVE ITEM_SLABBED" "\<not> has_flag ITEM_ACTIVE ITEM_CAS"
  "\<not> has_flag ITEM_ACTIVE ITEM_FETCHED" "\<not> has_flag ITEM_ACTIVE ITEM_CHUNKED"
  "has_flag ITEM_CAS ITEM_CAS" "\<not> has_flag ITEM_CAS ITEM_LINKED"
  "\<not> has_flag ITEM_CAS ITEM_SLABBED" "\<not> has_flag ITEM_CAS ITEM_CHUNKED"
  "\<not> has_flag ITEM_CAS ITEM_FETCHED" "\<not> has_flag ITEM_CAS ITEM_ACTIVE"
  "has_flag ITEM_CHUNKED ITEM_CHUNKED" "\<not> has_flag ITEM_CHUNKED ITEM_LINKED"
  "\<not> has_flag ITEM_CHUNKED ITEM_SLABBED" "\<not> has_flag ITEM_CHUNKED ITEM_CAS"
  "has_flag ITEM_CHUNK ITEM_CHUNK" "\<not> has_flag ITEM_CHUNK ITEM_CHUNKED"
  "\<not> has_flag ITEM_CHUNK ITEM_LINKED" "\<not> has_flag ITEM_CHUNK ITEM_SLABBED"
  by (simp_all add: item_flag_defs has_flag_def)

lemma has_flag_set_simps [simp, flag_simps]:
  "has_flag (set_flag f ITEM_LINKED) n \<longleftrightarrow> has_flag f n \<or> has_flag ITEM_LINKED n"
  "has_flag (set_flag f ITEM_FETCHED) n \<longleftrightarrow> has_flag f n \<or> has_flag ITEM_FETCHED n"
  "has_flag (set_flag f ITEM_ACTIVE) n \<longleftrightarrow> has_flag f n \<or> has_flag ITEM_ACTIVE n"
  "has_flag (set_flag f ITEM_CHUNKED) n \<longleftrightarrow> has_flag f n \<or> has_flag ITEM_CHUNKED n"
  "has_flag (set_flag f ITEM_CHUNK) n \<longleftrightarrow> has_flag f n \<or> has_flag ITEM_CHUNK n"
  "has_flag (set_flag f ITEM_CAS) n \<longleftrightarrow> has_flag f n \<or> has_flag ITEM_CAS n"
  by (rule has_flag_set)+

lemma has_flag_clr_simps [simp, flag_simps]:
  "has_flag (clr_flag f ITEM_LINKED) ITEM_SLABBED = has_flag f ITEM_SLABBED"
  "has_flag (clr_flag f ITEM_LINKED) ITEM_CAS = has_flag f ITEM_CAS"
  "has_flag (clr_flag f ITEM_LINKED) ITEM_ACTIVE = has_flag f ITEM_ACTIVE"
  "has_flag (clr_flag f ITEM_LINKED) ITEM_FETCHED = has_flag f ITEM_FETCHED"
  "has_flag (clr_flag f ITEM_LINKED) ITEM_CHUNKED = has_flag f ITEM_CHUNKED"
  "has_flag (clr_flag f ITEM_ACTIVE) ITEM_SLABBED = has_flag f ITEM_SLABBED"
  "has_flag (clr_flag f ITEM_ACTIVE) ITEM_CAS = has_flag f ITEM_CAS"
  "has_flag (clr_flag f ITEM_ACTIVE) ITEM_LINKED = has_flag f ITEM_LINKED"
  "has_flag (clr_flag f ITEM_ACTIVE) ITEM_FETCHED = has_flag f ITEM_FETCHED"
  "has_flag (clr_flag f ITEM_ACTIVE) ITEM_CHUNKED = has_flag f ITEM_CHUNKED"
  "has_flag (clr_flag f ITEM_SLABBED) ITEM_LINKED = has_flag f ITEM_LINKED"
  "has_flag (clr_flag f ITEM_SLABBED) ITEM_CAS = has_flag f ITEM_CAS"
  "has_flag (clr_flag f ITEM_SLABBED) ITEM_CHUNKED = has_flag f ITEM_CHUNKED"
  "has_flag (clr_flag f ITEM_SLABBED) ITEM_ACTIVE = has_flag f ITEM_ACTIVE"
  by (rule has_flag_clr_other; simp add: item_flag_defs)+

section \<open>Generic lemmas\<close>

lemma fun_upd_idem_iff': "f x = y \<Longrightarrow> f(x := y) = f"
  by auto

lemma unat_take_bit_mod: "unat (take_bit n (w :: 'a::len word)) = unat w mod 2 ^ n"
  by (metis take_bit_eq_mod unsigned_take_bit_eq)

lemma distinct_split_unique:
  "distinct (xs @ x # ys) \<Longrightarrow> x \<notin> set xs \<and> x \<notin> set ys"
  by auto

lemma remove1_split: "x \<notin> set xs \<Longrightarrow> remove1 x (xs @ x # ys) = xs @ ys"
  by (induction xs) auto

end
