(* ===== verification/Mc_Heap.thy ===== *)
theory Mc_Heap
  imports Mc_Prelude
begin

text \<open>
  The memory model: the \<^verbatim>\<open>item\<close> structure of \<^verbatim>\<open>memcached.h\<close> as a record, a heap from addresses
  to items, the settings, the item lock table, and the two list shapes that the code builds on
  the heap: singly linked hash chains (\<^verbatim>\<open>h_next\<close>) and doubly linked queues
  (\<^verbatim>\<open>next\<close>/\<^verbatim>\<open>prev\<close>), the latter used both by the LRU queues and by the slab free lists.

  \<^verbatim>\<open>item\<close> and \<^verbatim>\<open>item_chunk\<close> overlay the same memory: the fields \<^verbatim>\<open>next\<close>, \<^verbatim>\<open>prev\<close>,
  \<^verbatim>\<open>nbytes\<close>, \<^verbatim>\<open>refcount\<close>, \<^verbatim>\<open>it_flags\<close> and \<^verbatim>\<open>slabs_clsid\<close> lie at the same offsets in both, so one record
  carries both views; the chunk-only fields have names of their own. The variable-length tail
  \<^verbatim>\<open>data[]\<close> (CAS, key, suffix, value) is a field per part.
\<close>

section \<open>Items\<close>

record item =
  i_next :: addr
  i_prev :: addr
  h_next :: addr
  i_time :: u32
  exptime :: u32
  nbytes :: int
  refcount :: u16
  nsuffix :: u8
  it_flags :: u8
  slabs_clsid :: u8
  nkey :: u8
  i_cas :: u64
  i_key :: bytes
  i_suffix :: bytes
  i_data :: bytes
  ch_head :: addr
  ch_size :: int
  ch_used :: int
  orig_clsid :: u8

text \<open>Zeroed memory, as \<^verbatim>\<open>memset\<close> and \<^verbatim>\<open>calloc\<close> leave it.\<close>

definition zero_item :: item where
  "zero_item = \<lparr>i_next = NULL, i_prev = NULL, h_next = NULL, i_time = 0, exptime = 0, nbytes = 0,
     refcount = 0, nsuffix = 0, it_flags = 0, slabs_clsid = 0, nkey = 0, i_cas = 0, i_key = [],
     i_suffix = [], i_data = [], ch_head = NULL, ch_size = 0, ch_used = 0, orig_clsid = 0\<rparr>"

definition sizeof_item :: nat where "sizeof_item = 48"
definition sizeof_item_chunk :: nat where "sizeof_item_chunk = 48"

definition ITEM_get_cas :: "item \<Rightarrow> u64" where
  "ITEM_get_cas it = (if has_flag (it_flags it) ITEM_CAS then i_cas it else 0)"

definition ITEM_set_cas :: "u64 \<Rightarrow> item \<Rightarrow> item" where
  "ITEM_set_cas v it = (if has_flag (it_flags it) ITEM_CAS then it\<lparr>i_cas := v\<rparr> else it)"

definition ITEM_ntotal :: "item \<Rightarrow> u64" where
  "ITEM_ntotal it = of_nat sizeof_item + ucast (nkey it) + 1 + ucast (nsuffix it)
     + word_of_int (nbytes it) + (if has_flag (it_flags it) ITEM_CAS then 8 else 0)"

definition ITEM_data :: "addr \<Rightarrow> item \<Rightarrow> addr" where
  "ITEM_data a it = a + sizeof_item + unat (nkey it) + 1 + unat (nsuffix it)
     + (if has_flag (it_flags it) ITEM_CAS then 8 else 0)"

definition CLEAR_LRU :: "u8 \<Rightarrow> u8" where "CLEAR_LRU i = i AND NOT (push_bit 6 3)"
definition GET_LRU :: "u8 \<Rightarrow> u8" where "GET_LRU i = i AND push_bit 6 3"
definition ITEM_clsid :: "item \<Rightarrow> u8" where "ITEM_clsid it = CLEAR_LRU (slabs_clsid it)"
definition ITEM_lruid :: "item \<Rightarrow> u8" where "ITEM_lruid it = GET_LRU (slabs_clsid it)"

definition HOT_LRU :: u8 where "HOT_LRU = 0"
definition WARM_LRU :: u8 where "WARM_LRU = 64"
definition COLD_LRU :: u8 where "COLD_LRU = 128"
definition TEMP_LRU :: u8 where "TEMP_LRU = 192"

lemmas lru_id_defs = HOT_LRU_def WARM_LRU_def COLD_LRU_def TEMP_LRU_def

text \<open>The key an item is stored under: \<^verbatim>\<open>nkey\<close> bytes from \<^verbatim>\<open>ITEM_key\<close>.\<close>

definition item_key :: "item \<Rightarrow> bytes" where
  "item_key it = take (unat (nkey it)) (i_key it)"

text \<open>\<^verbatim>\<open>(nkey == it->nkey) && (memcmp(key, ITEM_key(it), nkey) == 0)\<close>\<close>

definition key_matches :: "bytes \<Rightarrow> item \<Rightarrow> bool" where
  "key_matches k it \<longleftrightarrow> length k = unat (nkey it) \<and> k = take (length k) (i_key it)"

definition key_wf :: "item \<Rightarrow> bool" where
  "key_wf it \<longleftrightarrow> unat (nkey it) \<le> length (i_key it)"

lemma key_matches_iff: "key_wf it \<Longrightarrow> key_matches k it \<longleftrightarrow> k = item_key it"
  by (auto simp: key_matches_def item_key_def key_wf_def)

lemma key_matches_imp: "key_matches k it \<Longrightarrow> item_key it = k"
  by (auto simp: key_matches_def item_key_def)

lemma key_matches_self: "key_wf it \<Longrightarrow> key_matches (item_key it) it"
  by (simp add: key_matches_iff)

section \<open>Settings and the shared part of the process state\<close>

record settings =
  maxbytes :: u64
  oldest_live :: u32
  oldest_cas :: u64
  evict_to_free :: bool
  factor_num :: nat
  factor_den :: nat
  chunk_size :: nat
  use_cas :: bool
  item_size_max :: nat
  slab_chunk_size_max :: nat
  slab_page_size :: nat
  lru_segmented :: bool
  slab_reassign :: bool
  slab_automove :: nat
  hot_lru_pct :: u64
  warm_lru_pct :: u64
  tail_repair_time :: u32
  inline_ascii_response :: bool
  temp_lru :: bool
  temporary_ttl :: u32

text \<open>
  \<open>hash\<close> is the function pointer that \<^verbatim>\<open>hash_init\<close> sets; \<open>item_locks\<close> tells which mutexes of the
  item lock table are held.
\<close>

record base_state =
  heap :: "addr \<Rightarrow> item"
  settings :: settings
  current_time :: u32
  hash :: "bytes \<Rightarrow> u32"
  item_lock_hashpower :: nat
  item_locks :: "nat \<Rightarrow> bool"

definition upd_item :: "addr \<Rightarrow> (item \<Rightarrow> item) \<Rightarrow> 'z base_state_scheme \<Rightarrow> 'z base_state_scheme" where
  "upd_item a f s = s\<lparr>heap := (heap s)(a := f (heap s a))\<rparr>"

lemma heap_upd_item [simp]: "heap (upd_item a f s) = (heap s)(a := f (heap s a))"
  by (simp add: upd_item_def)

lemma upd_item_frame [simp]:
  "settings (upd_item a f s) = settings s" "current_time (upd_item a f s) = current_time s"
  "hash (upd_item a f s) = hash s" "item_lock_hashpower (upd_item a f s) = item_lock_hashpower s"
  "item_locks (upd_item a f s) = item_locks s" "base_state.more (upd_item a f s) = base_state.more s"
  by (simp_all add: upd_item_def)

section \<open>Item locks\<close>

text \<open>
  \<open>hashsize\<close> and \<open>hashmask\<close> are computed in 64 bits (\<^verbatim>\<open>unsigned long\<close>).
\<close>

definition hashsize :: "nat \<Rightarrow> u64" where
  "hashsize n = push_bit n 1"

definition hashmask :: "nat \<Rightarrow> u64" where
  "hashmask n = hashsize n - 1"

definition hv_bucket :: "u32 \<Rightarrow> nat \<Rightarrow> nat" where
  "hv_bucket hv n = unat (ucast hv AND hashmask n)"

lemma hashmask_mask: "hashmask n = mask n"
  by (simp add: hashmask_def hashsize_def mask_eq_decr_exp push_bit_eq_mult)

lemma hv_bucket_mod: "n < 64 \<Longrightarrow> hv_bucket hv n = unat hv mod 2 ^ n"
proof -
  have "hv_bucket hv n = unat (take_bit n (ucast hv :: u64))"
    by (simp add: hv_bucket_def hashmask_mask take_bit_eq_mask)
  also have "\<dots> = unat (ucast hv :: u64) mod 2 ^ n"
    by (rule unat_take_bit_mod)
  also have "unat (ucast hv :: u64) = unat hv"
  proof -
    have "unat hv < 2 ^ 32" using unsigned_less [of hv, where 'a = nat] by simp
    then have "take_bit 64 (unat hv) = unat hv" by (intro take_bit_nat_eq_self) simp
    then show ?thesis by (simp add: unsigned_ucast_eq)
  qed
  finally show ?thesis .
qed

definition item_trylock :: "u32 \<Rightarrow> 'z base_state_scheme \<Rightarrow> (nat \<times> 'z base_state_scheme) option" where
  "item_trylock hv s =
     (let l = hv_bucket hv (item_lock_hashpower s)
      in if item_locks s l then None else Some (l, s\<lparr>item_locks := (item_locks s)(l := True)\<rparr>))"

definition item_trylock_unlock :: "nat \<Rightarrow> 'z base_state_scheme \<Rightarrow> 'z base_state_scheme" where
  "item_trylock_unlock l s = s\<lparr>item_locks := (item_locks s)(l := False)\<rparr>"

section \<open>Hash chains on the heap\<close>

primrec hchain :: "(addr \<Rightarrow> item) \<Rightarrow> addr \<Rightarrow> addr list \<Rightarrow> bool" where
  "hchain h p [] \<longleftrightarrow> p = NULL"
| "hchain h p (x # xs) \<longleftrightarrow> p = x \<and> x \<noteq> NULL \<and> hchain h (h_next (h x)) xs"

lemma hchain_NULL [simp]: "hchain h NULL xs \<longleftrightarrow> xs = []"
  by (cases xs) auto

lemma hchain_unique: "hchain h p xs \<Longrightarrow> hchain h p ys \<Longrightarrow> xs = ys"
  by (induction xs arbitrary: p ys; case_tac ys; auto)

lemma hchain_cong:
  "(\<And>x. x \<in> set xs \<Longrightarrow> h_next (h' x) = h_next (h x)) \<Longrightarrow> hchain h' p xs = hchain h p xs"
  by (induction xs arbitrary: p) auto

lemma hchain_upd_notin [simp]: "a \<notin> set xs \<Longrightarrow> hchain (h(a := v)) p xs = hchain h p xs"
  by (rule hchain_cong) auto

lemma hchain_nonnull: "hchain h p xs \<Longrightarrow> NULL \<notin> set xs"
  by (induction xs arbitrary: p) auto

section \<open>Doubly linked queues on the heap\<close>

definition first_or :: "addr list \<Rightarrow> addr \<Rightarrow> addr" where
  "first_or xs n = (case xs of [] \<Rightarrow> n | x # _ \<Rightarrow> x)"

definition last_or :: "addr list \<Rightarrow> addr \<Rightarrow> addr" where
  "last_or xs p = (if xs = [] then p else last xs)"

lemma first_or_simps [simp]: "first_or [] n = n" "first_or (x # xs) n = x"
  by (simp_all add: first_or_def)

lemma first_or_append [simp]: "first_or (xs @ ys) n = first_or xs (first_or ys n)"
  by (cases xs) auto

lemma last_or_simps [simp]: "last_or [] p = p" "last_or (x # xs) p = last_or xs x"
  by (auto simp: last_or_def)

lemma last_or_append [simp]: "last_or (xs @ ys) p = last_or ys (last_or xs p)"
  by (induction xs arbitrary: p) auto

lemma last_or_in: "xs \<noteq> [] \<Longrightarrow> last_or xs p \<in> set xs"
  by (simp add: last_or_def)

lemma first_or_in: "xs \<noteq> [] \<Longrightarrow> first_or xs p \<in> set xs"
  by (cases xs) auto

lemma first_or_eqD: "first_or xs NULL = a \<Longrightarrow> a \<noteq> NULL \<Longrightarrow> a \<in> set xs"
  by (cases xs) auto

lemma last_or_eqD: "last_or xs NULL = a \<Longrightarrow> a \<noteq> NULL \<Longrightarrow> a \<in> set xs"
  by (auto simp: last_or_def split: if_splits)

primrec dseg :: "(addr \<Rightarrow> item) \<Rightarrow> addr \<Rightarrow> addr list \<Rightarrow> addr \<Rightarrow> bool" where
  "dseg h p [] n \<longleftrightarrow> True"
| "dseg h p (x # xs) n \<longleftrightarrow>
     x \<noteq> NULL \<and> i_prev (h x) = p \<and> i_next (h x) = first_or xs n \<and> dseg h x xs n"

lemma dseg_append:
  "dseg h p (xs @ ys) n \<longleftrightarrow> dseg h p xs (first_or ys n) \<and> dseg h (last_or xs p) ys n"
  by (induction xs arbitrary: p) auto

lemma dseg_cong:
  "(\<And>x. x \<in> set xs \<Longrightarrow> i_prev (h' x) = i_prev (h x) \<and> i_next (h' x) = i_next (h x)) \<Longrightarrow>
   dseg h' p xs n = dseg h p xs n"
  by (induction xs arbitrary: p) auto

lemma dseg_upd_notin [simp]: "a \<notin> set xs \<Longrightarrow> dseg (h(a := v)) p xs n = dseg h p xs n"
  by (rule dseg_cong) auto

lemma dseg_nonnull: "dseg h p xs n \<Longrightarrow> NULL \<notin> set xs"
  by (induction xs arbitrary: p) auto

definition dll :: "(addr \<Rightarrow> item) \<Rightarrow> addr \<Rightarrow> addr \<Rightarrow> addr list \<Rightarrow> bool" where
  "dll h hp tp xs \<longleftrightarrow> distinct xs \<and> dseg h NULL xs NULL \<and> hp = first_or xs NULL \<and> tp = last_or xs NULL"

lemma dll_cong:
  "(\<And>x. x \<in> set xs \<Longrightarrow> i_prev (h' x) = i_prev (h x) \<and> i_next (h' x) = i_next (h x)) \<Longrightarrow>
   dll h' hp tp xs = dll h hp tp xs"
  using dseg_cong [of xs h' h NULL NULL] by (simp add: dll_def)

lemma dll_upd_notin [simp]: "a \<notin> set xs \<Longrightarrow> dll (h(a := v)) hp tp xs = dll h hp tp xs"
  by (rule dll_cong) auto

lemma dll_nonnull: "dll h hp tp xs \<Longrightarrow> NULL \<notin> set xs"
  by (auto simp: dll_def dseg_nonnull)

lemma dll_distinct: "dll h hp tp xs \<Longrightarrow> distinct xs"
  by (simp add: dll_def)

lemma dll_head_NULL: "dll h hp tp xs \<Longrightarrow> hp = NULL \<longleftrightarrow> xs = []"
  by (cases xs) (auto simp: dll_def)

lemma dll_tail_NULL: "dll h hp tp xs \<Longrightarrow> tp = NULL \<longleftrightarrow> xs = []"
proof (cases "xs = []")
  case False
  assume d: "dll h hp tp xs"
  have "last_or xs NULL \<noteq> NULL" using False last_or_in [of xs NULL] dll_nonnull [OF d] by metis
  with False d show ?thesis by (simp add: dll_def)
qed (simp add: dll_def)

lemma dll_split_links:
  assumes "dll h hp tp (ps @ x # ns)"
  shows "i_prev (h x) = last_or ps NULL" "i_next (h x) = first_or ns NULL"
    "x \<notin> set ps" "x \<notin> set ns" "x \<noteq> NULL"
  using assms by (auto simp: dll_def dseg_append)

text \<open>
  What a heap update must do to the link fields so that the queue gains a head or loses a
  member. The code's own pointer assignments are instances.
\<close>

lemma dseg_relink_prev:
  assumes "dseg h p xs n" "distinct xs"
    and "\<And>y. y \<in> set xs \<Longrightarrow> i_next (h' y) = i_next (h y)"
    and "\<And>y. y \<in> set xs \<Longrightarrow> i_prev (h' y) = (if y = first_or xs NULL then p' else i_prev (h y))"
  shows "dseg h' p' xs n"
proof (cases xs)
  case (Cons x ys)
  have "dseg h' x ys n = dseg h x ys n"
    by (rule dseg_cong) (use assms Cons in auto)
  then show ?thesis using assms Cons by auto
qed simp

lemma dseg_relink_next:
  assumes "dseg h p xs n" "distinct xs"
    and "\<And>y. y \<in> set xs \<Longrightarrow> i_prev (h' y) = i_prev (h y)"
    and "\<And>y. y \<in> set xs \<Longrightarrow> i_next (h' y) = (if y = last_or xs NULL then n' else i_next (h y))"
  shows "dseg h' p xs n'"
proof (cases xs rule: rev_cases)
  case (snoc ys x)
  have "dseg h' p ys x = dseg h p ys x"
    by (rule dseg_cong) (use assms snoc in auto)
  then show ?thesis using assms snoc by (auto simp: dseg_append)
qed simp

lemma dll_link_head:
  assumes d: "dll h hp tp xs" and x: "x \<notin> set xs" "x \<noteq> NULL"
    and nx: "i_prev (h' x) = NULL" "i_next (h' x) = hp"
    and ny: "\<And>y. y \<in> set xs \<Longrightarrow> i_next (h' y) = i_next (h y)"
    and py: "\<And>y. y \<in> set xs \<Longrightarrow> i_prev (h' y) = (if y = hp then x else i_prev (h y))"
  shows "dll h' x (if tp = NULL then x else tp) (x # xs)"
proof -
  have s: "dseg h' x xs NULL"
    by (rule dseg_relink_prev [of h NULL]) (use d ny py in \<open>auto simp: dll_def\<close>)
  have "(if tp = NULL then x else tp) = last_or xs x"
    using dll_tail_NULL [OF d] d by (auto simp: dll_def last_or_def)
  with s show ?thesis using d x nx by (auto simp: dll_def)
qed

lemma dll_link_tail:
  assumes d: "dll h hp tp xs" and x: "x \<notin> set xs" "x \<noteq> NULL"
    and nx: "i_prev (h' x) = tp" "i_next (h' x) = NULL"
    and py: "\<And>y. y \<in> set xs \<Longrightarrow> i_prev (h' y) = i_prev (h y)"
    and ny: "\<And>y. y \<in> set xs \<Longrightarrow> i_next (h' y) = (if y = tp then x else i_next (h y))"
  shows "dll h' (if hp = NULL then x else hp) x (xs @ [x])"
proof -
  have s: "dseg h' NULL xs x"
    by (rule dseg_relink_next [of h NULL xs NULL]) (use d ny py in \<open>auto simp: dll_def\<close>)
  have "(if hp = NULL then x else hp) = first_or xs x"
    using dll_head_NULL [OF d] d by (cases xs) (auto simp: dll_def)
  with s show ?thesis using d x nx by (auto simp: dll_def dseg_append)
qed

lemma dll_unlink:
  assumes d: "dll h hp tp (ps @ x # ns)"
    and py: "\<And>y. y \<in> set ps \<union> set ns \<Longrightarrow>
      i_prev (h' y) = (if y = i_next (h x) then i_prev (h x) else i_prev (h y))"
    and ny: "\<And>y. y \<in> set ps \<union> set ns \<Longrightarrow>
      i_next (h' y) = (if y = i_prev (h x) then i_next (h x) else i_next (h y))"
  shows "dll h' (if hp = x then i_next (h x) else hp) (if tp = x then i_prev (h x) else tp) (ps @ ns)"
proof -
  note l = dll_split_links [OF d]
  have nn: "NULL \<notin> set ps" "NULL \<notin> set ns" using dll_nonnull [OF d] by auto
  have dj: "distinct ps" "distinct ns" "set ps \<inter> set ns = {}"
    using d by (auto simp: dll_def)
  have seg: "dseg h NULL ps x" "dseg h x ns NULL"
    using d by (auto simp: dll_def dseg_append)
  have a: "dseg h' NULL ps (first_or ns NULL)"
  proof (rule dseg_relink_next [OF seg(1) dj(1)])
    fix y assume y: "y \<in> set ps"
    have "y \<noteq> first_or ns NULL" using y dj nn by (metis disjoint_iff first_or_eqD)
    then show "i_prev (h' y) = i_prev (h y)" using y py l by simp
    show "i_next (h' y) = (if y = last_or ps NULL then first_or ns NULL else i_next (h y))"
      using y ny l by simp
  qed
  have b: "dseg h' (last_or ps NULL) ns NULL"
  proof (rule dseg_relink_prev [OF seg(2) dj(2)])
    fix y assume y: "y \<in> set ns"
    have "y \<noteq> last_or ps NULL" using y dj nn by (metis disjoint_iff last_or_eqD)
    then show "i_next (h' y) = i_next (h y)" using y ny l by simp
    show "i_prev (h' y) = (if y = first_or ns NULL then last_or ps NULL else i_prev (h y))"
      using y py l by simp
  qed
  have hp': "(if hp = x then i_next (h x) else hp) = first_or (ps @ ns) NULL"
    using d l by (cases ps) (auto simp: dll_def)
  have tp': "(if tp = x then i_prev (h x) else tp) = last_or (ps @ ns) NULL"
    using d l by (cases ns rule: rev_cases) (auto simp: dll_def)
  show ?thesis
    unfolding dll_def hp' tp' using a b d by (auto simp: dseg_append dll_def)
qed

end
