(* ===== verification/Assoc.thy ===== *)
theory Assoc
  imports Mc_Heap
begin

text \<open>
  The associative array of \<^verbatim>\<open>slabs_curd/assoc.c\<close>: a chained hash table with incremental
  expansion. While \<open>expanding\<close>, the keys whose bucket of the previous table is not yet migrated
  live in \<open>old_hashtable\<close> and all others in \<open>primary_hashtable\<close>; a maintenance thread
  migrates one bucket at a time. Every operation works on the heap's \<^verbatim>\<open>h_next\<close> pointers. The
  abstract contract, a finite map from keys to item addresses, is in \<open>Assoc_Sys\<close>.
\<close>

section \<open>State and operations\<close>

record assoc_state = base_state +
  hashpower :: nat
  primary_hashtable :: "addr list"
  old_hashtable :: "addr list"
  expanding :: bool
  started_expanding :: bool
  expand_bucket :: nat
  hash_bulk_move :: nat

abbreviation (input) HASHPOWER_MAX :: nat where "HASHPOWER_MAX \<equiv> 32"

text \<open>The address of an \<^verbatim>\<open>item*\<close> variable: a table entry or the \<^verbatim>\<open>h_next\<close> field of an item.\<close>

datatype hpos = Primary nat | Old nat | HNext addr

definition hpos_read :: "'z assoc_state_scheme \<Rightarrow> hpos \<Rightarrow> addr" where
  "hpos_read s p = (case p of Primary i \<Rightarrow> primary_hashtable s ! i | Old j \<Rightarrow> old_hashtable s ! j
     | HNext a \<Rightarrow> h_next (heap s a))"

definition hpos_write :: "hpos \<Rightarrow> addr \<Rightarrow> 'z assoc_state_scheme \<Rightarrow> 'z assoc_state_scheme" where
  "hpos_write p v s = (case p of
       Primary i \<Rightarrow> s\<lparr>primary_hashtable := (primary_hashtable s)[i := v]\<rparr>
     | Old j \<Rightarrow> s\<lparr>old_hashtable := (old_hashtable s)[j := v]\<rparr>
     | HNext a \<Rightarrow> upd_item a (\<lambda>it. it\<lparr>h_next := v\<rparr>) s)"

text \<open>
  The bucket choice that \<open>assoc_find\<close>, \<open>_hashitem_before\<close> and \<open>assoc_insert\<close> share.
\<close>

definition hash_slot :: "u32 \<Rightarrow> 'z assoc_state_scheme \<Rightarrow> hpos" where
  "hash_slot hv s =
     (let oldbucket = hv_bucket hv (hashpower s - 1)
      in if expanding s \<and> expand_bucket s \<le> oldbucket then Old oldbucket
         else Primary (hv_bucket hv (hashpower s)))"

definition assoc_init :: "nat \<Rightarrow> bool \<Rightarrow> 'z assoc_state_scheme \<Rightarrow> 'z assoc_state_scheme option" where
  "assoc_init hashtable_init calloc_ok s =
     (let s = (if hashtable_init \<noteq> 0 then s\<lparr>hashpower := hashtable_init\<rparr> else s)
      in if calloc_ok
         then Some (s\<lparr>primary_hashtable := replicate (unat (hashsize (hashpower s))) NULL\<rparr>)
         else None)"

partial_function (option) chain_find :: "(addr \<Rightarrow> item) \<Rightarrow> bytes \<Rightarrow> addr \<Rightarrow> addr option" where
  "chain_find h key it =
     (if it = NULL then Some NULL
      else if key_matches key (h it) then Some it
      else chain_find h key (h_next (h it)))"

definition assoc_find :: "bytes \<Rightarrow> u32 \<Rightarrow> 'z assoc_state_scheme \<Rightarrow> addr option" where
  "assoc_find key hv s = chain_find (heap s) key (hpos_read s (hash_slot hv s))"

partial_function (option) before_loop :: "'z assoc_state_scheme \<Rightarrow> bytes \<Rightarrow> hpos \<Rightarrow> hpos option" where
  "before_loop s key pos =
     (if hpos_read s pos \<noteq> NULL \<and> \<not> key_matches key (heap s (hpos_read s pos))
      then before_loop s key (HNext (hpos_read s pos))
      else Some pos)"

definition hashitem_before :: "bytes \<Rightarrow> u32 \<Rightarrow> 'z assoc_state_scheme \<Rightarrow> hpos option" where
  "hashitem_before key hv s = before_loop s key (hash_slot hv s)"

definition assoc_expand :: "bool \<Rightarrow> 'z assoc_state_scheme \<Rightarrow> 'z assoc_state_scheme" where
  "assoc_expand calloc_ok s =
     (let s = s\<lparr>old_hashtable := primary_hashtable s\<rparr>
      in if calloc_ok
         then s\<lparr>primary_hashtable := replicate (unat (hashsize (hashpower s + 1))) NULL,
                hashpower := hashpower s + 1, expanding := True, expand_bucket := 0\<rparr>
         else s\<lparr>primary_hashtable := old_hashtable s\<rparr>)"

definition assoc_start_expand :: "u64 \<Rightarrow> 'z assoc_state_scheme \<Rightarrow> 'z assoc_state_scheme" where
  "assoc_start_expand curr_items s =
     (if started_expanding s then s
      else if curr_items > hashsize (hashpower s) * 3 div 2 \<and> hashpower s < HASHPOWER_MAX
      then s\<lparr>started_expanding := True\<rparr> else s)"

definition assoc_insert :: "addr \<Rightarrow> u32 \<Rightarrow> 'z assoc_state_scheme \<Rightarrow> 'z assoc_state_scheme" where
  "assoc_insert it hv s =
     (let pos = hash_slot hv s;
          s = upd_item it (\<lambda>i. i\<lparr>h_next := hpos_read s pos\<rparr>) s
      in hpos_write pos it s)"

definition assoc_delete :: "bytes \<Rightarrow> u32 \<Rightarrow> 'z assoc_state_scheme \<Rightarrow> 'z assoc_state_scheme option" where
  "assoc_delete key hv s = do {
     before \<leftarrow> hashitem_before key hv s;
     (let it = hpos_read s before in
      if it \<noteq> NULL then
        (let nxt = h_next (heap s it);
             s = upd_item it (\<lambda>i. i\<lparr>h_next := NULL\<rparr>) s
         in Some (hpos_write before nxt s))
      else None)
   }"

text \<open>
  The maintenance thread. \<open>move_chain\<close> is the inner loop over the chain of the bucket being
  migrated; \<open>move_bucket\<close> is one turn of the bulk-move loop, with the item lock that covers the
  bucket taken by \<open>item_trylock\<close> (when another thread holds it the turn only sleeps).
\<close>

partial_function (option) move_chain :: "addr \<Rightarrow> 'z assoc_state_scheme \<Rightarrow> 'z assoc_state_scheme option" where
  "move_chain it s =
     (if it = NULL then Some s
      else let nxt = h_next (heap s it);
               bucket = hv_bucket (hash s (item_key (heap s it))) (hashpower s);
               s = upd_item it (\<lambda>i. i\<lparr>h_next := primary_hashtable s ! bucket\<rparr>) s;
               s = s\<lparr>primary_hashtable := (primary_hashtable s)[bucket := it]\<rparr>
           in move_chain nxt s)"

definition move_bucket :: "'z assoc_state_scheme \<Rightarrow> 'z assoc_state_scheme option" where
  "move_bucket s = (case item_trylock (word_of_nat (expand_bucket s)) s of
       None \<Rightarrow> Some s
     | Some (l, s) \<Rightarrow> do {
         s \<leftarrow> move_chain (old_hashtable s ! expand_bucket s) s;
         let s = s\<lparr>old_hashtable := (old_hashtable s)[expand_bucket s := NULL]\<rparr>;
         let s = s\<lparr>expand_bucket := expand_bucket s + 1\<rparr>;
         let s = (if expand_bucket s = unat (hashsize (hashpower s - 1))
                  then s\<lparr>expanding := False, old_hashtable := []\<rparr> else s);
         Some (item_trylock_unlock l s)
       })"

fun move_buckets :: "nat \<Rightarrow> 'z assoc_state_scheme \<Rightarrow> 'z assoc_state_scheme option" where
  "move_buckets 0 s = Some s"
| "move_buckets (Suc n) s =
     (if expanding s then do { s \<leftarrow> move_bucket s; move_buckets n s } else Some s)"

text \<open>
  The thread's outer loop, cut at the point where it blocks: \<open>assoc_maintenance_turn\<close> runs the
  bulk move and, when no expansion is in progress, clears \<open>started_expanding\<close> and waits on the
  condition variable; \<open>assoc_maintenance_wake\<close> is what runs when the wait returns, between
  \<^verbatim>\<open>pause_threads\<close> calls that stop all workers.
\<close>

definition assoc_maintenance_turn :: "'z assoc_state_scheme \<Rightarrow> 'z assoc_state_scheme option" where
  "assoc_maintenance_turn s = do {
     s \<leftarrow> move_buckets (hash_bulk_move s) s;
     Some (if expanding s then s else s\<lparr>started_expanding := False\<rparr>)
   }"

definition assoc_maintenance_wake :: "bool \<Rightarrow> 'z assoc_state_scheme \<Rightarrow> 'z assoc_state_scheme" where
  "assoc_maintenance_wake calloc_ok s = (if expanding s then s else assoc_expand calloc_ok s)"

definition start_assoc_maintenance_thread :: "int option \<Rightarrow> 'z assoc_state_scheme \<Rightarrow> 'z assoc_state_scheme" where
  "start_assoc_maintenance_thread env s = (case env of
     None \<Rightarrow> s | Some n \<Rightarrow> s\<lparr>hash_bulk_move := (if n = 0 then 1 else nat n)\<rparr>)"

section \<open>Representation invariant\<close>

definition assoc_wf :: "'z assoc_state_scheme \<Rightarrow> bool" where
  "assoc_wf s \<longleftrightarrow> hashpower s \<le> HASHPOWER_MAX \<and> length (primary_hashtable s) = 2 ^ hashpower s \<and>
     (expanding s \<longrightarrow> 0 < hashpower s \<and> length (old_hashtable s) = 2 ^ (hashpower s - 1) \<and>
        expand_bucket s < 2 ^ (hashpower s - 1))"

primrec valid_slot :: "'z assoc_state_scheme \<Rightarrow> hpos \<Rightarrow> bool" where
  "valid_slot s (Primary i) \<longleftrightarrow> i < length (primary_hashtable s)"
| "valid_slot s (Old j) \<longleftrightarrow> expanding s \<and> j < length (old_hashtable s)"
| "valid_slot s (HNext a) \<longleftrightarrow> False"

definition item_slot :: "'z assoc_state_scheme \<Rightarrow> addr \<Rightarrow> hpos" where
  "item_slot s x = hash_slot (hash s (item_key (heap s x))) s"

definition slot_ok :: "'z assoc_state_scheme \<Rightarrow> hpos \<Rightarrow> addr list \<Rightarrow> bool" where
  "slot_ok s sl xs \<longleftrightarrow> hchain (heap s) (hpos_read s sl) xs \<and>
     (\<forall>x \<in> set xs. key_wf (heap s x) \<and> item_slot s x = sl) \<and>
     inj_on (\<lambda>x. item_key (heap s x)) (set xs)"

text \<open>\<open>C\<close> gives the chain of every table entry.\<close>

definition assoc_rep :: "'z assoc_state_scheme \<Rightarrow> (hpos \<Rightarrow> addr list) \<Rightarrow> bool" where
  "assoc_rep s C \<longleftrightarrow> assoc_wf s \<and> (\<forall>sl. valid_slot s sl \<longrightarrow> slot_ok s sl (C sl)) \<and>
     (\<forall>sl. \<not> valid_slot s sl \<longrightarrow> C sl = [])"

definition chain_items :: "(hpos \<Rightarrow> addr list) \<Rightarrow> addr set" where
  "chain_items C = (\<Union>sl. set (C sl))"

lemma unat_hashsize: "n < 64 \<Longrightarrow> unat (hashsize n) = 2 ^ n"
proof -
  assume n: "n < 64"
  then have lt: "(2::nat) ^ n < 2 ^ 64" by (intro power_strict_increasing) auto
  have "hashsize n = of_nat (2 ^ n)" by (simp add: hashsize_def push_bit_eq_mult)
  then have "unat (hashsize n) = take_bit 64 (2 ^ n)" by (simp only: unsigned_of_nat) simp
  with lt show ?thesis by (simp only: take_bit_nat_eq_self)
qed

lemma hash_slot_valid: "assoc_wf s \<Longrightarrow> valid_slot s (hash_slot hv s)"
  by (auto simp: hash_slot_def assoc_wf_def Let_def hv_bucket_mod)

lemma hash_slot_not_HNext [simp]: "hash_slot hv s \<noteq> HNext a"
  by (simp add: hash_slot_def Let_def)

lemma hchain_distinct: "hchain h p xs \<Longrightarrow> distinct xs"
proof (induction xs arbitrary: p)
  case (Cons x xs)
  have "x \<notin> set xs"
  proof
    assume "x \<in> set xs"
    then obtain ys zs where xs: "xs = ys @ x # zs" by (auto simp: in_set_conv_decomp)
    have seg: "hchain h x (x # zs)" if "hchain h q (ys @ x # zs)" for q
      using that by (induction ys arbitrary: q) auto
    from Cons.prems xs have "hchain h x (x # ys @ x # zs)" "hchain h (h_next (h x)) (ys @ x # zs)" by auto
    with seg have "hchain h x (x # zs)" by blast
    from hchain_unique [OF this \<open>hchain h x (x # ys @ x # zs)\<close>] show False by auto
  qed
  with Cons show ?case by auto
qed simp

lemma assoc_rep_slot:
  "assoc_rep s C \<Longrightarrow> slot_ok s (hash_slot hv s) (C (hash_slot hv s))"
  by (simp add: assoc_rep_def hash_slot_valid)

lemma assoc_rep_item_slot:
  "assoc_rep s C \<Longrightarrow> x \<in> set (C sl) \<Longrightarrow> item_slot s x = sl \<and> key_wf (heap s x) \<and> valid_slot s sl"
  by (cases "valid_slot s sl") (auto simp: assoc_rep_def slot_ok_def)

lemma chain_items_slot:
  assumes "assoc_rep s C" "x \<in> chain_items C"
  shows "x \<in> set (C (hash_slot (hash s (item_key (heap s x))) s))"
proof -
  from assms(2) obtain sl where sl: "x \<in> set (C sl)" by (auto simp: chain_items_def)
  with assms(1) have "item_slot s x = sl" by (blast dest: assoc_rep_item_slot)
  with sl show ?thesis by (simp add: item_slot_def)
qed

lemma chain_itemsI: "x \<in> set (C sl) \<Longrightarrow> x \<in> chain_items C"
  by (auto simp: chain_items_def)

lemma chain_items_nonnull: "assoc_rep s C \<Longrightarrow> NULL \<notin> chain_items C"
  by (force simp: chain_items_def assoc_rep_def slot_ok_def dest: hchain_nonnull)

section \<open>Lookup\<close>

lemma chain_find_hchain:
  "hchain h p xs \<Longrightarrow>
   chain_find h k p = Some (case find (\<lambda>x. key_matches k (h x)) xs of None \<Rightarrow> NULL | Some x \<Rightarrow> x)"
proof (induction xs arbitrary: p)
  case Nil
  then show ?case by (simp add: chain_find.simps)
next
  case (Cons x xs)
  then show ?case by (subst chain_find.simps) auto
qed

lemma find_key_matches:
  assumes ok: "slot_ok s sl xs"
  shows "find (\<lambda>x. key_matches k (heap s x)) xs = Some x \<longleftrightarrow> x \<in> set xs \<and> item_key (heap s x) = k"
proof -
  have km: "key_matches k (heap s y) \<longleftrightarrow> item_key (heap s y) = k" if "y \<in> set xs" for y
    using that ok by (auto simp: slot_ok_def key_matches_iff)
  show ?thesis
  proof
    assume "find (\<lambda>x. key_matches k (heap s x)) xs = Some x"
    then show "x \<in> set xs \<and> item_key (heap s x) = k"
      using km by (metis find_Some_iff nth_mem)
  next
    assume x: "x \<in> set xs \<and> item_key (heap s x) = k"
    then have "find (\<lambda>x. key_matches k (heap s x)) xs \<noteq> None"
      using km by (auto simp: find_None_iff)
    then obtain y where y: "find (\<lambda>x. key_matches k (heap s x)) xs = Some y" by auto
    then have "y \<in> set xs \<and> item_key (heap s y) = k" using km by (metis find_Some_iff nth_mem)
    with x ok have "y = x" by (auto simp: slot_ok_def inj_on_def)
    with y show "find (\<lambda>x. key_matches k (heap s x)) xs = Some x" by simp
  qed
qed

text \<open>The finite map the table represents: what \<open>assoc_find\<close> returns for a key and its hash.\<close>

definition assoc_map :: "'z assoc_state_scheme \<Rightarrow> bytes \<Rightarrow> addr option" where
  "assoc_map s k = (case assoc_find k (hash s k) s of
     None \<Rightarrow> None | Some p \<Rightarrow> if p = NULL then None else Some p)"

lemma assoc_find_total:
  assumes "assoc_rep s C"
  shows "\<exists>p. assoc_find k hv s = Some p"
proof -
  have "slot_ok s (hash_slot hv s) (C (hash_slot hv s))" using assms by (rule assoc_rep_slot)
  then show ?thesis by (auto simp: assoc_find_def slot_ok_def chain_find_hchain)
qed

lemma chain_items_key:
  assumes "assoc_rep s C"
  shows "x \<in> chain_items C \<and> item_key (heap s x) = k \<longleftrightarrow>
    x \<in> set (C (hash_slot (hash s k) s)) \<and> item_key (heap s x) = k"
  using chain_items_slot [OF assms, of x] chain_itemsI [of x C] by auto

lemma assoc_find_eq:
  assumes rep: "assoc_rep s C"
  shows "assoc_find k (hash s k) s =
    Some (case find (\<lambda>x. key_matches k (heap s x)) (C (hash_slot (hash s k) s)) of
      None \<Rightarrow> NULL | Some x \<Rightarrow> x)"
  using assoc_rep_slot [OF rep, of "hash s k"]
  by (simp add: assoc_find_def slot_ok_def chain_find_hchain)

lemma assoc_map_eq:
  assumes rep: "assoc_rep s C"
  shows "assoc_map s k = Some x \<longleftrightarrow> x \<in> chain_items C \<and> item_key (heap s x) = k"
proof -
  let ?sl = "hash_slot (hash s k) s"
  have ok: "slot_ok s ?sl (C ?sl)" using rep by (rule assoc_rep_slot)
  then have nn: "NULL \<notin> set (C ?sl)" by (auto simp: slot_ok_def dest: hchain_nonnull)
  have "assoc_map s k = find (\<lambda>x. key_matches k (heap s x)) (C ?sl)"
  proof (cases "find (\<lambda>x. key_matches k (heap s x)) (C ?sl)")
    case None
    then show ?thesis by (simp add: assoc_map_def assoc_find_eq [OF rep])
  next
    case (Some y)
    then have "y \<in> set (C ?sl)" using find_key_matches [OF ok] by blast
    with nn have "y \<noteq> NULL" by metis
    with Some show ?thesis by (simp add: assoc_map_def assoc_find_eq [OF rep])
  qed
  then show ?thesis
    using find_key_matches [OF ok, of k x] chain_items_key [OF rep, of x k] by simp
qed

section \<open>Frame lemmas\<close>

lemma hpos_write_frame [simp]:
  "hashpower (hpos_write p v s) = hashpower s" "expanding (hpos_write p v s) = expanding s"
  "expand_bucket (hpos_write p v s) = expand_bucket s" "hash (hpos_write p v s) = hash s"
  "started_expanding (hpos_write p v s) = started_expanding s"
  "hash_bulk_move (hpos_write p v s) = hash_bulk_move s"
  "length (primary_hashtable (hpos_write p v s)) = length (primary_hashtable s)"
  "length (old_hashtable (hpos_write p v s)) = length (old_hashtable s)"
  by (simp_all add: hpos_write_def upd_item_def split: hpos.split)

lemma upd_item_assoc_frame [simp]:
  "hashpower (upd_item a f s) = hashpower s" "primary_hashtable (upd_item a f s) = primary_hashtable s"
  "old_hashtable (upd_item a f s) = old_hashtable s" "expanding (upd_item a f s) = expanding s"
  "started_expanding (upd_item a f s) = started_expanding s"
  "expand_bucket (upd_item a f s) = expand_bucket s" "hash_bulk_move (upd_item a f s) = hash_bulk_move s"
  by (simp_all add: upd_item_def)

lemma heap_hpos_write:
  "heap (hpos_write p v s) = (case p of HNext a \<Rightarrow> (heap s)(a := (heap s a)\<lparr>h_next := v\<rparr>) | _ \<Rightarrow> heap s)"
  by (simp add: hpos_write_def split: hpos.split)

lemma hpos_read_write:
  "valid_slot s p \<Longrightarrow> valid_slot s q \<Longrightarrow> hpos_read (hpos_write p v s) q = (if p = q then v else hpos_read s q)"
  by (cases p; cases q) (auto simp: hpos_read_def hpos_write_def nth_list_update)

lemma hash_slot_cong:
  "hashpower s' = hashpower s \<Longrightarrow> expanding s' = expanding s \<Longrightarrow> expand_bucket s' = expand_bucket s \<Longrightarrow>
   hash_slot hv s' = hash_slot hv s"
  by (simp add: hash_slot_def Let_def)

text \<open>Two items that differ in their links only: the table's view of an item is its key.\<close>

definition same_key :: "item \<Rightarrow> item \<Rightarrow> bool" where
  "same_key i j \<longleftrightarrow> nkey i = nkey j \<and> i_key i = i_key j"

lemma same_key_simps: "same_key i j \<Longrightarrow> item_key i = item_key j \<and> key_wf i = key_wf j"
  by (simp add: same_key_def item_key_def key_wf_def)

lemma same_key_refl [simp]: "same_key i i"
  by (simp add: same_key_def)

definition same_table :: "'z assoc_state_scheme \<Rightarrow> 'z assoc_state_scheme \<Rightarrow> bool" where
  "same_table s s' \<longleftrightarrow> hashpower s' = hashpower s \<and> expanding s' = expanding s \<and>
     expand_bucket s' = expand_bucket s \<and> hash s' = hash s \<and>
     length (primary_hashtable s') = length (primary_hashtable s) \<and>
     length (old_hashtable s') = length (old_hashtable s)"

lemma same_table_slot: "same_table s s' \<Longrightarrow> hash_slot hv s' = hash_slot hv s"
  by (rule hash_slot_cong) (simp_all add: same_table_def)

lemma same_table_valid: "same_table s s' \<Longrightarrow> valid_slot s' sl = valid_slot s sl"
  by (cases sl) (simp_all add: same_table_def)

lemma same_table_wf: "same_table s s' \<Longrightarrow> assoc_wf s' = assoc_wf s"
  by (simp add: same_table_def assoc_wf_def)

lemma same_table_item_slot:
  "same_table s s' \<Longrightarrow> same_key (heap s' x) (heap s x) \<Longrightarrow> item_slot s' x = item_slot s x"
  by (simp add: item_slot_def same_table_slot same_key_simps) (simp add: same_table_def)

lemma slot_ok_cong:
  assumes "same_table s s'" "hpos_read s' sl = hpos_read s sl"
    and eq: "\<And>x. x \<in> set xs \<Longrightarrow> same_key (heap s' x) (heap s x) \<and> h_next (heap s' x) = h_next (heap s x)"
  shows "slot_ok s' sl xs = slot_ok s sl xs"
proof -
  have "hchain (heap s') p xs = hchain (heap s) p xs" for p
    by (rule hchain_cong) (use eq in auto)
  moreover have "inj_on (\<lambda>x. item_key (heap s' x)) (set xs) = inj_on (\<lambda>x. item_key (heap s x)) (set xs)"
    by (rule inj_on_cong) (use eq same_key_simps in blast)
  moreover have "(\<forall>x\<in>set xs. key_wf (heap s' x) \<and> item_slot s' x = sl) =
      (\<forall>x\<in>set xs. key_wf (heap s x) \<and> item_slot s x = sl)"
    by (rule ball_cong) (use eq same_key_simps same_table_item_slot [OF assms(1)] in auto)
  ultimately show ?thesis using assms(2) by (simp add: slot_ok_def)
qed

lemma assoc_rep_disjoint:
  "assoc_rep s C \<Longrightarrow> x \<in> set (C sl) \<Longrightarrow> x \<in> set (C sl') \<Longrightarrow> sl = sl'"
  by (metis assoc_rep_item_slot)

lemma assoc_rep_upd:
  assumes rep: "assoc_rep s C" and same: "same_table s s'" and v: "valid_slot s sl"
    and rd: "\<And>sl'. valid_slot s sl' \<Longrightarrow> sl' \<noteq> sl \<Longrightarrow> hpos_read s' sl' = hpos_read s sl'"
    and eq: "\<And>x sl'. x \<in> set (C sl') \<Longrightarrow> sl' \<noteq> sl \<Longrightarrow>
      same_key (heap s' x) (heap s x) \<and> h_next (heap s' x) = h_next (heap s x)"
    and new: "slot_ok s' sl xs"
  shows "assoc_rep s' (C(sl := xs))"
proof -
  have "slot_ok s' sl' ((C(sl := xs)) sl')" if "valid_slot s sl'" for sl'
  proof (cases "sl' = sl")
    case False
    have "slot_ok s' sl' (C sl') = slot_ok s sl' (C sl')"
      by (rule slot_ok_cong [OF same]) (use rd eq that False in auto)
    with False that rep show ?thesis by (simp add: assoc_rep_def)
  qed (simp add: new)
  with rep same v show ?thesis
    by (simp add: assoc_rep_def same_table_valid same_table_wf)
qed

section \<open>Insertion and deletion\<close>

lemma slot_ok_Cons:
  assumes ok: "slot_ok s sl xs" and same: "same_table s s'"
    and it: "it \<notin> set xs" "it \<noteq> NULL" "key_wf (heap s it)" "item_slot s it = sl"
    and fresh: "\<And>x. x \<in> set xs \<Longrightarrow> item_key (heap s x) \<noteq> item_key (heap s it)"
    and hit: "heap s' = (heap s)(it := (heap s it)\<lparr>h_next := hpos_read s sl\<rparr>)"
    and rd: "hpos_read s' sl = it"
  shows "slot_ok s' sl (it # xs)"
proof -
  have k: "item_key (heap s' x) = item_key (heap s x)" "key_wf (heap s' x) = key_wf (heap s x)" for x
    by (auto simp: hit item_key_def key_wf_def)
  have sl: "item_slot s' x = item_slot s x" for x
    by (rule same_table_item_slot [OF same]) (simp add: hit same_key_def)
  have "hchain (heap s') (hpos_read s' sl) (it # xs)"
    using ok it by (simp add: slot_ok_def rd hit)
  moreover have "\<forall>x \<in> set (it # xs). key_wf (heap s' x) \<and> item_slot s' x = sl"
    using ok it by (simp add: slot_ok_def k sl)
  moreover have "inj_on (\<lambda>x. item_key (heap s' x)) (set (it # xs))"
  proof -
    have "item_key (heap s it) \<notin> (\<lambda>x. item_key (heap s x)) ` set xs" using fresh by (metis imageE)
    then show ?thesis using ok it(1) unfolding k slot_ok_def by simp
  qed
  ultimately show ?thesis by (simp only: slot_ok_def)
qed

lemma assoc_insert_heap:
  "heap (assoc_insert it hv s) = (heap s)(it := (heap s it)\<lparr>h_next := hpos_read s (hash_slot hv s)\<rparr>)"
  by (simp add: assoc_insert_def Let_def heap_hpos_write split: hpos.split)

lemma assoc_insert_same_table: "same_table s (assoc_insert it hv s)"
  by (simp add: same_table_def assoc_insert_def Let_def)

lemma assoc_insert_read:
  assumes "valid_slot s (hash_slot hv s)" "valid_slot s sl"
  shows "hpos_read (assoc_insert it hv s) sl = (if sl = hash_slot hv s then it else hpos_read s sl)"
proof -
  let ?t = "upd_item it (\<lambda>i. i\<lparr>h_next := hpos_read s (hash_slot hv s)\<rparr>) s"
  have "same_table s ?t" by (simp add: same_table_def)
  then have v: "valid_slot ?t (hash_slot hv s)" "valid_slot ?t sl"
    using assms by (simp_all add: same_table_valid)
  have "hpos_read ?t sl = hpos_read s sl" using assms(2) by (cases sl) (simp_all add: hpos_read_def)
  with hpos_read_write [OF v] show ?thesis by (auto simp: assoc_insert_def Let_def)
qed

lemma assoc_insert_rep:
  assumes rep: "assoc_rep s C" and it: "it \<notin> chain_items C" "it \<noteq> NULL" "key_wf (heap s it)"
    and hv: "hv = hash s (item_key (heap s it))"
    and fresh: "assoc_map s (item_key (heap s it)) = None"
  shows "assoc_rep (assoc_insert it hv s) (C(hash_slot hv s := it # C (hash_slot hv s)))"
proof -
  let ?sl = "hash_slot hv s" and ?s' = "assoc_insert it hv s"
  have v: "valid_slot s ?sl" using rep by (simp add: assoc_rep_def hash_slot_valid)
  have nin: "it \<notin> set (C sl)" for sl using it(1) chain_itemsI by metis
  note same = assoc_insert_same_table [of s it hv] and rd = assoc_insert_read [OF v, of _ it]
    and heap' = assoc_insert_heap [of it hv s]
  have f: "item_key (heap s x) \<noteq> item_key (heap s it)" if "x \<in> set (C ?sl)" for x
    using fresh assoc_map_eq [OF rep, of "item_key (heap s x)" x] chain_itemsI [of x C, OF that] by auto
  have "slot_ok ?s' ?sl (it # C ?sl)"
    by (rule slot_ok_Cons [OF assoc_rep_slot [OF rep] same nin it(2,3) _ f heap'])
      (simp_all add: item_slot_def hv [symmetric] rd v)
  moreover have "same_key (heap ?s' x) (heap s x) \<and> h_next (heap ?s' x) = h_next (heap s x)"
    if "x \<in> set (C sl')" for x sl'
  proof -
    have "x \<noteq> it" using nin that by metis
    then show ?thesis by (simp add: heap')
  qed
  ultimately show ?thesis
    by (intro assoc_rep_upd [OF rep same v]) (simp_all add: rd)
qed

lemma chain_items_upd:
  "chain_items (C(sl := xs)) = set xs \<union> (\<Union>sl'\<in>- {sl}. set (C sl'))"
  by (auto simp: chain_items_def split: if_splits)

lemma chain_items_insert:
  "chain_items (C(sl := x # C sl)) = insert x (chain_items C)"
  by (auto simp: chain_items_def split: if_splits)

lemma assoc_map_determined:
  assumes "assoc_rep s C" "\<And>k x. m k = Some x \<longleftrightarrow> x \<in> chain_items C \<and> item_key (heap s x) = k"
  shows "assoc_map s = m"
proof
  fix k
  have e: "assoc_map s k = Some x \<longleftrightarrow> m k = Some x" for x
    using assoc_map_eq [OF assms(1), of k x] assms(2) [of k x] by simp
  show "assoc_map s k = m k"
    by (cases "m k") (use e in \<open>metis option.exhaust\<close>)+
qed

lemma assoc_insert_map:
  assumes "assoc_rep s C" "it \<notin> chain_items C" "it \<noteq> NULL" "key_wf (heap s it)"
    "hv = hash s (item_key (heap s it))" "assoc_map s (item_key (heap s it)) = None"
  shows "assoc_map (assoc_insert it hv s) = (assoc_map s)(item_key (heap s it) \<mapsto> it)"
proof (rule assoc_map_determined [OF assoc_insert_rep [OF assms]])
  fix k x
  have k: "item_key (heap (assoc_insert it hv s) x) = item_key (heap s x)" for x
    by (simp add: assoc_insert_def Let_def heap_hpos_write item_key_def split: hpos.split)
  show "((assoc_map s)(item_key (heap s it) \<mapsto> it)) k = Some x \<longleftrightarrow>
      x \<in> chain_items (C(hash_slot hv s := it # C (hash_slot hv s))) \<and>
      item_key (heap (assoc_insert it hv s) x) = k"
    using assms(2) assms(6) assoc_map_eq [OF assms(1)]
    by (auto simp: chain_items_insert k) (metis option.distinct(1))
qed

definition pos_after :: "hpos \<Rightarrow> addr list \<Rightarrow> hpos" where
  "pos_after pos ys = (if ys = [] then pos else HNext (last ys))"

lemma before_loop_hchain:
  "hchain (heap s) (hpos_read s pos) xs \<Longrightarrow>
   before_loop s k pos = Some (pos_after pos (takeWhile (\<lambda>x. \<not> key_matches k (heap s x)) xs))"
proof (induction xs arbitrary: pos)
  case Nil
  then show ?case by (subst before_loop.simps) (simp add: pos_after_def)
next
  case (Cons x xs)
  have r: "hpos_read s (HNext x) = h_next (heap s x)" by (simp add: hpos_read_def)
  from Cons show ?case
    by (subst before_loop.simps) (auto simp: pos_after_def r)
qed

lemma hchain_remove:
  "hchain h p (ys @ x # zs) \<Longrightarrow> distinct (ys @ x # zs) \<Longrightarrow>
   (\<And>y. y \<in> set ys \<union> set zs \<Longrightarrow>
      h_next (h' y) = (if ys \<noteq> [] \<and> y = last ys then h_next (h x) else h_next (h y))) \<Longrightarrow>
   hchain h' (if ys = [] then h_next (h x) else p) (ys @ zs)"
proof (induction ys arbitrary: p)
  case Nil
  have "hchain h' q zs = hchain h q zs" for q
    by (rule hchain_cong) (use Nil.prems(3) in auto)
  with Nil show ?case by simp
next
  case (Cons y ys)
  have "hchain h' (if ys = [] then h_next (h x) else h_next (h y)) (ys @ zs)"
    by (rule Cons.IH) (use Cons.prems in \<open>auto split: if_splits\<close>)
  moreover have "h_next (h' y) = (if ys = [] then h_next (h x) else h_next (h y))"
    using Cons.prems by auto
  ultimately show ?case using Cons.prems(1) by simp
qed

lemma takeWhile_split:
  "x \<in> set xs \<Longrightarrow> P x \<Longrightarrow> (\<And>y. y \<in> set xs \<Longrightarrow> P y \<Longrightarrow> y = x) \<Longrightarrow>
   \<exists>zs. xs = takeWhile (\<lambda>y. \<not> P y) xs @ x # zs"
proof -
  assume x: "x \<in> set xs" "P x" and u: "\<And>y. y \<in> set xs \<Longrightarrow> P y \<Longrightarrow> y = x"
  have ne: "dropWhile (\<lambda>y. \<not> P y) xs \<noteq> []" using x by (auto simp: dropWhile_eq_Nil_conv)
  have "P (hd (dropWhile (\<lambda>y. \<not> P y) xs))" using hd_dropWhile [OF ne] by simp
  moreover have "hd (dropWhile (\<lambda>y. \<not> P y) xs) \<in> set xs"
    using ne by (meson hd_in_set set_dropWhileD)
  ultimately have "hd (dropWhile (\<lambda>y. \<not> P y) xs) = x" using u by blast
  with ne have "dropWhile (\<lambda>y. \<not> P y) xs = x # tl (dropWhile (\<lambda>y. \<not> P y) xs)" by (metis list.collapse)
  then show ?thesis by (metis takeWhile_dropWhile_id)
qed

text \<open>Deletion unlinks the one item of the key's chain that has the key.\<close>

lemma assoc_delete_eq:
  assumes rep: "assoc_rep s C" and x: "x \<in> chain_items C" "item_key (heap s x) = k"
  defines "sl \<equiv> hash_slot (hash s k) s"
  obtains ys zs where "C sl = ys @ x # zs" "distinct (ys @ x # zs)"
    "assoc_delete k (hash s k) s =
       Some (hpos_write (pos_after sl ys) (h_next (heap s x)) (upd_item x (\<lambda>i. i\<lparr>h_next := NULL\<rparr>) s))"
proof -
  have ok: "slot_ok s sl (C sl)" unfolding sl_def using rep by (rule assoc_rep_slot)
  then have ch: "hchain (heap s) (hpos_read s sl) (C sl)" by (simp add: slot_ok_def)
  have xs: "x \<in> set (C sl)" using chain_items_slot [OF rep x(1)] x(2) by (simp add: sl_def)
  have km: "key_matches k (heap s y) \<longleftrightarrow> item_key (heap s y) = k" if "y \<in> set (C sl)" for y
    using that ok by (auto simp: slot_ok_def key_matches_iff)
  have u: "y = x" if "y \<in> set (C sl)" "key_matches k (heap s y)" for y
    using that ok xs x km by (auto simp: slot_ok_def inj_on_def)
  define ys where "ys = takeWhile (\<lambda>y. \<not> key_matches k (heap s y)) (C sl)"
  obtain zs where zs: "C sl = ys @ x # zs"
    using takeWhile_split [where P = "\<lambda>y. key_matches k (heap s y)", OF xs _ u] km [OF xs] x(2)
    by (auto simp: ys_def)
  have b: "hashitem_before k (hash s k) s = Some (pos_after sl ys)"
    using before_loop_hchain [OF ch] by (simp add: hashitem_before_def sl_def ys_def)
  have seg: "h_next (heap s (last ys)) = x" if "ys \<noteq> []" "hchain (heap s) p (ys @ x # zs)" for p
    using that by (induction ys arbitrary: p) auto
  have r: "hpos_read s (pos_after sl ys) = x"
    using ch zs seg by (cases ys) (auto simp: pos_after_def hpos_read_def)
  have "x \<noteq> NULL" using ch xs by (metis hchain_nonnull)
  then have "assoc_delete k (hash s k) s =
       Some (hpos_write (pos_after sl ys) (h_next (heap s x)) (upd_item x (\<lambda>i. i\<lparr>h_next := NULL\<rparr>) s))"
    by (simp add: assoc_delete_def b r Let_def)
  with zs hchain_distinct [OF ch] show ?thesis by (intro that [OF zs]) simp_all
qed

text \<open>
  What every operation of the table leaves alone: it writes \<^verbatim>\<open>h_next\<close> fields and its own
  variables only.
\<close>

definition hlinks_only :: "(addr \<Rightarrow> item) \<Rightarrow> (addr \<Rightarrow> item) \<Rightarrow> bool" where
  "hlinks_only h h' \<longleftrightarrow> (\<forall>a. h' a = (h a)\<lparr>h_next := h_next (h' a)\<rparr>)"

definition assoc_frame :: "'z assoc_state_scheme \<Rightarrow> 'z assoc_state_scheme \<Rightarrow> bool" where
  "assoc_frame s s' \<longleftrightarrow> hlinks_only (heap s) (heap s') \<and> settings s' = settings s \<and>
     current_time s' = current_time s \<and> hash s' = hash s \<and> item_locks s' = item_locks s \<and>
     item_lock_hashpower s' = item_lock_hashpower s \<and> assoc_state.more s' = assoc_state.more s"

lemma hlinks_only_upd: "hlinks_only h h' \<Longrightarrow> hlinks_only h (h'(a := (h' a)\<lparr>h_next := v\<rparr>))"
proof -
  assume l: "hlinks_only h h'"
  have "(h' a)\<lparr>h_next := v\<rparr> = (h a)\<lparr>h_next := v\<rparr>"
  proof -
    have "h' a = (h a)\<lparr>h_next := h_next (h' a)\<rparr>" using l by (simp add: hlinks_only_def)
    then have "(h' a)\<lparr>h_next := v\<rparr> = (h a)\<lparr>h_next := h_next (h' a)\<rparr>\<lparr>h_next := v\<rparr>" by (rule arg_cong)
    then show ?thesis by simp
  qed
  with l show ?thesis by (simp add: hlinks_only_def)
qed

lemma hlinks_only_refl [simp]: "hlinks_only h h"
  by (simp add: hlinks_only_def)

lemma hlinks_only_trans: "hlinks_only h h' \<Longrightarrow> hlinks_only h' h'' \<Longrightarrow> hlinks_only h h''"
proof -
  assume l: "hlinks_only h h'" "hlinks_only h' h''"
  have "h'' a = (h a)\<lparr>h_next := h_next (h'' a)\<rparr>" for a
  proof -
    have "h'' a = (h' a)\<lparr>h_next := h_next (h'' a)\<rparr>" using l(2) by (simp add: hlinks_only_def)
    also have "h' a = (h a)\<lparr>h_next := h_next (h' a)\<rparr>" using l(1) by (simp add: hlinks_only_def)
    finally show ?thesis by simp
  qed
  then show ?thesis by (simp add: hlinks_only_def)
qed

lemma hlinks_only_field:
  assumes "hlinks_only h h'" "\<And>i v. f (i\<lparr>h_next := v\<rparr>) = f i"
  shows "f (h' a) = f (h a)"
proof -
  have "h' a = (h a)\<lparr>h_next := h_next (h' a)\<rparr>" using assms(1) by (simp add: hlinks_only_def)
  then have "f (h' a) = f ((h a)\<lparr>h_next := h_next (h' a)\<rparr>)" by (rule arg_cong)
  then show ?thesis by (simp add: assms(2))
qed

lemma hlinks_only_key: "hlinks_only h h' \<Longrightarrow> same_key (h' a) (h a)"
  using hlinks_only_field [of h h' nkey] hlinks_only_field [of h h' i_key] by (simp add: same_key_def)

lemma hpos_write_frame' [simp]:
  "settings (hpos_write p v s) = settings s" "current_time (hpos_write p v s) = current_time s"
  "item_locks (hpos_write p v s) = item_locks s"
  "item_lock_hashpower (hpos_write p v s) = item_lock_hashpower s"
  "assoc_state.more (hpos_write p v s) = assoc_state.more s"
  by (simp_all add: hpos_write_def upd_item_def split: hpos.split)

lemma upd_item_more [simp]: "assoc_state.more (upd_item a f s) = assoc_state.more s"
  by (simp add: upd_item_def)

lemma hlinks_only_hpos_write: "hlinks_only h (heap s) \<Longrightarrow> hlinks_only h (heap (hpos_write p v s))"
  by (cases p) (simp_all add: heap_hpos_write hlinks_only_upd)

lemma assoc_insert_frame: "assoc_frame s (assoc_insert it hv s)"
  by (simp add: assoc_frame_def assoc_insert_heap hlinks_only_upd) (simp add: assoc_insert_def Let_def)

lemma assoc_delete_rep:
  assumes rep: "assoc_rep s C" and x: "x \<in> chain_items C" "item_key (heap s x) = k"
  defines "sl \<equiv> hash_slot (hash s k) s"
  shows "\<exists>s'. assoc_delete k (hash s k) s = Some s' \<and> assoc_rep s' (C(sl := remove1 x (C sl))) \<and>
    assoc_frame s s' \<and> same_table s s' \<and> (\<forall>y. y \<notin> chain_items C \<longrightarrow> heap s' y = heap s y)"
proof -
  obtain ys zs where sp: "C sl = ys @ x # zs" "distinct (ys @ x # zs)" and
    d: "assoc_delete k (hash s k) s =
       Some (hpos_write (pos_after sl ys) (h_next (heap s x)) (upd_item x (\<lambda>i. i\<lparr>h_next := NULL\<rparr>) s))"
    using assoc_delete_eq [OF rep x] unfolding sl_def by blast
  define s' where "s' = hpos_write (pos_after sl ys) (h_next (heap s x)) (upd_item x (\<lambda>i. i\<lparr>h_next := NULL\<rparr>) s)"
  have v: "valid_slot s sl" unfolding sl_def using rep by (simp add: assoc_rep_def hash_slot_valid)
  have same: "same_table s s'" by (simp add: same_table_def s'_def)
  have fr: "assoc_frame s s'" by (simp add: assoc_frame_def s'_def hlinks_only_hpos_write hlinks_only_upd)
  have heap': "heap s' y = (if y = x then (heap s x)\<lparr>h_next := NULL\<rparr>
      else if ys \<noteq> [] \<and> y = last ys then (heap s y)\<lparr>h_next := h_next (heap s x)\<rparr> else heap s y)" for y
    using v sp(2) by (cases sl) (auto simp: s'_def pos_after_def heap_hpos_write)
  have rd: "hpos_read s' q = (if q = sl \<and> ys = [] then h_next (heap s x) else hpos_read s q)"
    if "valid_slot s q" for q
    using v that by (cases sl; cases q) (auto simp: s'_def pos_after_def hpos_read_def hpos_write_def nth_list_update)
  have ok: "slot_ok s sl (C sl)" unfolding sl_def using rep by (rule assoc_rep_slot)
  have ch: "hchain (heap s') (hpos_read s' sl) (ys @ zs)"
  proof -
    have c: "hchain (heap s) (hpos_read s sl) (ys @ x # zs)" using ok sp(1) by (simp add: slot_ok_def)
    have "hchain (heap s') (if ys = [] then h_next (heap s x) else hpos_read s sl) (ys @ zs)"
      by (rule hchain_remove [OF c sp(2)]) (use sp(2) in \<open>auto simp: heap'\<close>)
    then show ?thesis by (simp add: rd [OF v])
  qed
  have keys: "same_key (heap s' y) (heap s y)" for y
    using fr by (simp add: assoc_frame_def hlinks_only_key)
  have it: "item_slot s' y = item_slot s y" for y using same keys by (rule same_table_item_slot)
  have sub: "set (ys @ zs) \<subseteq> set (C sl)" using sp(1) by auto
  have "slot_ok s' sl (ys @ zs)"
  proof -
    have "\<forall>y\<in>set (ys @ zs). key_wf (heap s' y) \<and> item_slot s' y = sl"
      using ok sub keys same_key_simps unfolding slot_ok_def it by blast
    moreover have "inj_on (\<lambda>y. item_key (heap s' y)) (set (ys @ zs))"
    proof -
      have "inj_on (\<lambda>y. item_key (heap s y)) (set (ys @ zs))"
        using ok sub inj_on_subset unfolding slot_ok_def by blast
      moreover have "(\<lambda>y. item_key (heap s' y)) = (\<lambda>y. item_key (heap s y))"
        using keys same_key_simps by blast
      ultimately show ?thesis by simp
    qed
    ultimately show ?thesis using ch by (simp only: slot_ok_def)
  qed
  then have ok': "slot_ok s' sl (remove1 x (C sl))" using sp by (simp add: remove1_split)
  have out: "heap s' y = heap s y" if "y \<notin> set (C sl)" for y
    using that sp(1) by (auto simp: heap')
  have "assoc_rep s' (C(sl := remove1 x (C sl)))"
  proof (rule assoc_rep_upd [OF rep same v _ _ ok'])
    show "same_key (heap s' y) (heap s y) \<and> h_next (heap s' y) = h_next (heap s y)"
      if "y \<in> set (C sl')" "sl' \<noteq> sl" for y sl'
    proof -
      have "y \<notin> set (C sl)" using assoc_rep_disjoint [OF rep that(1)] that(2) by blast
      then show ?thesis by (simp add: out)
    qed
  qed (simp add: rd)
  moreover have "\<forall>y. y \<notin> chain_items C \<longrightarrow> heap s' y = heap s y"
    using out chain_itemsI by metis
  ultimately show ?thesis using d fr same by (auto simp: s'_def)
qed

lemma chain_items_remove:
  assumes rep: "assoc_rep s C" and x: "x \<in> set (C sl)"
  shows "chain_items (C(sl := remove1 x (C sl))) = chain_items C - {x}"
proof -
  have d: "distinct (C sl)"
    using rep x assoc_rep_item_slot [OF rep x] by (auto simp: assoc_rep_def slot_ok_def dest: hchain_distinct)
  have "x \<notin> set (C sl')" if "sl' \<noteq> sl" for sl' using assoc_rep_disjoint [OF rep x] that by blast
  with d show ?thesis by (auto simp: chain_items_def split: if_splits)
qed

lemma assoc_delete_map:
  assumes rep: "assoc_rep s C" and x: "x \<in> chain_items C" "item_key (heap s x) = k"
    and s': "assoc_delete k (hash s k) s = Some s'"
  shows "assoc_map s' = (assoc_map s)(k := None)"
proof -
  let ?sl = "hash_slot (hash s k) s"
  have xs: "x \<in> set (C ?sl)" using chain_items_slot [OF rep x(1)] x(2) by simp
  from assoc_delete_rep [OF rep x] s'
  have rep': "assoc_rep s' (C(?sl := remove1 x (C ?sl)))" and fr: "assoc_frame s s'" by auto
  have key: "item_key (heap s' y) = item_key (heap s y)" for y
    using fr by (meson assoc_frame_def hlinks_only_key same_key_simps)
  show ?thesis
  proof (rule assoc_map_determined [OF rep'])
    fix k' y
    have u: "y = x" if "y \<in> chain_items C" "item_key (heap s y) = k"
      using assoc_map_eq [OF rep, of k y] assoc_map_eq [OF rep, of k x] that x by simp
    show "((assoc_map s)(k := None)) k' = Some y \<longleftrightarrow>
        y \<in> chain_items (C(?sl := remove1 x (C ?sl))) \<and> item_key (heap s' y) = k'"
      using u x assoc_map_eq [OF rep, of k' y] unfolding chain_items_remove [OF rep xs] key by auto
  qed
qed

section \<open>Incremental expansion\<close>

definition item_bucket :: "'z assoc_state_scheme \<Rightarrow> addr \<Rightarrow> nat" where
  "item_bucket s x = hv_bucket (hash s (item_key (heap s x))) (hashpower s)"

lemma move_chain_correct:
  "hchain (heap s) it xs \<Longrightarrow> distinct xs \<Longrightarrow>
   (\<And>x. x \<in> set xs \<Longrightarrow> item_bucket s x < length (primary_hashtable s)) \<Longrightarrow>
   (\<And>b. b < length (primary_hashtable s) \<Longrightarrow>
      hchain (heap s) (primary_hashtable s ! b) (P b) \<and> set (P b) \<inter> set xs = {}) \<Longrightarrow>
   \<exists>h p. move_chain it s = Some (s\<lparr>heap := h, primary_hashtable := p\<rparr>) \<and>
     hlinks_only (heap s) h \<and> length p = length (primary_hashtable s) \<and>
     (\<forall>a. a \<notin> set xs \<longrightarrow> h a = heap s a) \<and>
     (\<forall>b < length p. hchain h (p ! b) (rev (filter (\<lambda>x. item_bucket s x = b) xs) @ P b))"
proof (induction xs arbitrary: it s P)
  case Nil
  then show ?case by (subst move_chain.simps) (auto intro!: exI [of _ "heap s"] exI [of _ "primary_hashtable s"])
next
  case (Cons x xs)
  define b where "b = item_bucket s x"
  define t where "t = (upd_item x (\<lambda>i. i\<lparr>h_next := primary_hashtable s ! b\<rparr>) s)
      \<lparr>primary_hashtable := (primary_hashtable s)[b := x]\<rparr>"
  define P' where "P' = P(b := x # P b)"
  have it: "it = x" "x \<noteq> NULL" and ch: "hchain (heap s) (h_next (heap s x)) xs" using Cons.prems(1) by auto
  have b: "b < length (primary_hashtable s)" using Cons.prems(3) by (simp add: b_def)
  have xin: "x \<notin> set xs" using Cons.prems(2) by simp
  have ib: "item_bucket t y = item_bucket s y" for y
    by (simp add: item_bucket_def t_def item_key_def)
  have step: "move_chain it s = move_chain (h_next (heap s x)) t"
    using it by (subst move_chain.simps) (simp add: Let_def t_def b_def item_bucket_def)
  have t: "heap t = (heap s)(x := (heap s x)\<lparr>h_next := primary_hashtable s ! b\<rparr>)"
    "primary_hashtable t = (primary_hashtable s)[b := x]" by (simp_all add: t_def)
  have "\<exists>h p. move_chain (h_next (heap s x)) t = Some (t\<lparr>heap := h, primary_hashtable := p\<rparr>) \<and>
     hlinks_only (heap t) h \<and> length p = length (primary_hashtable t) \<and>
     (\<forall>a. a \<notin> set xs \<longrightarrow> h a = heap t a) \<and>
     (\<forall>b < length p. hchain h (p ! b) (rev (filter (\<lambda>x. item_bucket t x = b) xs) @ P' b))"
  proof (rule Cons.IH)
    show "hchain (heap t) (h_next (heap s x)) xs" using ch xin by (simp add: t)
    show "distinct xs" using Cons.prems(2) by simp
    show "item_bucket t y < length (primary_hashtable t)" if "y \<in> set xs" for y
      using Cons.prems(3) that by (simp add: ib t)
    show "hchain (heap t) (primary_hashtable t ! c) (P' c) \<and> set (P' c) \<inter> set xs = {}"
      if c: "c < length (primary_hashtable t)" for c
    proof -
      have c': "c < length (primary_hashtable s)" using c by (simp add: t)
      have pc: "hchain (heap s) (primary_hashtable s ! c) (P c)" "set (P c) \<inter> set (x # xs) = {}"
        using Cons.prems(4) [OF c'] by auto
      then have "hchain (heap t) (primary_hashtable s ! c) (P c)" by (simp add: t)
      with pc it xin c' show ?thesis by (cases "c = b") (auto simp: P'_def t)
    qed
  qed
  then obtain h p where hp: "move_chain it s = Some (t\<lparr>heap := h, primary_hashtable := p\<rparr>)"
     "hlinks_only (heap t) h" "length p = length (primary_hashtable t)"
     "\<And>a. a \<notin> set xs \<Longrightarrow> h a = heap t a"
     "\<And>b. b < length p \<Longrightarrow> hchain h (p ! b) (rev (filter (\<lambda>x. item_bucket s x = b) xs) @ P' b)"
    by (auto simp: step ib)
  have "t\<lparr>heap := h, primary_hashtable := p\<rparr> = s\<lparr>heap := h, primary_hashtable := p\<rparr>"
    by (simp add: t_def upd_item_def)
  moreover have "hlinks_only (heap s) h"
    using hp(2) hlinks_only_trans [of "heap s" "heap t" h] by (simp add: t hlinks_only_upd)
  moreover have "rev (filter (\<lambda>x. item_bucket s x = c) (x # xs)) @ P c =
      rev (filter (\<lambda>x. item_bucket s x = c) xs) @ P' c" for c
    by (simp add: P'_def b_def)
  ultimately show ?case using hp by (intro exI [of _ h] exI [of _ p]) (auto simp: t)
qed

lemma assoc_rep_keys_inj:
  assumes rep: "assoc_rep s C"
  shows "inj_on (\<lambda>x. item_key (heap s x)) (chain_items C)"
proof (rule inj_onI)
  fix x y assume "x \<in> chain_items C" "y \<in> chain_items C" "item_key (heap s x) = item_key (heap s y)"
  then show "x = y"
    using assoc_map_eq [OF rep, of "item_key (heap s x)" x] assoc_map_eq [OF rep, of "item_key (heap s x)" y]
    by simp
qed

lemma assoc_map_same:
  assumes "assoc_rep s C" "assoc_rep s' C'" "chain_items C' = chain_items C"
    and "\<And>x. item_key (heap s' x) = item_key (heap s x)"
  shows "assoc_map s' = assoc_map s"
  by (rule assoc_map_determined [OF assms(2)]) (simp add: assms(3,4) assoc_map_eq [OF assms(1)])

definition migrate :: "'z assoc_state_scheme \<Rightarrow> (hpos \<Rightarrow> addr list) \<Rightarrow> hpos \<Rightarrow> addr list" where
  "migrate s C sl = (case sl of
       Primary b \<Rightarrow> rev (filter (\<lambda>x. item_bucket s x = b) (C (Old (expand_bucket s)))) @ C (Primary b)
     | Old j \<Rightarrow> (if j = expand_bucket s then [] else C (Old j)) | HNext a \<Rightarrow> [])"

lemma assoc_rep_HNext: "assoc_rep s C \<Longrightarrow> C (HNext a) = []"
  by (simp add: assoc_rep_def)

lemma migrate_items: "assoc_rep s C \<Longrightarrow> chain_items (migrate s C) = chain_items C"
proof (rule set_eqI)
  fix x assume rep: "assoc_rep s C"
  show "x \<in> chain_items (migrate s C) \<longleftrightarrow> x \<in> chain_items C"
  proof
    assume "x \<in> chain_items (migrate s C)"
    then obtain sl where "x \<in> set (migrate s C sl)" by (auto simp: chain_items_def)
    then show "x \<in> chain_items C"
      by (cases sl) (auto simp: chain_items_def migrate_def split: if_splits)
  next
    assume "x \<in> chain_items C"
    then obtain sl where sl: "x \<in> set (C sl)" by (auto simp: chain_items_def)
    show "x \<in> chain_items (migrate s C)"
    proof (cases "sl = Old (expand_bucket s)")
      case True
      with sl have "x \<in> set (migrate s C (Primary (item_bucket s x)))" by (simp add: migrate_def)
      then show ?thesis by (rule chain_itemsI)
    next
      case False
      with sl have "x \<in> set (migrate s C sl)"
        using assoc_rep_HNext [OF rep] by (cases sl) (auto simp: migrate_def)
      then show ?thesis by (rule chain_itemsI)
    qed
  qed
qed

lemma hash_slot_advance:
  assumes wf: "assoc_wf s" and ex: "expanding s" and hp: "hashpower s' = hashpower s"
    and on: "expanding s' \<Longrightarrow> expand_bucket s' = expand_bucket s + 1"
    and off: "\<not> expanding s' \<Longrightarrow> expand_bucket s + 1 = 2 ^ (hashpower s - 1)"
  shows "hash_slot hv s' = (if hash_slot hv s = Old (expand_bucket s)
           then Primary (hv_bucket hv (hashpower s)) else hash_slot hv s)"
proof -
  have "hv_bucket hv (hashpower s - 1) < 2 ^ (hashpower s - 1)"
    using wf by (subst hv_bucket_mod) (auto simp: assoc_wf_def)
  with on off ex hp show ?thesis by (cases "expanding s'") (auto simp: hash_slot_def Let_def)
qed

lemma migrate_rep:
  assumes rep: "assoc_rep s C" and ex: "expanding s" and h: "hlinks_only (heap s) h"
    and out: "\<And>a. a \<notin> set (C (Old (expand_bucket s))) \<Longrightarrow> h a = heap s a"
    and p: "length p = length (primary_hashtable s)"
    and ch: "\<And>b. b < length p \<Longrightarrow> hchain h (p ! b) (migrate s C (Primary b))"
    and s': "heap s' = h" "primary_hashtable s' = p" "hash s' = hash s" "hashpower s' = hashpower s"
    and on: "expanding s' \<Longrightarrow> expand_bucket s' = expand_bucket s + 1 \<and>
      expand_bucket s' < 2 ^ (hashpower s - 1) \<and>
      old_hashtable s' = (old_hashtable s)[expand_bucket s := NULL]"
    and off: "\<not> expanding s' \<Longrightarrow> expand_bucket s + 1 = 2 ^ (hashpower s - 1)"
  shows "assoc_rep s' (migrate s C)"
proof -
  let ?eb = "expand_bucket s"
  have wf: "assoc_wf s" using rep by (simp add: assoc_rep_def)
  have key: "item_key (h x) = item_key (heap s x)" "key_wf (h x) = key_wf (heap s x)" for x
    using hlinks_only_key [OF h] same_key_simps by blast+
  have wf': "assoc_wf s'" using wf p s' on ex by (auto simp: assoc_wf_def)
  have adv: "hash_slot hv s' = (if hash_slot hv s = Old ?eb
           then Primary (hv_bucket hv (hashpower s)) else hash_slot hv s)" for hv
    using hash_slot_advance [OF wf ex s'(4)] on off by blast
  have slot: "item_slot s' x = sl" if x: "x \<in> set (migrate s C sl)" for x sl
  proof -
    have e: "item_slot s' x = (if item_slot s x = Old ?eb then Primary (item_bucket s x) else item_slot s x)"
      by (simp add: item_slot_def adv s' key item_bucket_def)
    consider "x \<in> set (C (Old ?eb))" "sl = Primary (item_bucket s x)" | "x \<in> set (C sl)" "sl \<noteq> Old ?eb"
      using x by (cases sl) (auto simp: migrate_def split: if_splits)
    then show ?thesis by cases (use assoc_rep_item_slot [OF rep] e in auto)
  qed
  have chain: "hchain h (hpos_read s' sl) (migrate s C sl)" if v: "valid_slot s' sl" for sl
  proof (cases sl)
    case (Old j)
    with v have ex': "expanding s'" and j: "j < length (old_hashtable s)" using on by auto
    have "valid_slot s (Old j)" using ex j by simp
    then have "slot_ok s (Old j) (C (Old j))" using rep unfolding assoc_rep_def by blast
    then have c: "hchain (heap s) (old_hashtable s ! j) (C (Old j))"
      by (simp add: slot_ok_def hpos_read_def)
    have "hchain h (old_hashtable s ! j) (C (Old j))" if "j \<noteq> ?eb"
    proof -
      have "hchain h q (C (Old j)) = hchain (heap s) q (C (Old j))" for q
        by (rule hchain_cong) (use out that assoc_rep_disjoint [OF rep] in \<open>metis hpos.inject(2)\<close>)
      with c show ?thesis by simp
    qed
    with Old on [OF ex'] j show ?thesis by (auto simp: migrate_def hpos_read_def)
  qed (use v ch s' in \<open>auto simp: hpos_read_def\<close>)
  have ok: "slot_ok s' sl (migrate s C sl)" if v: "valid_slot s' sl" for sl
  proof -
    have sub: "set (migrate s C sl) \<subseteq> chain_items C"
      using migrate_items [OF rep] chain_itemsI [of _ "migrate s C"] by blast
    have "inj_on (\<lambda>x. item_key (heap s' x)) (set (migrate s C sl))"
      using inj_on_subset [OF assoc_rep_keys_inj [OF rep] sub] by (simp add: s' key)
    moreover have "key_wf (heap s' x)" if "x \<in> chain_items C" for x
      using that assoc_rep_item_slot [OF rep] by (auto simp: chain_items_def s' key)
    ultimately show ?thesis using sub chain [OF v] slot unfolding slot_ok_def by (auto simp: s')
  qed
  have empty: "migrate s C sl = []" if nv: "\<not> valid_slot s' sl" for sl
  proof (rule ccontr)
    assume "migrate s C sl \<noteq> []"
    then obtain x where "x \<in> set (migrate s C sl)" by fastforce
    from slot [OF this] have "sl = hash_slot (hash s' (item_key (heap s' x))) s'" by (simp add: item_slot_def)
    with nv hash_slot_valid [OF wf'] show False by simp
  qed
  from wf' ok empty show ?thesis by (simp add: assoc_rep_def)
qed

lemma move_chain_bucket:
  assumes rep: "assoc_rep s C" and ex: "expanding s"
    and t: "heap t = heap s" "primary_hashtable t = primary_hashtable s" "hash t = hash s"
      "old_hashtable t = old_hashtable s" "hashpower t = hashpower s"
  obtains h p where
    "move_chain (old_hashtable s ! expand_bucket s) t = Some (t\<lparr>heap := h, primary_hashtable := p\<rparr>)"
    "hlinks_only (heap s) h" "length p = length (primary_hashtable s)"
    "\<And>a. a \<notin> set (C (Old (expand_bucket s))) \<Longrightarrow> h a = heap s a"
    "\<And>b. b < length p \<Longrightarrow> hchain h (p ! b) (migrate s C (Primary b))"
proof -
  let ?eb = "expand_bucket s"
  have wf: "assoc_wf s" using rep by (simp add: assoc_rep_def)
  have ib: "item_bucket t x = item_bucket s x" for x by (simp add: item_bucket_def t)
  have pr: "slot_ok s (Primary b) (C (Primary b))" if "b < length (primary_hashtable s)" for b
    using rep that by (simp add: assoc_rep_def)
  have "valid_slot s (Old ?eb)" using wf ex by (simp add: assoc_wf_def)
  then have ol: "slot_ok s (Old ?eb) (C (Old ?eb))" using rep unfolding assoc_rep_def by blast
  have bnd: "item_bucket t x < length (primary_hashtable t)" for x
    using wf by (simp add: ib item_bucket_def t assoc_wf_def hv_bucket_mod)
  have "\<exists>h p. move_chain (old_hashtable s ! ?eb) t = Some (t\<lparr>heap := h, primary_hashtable := p\<rparr>) \<and>
     hlinks_only (heap t) h \<and> length p = length (primary_hashtable t) \<and>
     (\<forall>a. a \<notin> set (C (Old ?eb)) \<longrightarrow> h a = heap t a) \<and>
     (\<forall>b < length p. hchain h (p ! b)
        (rev (filter (\<lambda>x. item_bucket t x = b) (C (Old ?eb))) @ C (Primary b)))"
  proof (rule move_chain_correct)
    show c: "hchain (heap t) (old_hashtable s ! ?eb) (C (Old ?eb))"
      using ol by (simp add: slot_ok_def t hpos_read_def)
    then show "distinct (C (Old ?eb))" by (rule hchain_distinct)
    show "hchain (heap t) (primary_hashtable t ! b) (C (Primary b)) \<and>
        set (C (Primary b)) \<inter> set (C (Old ?eb)) = {}" if "b < length (primary_hashtable t)" for b
    proof -
      have "set (C (Primary b)) \<inter> set (C (Old ?eb)) = {}"
        using assoc_rep_disjoint [OF rep, of _ "Primary b" "Old ?eb"] by blast
      with pr [of b] that show ?thesis by (simp add: slot_ok_def t hpos_read_def)
    qed
  qed (rule bnd)
  then obtain h p where hp: "move_chain (old_hashtable s ! ?eb) t = Some (t\<lparr>heap := h, primary_hashtable := p\<rparr>)"
     "hlinks_only (heap s) h" "length p = length (primary_hashtable s)"
     "\<forall>a. a \<notin> set (C (Old ?eb)) \<longrightarrow> h a = heap s a"
     "\<forall>b < length p. hchain h (p ! b) (migrate s C (Primary b))"
    unfolding ib t migrate_def hpos.case by blast
  then show ?thesis by (intro that [OF hp(1-3)]) auto
qed

lemma move_bucket_correct:
  assumes rep: "assoc_rep s C" and ex: "expanding s"
    and free: "\<not> item_locks s (hv_bucket (word_of_nat (expand_bucket s)) (item_lock_hashpower s))"
  shows "\<exists>s'. move_bucket s = Some s' \<and> assoc_rep s' (migrate s C) \<and> assoc_frame s s' \<and>
    assoc_map s' = assoc_map s \<and> hashpower s' = hashpower s \<and> hash_bulk_move s' = hash_bulk_move s \<and>
    (if expand_bucket s + 1 = 2 ^ (hashpower s - 1) then \<not> expanding s'
     else expanding s' \<and> expand_bucket s' = expand_bucket s + 1) \<and>
    (\<forall>a. a \<notin> set (C (Old (expand_bucket s))) \<longrightarrow> heap s' a = heap s a)"
proof -
  let ?eb = "expand_bucket s" and ?l = "hv_bucket (word_of_nat (expand_bucket s)) (item_lock_hashpower s)"
  define t where "t = s\<lparr>item_locks := (item_locks s)(?l := True)\<rparr>"
  have wf: "assoc_wf s" using rep by (simp add: assoc_rep_def)
  have tl: "item_trylock (word_of_nat ?eb) s = Some (?l, t)" using free by (simp add: item_trylock_def Let_def t_def)
  obtain h p where hp: "move_chain (old_hashtable s ! ?eb) t = Some (t\<lparr>heap := h, primary_hashtable := p\<rparr>)"
     "hlinks_only (heap s) h" "length p = length (primary_hashtable s)"
     "\<And>a. a \<notin> set (C (Old ?eb)) \<Longrightarrow> h a = heap s a"
     "\<And>b. b < length p \<Longrightarrow> hchain h (p ! b) (migrate s C (Primary b))"
    by (rule move_chain_bucket [OF rep ex, of t]) (simp_all add: t_def)
  define u where "u = t\<lparr>heap := h, primary_hashtable := p, old_hashtable := (old_hashtable s)[?eb := NULL],
      expand_bucket := ?eb + 1\<rparr>"
  define v where "v = (if ?eb + 1 = 2 ^ (hashpower s - 1) then u\<lparr>expanding := False, old_hashtable := []\<rparr> else u)"
  define s' where "s' = item_trylock_unlock ?l v"
  have hs: "unat (hashsize (hashpower s - 1)) = 2 ^ (hashpower s - 1)"
    using wf by (intro unat_hashsize) (auto simp: assoc_wf_def)
  have mb: "move_bucket s = Some s'"
    using hp(1) by (simp add: move_bucket_def tl s'_def v_def u_def t_def Let_def hs [simplified])
  have hash': "hash s' = hash s" and more: "assoc_state.more s' = assoc_state.more s"
    and f: "heap s' = h" "primary_hashtable s' = p" "hashpower s' = hashpower s"
      "hash_bulk_move s' = hash_bulk_move s"
      "expanding s' = (?eb + 1 \<noteq> 2 ^ (hashpower s - 1))" "expand_bucket s' = ?eb + 1"
    using ex by (simp_all add: s'_def item_trylock_unlock_def v_def u_def t_def)
  have old: "expanding s' \<Longrightarrow> old_hashtable s' = (old_hashtable s)[?eb := NULL]"
    using f(5) by (simp add: s'_def item_trylock_unlock_def v_def u_def)
  have fr: "assoc_frame s s'"
    using hp(2) free by (auto simp: assoc_frame_def s'_def item_trylock_unlock_def v_def u_def t_def fun_upd_idem_iff)
  have eb: "?eb + 1 \<le> 2 ^ (hashpower s - 1)" using wf ex by (auto simp: assoc_wf_def)
  have rep': "assoc_rep s' (migrate s C)"
    by (rule migrate_rep [OF rep ex hp(2) hp(4) hp(3) hp(5) f(1,2) hash' f(3)])
      (use f eb old in auto)
  have key: "item_key (heap s' x) = item_key (heap s x)" for x
    using hlinks_only_key [OF hp(2)] same_key_simps f(1) by simp
  have "assoc_map s' = assoc_map s"
    by (rule assoc_map_same [OF rep rep' migrate_items [OF rep] key])
  with mb rep' fr f hp(4) show ?thesis by auto
qed

text \<open>A turn of the migration loop when the bucket's lock is taken does nothing.\<close>

lemma move_bucket_locked:
  "item_locks s (hv_bucket (word_of_nat (expand_bucket s)) (item_lock_hashpower s)) \<Longrightarrow> move_bucket s = Some s"
  by (simp add: move_bucket_def item_trylock_def Let_def)

lemma assoc_frame_refl [simp]: "assoc_frame s s"
  by (simp add: assoc_frame_def)

lemma assoc_frame_trans: "assoc_frame s t \<Longrightarrow> assoc_frame t u \<Longrightarrow> assoc_frame s u"
  unfolding assoc_frame_def using hlinks_only_trans by force

definition assoc_inv :: "'z assoc_state_scheme \<Rightarrow> bool" where
  "assoc_inv s \<longleftrightarrow> (\<exists>C. assoc_rep s C)"

definition assoc_items :: "'z assoc_state_scheme \<Rightarrow> addr set" where
  "assoc_items s = ran (assoc_map s)"

lemma assoc_items_eq: "assoc_rep s C \<Longrightarrow> assoc_items s = chain_items C"
  using assoc_map_eq by (fastforce simp: assoc_items_def ran_def)

lemma move_buckets_correct:
  "assoc_inv s \<Longrightarrow> \<exists>s'. move_buckets n s = Some s' \<and> assoc_inv s' \<and> assoc_frame s s' \<and>
     assoc_map s' = assoc_map s \<and> hashpower s' = hashpower s"
proof (induction n arbitrary: s)
  case (Suc n)
  show ?case
  proof (cases "expanding s")
    case True
    have "\<exists>t. move_bucket s = Some t \<and> assoc_inv t \<and> assoc_frame s t \<and>
        assoc_map t = assoc_map s \<and> hashpower t = hashpower s"
      using Suc.prems move_bucket_correct [OF _ True] move_bucket_locked [of s] unfolding assoc_inv_def
      by (metis assoc_frame_refl)
    then obtain t where t: "move_bucket s = Some t" "assoc_inv t" "assoc_frame s t"
        "assoc_map t = assoc_map s" "hashpower t = hashpower s" by blast
    from Suc.IH [OF t(2)] t True show ?thesis by (auto intro: assoc_frame_trans)
  next
    case False
    with Suc.prems show ?thesis by simp
  qed
qed simp

lemma assoc_expand_rep:
  assumes rep: "assoc_rep s C" and ne: "\<not> expanding s" and hp: "hashpower s < HASHPOWER_MAX"
  shows "assoc_rep (assoc_expand ok s)
    (if ok then (\<lambda>sl. case sl of Old j \<Rightarrow> C (Primary j) | _ \<Rightarrow> []) else C)"
proof (cases ok)
  case False
  have "assoc_wf (assoc_expand ok s)" using False ne rep by (simp add: assoc_expand_def Let_def assoc_rep_def assoc_wf_def)
  moreover have v: "valid_slot (assoc_expand ok s) sl = valid_slot s sl" for sl
    using ne False by (cases sl) (simp_all add: assoc_expand_def Let_def)
  moreover have h: "hash_slot hv (assoc_expand ok s) = hash_slot hv s" for hv
    using False by (simp add: assoc_expand_def Let_def hash_slot_def)
  moreover have "slot_ok (assoc_expand ok s) sl xs = slot_ok s sl xs" if "valid_slot s sl" for sl xs
    using that ne False h by (cases sl) (simp_all add: slot_ok_def hpos_read_def item_slot_def assoc_expand_def Let_def)
  ultimately show ?thesis using rep False by (simp add: assoc_rep_def)
next
  case True
  let ?t = "assoc_expand ok s" and ?C = "\<lambda>sl. case sl of Old j \<Rightarrow> C (Primary j) | _ \<Rightarrow> []"
  have wf: "assoc_wf s" using rep by (simp add: assoc_rep_def)
  have hs: "unat (hashsize (Suc (hashpower s))) = 2 ^ Suc (hashpower s)"
    using hp by (intro unat_hashsize) simp
  have t: "heap ?t = heap s" "hash ?t = hash s" "hashpower ?t = Suc (hashpower s)" "expanding ?t"
      "expand_bucket ?t = 0" "old_hashtable ?t = primary_hashtable s"
      "primary_hashtable ?t = replicate (2 ^ Suc (hashpower s)) NULL"
    using True hs by (simp_all add: assoc_expand_def Let_def)
  have wf': "assoc_wf ?t" using wf hp by (simp add: assoc_wf_def t)
  have slot: "item_slot ?t x = Old j" if "item_slot s x = Primary j" for x j
    using that ne by (simp add: item_slot_def hash_slot_def t Let_def)
  have "slot_ok ?t sl (?C sl)" if "valid_slot ?t sl" for sl
  proof (cases sl)
    case (Old j)
    with that have "slot_ok s (Primary j) (C (Primary j))" using rep by (simp add: assoc_rep_def t)
    with Old slot show ?thesis by (auto simp: slot_ok_def hpos_read_def t)
  qed (use that in \<open>auto simp: slot_ok_def hpos_read_def t\<close>)
  moreover have "?C sl = []" if "\<not> valid_slot ?t sl" for sl
    using that rep by (cases sl) (auto simp: assoc_rep_def t)
  ultimately show ?thesis using wf' True by (simp add: assoc_rep_def)
qed

lemma assoc_expand_items:
  assumes "assoc_rep s C" "\<not> expanding s"
  shows "chain_items (\<lambda>sl. case sl of Old j \<Rightarrow> C (Primary j) | _ \<Rightarrow> []) = chain_items C"
proof (rule set_eqI)
  fix x
  have e: "C (Old j) = []" "C (HNext a) = []" for j a using assms by (simp_all add: assoc_rep_def)
  show "x \<in> chain_items (\<lambda>sl. case sl of Old j \<Rightarrow> C (Primary j) | _ \<Rightarrow> []) \<longleftrightarrow> x \<in> chain_items C"
  proof
    assume "x \<in> chain_items (\<lambda>sl. case sl of Old j \<Rightarrow> C (Primary j) | _ \<Rightarrow> [])"
    then show "x \<in> chain_items C" by (auto simp: chain_items_def split: hpos.splits)
  next
    assume "x \<in> chain_items C"
    then obtain sl where "x \<in> set (C sl)" by (auto simp: chain_items_def)
    then obtain j where "x \<in> set (C (Primary j))" using e by (cases sl) auto
    then have "x \<in> set (case Old j of Old j \<Rightarrow> C (Primary j) | _ \<Rightarrow> [])" by simp
    then show "x \<in> chain_items (\<lambda>sl. case sl of Old j \<Rightarrow> C (Primary j) | _ \<Rightarrow> [])" by (rule chain_itemsI)
  qed
qed

lemma assoc_expand_correct:
  assumes inv: "assoc_inv s" and ne: "\<not> expanding s" and hp: "hashpower s < HASHPOWER_MAX"
  shows "assoc_inv (assoc_expand ok s) \<and> assoc_map (assoc_expand ok s) = assoc_map s"
proof -
  obtain C where rep: "assoc_rep s C" using inv by (auto simp: assoc_inv_def)
  note rep' = assoc_expand_rep [OF rep ne hp, of ok]
  have h: "item_key (heap (assoc_expand ok s) x) = item_key (heap s x)" for x
    by (simp add: assoc_expand_def Let_def)
  have "assoc_map (assoc_expand ok s) = assoc_map s"
    by (rule assoc_map_same [OF rep rep' _ h]) (simp add: assoc_expand_items [OF rep ne])
  with rep' show ?thesis by (auto simp: assoc_inv_def)
qed

lemma assoc_expand_frame: "assoc_frame s (assoc_expand ok s)"
  by (simp add: assoc_frame_def assoc_expand_def Let_def)

lemma assoc_rep_cong:
  assumes "same_table s s'" "heap s' = heap s" "primary_hashtable s' = primary_hashtable s"
    "old_hashtable s' = old_hashtable s"
  shows "assoc_rep s' C = assoc_rep s C"
proof -
  have "slot_ok s' sl xs = slot_ok s sl xs" for sl xs
    by (rule slot_ok_cong [OF assms(1)]) (simp_all add: assms hpos_read_def split: hpos.split)
  then show ?thesis
    by (simp add: assoc_rep_def same_table_valid [OF assms(1)] same_table_wf [OF assms(1)])
qed

lemma assoc_map_cong:
  assumes "same_table s s'" "heap s' = heap s" "primary_hashtable s' = primary_hashtable s"
    "old_hashtable s' = old_hashtable s"
  shows "assoc_map s' = assoc_map s"
proof
  fix k
  have "hash s' = hash s" using assms(1) by (simp add: same_table_def)
  then show "assoc_map s' k = assoc_map s k"
    by (simp add: assoc_map_def assoc_find_def hpos_read_def same_table_slot [OF assms(1)] assms cong: hpos.case_cong)
qed

end
