(* ===== verification/Assoc_Sys.thy ===== *)
theory Assoc_Sys
  imports Assoc
begin

text \<open>
  The contract of the associative array. The locale \<open>assoc_array\<close> states what clients rely on (a
  finite map that a background step leaves alone) and is interpreted on the operations of
  \<open>Assoc\<close>. A labelled step relation interleaves requests with the maintenance thread; its
  refinement to a finite map, the lock coverage of a migration turn and the termination of an
  expansion are the theory's properties.
\<close>

section \<open>The table as a finite map\<close>

text \<open>
  The contract clients of the table rely on. \<open>key\<close> reads the key of a stored value, \<open>fresh\<close> says
  a value may be inserted, \<open>bg\<close> is any background step of the table's own maintenance.
\<close>

locale assoc_array =
  fixes inv :: "'s \<Rightarrow> bool" and lookup :: "'s \<Rightarrow> 'k \<Rightarrow> 'v option" and key :: "'s \<Rightarrow> 'v \<Rightarrow> 'k"
    and fresh :: "'s \<Rightarrow> 'v \<Rightarrow> bool" and ins :: "'v \<Rightarrow> 's \<Rightarrow> 's" and del :: "'k \<Rightarrow> 's \<Rightarrow> 's option"
    and bg :: "'s \<Rightarrow> 's option"
  assumes lookup_key: "inv s \<Longrightarrow> lookup s k = Some v \<Longrightarrow> key s v = k"
    and ins_law: "inv s \<Longrightarrow> fresh s v \<Longrightarrow> lookup s (key s v) = None \<Longrightarrow>
      inv (ins v s) \<and> lookup (ins v s) = (lookup s)(key s v \<mapsto> v) \<and> key (ins v s) = key s"
    and del_law: "inv s \<Longrightarrow> lookup s k = Some v \<Longrightarrow>
      \<exists>s'. del k s = Some s' \<and> inv s' \<and> lookup s' = (lookup s)(k := None) \<and> key s' = key s \<and> fresh s' v"
    and bg_law: "inv s \<Longrightarrow> \<exists>s'. bg s = Some s' \<and> inv s' \<and> lookup s' = lookup s \<and> key s' = key s"
    and fresh_del: "inv s \<Longrightarrow> fresh s v \<Longrightarrow> del k s = Some s' \<Longrightarrow> lookup s k \<noteq> None \<Longrightarrow> fresh s' v"
begin

lemma insert_then_find:
  "inv s \<Longrightarrow> fresh s v \<Longrightarrow> lookup s (key s v) = None \<Longrightarrow> lookup (ins v s) (key s v) = Some v"
  using ins_law by simp

lemma insert_delete_roundtrip:
  assumes "inv s" "fresh s v" "lookup s (key s v) = None"
  shows "\<exists>s'. del (key s v) (ins v s) = Some s' \<and> inv s' \<and> lookup s' = lookup s"
proof -
  from ins_law [OF assms] have i: "inv (ins v s)" "lookup (ins v s) = (lookup s)(key s v \<mapsto> v)" by auto
  then have "lookup (ins v s) (key s v) = Some v" by simp
  from del_law [OF i(1) this] obtain s' where "del (key s v) (ins v s) = Some s'" "inv s'"
    "lookup s' = (lookup (ins v s))(key s v := None)" by blast
  with i(2) assms(3) show ?thesis by (auto simp: fun_upd_idem)
qed

lemma replace_law:
  assumes "inv s" "lookup s k = Some old" "fresh s new" "key s new = k"
  shows "\<exists>s'. del k s = Some s' \<and> inv (ins new s') \<and> lookup (ins new s') = (lookup s)(k \<mapsto> new)"
proof -
  from del_law [OF assms(1,2)] obtain s' where s': "del k s = Some s'" "inv s'"
    "lookup s' = (lookup s)(k := None)" "key s' = key s" by blast
  have "fresh s' new" using fresh_del [OF assms(1,3) s'(1)] assms(2) by simp
  with ins_law [OF s'(2)] s' assms(4) show ?thesis by auto
qed

lemma lookups_distinct:
  "inv s \<Longrightarrow> lookup s k = Some v \<Longrightarrow> lookup s k' = Some v \<Longrightarrow> k = k'"
  using lookup_key by blast

end

definition assoc_fresh :: "'z assoc_state_scheme \<Rightarrow> addr \<Rightarrow> bool" where
  "assoc_fresh s it \<longleftrightarrow> it \<notin> assoc_items s \<and> it \<noteq> NULL \<and> key_wf (heap s it)"

definition assoc_key :: "'z assoc_state_scheme \<Rightarrow> addr \<Rightarrow> bytes" where
  "assoc_key s it = item_key (heap s it)"

lemma assoc_frame_key: "assoc_frame s s' \<Longrightarrow> assoc_key s' = assoc_key s"
  by (auto simp: assoc_frame_def assoc_key_def fun_eq_iff dest: hlinks_only_key same_key_simps)

lemma assoc_frame_key_wf: "assoc_frame s s' \<Longrightarrow> key_wf (heap s' x) = key_wf (heap s x)"
  by (meson assoc_frame_def hlinks_only_key same_key_simps)

lemma assoc_insert_correct:
  assumes inv: "assoc_inv s" and f: "assoc_fresh s it" and none: "assoc_map s (assoc_key s it) = None"
  defines "t \<equiv> assoc_insert it (hash s (assoc_key s it)) s"
  shows "assoc_inv t \<and> assoc_map t = (assoc_map s)(assoc_key s it \<mapsto> it) \<and> assoc_key t = assoc_key s"
proof -
  obtain C where rep: "assoc_rep s C" using inv by (auto simp: assoc_inv_def)
  have f': "it \<notin> chain_items C" "it \<noteq> NULL" "key_wf (heap s it)" "assoc_map s (item_key (heap s it)) = None"
    using f none by (auto simp: assoc_fresh_def assoc_items_eq [OF rep] assoc_key_def)
  have h: "hash s (assoc_key s it) = hash s (item_key (heap s it))" by (simp add: assoc_key_def)
  show ?thesis
    using assoc_insert_rep [OF rep f'(1-3) h f'(4)] assoc_insert_map [OF rep f'(1-3) h f'(4)]
      assoc_frame_key [OF assoc_insert_frame [of s it "hash s (assoc_key s it)"]]
    by (auto simp: t_def assoc_inv_def assoc_key_def)
qed

lemma assoc_delete_correct:
  assumes inv: "assoc_inv s" and x: "assoc_map s k = Some x"
  shows "\<exists>s'. assoc_delete k (hash s k) s = Some s' \<and> assoc_inv s' \<and>
    assoc_map s' = (assoc_map s)(k := None) \<and> assoc_frame s s' \<and> same_table s s' \<and>
    (\<forall>y. y \<notin> assoc_items s \<longrightarrow> heap s' y = heap s y)"
proof -
  obtain C where rep: "assoc_rep s C" using inv by (auto simp: assoc_inv_def)
  have x': "x \<in> chain_items C" "item_key (heap s x) = k" using x assoc_map_eq [OF rep] by auto
  from assoc_delete_rep [OF rep x'] assoc_delete_map [OF rep x'] show ?thesis
    by (fastforce simp: assoc_inv_def assoc_items_eq [OF rep])
qed

lemma assoc_map_key: "assoc_inv s \<Longrightarrow> assoc_map s k = Some x \<Longrightarrow> item_key (heap s x) = k \<and> x \<noteq> NULL \<and> key_wf (heap s x)"
  unfolding assoc_inv_def
  by (metis assoc_map_eq chain_items_nonnull chain_items_slot assoc_rep_item_slot)

lemma assoc_items_remove:
  assumes inv: "assoc_inv s" and x: "assoc_map s k = Some x"
  shows "ran ((assoc_map s)(k := None)) = assoc_items s - {x}"
proof (rule set_eqI)
  fix y
  have "assoc_map s j = Some x \<longleftrightarrow> j = k" for j using assoc_map_key [OF inv, of j x] assoc_map_key [OF inv x] x by auto
  then show "y \<in> ran ((assoc_map s)(k := None)) \<longleftrightarrow> y \<in> assoc_items s - {x}"
    using x by (auto simp: assoc_items_def ran_def) (metis option.inject)
qed

lemma assoc_delete_items:
  assumes "assoc_inv s" "assoc_map s k = Some x" "assoc_map s' = (assoc_map s)(k := None)"
  shows "assoc_items s' = assoc_items s - {x}"
  using assoc_items_remove [OF assms(1,2)] assms(3) by (simp add: assoc_items_def)

lemma assoc_maintenance_correct:
  assumes "assoc_inv s"
  shows "\<exists>s'. assoc_maintenance_turn s = Some s' \<and> assoc_inv s' \<and> assoc_map s' = assoc_map s \<and>
    assoc_frame s s' \<and> hashpower s' = hashpower s \<and> (\<not> expanding s' \<longrightarrow> \<not> started_expanding s')"
proof -
  obtain t where t: "move_buckets (hash_bulk_move s) s = Some t" "assoc_inv t" "assoc_frame s t"
     "assoc_map t = assoc_map s" "hashpower t = hashpower s" using move_buckets_correct [OF assms] by blast
  let ?u = "t\<lparr>started_expanding := False\<rparr>"
  have st: "same_table t ?u" by (simp add: same_table_def)
  have "assoc_inv ?u \<and> assoc_map ?u = assoc_map t"
    using t(2) assoc_rep_cong [OF st] assoc_map_cong [OF st] by (simp add: assoc_inv_def)
  moreover have "assoc_frame t ?u" by (simp add: assoc_frame_def)
  ultimately show ?thesis
    using t by (cases "expanding t") (auto simp: assoc_maintenance_turn_def intro: assoc_frame_trans)
qed

interpretation hashtable: assoc_array assoc_inv assoc_map assoc_key assoc_fresh
  "\<lambda>it s. assoc_insert it (hash s (assoc_key s it)) s" "\<lambda>k s. assoc_delete k (hash s k) s"
  assoc_maintenance_turn
proof (unfold_locales, goal_cases)
  case (1 s k v)
  then show ?case using assoc_map_key by (auto simp: assoc_key_def)
next
  case (2 s v)
  then show ?case by (rule assoc_insert_correct)
next
  case (3 s k v)
  then obtain s' where s': "assoc_delete k (hash s k) s = Some s'" "assoc_inv s'"
    "assoc_map s' = (assoc_map s)(k := None)" "assoc_frame s s'" using assoc_delete_correct by blast
  have "assoc_fresh s' v"
    using assoc_delete_items [OF 3 s'(3)] assoc_map_key [OF 3] assoc_frame_key_wf [OF s'(4)]
    by (simp add: assoc_fresh_def)
  with s' show ?case by (auto simp: assoc_frame_key)
next
  case (4 s)
  then show ?case using assoc_maintenance_correct assoc_frame_key by metis
next
  case (5 s v k s')
  then obtain x where x: "assoc_map s k = Some x" by blast
  from assoc_delete_correct [OF 5(1) x] 5(3)
  have "assoc_map s' = (assoc_map s)(k := None)" "assoc_frame s s'" by auto
  with assoc_delete_items [OF 5(1) x, of s'] 5(2) show ?case
    by (simp add: assoc_fresh_def assoc_frame_key_wf)
qed

section \<open>The table under concurrent maintenance\<close>

text \<open>
  The interleavings of client requests and of the maintenance thread, at the granularity of
  the critical sections: requests insert and delete under the item lock of their key,
  \<open>assoc_start_expand\<close> signals the thread, the thread moves buckets or, woken by the signal,
  starts an expansion, and other threads take and release item locks.
\<close>

datatype assoc_label = Ins addr | Del bytes | Internal

inductive assoc_step :: "'z assoc_state_scheme \<Rightarrow> assoc_label \<Rightarrow> 'z assoc_state_scheme \<Rightarrow> bool" where
  step_insert: "assoc_fresh s it \<Longrightarrow> assoc_map s (assoc_key s it) = None \<Longrightarrow>
     assoc_step s (Ins it) (assoc_insert it (hash s (assoc_key s it)) s)"
| step_delete: "assoc_map s k \<noteq> None \<Longrightarrow> assoc_delete k (hash s k) s = Some s' \<Longrightarrow> assoc_step s (Del k) s'"
| step_signal: "assoc_step s Internal (assoc_start_expand n s)"
| step_turn: "assoc_maintenance_turn s = Some s' \<Longrightarrow> assoc_step s Internal s'"
| step_wake: "started_expanding s \<Longrightarrow> assoc_step s Internal (assoc_maintenance_wake ok s)"
| step_locks: "assoc_step s Internal (s\<lparr>item_locks := L\<rparr>)"

inductive_cases assoc_step_InsE: "assoc_step s (Ins it) s'"
inductive_cases assoc_step_DelE: "assoc_step s (Del k) s'"
inductive_cases assoc_step_InternalE: "assoc_step s Internal s'"

inductive assoc_steps :: "'z assoc_state_scheme \<Rightarrow> assoc_label list \<Rightarrow> 'z assoc_state_scheme \<Rightarrow> bool" where
  steps_refl: "assoc_steps s [] s"
| steps_snoc: "assoc_steps s ls t \<Longrightarrow> assoc_step t l u \<Longrightarrow> assoc_steps s (ls @ [l]) u"

text \<open>The abstract machine: a finite map from keys to addresses.\<close>

primrec assoc_spec :: "(addr \<Rightarrow> bytes) \<Rightarrow> assoc_label \<Rightarrow> (bytes \<rightharpoonup> addr) \<Rightarrow> (bytes \<rightharpoonup> addr)" where
  "assoc_spec key (Ins it) m = m(key it \<mapsto> it)"
| "assoc_spec key (Del k) m = m(k := None)"
| "assoc_spec key Internal m = m"

definition assoc_sys :: "'z assoc_state_scheme \<Rightarrow> bool" where
  "assoc_sys s \<longleftrightarrow> assoc_inv s \<and> (started_expanding s \<and> \<not> expanding s \<longrightarrow> hashpower s < HASHPOWER_MAX)"

lemma assoc_sys_cong:
  assumes "assoc_sys s" "same_table s s'" "heap s' = heap s" "primary_hashtable s' = primary_hashtable s"
    "old_hashtable s' = old_hashtable s" "started_expanding s' = started_expanding s \<or> hashpower s < HASHPOWER_MAX"
  shows "assoc_sys s' \<and> assoc_map s' = assoc_map s \<and> assoc_key s' = assoc_key s"
proof -
  have "hashpower s' = hashpower s" "expanding s' = expanding s" using assms(2) by (auto simp: same_table_def)
  with assms(1,6) show ?thesis
    using assoc_rep_cong [OF assms(2-5)] assoc_map_cong [OF assms(2-5)]
    by (auto simp: assoc_sys_def assoc_inv_def assoc_key_def assms(3) fun_eq_iff)
qed

lemma same_table_insert_flags:
  "started_expanding (assoc_insert it hv s) = started_expanding s"
  by (simp add: assoc_insert_def Let_def)

lemma assoc_delete_started: "assoc_delete k hv s = Some s' \<Longrightarrow> started_expanding s' = started_expanding s"
  by (auto simp: assoc_delete_def Let_def split: Option.bind_splits if_splits)

lemma assoc_step_sim:
  assumes "assoc_step s l s'" "assoc_sys s"
  shows "assoc_sys s' \<and> assoc_map s' = assoc_spec (assoc_key s) l (assoc_map s) \<and> assoc_key s' = assoc_key s"
  using assms
proof cases
  case (step_insert it)
  have st: "same_table s s'" unfolding step_insert(2) by (rule assoc_insert_same_table)
  from assoc_insert_correct [of s it] step_insert assms(2) show ?thesis
    using st same_table_insert_flags [of it _ s] by (simp add: assoc_sys_def same_table_def)
next
  case (step_delete k)
  then obtain x where "assoc_map s k = Some x" by blast
  with assoc_delete_correct [of s k x] step_delete assms(2) show ?thesis
    by (auto simp: assoc_sys_def assoc_frame_key assoc_delete_started same_table_def)
next
  case (step_signal n)
  show ?thesis unfolding step_signal assoc_spec.simps
    by (rule assoc_sys_cong [OF assms(2)]) (auto simp: assoc_start_expand_def same_table_def)
next
  case step_turn
  with assoc_maintenance_correct [of s] assms(2) show ?thesis
    by (auto simp: assoc_sys_def assoc_frame_key)
next
  case (step_wake ok)
  show ?thesis
  proof (cases "expanding s")
    case True
    with step_wake assms(2) show ?thesis by (simp add: assoc_maintenance_wake_def)
  next
    case False
    with step_wake assms(2) have "hashpower s < HASHPOWER_MAX" by (simp add: assoc_sys_def)
    with assoc_expand_correct [of s ok] False assms(2) step_wake show ?thesis
      by (auto simp: assoc_maintenance_wake_def assoc_sys_def assoc_frame_key [OF assoc_expand_frame])
        (auto simp: assoc_expand_def Let_def split: if_splits)
  qed
next
  case (step_locks L)
  show ?thesis unfolding step_locks assoc_spec.simps
    by (rule assoc_sys_cong [OF assms(2)]) (simp_all add: same_table_def)
qed

lemma assoc_steps_sim:
  "assoc_steps s ls s' \<Longrightarrow> assoc_sys s \<Longrightarrow>
   assoc_sys s' \<and> assoc_map s' = fold (assoc_spec (assoc_key s)) ls (assoc_map s) \<and> assoc_key s' = assoc_key s"
proof (induction rule: assoc_steps.induct)
  case (steps_snoc s ls t l u)
  then show ?case using assoc_step_sim [of t l u] by simp
qed simp

lemma assoc_init_sys:
  assumes "assoc_init n True s = Some s'" "0 < n" "n \<le> HASHPOWER_MAX" "\<not> expanding s" "\<not> started_expanding s"
  shows "assoc_sys s' \<and> assoc_map s' = Map.empty"
proof -
  have hs: "unat (hashsize n) = 2 ^ n" using assms(3) by (intro unat_hashsize) simp
  have s': "s' = s\<lparr>hashpower := n, primary_hashtable := replicate (2 ^ n) NULL\<rparr>"
    using assms(1,2) hs by (simp add: assoc_init_def Let_def)
  have v: "valid_slot s' sl \<Longrightarrow> hpos_read s' sl = NULL" for sl
    using assms(4) by (cases sl) (simp_all add: s' hpos_read_def)
  have rep: "assoc_rep s' (\<lambda>_. [])"
    using assms(3,4) v by (simp add: assoc_rep_def assoc_wf_def slot_ok_def s')
  have "assoc_map s' = Map.empty"
    by (rule assoc_map_determined [OF rep]) (simp add: chain_items_def)
  with rep assms(5) show ?thesis by (auto simp: assoc_sys_def assoc_inv_def s')
qed

lemma move_buckets_finish:
  assumes "assoc_inv s" "expanding s" "item_locks s = (\<lambda>_. False)"
    and "2 ^ (hashpower s - 1) - expand_bucket s \<le> n"
  shows "\<exists>s'. move_buckets n s = Some s' \<and> \<not> expanding s' \<and> assoc_inv s' \<and> assoc_map s' = assoc_map s"
  using assms
proof (induction n arbitrary: s)
  case 0
  then show ?case by (auto simp: assoc_inv_def assoc_rep_def assoc_wf_def)
next
  case (Suc n)
  then obtain C where rep: "assoc_rep s C" by (auto simp: assoc_inv_def)
  have free: "\<not> item_locks s (hv_bucket (word_of_nat (expand_bucket s)) (item_lock_hashpower s))"
    using Suc.prems by simp
  from move_bucket_correct [OF rep Suc.prems(2) free] obtain t where
    t: "move_bucket s = Some t" "assoc_inv t" "assoc_frame s t" "assoc_map t = assoc_map s"
      "hashpower t = hashpower s" and
    c: "if expand_bucket s + 1 = 2 ^ (hashpower s - 1) then \<not> expanding t
     else expanding t \<and> expand_bucket t = expand_bucket s + 1" by (auto simp: assoc_inv_def)
  have st: "move_buckets (Suc n) s = move_buckets n t" using t(1) Suc.prems(2) by simp
  show ?case
  proof (cases "expanding t")
    case True
    then have e: "expand_bucket t = expand_bucket s + 1" using c by (auto split: if_splits)
    have "2 ^ (hashpower t - 1) - expand_bucket t \<le> n" using Suc.prems(4) e t(5) by simp
    moreover have "item_locks t = (\<lambda>_. False)" using t(3) Suc.prems(3) by (simp add: assoc_frame_def)
    ultimately show ?thesis using Suc.IH [OF t(2) True] st t(4) by simp
  next
    case False
    then have "move_buckets n t = Some t" by (cases n) simp_all
    with st False t show ?thesis by simp
  qed
qed

lemma hv_bucket_coarser:
  assumes "hv_bucket hv m = b" "n \<le> m" "m < 32"
  shows "hv_bucket hv n = hv_bucket (word_of_nat b) n"
proof -
  have b: "b = unat hv mod 2 ^ m" using assms by (auto simp: hv_bucket_mod)
  then have "b \<le> unat hv" by simp
  also have "unat hv < 2 ^ 32" using unsigned_less [of hv, where 'a = nat] by simp
  finally have "unat (word_of_nat b :: u32) = b" by (simp add: unat_of_nat take_bit_nat_eq_self)
  moreover have "unat hv mod 2 ^ n = (unat hv mod 2 ^ m) mod 2 ^ n"
    using assms(2) by (simp add: mod_mod_cancel le_imp_power_dvd)
  ultimately show ?thesis using b assms by (simp add: hv_bucket_mod)
qed

section \<open>Properties\<close>

text \<open>
  (C5) Refinement of the table to a finite map: under every interleaving of insertions,
  deletions, expansion signals, migration turns of the maintenance thread, expansions and lock
  traffic, the table stays well formed and what \<open>assoc_find\<close> returns for any key is what a
  finite map subjected to the insertions and deletions alone would return.
\<close>

theorem assoc_refines_map:
  assumes "assoc_sys s" "assoc_steps s ls s'"
  shows "assoc_sys s' \<and> assoc_map s' = fold (assoc_spec (assoc_key s)) ls (assoc_map s) \<and>
    (\<forall>k. assoc_find k (hash s' k) s' = Some (case assoc_map s' k of None \<Rightarrow> NULL | Some x \<Rightarrow> x))"
proof -
  note sim = assoc_steps_sim [OF assms(2,1)]
  then obtain C where rep: "assoc_rep s' C" by (auto simp: assoc_sys_def assoc_inv_def)
  have "assoc_find k (hash s' k) s' = Some (case assoc_map s' k of None \<Rightarrow> NULL | Some x \<Rightarrow> x)" for k
    using assoc_find_total [OF rep, of k "hash s' k"] by (auto simp: assoc_map_def)
  with sim show ?thesis by blast
qed

text \<open>A concrete table: two buckets, one item with the one-byte key 6 at address 100.\<close>

definition ex_item :: "bytes \<Rightarrow> item" where
  "ex_item k = zero_item\<lparr>nkey := word_of_nat (length k), i_key := k\<rparr>"

definition ex_settings :: settings where
  "ex_settings = \<lparr>maxbytes = 67108864, oldest_live = 0, oldest_cas = 0, evict_to_free = True,
     factor_num = 5, factor_den = 4, chunk_size = 48, use_cas = True, item_size_max = 1048576,
     slab_chunk_size_max = 524288, slab_page_size = 1048576, lru_segmented = True,
     slab_reassign = True, slab_automove = 1, hot_lru_pct = 20, warm_lru_pct = 40,
     tail_repair_time = 0, inline_ascii_response = False, temp_lru = False, temporary_ttl = 61\<rparr>"

definition ex_table0 :: assoc_state where
  "ex_table0 = \<lparr>heap = (\<lambda>_. zero_item)(100 := ex_item [6], 200 := ex_item [8]), settings = ex_settings,
     current_time = 1, hash = (\<lambda>k. word_of_nat (sum_list (map unat k))), item_lock_hashpower = 0,
     item_locks = (\<lambda>_. False), hashpower = 1, primary_hashtable = [0, 0], old_hashtable = [],
     expanding = False, started_expanding = False, expand_bucket = 0, hash_bulk_move = 1\<rparr>"

lemma ex_table0_sys: "assoc_sys ex_table0 \<and> assoc_map ex_table0 = Map.empty"
proof (rule assoc_init_sys [of 1 ex_table0])
  have "unat (hashsize 1) = 2" by (subst unat_hashsize) simp_all
  then show "assoc_init 1 True ex_table0 = Some ex_table0"
    by (simp add: assoc_init_def ex_table0_def numeral_2_eq_2)
qed (simp_all add: ex_table0_def)

lemma ex_table0_fresh: "assoc_fresh ex_table0 100"
  using ex_table0_sys by (simp add: assoc_fresh_def assoc_items_def ex_table0_def ex_item_def key_wf_def)

lemma ex_table0_step: "assoc_step ex_table0 (Ins 100) (assoc_insert 100 (hash ex_table0 [6]) ex_table0)"
proof -
  have "assoc_key ex_table0 100 = [6]" by (simp add: assoc_key_def ex_table0_def ex_item_def item_key_def)
  with step_insert [OF ex_table0_fresh] ex_table0_sys show ?thesis by simp
qed

theorem assoc_refines_map_witness:
  "assoc_map (assoc_insert 100 (hash ex_table0 [6]) ex_table0) [6] = Some 100"
proof -
  have "assoc_steps ex_table0 ([] @ [Ins 100]) (assoc_insert 100 (hash ex_table0 [6]) ex_table0)"
    by (rule steps_snoc [OF steps_refl ex_table0_step])
  moreover have "assoc_key ex_table0 100 = [6]"
    by (simp add: assoc_key_def ex_table0_def ex_item_def item_key_def)
  ultimately show ?thesis using assoc_refines_map [of ex_table0 "[Ins 100]"] ex_table0_sys by simp
qed

text \<open>
  (C28) One item lock covers one migrated bucket: a migration turn changes only items whose own
  lock (the lock of their key's hash) is the lock the turn acquired, provided the lock table
  is no larger than the table being migrated.
\<close>

theorem migration_lock_covers:
  assumes "assoc_inv s" "expanding s" "item_lock_hashpower s \<le> hashpower s - 1"
    and "move_bucket s = Some s'" "heap s' a \<noteq> heap s a"
  shows "hv_bucket (hash s (item_key (heap s a))) (item_lock_hashpower s) =
      hv_bucket (word_of_nat (expand_bucket s)) (item_lock_hashpower s) \<and>
    \<not> item_locks s (hv_bucket (hash s (item_key (heap s a))) (item_lock_hashpower s))"
proof -
  let ?l = "hv_bucket (word_of_nat (expand_bucket s)) (item_lock_hashpower s)"
  obtain C where rep: "assoc_rep s C" using assms(1) by (auto simp: assoc_inv_def)
  have free: "\<not> item_locks s ?l" using move_bucket_locked assms(4,5) by fastforce
  with move_bucket_correct [OF rep assms(2)] assms(4,5) have "a \<in> set (C (Old (expand_bucket s)))" by auto
  then have "hash_slot (hash s (item_key (heap s a))) s = Old (expand_bucket s)"
    using assoc_rep_item_slot [OF rep] by (auto simp: item_slot_def)
  then have b: "hv_bucket (hash s (item_key (heap s a))) (hashpower s - 1) = expand_bucket s"
    by (auto simp: hash_slot_def Let_def split: if_splits)
  have "hashpower s - 1 < 32" using rep assms(2) by (auto simp: assoc_rep_def assoc_wf_def)
  from hv_bucket_coarser [OF b assms(3) this] free show ?thesis by simp
qed

text \<open>
  (C29) The expansion ends: with the item locks free, as many migration turns as there are
  buckets left complete it, no item is lost and every loop of the migration stops.
\<close>

theorem expansion_completes:
  assumes "assoc_inv s" "expanding s" "item_locks s = (\<lambda>_. False)"
    and "2 ^ (hashpower s - 1) - expand_bucket s \<le> n"
  shows "\<exists>s'. move_buckets n s = Some s' \<and> \<not> expanding s' \<and> assoc_inv s' \<and> assoc_map s' = assoc_map s"
  using move_buckets_finish [OF assms] .

text \<open>A table in the middle of an expansion: items 100 (key 6) and 200 (key 8) still wait in the old table.\<close>

definition ex_table1 :: assoc_state where
  "ex_table1 = assoc_expand True (assoc_insert 100 6 (assoc_insert 200 8 ex_table0))"

lemma ex_table0_keys:
  "assoc_key ex_table0 100 = [6]" "assoc_key ex_table0 200 = [8]"
  "hash ex_table0 [6] = 6" "hash ex_table0 [8] = 8"
  by (simp_all add: assoc_key_def ex_table0_def ex_item_def item_key_def)

lemma ex_table0_insert:
  "assoc_inv (assoc_insert 200 8 ex_table0) \<and> assoc_map (assoc_insert 200 8 ex_table0) = [[8] \<mapsto> 200] \<and>
   assoc_key (assoc_insert 200 8 ex_table0) = assoc_key ex_table0"
proof -
  have i: "assoc_inv ex_table0" "assoc_map ex_table0 = Map.empty" using ex_table0_sys by (simp_all add: assoc_sys_def)
  have f: "assoc_fresh ex_table0 200"
    using i by (simp add: assoc_fresh_def assoc_items_def ex_table0_def ex_item_def key_wf_def)
  show ?thesis using assoc_insert_correct [OF i(1) f] i(2) by (simp add: ex_table0_keys)
qed

lemma ex_table1_inv: "assoc_inv ex_table1 \<and> assoc_map ex_table1 = [[8] \<mapsto> 200, [6] \<mapsto> 100]"
proof -
  let ?t = "assoc_insert 200 8 ex_table0" and ?u = "assoc_insert 100 6 (assoc_insert 200 8 ex_table0)"
  have i: "assoc_inv ?t" "assoc_map ?t = [[8] \<mapsto> 200]" using ex_table0_insert by simp_all
  have k: "assoc_key ?t 100 = [6]" "hash ?t [6] = 6"
    using ex_table0_insert ex_table0_keys by (simp_all add: assoc_insert_def Let_def)
  have "key_wf (heap ?t 100)" by (simp add: assoc_insert_heap ex_table0_def ex_item_def key_wf_def)
  then have f: "assoc_fresh ?t 100" using i by (simp add: assoc_fresh_def assoc_items_def)
  have "assoc_inv ?u \<and> assoc_map ?u = [[8] \<mapsto> 200, [6] \<mapsto> 100]"
    using assoc_insert_correct [OF i(1) f] i(2) by (simp add: k)
  moreover have "\<not> expanding ?u" "hashpower ?u = 1"
    by (simp_all add: assoc_insert_def Let_def ex_table0_def)
  ultimately show ?thesis using assoc_expand_correct [of ?u True] by (simp add: ex_table1_def)
qed

lemma ex_table1_fields:
  "expanding ex_table1" "hashpower ex_table1 = 2" "expand_bucket ex_table1 = 0"
  "item_locks ex_table1 = (\<lambda>_. False)" "item_lock_hashpower ex_table1 = 0"
  by (simp_all add: ex_table1_def assoc_expand_def assoc_insert_def Let_def ex_table0_def)

theorem expansion_completes_witness:
  "\<exists>s'. move_buckets 2 ex_table1 = Some s' \<and> \<not> expanding s' \<and> assoc_map s' [6] = Some 100"
  using expansion_completes [of ex_table1 2] ex_table1_inv by (auto simp: ex_table1_fields)

lemma ex_hv_buckets:
  "hv_bucket 6 0 = 0" "hv_bucket 8 0 = 0" "hv_bucket 0 0 = 0" "hv_bucket 6 1 = 0" "hv_bucket 8 1 = 0"
  "hv_bucket 6 2 = 2" "hv_bucket 8 2 = 0"
  by (simp_all add: hv_bucket_mod)

lemma ex_table1_eq:
  "ex_table1 = ex_table0\<lparr>heap := (heap ex_table0)(200 := ex_item [8], 100 := (ex_item [6])\<lparr>h_next := 200\<rparr>),
     hashpower := 2, primary_hashtable := [0, 0, 0, 0], old_hashtable := [100, 0], expanding := True,
     expand_bucket := 0\<rparr>"
proof -
  have hs: "unat (hashsize (Suc (Suc 0))) = 4" using unat_hashsize [of 2] by (simp add: numeral_2_eq_2)
  have hb: "hv_bucket 6 (Suc 0) = 0" "hv_bucket 8 (Suc 0) = 0" using ex_hv_buckets by simp_all
  have r: "replicate 4 (0::nat) = [0, 0, 0, 0]" by (simp add: numeral_eq_Suc)
  have i: "ex_item [8]\<lparr>h_next := 0\<rparr> = ex_item [8]" by (simp add: ex_item_def zero_item_def)
  show ?thesis
    by (simp add: ex_table1_def assoc_expand_def assoc_insert_def hash_slot_def Let_def hpos_read_def
        hpos_write_def upd_item_def ex_table0_def hb hs r i)
qed

lemma ex_move:
  "\<exists>s'. move_bucket ex_table1 = Some s' \<and> h_next (heap s' 100) = 0 \<and> h_next (heap ex_table1 100) = 200"
proof -
  have hs: "unat (hashsize (Suc 0)) = 2" using unat_hashsize [of 1] by simp
  have k: "item_key (ex_item [8]) = [8]" "item_key ((ex_item [6])\<lparr>h_next := v\<rparr>) = [6]" "h_next (ex_item [8]) = 0" for v
    by (simp_all add: ex_item_def item_key_def zero_item_def)
  show ?thesis
    by (simp add: move_bucket_def item_trylock_def Let_def ex_table1_eq ex_table0_def upd_item_def
        ex_hv_buckets hs move_chain.simps k item_trylock_unlock_def)
qed

theorem migration_lock_covers_witness:
  "hv_bucket (hash ex_table1 (item_key (heap ex_table1 100))) 0 = hv_bucket (word_of_nat 0) 0"
proof -
  obtain s' where s': "move_bucket ex_table1 = Some s'" "h_next (heap s' 100) = 0" "h_next (heap ex_table1 100) = 200"
    using ex_move by blast
  have "heap s' 100 \<noteq> heap ex_table1 100" using s'(2,3) by auto
  with migration_lock_covers [OF _ _ _ s'(1), of 100] ex_table1_inv show ?thesis by (simp add: ex_table1_fields)
qed

end
