(* ===== verification/Slabs.thy ===== *)
theory Slabs
  imports Assoc
begin

text \<open>
  The slab allocator of \<^verbatim>\<open>slabs_curd/slabs.c\<close>: size classes, the free list (\<^verbatim>\<open>slots\<close>) of each class,
  pages cut into chunks, the global page pool and the memory limit. Free lists are doubly linked
  through the \<^verbatim>\<open>next\<close>/\<^verbatim>\<open>prev\<close> fields of the free items themselves.

  \<^verbatim>\<open>malloc\<close> and \<^verbatim>\<open>realloc\<close> are the environment: \<open>malloc_results\<close> lists the pointers the next calls
  return (\<open>NULL\<close> is failure, as is an exhausted list) and \<open>realloc_results\<close> the outcomes of the
  next calls of \<^verbatim>\<open>realloc\<close>. The growth factor, a \<^verbatim>\<open>double\<close> in the source, is the exact fraction
  \<open>factor_num / factor_den\<close>. Byte counters (\<^verbatim>\<open>size_t\<close>) are 64-bit words and wrap.
\<close>

section \<open>State\<close>

record slabclass_t =
  sc_size :: nat
  perslab :: nat
  slots :: addr
  sl_curr :: nat
  slabs :: nat
  slab_list :: "addr list"
  list_size :: nat
  requested :: u64

record slab_rebalance =
  slab_start :: addr
  slab_end :: addr
  slab_pos :: addr
  s_clsid :: int
  d_clsid :: int
  busy_items :: u32
  rescues :: u32
  evictions_nomem :: u32
  inline_reclaim :: u32
  chunk_rescues :: u32
  busy_deletes :: u32
  busy_loops :: u32
  sr_done :: bool

record slab_state = assoc_state +
  slabclass :: "nat \<Rightarrow> slabclass_t"
  mem_limit :: u64
  mem_malloced :: u64
  mem_limit_reached :: bool
  power_largest :: nat
  mem_base :: addr
  mem_current :: addr
  mem_avail :: u64
  malloc_results :: "addr list"
  realloc_results :: "bool list"
  slab_rebalance_signal :: int
  slab_rebal :: slab_rebalance
  pick_any_cur :: int

abbreviation (input) POWER_SMALLEST :: nat where "POWER_SMALLEST \<equiv> 1"
abbreviation (input) SLAB_GLOBAL_PAGE_POOL :: nat where "SLAB_GLOBAL_PAGE_POOL \<equiv> 0"
abbreviation (input) MAX_NUMBER_OF_SLAB_CLASSES :: nat where "MAX_NUMBER_OF_SLAB_CLASSES \<equiv> 64"
abbreviation (input) CHUNK_ALIGN_BYTES :: nat where "CHUNK_ALIGN_BYTES \<equiv> 8"

definition empty_class :: slabclass_t where
  "empty_class = \<lparr>sc_size = 0, perslab = 0, slots = NULL, sl_curr = 0, slabs = 0, slab_list = [],
     list_size = 0, requested = 0\<rparr>"

definition upd_class :: "nat \<Rightarrow> (slabclass_t \<Rightarrow> slabclass_t) \<Rightarrow> 'z slab_state_scheme \<Rightarrow> 'z slab_state_scheme" where
  "upd_class cid f s = s\<lparr>slabclass := (slabclass s)(cid := f (slabclass s cid))\<rparr>"

section \<open>Size classes\<close>

text \<open>\<^verbatim>\<open>while (size > slabclass[res].size) if (res++ == power_largest) return power_largest;\<close>\<close>

partial_function (option) clsid_loop :: "nat \<Rightarrow> 'z slab_state_scheme \<Rightarrow> nat \<Rightarrow> nat option" where
  "clsid_loop sz s res =
     (if sc_size (slabclass s res) < sz
      then (if res = power_largest s then Some (power_largest s) else clsid_loop sz s (res + 1))
      else Some res)"

definition slabs_clsid_of :: "nat \<Rightarrow> 'z slab_state_scheme \<Rightarrow> nat option" where
  "slabs_clsid_of sz s =
     (if sz = 0 \<or> item_size_max (settings s) < sz then Some 0 else clsid_loop sz s POWER_SMALLEST)"

definition chunk_align :: "nat \<Rightarrow> nat" where
  "chunk_align sz = (if sz mod CHUNK_ALIGN_BYTES \<noteq> 0
     then sz + (CHUNK_ALIGN_BYTES - sz mod CHUNK_ALIGN_BYTES) else sz)"

function init_classes ::
  "settings \<Rightarrow> nat list option \<Rightarrow> nat \<Rightarrow> nat \<Rightarrow> (nat \<Rightarrow> slabclass_t) \<Rightarrow> nat \<times> (nat \<Rightarrow> slabclass_t)" where
  "init_classes st slab_sizes i sz cls =
     (if i < MAX_NUMBER_OF_SLAB_CLASSES - 1 then
        (case slab_sizes of
           Some ss \<Rightarrow>
             (if ss ! (i - 1) = 0 then (i, cls)
              else let sz = chunk_align (ss ! (i - 1))
                   in init_classes st slab_sizes (i + 1) sz
                        (cls(i := (cls i)\<lparr>sc_size := sz, perslab := slab_page_size st div sz\<rparr>)))
         | None \<Rightarrow>
             (if slab_chunk_size_max st * factor_den st \<le> sz * factor_num st then (i, cls)
              else let sz = chunk_align sz
                   in init_classes st slab_sizes (i + 1) (sz * factor_num st div factor_den st)
                        (cls(i := (cls i)\<lparr>sc_size := sz, perslab := slab_page_size st div sz\<rparr>))))
      else (i, cls))"
  by pat_completeness auto
termination by (relation "measure (\<lambda>(_, _, i, _, _). 63 - i)") auto

section \<open>Free lists\<close>

text \<open>Pushing a chunk on the free list, the code \<open>do_slabs_free\<close> and \<open>do_slabs_free_chunked\<close> share.\<close>

definition slots_push :: "nat \<Rightarrow> addr \<Rightarrow> 'z slab_state_scheme \<Rightarrow> 'z slab_state_scheme" where
  "slots_push cid it s =
     (let old = slots (slabclass s cid);
          s = upd_item it (\<lambda>i. i\<lparr>i_prev := NULL, i_next := old\<rparr>) s;
          s = (if old \<noteq> NULL then upd_item old (\<lambda>i. i\<lparr>i_prev := it\<rparr>) s else s)
      in upd_class cid (\<lambda>p. p\<lparr>slots := it, sl_curr := sl_curr p + 1\<rparr>) s)"

definition sub_requested :: "nat \<Rightarrow> u64 \<Rightarrow> 'z slab_state_scheme \<Rightarrow> 'z slab_state_scheme" where
  "sub_requested cid n s = upd_class cid (\<lambda>p. p\<lparr>requested := requested p - n\<rparr>) s"

partial_function (option) free_chunks :: "addr \<Rightarrow> 'z slab_state_scheme \<Rightarrow> 'z slab_state_scheme option" where
  "free_chunks chunk s =
     (if chunk = NULL then Some s
      else do {
        c_assert (it_flags (heap s chunk) = ITEM_CHUNK);
        let cid = unat (slabs_clsid (heap s chunk));
        let s = upd_item chunk (\<lambda>c. c\<lparr>it_flags := ITEM_SLABBED, slabs_clsid := 0\<rparr>) s;
        let next_chunk = i_next (heap s chunk);
        let s = slots_push cid chunk s;
        let s = sub_requested cid (word_of_int (ch_size (heap s chunk)) + of_nat sizeof_item_chunk) s;
        free_chunks next_chunk s
      })"

definition do_slabs_free_chunked :: "addr \<Rightarrow> 'z slab_state_scheme \<Rightarrow> 'z slab_state_scheme option" where
  "do_slabs_free_chunked it s =
     (let chunk = ITEM_data it (heap s it);
          s = upd_item it (\<lambda>i. i\<lparr>it_flags := ITEM_SLABBED, slabs_clsid := 0, i_prev := NULL\<rparr>) s;
          cid = unat (orig_clsid (heap s chunk));
          chunk = i_next (heap s chunk);
          s = (if chunk \<noteq> NULL then upd_item chunk (\<lambda>c. c\<lparr>i_prev := NULL\<rparr>) s else s);
          s = slots_push cid it s;
          s = sub_requested cid (ucast (nkey (heap s it)) + 1 + ucast (nsuffix (heap s it))
                + of_nat sizeof_item + of_nat sizeof_item_chunk) s;
          s = (if use_cas (settings s) then sub_requested cid 8 s else s)
      in free_chunks chunk s)"

definition do_slabs_free :: "addr \<Rightarrow> u64 \<Rightarrow> nat \<Rightarrow> 'z slab_state_scheme \<Rightarrow> 'z slab_state_scheme option" where
  "do_slabs_free it sz cid s = do {
     c_assert (POWER_SMALLEST \<le> cid \<and> cid \<le> power_largest s);
     (if \<not> has_flag (it_flags (heap s it)) ITEM_CHUNKED then
        let s = upd_item it (\<lambda>i. i\<lparr>it_flags := ITEM_SLABBED, slabs_clsid := 0\<rparr>) s;
            s = slots_push cid it s
        in Some (sub_requested cid sz s)
      else do_slabs_free_chunked it s)
   }"

definition slabs_free :: "addr \<Rightarrow> u64 \<Rightarrow> nat \<Rightarrow> 'z slab_state_scheme \<Rightarrow> 'z slab_state_scheme option" where
  "slabs_free it sz cid s = do_slabs_free it sz cid s"

section \<open>Pages\<close>

definition c_malloc :: "'z slab_state_scheme \<Rightarrow> addr \<times> 'z slab_state_scheme" where
  "c_malloc s = (case malloc_results s of [] \<Rightarrow> (NULL, s)
     | p # ps \<Rightarrow> (p, s\<lparr>malloc_results := ps\<rparr>))"

definition c_realloc_ok :: "'z slab_state_scheme \<Rightarrow> bool \<times> 'z slab_state_scheme" where
  "c_realloc_ok s = (case realloc_results s of [] \<Rightarrow> (False, s)
     | b # bs \<Rightarrow> (b, s\<lparr>realloc_results := bs\<rparr>))"

definition get_page_from_global_pool :: "'z slab_state_scheme \<Rightarrow> addr \<times> 'z slab_state_scheme" where
  "get_page_from_global_pool s =
     (let p = slabclass s SLAB_GLOBAL_PAGE_POOL
      in if slabs p < 1 then (NULL, s)
         else (slab_list p ! (slabs p - 1),
               upd_class SLAB_GLOBAL_PAGE_POOL (\<lambda>p. p\<lparr>slabs := slabs p - 1\<rparr>) s))"

fun split_loop :: "nat \<Rightarrow> addr \<Rightarrow> nat \<Rightarrow> 'z slab_state_scheme \<Rightarrow> 'z slab_state_scheme option" where
  "split_loop 0 ptr cid s = Some s"
| "split_loop (Suc n) ptr cid s = do {
     s \<leftarrow> do_slabs_free ptr 0 cid s;
     split_loop n (ptr + sc_size (slabclass s cid)) cid s
   }"

definition split_slab_page_into_freelist :: "addr \<Rightarrow> nat \<Rightarrow> 'z slab_state_scheme \<Rightarrow> 'z slab_state_scheme option" where
  "split_slab_page_into_freelist ptr cid s = split_loop (perslab (slabclass s cid)) ptr cid s"

definition grow_slab_list :: "nat \<Rightarrow> 'z slab_state_scheme \<Rightarrow> bool \<times> 'z slab_state_scheme" where
  "grow_slab_list cid s =
     (let p = slabclass s cid
      in if slabs p = list_size p then
           (let new_size = (if list_size p \<noteq> 0 then list_size p * 2 else 16);
                (ok, s) = c_realloc_ok s
            in if ok then (True, upd_class cid (\<lambda>p. p\<lparr>list_size := new_size,
                   slab_list := take new_size (slab_list p @ replicate new_size NULL)\<rparr>) s)
               else (False, s))
         else (True, s))"

definition memory_allocate :: "nat \<Rightarrow> 'z slab_state_scheme \<Rightarrow> addr \<times> 'z slab_state_scheme" where
  "memory_allocate sz s =
     (if mem_base s = NULL then
        (let (ret, s) = c_malloc s in (ret, s\<lparr>mem_malloced := mem_malloced s + of_nat sz\<rparr>))
      else if mem_avail s < of_nat sz then (NULL, s)
      else let ret = mem_current s;
               sz = chunk_align sz;
               s = s\<lparr>mem_current := mem_current s + sz,
                     mem_avail := (if of_nat sz < mem_avail s then mem_avail s - of_nat sz else 0)\<rparr>
           in (ret, s\<lparr>mem_malloced := mem_malloced s + of_nat sz\<rparr>))"

text \<open>\<^verbatim>\<open>memset(ptr, 0, len)\<close> on a page.\<close>

definition zero_page :: "addr \<Rightarrow> nat \<Rightarrow> 'z base_state_scheme \<Rightarrow> 'z base_state_scheme" where
  "zero_page ptr len s = s\<lparr>heap := (\<lambda>a. if ptr \<le> a \<and> a < ptr + len then zero_item else heap s a)\<rparr>"

definition page_len :: "nat \<Rightarrow> 'z slab_state_scheme \<Rightarrow> nat" where
  "page_len cid s = (if slab_reassign (settings s) \<or> slab_chunk_size_max (settings s) \<noteq> slab_page_size (settings s)
     then slab_page_size (settings s) else sc_size (slabclass s cid) * perslab (slabclass s cid))"

definition do_slabs_newslab :: "nat \<Rightarrow> 'z slab_state_scheme \<Rightarrow> (bool \<times> 'z slab_state_scheme) option" where
  "do_slabs_newslab cid s =
     (let len = page_len cid s
      in if mem_limit s \<noteq> 0 \<and> mem_limit s < mem_malloced s + of_nat len \<and> 0 < slabs (slabclass s cid)
            \<and> slabs (slabclass s SLAB_GLOBAL_PAGE_POOL) = 0
         then Some (False, s\<lparr>mem_limit_reached := True\<rparr>)
         else let (ok, s) = grow_slab_list cid s
              in if \<not> ok then Some (False, s)
                 else let (ptr, s) = get_page_from_global_pool s;
                          (ptr, s) = (if ptr = NULL then memory_allocate len s else (ptr, s))
                      in if ptr = NULL then Some (False, s)
                         else do {
                           let s = zero_page ptr len s;
                           s \<leftarrow> split_slab_page_into_freelist ptr cid s;
                           Some (True, upd_class cid (\<lambda>p. p\<lparr>slab_list := (slab_list p)[slabs p := ptr],
                                    slabs := slabs p + 1\<rparr>) s)
                         })"

fun preallocate_loop :: "nat \<Rightarrow> nat \<Rightarrow> nat \<Rightarrow> nat \<Rightarrow> 'z slab_state_scheme \<Rightarrow> 'z slab_state_scheme option" where
  "preallocate_loop 0 i prealloc maxslabs s = Some s"
| "preallocate_loop (Suc n) i prealloc maxslabs s =
     (if maxslabs < prealloc + 1 then Some s
      else do {
        (ok, s) \<leftarrow> do_slabs_newslab i s;
        (if ok then preallocate_loop n (i + 1) (prealloc + 1) maxslabs s else None)
      })"

definition slabs_preallocate :: "nat \<Rightarrow> 'z slab_state_scheme \<Rightarrow> 'z slab_state_scheme option" where
  "slabs_preallocate maxslabs s =
     preallocate_loop (MAX_NUMBER_OF_SLAB_CLASSES - POWER_SMALLEST) POWER_SMALLEST 0 maxslabs s"

definition slabs_init ::
  "u64 \<Rightarrow> bool \<Rightarrow> nat list option \<Rightarrow> u64 option \<Rightarrow> 'z slab_state_scheme \<Rightarrow> 'z slab_state_scheme option" where
  "slabs_init limit prealloc slab_sizes t_initial_malloc s =
     (let st = settings s;
          s = s\<lparr>mem_limit := limit\<rparr>;
          s = (if prealloc then
                 (let (base, s) = c_malloc s; s = s\<lparr>mem_base := base\<rparr>
                  in if base \<noteq> NULL then s\<lparr>mem_current := base, mem_avail := mem_limit s\<rparr> else s)
               else s);
          (i, cls) = init_classes st slab_sizes POWER_SMALLEST (sizeof_item + chunk_size st) (\<lambda>_. empty_class);
          cls = cls(i := (cls i)\<lparr>sc_size := slab_chunk_size_max st,
                                perslab := slab_page_size st div slab_chunk_size_max st\<rparr>);
          s = s\<lparr>slabclass := cls, power_largest := i\<rparr>;
          s = (case t_initial_malloc of None \<Rightarrow> s | Some n \<Rightarrow> s\<lparr>mem_malloced := n\<rparr>)
      in if prealloc then slabs_preallocate i s else Some s)"

section \<open>Allocation\<close>

text \<open>Taking the head of a free list and charging \<open>sz\<close> bytes to the class.\<close>

definition slots_pop :: "nat \<Rightarrow> u64 \<Rightarrow> 'z slab_state_scheme \<Rightarrow> 'z slab_state_scheme" where
  "slots_pop cid sz s =
     (let it = slots (slabclass s cid);
          nxt = i_next (heap s it);
          s = upd_class cid (\<lambda>p. p\<lparr>slots := nxt\<rparr>) s;
          s = (if nxt \<noteq> NULL then upd_item nxt (\<lambda>i. i\<lparr>i_prev := NULL\<rparr>) s else s);
          s = upd_item it (\<lambda>i. i\<lparr>it_flags := clr_flag (it_flags i) ITEM_SLABBED, refcount := 1\<rparr>) s
      in upd_class cid (\<lambda>p. p\<lparr>sl_curr := sl_curr p - 1, requested := requested p + sz\<rparr>) s)"

abbreviation (input) SLABS_ALLOC_NO_NEWPAGE :: nat where "SLABS_ALLOC_NO_NEWPAGE \<equiv> 1"

text \<open>
  The result carries \<^verbatim>\<open>*total_bytes\<close>, \<^const>\<open>None\<close> when the call leaves it unwritten.
\<close>

definition do_slabs_alloc ::
  "nat \<Rightarrow> nat \<Rightarrow> nat \<Rightarrow> 'z slab_state_scheme \<Rightarrow> (addr \<times> u64 option \<times> 'z slab_state_scheme) option" where
  "do_slabs_alloc sz cid flags s =
     (if cid < POWER_SMALLEST \<or> power_largest s < cid then Some (NULL, None, s)
      else do {
        let p = slabclass s cid;
        c_assert (sl_curr p = 0 \<or> slabs_clsid (heap s (slots p)) = 0);
        let total_bytes = requested p;
        c_assert (sz \<le> sc_size p);
        (_, s) \<leftarrow> (if sl_curr p = 0 \<and> flags \<noteq> SLABS_ALLOC_NO_NEWPAGE
                   then do_slabs_newslab cid s else Some (True, s));
        let p = slabclass s cid;
        (if sl_curr p \<noteq> 0 then Some (slots p, Some total_bytes, slots_pop cid (of_nat sz) s)
         else Some (NULL, Some total_bytes, s))
      })"

definition slabs_alloc ::
  "nat \<Rightarrow> nat \<Rightarrow> nat \<Rightarrow> 'z slab_state_scheme \<Rightarrow> (addr \<times> u64 option \<times> 'z slab_state_scheme) option" where
  "slabs_alloc sz cid flags s = do_slabs_alloc sz cid flags s"

section \<open>Page reassignment requests\<close>

datatype reassign_result_type =
  REASSIGN_OK | REASSIGN_RUNNING | REASSIGN_BADCLASS | REASSIGN_NOSPARE | REASSIGN_SRC_DST_SAME

fun pick_any_loop :: "nat \<Rightarrow> int \<Rightarrow> 'z slab_state_scheme \<Rightarrow> int \<times> 'z slab_state_scheme" where
  "pick_any_loop 0 dst s = (-1, s)"
| "pick_any_loop (Suc tries) dst s =
     (let cur = pick_any_cur s + 1;
          cur = (if int (power_largest s) < cur then int POWER_SMALLEST else cur);
          s = s\<lparr>pick_any_cur := cur\<rparr>
      in if cur = dst then pick_any_loop tries dst s
         else if 1 < slabs (slabclass s (nat cur)) then (cur, s)
         else pick_any_loop tries dst s)"

definition slab_reassign_pick_any :: "int \<Rightarrow> 'z slab_state_scheme \<Rightarrow> int \<times> 'z slab_state_scheme" where
  "slab_reassign_pick_any dst s = pick_any_loop (power_largest s - POWER_SMALLEST + 1) dst s"

definition do_slabs_reassign :: "int \<Rightarrow> int \<Rightarrow> 'z slab_state_scheme \<Rightarrow> reassign_result_type \<times> 'z slab_state_scheme" where
  "do_slabs_reassign src dst s =
     (if slab_rebalance_signal s \<noteq> 0 then (REASSIGN_RUNNING, s)
      else if src = dst then (REASSIGN_SRC_DST_SAME, s)
      else let (src, s) = (if src = -1 then slab_reassign_pick_any dst s else (src, s))
           in if src < int SLAB_GLOBAL_PAGE_POOL \<or> int (power_largest s) < src \<or>
                 dst < int SLAB_GLOBAL_PAGE_POOL \<or> int (power_largest s) < dst
              then (REASSIGN_BADCLASS, s)
              else if slabs (slabclass s (nat src)) < 2 then (REASSIGN_NOSPARE, s)
              else (REASSIGN_OK,
                    s\<lparr>slab_rebal := (slab_rebal s)\<lparr>s_clsid := src, d_clsid := dst\<rparr>,
                      slab_rebalance_signal := 1\<rparr>))"

text \<open>\<open>busy\<close>: another thread holds \<^verbatim>\<open>slabs_rebalance_lock\<close>.\<close>

definition slabs_reassign :: "bool \<Rightarrow> int \<Rightarrow> int \<Rightarrow> 'z slab_state_scheme \<Rightarrow> reassign_result_type \<times> 'z slab_state_scheme" where
  "slabs_reassign busy src dst s =
     (if busy then (REASSIGN_RUNNING, s) else do_slabs_reassign src dst s)"

declare init_classes.simps [simp del]

section \<open>Free-list invariant\<close>

lemma upd_class_simps [simp]:
  "slabclass (upd_class c f s) = (slabclass s)(c := f (slabclass s c))"
  "heap (upd_class c f s) = heap s" "power_largest (upd_class c f s) = power_largest s"
  "settings (upd_class c f s) = settings s"
  by (simp_all add: upd_class_def)

lemma upd_item_slab_simps [simp]:
  "slabclass (upd_item a f s) = slabclass s" "power_largest (upd_item a f s) = power_largest s"
  by (simp_all add: upd_item_def)

definition free_ok :: "'z slab_state_scheme \<Rightarrow> nat \<Rightarrow> addr list \<Rightarrow> bool" where
  "free_ok s cid xs \<longleftrightarrow> dll (heap s) (slots (slabclass s cid)) (last_or xs NULL) xs \<and>
     sl_curr (slabclass s cid) = length xs \<and>
     (\<forall>x \<in> set xs. it_flags (heap s x) = ITEM_SLABBED \<and> slabs_clsid (heap s x) = 0)"

definition slabs_inv :: "'z slab_state_scheme \<Rightarrow> (nat \<Rightarrow> addr list) \<Rightarrow> bool" where
  "slabs_inv s F \<longleftrightarrow> power_largest s < MAX_NUMBER_OF_SLAB_CLASSES \<and>
     (\<forall>cid. 1 \<le> cid \<and> cid \<le> power_largest s \<longrightarrow> free_ok s cid (F cid)) \<and>
     (\<forall>cid. \<not> (1 \<le> cid \<and> cid \<le> power_largest s) \<longrightarrow> F cid = []) \<and>
     (\<forall>i j. i \<noteq> j \<longrightarrow> set (F i) \<inter> set (F j) = {})"

definition free_items :: "(nat \<Rightarrow> addr list) \<Rightarrow> addr set" where
  "free_items F = (\<Union>cid. set (F cid))"

lemma free_itemsI: "a \<in> set (F cid) \<Longrightarrow> a \<in> free_items F"
  by (auto simp: free_items_def)

lemma free_items_upd: "free_items (F(cid := x # F cid)) = insert x (free_items F)"
  by (auto simp: free_items_def split: if_splits)

lemma slabs_inv_free_ok: "slabs_inv s F \<Longrightarrow> 1 \<le> cid \<Longrightarrow> cid \<le> power_largest s \<Longrightarrow> free_ok s cid (F cid)"
  by (simp add: slabs_inv_def)

lemma slabs_inv_item:
  assumes "slabs_inv s F" "a \<in> set (F cid)"
  shows "1 \<le> cid \<and> cid \<le> power_largest s \<and> it_flags (heap s a) = ITEM_SLABBED \<and> slabs_clsid (heap s a) = 0 \<and> a \<noteq> NULL"
proof -
  have c: "1 \<le> cid \<and> cid \<le> power_largest s" using assms by (auto simp: slabs_inv_def)
  with assms have f: "free_ok s cid (F cid)" by (auto simp: slabs_inv_def)
  then have "a \<noteq> NULL" using assms(2) by (metis dll_nonnull free_ok_def)
  with f c assms(2) show ?thesis by (simp add: free_ok_def)
qed

lemma slabs_inv_free_item:
  "slabs_inv s F \<Longrightarrow> a \<in> free_items F \<Longrightarrow> it_flags (heap s a) = ITEM_SLABBED \<and> slabs_clsid (heap s a) = 0 \<and> a \<noteq> NULL"
  using slabs_inv_item by (fastforce simp: free_items_def)

lemma slots_head:
  assumes "free_ok s cid xs"
  shows "slots (slabclass s cid) = first_or xs NULL" "slots (slabclass s cid) \<noteq> NULL \<Longrightarrow> slots (slabclass s cid) \<in> set xs"
  using assms by (auto simp: free_ok_def dll_def intro: first_or_eqD)

lemma free_ok_cong:
  assumes "slabclass s' cid = slabclass s cid"
    and "\<And>x. x \<in> set xs \<Longrightarrow> i_prev (heap s' x) = i_prev (heap s x) \<and> i_next (heap s' x) = i_next (heap s x) \<and>
       it_flags (heap s' x) = it_flags (heap s x) \<and> slabs_clsid (heap s' x) = slabs_clsid (heap s x)"
  shows "free_ok s' cid xs = free_ok s cid xs"
proof -
  have "dll (heap s') hp tp xs = dll (heap s) hp tp xs" for hp tp by (rule dll_cong) (use assms(2) in auto)
  then show ?thesis using assms by (auto simp: free_ok_def)
qed

lemma slabs_inv_cong:
  assumes inv: "slabs_inv s F" and "slabclass s' = slabclass s" "power_largest s' = power_largest s"
    and "\<And>x. x \<in> free_items F \<Longrightarrow> i_prev (heap s' x) = i_prev (heap s x) \<and> i_next (heap s' x) = i_next (heap s x) \<and>
       it_flags (heap s' x) = it_flags (heap s x) \<and> slabs_clsid (heap s' x) = slabs_clsid (heap s x)"
  shows "slabs_inv s' F"
proof -
  have "free_ok s' cid (F cid) = free_ok s cid (F cid)" for cid
    by (rule free_ok_cong) (use assms free_itemsI in auto)
  then show ?thesis using inv assms(3) by (simp add: slabs_inv_def)
qed

lemma slabs_inv_upd:
  assumes inv: "slabs_inv s F" and cid: "1 \<le> cid" "cid \<le> power_largest s"
    and pl: "power_largest s' = power_largest s"
    and cl: "\<And>c. c \<noteq> cid \<Longrightarrow> slabclass s' c = slabclass s c"
    and fr: "\<And>x c. c \<noteq> cid \<Longrightarrow> x \<in> set (F c) \<Longrightarrow> heap s' x = heap s x"
    and new: "free_ok s' cid xs" and dj: "\<And>c. c \<noteq> cid \<Longrightarrow> set (F c) \<inter> set xs = {}"
  shows "slabs_inv s' (F(cid := xs))"
proof -
  have "free_ok s' c (F c) = free_ok s c (F c)" if "c \<noteq> cid" for c
    by (rule free_ok_cong) (use cl fr that in auto)
  then show ?thesis using inv cid pl new dj unfolding slabs_inv_def by (auto simp: Int_commute)
qed

lemma heap_slots_push:
  assumes "it \<noteq> slots (slabclass s cid)"
  shows "heap (slots_push cid it s) a =
    (if a = it then (heap s it)\<lparr>i_prev := NULL, i_next := slots (slabclass s cid)\<rparr>
     else if a = slots (slabclass s cid) \<and> a \<noteq> NULL then (heap s a)\<lparr>i_prev := it\<rparr> else heap s a)"
  using assms by (simp add: slots_push_def Let_def)

lemma class_slots_push:
  "slabclass (slots_push cid it s) = (slabclass s)(cid := (slabclass s cid)\<lparr>slots := it, sl_curr := sl_curr (slabclass s cid) + 1\<rparr>)"
  "power_largest (slots_push cid it s) = power_largest s"
  by (simp_all add: slots_push_def Let_def)

lemma slots_push_free_ok:
  assumes ok: "free_ok s cid xs" and it: "it \<notin> set xs" "it \<noteq> NULL"
    and fl: "it_flags (heap s it) = ITEM_SLABBED" "slabs_clsid (heap s it) = 0"
  shows "free_ok (slots_push cid it s) cid (it # xs)"
proof -
  let ?s' = "slots_push cid it s" and ?hp = "slots (slabclass s cid)"
  have ne: "it \<noteq> ?hp" using it slots_head [OF ok] by metis
  note h = heap_slots_push [OF ne]
  have d: "dll (heap s) ?hp (last_or xs NULL) xs" using ok by (simp add: free_ok_def)
  have nn: "NULL \<notin> set xs" using d by (rule dll_nonnull)
  have "dll (heap ?s') it (if last_or xs NULL = NULL then it else last_or xs NULL) (it # xs)"
    by (rule dll_link_head [OF d it]) (use it nn in \<open>auto simp: h\<close>)
  moreover have "(if last_or xs NULL = NULL then it else last_or xs NULL) = last_or (it # xs) NULL"
    using dll_tail_NULL [OF d] by (auto simp: last_or_def)
  ultimately show ?thesis using ok it fl nn
    by (auto simp: free_ok_def class_slots_push h)
qed

lemma slots_push_inv:
  assumes inv: "slabs_inv s F" and cid: "1 \<le> cid" "cid \<le> power_largest s"
    and it: "it \<notin> free_items F" "it \<noteq> NULL"
    and fl: "it_flags (heap s it) = ITEM_SLABBED" "slabs_clsid (heap s it) = 0"
  shows "slabs_inv (slots_push cid it s) (F(cid := it # F cid))"
proof (rule slabs_inv_upd [OF inv cid])
  note ok = slabs_inv_free_ok [OF inv cid]
  have nin: "it \<notin> set (F c)" for c using it(1) free_itemsI by metis
  have ne: "it \<noteq> slots (slabclass s cid)" using nin it(2) slots_head [OF ok] by metis
  show "free_ok (slots_push cid it s) cid (it # F cid)" by (rule slots_push_free_ok [OF ok nin it(2) fl])
  show "heap (slots_push cid it s) x = heap s x" if "c \<noteq> cid" "x \<in> set (F c)" for x c
  proof -
    have "x \<noteq> it" using nin that by metis
    moreover have "x \<noteq> slots (slabclass s cid)" if "slots (slabclass s cid) \<noteq> NULL"
      using slots_head(2) [OF ok that] inv \<open>c \<noteq> cid\<close> \<open>x \<in> set (F c)\<close> unfolding slabs_inv_def by blast
    ultimately show ?thesis by (auto simp: heap_slots_push [OF ne])
  qed
  show "set (F c) \<inter> set (it # F cid) = {}" if "c \<noteq> cid" for c
    using inv that nin unfolding slabs_inv_def by auto
qed (simp_all add: class_slots_push)

lemma sub_requested_inv: "slabs_inv s F \<Longrightarrow> slabs_inv (sub_requested cid n s) F"
proof -
  assume inv: "slabs_inv s F"
  have "free_ok (sub_requested cid n s) c xs = free_ok s c xs" for c xs
    by (simp add: free_ok_def sub_requested_def)
  then show ?thesis using inv by (simp add: slabs_inv_def sub_requested_def)
qed

text \<open>What the allocator's operations leave alone, apart from the heap.\<close>

definition slab_frame :: "'z slab_state_scheme \<Rightarrow> 'z slab_state_scheme \<Rightarrow> bool" where
  "slab_frame s s' \<longleftrightarrow> settings s' = settings s \<and> current_time s' = current_time s \<and> hash s' = hash s \<and>
     item_locks s' = item_locks s \<and> item_lock_hashpower s' = item_lock_hashpower s \<and>
     hashpower s' = hashpower s \<and> primary_hashtable s' = primary_hashtable s \<and>
     old_hashtable s' = old_hashtable s \<and> expanding s' = expanding s \<and>
     started_expanding s' = started_expanding s \<and> expand_bucket s' = expand_bucket s \<and>
     hash_bulk_move s' = hash_bulk_move s \<and> power_largest s' = power_largest s \<and>
     slab_state.more s' = slab_state.more s"

lemma slab_frame_refl [simp]: "slab_frame s s" by (simp add: slab_frame_def)

lemma slab_frame_trans: "slab_frame s t \<Longrightarrow> slab_frame t u \<Longrightarrow> slab_frame s u"
  by (simp add: slab_frame_def)

lemma slab_frame_upd [simp]: "slab_frame s (upd_class c f s)" "slab_frame s (upd_item a g s)"
  "slab_frame s (sub_requested c n s)" "slab_frame s (slots_push c a s)"
  by (simp_all add: slab_frame_def upd_class_def upd_item_def sub_requested_def slots_push_def Let_def)

lemma do_slabs_free_correct:
  assumes inv: "slabs_inv s F" and cid: "1 \<le> cid" "cid \<le> power_largest s"
    and it: "it \<notin> free_items F" "it \<noteq> NULL" "\<not> has_flag (it_flags (heap s it)) ITEM_CHUNKED"
  shows "\<exists>s'. do_slabs_free it sz cid s = Some s' \<and> slabs_inv s' (F(cid := it # F cid)) \<and> slab_frame s s' \<and>
    (\<forall>a. a \<notin> insert it (free_items F) \<longrightarrow> heap s' a = heap s a) \<and>
    heap s' it = (heap s it)\<lparr>it_flags := ITEM_SLABBED, slabs_clsid := 0, i_prev := NULL,
       i_next := slots (slabclass s cid)\<rparr> \<and>
    (\<forall>c. c \<noteq> cid \<longrightarrow> slabclass s' c = slabclass s c) \<and>
    slabclass s' cid = (slabclass s cid)\<lparr>slots := it, sl_curr := sl_curr (slabclass s cid) + 1,
       requested := requested (slabclass s cid) - sz\<rparr>"
proof -
  let ?t = "upd_item it (\<lambda>i. i\<lparr>it_flags := ITEM_SLABBED, slabs_clsid := 0\<rparr>) s"
  have nin: "it \<notin> set (F c)" for c using it(1) free_itemsI by metis
  have inv': "slabs_inv ?t F" by (rule slabs_inv_cong [OF inv]) (use it(1) in auto)
  have cid': "cid \<le> power_largest ?t" using cid by simp
  note p = slots_push_inv [OF inv' cid(1) cid' it(1,2)]
  have ok: "free_ok s cid (F cid)" by (rule slabs_inv_free_ok [OF inv cid])
  have ne: "it \<noteq> slots (slabclass ?t cid)" using nin it(2) slots_head [OF ok] by (metis upd_item_slab_simps(1))
  have hd: "slots (slabclass s cid) \<noteq> NULL \<Longrightarrow> slots (slabclass s cid) \<in> free_items F"
    using slots_head(2) [OF ok] free_itemsI by metis
  show ?thesis
  proof (rule exI [of _ "sub_requested cid sz (slots_push cid it ?t)"], intro conjI)
    show "do_slabs_free it sz cid s = Some (sub_requested cid sz (slots_push cid it ?t))"
      using cid it(3) by (simp add: do_slabs_free_def Let_def)
    show "slabs_inv (sub_requested cid sz (slots_push cid it ?t)) (F(cid := it # F cid))"
      by (rule sub_requested_inv, rule p) simp_all
    show "slab_frame s (sub_requested cid sz (slots_push cid it ?t))"
      by (meson slab_frame_trans slab_frame_upd)
    show "\<forall>a. a \<notin> insert it (free_items F) \<longrightarrow> heap (sub_requested cid sz (slots_push cid it ?t)) a = heap s a"
      using hd by (auto simp: sub_requested_def heap_slots_push [OF ne])
  qed (auto simp: sub_requested_def heap_slots_push [OF ne] class_slots_push)
qed

section \<open>Allocation from a free list\<close>

lemma slots_pop_frame [simp]: "slab_frame s (slots_pop cid sz s)"
  by (simp add: slab_frame_def upd_class_def upd_item_def slots_pop_def Let_def)

lemma slots_pop_correct:
  assumes inv: "slabs_inv s F" and cid: "1 \<le> cid" "cid \<le> power_largest s" and F: "F cid = x # xs"
  shows "slots (slabclass s cid) = x" "slabs_inv (slots_pop cid sz s) (F(cid := xs))"
    "heap (slots_pop cid sz s) x = (heap s x)\<lparr>it_flags := 0, refcount := 1\<rparr>"
    "\<And>a. a \<notin> free_items F \<Longrightarrow> heap (slots_pop cid sz s) a = heap s a"
    "slabclass (slots_pop cid sz s) cid = (slabclass s cid)\<lparr>slots := first_or xs NULL,
       sl_curr := sl_curr (slabclass s cid) - 1, requested := requested (slabclass s cid) + sz\<rparr>"
    "\<And>c. c \<noteq> cid \<Longrightarrow> slabclass (slots_pop cid sz s) c = slabclass s c"
proof -
  let ?s' = "slots_pop cid sz s"
  have ok: "free_ok s cid (x # xs)" using slabs_inv_free_ok [OF inv cid] F by simp
  then have d: "dll (heap s) (slots (slabclass s cid)) (last_or (x # xs) NULL) ([] @ x # xs)" by (simp add: free_ok_def)
  show x: "slots (slabclass s cid) = x" using slots_head [OF ok] by simp
  note l = dll_split_links [OF d]
  have xn: "i_next (heap s x) = first_or xs NULL" and xx: "x \<notin> set xs" "x \<noteq> NULL" using l by simp_all
  have nn: "NULL \<notin> set xs" using dll_nonnull [OF d] by simp
  have nx: "first_or xs NULL \<noteq> x" using xx nn by (cases xs) auto
  have cf: "clr_flag ITEM_SLABBED ITEM_SLABBED = 0" by (simp add: clr_flag_def)
  have h: "heap ?s' a = (if a = x then (heap s x)\<lparr>it_flags := 0, refcount := 1\<rparr>
      else if a = first_or xs NULL \<and> a \<noteq> NULL then (heap s a)\<lparr>i_prev := NULL\<rparr> else heap s a)" for a
    using nx ok xx by (auto simp: slots_pop_def Let_def x xn cf free_ok_def)
  show "heap ?s' x = (heap s x)\<lparr>it_flags := 0, refcount := 1\<rparr>" by (simp add: h)
  have fx: "first_or xs NULL \<noteq> NULL \<Longrightarrow> first_or xs NULL \<in> set xs" by (cases xs) auto
  have sub: "set (x # xs) \<subseteq> free_items F" using F free_itemsI [of _ F cid] by auto
  show "heap ?s' a = heap s a" if "a \<notin> free_items F" for a using that sub fx by (auto simp: h)
  show cl: "slabclass ?s' cid = (slabclass s cid)\<lparr>slots := first_or xs NULL,
       sl_curr := sl_curr (slabclass s cid) - 1, requested := requested (slabclass s cid) + sz\<rparr>"
    by (simp add: slots_pop_def Let_def x xn)
  show cl': "slabclass ?s' c = slabclass s c" if "c \<noteq> cid" for c using that by (simp add: slots_pop_def Let_def)
  have hx: "heap ?s' y = (if y = first_or xs NULL then (heap s y)\<lparr>i_prev := NULL\<rparr> else heap s y)" if "y \<in> set xs" for y
    using that xx nn by (metis h)
  have dd: "dll (heap ?s') (if slots (slabclass s cid) = x then i_next (heap s x) else slots (slabclass s cid))
      (if last_or (x # xs) NULL = x then i_prev (heap s x) else last_or (x # xs) NULL) ([] @ xs)"
    by (rule dll_unlink [OF d]) (use l nn in \<open>auto simp: hx\<close>)
  have "last_or xs x = x \<longleftrightarrow> xs = []" using xx last_or_in [of xs x] by (cases "xs = []") auto
  then have "(if last_or (x # xs) NULL = x then i_prev (heap s x) else last_or (x # xs) NULL) = last_or xs NULL"
    using l(1) by (simp add: last_or_def)
  with dd have "dll (heap ?s') (first_or xs NULL) (last_or xs NULL) xs" by (simp add: x xn)
  then have okn: "free_ok ?s' cid xs" using ok hx by (auto simp: free_ok_def cl)
  show "slabs_inv ?s' (F(cid := xs))"
  proof (rule slabs_inv_upd [OF inv cid _ cl' _ okn])
    show "heap ?s' y = heap s y" if "c \<noteq> cid" "y \<in> set (F c)" for y c
    proof -
      have "y \<notin> set (x # xs)" using inv that F unfolding slabs_inv_def by (metis disjoint_iff)
      then show ?thesis using fx by (auto simp: h)
    qed
    show "set (F c) \<inter> set xs = {}" if "c \<noteq> cid" for c
      using inv that F unfolding slabs_inv_def by (metis disjoint_iff list.set_intros(2))
  qed (simp add: slots_pop_def Let_def)
qed

section \<open>Page cutting\<close>

definition chunk_addrs :: "addr \<Rightarrow> nat \<Rightarrow> nat \<Rightarrow> addr list" where
  "chunk_addrs ptr sz n = map (\<lambda>x. ptr + x * sz) [0..<n]"

lemma chunk_addrs_Suc: "chunk_addrs ptr sz (Suc n) = ptr # chunk_addrs (ptr + sz) sz n"
  by (simp add: chunk_addrs_def upt_conv_Cons map_Suc_upt [symmetric] comp_def add.assoc del: upt_Suc)

lemma chunk_addrs_distinct: "0 < sz \<Longrightarrow> distinct (chunk_addrs ptr sz n)"
  by (auto simp: chunk_addrs_def distinct_map inj_on_def)

lemma split_loop_correct:
  "slabs_inv s F \<Longrightarrow> 1 \<le> cid \<Longrightarrow> cid \<le> power_largest s \<Longrightarrow> sc_size (slabclass s cid) = sz \<Longrightarrow> 0 < sz \<Longrightarrow>
   (\<And>a. a \<in> set (chunk_addrs ptr sz n) \<Longrightarrow> a \<noteq> NULL \<and> a \<notin> free_items F \<and> \<not> has_flag (it_flags (heap s a)) ITEM_CHUNKED) \<Longrightarrow>
   \<exists>s'. split_loop n ptr cid s = Some s' \<and> slabs_inv s' (F(cid := rev (chunk_addrs ptr sz n) @ F cid)) \<and>
     slab_frame s s' \<and> (\<forall>a. a \<notin> set (chunk_addrs ptr sz n) \<union> free_items F \<longrightarrow> heap s' a = heap s a) \<and>
     (\<forall>c. c \<noteq> cid \<longrightarrow> slabclass s' c = slabclass s c) \<and>
     requested (slabclass s' cid) = requested (slabclass s cid) \<and>
     sc_size (slabclass s' cid) = sc_size (slabclass s cid) \<and> perslab (slabclass s' cid) = perslab (slabclass s cid) \<and>
     slabs (slabclass s' cid) = slabs (slabclass s cid) \<and> slab_list (slabclass s' cid) = slab_list (slabclass s cid) \<and>
     list_size (slabclass s' cid) = list_size (slabclass s cid) \<and> mem_malloced s' = mem_malloced s"
proof (induction n arbitrary: ptr s F)
  case 0
  then show ?case by (simp add: chunk_addrs_def)
next
  case (Suc n)
  let ?F = "F(cid := ptr # F cid)"
  have p: "ptr \<notin> free_items F" "ptr \<noteq> NULL" "\<not> has_flag (it_flags (heap s ptr)) ITEM_CHUNKED"
    using Suc.prems(6) [of ptr] by (auto simp: chunk_addrs_Suc)
  obtain t where t: "do_slabs_free ptr 0 cid s = Some t" "slabs_inv t ?F" "slab_frame s t"
    "\<forall>a. a \<notin> insert ptr (free_items F) \<longrightarrow> heap t a = heap s a"
    "\<forall>c. c \<noteq> cid \<longrightarrow> slabclass t c = slabclass s c"
    "slabclass t cid = (slabclass s cid)\<lparr>slots := ptr, sl_curr := sl_curr (slabclass s cid) + 1,
       requested := requested (slabclass s cid) - 0\<rparr>"
    using do_slabs_free_correct [OF Suc.prems(1-3) p, of 0] by metis
  have pl: "power_largest t = power_largest s" using t(3) by (simp add: slab_frame_def)
  have dist: "distinct (chunk_addrs ptr sz (Suc n))" by (rule chunk_addrs_distinct [OF Suc.prems(5)])
  have mm: "mem_malloced t = mem_malloced s"
    using t(1) Suc.prems(2,3) p(3)
    by (auto simp: do_slabs_free_def Let_def sub_requested_def upd_class_def slots_push_def upd_item_def)
  have "\<exists>s'. split_loop n (ptr + sz) cid t = Some s' \<and> slabs_inv s' (?F(cid := rev (chunk_addrs (ptr + sz) sz n) @ ?F cid)) \<and>
     slab_frame t s' \<and> (\<forall>a. a \<notin> set (chunk_addrs (ptr + sz) sz n) \<union> free_items ?F \<longrightarrow> heap s' a = heap t a) \<and>
     (\<forall>c. c \<noteq> cid \<longrightarrow> slabclass s' c = slabclass t c) \<and>
     requested (slabclass s' cid) = requested (slabclass t cid) \<and>
     sc_size (slabclass s' cid) = sc_size (slabclass t cid) \<and> perslab (slabclass s' cid) = perslab (slabclass t cid) \<and>
     slabs (slabclass s' cid) = slabs (slabclass t cid) \<and> slab_list (slabclass s' cid) = slab_list (slabclass t cid) \<and>
     list_size (slabclass s' cid) = list_size (slabclass t cid) \<and> mem_malloced s' = mem_malloced t"
  proof (rule Suc.IH [OF t(2) Suc.prems(2)])
    show "cid \<le> power_largest t" using Suc.prems(3) pl by simp
    show "sc_size (slabclass t cid) = sz" using Suc.prems(4) t(6) by simp
    show "a \<noteq> NULL \<and> a \<notin> free_items ?F \<and> \<not> has_flag (it_flags (heap t a)) ITEM_CHUNKED"
      if a: "a \<in> set (chunk_addrs (ptr + sz) sz n)" for a
    proof -
      have ne: "a \<noteq> ptr" using dist a by (auto simp: chunk_addrs_Suc)
      have "a \<noteq> NULL \<and> a \<notin> free_items F \<and> \<not> has_flag (it_flags (heap s a)) ITEM_CHUNKED"
        by (rule Suc.prems(6)) (simp add: chunk_addrs_Suc a)
      with ne t(4) show ?thesis by (simp add: free_items_upd)
    qed
  qed (rule Suc.prems(5))
  then obtain s' where s': "split_loop n (ptr + sz) cid t = Some s'"
     "slabs_inv s' (?F(cid := rev (chunk_addrs (ptr + sz) sz n) @ ?F cid))" "slab_frame t s'"
     "\<forall>a. a \<notin> set (chunk_addrs (ptr + sz) sz n) \<union> free_items ?F \<longrightarrow> heap s' a = heap t a"
     "\<forall>c. c \<noteq> cid \<longrightarrow> slabclass s' c = slabclass t c"
     "requested (slabclass s' cid) = requested (slabclass t cid)"
     "sc_size (slabclass s' cid) = sc_size (slabclass t cid)" "perslab (slabclass s' cid) = perslab (slabclass t cid)"
     "slabs (slabclass s' cid) = slabs (slabclass t cid)" "slab_list (slabclass s' cid) = slab_list (slabclass t cid)"
     "list_size (slabclass s' cid) = list_size (slabclass t cid)" "mem_malloced s' = mem_malloced t" by blast
  have st: "split_loop (Suc n) ptr cid s = Some s'" using t(1,6) s'(1) Suc.prems(4) by simp
  have inv': "slabs_inv s' (F(cid := rev (chunk_addrs ptr sz (Suc n)) @ F cid))"
    using s'(2) by (simp add: chunk_addrs_Suc)
  have hp: "\<forall>a. a \<notin> set (chunk_addrs ptr sz (Suc n)) \<union> free_items F \<longrightarrow> heap s' a = heap s a"
    using s'(4) t(4) by (simp add: chunk_addrs_Suc free_items_upd)
  have cl: "\<forall>c. c \<noteq> cid \<longrightarrow> slabclass s' c = slabclass s c" using s'(5) t(5) by simp
  show ?case
    by (rule exI [of _ s'], intro conjI, rule st, rule inv', rule slab_frame_trans [OF t(3) s'(3)], rule hp, rule cl)
      (simp_all add: s'(6-12) t(6) mm)
qed

section \<open>New pages\<close>

text \<open>States that differ in page bookkeeping only: heap, chunk sizes, free lists and byte counts agree.\<close>

definition same_free :: "'z slab_state_scheme \<Rightarrow> 'z slab_state_scheme \<Rightarrow> bool" where
  "same_free s s' \<longleftrightarrow> heap s' = heap s \<and> slab_frame s s' \<and>
     (\<forall>c. slots (slabclass s' c) = slots (slabclass s c) \<and> sl_curr (slabclass s' c) = sl_curr (slabclass s c) \<and>
        sc_size (slabclass s' c) = sc_size (slabclass s c) \<and> perslab (slabclass s' c) = perslab (slabclass s c) \<and>
        requested (slabclass s' c) = requested (slabclass s c))"

lemma same_free_refl [simp]: "same_free s s" by (simp add: same_free_def)

lemma same_free_trans: "same_free s t \<Longrightarrow> same_free t u \<Longrightarrow> same_free s u"
  unfolding same_free_def using slab_frame_trans by fastforce

lemma slabs_inv_same_free: "same_free s s' \<Longrightarrow> slabs_inv s F \<Longrightarrow> slabs_inv s' F"
proof -
  assume sf: "same_free s s'" and inv: "slabs_inv s F"
  have "free_ok s' c xs = free_ok s c xs" for c xs using sf by (simp add: free_ok_def same_free_def)
  moreover have "power_largest s' = power_largest s" using sf by (simp add: same_free_def slab_frame_def)
  ultimately show ?thesis using inv by (simp add: slabs_inv_def)
qed

lemma grow_slab_list_facts:
  assumes "grow_slab_list cid s = (ok, s')"
  shows "same_free s s'" "\<And>c. slabs (slabclass s' c) = slabs (slabclass s c)"
    "\<And>c. c \<noteq> cid \<Longrightarrow> slabclass s' c = slabclass s c" "mem_malloced s' = mem_malloced s"
    "mem_limit s' = mem_limit s" "mem_base s' = mem_base s" "mem_current s' = mem_current s"
    "mem_avail s' = mem_avail s" "malloc_results s' = malloc_results s"
    "ok \<Longrightarrow> length (slab_list (slabclass s cid)) = list_size (slabclass s cid) \<Longrightarrow>
     slabs (slabclass s cid) \<le> list_size (slabclass s cid) \<Longrightarrow>
     length (slab_list (slabclass s' cid)) = list_size (slabclass s' cid) \<and>
     slabs (slabclass s' cid) < list_size (slabclass s' cid)"
  using assms
  by (auto simp: grow_slab_list_def c_realloc_ok_def same_free_def slab_frame_def upd_class_def Let_def
      split: if_splits list.splits)

lemma get_page_facts:
  assumes "get_page_from_global_pool s = (p, s')"
  shows "same_free s s'" "mem_malloced s' = mem_malloced s" "\<And>c. c \<noteq> 0 \<Longrightarrow> slabclass s' c = slabclass s c"
    "slabs (slabclass s 0) = 0 \<Longrightarrow> p = NULL \<and> s' = s"
    "0 < slabs (slabclass s 0) \<Longrightarrow> p = slab_list (slabclass s 0) ! (slabs (slabclass s 0) - 1) \<and>
       slabs (slabclass s' 0) = slabs (slabclass s 0) - 1"
  using assms by (auto simp: get_page_from_global_pool_def same_free_def slab_frame_def upd_class_def Let_def
      split: if_splits)

lemma memory_allocate_facts:
  assumes "memory_allocate len s = (p, s')"
  shows "same_free s s'" "slabclass s' = slabclass s"
    "mem_base s = NULL \<Longrightarrow> mem_malloced s' = mem_malloced s + of_nat len"
  using assms by (auto simp: memory_allocate_def c_malloc_def same_free_def slab_frame_def Let_def
      split: if_splits list.splits prod.splits)

definition next_page :: "nat \<Rightarrow> 'z slab_state_scheme \<Rightarrow> addr" where
  "next_page len s = (let (p, s) = get_page_from_global_pool s
     in if p = NULL then fst (memory_allocate len s) else p)"

lemma next_page_cong:
  assumes "slabclass s' 0 = slabclass s 0" "mem_base s' = mem_base s" "mem_current s' = mem_current s"
    "mem_avail s' = mem_avail s" "malloc_results s' = malloc_results s"
  shows "next_page len s' = next_page len s"
  using assms by (simp add: next_page_def get_page_from_global_pool_def memory_allocate_def c_malloc_def
      upd_class_def Let_def split: list.split)

definition page_fresh :: "addr \<Rightarrow> nat \<Rightarrow> (nat \<Rightarrow> addr list) \<Rightarrow> bool" where
  "page_fresh p len F \<longleftrightarrow> (\<forall>a. p \<le> a \<and> a < p + len \<longrightarrow> a \<notin> free_items F)"

lemma chunk_addrs_range:
  assumes "a \<in> set (chunk_addrs p sz n)" "n * sz \<le> len" "0 < sz"
  shows "p \<le> a \<and> a < p + len"
proof -
  from assms(1) have "\<exists>x < n. a = p + x * sz" by (auto simp: chunk_addrs_def)
  then obtain x where x: "a = p + x * sz" "x < n" by blast
  then have "Suc x * sz \<le> n * sz" by (intro mult_le_mono1) simp
  with x assms show ?thesis by simp
qed

text \<open>The last steps of \<open>do_slabs_newslab\<close>: clear the page, cut it up, record it.\<close>

definition add_page :: "nat \<Rightarrow> nat \<Rightarrow> addr \<Rightarrow> 'z slab_state_scheme \<Rightarrow> (bool \<times> 'z slab_state_scheme) option" where
  "add_page cid len ptr s = do {
     let s = zero_page ptr len s;
     s \<leftarrow> split_slab_page_into_freelist ptr cid s;
     Some (True, upd_class cid (\<lambda>p. p\<lparr>slab_list := (slab_list p)[slabs p := ptr], slabs := slabs p + 1\<rparr>) s)
   }"

lemma add_page_correct:
  assumes inv: "slabs_inv s F" and cid: "1 \<le> cid" "cid \<le> power_largest s"
    and sz: "0 < sc_size (slabclass s cid)" "perslab (slabclass s cid) * sc_size (slabclass s cid) \<le> len"
    and fresh: "page_fresh p len F" and p: "p \<noteq> NULL"
  shows "\<exists>s'. add_page cid len p s = Some (True, s') \<and>
    slabs_inv s' (F(cid := rev (chunk_addrs p (sc_size (slabclass s cid)) (perslab (slabclass s cid))) @ F cid)) \<and>
    slab_frame s s' \<and> (\<forall>a. \<not> (p \<le> a \<and> a < p + len) \<and> a \<notin> free_items F \<longrightarrow> heap s' a = heap s a) \<and>
    slabs (slabclass s' cid) = slabs (slabclass s cid) + 1 \<and> mem_malloced s' = mem_malloced s \<and>
    requested (slabclass s' cid) = requested (slabclass s cid) \<and> sc_size (slabclass s' cid) = sc_size (slabclass s cid) \<and>
    (\<forall>c. c \<noteq> cid \<longrightarrow> slabclass s' c = slabclass s c)"
proof -
  let ?z = "zero_page p len s" and ?sz = "sc_size (slabclass s cid)" and ?n = "perslab (slabclass s cid)"
  have z: "slabclass ?z = slabclass s" "power_largest ?z = power_largest s" "mem_malloced ?z = mem_malloced s"
    "slab_frame s ?z" by (simp_all add: zero_page_def slab_frame_def)
  have inv': "slabs_inv ?z F"
    by (rule slabs_inv_cong [OF inv z(1,2)]) (use fresh in \<open>auto simp: zero_page_def page_fresh_def\<close>)
  have chunks: "a \<noteq> NULL \<and> a \<notin> free_items F \<and> \<not> has_flag (it_flags (heap ?z a)) ITEM_CHUNKED"
    if "a \<in> set (chunk_addrs p ?sz ?n)" for a
    using chunk_addrs_range [OF that sz(2,1)] fresh p by (auto simp: page_fresh_def zero_page_def zero_item_def)
  obtain t where t: "split_loop ?n p cid ?z = Some t"
     "slabs_inv t (F(cid := rev (chunk_addrs p ?sz ?n) @ F cid))" "slab_frame ?z t"
     "\<forall>a. a \<notin> set (chunk_addrs p ?sz ?n) \<union> free_items F \<longrightarrow> heap t a = heap ?z a"
     "\<forall>c. c \<noteq> cid \<longrightarrow> slabclass t c = slabclass s c"
     "requested (slabclass t cid) = requested (slabclass s cid)"
     "sc_size (slabclass t cid) = sc_size (slabclass s cid)"
     "slabs (slabclass t cid) = slabs (slabclass s cid)" "mem_malloced t = mem_malloced s"
    using split_loop_correct [OF inv' cid(1) _ _ sz(1), of p ?n] chunks cid(2) unfolding z by blast
  define s' where "s' = upd_class cid (\<lambda>q. q\<lparr>slab_list := (slab_list q)[slabs q := p], slabs := slabs q + 1\<rparr>) t"
  have "add_page cid len p s = Some (True, s')"
    using t(1) z(1) by (simp add: add_page_def split_slab_page_into_freelist_def s'_def)
  moreover have "slabs_inv s' (F(cid := rev (chunk_addrs p ?sz ?n) @ F cid))"
    by (rule slabs_inv_same_free [OF _ t(2)]) (simp add: same_free_def s'_def)
  moreover have "slab_frame s s'"
    unfolding s'_def by (meson slab_frame_trans slab_frame_upd z(4) t(3))
  moreover have "\<forall>a. \<not> (p \<le> a \<and> a < p + len) \<and> a \<notin> free_items F \<longrightarrow> heap s' a = heap s a"
  proof (intro allI impI)
    fix a assume a: "\<not> (p \<le> a \<and> a < p + len) \<and> a \<notin> free_items F"
    then have "a \<notin> set (chunk_addrs p ?sz ?n)" using chunk_addrs_range [OF _ sz(2,1)] by blast
    with t(4) a have "heap t a = heap ?z a" by blast
    also have "\<dots> = heap s a" using a unfolding zero_page_def by auto
    finally show "heap s' a = heap s a" by (simp add: s'_def)
  qed
  ultimately show ?thesis using t(5-9) z by (intro exI [of _ s']) (simp add: s'_def upd_class_def)
qed

definition limit_hit :: "nat \<Rightarrow> 'z slab_state_scheme \<Rightarrow> bool" where
  "limit_hit cid s \<longleftrightarrow> mem_limit s \<noteq> 0 \<and> mem_limit s < mem_malloced s + of_nat (page_len cid s) \<and>
     0 < slabs (slabclass s cid) \<and> slabs (slabclass s SLAB_GLOBAL_PAGE_POOL) = 0"

lemma newslab_unfold:
  "do_slabs_newslab cid s =
     (if limit_hit cid s then Some (False, s\<lparr>mem_limit_reached := True\<rparr>)
      else let (ok, t) = grow_slab_list cid s
           in if \<not> ok then Some (False, t)
              else let (p, u) = get_page_from_global_pool t;
                       (p, v) = (if p = NULL then memory_allocate (page_len cid s) u else (p, u))
                   in if p = NULL then Some (False, v) else add_page cid (page_len cid s) p v)"
  by (simp add: do_slabs_newslab_def limit_hit_def add_page_def Let_def split: prod.split)

lemma newslab_page_source:
  assumes g: "grow_slab_list cid s = (True, t)" and cid: "1 \<le> cid" and p: "get_page_from_global_pool t = (p, u)"
    and m: "(if p = NULL then memory_allocate len u else (p, u)) = (q, v)"
  shows "q = next_page len s" "same_free s v" "slabs (slabclass v cid) = slabs (slabclass s cid)"
proof -
  note gf = grow_slab_list_facts [OF g] and pf = get_page_facts [OF p]
  have "next_page len t = next_page len s"
    by (rule next_page_cong) (use gf cid in auto)
  moreover have "next_page len t = q" using p m by (auto simp: next_page_def split: if_splits)
  ultimately show "q = next_page len s" by simp
  have uv: "same_free u v \<and> slabclass v = slabclass u"
    using m memory_allocate_facts [of len u] by (auto split: if_splits)
  show "same_free s v" using gf(1) pf(1) uv same_free_trans by blast
  show "slabs (slabclass v cid) = slabs (slabclass s cid)" using gf(2) pf(3) [of cid] uv cid by simp
qed

lemma newslab_correct:
  assumes inv: "slabs_inv s F" and cid: "1 \<le> cid" "cid \<le> power_largest s"
    and sz: "0 < sc_size (slabclass s cid)" "perslab (slabclass s cid) * sc_size (slabclass s cid) \<le> page_len cid s"
    and fresh: "page_fresh (next_page (page_len cid s) s) (page_len cid s) F"
  shows "\<exists>ok s'. do_slabs_newslab cid s = Some (ok, s') \<and> slab_frame s s' \<and>
    requested (slabclass s' cid) = requested (slabclass s cid) \<and> sc_size (slabclass s' cid) = sc_size (slabclass s cid) \<and>
    (\<forall>a. a \<notin> free_items F \<and> (ok \<longrightarrow> \<not> (next_page (page_len cid s) s \<le> a \<and>
       a < next_page (page_len cid s) s + page_len cid s)) \<longrightarrow> heap s' a = heap s a) \<and>
    (if ok then slabs_inv s' (F(cid := rev (chunk_addrs (next_page (page_len cid s) s) (sc_size (slabclass s cid))
        (perslab (slabclass s cid))) @ F cid)) \<and> slabs (slabclass s' cid) = slabs (slabclass s cid) + 1 \<and>
        next_page (page_len cid s) s \<noteq> NULL
     else slabs_inv s' F \<and> heap s' = heap s)"
proof (cases "limit_hit cid s")
  case True
  have "same_free s (s\<lparr>mem_limit_reached := True\<rparr>)" by (simp add: same_free_def slab_frame_def)
  with slabs_inv_same_free [OF this inv] True show ?thesis
    by (intro exI [of _ False]) (simp add: newslab_unfold same_free_def)
next
  case False
  obtain ok t where g: "grow_slab_list cid s = (ok, t)" by fastforce
  obtain p u where p: "get_page_from_global_pool t = (p, u)" by fastforce
  obtain q v where m: "(if p = NULL then memory_allocate (page_len cid s) u else (p, u)) = (q, v)" by fastforce
  have st: "do_slabs_newslab cid s = (if \<not> ok then Some (False, t)
      else if q = NULL then Some (False, v) else add_page cid (page_len cid s) q v)"
    using False by (simp add: newslab_unfold g p m)
  show ?thesis
  proof (cases ok)
    case no: False
    note gf = grow_slab_list_facts(1) [OF g]
    show ?thesis using st no gf slabs_inv_same_free [OF gf inv] by (auto simp: same_free_def)
  next
    case True
    have g': "grow_slab_list cid s = (True, t)" using g True by simp
    note src = newslab_page_source [OF g' cid(1) p m]
    show ?thesis
    proof (cases "q = NULL")
      case True
      with st \<open>ok\<close> src(2) slabs_inv_same_free [OF src(2) inv] show ?thesis by (auto simp: same_free_def)
    next
      case qn: False
      have c: "sc_size (slabclass v cid) = sc_size (slabclass s cid)" "perslab (slabclass v cid) = perslab (slabclass s cid)"
        "requested (slabclass v cid) = requested (slabclass s cid)" "heap v = heap s" "slab_frame s v"
        "power_largest v = power_largest s"
        using src(2) by (auto simp: same_free_def slab_frame_def)
      obtain s' where s': "add_page cid (page_len cid s) q v = Some (True, s')"
        "slabs_inv s' (F(cid := rev (chunk_addrs q (sc_size (slabclass s cid)) (perslab (slabclass s cid))) @ F cid))"
        "slab_frame v s'" "\<forall>a. \<not> (q \<le> a \<and> a < q + page_len cid s) \<and> a \<notin> free_items F \<longrightarrow> heap s' a = heap s a"
        "slabs (slabclass s' cid) = slabs (slabclass s cid) + 1"
        "requested (slabclass s' cid) = requested (slabclass s cid)"
        "sc_size (slabclass s' cid) = sc_size (slabclass s cid)"
        using add_page_correct [OF slabs_inv_same_free [OF src(2) inv] cid(1), of "page_len cid s" q] cid(2) sz fresh qn src
        unfolding c by auto
      have "do_slabs_newslab cid s = Some (True, s')" using st \<open>ok\<close> qn s'(1) by simp
      then show ?thesis using s' slab_frame_trans [OF c(5) s'(3)] src(1) qn
        by (intro exI [of _ True] exI [of _ s']) simp
    qed
  qed
qed

lemma do_slabs_alloc_unfold:
  "1 \<le> cid \<Longrightarrow> cid \<le> power_largest s \<Longrightarrow>
   sl_curr (slabclass s cid) = 0 \<or> slabs_clsid (heap s (slots (slabclass s cid))) = 0 \<Longrightarrow>
   sz \<le> sc_size (slabclass s cid) \<Longrightarrow>
   do_slabs_alloc sz cid flags s = do {
     (_, t) \<leftarrow> (if sl_curr (slabclass s cid) = 0 \<and> flags \<noteq> SLABS_ALLOC_NO_NEWPAGE
                then do_slabs_newslab cid s else Some (True, s));
     (if sl_curr (slabclass t cid) \<noteq> 0
       then Some (slots (slabclass t cid), Some (requested (slabclass s cid)), slots_pop cid (of_nat sz) t)
       else Some (NULL, Some (requested (slabclass s cid)), t)) }"
  by (simp add: do_slabs_alloc_def Let_def)

definition page_range :: "nat \<Rightarrow> 'z slab_state_scheme \<Rightarrow> addr set" where
  "page_range cid s = {a. next_page (page_len cid s) s \<le> a \<and> a < next_page (page_len cid s) s + page_len cid s}"

definition class_wf :: "nat \<Rightarrow> 'z slab_state_scheme \<Rightarrow> bool" where
  "class_wf cid s \<longleftrightarrow> 1 \<le> cid \<and> cid \<le> power_largest s \<and> 0 < sc_size (slabclass s cid) \<and>
     perslab (slabclass s cid) * sc_size (slabclass s cid) \<le> page_len cid s"

lemma page_fresh_iff: "page_fresh (next_page (page_len cid s) s) (page_len cid s) F \<longleftrightarrow> page_range cid s \<inter> free_items F = {}"
  by (auto simp: page_fresh_def page_range_def)

lemma free_items_append: "free_items (F(cid := ys @ F cid)) = set ys \<union> free_items F"
  by (auto simp: free_items_def split: if_splits)

lemma refill_correct:
  assumes inv: "slabs_inv s F" and wf: "class_wf cid s" and fresh: "page_range cid s \<inter> free_items F = {}"
  shows "\<exists>b t G. (if sl_curr (slabclass s cid) = 0 \<and> flags \<noteq> SLABS_ALLOC_NO_NEWPAGE
      then do_slabs_newslab cid s else Some (True, s)) = Some (b, t) \<and> slabs_inv t G \<and> slab_frame s t \<and>
      sc_size (slabclass t cid) = sc_size (slabclass s cid) \<and> requested (slabclass t cid) = requested (slabclass s cid) \<and>
      free_items F \<subseteq> free_items G \<and> free_items G \<subseteq> free_items F \<union> page_range cid s \<and>
      (F cid \<noteq> [] \<longrightarrow> G = F \<and> t = s) \<and>
      (\<forall>a. a \<notin> free_items F \<union> page_range cid s \<longrightarrow> heap t a = heap s a)"
proof (cases "sl_curr (slabclass s cid) = 0 \<and> flags \<noteq> SLABS_ALLOC_NO_NEWPAGE")
  case False
  with inv show ?thesis by (intro exI [of _ True] exI [of _ s] exI [of _ F]) auto
next
  case True
  let ?p = "next_page (page_len cid s) s" and ?sz = "sc_size (slabclass s cid)" and ?n = "perslab (slabclass s cid)"
  have w: "1 \<le> cid" "cid \<le> power_largest s" "0 < ?sz" "?n * ?sz \<le> page_len cid s" using wf by (auto simp: class_wf_def)
  have e: "F cid = []" using slabs_inv_free_ok [OF inv w(1,2)] True by (simp add: free_ok_def)
  obtain ok t where t: "do_slabs_newslab cid s = Some (ok, t)" "slab_frame s t"
    "requested (slabclass t cid) = requested (slabclass s cid)" "sc_size (slabclass t cid) = ?sz"
    "\<forall>a. a \<notin> free_items F \<and> (ok \<longrightarrow> \<not> (?p \<le> a \<and> a < ?p + page_len cid s)) \<longrightarrow> heap t a = heap s a"
    "if ok then slabs_inv t (F(cid := rev (chunk_addrs ?p ?sz ?n) @ F cid)) \<and>
        slabs (slabclass t cid) = slabs (slabclass s cid) + 1 \<and> ?p \<noteq> NULL
     else slabs_inv t F \<and> heap t = heap s"
    using newslab_correct [OF inv w] fresh unfolding page_fresh_iff by auto
  define G where "G = (if ok then F(cid := rev (chunk_addrs ?p ?sz ?n) @ F cid) else F)"
  have "set (chunk_addrs ?p ?sz ?n) \<subseteq> page_range cid s"
    using chunk_addrs_range [OF _ w(4,3)] by (auto simp: page_range_def)
  then have "free_items F \<subseteq> free_items G \<and> free_items G \<subseteq> free_items F \<union> page_range cid s"
    using free_items_append [of F cid "rev (chunk_addrs ?p ?sz ?n)"] by (auto simp: G_def)
  moreover have "slabs_inv t G" using t(6) by (auto simp: G_def split: if_splits)
  moreover have "\<forall>a. a \<notin> free_items F \<union> page_range cid s \<longrightarrow> heap t a = heap s a"
    using t(5) by (auto simp: page_range_def)
  ultimately show ?thesis using True e t(1-4)
    by (intro exI [of _ ok] exI [of _ t] exI [of _ G]) simp
qed

lemma free_items_tail: "slabs_inv s F \<Longrightarrow> F cid = x # xs \<Longrightarrow> free_items (F(cid := xs)) = free_items F - {x}"
proof -
  assume inv: "slabs_inv s F" and F: "F cid = x # xs"
  have "1 \<le> cid \<and> cid \<le> power_largest s" using inv F by (auto simp: slabs_inv_def)
  then have "free_ok s cid (x # xs)" using inv F by (metis slabs_inv_def)
  then have "x \<notin> set xs" by (auto simp: free_ok_def dll_def)
  moreover have "x \<notin> set (F c)" if "c \<noteq> cid" for c
    using inv F that unfolding slabs_inv_def by (metis disjoint_iff list.set_intros(1))
  ultimately show ?thesis
  proof (intro set_eqI iffI)
    fix a assume a: "a \<in> free_items F - {x}"
    then obtain c where "a \<in> set (F c)" by (auto simp: free_items_def)
    with a F have "a \<in> set ((F(cid := xs)) c)" by (cases "c = cid") auto
    then show "a \<in> free_items (F(cid := xs))" by (rule free_itemsI)
  next
    fix a assume "a \<in> free_items (F(cid := xs))" and x: "x \<notin> set xs" "\<And>c. c \<noteq> cid \<Longrightarrow> x \<notin> set (F c)"
    then obtain c where c: "a \<in> set ((F(cid := xs)) c)" by (auto simp: free_items_def)
    then have "a \<in> set (F c)" "a \<noteq> x" using F x by (auto split: if_splits)
    then show "a \<in> free_items F - {x}" using free_itemsI by fastforce
  qed
qed

text \<open>
  Allocation never aborts; it returns \<open>NULL\<close> or a chunk that was free (or lies on a new page), is
  no longer on any free list, and has one reference.
\<close>

lemma do_slabs_alloc_correct:
  assumes inv: "slabs_inv s F" and wf: "class_wf cid s" and fresh: "page_range cid s \<inter> free_items F = {}"
    and sz: "sz \<le> sc_size (slabclass s cid)"
  shows "\<exists>p s' G. do_slabs_alloc sz cid flags s = Some (p, Some (requested (slabclass s cid)), s') \<and>
    slabs_inv s' G \<and> slab_frame s s' \<and>
    free_items G \<subseteq> free_items F \<union> page_range cid s \<and> free_items F - {p} \<subseteq> free_items G \<and>
    (p \<noteq> NULL \<longrightarrow> p \<in> free_items F \<union> page_range cid s \<and> p \<notin> free_items G \<and> it_flags (heap s' p) = 0 \<and>
       slabs_clsid (heap s' p) = 0 \<and> refcount (heap s' p) = 1 \<and>
       requested (slabclass s' cid) = requested (slabclass s cid) + of_nat sz) \<and>
    (F cid \<noteq> [] \<longrightarrow> p = hd (F cid) \<and> G = F(cid := tl (F cid))) \<and>
    (\<forall>a. a \<notin> free_items F \<union> page_range cid s \<longrightarrow> heap s' a = heap s a)"
proof -
  have w: "1 \<le> cid" "cid \<le> power_largest s" using wf by (auto simp: class_wf_def)
  have ok: "free_ok s cid (F cid)" by (rule slabs_inv_free_ok [OF inv w])
  have as: "sl_curr (slabclass s cid) = 0 \<or> slabs_clsid (heap s (slots (slabclass s cid))) = 0"
    using ok by (cases "F cid") (auto simp: free_ok_def dll_def)
  obtain b t G where t: "(if sl_curr (slabclass s cid) = 0 \<and> flags \<noteq> SLABS_ALLOC_NO_NEWPAGE
      then do_slabs_newslab cid s else Some (True, s)) = Some (b, t)" "slabs_inv t G" "slab_frame s t"
      "sc_size (slabclass t cid) = sc_size (slabclass s cid)" "requested (slabclass t cid) = requested (slabclass s cid)"
      "free_items F \<subseteq> free_items G" "free_items G \<subseteq> free_items F \<union> page_range cid s"
      "F cid \<noteq> [] \<longrightarrow> G = F \<and> t = s"
      "\<forall>a. a \<notin> free_items F \<union> page_range cid s \<longrightarrow> heap t a = heap s a"
    using refill_correct [OF inv wf fresh, of flags] by blast
  have w': "cid \<le> power_largest t" using w(2) t(3) by (simp add: slab_frame_def)
  have okt: "free_ok t cid (G cid)" by (rule slabs_inv_free_ok [OF t(2) w(1) w'])
  have st: "do_slabs_alloc sz cid flags s = (if sl_curr (slabclass t cid) \<noteq> 0
       then Some (slots (slabclass t cid), Some (requested (slabclass s cid)), slots_pop cid (of_nat sz) t)
       else Some (NULL, Some (requested (slabclass s cid)), t))"
    by (simp only: do_slabs_alloc_unfold [OF w as sz] t(1) bind.bind_lunit prod.case)
  show ?thesis
  proof (cases "G cid")
    case Nil
    have e: "F cid = []" using t(8) Nil by auto
    have "sl_curr (slabclass t cid) = 0" using okt Nil by (simp add: free_ok_def)
    with st have r: "do_slabs_alloc sz cid flags s = Some (NULL, Some (requested (slabclass s cid)), t)" by simp
    have "free_items F - {NULL} \<subseteq> free_items G" using t(6) by blast
    with r e t show ?thesis by (intro exI [of _ NULL] exI [of _ t] exI [of _ G]) simp
  next
    case (Cons x xs)
    note hd = slots_pop_correct(1) [OF t(2) w(1) w' Cons]
    note pop = slots_pop_correct(2-6) [OF t(2) w(1) w' Cons, where sz = "of_nat sz"]
    have "sl_curr (slabclass t cid) \<noteq> 0" using okt Cons by (simp add: free_ok_def)
    with st hd have r: "do_slabs_alloc sz cid flags s = Some (x, Some (requested (slabclass s cid)), slots_pop cid (of_nat sz) t)"
      by simp
    note fi = free_items_tail [OF t(2) Cons]
    have xG: "x \<in> free_items G" using Cons free_itemsI [of x G cid] by simp
    have fl: "it_flags (heap t x) = ITEM_SLABBED \<and> slabs_clsid (heap t x) = 0" using slabs_inv_free_item [OF t(2) xG] by simp
    have hp: "\<forall>a. a \<notin> free_items F \<union> page_range cid s \<longrightarrow> heap (slots_pop cid (of_nat sz) t) a = heap s a"
      using pop(3) t(7,9) by (metis subsetD)
    have "F cid \<noteq> [] \<longrightarrow> x = hd (F cid) \<and> G(cid := xs) = F(cid := tl (F cid))" using t(8) Cons by auto
    then show ?thesis
      using r pop(1,2,4) fi xG fl hp t(5-7) slab_frame_trans [OF t(3) slots_pop_frame]
      by (intro exI [of _ x] exI [of _ "slots_pop cid (of_nat sz) t"] exI [of _ "G(cid := xs)"]) auto
  qed
qed

section \<open>Chunked items\<close>

primrec chunk_chain :: "(addr \<Rightarrow> item) \<Rightarrow> addr \<Rightarrow> addr list \<Rightarrow> bool" where
  "chunk_chain h p [] \<longleftrightarrow> p = NULL"
| "chunk_chain h p (x # xs) \<longleftrightarrow> p = x \<and> x \<noteq> NULL \<and> it_flags (h x) = ITEM_CHUNK \<and> chunk_chain h (i_next (h x)) xs"

lemma chunk_chain_cong:
  "(\<And>x. x \<in> set xs \<Longrightarrow> it_flags (h' x) = it_flags (h x) \<and> i_next (h' x) = i_next (h x)) \<Longrightarrow>
   chunk_chain h' p xs = chunk_chain h p xs"
  by (induction xs arbitrary: p) auto

definition valid_cls :: "'z slab_state_scheme \<Rightarrow> nat \<Rightarrow> bool" where
  "valid_cls s c \<longleftrightarrow> 1 \<le> c \<and> c \<le> power_largest s"

lemma free_chunks_correct:
  "slabs_inv s F \<Longrightarrow> chunk_chain (heap s) p cs \<Longrightarrow> distinct cs \<Longrightarrow> set cs \<inter> free_items F = {} \<Longrightarrow>
   (\<And>c. c \<in> set cs \<Longrightarrow> valid_cls s (unat (slabs_clsid (heap s c)))) \<Longrightarrow>
   \<exists>s' G. free_chunks p s = Some s' \<and> slabs_inv s' G \<and> slab_frame s s' \<and>
     free_items G = free_items F \<union> set cs \<and>
     (\<forall>a. a \<notin> free_items F \<union> set cs \<longrightarrow> heap s' a = heap s a)"
proof (induction cs arbitrary: p s F)
  case Nil
  then show ?case by (subst free_chunks.simps) (auto intro!: exI [of _ F])
next
  case (Cons c cs)
  let ?id = "unat (slabs_clsid (heap s c))"
  define t where "t = upd_item c (\<lambda>c. c\<lparr>it_flags := ITEM_SLABBED, slabs_clsid := 0\<rparr>) s"
  define u where "u = slots_push ?id c t"
  define v where "v = sub_requested ?id (word_of_int (ch_size (heap u c)) + of_nat sizeof_item_chunk) u"
  let ?G = "F(?id := c # F ?id)"
  have p: "p = c" "c \<noteq> NULL" "it_flags (heap s c) = ITEM_CHUNK" "chunk_chain (heap s) (i_next (heap s c)) cs"
    using Cons.prems(2) by auto
  have id: "1 \<le> ?id" "?id \<le> power_largest s" using Cons.prems(5) [of c] by (auto simp: valid_cls_def)
  have nin: "c \<notin> free_items F" "c \<notin> set cs" using Cons.prems by auto
  have invt: "slabs_inv t F" unfolding t_def by (rule slabs_inv_cong [OF Cons.prems(1)]) (use nin in auto)
  have invu: "slabs_inv u ?G" unfolding u_def
    by (rule slots_push_inv [OF invt id(1)]) (use id nin p in \<open>simp_all add: t_def\<close>)
  have invv: "slabs_inv v ?G" unfolding v_def using invu by (rule sub_requested_inv)
  have okt: "free_ok t ?id (F ?id)" using slabs_inv_free_ok [OF invt id(1)] id(2) by (simp add: t_def)
  have hd: "slots (slabclass t ?id) \<noteq> NULL \<Longrightarrow> slots (slabclass t ?id) \<in> free_items F"
    using slots_head(2) [OF okt] free_itemsI by metis
  have ne: "c \<noteq> slots (slabclass t ?id)" using hd nin p(2) by metis
  have hv: "heap v a = heap s a" if "a \<notin> free_items F" "a \<noteq> c" for a
    using hd that by (auto simp: v_def u_def sub_requested_def heap_slots_push [OF ne]) (simp_all add: t_def)
  have st: "free_chunks p s = free_chunks (i_next (heap s c)) v"
    using p by (subst free_chunks.simps) (simp add: t_def u_def v_def Let_def)
  have hcs: "heap v x = heap s x" if "x \<in> set cs" for x
    using hv [of x] that Cons.prems(3,4) nin by auto
  have fr: "slab_frame s v" unfolding v_def u_def t_def by (meson slab_frame_trans slab_frame_upd)
  have "\<exists>s' G. free_chunks (i_next (heap s c)) v = Some s' \<and> slabs_inv s' G \<and> slab_frame v s' \<and>
     free_items G = free_items ?G \<union> set cs \<and> (\<forall>a. a \<notin> free_items ?G \<union> set cs \<longrightarrow> heap s' a = heap v a)"
  proof (rule Cons.IH [OF invv])
    show "chunk_chain (heap v) (i_next (heap s c)) cs" using p(4) chunk_chain_cong [of cs "heap v" "heap s"] hcs by simp
    show "set cs \<inter> free_items ?G = {}" using Cons.prems(4) nin by (auto simp: free_items_upd)
    show "valid_cls v (unat (slabs_clsid (heap v x)))" if "x \<in> set cs" for x
      using Cons.prems(5) [of x] that hcs fr by (simp add: valid_cls_def slab_frame_def)
  qed (use Cons.prems in auto)
  then obtain s' G where s': "free_chunks p s = Some s'" "slabs_inv s' G" "slab_frame v s'"
     "free_items G = free_items ?G \<union> set cs" "\<forall>a. a \<notin> free_items ?G \<union> set cs \<longrightarrow> heap s' a = heap v a"
    using st by auto
  then show ?case using slab_frame_trans [OF fr s'(3)] hv
    by (intro exI [of _ s'] exI [of _ G]) (auto simp: free_items_upd)
qed

lemma ITEM_data_ne: "ITEM_data a i \<noteq> a"
  by (simp add: ITEM_data_def sizeof_item_def)

text \<open>
  A chunked item gives back its header to the class the header came from and every chunk to the
  chunk's own class.
\<close>

lemma do_slabs_free_chunked_correct:
  assumes inv: "slabs_inv s F" and it: "it \<notin> free_items F" "it \<noteq> NULL"
    and hdr: "hc = ITEM_data it (heap s it)" "valid_cls s (unat (orig_clsid (heap s hc)))"
    and cs: "chunk_chain (heap s) (i_next (heap s hc)) cs" "distinct cs" "it \<notin> set cs" "set cs \<inter> free_items F = {}"
      "\<And>c. c \<in> set cs \<Longrightarrow> valid_cls s (unat (slabs_clsid (heap s c)))"
  shows "\<exists>s' G. do_slabs_free_chunked it s = Some s' \<and> slabs_inv s' G \<and> slab_frame s s' \<and>
    free_items G = free_items F \<union> insert it (set cs) \<and>
    (\<forall>a. a \<notin> free_items F \<union> insert it (set cs) \<longrightarrow> heap s' a = heap s a)"
proof -
  let ?id = "unat (orig_clsid (heap s hc))" and ?ch = "i_next (heap s hc)"
  define t where "t = upd_item it (\<lambda>i. i\<lparr>it_flags := ITEM_SLABBED, slabs_clsid := 0, i_prev := NULL\<rparr>) s"
  define u where "u = (if ?ch \<noteq> NULL then upd_item ?ch (\<lambda>c. c\<lparr>i_prev := NULL\<rparr>) t else t)"
  define v where "v = slots_push ?id it u"
  define w where "w = sub_requested ?id (ucast (nkey (heap v it)) + 1 + ucast (nsuffix (heap v it))
                + of_nat sizeof_item + of_nat sizeof_item_chunk) v"
  define x where "x = (if use_cas (settings w) then sub_requested ?id 8 w else w)"
  let ?G = "F(?id := it # F ?id)"
  have hc: "hc \<noteq> it" using hdr(1) ITEM_data_ne by simp
  have ch: "?ch \<noteq> NULL \<Longrightarrow> ?ch \<in> set cs" using cs(1) by (cases cs) auto
  have st: "do_slabs_free_chunked it s = free_chunks ?ch x"
    using hdr(1) hc by (simp add: do_slabs_free_chunked_def Let_def t_def u_def v_def w_def x_def)
  have id: "1 \<le> ?id" "?id \<le> power_largest s" using hdr(2) by (auto simp: valid_cls_def)
  have hu: "heap u a = (if a = it then (heap s it)\<lparr>it_flags := ITEM_SLABBED, slabs_clsid := 0, i_prev := NULL\<rparr>
      else if a = ?ch \<and> a \<noteq> NULL then (heap s a)\<lparr>i_prev := NULL\<rparr> else heap s a)" for a
    using ch cs(3) by (auto simp: u_def t_def)
  have us: "slabclass u = slabclass s" "power_largest u = power_largest s" by (simp_all add: u_def t_def)
  have invu: "slabs_inv u F" by (rule slabs_inv_cong [OF inv us]) (use it ch cs(4) in \<open>auto simp: hu\<close>)
  have invv: "slabs_inv v ?G" unfolding v_def
    by (rule slots_push_inv [OF invu id(1)]) (use id it in \<open>simp_all add: us hu\<close>)
  have invx: "slabs_inv x ?G" using invv by (simp add: x_def w_def sub_requested_inv)
  have hx: "heap x = heap v" by (simp add: x_def w_def sub_requested_def)
  have oku: "free_ok u ?id (F ?id)" using slabs_inv_free_ok [OF invu id(1)] id(2) us by simp
  have hd: "slots (slabclass u ?id) \<noteq> NULL \<Longrightarrow> slots (slabclass u ?id) \<in> free_items F"
    using slots_head(2) [OF oku] free_itemsI by metis
  have ne: "it \<noteq> slots (slabclass u ?id)" using hd it by metis
  have hv: "heap x a = heap u a" if "a \<notin> insert it (free_items F)" for a
    using hd that by (auto simp: hx v_def heap_slots_push [OF ne])
  have fr: "slab_frame s x" unfolding x_def w_def v_def u_def t_def
    by (simp add: slab_frame_def sub_requested_def upd_class_def slots_push_def upd_item_def Let_def)
  have hcs: "it_flags (heap x c) = it_flags (heap s c) \<and> i_next (heap x c) = i_next (heap s c) \<and>
      slabs_clsid (heap x c) = slabs_clsid (heap s c)" if "c \<in> set cs" for c
  proof -
    have c: "c \<noteq> it" "c \<notin> free_items F" using that cs(3,4) by auto
    then have "heap x c = heap u c" by (simp add: hv)
    with c show ?thesis by (simp add: hu)
  qed
  have "\<exists>s' G. free_chunks ?ch x = Some s' \<and> slabs_inv s' G \<and> slab_frame x s' \<and>
     free_items G = free_items ?G \<union> set cs \<and> (\<forall>a. a \<notin> free_items ?G \<union> set cs \<longrightarrow> heap s' a = heap x a)"
  proof (rule free_chunks_correct [OF invx _ cs(2)])
    show "chunk_chain (heap x) ?ch cs" using cs(1) chunk_chain_cong [of cs "heap x" "heap s"] hcs by simp
    show "set cs \<inter> free_items ?G = {}" using cs(3,4) by (auto simp: free_items_upd)
    show "valid_cls x (unat (slabs_clsid (heap x c)))" if "c \<in> set cs" for c
      using cs(5) [OF that] hcs [OF that] fr by (simp add: valid_cls_def slab_frame_def)
  qed
  then obtain s' G where s': "do_slabs_free_chunked it s = Some s'" "slabs_inv s' G" "slab_frame x s'"
    "free_items G = free_items ?G \<union> set cs" "\<forall>a. a \<notin> free_items ?G \<union> set cs \<longrightarrow> heap s' a = heap x a"
    using st by auto
  have "heap s' a = heap s a" if "a \<notin> free_items F \<union> insert it (set cs)" for a
    using that s'(5) hv [of a] ch by (auto simp: free_items_upd hu)
  then show ?thesis using s' slab_frame_trans [OF fr s'(3)]
    by (intro exI [of _ s'] exI [of _ G]) (auto simp: free_items_upd)
qed

section \<open>Choice of a size class\<close>

lemma clsid_loop_correct:
  "res \<le> power_largest s \<Longrightarrow> \<exists>r. clsid_loop sz s res = Some r \<and> res \<le> r \<and> r \<le> power_largest s \<and>
     (\<forall>i. res \<le> i \<and> i < r \<longrightarrow> sc_size (slabclass s i) < sz) \<and>
     (r < power_largest s \<longrightarrow> sz \<le> sc_size (slabclass s r))"
proof (induction "power_largest s - res" arbitrary: res)
  case 0
  then show ?case by (subst clsid_loop.simps) auto
next
  case (Suc n)
  show ?case
  proof (cases "sc_size (slabclass s res) < sz \<and> res \<noteq> power_largest s")
    case True
    have "n = power_largest s - (res + 1)" "res + 1 \<le> power_largest s" using Suc.hyps(2) Suc.prems True by auto
    from Suc.hyps(1) [OF this] obtain r where r: "clsid_loop sz s (res + 1) = Some r" "res + 1 \<le> r"
      "r \<le> power_largest s" "\<forall>i. res + 1 \<le> i \<and> i < r \<longrightarrow> sc_size (slabclass s i) < sz"
      "r < power_largest s \<longrightarrow> sz \<le> sc_size (slabclass s r)" by blast
    have "clsid_loop sz s res = Some r" using True r(1) by (subst clsid_loop.simps) simp
    moreover have "\<forall>i. res \<le> i \<and> i < r \<longrightarrow> sc_size (slabclass s i) < sz"
    proof (intro allI impI)
      fix i assume i: "res \<le> i \<and> i < r"
      show "sc_size (slabclass s i) < sz" using r(4) True i by (cases "i = res") auto
    qed
    ultimately show ?thesis using r by auto
  next
    case False
    then show ?thesis using Suc.prems by (subst clsid_loop.simps) auto
  qed
qed

lemma chunk_align_mod: "chunk_align sz mod CHUNK_ALIGN_BYTES = 0"
  unfolding chunk_align_def by (auto simp: mod_add_right_eq) presburger

lemma chunk_align_ge: "sz \<le> chunk_align sz \<and> chunk_align sz < sz + 8"
  by (auto simp: chunk_align_def)

text \<open>
  The classes that \<open>slabs_init\<close> has filled in when its loop is at class \<open>i\<close> with candidate size \<open>sz\<close>.
\<close>

definition classes_wf :: "settings \<Rightarrow> nat \<Rightarrow> nat \<Rightarrow> (nat \<Rightarrow> slabclass_t) \<Rightarrow> bool" where
  "classes_wf st i b cls \<longleftrightarrow>
     (\<forall>k. 1 \<le> k \<and> k < i \<longrightarrow> 8 dvd sc_size (cls k) \<and> 0 < sc_size (cls k) \<and> sc_size (cls k) \<le> b \<and>
        sc_size (cls k) \<le> slab_chunk_size_max st \<and> perslab (cls k) = slab_page_size st div sc_size (cls k)) \<and>
     (\<forall>k l. 1 \<le> k \<and> k \<le> l \<and> l < i \<longrightarrow> sc_size (cls k) \<le> sc_size (cls l)) \<and>
     (\<forall>k. slots (cls k) = NULL \<and> sl_curr (cls k) = 0 \<and> slabs (cls k) = 0)"

lemma chunk_align_le:
  assumes "sz < m" "8 dvd m" shows "chunk_align sz \<le> m"
proof -
  obtain k where k: "m = 8 * k" using assms(2) by blast
  show ?thesis using assms(1) unfolding chunk_align_def k by presburger
qed

lemma classes_wf_step:
  assumes wf: "classes_wf st i sz cls" and i: "1 \<le> i" and sz: "0 < sz" "sz < slab_chunk_size_max st"
    and d: "8 dvd slab_chunk_size_max st" and b: "chunk_align sz \<le> b"
  shows "classes_wf st (i + 1) b (cls(i := (cls i)\<lparr>sc_size := chunk_align sz,
    perslab := slab_page_size st div chunk_align sz\<rparr>))"
proof -
  have a: "8 dvd chunk_align sz" "0 < chunk_align sz" "chunk_align sz \<le> slab_chunk_size_max st" "sz \<le> chunk_align sz"
    using chunk_align_mod [of sz] chunk_align_ge [of sz] chunk_align_le [OF sz(2) d] sz(1) by auto
  show ?thesis
    using wf a b unfolding classes_wf_def by (auto simp: less_Suc_eq)
qed

lemma classes_wf_weaken: "classes_wf st i b cls \<Longrightarrow> classes_wf st i (slab_chunk_size_max st) cls"
  by (auto simp: classes_wf_def)

lemma init_classes_correct:
  assumes "classes_wf st i sz cls" "1 \<le> i" "i \<le> 63" "0 < sz" "0 < factor_den st" "factor_den st \<le> factor_num st"
    "8 dvd slab_chunk_size_max st" "init_classes st None i sz cls = (n, cls')"
  shows "1 \<le> n \<and> n \<le> 63 \<and> classes_wf st n (slab_chunk_size_max st) cls'"
  using assms
proof (induction "63 - i" arbitrary: i sz cls)
  case 0
  then have "(n, cls') = (i, cls)" by (simp add: init_classes.simps)
  with 0 show ?case using classes_wf_weaken by blast
next
  case (Suc m)
  show ?case
  proof (cases "slab_chunk_size_max st * factor_den st \<le> sz * factor_num st")
    case True
    have "init_classes st None i sz cls = (i, cls)" using True by (simp add: init_classes.simps)
    with Suc.prems show ?thesis using classes_wf_weaken by auto
  next
    case False
    have "sz < slab_chunk_size_max st"
    proof (rule ccontr)
      assume "\<not> sz < slab_chunk_size_max st"
      then have "slab_chunk_size_max st * factor_den st \<le> sz * factor_num st"
        using Suc.prems(6) by (intro mult_le_mono) auto
      with False show False by simp
    qed
    define sz' where "sz' = chunk_align sz"
    define cls1 where "cls1 = cls(i := (cls i)\<lparr>sc_size := sz', perslab := slab_page_size st div sz'\<rparr>)"
    have pos: "0 < sz'" using chunk_align_ge [of sz] Suc.prems(4) by (simp add: sz'_def)
    have ge: "sz' \<le> sz' * factor_num st div factor_den st"
    proof -
      have "sz' * factor_den st div factor_den st \<le> sz' * factor_num st div factor_den st"
        using Suc.prems(6) by (intro div_le_mono mult_le_mono) auto
      then show ?thesis using Suc.prems(5) by simp
    qed
    have wf: "classes_wf st (i + 1) (sz' * factor_num st div factor_den st) cls1"
      unfolding cls1_def sz'_def
      by (rule classes_wf_step [OF Suc.prems(1,2,4) \<open>sz < slab_chunk_size_max st\<close> Suc.prems(7)])
        (use ge in \<open>simp add: sz'_def\<close>)
    have st: "init_classes st None (i + 1) (sz' * factor_num st div factor_den st) cls1 = (n, cls')"
    proof -
      have "i < 63" using Suc.hyps(2) by simp
      with Suc.prems(8) False show ?thesis
        by (subst (asm) init_classes.simps) (simp add: Let_def sz'_def cls1_def)
    qed
    show ?thesis
      by (rule Suc.hyps(1) [OF _ wf _ _ _ Suc.prems(5-7) st])
        (use Suc.hyps(2) Suc.prems(2,3) pos ge in auto)
  qed
qed

lemma slabs_init_correct:
  assumes init: "slabs_init limit False None env s = Some s'"
    and st: "0 < factor_den (settings s)" "factor_den (settings s) \<le> factor_num (settings s)"
      "8 dvd slab_chunk_size_max (settings s)" "0 < slab_chunk_size_max (settings s)"
  shows "1 \<le> power_largest s' \<and> power_largest s' \<le> 63 \<and> slabs_inv s' (\<lambda>_. []) \<and>
    (\<forall>k l. 1 \<le> k \<and> k \<le> l \<and> l \<le> power_largest s' \<longrightarrow> sc_size (slabclass s' k) \<le> sc_size (slabclass s' l)) \<and>
    (\<forall>k. 1 \<le> k \<and> k \<le> power_largest s' \<longrightarrow> 8 dvd sc_size (slabclass s' k) \<and> class_wf k s')"
proof -
  let ?st = "settings s"
  obtain n cls where ic: "init_classes ?st None 1 (sizeof_item + chunk_size ?st) (\<lambda>_. empty_class) = (n, cls)" by fastforce
  have w0: "classes_wf ?st 1 (sizeof_item + chunk_size ?st) (\<lambda>_. empty_class)" by (simp add: classes_wf_def empty_class_def)
  have w: "1 \<le> n \<and> n \<le> 63 \<and> classes_wf ?st n (slab_chunk_size_max ?st) cls"
    by (rule init_classes_correct [OF w0 _ _ _ st(1-3) ic]) (simp_all add: sizeof_item_def)
  define c where "c = cls(n := (cls n)\<lparr>sc_size := slab_chunk_size_max ?st,
      perslab := slab_page_size ?st div slab_chunk_size_max ?st\<rparr>)"
  have s': "slabclass s' = c" "power_largest s' = n" "settings s' = ?st"
    using init ic by (auto simp: slabs_init_def Let_def c_def split: option.splits)
  have k: "8 dvd sc_size (c k) \<and> 0 < sc_size (c k) \<and> sc_size (c k) \<le> slab_chunk_size_max ?st \<and>
      perslab (c k) = slab_page_size ?st div sc_size (c k)" if "1 \<le> k" "k \<le> n" for k
    using w that st by (cases "k = n") (auto simp: c_def classes_wf_def)
  have mono: "sc_size (c k) \<le> sc_size (c l)" if "1 \<le> k" "k \<le> l" "l \<le> n" for k l
    using w that by (cases "l = n"; cases "k = n") (auto simp: c_def classes_wf_def)
  have z: "slots (c k) = NULL \<and> sl_curr (c k) = 0" for k using w by (auto simp: c_def classes_wf_def)
  have "class_wf i s'" if "1 \<le> i" "i \<le> n" for i
  proof -
    have "perslab (c i) * sc_size (c i) \<le> slab_page_size ?st" using k [OF that] by simp
    then show ?thesis using k [OF that] that by (auto simp: class_wf_def page_len_def s')
  qed
  moreover have "slabs_inv s' (\<lambda>_. [])" using w z by (simp add: slabs_inv_def free_ok_def dll_def s')
  ultimately show ?thesis using w k mono by (simp add: s')
qed

end
