(* ===== verification/Slabs_Spec.thy ===== *)
theory Slabs_Spec
  imports Slabs Assoc_Sys
begin

text \<open>
  What the slab allocator promises. The locale \<open>chunk_store\<close> is the contract of one size class, a
  stack of free chunks, interpreted on \<open>slabs_alloc\<close> and \<open>slabs_free\<close>; the properties cover
  allocation, the memory limit, the size classes and chunked items.
\<close>

section \<open>The allocator as a store of chunks\<close>

text \<open>
  The contract of one size class: a stack of free chunks. \<open>mine\<close> says a chunk is out of the
  store and may be given back.
\<close>

locale chunk_store =
  fixes ok :: "'s \<Rightarrow> bool" and avail :: "'s \<Rightarrow> 'a list" and mine :: "'s \<Rightarrow> 'a \<Rightarrow> bool"
    and take1 :: "'s \<Rightarrow> ('a \<times> 's) option" and give :: "'a \<Rightarrow> 's \<Rightarrow> 's option"
  assumes give_law: "ok s \<Longrightarrow> mine s a \<Longrightarrow> \<exists>s'. give a s = Some s' \<and> ok s' \<and> avail s' = a # avail s"
    and take_law: "ok s \<Longrightarrow> avail s = a # as \<Longrightarrow>
      \<exists>s'. take1 s = Some (a, s') \<and> ok s' \<and> avail s' = as \<and> mine s' a"
    and avail_distinct: "ok s \<Longrightarrow> distinct (avail s)"
    and avail_not_mine: "ok s \<Longrightarrow> a \<in> set (avail s) \<Longrightarrow> \<not> mine s a"
begin

lemma give_take:
  assumes "ok s" "mine s a"
  shows "\<exists>s' s''. give a s = Some s' \<and> take1 s' = Some (a, s'') \<and> ok s'' \<and> avail s'' = avail s"
  using give_law [OF assms] take_law by blast

lemma take_twice:
  assumes "ok s" "avail s = a # b # as"
  shows "\<exists>s' s''. take1 s = Some (a, s') \<and> take1 s' = Some (b, s'') \<and> a \<noteq> b \<and> ok s'' \<and> avail s'' = as"
proof -
  obtain s' where s': "take1 s = Some (a, s')" "ok s'" "avail s' = b # as" using take_law [OF assms] by blast
  obtain s'' where "take1 s' = Some (b, s'')" "ok s''" "avail s'' = as" using take_law [OF s'(2,3)] by blast
  moreover have "a \<noteq> b" using avail_distinct [OF assms(1)] assms(2) by simp
  ultimately show ?thesis using s' by blast
qed

lemma take_give:
  assumes "ok s" "avail s = a # as"
  shows "\<exists>s' s''. take1 s = Some (a, s') \<and> give a s' = Some s'' \<and> ok s'' \<and> avail s'' = avail s"
  using take_law [OF assms] give_law assms(2) by metis

lemma no_double_give:
  assumes "ok s" "mine s a"
  shows "\<exists>s'. give a s = Some s' \<and> \<not> mine s' a"
  using give_law [OF assms] avail_not_mine by fastforce

end

lemma dseg_unique:
  "dseg h p xs NULL \<Longrightarrow> dseg h p ys NULL \<Longrightarrow> first_or xs NULL = first_or ys NULL \<Longrightarrow> xs = ys"
proof (induction xs arbitrary: p ys)
  case Nil
  then show ?case by (cases ys) auto
next
  case (Cons x xs)
  then obtain zs where ys: "ys = x # zs" by (cases ys) auto
  have "xs = zs" by (rule Cons.IH [of x]) (use Cons.prems ys in auto)
  with ys show ?case by simp
qed

lemma free_ok_unique: "free_ok s cid xs \<Longrightarrow> free_ok s cid ys \<Longrightarrow> xs = ys"
  by (rule dseg_unique [of "heap s" NULL]) (auto simp: free_ok_def dll_def)

lemma slabs_inv_unique: "slabs_inv s F \<Longrightarrow> slabs_inv s G \<Longrightarrow> F = G"
proof
  fix c assume i: "slabs_inv s F" "slabs_inv s G"
  show "F c = G c"
  proof (cases "1 \<le> c \<and> c \<le> power_largest s")
    case True
    then have "free_ok s c (F c)" "free_ok s c (G c)" using i slabs_inv_free_ok by blast+
    then show ?thesis by (rule free_ok_unique)
  next
    case False
    with i show ?thesis unfolding slabs_inv_def by metis
  qed
qed

definition slab_ready :: "nat \<Rightarrow> nat \<Rightarrow> 'z slab_state_scheme \<Rightarrow> bool" where
  "slab_ready cid sz s \<longleftrightarrow> (\<exists>F. slabs_inv s F) \<and> valid_cls s cid \<and> sz \<le> sc_size (slabclass s cid)"

definition free_lists :: "'z slab_state_scheme \<Rightarrow> nat \<Rightarrow> addr list" where
  "free_lists s = (THE F. slabs_inv s F)"

lemma free_lists_eq: "slabs_inv s F \<Longrightarrow> free_lists s = F"
  unfolding free_lists_def using slabs_inv_unique by blast

definition outstanding :: "'z slab_state_scheme \<Rightarrow> addr \<Rightarrow> bool" where
  "outstanding s a \<longleftrightarrow> a \<noteq> NULL \<and> a \<notin> free_items (free_lists s) \<and> \<not> has_flag (it_flags (heap s a)) ITEM_CHUNKED"

definition alloc_ptr :: "nat \<Rightarrow> nat \<Rightarrow> nat \<Rightarrow> 'z slab_state_scheme \<Rightarrow> (addr \<times> 'z slab_state_scheme) option" where
  "alloc_ptr sz cid flags s = map_option (\<lambda>(p, tb, s). (p, s)) (slabs_alloc sz cid flags s)"

lemma alloc_nonempty:
  assumes inv: "slabs_inv s F" and cid: "valid_cls s cid" and sz: "sz \<le> sc_size (slabclass s cid)" and F: "F cid = x # xs"
  shows "do_slabs_alloc sz cid flags s = Some (x, Some (requested (slabclass s cid)), slots_pop cid (of_nat sz) s)"
proof -
  have c: "1 \<le> cid" "cid \<le> power_largest s" using cid by (auto simp: valid_cls_def)
  have ok: "free_ok s cid (x # xs)" using slabs_inv_free_ok [OF inv c] F by simp
  have h: "slots (slabclass s cid) = x" "slabs_clsid (heap s x) = 0" "sl_curr (slabclass s cid) \<noteq> 0"
    using ok by (auto simp: free_ok_def dll_def)
  show ?thesis by (subst do_slabs_alloc_unfold [OF c _ sz]) (simp_all add: h)
qed

interpretation slab: chunk_store "slab_ready cid sz" "\<lambda>s. free_lists s cid" outstanding
  "alloc_ptr sz cid flags" "\<lambda>a. slabs_free a (of_nat sz) cid" for cid sz flags
proof (unfold_locales, goal_cases)
  case (1 s a)
  then obtain F where inv: "slabs_inv s F" and v: "1 \<le> cid" "cid \<le> power_largest s" and "sz \<le> sc_size (slabclass s cid)"
    by (auto simp: slab_ready_def valid_cls_def)
  have o: "a \<notin> free_items F" "a \<noteq> NULL" "\<not> has_flag (it_flags (heap s a)) ITEM_CHUNKED"
    using 1(2) by (auto simp: outstanding_def free_lists_eq [OF inv])
  obtain s' where s': "do_slabs_free a (of_nat sz) cid s = Some s'" "slabs_inv s' (F(cid := a # F cid))" "slab_frame s s'"
    "sc_size (slabclass s' cid) = sc_size (slabclass s cid)"
    using do_slabs_free_correct [OF inv v o, of "of_nat sz"] by auto
  then show ?case using \<open>sz \<le> _\<close> v
    by (auto simp: slabs_free_def slab_ready_def free_lists_eq [OF inv] free_lists_eq [OF s'(2)] valid_cls_def slab_frame_def)
next
  case (2 s a as)
  then obtain F where inv: "slabs_inv s F" and v: "valid_cls s cid" and sz: "sz \<le> sc_size (slabclass s cid)"
    by (auto simp: slab_ready_def)
  have v': "1 \<le> cid" "cid \<le> power_largest s" using v by (auto simp: valid_cls_def)
  have F: "F cid = a # as" using 2(2) by (simp add: free_lists_eq [OF inv])
  note pop = slots_pop_correct(2-6) [OF inv v' F, where sz = "of_nat sz"]
  have "a \<notin> free_items (F(cid := as))" by (simp add: free_items_tail [OF inv F])
  moreover have "a \<noteq> NULL" using slabs_inv_item [OF inv] F by (metis list.set_intros(1))
  ultimately have "outstanding (slots_pop cid (of_nat sz) s) a"
    by (simp add: outstanding_def free_lists_eq [OF pop(1)] pop(2))
  moreover have "valid_cls (slots_pop cid (of_nat sz) s) cid"
    using v slots_pop_frame [of s cid "of_nat sz"] by (simp add: valid_cls_def slab_frame_def)
  ultimately show ?case
    using alloc_nonempty [OF inv v sz F] pop(1,4) sz
    by (auto simp: alloc_ptr_def slabs_alloc_def slab_ready_def free_lists_eq [OF pop(1)])
next
  case (3 s)
  then obtain F where inv: "slabs_inv s F" and v: "1 \<le> cid" "cid \<le> power_largest s"
    by (auto simp: slab_ready_def valid_cls_def)
  from slabs_inv_free_ok [OF inv v] show ?case by (simp add: free_lists_eq [OF inv] free_ok_def dll_def)
next
  case (4 s a)
  then show ?case by (auto simp: slab_ready_def outstanding_def free_lists_eq dest: free_itemsI)
qed

section \<open>Properties\<close>

text \<open>
  Freeing a chunk and allocating again from the same class returns that chunk, leaves the
  free list as it was, and no assertion of the allocator fires on the way.
\<close>

theorem slabs_free_alloc_roundtrip:
  assumes "slab_ready cid sz s" "outstanding s a"
  shows "\<exists>s' s''. slabs_free a (of_nat sz) cid s = Some s' \<and> alloc_ptr sz cid flags s' = Some (a, s'') \<and>
    slab_ready cid sz s'' \<and> free_lists s'' cid = free_lists s cid"
  by (rule slab.give_take [OF assms])


text \<open>An allocator with two classes and one page to come at address 4096.\<close>

definition ex_slab :: slab_state where
  "ex_slab = \<lparr>heap = (\<lambda>_. zero_item)(100 := ex_item [6], 200 := ex_item [8]),
     settings = ex_settings\<lparr>slab_page_size := 1024, slab_chunk_size_max := 512\<rparr>,
     current_time = 1, hash = (\<lambda>k. word_of_nat (sum_list (map unat k))), item_lock_hashpower = 0,
     item_locks = (\<lambda>_. False), hashpower = 1, primary_hashtable = [0, 0], old_hashtable = [],
     expanding = False, started_expanding = False, expand_bucket = 0, hash_bulk_move = 1,
     slabclass = (\<lambda>_. empty_class)(1 := empty_class\<lparr>sc_size := 96, perslab := 10\<rparr>,
       2 := empty_class\<lparr>sc_size := 512, perslab := 2\<rparr>),
     mem_limit = 2048, mem_malloced = 0, mem_limit_reached = False, power_largest = 2, mem_base = 0,
     mem_current = 0, mem_avail = 0, malloc_results = [4096, 8192], realloc_results = [True, True, True],
     slab_rebalance_signal = 0,
     slab_rebal = \<lparr>slab_start = 0, slab_end = 0, slab_pos = 0, s_clsid = 0, d_clsid = 0, busy_items = 0,
       rescues = 0, evictions_nomem = 0, inline_reclaim = 0, chunk_rescues = 0, busy_deletes = 0,
       busy_loops = 0, sr_done = False\<rparr>, pick_any_cur = 0\<rparr>"

lemma ex_slab_inv: "slabs_inv ex_slab (\<lambda>_. [])"
proof -
  have "slots (slabclass ex_slab c) = NULL \<and> sl_curr (slabclass ex_slab c) = 0" for c
    by (simp add: ex_slab_def empty_class_def)
  then show ?thesis by (simp add: slabs_inv_def free_ok_def dll_def) (simp add: ex_slab_def)
qed

lemma ex_slab_wf: "class_wf 1 ex_slab" "sc_size (slabclass ex_slab 1) = 96"
  by (simp_all add: class_wf_def ex_slab_def page_len_def ex_settings_def)


theorem slabs_free_alloc_roundtrip_witness:
  "\<exists>s' s''. slabs_free 100 80 1 ex_slab = Some s' \<and> alloc_ptr 80 1 0 s' = Some (100, s'')"
proof -
  have "slab_ready 1 80 ex_slab" "outstanding ex_slab 100"
    using ex_slab_inv ex_slab_wf free_lists_eq [OF ex_slab_inv]
    by (auto simp: slab_ready_def valid_cls_def class_wf_def outstanding_def free_items_def)
      (simp_all add: ex_slab_def ex_item_def zero_item_def)
  from slabs_free_alloc_roundtrip [OF this, of 0] show ?thesis by auto
qed

lemma newslab_charges:
  assumes bs: "do_slabs_newslab cid s = Some (b, s')" and nl: "\<not> limit_hit cid s"
    and base: "mem_base s = NULL" and pool: "slabs (slabclass s 0) = 0" and cid: "1 \<le> cid"
    and inv: "slabs_inv s F" and wf: "class_wf cid s" and fresh: "page_range cid s \<inter> free_items F = {}"
  shows "b \<Longrightarrow> mem_malloced s' = mem_malloced s + of_nat (page_len cid s)"
proof -
  assume b
  obtain ok t where g: "grow_slab_list cid s = (ok, t)" by fastforce
  obtain p u where p: "get_page_from_global_pool t = (p, u)" by fastforce
  note gf = grow_slab_list_facts [OF g]
  have "slabs (slabclass t 0) = 0" using gf(2) pool by simp
  then have pu: "p = NULL" "u = t" using get_page_facts(4) [OF p] by auto
  obtain q v where m: "memory_allocate (page_len cid s) t = (q, v)" by fastforce
  have "Some (b, s') = (if \<not> ok then Some (False, t) else if q = NULL then Some (False, v)
      else add_page cid (page_len cid s) q v)"
    unfolding bs [symmetric] using nl by (simp add: newslab_unfold g m p [unfolded pu])
  then have ok: "ok" "q \<noteq> NULL" "add_page cid (page_len cid s) q v = Some (True, s')"
    using \<open>b\<close> by (auto split: if_splits simp: add_page_def bind_eq_Some_conv)
  have mv: "mem_malloced v = mem_malloced s + of_nat (page_len cid s)"
    using memory_allocate_facts(3) [OF m] gf(4,6) base by simp
  have src: "q = next_page (page_len cid s) s" "same_free s v"
    using newslab_page_source [OF _ cid p, of s "page_len cid s" q v] g m pu ok(1) by auto
  have c: "sc_size (slabclass v cid) = sc_size (slabclass s cid)" "perslab (slabclass v cid) = perslab (slabclass s cid)"
    "power_largest v = power_largest s" using src(2) by (auto simp: same_free_def slab_frame_def)
  have "mem_malloced s' = mem_malloced v"
    using add_page_correct [OF slabs_inv_same_free [OF src(2) inv] cid, of "page_len cid s" q]
      wf fresh ok(2,3) src(1) unfolding c page_fresh_iff [symmetric] class_wf_def by auto
  with mv show ?thesis by simp
qed

text \<open>
  (C32) The memory limit holds: when a limit is set, pages come from \<^verbatim>\<open>malloc\<close> and the global pool is
  empty, a class that already has a page gets another one only if the total stays within the
  limit; otherwise the request fails, the limit-reached hint is raised and nothing else changes.
\<close>

theorem newslab_memory_limit:
  assumes "mem_limit s \<noteq> 0" "mem_base s = NULL" "slabs (slabclass s 0) = 0" "0 < slabs (slabclass s cid)"
    and "unat (mem_malloced s) + page_len cid s < 2 ^ 64" "1 \<le> cid"
    and "slabs_inv s F" "class_wf cid s" "page_range cid s \<inter> free_items F = {}"
  shows "\<exists>b s'. do_slabs_newslab cid s = Some (b, s') \<and>
    (b \<longrightarrow> unat (mem_malloced s') = unat (mem_malloced s) + page_len cid s \<and> mem_malloced s' \<le> mem_limit s) \<and>
    (unat (mem_limit s) < unat (mem_malloced s) + page_len cid s \<longrightarrow> \<not> b \<and> s' = s\<lparr>mem_limit_reached := True\<rparr>)"
proof -
  have un: "unat (mem_malloced s + of_nat (page_len cid s)) = unat (mem_malloced s) + page_len cid s"
    using assms(5) by (simp add: unat_word_ariths unat_of_nat take_bit_nat_eq_self take_bit_eq_mod [symmetric])
  have lim: "limit_hit cid s \<longleftrightarrow> unat (mem_limit s) < unat (mem_malloced s) + page_len cid s"
    using assms un by (simp add: limit_hit_def word_less_nat_alt)
  show ?thesis
  proof (cases "limit_hit cid s")
    case True
    with lim show ?thesis by (intro exI [of _ False]) (simp add: newslab_unfold)
  next
    case False
    obtain b s' where bs: "do_slabs_newslab cid s = Some (b, s')"
      using newslab_correct [OF assms(7), of cid] assms(8,9) unfolding page_fresh_iff class_wf_def by auto
    note m = newslab_charges [OF bs False assms(2,3,6-9)]
    from m bs False lim un show ?thesis
      by (intro exI [of _ b] exI [of _ s']) (auto simp: word_le_nat_alt)
  qed
qed

text \<open>The example allocator with one page of class 1 already in place: the limit of 2048 bytes allows one more.\<close>

definition ex_slab2 :: slab_state where
  "ex_slab2 = ex_slab\<lparr>slabclass := (slabclass ex_slab)(1 := (slabclass ex_slab 1)\<lparr>slabs := 1, slab_list := replicate 16 0, list_size := 16\<rparr>),
     mem_malloced := 1536\<rparr>"

lemma ex_slab2_inv: "slabs_inv ex_slab2 (\<lambda>_. [])"
proof -
  have "slots (slabclass ex_slab2 c) = NULL \<and> sl_curr (slabclass ex_slab2 c) = 0" for c
    by (simp add: ex_slab2_def ex_slab_def empty_class_def)
  then show ?thesis by (simp add: slabs_inv_def free_ok_def dll_def) (simp add: ex_slab2_def ex_slab_def)
qed

theorem newslab_memory_limit_witness:
  "do_slabs_newslab 1 ex_slab2 = Some (False, ex_slab2\<lparr>mem_limit_reached := True\<rparr>)"
proof -
  have f: "mem_limit ex_slab2 = 2048" "mem_base ex_slab2 = 0" "slabs (slabclass ex_slab2 0) = 0"
    "slabs (slabclass ex_slab2 1) = 1" "mem_malloced ex_slab2 = 1536" "page_len 1 ex_slab2 = 1024"
    by (simp_all add: ex_slab2_def ex_slab_def empty_class_def page_len_def ex_settings_def)
  have "class_wf 1 ex_slab2"
    by (simp add: class_wf_def ex_slab2_def ex_slab_def page_len_def ex_settings_def)
  then show ?thesis
    using newslab_memory_limit [of ex_slab2 1 "\<lambda>_. []"] ex_slab2_inv f by (auto simp: free_items_def)
qed

text \<open>
  The class chosen for a size is the smallest that fits: every smaller class is too small,
  and the chosen one is large enough unless the item is bigger than the largest chunk (it is then
  stored in chunks); sizes 0 and above the item limit are refused with class 0.
\<close>

theorem slabs_clsid_best_fit:
  assumes "1 \<le> power_largest s"
  shows "\<exists>r. slabs_clsid_of sz s = Some r \<and>
    (if sz = 0 \<or> item_size_max (settings s) < sz then r = 0
     else 1 \<le> r \<and> r \<le> power_largest s \<and> (\<forall>i. 1 \<le> i \<and> i < r \<longrightarrow> sc_size (slabclass s i) < sz) \<and>
       (sz \<le> sc_size (slabclass s r) \<or> r = power_largest s))"
  using clsid_loop_correct [of 1 s sz] assms by (auto simp: slabs_clsid_of_def)

theorem slabs_clsid_best_fit_witness: "slabs_clsid_of 100 ex_slab = Some 2"
proof -
  have f: "power_largest ex_slab = 2" "item_size_max (settings ex_slab) = 1048576" "sc_size (slabclass ex_slab 1) = 96"
    by (simp_all add: ex_slab_def ex_settings_def)
  obtain r where r: "slabs_clsid_of 100 ex_slab = Some r" "1 \<le> r" "r \<le> 2"
    "100 \<le> sc_size (slabclass ex_slab r) \<or> r = 2"
    using slabs_clsid_best_fit [of ex_slab 100] f(1,2) by auto
  have "r \<noteq> 1" using r(4) f(3) by auto
  with r(2,3) have "r = 2" by simp
  with r(1) show ?thesis by simp
qed



text \<open>
  (C30) Freeing a chunked item gives back its header, to the class the header was taken from, and
  all of its chunks; each becomes free exactly once and nothing else in memory changes.
\<close>

theorem slabs_free_chunked_all:
  assumes "slabs_inv s F" "it \<notin> free_items F" "it \<noteq> NULL" "valid_cls s cid"
    and "has_flag (it_flags (heap s it)) ITEM_CHUNKED"
    and "hc = ITEM_data it (heap s it)" "valid_cls s (unat (orig_clsid (heap s hc)))"
    and "chunk_chain (heap s) (i_next (heap s hc)) cs" "distinct cs" "it \<notin> set cs" "set cs \<inter> free_items F = {}"
    and "\<And>c. c \<in> set cs \<Longrightarrow> valid_cls s (unat (slabs_clsid (heap s c)))"
  shows "\<exists>s' G. slabs_free it sz cid s = Some s' \<and> slabs_inv s' G \<and>
    free_items G = free_items F \<union> insert it (set cs) \<and>
    (\<forall>a. a \<notin> free_items F \<union> insert it (set cs) \<longrightarrow> heap s' a = heap s a)"
proof -
  have "slabs_free it sz cid s = do_slabs_free_chunked it s"
    using assms(4,5) by (simp add: slabs_free_def do_slabs_free_def valid_cls_def)
  then show ?thesis using do_slabs_free_chunked_correct [OF assms(1-3,6-12)] by auto
qed

text \<open>A chunked item at 100 with its header chunk at 149 and one chunk, of class 2, at 4096.\<close>

definition ex_slab3 :: slab_state where
  "ex_slab3 = ex_slab\<lparr>heap := (\<lambda>_. zero_item)(
     100 := zero_item\<lparr>it_flags := ITEM_CHUNKED\<rparr>,
     149 := zero_item\<lparr>i_next := 4096, orig_clsid := 1\<rparr>,
     4096 := zero_item\<lparr>it_flags := ITEM_CHUNK, slabs_clsid := 2, i_prev := 149\<rparr>)\<rparr>"

theorem slabs_free_chunked_all_witness:
  "\<exists>s' G. slabs_free 100 0 1 ex_slab3 = Some s' \<and> free_items G = {100, 4096}"
proof -
  have inv: "slabs_inv ex_slab3 (\<lambda>_. [])"
    using ex_slab_inv by (rule slabs_inv_cong) (simp_all add: ex_slab3_def free_items_def)
  have d: "ITEM_data 100 (heap ex_slab3 100) = 149"
    by (simp add: ex_slab3_def ITEM_data_def sizeof_item_def zero_item_def)
  have v: "valid_cls ex_slab3 1" "valid_cls ex_slab3 2" by (simp_all add: valid_cls_def ex_slab3_def ex_slab_def)
  have h: "heap ex_slab3 100 = zero_item\<lparr>it_flags := ITEM_CHUNKED\<rparr>"
    "heap ex_slab3 149 = zero_item\<lparr>i_next := 4096, orig_clsid := 1\<rparr>"
    "heap ex_slab3 4096 = zero_item\<lparr>it_flags := ITEM_CHUNK, slabs_clsid := 2, i_prev := 149\<rparr>"
    by (simp_all add: ex_slab3_def)
  have "\<exists>s' G. slabs_free 100 0 1 ex_slab3 = Some s' \<and> slabs_inv s' G \<and>
    free_items G = free_items (\<lambda>_. []) \<union> insert 100 (set [4096]) \<and>
    (\<forall>a. a \<notin> free_items (\<lambda>_. []) \<union> insert 100 (set [4096]) \<longrightarrow> heap s' a = heap ex_slab3 a)"
    by (rule slabs_free_chunked_all [OF inv _ _ v(1) _ d [symmetric]])
      (use v in \<open>simp_all add: h free_items_def zero_item_def\<close>)
  then show ?thesis by (auto simp: free_items_def)
qed

text \<open>
  A failing \<^verbatim>\<open>malloc\<close> is charged all the same: \<open>memory_allocate\<close> adds the size to
  \<open>mem_malloced\<close> even when it returns no memory, so each failed attempt brings the memory limit
  closer although nothing was allocated.
\<close>

theorem failed_malloc_is_charged:
  assumes "mem_base s = NULL" "malloc_results s = NULL # ms"
  shows "memory_allocate sz s = (NULL, s\<lparr>malloc_results := ms, mem_malloced := mem_malloced s + of_nat sz\<rparr>)"
  using assms by (simp add: memory_allocate_def c_malloc_def)

theorem failed_malloc_is_charged_witness:
  "mem_malloced (snd (memory_allocate 1024 (ex_slab\<lparr>malloc_results := [0]\<rparr>))) = 1024"
  by (subst failed_malloc_is_charged [where ms = "[]"]) (simp_all add: ex_slab_def)

end
