(* ===== verification/Bipbuffer.thy ===== *)
theory Bipbuffer
  imports Mc_Prelude
begin

text \<open>
  The bip buffer of \<^verbatim>\<open>memory_lru/bipbuffer.c\<close> (the sources under \<^verbatim>\<open>slabs_curd\<close> have the subset that
  the LRU bump queue uses): a circular buffer that always hands out contiguous regions. Cursors
  are \<^verbatim>\<open>unsigned int\<close> and the size \<^verbatim>\<open>unsigned long\<close>; they are integers here and every subtraction of
  the code wraps explicitly. The cells hold values of any type: bytes, or the entries that the bump
  queue stores at their byte offsets.

  The locale \<open>fifo\<close> is the contract of a bounded first-in first-out queue, interpreted on the
  request/push and poll operations.
\<close>

section \<open>Operations\<close>

record 'd bipbuf =
  bb_size :: int
  a_start :: int
  a_end :: int
  b_end :: int
  b_inuse :: bool
  bb_data :: "int \<Rightarrow> 'd"

definition wrap32 :: "int \<Rightarrow> int" where "wrap32 x = x mod 2 ^ 32"
definition wrap64 :: "int \<Rightarrow> int" where "wrap64 x = x mod 2 ^ 64"
definition int32 :: "int \<Rightarrow> int" where
  "int32 x = (let y = x mod 2 ^ 32 in if y < 2 ^ 31 then y else y - 2 ^ 32)"

definition bipbuf_unused :: "'d bipbuf \<Rightarrow> int" where
  "bipbuf_unused me =
     (if b_inuse me then int32 (wrap32 (a_start me - b_end me)) else int32 (wrap64 (bb_size me - a_end me)))"

definition bipbuf_size :: "'d bipbuf \<Rightarrow> int" where
  "bipbuf_size me = int32 (bb_size me)"

definition bipbuf_used :: "'d bipbuf \<Rightarrow> int" where
  "bipbuf_used me = int32 (wrap32 (wrap32 (a_end me - a_start me) + b_end me))"

definition bipbuf_init :: "int \<Rightarrow> 'd bipbuf \<Rightarrow> 'd bipbuf" where
  "bipbuf_init sz me = me\<lparr>a_start := 0, a_end := 0, b_end := 0, bb_size := sz, b_inuse := False\<rparr>"

text \<open>\<open>mem\<close> is what \<^verbatim>\<open>malloc\<close> returned: \<^const>\<open>None\<close> or a block with arbitrary contents.\<close>

definition bipbuf_new :: "int \<Rightarrow> 'd bipbuf option \<Rightarrow> 'd bipbuf option" where
  "bipbuf_new sz mem = map_option (bipbuf_init sz) mem"

definition bipbuf_is_empty :: "'d bipbuf \<Rightarrow> bool" where
  "bipbuf_is_empty me \<longleftrightarrow> a_start me = a_end me"

definition check_for_switch_to_b :: "'d bipbuf \<Rightarrow> 'd bipbuf" where
  "check_for_switch_to_b me =
     (if wrap64 (bb_size me - a_end me) < wrap32 (a_start me - b_end me) then me\<lparr>b_inuse := True\<rparr> else me)"

text \<open>Pointers into the buffer are offsets from \<^verbatim>\<open>me->data\<close>.\<close>

definition bipbuf_request :: "'d bipbuf \<Rightarrow> int \<Rightarrow> int option" where
  "bipbuf_request me sz =
     (if bipbuf_unused me < sz then None
      else if b_inuse me then Some (b_end me) else Some (a_end me))"

definition bipbuf_push :: "int \<Rightarrow> 'd bipbuf \<Rightarrow> int \<times> 'd bipbuf" where
  "bipbuf_push sz me =
     (if bipbuf_unused me < sz then (0, me)
      else let me = (if b_inuse me then me\<lparr>b_end := wrap32 (b_end me + sz)\<rparr>
                     else me\<lparr>a_end := wrap32 (a_end me + sz)\<rparr>)
           in (sz, check_for_switch_to_b me))"

definition bb_memcpy :: "int \<Rightarrow> 'd list \<Rightarrow> 'd bipbuf \<Rightarrow> 'd bipbuf" where
  "bb_memcpy off xs me = me\<lparr>bb_data := (\<lambda>i. if off \<le> i \<and> i < off + int (length xs)
     then xs ! nat (i - off) else bb_data me i)\<rparr>"

definition bipbuf_offer :: "'d list \<Rightarrow> 'd bipbuf \<Rightarrow> int \<times> 'd bipbuf" where
  "bipbuf_offer xs me =
     (let sz = int (length xs)
      in if bipbuf_unused me < sz then (0, me)
         else let me = (if b_inuse me
                        then (bb_memcpy (b_end me) xs me)\<lparr>b_end := wrap32 (b_end me + sz)\<rparr>
                        else (bb_memcpy (b_end me) xs me)\<lparr>a_end := wrap32 (a_end me + sz)\<rparr>)
              in (sz, check_for_switch_to_b me))"

definition bipbuf_peek :: "'d bipbuf \<Rightarrow> int \<Rightarrow> int option" where
  "bipbuf_peek me sz =
     (if bb_size me < wrap32 (a_start me + sz) then None
      else if bipbuf_is_empty me then None else Some (a_start me))"

definition bipbuf_peek_all :: "'d bipbuf \<Rightarrow> (int \<times> int) option" where
  "bipbuf_peek_all me =
     (if bipbuf_is_empty me then None else Some (a_start me, wrap32 (a_end me - a_start me)))"

definition bipbuf_poll :: "int \<Rightarrow> 'd bipbuf \<Rightarrow> int option \<times> 'd bipbuf" where
  "bipbuf_poll sz me =
     (if bipbuf_is_empty me then (None, me)
      else if bb_size me < wrap32 (a_start me + sz) then (None, me)
      else let p = a_start me;
               me = me\<lparr>a_start := wrap32 (a_start me + sz)\<rparr>;
               me = (if a_start me = a_end me then
                       (if b_inuse me then me\<lparr>a_start := 0, a_end := b_end me, b_end := 0, b_inuse := False\<rparr>
                        else me\<lparr>a_start := 0, a_end := 0\<rparr>)
                     else me)
           in (Some p, check_for_switch_to_b me))"

section \<open>Invariant and contents\<close>

definition bb_inv :: "'d bipbuf \<Rightarrow> bool" where
  "bb_inv me \<longleftrightarrow> 0 \<le> a_start me \<and> a_start me \<le> a_end me \<and> a_end me \<le> bb_size me \<and> bb_size me < 2 ^ 31 \<and>
     0 \<le> b_end me \<and> b_end me \<le> a_start me \<and> (\<not> b_inuse me \<longrightarrow> b_end me = 0) \<and>
     (a_start me = a_end me \<longrightarrow> a_start me = 0 \<and> \<not> b_inuse me)"

definition cells :: "(int \<Rightarrow> 'd) \<Rightarrow> int \<Rightarrow> int \<Rightarrow> 'd list" where
  "cells d lo hi = map d [lo..hi - 1]"

text \<open>The queue a buffer represents: region A, then region B.\<close>

definition bb_content :: "'d bipbuf \<Rightarrow> 'd list" where
  "bb_content me = cells (bb_data me) (a_start me) (a_end me) @ cells (bb_data me) 0 (b_end me)"

lemma wrap_small [simp]:
  "0 \<le> x \<Longrightarrow> x < 2 ^ 31 \<Longrightarrow> wrap32 x = x" "0 \<le> x \<Longrightarrow> x < 2 ^ 31 \<Longrightarrow> wrap64 x = x" "0 \<le> x \<Longrightarrow> x < 2 ^ 31 \<Longrightarrow> int32 x = x"
  by (simp_all add: wrap32_def wrap64_def int32_def Let_def)

lemma cells_split: "lo \<le> mid \<Longrightarrow> mid \<le> hi \<Longrightarrow> cells d lo hi = cells d lo mid @ cells d mid hi"
proof -
  assume a: "lo \<le> mid" "mid \<le> hi"
  have "[lo..hi - 1] = [lo..mid - 1] @ [mid..hi - 1]"
    using upto_split1 [of lo "mid" "hi"] a by (cases "mid = hi") (auto intro: upto_split1)
  then show ?thesis by (simp add: cells_def)
qed

lemma cells_empty [simp]: "cells d lo lo = []"
  by (simp add: cells_def)

lemma length_cells [simp]: "length (cells d lo hi) = nat (hi - lo)"
  by (simp add: cells_def)

lemma cells_cong: "(\<And>i. lo \<le> i \<Longrightarrow> i < hi \<Longrightarrow> d i = e i) \<Longrightarrow> cells d lo hi = cells e lo hi"
  by (simp add: cells_def)

lemma cells_memcpy:
  "cells (bb_data (bb_memcpy off xs me)) off (off + int (length xs)) = xs"
  by (rule nth_equalityI) (auto simp: bb_memcpy_def cells_def)

lemma cells_memcpy_other:
  "hi \<le> off \<or> off + int (length xs) \<le> lo \<Longrightarrow> cells (bb_data (bb_memcpy off xs me)) lo hi = cells (bb_data me) lo hi"
  by (rule cells_cong) (auto simp: bb_memcpy_def)

lemma memcpy_fields [simp]:
  "a_start (bb_memcpy off xs me) = a_start me" "a_end (bb_memcpy off xs me) = a_end me"
  "b_end (bb_memcpy off xs me) = b_end me" "b_inuse (bb_memcpy off xs me) = b_inuse me"
  "bb_size (bb_memcpy off xs me) = bb_size me"
  by (simp_all add: bb_memcpy_def)

lemma unused_memcpy [simp]: "bipbuf_unused (bb_memcpy off xs me) = bipbuf_unused me"
  by (simp add: bipbuf_unused_def)

lemma unused_eq:
  "bb_inv me \<Longrightarrow> bipbuf_unused me = (if b_inuse me then a_start me - b_end me else bb_size me - a_end me)"
  by (auto simp: bipbuf_unused_def bb_inv_def)

lemma switch_fields [simp]:
  "a_start (check_for_switch_to_b me) = a_start me" "a_end (check_for_switch_to_b me) = a_end me"
  "b_end (check_for_switch_to_b me) = b_end me" "bb_size (check_for_switch_to_b me) = bb_size me"
  "bb_data (check_for_switch_to_b me) = bb_data me"
  by (simp_all add: check_for_switch_to_b_def)

lemma switch_inv:
  assumes "0 \<le> a_start me" "a_start me \<le> a_end me" "a_end me \<le> bb_size me" "bb_size me < 2 ^ 31"
    "0 \<le> b_end me" "b_end me \<le> a_start me" "\<not> b_inuse me \<longrightarrow> b_end me = 0"
    "a_start me = a_end me \<longrightarrow> a_start me = 0 \<and> \<not> b_inuse me"
  shows "bb_inv (check_for_switch_to_b me)"
  using assms by (auto simp: check_for_switch_to_b_def bb_inv_def)

lemma switch_content [simp]: "bb_content (check_for_switch_to_b me) = bb_content me"
  by (simp add: bb_content_def)

lemma bipbuf_init_inv:
  "0 \<le> sz \<Longrightarrow> sz < 2 ^ 31 \<Longrightarrow> bb_inv (bipbuf_init sz me) \<and> bb_content (bipbuf_init sz me) = []"
  by (simp add: bipbuf_init_def bb_inv_def bb_content_def)

section \<open>The buffer as a queue\<close>

text \<open>Reserve, fill and commit, the way the users of the buffer enqueue.\<close>

definition bb_put :: "'d list \<Rightarrow> 'd bipbuf \<Rightarrow> 'd bipbuf option" where
  "bb_put xs me = (case bipbuf_request me (int (length xs)) of
     None \<Rightarrow> None
   | Some off \<Rightarrow> Some (snd (bipbuf_push (int (length xs)) (bb_memcpy off xs me))))"

definition bb_get :: "nat \<Rightarrow> 'd bipbuf \<Rightarrow> ('d list \<times> 'd bipbuf) option" where
  "bb_get n me = (case bipbuf_poll (int n) me of
     (None, _) \<Rightarrow> None
   | (Some p, me') \<Rightarrow> Some (cells (bb_data me) p (p + int n), me'))"

lemma bb_put_correct:
  assumes inv: "bb_inv me" and room: "int (length xs) \<le> bipbuf_unused me" and ne: "xs \<noteq> []"
  shows "\<exists>me'. bb_put xs me = Some me' \<and> bb_inv me' \<and> bb_content me' = bb_content me @ xs \<and> bb_size me' = bb_size me"
proof -
  let ?n = "int (length xs)"
  note un = unused_eq [OF inv]
  have pos: "0 < ?n" using ne by simp
  show ?thesis
  proof (cases "b_inuse me")
    case True
    let ?m = "bb_memcpy (b_end me) xs me"
    have r: "?n \<le> a_start me - b_end me" using room un True by simp
    have w: "wrap32 (b_end me + ?n) = b_end me + ?n" using inv r by (intro wrap_small(1)) (auto simp: bb_inv_def)
    have e: "bb_put xs me = Some (check_for_switch_to_b (?m\<lparr>b_end := b_end me + ?n\<rparr>))"
      using True room w by (simp add: bb_put_def bipbuf_request_def bipbuf_push_def Let_def)
    have "bb_inv (check_for_switch_to_b (?m\<lparr>b_end := b_end me + ?n\<rparr>))"
      by (rule switch_inv) (use inv r True in \<open>auto simp: bb_inv_def\<close>)
    moreover have "cells (bb_data ?m) 0 (b_end me + ?n) = cells (bb_data me) 0 (b_end me) @ xs"
      using inv cells_split [of 0 "b_end me" "b_end me + ?n" "bb_data ?m"]
      by (simp add: cells_memcpy cells_memcpy_other bb_inv_def)
    moreover have "cells (bb_data ?m) (a_start me) (a_end me) = cells (bb_data me) (a_start me) (a_end me)"
      using r by (intro cells_memcpy_other) simp
    moreover have "bb_size (check_for_switch_to_b (?m\<lparr>b_end := b_end me + ?n\<rparr>)) = bb_size me"
      by (simp add: check_for_switch_to_b_def)
    ultimately show ?thesis using e by (auto simp: bb_content_def)
  next
    case False
    let ?m = "bb_memcpy (a_end me) xs me"
    have r: "?n \<le> bb_size me - a_end me" using room un False by simp
    have w: "wrap32 (a_end me + ?n) = a_end me + ?n" using inv r by (intro wrap_small(1)) (auto simp: bb_inv_def)
    have e: "bb_put xs me = Some (check_for_switch_to_b (?m\<lparr>a_end := a_end me + ?n\<rparr>))"
      using False room w by (simp add: bb_put_def bipbuf_request_def bipbuf_push_def Let_def)
    have "bb_inv (check_for_switch_to_b (?m\<lparr>a_end := a_end me + ?n\<rparr>))"
      by (rule switch_inv) (use inv r False pos in \<open>auto simp: bb_inv_def\<close>)
    moreover have "cells (bb_data ?m) (a_start me) (a_end me + ?n) = cells (bb_data me) (a_start me) (a_end me) @ xs"
      using inv cells_split [of "a_start me" "a_end me" "a_end me + ?n" "bb_data ?m"]
      by (simp add: cells_memcpy cells_memcpy_other bb_inv_def)
    moreover have "b_end me = 0" using inv False by (simp add: bb_inv_def)
    moreover have "bb_size (check_for_switch_to_b (?m\<lparr>a_end := a_end me + ?n\<rparr>)) = bb_size me"
      by (simp add: check_for_switch_to_b_def)
    ultimately show ?thesis using e by (auto simp: bb_content_def)
  qed
qed

lemma bb_get_correct:
  assumes inv: "bb_inv me" and n: "0 < n" "int n \<le> a_end me - a_start me"
  shows "\<exists>me'. bb_get n me = Some (take n (bb_content me), me') \<and> bb_inv me' \<and> bb_content me' = drop n (bb_content me)"
proof -
  have w: "wrap32 (a_start me + int n) = a_start me + int n" using inv n by (intro wrap_small(1)) (auto simp: bb_inv_def)
  have ne: "\<not> bipbuf_is_empty me" using n by (auto simp: bipbuf_is_empty_def)
  have sz: "\<not> bb_size me < a_start me + int n" using inv n by (auto simp: bb_inv_def)
  have sp: "cells (bb_data me) (a_start me) (a_end me) =
      cells (bb_data me) (a_start me) (a_start me + int n) @ cells (bb_data me) (a_start me + int n) (a_end me)"
    using n by (intro cells_split) auto
  have tk: "take n (bb_content me) = cells (bb_data me) (a_start me) (a_start me + int n)"
    "drop n (bb_content me) = cells (bb_data me) (a_start me + int n) (a_end me) @ cells (bb_data me) 0 (b_end me)"
    by (simp_all add: bb_content_def sp)
  show ?thesis
  proof (cases "a_start me + int n = a_end me")
    case True
    let ?m = "if b_inuse me then me\<lparr>a_start := 0, a_end := b_end me, b_end := 0, b_inuse := False\<rparr>
       else me\<lparr>a_start := 0, a_end := 0\<rparr>"
    have e: "bb_get n me = Some (take n (bb_content me), check_for_switch_to_b ?m)"
      using ne sz w True by (simp add: bb_get_def bipbuf_poll_def Let_def tk)
    have "bb_inv (check_for_switch_to_b ?m)"
      by (rule switch_inv) (use inv in \<open>auto simp: bb_inv_def\<close>)
    moreover have "bb_content (check_for_switch_to_b ?m) = drop n (bb_content me)"
      using inv True by (auto simp: tk bb_content_def bb_inv_def)
    ultimately show ?thesis using e by blast
  next
    case False
    let ?m = "me\<lparr>a_start := a_start me + int n\<rparr>"
    have e: "bb_get n me = Some (take n (bb_content me), check_for_switch_to_b ?m)"
      using ne sz w False by (simp add: bb_get_def bipbuf_poll_def Let_def tk)
    have "bb_inv (check_for_switch_to_b ?m)"
      by (rule switch_inv) (use inv n False in \<open>auto simp: bb_inv_def\<close>)
    moreover have "bb_content (check_for_switch_to_b ?m) = drop n (bb_content me)"
      by (simp add: tk(2)) (simp add: bb_content_def)
    ultimately show ?thesis using e by blast
  qed
qed

lemma bb_empty_iff:
  assumes "bb_inv me" shows "bipbuf_is_empty me \<longleftrightarrow> bb_content me = []"
proof -
  have "bb_content me = [] \<longleftrightarrow> a_end me \<le> a_start me \<and> b_end me \<le> 0"
    by (auto simp: bb_content_def cells_def)
  then show ?thesis using assms by (auto simp: bipbuf_is_empty_def bb_inv_def)
qed

text \<open>
  A bounded queue: \<open>room\<close> is what a single \<open>put\<close> may add, \<open>front\<close> what a single \<open>get\<close> may take.
\<close>

locale fifo =
  fixes inv :: "'s \<Rightarrow> bool" and content :: "'s \<Rightarrow> 'a list" and room :: "'s \<Rightarrow> int" and front :: "'s \<Rightarrow> nat"
    and put :: "'a list \<Rightarrow> 's \<Rightarrow> 's option" and get :: "nat \<Rightarrow> 's \<Rightarrow> ('a list \<times> 's) option"
  assumes put_law: "inv s \<Longrightarrow> xs \<noteq> [] \<Longrightarrow> int (length xs) \<le> room s \<Longrightarrow>
      \<exists>s'. put xs s = Some s' \<and> inv s' \<and> content s' = content s @ xs"
    and put_full: "inv s \<Longrightarrow> room s < int (length xs) \<Longrightarrow> put xs s = None"
    and get_law: "inv s \<Longrightarrow> 0 < n \<Longrightarrow> n \<le> front s \<Longrightarrow>
      \<exists>s'. get n s = Some (take n (content s), s') \<and> inv s' \<and> content s' = drop n (content s)"
    and front_bound: "inv s \<Longrightarrow> content s \<noteq> [] \<Longrightarrow> 0 < front s \<and> front s \<le> length (content s)"
begin

lemma put_in_order:
  assumes "inv s" "xs \<noteq> []" "int (length xs) \<le> room s" "put xs s = Some s'" "ys \<noteq> []" "int (length ys) \<le> room s'"
  shows "\<exists>s''. put ys s' = Some s'' \<and> inv s'' \<and> content s'' = content s @ xs @ ys"
proof -
  have s': "inv s'" "content s' = content s @ xs" using put_law [OF assms(1-3)] assms(4) by auto
  from put_law [OF s'(1) assms(5,6)] s'(2) show ?thesis by auto
qed

text \<open>Whatever is in the queue can be taken out, in order, by finitely many gets.\<close>

lemma drain:
  "inv s \<Longrightarrow> \<exists>ns s'. fold (\<lambda>n r. case r of None \<Rightarrow> None
      | Some (out, s) \<Rightarrow> (case get n s of None \<Rightarrow> None | Some (xs, s) \<Rightarrow> Some (out @ xs, s))) ns (Some (out, s)) =
    Some (out @ content s, s') \<and> inv s' \<and> content s' = []"
proof (induction "length (content s)" arbitrary: s out rule: less_induct)
  case less
  show ?case
  proof (cases "content s = []")
    case True
    with less.prems show ?thesis by (intro exI [of _ "[]"]) auto
  next
    case False
    let ?n = "front s"
    have n: "0 < ?n" "?n \<le> length (content s)" using front_bound [OF less.prems False] by auto
    obtain t where t: "get ?n s = Some (take ?n (content s), t)" "inv t" "content t = drop ?n (content s)"
      using get_law [OF less.prems n(1)] by blast
    have "length (content t) < length (content s)" using t(3) n by simp
    from less.hyps [OF this t(2), of "out @ take ?n (content s)"] obtain ns s' where
      r: "fold (\<lambda>n r. case r of None \<Rightarrow> None
      | Some (out, s) \<Rightarrow> (case get n s of None \<Rightarrow> None | Some (xs, s) \<Rightarrow> Some (out @ xs, s))) ns
        (Some (out @ take ?n (content s), t)) = Some ((out @ take ?n (content s)) @ content t, s')"
      "inv s'" "content s' = []" by blast
    show ?thesis
      by (intro exI [of _ "?n # ns"] exI [of _ s']) (use r t in simp)
  qed
qed

end

interpretation bip: fifo bb_inv bb_content bipbuf_unused "\<lambda>me. nat (a_end me - a_start me)" bb_put bb_get
proof (unfold_locales, goal_cases)
  case (1 s xs)
  then show ?case using bb_put_correct by blast
next
  case (2 s xs)
  then show ?case by (simp add: bb_put_def bipbuf_request_def)
next
  case (3 s n)
  then have "int n \<le> a_end s - a_start s" by auto
  with 3 show ?case using bb_get_correct by blast
next
  case (4 s)
  then have "\<not> bipbuf_is_empty s" using bb_empty_iff by blast
  with 4 show ?case by (auto simp: bipbuf_is_empty_def bb_inv_def bb_content_def)
qed

section \<open>Properties\<close>

text \<open>
  (C8) The bip buffer is a bounded first-in first-out queue: requesting, filling and pushing
  \<open>xs\<close> appends exactly \<open>xs\<close> whenever it fits into the free contiguous space and otherwise refuses it
  unchanged; polling from region A removes the oldest cells; the emptiness test is exact.
\<close>

theorem bipbuf_is_fifo:
  assumes "bb_inv me" "xs \<noteq> []"
  shows "(if int (length xs) \<le> bipbuf_unused me
      then \<exists>me'. bb_put xs me = Some me' \<and> bb_inv me' \<and> bb_content me' = bb_content me @ xs
      else bb_put xs me = None) \<and>
    (\<forall>n. 0 < n \<and> int n \<le> a_end me - a_start me \<longrightarrow>
      (\<exists>me'. bb_get n me = Some (take n (bb_content me), me') \<and> bb_inv me' \<and> bb_content me' = drop n (bb_content me))) \<and>
    (bipbuf_is_empty me \<longleftrightarrow> bb_content me = [])"
  using bip.put_law [OF assms] bip.put_full [OF assms(1), of xs] bb_get_correct [OF assms(1)] bb_empty_iff [OF assms(1)]
  by auto

definition ex_bip :: "nat bipbuf" where
  "ex_bip = bipbuf_init 4 \<lparr>bb_size = 0, a_start = 0, a_end = 0, b_end = 0, b_inuse = False, bb_data = (\<lambda>_. 0)\<rparr>"

theorem bipbuf_is_fifo_witness:
  "\<exists>me'. bb_put [7, 8] ex_bip = Some me' \<and> bb_content me' = [7, 8]"
proof -
  have i: "bb_inv ex_bip \<and> bb_content ex_bip = []" unfolding ex_bip_def by (rule bipbuf_init_inv) auto
  have u: "bipbuf_unused ex_bip = 4" by (simp add: ex_bip_def bipbuf_init_def bipbuf_unused_def wrap64_def int32_def)
  show ?thesis using bipbuf_is_fifo [of ex_bip "[7, 8]"] i u by auto
qed

text \<open>
  Everything put into the buffer comes out once, in order: from any reachable buffer a finite
  sequence of polls of region A returns the whole contents and leaves the buffer empty.
\<close>

theorem bipbuf_drains:
  assumes "bb_inv me"
  shows "\<exists>ns me'. fold (\<lambda>n r. case r of None \<Rightarrow> None
      | Some (out, s) \<Rightarrow> (case bb_get n s of None \<Rightarrow> None | Some (xs, s) \<Rightarrow> Some (out @ xs, s))) ns (Some ([], me)) =
    Some (bb_content me, me') \<and> bb_inv me' \<and> bipbuf_is_empty me'"
  using bip.drain [OF assms, of "[]"] bb_empty_iff by auto

theorem bipbuf_drains_witness: "\<exists>me'. bb_inv me' \<and> bipbuf_is_empty (me' :: nat bipbuf)"
proof -
  have "bb_inv ex_bip" unfolding ex_bip_def by (simp add: bipbuf_init_inv)
  from bipbuf_drains [OF this] show ?thesis by blast
qed

text \<open>
  \<open>bipbuf_offer\<close> does not enqueue: outside region B it copies to \<^verbatim>\<open>data + b_end\<close> where the free
  space starts at \<^verbatim>\<open>data + a_end\<close>. Offering 7 and then 8 to an empty buffer of four cells reports
  success twice and leaves the contents 8 followed by an uninitialised cell.
\<close>

theorem bipbuf_offer_overwrites:
  "fst (bipbuf_offer [7] ex_bip) = 1 \<and> fst (bipbuf_offer [8] (snd (bipbuf_offer [7] ex_bip))) = 1 \<and>
   bb_content (snd (bipbuf_offer [8] (snd (bipbuf_offer [7] ex_bip)))) = [8, 0]"
  by (simp add: ex_bip_def bipbuf_init_def bipbuf_offer_def bipbuf_unused_def wrap64_def int32_def wrap32_def Let_def
      bb_memcpy_def check_for_switch_to_b_def bb_content_def cells_def upto.simps)

end
