(* ===== verification/Util.thy ===== *)
theory Util
  imports Mc_Prelude
begin

text \<open>
  Number conversion: \<^verbatim>\<open>safe_strtoull\<close> of \<^verbatim>\<open>slabs_curd/util.c\<close> on top of the C library's \<^verbatim>\<open>strtoull\<close>,
  the decimal output of \<^verbatim>\<open>snprintf\<close>, and the raw four-byte form in which an item keeps its client
  flags. A string is the list of its bytes up to the terminating NUL.
\<close>

section \<open>C library\<close>

definition c_isspace :: "8 word \<Rightarrow> bool" where
  "c_isspace c \<longleftrightarrow> c = 32 \<or> 9 \<le> c \<and> c \<le> 13"

definition c_isdigit :: "8 word \<Rightarrow> bool" where
  "c_isdigit c \<longleftrightarrow> 48 \<le> c \<and> c \<le> 57"

definition digits_value :: "bytes \<Rightarrow> nat" where
  "digits_value ds = foldl (\<lambda>a c. a * 10 + (unat c - 48)) 0 ds"

text \<open>\<open>(value, rest at endptr, errno = ERANGE)\<close>; without a digit \<^verbatim>\<open>endptr\<close> is the start of the string.\<close>

definition c_strtoull :: "bytes \<Rightarrow> u64 \<times> bytes \<times> bool" where
  "c_strtoull str =
     (let r = dropWhile c_isspace str;
          neg = (r \<noteq> [] \<and> hd r = 45);
          r = (if r \<noteq> [] \<and> (hd r = 45 \<or> hd r = 43) then tl r else r);
          ds = takeWhile c_isdigit r;
          v = digits_value ds
      in if ds = [] then (0, str, False)
         else if 2 ^ 64 \<le> v then (- 1, dropWhile c_isdigit r, True)
         else ((if neg then - of_nat v else of_nat v), dropWhile c_isdigit r, False))"

function print_nat :: "nat \<Rightarrow> bytes" where
  "print_nat n = (if n < 10 then [of_nat (48 + n)] else print_nat (n div 10) @ [of_nat (48 + n mod 10)])"
  by pat_completeness auto
termination by (relation "measure (\<lambda>n. n)") auto

declare print_nat.simps [simp del]

definition print_int :: "int \<Rightarrow> bytes" where
  "print_int i = (if i < 0 then 45 # print_nat (nat (- i)) else print_nat (nat i))"

definition CRLF :: bytes where "CRLF = [13, 10]"

definition ascii :: "string \<Rightarrow> bytes" where
  "ascii str = map of_char str"

section \<open>Conversions of the program\<close>

definition safe_strtoull :: "bytes \<Rightarrow> u64 option" where
  "safe_strtoull str =
     (case c_strtoull str of (ull, endptr, erange) \<Rightarrow>
        if erange \<or> endptr = str then None
        else if (endptr \<noteq> [] \<and> c_isspace (hd endptr)) \<or> endptr = [] then
          (if sint ull < 0 \<and> 45 \<in> set str then None else Some ull)
        else None)"

definition u32_to_bytes :: "u32 \<Rightarrow> bytes" where
  "u32_to_bytes w = [ucast w, ucast (drop_bit 8 w), ucast (drop_bit 16 w), ucast (drop_bit 24 w)]"

definition bytes_to_u32 :: "bytes \<Rightarrow> u32" where
  "bytes_to_u32 bs = ucast (bs ! 0) OR push_bit 8 (ucast (bs ! 1)) OR push_bit 16 (ucast (bs ! 2))
     OR push_bit 24 (ucast (bs ! 3))"

section \<open>Printing and parsing\<close>

lemma digit_facts:
  assumes "d < 10"
  shows "c_isdigit (of_nat (48 + d))" "unat (of_nat (48 + d) :: 8 word) - 48 = d"
    "\<not> c_isspace (of_nat (48 + d))" "(of_nat (48 + d) :: 8 word) \<noteq> 45" "(of_nat (48 + d) :: 8 word) \<noteq> 43"
proof -
  have u: "unat (of_nat (48 + d) :: 8 word) = 48 + d" using assms by (simp add: unat_of_nat take_bit_nat_eq_self del: of_nat_add)
  show "c_isdigit (of_nat (48 + d))" using u assms by (simp add: c_isdigit_def word_le_nat_alt del: of_nat_add)
  show "unat (of_nat (48 + d) :: 8 word) - 48 = d" using u by simp
  have ne: "(of_nat (48 + d) :: 8 word) \<noteq> c" if "unat c < 48" for c using u that by (metis le_add1 not_le)
  show "(of_nat (48 + d) :: 8 word) \<noteq> 45" "(of_nat (48 + d) :: 8 word) \<noteq> 43" by (rule ne; simp)+
  show "\<not> c_isspace (of_nat (48 + d))"
    using u by (simp add: c_isspace_def word_le_nat_alt ne del: of_nat_add)
qed

lemma digits_value_snoc: "digits_value (ds @ [c]) = digits_value ds * 10 + (unat c - 48)"
  by (simp add: digits_value_def)

lemma print_nat_digits: "print_nat n \<noteq> [] \<and> (\<forall>c \<in> set (print_nat n). c_isdigit c) \<and> digits_value (print_nat n) = n"
proof (induction n rule: less_induct)
  case (less n)
  show ?case
  proof (cases "n < 10")
    case True
    then show ?thesis using digit_facts(1,2) [OF True]
      by (subst (1 2 3) print_nat.simps) (simp add: digits_value_def del: of_nat_add)
  next
    case False
    then have lt: "n div 10 < n" by simp
    have m: "n mod 10 < 10" by simp
    show ?thesis using less.IH [OF lt] digit_facts(1,2) [OF m] False
      by (subst (1 2 3) print_nat.simps) (simp add: digits_value_snoc del: of_nat_add)
  qed
qed

lemma isdigit_not:
  "c_isdigit c \<Longrightarrow> \<not> c_isspace c \<and> c \<noteq> 45 \<and> c \<noteq> 43"
  by (auto simp: c_isdigit_def c_isspace_def word_le_nat_alt)

lemma strtoull_digits:
  assumes "ds \<noteq> []" "\<forall>c \<in> set ds. c_isdigit c" "rest = [] \<or> \<not> c_isdigit (hd rest)"
  shows "c_strtoull (ds @ rest) =
    (if 2 ^ 64 \<le> digits_value ds then (- 1, rest, True) else (of_nat (digits_value ds), rest, False))"
proof -
  obtain d ds' where d: "ds = d # ds'" using assms(1) by (cases ds) auto
  have h: "c_isdigit d" using assms(2) d by simp
  have tw: "takeWhile c_isdigit (ds @ rest) = ds" "dropWhile c_isdigit (ds @ rest) = rest"
    using assms(2,3) by (cases rest; simp add: takeWhile_append2 dropWhile_append2)+
  have dw: "dropWhile c_isspace (ds @ rest) = ds @ rest" using isdigit_not [OF h] d by simp
  have hd: "hd (ds @ rest) = d" using d by simp
  show ?thesis unfolding c_strtoull_def Let_def dw hd
    using isdigit_not [OF h] tw assms(1) by simp
qed

lemma safe_strtoull_print:
  assumes "rest = [] \<or> c_isspace (hd rest)" "45 \<notin> set rest"
  shows "safe_strtoull (print_nat (unat (v :: u64)) @ rest) = Some v"
proof -
  note p = print_nat_digits [of "unat v"]
  have lt: "unat v < 2 ^ 64" using unsigned_less [of v, where 'a = nat] by simp
  have r: "rest = [] \<or> \<not> c_isdigit (hd rest)" using assms(1) isdigit_not by blast
  have e: "c_strtoull (print_nat (unat v) @ rest) = (v, rest, False)"
    using strtoull_digits [of "print_nat (unat v)" rest] p r lt by simp
  have "45 \<notin> set (print_nat (unat v))" using p isdigit_not by blast
  then show ?thesis using assms p by (auto simp: safe_strtoull_def e)
qed

lemma u32_bytes_roundtrip: "bytes_to_u32 (u32_to_bytes w) = w"
proof (rule bit_word_eqI)
  fix n assume n: "n < LENGTH(32)"
  then consider "n < 8" | "8 \<le> n" "n < 16" | "16 \<le> n" "n < 24" | "24 \<le> n" "n < 32" by fastforce
  then show "bit (bytes_to_u32 (u32_to_bytes w)) n \<longleftrightarrow> bit w n"
    by cases (auto simp: bytes_to_u32_def u32_to_bytes_def bit_or_iff bit_push_bit_iff bit_ucast_iff bit_drop_bit_eq)
qed

section \<open>Properties\<close>

text \<open>
  (C39) Printing and parsing agree: the decimal text of any 64-bit value, alone or followed by
  white space such as the trailing CR LF of an item's data, is read back as that value.
\<close>

theorem safe_strtoull_roundtrip:
  assumes "rest = [] \<or> c_isspace (hd rest)" "45 \<notin> set rest"
  shows "safe_strtoull (print_nat (unat (v :: u64)) @ rest) = Some v"
  by (rule safe_strtoull_print [OF assms])

theorem safe_strtoull_roundtrip_witness: "safe_strtoull (print_nat 1700 @ CRLF) = Some 1700"
  using safe_strtoull_roundtrip [of CRLF 1700] by (simp add: CRLF_def c_isspace_def)

text \<open>
  (C40) A number out of the 64-bit range, or followed by anything but white space, is refused: no
  digit string of value at least 2 ^ 64 parses, and no accepted text continues with another
  character.
\<close>

theorem safe_strtoull_rejects:
  assumes "ds \<noteq> []" "\<forall>c \<in> set ds. c_isdigit c" "rest = [] \<or> \<not> c_isdigit (hd rest)"
    and "2 ^ 64 \<le> digits_value ds \<or> (rest \<noteq> [] \<and> \<not> c_isspace (hd rest))"
  shows "safe_strtoull (ds @ rest) = None"
  using assms(1,4) by (auto simp: safe_strtoull_def strtoull_digits [OF assms(1-3)])

theorem safe_strtoull_rejects_witness: "safe_strtoull ([49, 50] @ [97]) = None"
  by (rule safe_strtoull_rejects) (simp_all add: c_isdigit_def c_isspace_def)

text \<open>
  Negative numbers are not always refused: the sign check looks for a minus only when the
  wrapped value has its top bit set, so the text -18446744073709551615 is accepted as 1.
\<close>

theorem safe_strtoull_accepts_negative:
  "safe_strtoull (45 # print_nat 18446744073709551615) = Some 1"
proof -
  let ?ds = "print_nat 18446744073709551615"
  note p = print_nat_digits [of 18446744073709551615]
  have nd: "\<not> c_isspace 45" by (simp add: c_isspace_def)
  have tw: "takeWhile c_isdigit ?ds = ?ds" "dropWhile c_isdigit ?ds = []" using p by auto
  have "c_strtoull (45 # ?ds) = (1, [], False)"
    unfolding c_strtoull_def Let_def using p nd by (simp add: tw)
  then show ?thesis by (simp add: safe_strtoull_def)
qed

end
