(* ===== verification/Items.thy ===== *)
theory Items
  imports Slabs Bipbuffer Util
begin

text \<open>
  Items, the LRU queues and the item operations of \<^verbatim>\<open>slabs_curd/items.c\<close>. The state adds the queue
  heads and tails, the per-queue counters, the size histogram, the CAS counter, the global and
  the calling thread's statistics and the thread's bump buffer. Arrays of \<^verbatim>\<open>LARGEST_ID\<close> = 256 entries
  are functions of the 8-bit queue id (slab class, with the LRU segment in the top two bits).

  The LRU, statistics and CAS mutexes are only ever held around the statements they protect, so
  they leave no trace in the sequential model; the item locks do, because \<open>lru_pull_tail\<close> tries to
  take them while its caller may hold one. \<^verbatim>\<open>EXTSTORE\<close> is off, so \<^verbatim>\<open>STORAGE_delete\<close> is empty. Log
  and debug output is left out.
\<close>

section \<open>State\<close>

record itemstats_t =
  evicted :: u64
  evicted_nonzero :: u64
  reclaimed :: u64
  outofmemory :: u64
  tailrepairs :: u64
  expired_unfetched :: u64
  evicted_unfetched :: u64
  evicted_active :: u64
  crawler_reclaimed :: u64
  crawler_items_checked :: u64
  lrutail_reflocked :: u64
  moves_to_cold :: u64
  moves_to_warm :: u64
  moves_within_lru :: u64
  direct_reclaims :: u64
  hits_to_hot :: u64
  hits_to_warm :: u64
  hits_to_cold :: u64
  hits_to_temp :: u64
  evicted_time :: u32

record thread_stats =
  get_flushed :: u64
  get_expired :: u64
  cas_misses :: u64
  incr_hits :: "u8 \<Rightarrow> u64"
  decr_hits :: "u8 \<Rightarrow> u64"
  cas_hits :: "u8 \<Rightarrow> u64"
  cas_badval :: "u8 \<Rightarrow> u64"

type_synonym lru_bump_entry = "addr \<times> u32"

record lru_state = slab_state +
  heads :: "u8 \<Rightarrow> addr"
  tails :: "u8 \<Rightarrow> addr"
  itemstats :: "u8 \<Rightarrow> itemstats_t"
  sizes :: "u8 \<Rightarrow> u32"
  sizes_bytes :: "u8 \<Rightarrow> u64"
  stats_sizes_hist :: "u32 list option"
  stats_sizes_cas_min :: u64
  stats_sizes_buckets :: nat
  cas_id :: u64
  curr_bytes :: u64
  curr_items :: u64
  total_items :: u64
  tstats :: thread_stats
  bump_buf :: "lru_bump_entry bipbuf"
  bump_dropped :: u64

definition upd_itemstats :: "u8 \<Rightarrow> (itemstats_t \<Rightarrow> itemstats_t) \<Rightarrow> 'z lru_state_scheme \<Rightarrow> 'z lru_state_scheme" where
  "upd_itemstats i f s = s\<lparr>itemstats := (itemstats s)(i := f (itemstats s i))\<rparr>"

abbreviation (input) ITEM_UPDATE_INTERVAL :: u32 where "ITEM_UPDATE_INTERVAL \<equiv> 60"

section \<open>Counters\<close>

definition get_cas_id :: "'z lru_state_scheme \<Rightarrow> u64 \<times> 'z lru_state_scheme" where
  "get_cas_id s = (let next_id = cas_id s + 1 in (next_id, s\<lparr>cas_id := next_id\<rparr>))"

definition temp_lru_size :: "nat \<Rightarrow> 'z lru_state_scheme \<Rightarrow> u32" where
  "temp_lru_size cid s = ucast (sizes_bytes s (CLEAR_LRU (word_of_nat cid) OR TEMP_LRU))"

definition sizes_bucket :: "item \<Rightarrow> nat" where
  "sizes_bucket it = (let ntotal = unat (ITEM_ntotal it)
     in if ntotal mod 32 \<noteq> 0 then ntotal div 32 + 1 else ntotal div 32)"

definition item_stats_sizes_add :: "addr \<Rightarrow> 'z lru_state_scheme \<Rightarrow> 'z lru_state_scheme" where
  "item_stats_sizes_add it s = (case stats_sizes_hist s of None \<Rightarrow> s
     | Some h \<Rightarrow>
         if ITEM_get_cas (heap s it) < stats_sizes_cas_min s then s
         else let bucket = sizes_bucket (heap s it)
              in if bucket < stats_sizes_buckets s then s\<lparr>stats_sizes_hist := Some (h[bucket := h ! bucket + 1])\<rparr> else s)"

definition item_stats_sizes_remove :: "addr \<Rightarrow> 'z lru_state_scheme \<Rightarrow> 'z lru_state_scheme" where
  "item_stats_sizes_remove it s = (case stats_sizes_hist s of None \<Rightarrow> s
     | Some h \<Rightarrow>
         if ITEM_get_cas (heap s it) < stats_sizes_cas_min s then s
         else let bucket = sizes_bucket (heap s it)
              in if bucket < stats_sizes_buckets s then s\<lparr>stats_sizes_hist := Some (h[bucket := h ! bucket - 1])\<rparr> else s)"

section \<open>LRU queues\<close>

definition do_item_link_q :: "addr \<Rightarrow> 'z lru_state_scheme \<Rightarrow> 'z lru_state_scheme option" where
  "do_item_link_q it s = do {
     c_assert (\<not> has_flag (it_flags (heap s it)) ITEM_SLABBED);
     let c = slabs_clsid (heap s it);
     let hp = heads s c;
     let tp = tails s c;
     c_assert (it \<noteq> hp);
     c_assert ((hp \<noteq> NULL \<and> tp \<noteq> NULL) \<or> (hp = NULL \<and> tp = NULL));
     let s = upd_item it (\<lambda>i. i\<lparr>i_prev := NULL, i_next := hp\<rparr>) s;
     let s = (if hp \<noteq> NULL then upd_item hp (\<lambda>i. i\<lparr>i_prev := it\<rparr>) s else s);
     let s = s\<lparr>heads := (heads s)(c := it)\<rparr>;
     let s = (if tp = NULL then s\<lparr>tails := (tails s)(c := it)\<rparr> else s);
     Some (s\<lparr>sizes := (sizes s)(c := sizes s c + 1),
             sizes_bytes := (sizes_bytes s)(c := sizes_bytes s c + ITEM_ntotal (heap s it))\<rparr>)
   }"

definition item_link_q :: "addr \<Rightarrow> 'z lru_state_scheme \<Rightarrow> 'z lru_state_scheme option" where
  "item_link_q it s = do_item_link_q it s"

definition item_link_q_warm :: "addr \<Rightarrow> 'z lru_state_scheme \<Rightarrow> 'z lru_state_scheme option" where
  "item_link_q_warm it s = do {
     s \<leftarrow> do_item_link_q it s;
     Some (upd_itemstats (slabs_clsid (heap s it)) (\<lambda>st. st\<lparr>moves_to_warm := moves_to_warm st + 1\<rparr>) s)
   }"

definition do_item_unlink_q :: "addr \<Rightarrow> 'z lru_state_scheme \<Rightarrow> 'z lru_state_scheme option" where
  "do_item_unlink_q it s = do {
     let c = slabs_clsid (heap s it);
     let nx = i_next (heap s it);
     let pv = i_prev (heap s it);
     c_assert (heads s c = it \<longrightarrow> pv = NULL);
     let s = (if heads s c = it then s\<lparr>heads := (heads s)(c := nx)\<rparr> else s);
     c_assert (tails s c = it \<longrightarrow> nx = NULL);
     let s = (if tails s c = it then s\<lparr>tails := (tails s)(c := pv)\<rparr> else s);
     c_assert (nx \<noteq> it);
     c_assert (pv \<noteq> it);
     let s = (if nx \<noteq> NULL then upd_item nx (\<lambda>i. i\<lparr>i_prev := pv\<rparr>) s else s);
     let s = (if pv \<noteq> NULL then upd_item pv (\<lambda>i. i\<lparr>i_next := nx\<rparr>) s else s);
     Some (s\<lparr>sizes := (sizes s)(c := sizes s c - 1),
             sizes_bytes := (sizes_bytes s)(c := sizes_bytes s c - ITEM_ntotal (heap s it))\<rparr>)
   }"

definition item_unlink_q :: "addr \<Rightarrow> 'z lru_state_scheme \<Rightarrow> 'z lru_state_scheme option" where
  "item_unlink_q it s = do_item_unlink_q it s"

section \<open>Linking, unlinking, releasing\<close>

definition item_free :: "addr \<Rightarrow> 'z lru_state_scheme \<Rightarrow> 'z lru_state_scheme option" where
  "item_free it s = do {
     let ntotal = ITEM_ntotal (heap s it);
     c_assert (\<not> has_flag (it_flags (heap s it)) ITEM_LINKED);
     c_assert (it \<noteq> heads s (slabs_clsid (heap s it)));
     c_assert (it \<noteq> tails s (slabs_clsid (heap s it)));
     c_assert (refcount (heap s it) = 0);
     slabs_free it ntotal (unat (ITEM_clsid (heap s it))) s
   }"

definition do_item_remove :: "addr \<Rightarrow> 'z lru_state_scheme \<Rightarrow> 'z lru_state_scheme option" where
  "do_item_remove it s = do {
     c_assert (\<not> has_flag (it_flags (heap s it)) ITEM_SLABBED);
     c_assert (0 < refcount (heap s it));
     let s = upd_item it (\<lambda>i. i\<lparr>refcount := refcount i - 1\<rparr>) s;
     (if refcount (heap s it) = 0 then item_free it s else Some s)
   }"

definition do_item_link :: "addr \<Rightarrow> u32 \<Rightarrow> 'z lru_state_scheme \<Rightarrow> 'z lru_state_scheme option" where
  "do_item_link it hv s = do {
     c_assert (\<not> has_flag (it_flags (heap s it)) (ITEM_LINKED OR ITEM_SLABBED));
     let s = upd_item it (\<lambda>i. i\<lparr>it_flags := set_flag (it_flags i) ITEM_LINKED, i_time := current_time s\<rparr>) s;
     let s = s\<lparr>curr_bytes := curr_bytes s + ITEM_ntotal (heap s it), curr_items := curr_items s + 1,
               total_items := total_items s + 1\<rparr>;
     let (v, s) = (if has_flag (it_flags (heap s it)) ITEM_CAS \<and> use_cas (settings s) then get_cas_id s else (0, s));
     let s = upd_item it (ITEM_set_cas v) s;
     let s = assoc_insert it hv s;
     s \<leftarrow> item_link_q it s;
     let s = upd_item it (\<lambda>i. i\<lparr>refcount := refcount i + 1\<rparr>) s;
     Some (item_stats_sizes_add it s)
   }"

definition do_item_unlink :: "addr \<Rightarrow> u32 \<Rightarrow> 'z lru_state_scheme \<Rightarrow> 'z lru_state_scheme option" where
  "do_item_unlink it hv s =
     (if has_flag (it_flags (heap s it)) ITEM_LINKED then do {
        let s = upd_item it (\<lambda>i. i\<lparr>it_flags := clr_flag (it_flags i) ITEM_LINKED\<rparr>) s;
        let s = s\<lparr>curr_bytes := curr_bytes s - ITEM_ntotal (heap s it), curr_items := curr_items s - 1\<rparr>;
        let s = item_stats_sizes_remove it s;
        s \<leftarrow> assoc_delete (item_key (heap s it)) hv s;
        s \<leftarrow> item_unlink_q it s;
        do_item_remove it s
      } else Some s)"

definition do_item_unlink_nolock :: "addr \<Rightarrow> u32 \<Rightarrow> 'z lru_state_scheme \<Rightarrow> 'z lru_state_scheme option" where
  "do_item_unlink_nolock it hv s =
     (if has_flag (it_flags (heap s it)) ITEM_LINKED then do {
        let s = upd_item it (\<lambda>i. i\<lparr>it_flags := clr_flag (it_flags i) ITEM_LINKED\<rparr>) s;
        let s = s\<lparr>curr_bytes := curr_bytes s - ITEM_ntotal (heap s it), curr_items := curr_items s - 1\<rparr>;
        let s = item_stats_sizes_remove it s;
        s \<leftarrow> assoc_delete (item_key (heap s it)) hv s;
        s \<leftarrow> do_item_unlink_q it s;
        do_item_remove it s
      } else Some s)"

definition do_item_update_nolock :: "addr \<Rightarrow> 'z lru_state_scheme \<Rightarrow> 'z lru_state_scheme option" where
  "do_item_update_nolock it s =
     (if i_time (heap s it) < current_time s - ITEM_UPDATE_INTERVAL then do {
        c_assert (\<not> has_flag (it_flags (heap s it)) ITEM_SLABBED);
        (if has_flag (it_flags (heap s it)) ITEM_LINKED then do {
           s \<leftarrow> do_item_unlink_q it s;
           let s = upd_item it (\<lambda>i. i\<lparr>i_time := current_time s\<rparr>) s;
           do_item_link_q it s
         } else Some s)
      } else Some s)"

definition do_item_update :: "addr \<Rightarrow> 'z lru_state_scheme \<Rightarrow> 'z lru_state_scheme option" where
  "do_item_update it s =
     (if lru_segmented (settings s) then do {
        c_assert (\<not> has_flag (it_flags (heap s it)) ITEM_SLABBED);
        (if has_flag (it_flags (heap s it)) ITEM_LINKED then
           (if ITEM_lruid (heap s it) = COLD_LRU \<and> has_flag (it_flags (heap s it)) ITEM_ACTIVE then do {
              let s = upd_item it (\<lambda>i. i\<lparr>i_time := current_time s\<rparr>) s;
              s \<leftarrow> item_unlink_q it s;
              let s = upd_item it (\<lambda>i. i\<lparr>slabs_clsid := ITEM_clsid i OR WARM_LRU,
                        it_flags := clr_flag (it_flags i) ITEM_ACTIVE\<rparr>) s;
              item_link_q_warm it s
            } else if i_time (heap s it) < current_time s - ITEM_UPDATE_INTERVAL
            then Some (upd_item it (\<lambda>i. i\<lparr>i_time := current_time s\<rparr>) s)
            else Some s)
         else Some s)
      } else if i_time (heap s it) < current_time s - ITEM_UPDATE_INTERVAL then do {
        c_assert (\<not> has_flag (it_flags (heap s it)) ITEM_SLABBED);
        (if has_flag (it_flags (heap s it)) ITEM_LINKED then do {
           let s = upd_item it (\<lambda>i. i\<lparr>i_time := current_time s\<rparr>) s;
           s \<leftarrow> item_unlink_q it s;
           item_link_q it s
         } else Some s)
      } else Some s)"

definition do_item_replace :: "addr \<Rightarrow> addr \<Rightarrow> u32 \<Rightarrow> 'z lru_state_scheme \<Rightarrow> 'z lru_state_scheme option" where
  "do_item_replace it new_it hv s = do {
     c_assert (\<not> has_flag (it_flags (heap s it)) ITEM_SLABBED);
     s \<leftarrow> do_item_unlink it hv s;
     do_item_link new_it hv s
   }"

section \<open>Expiry and the tail of a queue\<close>

definition item_is_flushed :: "addr \<Rightarrow> 'z lru_state_scheme \<Rightarrow> bool" where
  "item_is_flushed it s =
     (let live = oldest_live (settings s);
          cas = ITEM_get_cas (heap s it);
          ocas = oldest_cas (settings s)
      in if live = 0 \<or> current_time s < live then False
         else i_time (heap s it) \<le> live \<or> (ocas \<noteq> 0 \<and> cas \<noteq> 0 \<and> cas < ocas))"

abbreviation (input) LRU_PULL_EVICT :: u8 where "LRU_PULL_EVICT \<equiv> 1"
abbreviation (input) LRU_PULL_CRAWL_BLOCKS :: u8 where "LRU_PULL_CRAWL_BLOCKS \<equiv> 2"
abbreviation (input) LRU_PULL_RETURN_ITEM :: u8 where "LRU_PULL_RETURN_ITEM \<equiv> 4"

text \<open>
  The size limit of a queue: the fall-through of \<^verbatim>\<open>case HOT_LRU\<close> into \<^verbatim>\<open>case WARM_LRU\<close>, where the warm
  percentage applies when the limit is still 0.
\<close>

definition lru_limit :: "u8 \<Rightarrow> u64 \<Rightarrow> settings \<Rightarrow> u64" where
  "lru_limit cur_lru total_bytes st =
     (let limit = (if cur_lru = HOT_LRU then total_bytes * hot_lru_pct st div 100 else 0)
      in if limit = 0 then total_bytes * warm_lru_pct st div 100 else limit)"

definition is_crawler :: "item \<Rightarrow> bool" where
  "is_crawler it \<longleftrightarrow> nbytes it = 0 \<and> nkey it = 0 \<and> it_flags it = 1"

text \<open>
  What the loop of \<open>lru_pull_tail\<close> decides for one item that it has locked: keep walking, or stop at
  this item, possibly to move it to another segment.
\<close>

datatype pull_next = Walk | Stop u8

definition pull_hot_warm ::
  "u8 \<Rightarrow> u8 \<Rightarrow> u64 \<Rightarrow> u32 \<Rightarrow> addr \<Rightarrow> nat \<Rightarrow> 'z lru_state_scheme \<Rightarrow> (pull_next \<times> nat \<times> 'z lru_state_scheme) option" where
  "pull_hot_warm i cur_lru total_bytes max_age search lock s =
     (let limit = lru_limit cur_lru total_bytes (settings s)
      in if has_flag (it_flags (heap s search)) ITEM_ACTIVE then
           let s = upd_item search (\<lambda>it. it\<lparr>it_flags := clr_flag (it_flags it) ITEM_ACTIVE\<rparr>) s
           in if cur_lru = WARM_LRU then do {
                let s = upd_itemstats i (\<lambda>st. st\<lparr>moves_within_lru := moves_within_lru st + 1\<rparr>) s;
                s \<leftarrow> do_item_update_nolock search s;
                s \<leftarrow> do_item_remove search s;
                Some (Walk, 1, item_trylock_unlock lock s)
              } else do {
                let s = upd_itemstats i (\<lambda>st. st\<lparr>moves_to_warm := moves_to_warm st + 1\<rparr>) s;
                s \<leftarrow> do_item_unlink_q search s;
                Some (Stop WARM_LRU, 1, s)
              }
         else if limit < sizes_bytes s i \<or> max_age < current_time s - i_time (heap s search) then do {
           let s = upd_itemstats i (\<lambda>st. st\<lparr>moves_to_cold := moves_to_cold st + 1\<rparr>) s;
           s \<leftarrow> do_item_unlink_q search s;
           Some (Stop COLD_LRU, 1, s)
         } else Some (Stop 0, 0, s))"

definition pull_cold ::
  "nat \<Rightarrow> u8 \<Rightarrow> u8 \<Rightarrow> u32 \<Rightarrow> addr \<Rightarrow> 'z lru_state_scheme \<Rightarrow> (pull_next \<times> nat \<times> bool \<times> 'z lru_state_scheme) option" where
  "pull_cold orig_id i flags hv search s =
     (if has_flag flags LRU_PULL_EVICT then
        (if \<not> evict_to_free (settings s) then Some (Stop 0, 0, False, s)
         else do {
           let it = heap s search;
           let s = upd_itemstats i (\<lambda>st. st\<lparr>evicted := evicted st + 1,
                     evicted_time := current_time s - i_time it,
                     evicted_nonzero := (if exptime it \<noteq> 0 then evicted_nonzero st + 1 else evicted_nonzero st),
                     evicted_unfetched := (if has_flag (it_flags it) ITEM_FETCHED then evicted_unfetched st
                                           else evicted_unfetched st + 1),
                     evicted_active := (if has_flag (it_flags it) ITEM_ACTIVE then evicted_active st + 1
                                        else evicted_active st)\<rparr>) s;
           s \<leftarrow> do_item_unlink_nolock search hv s;
           let s = (if slab_automove (settings s) = 2 then snd (slabs_reassign False (-1) (int orig_id) s) else s);
           Some (Stop 0, 1, False, s)
         })
      else if has_flag flags LRU_PULL_RETURN_ITEM then Some (Stop 0, 0, True, s)
      else if has_flag (it_flags (heap s search)) ITEM_ACTIVE \<and> lru_segmented (settings s) then do {
        let s = upd_itemstats i (\<lambda>st. st\<lparr>moves_to_warm := moves_to_warm st + 1\<rparr>) s;
        let s = upd_item search (\<lambda>it. it\<lparr>it_flags := clr_flag (it_flags it) ITEM_ACTIVE\<rparr>) s;
        s \<leftarrow> do_item_unlink_q search s;
        Some (Stop WARM_LRU, 1, False, s)
      } else Some (Stop 0, 0, False, s))"

text \<open>
  The loop. It returns the item it stopped at (or \<open>NULL\<close>), the number of items removed, the segment
  to move to (0 for none), the lock held on the item, the returned reference and whether a crawler
  blocked the walk.
\<close>

partial_function (option) pull_loop ::
  "nat \<Rightarrow> u8 \<Rightarrow> u8 \<Rightarrow> u64 \<Rightarrow> u8 \<Rightarrow> u32 \<Rightarrow> nat \<Rightarrow> addr \<Rightarrow> nat \<Rightarrow> 'z lru_state_scheme \<Rightarrow>
   ((addr \<times> nat \<times> u8 \<times> nat \<times> (addr \<times> u32) option \<times> bool) \<times> 'z lru_state_scheme) option" where
  "pull_loop orig_id i cur_lru total_bytes flags max_age tries search removed s =
     (if tries = 0 \<or> search = NULL then Some ((NULL, removed, 0, 0, None, False), s)
      else
        let next_it = i_prev (heap s search)
        in if is_crawler (heap s search) then
             (if has_flag flags LRU_PULL_CRAWL_BLOCKS then Some ((NULL, 0, 0, 0, None, True), s)
              else pull_loop orig_id i cur_lru total_bytes flags max_age tries next_it removed s)
           else
             let hv = hash s (item_key (heap s search))
             in case item_trylock hv s of
                  None \<Rightarrow> pull_loop orig_id i cur_lru total_bytes flags max_age (tries - 1) next_it removed s
                | Some (lock, s) \<Rightarrow>
                    let s = upd_item search (\<lambda>it. it\<lparr>refcount := refcount it + 1\<rparr>) s;
                        reflocked = (refcount (heap s search) \<noteq> 2);
                        s = (if reflocked then upd_itemstats i (\<lambda>st. st\<lparr>lrutail_reflocked := lrutail_reflocked st + 1\<rparr>) s else s)
                    in if reflocked \<and> tail_repair_time (settings s) \<noteq> 0 \<and>
                          i_time (heap s search) + tail_repair_time (settings s) < current_time s then do {
                         let s = upd_itemstats i (\<lambda>st. st\<lparr>tailrepairs := tailrepairs st + 1\<rparr>) s;
                         let s = upd_item search (\<lambda>it. it\<lparr>refcount := 1\<rparr>) s;
                         s \<leftarrow> do_item_unlink_nolock search hv s;
                         pull_loop orig_id i cur_lru total_bytes flags max_age (tries - 1) next_it removed (item_trylock_unlock lock s)
                       }
                       else if (exptime (heap s search) \<noteq> 0 \<and> exptime (heap s search) < current_time s)
                               \<or> item_is_flushed search s then do {
                         let fetched = has_flag (it_flags (heap s search)) ITEM_FETCHED;
                         let s = upd_itemstats i (\<lambda>st. st\<lparr>reclaimed := reclaimed st + 1,
                                   expired_unfetched := (if fetched then expired_unfetched st else expired_unfetched st + 1)\<rparr>) s;
                         s \<leftarrow> do_item_unlink_nolock search hv s;
                         s \<leftarrow> do_item_remove search s;
                         pull_loop orig_id i cur_lru total_bytes flags max_age (tries - 1) next_it (removed + 1) (item_trylock_unlock lock s)
                       }
                       else if cur_lru = HOT_LRU \<or> cur_lru = WARM_LRU then do {
                         (nx, n, s) \<leftarrow> pull_hot_warm i cur_lru total_bytes max_age search lock s;
                         (case nx of
                            Walk \<Rightarrow> pull_loop orig_id i cur_lru total_bytes flags max_age (tries - 1) next_it (removed + n) s
                          | Stop m \<Rightarrow> Some ((search, removed + n, m, lock, None, False), s))
                       }
                       else if cur_lru = COLD_LRU then do {
                         (nx, n, ret, s) \<leftarrow> pull_cold orig_id i flags hv search s;
                         (case nx of
                            Walk \<Rightarrow> None
                          | Stop m \<Rightarrow> Some ((search, removed + n, m, lock, if ret then Some (search, hv) else None, False), s))
                       }
                       else Some ((search, removed, 0, lock, None, False), s))"

definition lru_pull_tail ::
  "nat \<Rightarrow> u8 \<Rightarrow> u64 \<Rightarrow> u8 \<Rightarrow> u32 \<Rightarrow> 'z lru_state_scheme \<Rightarrow> (nat \<times> (addr \<times> u32) option \<times> 'z lru_state_scheme) option" where
  "lru_pull_tail orig_id cur_lru total_bytes flags max_age s =
     (if orig_id = 0 then Some (0, None, s)
      else do {
        let i = word_of_nat orig_id OR cur_lru;
        ((it, removed, move_to_lru, lock, ret_it, blocked), s) \<leftarrow>
          pull_loop orig_id i cur_lru total_bytes flags max_age 5 (tails s i) 0 s;
        (if blocked then Some (0, None, s)
         else if it = NULL then Some (removed, ret_it, s)
         else do {
           s \<leftarrow> (if move_to_lru \<noteq> 0
                 then item_link_q it (upd_item it (\<lambda>j. j\<lparr>slabs_clsid := ITEM_clsid j OR move_to_lru\<rparr>) s)
                 else Some s);
           s \<leftarrow> (if \<not> has_flag flags LRU_PULL_RETURN_ITEM
                 then do { s \<leftarrow> do_item_remove it s; Some (item_trylock_unlock lock s) }
                 else Some s);
           Some (removed, ret_it, s)
         })
      })"

section \<open>Allocation of items\<close>

definition item_make_header :: "u8 \<Rightarrow> u32 \<Rightarrow> int \<Rightarrow> settings \<Rightarrow> u64 \<times> bytes \<times> u8" where
  "item_make_header nk flags nb st =
     (let suffix = (if inline_ascii_response st
                    then 32 # print_nat (unat flags) @ 32 # print_int (nb - 2) @ CRLF
                    else if flags = 0 then [] else u32_to_bytes flags);
          nsuf = word_of_nat (length suffix)
      in (of_nat sizeof_item + ucast nk + ucast nsuf + word_of_int nb, suffix, nsuf))"

fun alloc_pull_loop :: "nat \<Rightarrow> nat \<Rightarrow> nat \<Rightarrow> nat \<Rightarrow> 'z lru_state_scheme \<Rightarrow> (addr \<times> nat \<times> 'z lru_state_scheme) option" where
  "alloc_pull_loop 0 i ntotal cid s = Some (NULL, i, s)"
| "alloc_pull_loop (Suc n) i ntotal cid s = do {
     s \<leftarrow> (if \<not> lru_segmented (settings s)
           then map_option (\<lambda>(_, _, s). s) (lru_pull_tail cid COLD_LRU 0 0 0 s) else Some s);
     (it, tb, s) \<leftarrow> slabs_alloc ntotal cid 0 s;
     let total_bytes = (case tb of None \<Rightarrow> 0 | Some b \<Rightarrow> b);
     let total_bytes = (if temp_lru (settings s) then total_bytes - ucast (temp_lru_size cid s) else total_bytes);
     (if it = NULL then do {
        (removed, _, s) \<leftarrow> lru_pull_tail cid COLD_LRU total_bytes LRU_PULL_EVICT 0 s;
        (if removed = 0 then
           (if lru_segmented (settings s) then do {
              (_, _, s) \<leftarrow> lru_pull_tail cid HOT_LRU total_bytes 0 0 s;
              alloc_pull_loop n (i + 1) ntotal cid s
            } else Some (NULL, i, s))
         else alloc_pull_loop n (i + 1) ntotal cid s)
      } else Some (it, i, s))
   }"

definition do_item_alloc_pull :: "nat \<Rightarrow> nat \<Rightarrow> 'z lru_state_scheme \<Rightarrow> (addr \<times> 'z lru_state_scheme) option" where
  "do_item_alloc_pull ntotal cid s = do {
     (it, i, s) \<leftarrow> alloc_pull_loop 10 0 ntotal cid s;
     Some (it, if 0 < i then upd_itemstats (word_of_nat cid) (\<lambda>st. st\<lparr>direct_reclaims := direct_reclaims st + of_nat i\<rparr>) s else s)
   }"

definition do_item_alloc_chunk :: "addr \<Rightarrow> nat \<Rightarrow> 'z lru_state_scheme \<Rightarrow> (addr \<times> 'z lru_state_scheme) option" where
  "do_item_alloc_chunk ch bytes_remain s = do {
     let sz = bytes_remain + sizeof_item_chunk;
     let sz = (if slab_chunk_size_max (settings s) < sz then slab_chunk_size_max (settings s) else sz);
     cid \<leftarrow> slabs_clsid_of sz s;
     (nch, s) \<leftarrow> do_item_alloc_pull sz cid s;
     (if nch = NULL then Some (NULL, s)
      else
        let hp = ch_head (heap s ch);
            s = upd_item ch (\<lambda>c. c\<lparr>i_next := nch\<rparr>) s
        in Some (nch, upd_item nch (\<lambda>c. c\<lparr>ch_head := hp, i_prev := ch, i_next := NULL, ch_used := 0,
             slabs_clsid := word_of_nat cid, ch_size := int sz - int sizeof_item_chunk,
             it_flags := set_flag (it_flags c) ITEM_CHUNK\<rparr>) s))
   }"

definition init_item ::
  "bytes \<Rightarrow> u32 \<Rightarrow> u32 \<Rightarrow> int \<Rightarrow> bytes \<Rightarrow> u8 \<Rightarrow> nat \<Rightarrow> settings \<Rightarrow> u32 \<Rightarrow> item \<Rightarrow> item" where
  "init_item key flags expt nb suffix nsuf cid st now it =
     it\<lparr>i_next := NULL, i_prev := NULL,
        slabs_clsid := word_of_nat cid OR (if temp_lru st \<and> expt - now \<le> temporary_ttl st then TEMP_LRU
                                         else if lru_segmented st then HOT_LRU else COLD_LRU),
        it_flags := (if use_cas st then set_flag (it_flags it) ITEM_CAS else it_flags it),
        nkey := word_of_nat (length key), nbytes := nb, i_key := key, exptime := expt,
        i_suffix := (if inline_ascii_response st \<or> 0 < nsuf then suffix else i_suffix it),
        nsuffix := nsuf\<rparr>"

definition do_item_alloc ::
  "bytes \<Rightarrow> u32 \<Rightarrow> u32 \<Rightarrow> int \<Rightarrow> 'z lru_state_scheme \<Rightarrow> (addr \<times> 'z lru_state_scheme) option" where
  "do_item_alloc key flags expt nb s =
     (if nb < 2 then Some (NULL, s)
      else do {
        let st = settings s;
        let (ntotal, suffix, nsuf) = item_make_header (word_of_nat (length key) + 1) flags nb st;
        let ntotal = unat (if use_cas st then ntotal + 8 else ntotal);
        cid \<leftarrow> slabs_clsid_of ntotal s;
        (if cid = 0 then Some (NULL, s)
         else do {
           (it, hdr_id, s) \<leftarrow>
             (if slab_chunk_size_max st < ntotal then do {
                let htotal = length key + 1 + unat nsuf + sizeof_item + sizeof_item_chunk + (if use_cas st then 8 else 0);
                hdr_id \<leftarrow> slabs_clsid_of htotal s;
                (it, s) \<leftarrow> do_item_alloc_pull htotal hdr_id s;
                Some (it, hdr_id, if it \<noteq> NULL
                  then upd_item it (\<lambda>i. i\<lparr>it_flags := set_flag (it_flags i) ITEM_CHUNKED\<rparr>) s else s)
              } else do {
                (it, s) \<leftarrow> do_item_alloc_pull ntotal cid s;
                Some (it, 0, s)
              });
           (if it = NULL
            then Some (NULL, upd_itemstats (word_of_nat cid) (\<lambda>st. st\<lparr>outofmemory := outofmemory st + 1\<rparr>) s)
            else do {
              c_assert (slabs_clsid (heap s it) = 0);
              let s = upd_item it (init_item key flags expt nb suffix nsuf cid st (current_time s)) s;
              let s = (if has_flag (it_flags (heap s it)) ITEM_CHUNKED
                       then upd_item (ITEM_data it (heap s it)) (\<lambda>c. c\<lparr>i_next := NULL, i_prev := NULL, ch_used := 0,
                              ch_size := 0, ch_head := it, orig_clsid := word_of_nat hdr_id\<rparr>) s
                       else s);
              Some (it, upd_item it (\<lambda>i. i\<lparr>h_next := NULL\<rparr>) s)
            })
         })
      })"

section \<open>Lookup\<close>

abbreviation (input) sizeof_lru_bump_entry :: int where "sizeof_lru_bump_entry \<equiv> 16"

definition lru_bump_async :: "addr \<Rightarrow> u32 \<Rightarrow> 'z lru_state_scheme \<Rightarrow> bool \<times> 'z lru_state_scheme" where
  "lru_bump_async it hv s =
     (let ret = False;
          s = upd_item it (\<lambda>i. i\<lparr>refcount := refcount i + 1\<rparr>) s;
          (ret, s) = (case bipbuf_request (bump_buf s) sizeof_lru_bump_entry of
             Some off \<Rightarrow>
               (let b = bb_memcpy off [(it, hv)] (bump_buf s);
                    (n, b) = bipbuf_push sizeof_lru_bump_entry b
                in if n = 0 then (False, s\<lparr>bump_buf := b, bump_dropped := bump_dropped s + 1\<rparr>)
                   else (ret, s\<lparr>bump_buf := b\<rparr>))
           | None \<Rightarrow> (False, s\<lparr>bump_dropped := bump_dropped s + 1\<rparr>));
          s = (if \<not> ret then upd_item it (\<lambda>i. i\<lparr>refcount := refcount i - 1\<rparr>) s else s)
      in (ret, s))"

definition get_hit :: "addr \<Rightarrow> u32 \<Rightarrow> 'z lru_state_scheme \<Rightarrow> 'z lru_state_scheme option" where
  "get_hit it hv s =
     (if lru_segmented (settings s) then
        (if \<not> has_flag (it_flags (heap s it)) ITEM_ACTIVE then
           (if \<not> has_flag (it_flags (heap s it)) ITEM_FETCHED
            then Some (upd_item it (\<lambda>i. i\<lparr>it_flags := set_flag (it_flags i) ITEM_FETCHED\<rparr>) s)
            else
              let s = upd_item it (\<lambda>i. i\<lparr>it_flags := set_flag (it_flags i) ITEM_ACTIVE\<rparr>) s
              in if ITEM_lruid (heap s it) \<noteq> COLD_LRU then do_item_update it s
                 else let (ok, s) = lru_bump_async it hv s
                      in Some (if ok then s else upd_item it (\<lambda>i. i\<lparr>it_flags := clr_flag (it_flags i) ITEM_ACTIVE\<rparr>) s))
         else Some s)
      else do_item_update it (upd_item it (\<lambda>i. i\<lparr>it_flags := set_flag (it_flags i) ITEM_FETCHED\<rparr>) s))"

definition do_item_get :: "bytes \<Rightarrow> u32 \<Rightarrow> bool \<Rightarrow> 'z lru_state_scheme \<Rightarrow> (addr \<times> 'z lru_state_scheme) option" where
  "do_item_get key hv do_update s = do {
     it \<leftarrow> assoc_find key hv s;
     (if it = NULL then Some (NULL, s)
      else
        let s = upd_item it (\<lambda>i. i\<lparr>refcount := refcount i + 1\<rparr>) s
        in if item_is_flushed it s then do {
             s \<leftarrow> do_item_unlink it hv s;
             s \<leftarrow> do_item_remove it s;
             Some (NULL, s\<lparr>tstats := (tstats s)\<lparr>get_flushed := get_flushed (tstats s) + 1\<rparr>\<rparr>)
           }
           else if exptime (heap s it) \<noteq> 0 \<and> exptime (heap s it) \<le> current_time s then do {
             s \<leftarrow> do_item_unlink it hv s;
             s \<leftarrow> do_item_remove it s;
             Some (NULL, s\<lparr>tstats := (tstats s)\<lparr>get_expired := get_expired (tstats s) + 1\<rparr>\<rparr>)
           }
           else do {
             s \<leftarrow> (if do_update then get_hit it hv s else Some s);
             Some (it, s)
           })
   }"

definition do_item_touch :: "bytes \<Rightarrow> u32 \<Rightarrow> u32 \<Rightarrow> 'z lru_state_scheme \<Rightarrow> (addr \<times> 'z lru_state_scheme) option" where
  "do_item_touch key expt hv s = do {
     (it, s) \<leftarrow> do_item_get key hv True s;
     Some (it, if it \<noteq> NULL then upd_item it (\<lambda>i. i\<lparr>exptime := expt\<rparr>) s else s)
   }"

end
