(* ===== verification/Items_Inv.thy ===== *)
theory Items_Inv
  imports Items Assoc_Sys
begin

text \<open>
  The invariant of the cache and its preservation by the item operations. \<open>lru_inv\<close> says that
  every LRU queue is a well-formed doubly linked list whose counters are exact; \<open>cinv\<close> ties the
  hash table, the queues, the free lists and the item flags together: an item is in the hash table
  iff it is in an LRU queue iff it has \<^verbatim>\<open>ITEM_LINKED\<close>, and then it is not on any free list.
\<close>

section \<open>Queue operations\<close>

definition lru_ok :: "'z lru_state_scheme \<Rightarrow> u8 \<Rightarrow> addr list \<Rightarrow> bool" where
  "lru_ok s c xs \<longleftrightarrow> dll (heap s) (heads s c) (tails s c) xs \<and>
     (\<forall>x \<in> set xs. slabs_clsid (heap s x) = c) \<and> sizes s c = of_nat (length xs) \<and>
     sizes_bytes s c = sum_list (map (\<lambda>x. ITEM_ntotal (heap s x)) xs)"

definition lru_inv :: "'z lru_state_scheme \<Rightarrow> (u8 \<Rightarrow> addr list) \<Rightarrow> bool" where
  "lru_inv s Q \<longleftrightarrow> (\<forall>c. lru_ok s c (Q c))"

definition lru_items :: "(u8 \<Rightarrow> addr list) \<Rightarrow> addr set" where
  "lru_items Q = (\<Union>c. set (Q c))"

lemma lru_itemsI: "x \<in> set (Q c) \<Longrightarrow> x \<in> lru_items Q"
  by (auto simp: lru_items_def)

lemma lru_inv_cls: "lru_inv s Q \<Longrightarrow> x \<in> set (Q c) \<Longrightarrow> slabs_clsid (heap s x) = c"
  by (auto simp: lru_inv_def lru_ok_def)

lemma lru_items_cls: "lru_inv s Q \<Longrightarrow> x \<in> lru_items Q \<Longrightarrow> x \<in> set (Q (slabs_clsid (heap s x)))"
  using lru_inv_cls by (fastforce simp: lru_items_def)

lemma lru_inv_nonnull: "lru_inv s Q \<Longrightarrow> NULL \<notin> lru_items Q"
  unfolding lru_items_def lru_inv_def lru_ok_def using dll_nonnull by fastforce

lemma lru_items_finite: "finite (lru_items Q)"
  by (simp add: lru_items_def)

lemma lru_items_insert: "lru_items (Q(c := x # Q c)) = insert x (lru_items Q)"
proof (rule set_eqI, rule iffI)
  fix a assume "a \<in> lru_items (Q(c := x # Q c))"
  then obtain d where "a \<in> set ((Q(c := x # Q c)) d)" by (auto simp: lru_items_def)
  then show "a \<in> insert x (lru_items Q)" by (cases "d = c") (auto simp: lru_items_def)
next
  fix a assume a: "a \<in> insert x (lru_items Q)"
  then consider "a = x" | d where "a \<in> set (Q d)" by (auto simp: lru_items_def)
  then show "a \<in> lru_items (Q(c := x # Q c))"
  proof cases
    case 1
    then have "a \<in> set ((Q(c := x # Q c)) c)" by simp
    then show ?thesis by (rule lru_itemsI)
  next
    case (2 d)
    then have "a \<in> set ((Q(c := x # Q c)) d)" by (cases "d = c") auto
    then show ?thesis by (rule lru_itemsI)
  qed
qed

lemma lru_items_remove:
  assumes inv: "lru_inv s Q" and x: "x \<in> set (Q c)"
  shows "lru_items (Q(c := remove1 x (Q c))) = lru_items Q - {x}"
proof -
  have d: "distinct (Q c)" using inv by (auto simp: lru_inv_def lru_ok_def dll_def)
  have o: "x \<notin> set (Q d)" if "d \<noteq> c" for d using lru_inv_cls [OF inv x] lru_inv_cls [OF inv, of x d] that by auto
  show ?thesis
  proof (rule set_eqI, rule iffI)
    fix a assume "a \<in> lru_items (Q(c := remove1 x (Q c)))"
    then obtain e where "a \<in> set ((Q(c := remove1 x (Q c))) e)" by (auto simp: lru_items_def)
    then show "a \<in> lru_items Q - {x}" using d o by (cases "e = c") (auto simp: lru_items_def)
  next
    fix a assume a: "a \<in> lru_items Q - {x}"
    then obtain e where "a \<in> set (Q e)" by (auto simp: lru_items_def)
    with a d have "a \<in> set ((Q(c := remove1 x (Q c))) e)" by (cases "e = c") auto
    then show "a \<in> lru_items (Q(c := remove1 x (Q c)))" by (rule lru_itemsI)
  qed
qed

text \<open>Heaps that differ in queue links only.\<close>

definition qlinks_only :: "(addr \<Rightarrow> item) \<Rightarrow> (addr \<Rightarrow> item) \<Rightarrow> bool" where
  "qlinks_only h h' \<longleftrightarrow> (\<forall>a. h' a = (h a)\<lparr>i_next := i_next (h' a), i_prev := i_prev (h' a)\<rparr>)"

lemma qlinks_only_field:
  assumes "qlinks_only h h'" "\<And>i v w. f (i\<lparr>i_next := v, i_prev := w\<rparr>) = f i"
  shows "f (h' a) = f (h a)"
proof -
  have "h' a = (h a)\<lparr>i_next := i_next (h' a), i_prev := i_prev (h' a)\<rparr>" using assms(1) by (simp add: qlinks_only_def)
  then have "f (h' a) = f ((h a)\<lparr>i_next := i_next (h' a), i_prev := i_prev (h' a)\<rparr>)" by (rule arg_cong)
  then show ?thesis by (simp add: assms(2))
qed

lemma ITEM_ntotal_links [simp]:
  "ITEM_ntotal (i\<lparr>i_next := v\<rparr>) = ITEM_ntotal i" "ITEM_ntotal (i\<lparr>i_prev := v\<rparr>) = ITEM_ntotal i"
  "ITEM_ntotal (i\<lparr>h_next := v\<rparr>) = ITEM_ntotal i" "ITEM_ntotal (i\<lparr>i_time := t\<rparr>) = ITEM_ntotal i"
  "ITEM_ntotal (i\<lparr>refcount := r\<rparr>) = ITEM_ntotal i" "ITEM_ntotal (i\<lparr>i_cas := k\<rparr>) = ITEM_ntotal i"
  "ITEM_ntotal (i\<lparr>slabs_clsid := c\<rparr>) = ITEM_ntotal i" "ITEM_ntotal (i\<lparr>exptime := t\<rparr>) = ITEM_ntotal i"
  by (simp_all add: ITEM_ntotal_def)

lemma lru_ok_cong:
  assumes "heads s' c = heads s c" "tails s' c = tails s c" "sizes s' c = sizes s c" "sizes_bytes s' c = sizes_bytes s c"
    and eq: "\<And>x. x \<in> set xs \<Longrightarrow> i_prev (heap s' x) = i_prev (heap s x) \<and> i_next (heap s' x) = i_next (heap s x) \<and>
      slabs_clsid (heap s' x) = slabs_clsid (heap s x) \<and> ITEM_ntotal (heap s' x) = ITEM_ntotal (heap s x)"
  shows "lru_ok s' c xs = lru_ok s c xs"
proof -
  have d: "dll (heap s') hp tp xs = dll (heap s) hp tp xs" for hp tp by (rule dll_cong) (use eq in auto)
  have m: "map (\<lambda>x. ITEM_ntotal (heap s' x)) xs = map (\<lambda>x. ITEM_ntotal (heap s x)) xs" using eq by auto
  show ?thesis unfolding lru_ok_def assms(1-4) d m using eq by auto
qed

lemma lru_inv_cong:
  assumes "lru_inv s Q" "heads s' = heads s" "tails s' = tails s" "sizes s' = sizes s" "sizes_bytes s' = sizes_bytes s"
    and "\<And>x. x \<in> lru_items Q \<Longrightarrow> i_prev (heap s' x) = i_prev (heap s x) \<and> i_next (heap s' x) = i_next (heap s x) \<and>
      slabs_clsid (heap s' x) = slabs_clsid (heap s x) \<and> ITEM_ntotal (heap s' x) = ITEM_ntotal (heap s x)"
  shows "lru_inv s' Q"
proof -
  have "lru_ok s' c (Q c) = lru_ok s c (Q c)" for c
    by (rule lru_ok_cong) (use assms lru_itemsI in auto)
  with assms(1) show ?thesis by (simp add: lru_inv_def)
qed

lemma lru_inv_upd:
  assumes inv: "lru_inv s Q"
    and "\<And>d. d \<noteq> c \<Longrightarrow> heads s' d = heads s d \<and> tails s' d = tails s d \<and> sizes s' d = sizes s d \<and> sizes_bytes s' d = sizes_bytes s d"
    and "\<And>x d. d \<noteq> c \<Longrightarrow> x \<in> set (Q d) \<Longrightarrow> heap s' x = heap s x" and new: "lru_ok s' c xs"
  shows "lru_inv s' (Q(c := xs))"
proof -
  have "lru_ok s' d (Q d) = lru_ok s d (Q d)" if "d \<noteq> c" for d
    by (rule lru_ok_cong) (use assms that in auto)
  with inv new show ?thesis by (auto simp: lru_inv_def)
qed

definition queue_frame :: "'z lru_state_scheme \<Rightarrow> 'z lru_state_scheme \<Rightarrow> bool" where
  "queue_frame s s' \<longleftrightarrow> s' = s\<lparr>heap := heap s', heads := heads s', tails := tails s', sizes := sizes s',
     sizes_bytes := sizes_bytes s'\<rparr> \<and> qlinks_only (heap s) (heap s')"

lemma do_item_link_q_correct:
  assumes inv: "lru_inv s Q" and it: "it \<notin> lru_items Q" "it \<noteq> NULL" "\<not> has_flag (it_flags (heap s it)) ITEM_SLABBED"
    and c: "c = slabs_clsid (heap s it)"
  shows "\<exists>s'. do_item_link_q it s = Some s' \<and> lru_inv s' (Q(c := it # Q c)) \<and> queue_frame s s' \<and>
    (\<forall>a. a \<notin> insert it (lru_items Q) \<longrightarrow> heap s' a = heap s a)"
proof -
  let ?hp = "heads s c" and ?tp = "tails s c"
  have ok: "lru_ok s c (Q c)" using inv by (simp add: lru_inv_def)
  then have d: "dll (heap s) ?hp ?tp (Q c)" by (simp add: lru_ok_def)
  have nin: "it \<notin> set (Q d)" for d using it(1) lru_itemsI by metis
  have hp: "?hp = first_or (Q c) NULL" "?hp \<noteq> NULL \<Longrightarrow> ?hp \<in> set (Q c)" using d by (auto simp: dll_def intro: first_or_eqD)
  have ne: "it \<noteq> ?hp" using nin it(2) hp by metis
  have as: "(?hp \<noteq> NULL \<and> ?tp \<noteq> NULL) \<or> (?hp = NULL \<and> ?tp = NULL)" using dll_head_NULL [OF d] dll_tail_NULL [OF d] by auto
  define h where "h = (\<lambda>a. if a = it then (heap s it)\<lparr>i_prev := NULL, i_next := ?hp\<rparr>
    else if a = ?hp \<and> ?hp \<noteq> NULL then (heap s a)\<lparr>i_prev := it\<rparr> else heap s a)"
  define s' where "s' = s\<lparr>heap := h, heads := (heads s)(c := it),
    tails := (tails s)(c := if ?tp = NULL then it else ?tp), sizes := (sizes s)(c := sizes s c + 1),
    sizes_bytes := (sizes_bytes s)(c := sizes_bytes s c + ITEM_ntotal (heap s it))\<rparr>"
  have hu: "heap (if ?hp \<noteq> NULL then upd_item ?hp (\<lambda>i. i\<lparr>i_prev := it\<rparr>) (upd_item it (\<lambda>i. i\<lparr>i_prev := NULL, i_next := ?hp\<rparr>) s)
      else upd_item it (\<lambda>i. i\<lparr>i_prev := NULL, i_next := ?hp\<rparr>) s) = h"
    using ne by (auto simp: h_def fun_eq_iff)
  have st: "do_item_link_q it s = Some s'"
    using it(3) ne as unfolding do_item_link_q_def Let_def c [symmetric]
    by (simp add: s'_def h_def upd_item_def fun_eq_iff)
  have nn: "NULL \<notin> set (Q c)" using d by (rule dll_nonnull)
  have dl: "dll h it (if ?tp = NULL then it else ?tp) (it # Q c)"
    by (rule dll_link_head [OF d nin it(2)]) (use nin nn in \<open>auto simp: h_def\<close>)
  have ntot: "ITEM_ntotal (h a) = ITEM_ntotal (heap s a)" "slabs_clsid (h a) = slabs_clsid (heap s a)" for a
    by (simp_all add: h_def)
  have "lru_ok s' c (it # Q c)" using ok dl c by (simp add: lru_ok_def s'_def ntot)
  moreover have "heap s' x = heap s x" if "d \<noteq> c" "x \<in> set (Q d)" for x d
  proof -
    have "x \<noteq> it" using nin that by metis
    moreover have "x \<notin> set (Q c)" using lru_inv_cls [OF inv that(2)] lru_inv_cls [OF inv, of x c] that(1) by auto
    ultimately show ?thesis using hp(2) by (auto simp: s'_def h_def)
  qed
  ultimately have "lru_inv s' (Q(c := it # Q c))" by (intro lru_inv_upd [OF inv]) (auto simp: s'_def)
  moreover have "queue_frame s s'" by (simp add: queue_frame_def s'_def qlinks_only_def h_def)
  moreover have "\<forall>a. a \<notin> insert it (lru_items Q) \<longrightarrow> heap s' a = heap s a"
    using hp(2) lru_itemsI [of ?hp Q c] by (auto simp: s'_def h_def)
  ultimately show ?thesis using st by blast
qed

text \<open>Only the links inside one queue and its two ends change.\<close>

definition one_queue :: "u8 \<Rightarrow> addr set \<Rightarrow> 'z lru_state_scheme \<Rightarrow> 'z lru_state_scheme \<Rightarrow> bool" where
  "one_queue c X s s' \<longleftrightarrow> queue_frame s s' \<and> (\<forall>a. a \<notin> X \<longrightarrow> heap s' a = heap s a) \<and>
     (\<forall>d. d \<noteq> c \<longrightarrow> heads s' d = heads s d \<and> tails s' d = tails s d)"

lemma one_queue_intro:
  assumes "s' = s\<lparr>heap := heap s', heads := heads s', tails := tails s', sizes := sizes s', sizes_bytes := sizes_bytes s'\<rparr>"
    "\<And>a. heap s' a = (heap s a)\<lparr>i_next := i_next (heap s' a), i_prev := i_prev (heap s' a)\<rparr>"
    "\<And>a. a \<notin> X \<Longrightarrow> heap s' a = heap s a" "\<And>d. d \<noteq> c \<Longrightarrow> heads s' d = heads s d \<and> tails s' d = tails s d"
  shows "one_queue c X s s'"
  using assms by (simp add: one_queue_def queue_frame_def qlinks_only_def)

text \<open>The predecessor of a queue member is a member, or there is none.\<close>

lemma dll_neighbours:
  assumes d: "dll h hp tp (ps @ x # ns)"
  shows "i_prev (h x) = last_or ps NULL" "i_next (h x) = first_or ns NULL"
    "hp = x \<longleftrightarrow> ps = []" "tp = x \<longleftrightarrow> ns = []" "i_next (h x) \<noteq> x" "i_prev (h x) \<noteq> x"
    "i_next (h x) \<noteq> NULL \<Longrightarrow> i_next (h x) \<in> set ns" "i_prev (h x) \<noteq> NULL \<Longrightarrow> i_prev (h x) \<in> set ps"
    "i_next (h x) \<noteq> NULL \<Longrightarrow> i_next (h x) \<noteq> i_prev (h x)"
proof -
  note l = dll_split_links [OF d]
  have dt: "distinct (ps @ x # ns)" using d by (rule dll_distinct)
  show "i_prev (h x) = last_or ps NULL" "i_next (h x) = first_or ns NULL" using l by simp_all
  show "hp = x \<longleftrightarrow> ps = []" using d l(3) by (cases ps) (auto simp: dll_def)
  show "tp = x \<longleftrightarrow> ns = []" using d l(4) by (cases ns rule: rev_cases) (auto simp: dll_def)
  show nx: "i_next (h x) \<in> set ns" if "i_next (h x) \<noteq> NULL" using l(2) that by (auto intro: first_or_eqD)
  show pv: "i_prev (h x) \<in> set ps" if "i_prev (h x) \<noteq> NULL" using l(1) that by (auto intro: last_or_eqD)
  show "i_next (h x) \<noteq> x" "i_prev (h x) \<noteq> x" using nx pv l(3-5) by auto
  show "i_next (h x) \<noteq> i_prev (h x)" if n: "i_next (h x) \<noteq> NULL"
  proof
    assume e: "i_next (h x) = i_prev (h x)"
    then have "i_prev (h x) \<noteq> NULL" using n by simp
    then have "i_next (h x) \<in> set ps" using pv e by simp
    then show False using nx [OF n] dt by auto
  qed
qed

lemma do_item_unlink_q_dll:
  assumes d: "dll (heap s) (heads s c) (tails s c) (ps @ it # ns)" and c: "slabs_clsid (heap s it) = c"
  shows "\<exists>s'. do_item_unlink_q it s = Some s' \<and> dll (heap s') (heads s' c) (tails s' c) (ps @ ns) \<and>
    one_queue c (set (ps @ ns)) s s' \<and> sizes s' = (sizes s)(c := sizes s c - 1) \<and>
    sizes_bytes s' = (sizes_bytes s)(c := sizes_bytes s c - ITEM_ntotal (heap s it))"
proof -
  let ?nx = "i_next (heap s it)" and ?pv = "i_prev (heap s it)"
  note n = dll_neighbours [OF d]
  have nn: "NULL \<notin> set ps" "NULL \<notin> set ns" "distinct (ps @ it # ns)" using dll_nonnull [OF d] d by (auto simp: dll_def)
  define h where "h = (\<lambda>a. if a = ?nx \<and> ?nx \<noteq> NULL then (heap s a)\<lparr>i_prev := ?pv\<rparr>
     else if a = ?pv \<and> ?pv \<noteq> NULL then (heap s a)\<lparr>i_next := ?nx\<rparr> else heap s a)"
  define s' where "s' = s\<lparr>heap := h, heads := (heads s)(c := if heads s c = it then ?nx else heads s c),
     tails := (tails s)(c := if tails s c = it then ?pv else tails s c), sizes := (sizes s)(c := sizes s c - 1),
     sizes_bytes := (sizes_bytes s)(c := sizes_bytes s c - ITEM_ntotal (heap s it))\<rparr>"
  have a1: "heads s c = it \<longrightarrow> ?pv = NULL" "tails s c = it \<longrightarrow> ?nx = NULL" using n(1-4) by auto
  have st: "do_item_unlink_q it s = Some s'"
    using a1 n(5,6,9) unfolding do_item_unlink_q_def Let_def c
    by (auto simp: s'_def h_def upd_item_def fun_eq_iff)
  have "dll h (if heads s c = it then ?nx else heads s c) (if tails s c = it then ?pv else tails s c) (ps @ ns)"
    by (rule dll_unlink [OF d]) (use nn n(5,6,9) in \<open>auto simp: h_def\<close>)
  moreover have "one_queue c (set (ps @ ns)) s s'"
    by (rule one_queue_intro) (use n(7,8) in \<open>auto simp: s'_def h_def\<close>)
  ultimately show ?thesis using st by (intro exI [of _ s']) (simp add: s'_def)
qed

lemma sum_list_remove1:
  "x \<in> set xs \<Longrightarrow> sum_list (map f (remove1 x xs)) = sum_list (map f xs) - (f x :: 'a::ab_group_add)"
  by (induction xs) (auto simp: algebra_simps)

lemma do_item_unlink_q_correct:
  assumes inv: "lru_inv s Q" and it: "it \<in> set (Q c)"
  shows "\<exists>s'. do_item_unlink_q it s = Some s' \<and> lru_inv s' (Q(c := remove1 it (Q c))) \<and> queue_frame s s' \<and>
    (\<forall>a. a \<notin> lru_items Q \<longrightarrow> heap s' a = heap s a) \<and> heap s' it = heap s it"
proof -
  have ok: "lru_ok s c (Q c)" using inv by (simp add: lru_inv_def)
  have c: "slabs_clsid (heap s it) = c" using inv it by (rule lru_inv_cls)
  obtain ps ns where sp: "Q c = ps @ it # ns" using it by (auto simp: in_set_conv_decomp)
  have d: "dll (heap s) (heads s c) (tails s c) (ps @ it # ns)" using ok sp by (simp add: lru_ok_def)
  obtain s' where s': "do_item_unlink_q it s = Some s'" "dll (heap s') (heads s' c) (tails s' c) (ps @ ns)"
    "one_queue c (set (ps @ ns)) s s'" "sizes s' = (sizes s)(c := sizes s c - 1)"
    "sizes_bytes s' = (sizes_bytes s)(c := sizes_bytes s c - ITEM_ntotal (heap s it))"
    using do_item_unlink_q_dll [OF d c] by blast
  have oq: "queue_frame s s'" "\<And>a. a \<notin> set (ps @ ns) \<Longrightarrow> heap s' a = heap s a"
    "\<And>d. d \<noteq> c \<Longrightarrow> heads s' d = heads s d \<and> tails s' d = tails s d" using s'(3) by (auto simp: one_queue_def)
  have rm: "remove1 it (Q c) = ps @ ns" using sp dll_split_links(3) [OF d] by (simp add: remove1_split)
  have ql: "qlinks_only (heap s) (heap s')" using oq(1) by (simp add: queue_frame_def)
  have ntot: "ITEM_ntotal (heap s' a) = ITEM_ntotal (heap s a)" "slabs_clsid (heap s' a) = slabs_clsid (heap s a)" for a
    by (rule qlinks_only_field [OF ql], simp)+
  have len: "sizes s c - 1 = of_nat (length (remove1 it (Q c)))"
  proof -
    obtain n where "length (Q c) = Suc n" using it by (cases "Q c") auto
    then show ?thesis using ok it by (simp add: lru_ok_def length_remove1)
  qed
  have "lru_ok s' c (remove1 it (Q c))"
    using ok s'(2,4,5) len sum_list_remove1 [OF it, of "\<lambda>x. ITEM_ntotal (heap s x)"]
    by (auto simp: lru_ok_def ntot rm [symmetric] dest: in_set_remove1 set_remove1_subset [THEN subsetD])
  moreover have sub: "set (ps @ ns) \<subseteq> set (Q c)" using sp by auto
  moreover have "heap s' x = heap s x" if "d \<noteq> c" "x \<in> set (Q d)" for x d
  proof -
    have "x \<notin> set (Q c)" using lru_inv_cls [OF inv that(2)] lru_inv_cls [OF inv, of x c] that(1) by auto
    then show ?thesis using oq(2) sub by blast
  qed
  ultimately have "lru_inv s' (Q(c := remove1 it (Q c)))" by (intro lru_inv_upd [OF inv]) (use oq(3) s'(4,5) in auto)
  moreover have "\<forall>a. a \<notin> lru_items Q \<longrightarrow> heap s' a = heap s a" using oq(2) sub lru_itemsI [of _ Q c] by blast
  moreover have "heap s' it = heap s it" using oq(2) dll_split_links(3,4) [OF d] by simp
  ultimately show ?thesis using s'(1) oq(1) by blast
qed

section \<open>The cache invariant\<close>

lemma assoc_heap_cong:
  assumes inv: "assoc_inv s" and st: "same_table s s'" and tb: "primary_hashtable s' = primary_hashtable s"
    "old_hashtable s' = old_hashtable s"
    and eq: "\<And>x. x \<in> assoc_items s \<Longrightarrow> same_key (heap s' x) (heap s x) \<and> h_next (heap s' x) = h_next (heap s x)"
  shows "assoc_inv s' \<and> assoc_map s' = assoc_map s"
proof -
  obtain C where rep: "assoc_rep s C" using inv by (auto simp: assoc_inv_def)
  have items: "assoc_items s = chain_items C" using rep by (rule assoc_items_eq)
  have "slot_ok s' sl (C sl) = slot_ok s sl (C sl)" if "valid_slot s sl" for sl
  proof (rule slot_ok_cong [OF st])
    show "hpos_read s' sl = hpos_read s sl" using that tb by (cases sl) (simp_all add: hpos_read_def)
  qed (use eq items chain_itemsI in blast)
  then have rep': "assoc_rep s' C"
    using rep by (simp add: assoc_rep_def same_table_valid [OF st] same_table_wf [OF st])
  have "assoc_map s' = assoc_map s"
  proof (rule assoc_map_determined [OF rep'])
    fix k x
    have "x \<in> chain_items C \<Longrightarrow> item_key (heap s' x) = item_key (heap s x)" using eq items same_key_simps by blast
    then show "assoc_map s k = Some x \<longleftrightarrow> x \<in> chain_items C \<and> item_key (heap s' x) = k"
      using assoc_map_eq [OF rep, of k x] by auto
  qed
  with rep' show ?thesis by (auto simp: assoc_inv_def)
qed

definition linked_ok :: "'z lru_state_scheme \<Rightarrow> addr \<Rightarrow> bool" where
  "linked_ok s a \<longleftrightarrow> \<not> has_flag (it_flags (heap s a)) ITEM_SLABBED \<and> \<not> has_flag (it_flags (heap s a)) ITEM_CHUNKED \<and>
     0 < refcount (heap s a) \<and> valid_cls s (unat (ITEM_clsid (heap s a)))"

definition cinv :: "'z lru_state_scheme \<Rightarrow> (nat \<Rightarrow> addr list) \<Rightarrow> (u8 \<Rightarrow> addr list) \<Rightarrow> bool" where
  "cinv s F Q \<longleftrightarrow> assoc_inv s \<and> slabs_inv s F \<and> lru_inv s Q \<and> assoc_items s = lru_items Q \<and>
     (\<forall>a. has_flag (it_flags (heap s a)) ITEM_LINKED \<longleftrightarrow> a \<in> lru_items Q) \<and>
     (\<forall>a \<in> lru_items Q. linked_ok s a) \<and>
     curr_items s = of_nat (card (lru_items Q)) \<and>
     curr_bytes s = (\<Sum>a \<in> lru_items Q. ITEM_ntotal (heap s a))"

lemma cinv_linked: "cinv s F Q \<Longrightarrow> has_flag (it_flags (heap s a)) ITEM_LINKED \<longleftrightarrow> a \<in> lru_items Q"
  by (simp add: cinv_def)

lemma cinv_free_not_linked: "cinv s F Q \<Longrightarrow> a \<in> free_items F \<Longrightarrow> a \<notin> lru_items Q"
proof -
  assume c: "cinv s F Q" "a \<in> free_items F"
  then have "it_flags (heap s a) = ITEM_SLABBED" using slabs_inv_free_item by (auto simp: cinv_def)
  with cinv_linked [OF c(1), of a] show ?thesis by simp
qed

lemma cinv_map_item: "cinv s F Q \<Longrightarrow> assoc_map s k = Some x \<Longrightarrow> x \<in> lru_items Q \<and> item_key (heap s x) = k"
  using assoc_map_key [of s k x] by (auto simp: cinv_def assoc_items_def intro: ranI)

lemma cinv_item_map: "cinv s F Q \<Longrightarrow> x \<in> lru_items Q \<Longrightarrow> assoc_map s (item_key (heap s x)) = Some x"
proof -
  assume c: "cinv s F Q" "x \<in> lru_items Q"
  then have "x \<in> ran (assoc_map s)" by (simp add: cinv_def assoc_items_def)
  then obtain k where "assoc_map s k = Some x" by (auto simp: ran_def)
  moreover have "item_key (heap s x) = k" using cinv_map_item [OF c(1)] calculation by blast
  ultimately show ?thesis by simp
qed

text \<open>The variables the invariant speaks of, apart from the heap.\<close>

definition core :: "'z lru_state_scheme \<Rightarrow> _" where
  "core s = (hash s, hashpower s, primary_hashtable s, old_hashtable s, expanding s, expand_bucket s,
     slabclass s, power_largest s, (heads s, tails s, sizes s, sizes_bytes s, curr_items s, curr_bytes s))"

text \<open>Items equal in everything the invariant looks at, the reference count apart.\<close>

definition item_same :: "item \<Rightarrow> item \<Rightarrow> bool" where
  "item_same i j \<longleftrightarrow> same_key i j \<and> h_next i = h_next j \<and> i_next i = i_next j \<and> i_prev i = i_prev j \<and>
     slabs_clsid i = slabs_clsid j \<and> ITEM_ntotal i = ITEM_ntotal j \<and>
     has_flag (it_flags i) ITEM_LINKED = has_flag (it_flags j) ITEM_LINKED \<and>
     has_flag (it_flags i) ITEM_SLABBED = has_flag (it_flags j) ITEM_SLABBED \<and>
     has_flag (it_flags i) ITEM_CHUNKED = has_flag (it_flags j) ITEM_CHUNKED"

lemma item_same_refl [simp]: "item_same i i" by (simp add: item_same_def)

lemma ITEM_ntotal_clr_flags [simp]:
  "ITEM_ntotal (i\<lparr>it_flags := clr_flag f ITEM_ACTIVE\<rparr>) = ITEM_ntotal (i\<lparr>it_flags := f\<rparr>)"
  "ITEM_ntotal (i\<lparr>it_flags := clr_flag f ITEM_LINKED\<rparr>) = ITEM_ntotal (i\<lparr>it_flags := f\<rparr>)"
  "ITEM_ntotal (i\<lparr>it_flags := set_flag f ITEM_ACTIVE\<rparr>) = ITEM_ntotal (i\<lparr>it_flags := f\<rparr>)"
  "ITEM_ntotal (i\<lparr>it_flags := set_flag f ITEM_FETCHED\<rparr>) = ITEM_ntotal (i\<lparr>it_flags := f\<rparr>)"
  "ITEM_ntotal (i\<lparr>it_flags := set_flag f ITEM_LINKED\<rparr>) = ITEM_ntotal (i\<lparr>it_flags := f\<rparr>)"
  by (simp_all add: ITEM_ntotal_def)

lemma item_flags_self [simp]: "i\<lparr>it_flags := it_flags i\<rparr> = i" by simp

lemma cinv_cong:
  fixes s s' :: "'z lru_state_scheme"
  assumes c: "cinv s F Q" and core: "core s' = core s"
    and same: "\<And>a. item_same (heap s' a) (heap s a)"
    and free: "\<And>a. a \<in> free_items F \<Longrightarrow> it_flags (heap s' a) = it_flags (heap s a)"
    and ref: "\<And>a. a \<in> lru_items Q \<Longrightarrow> 0 < refcount (heap s' a)"
  shows "cinv s' F Q \<and> assoc_map s' = assoc_map s"
proof -
  have f: "hash s' = hash s" "hashpower s' = hashpower s" "primary_hashtable s' = primary_hashtable s"
    "old_hashtable s' = old_hashtable s" "expanding s' = expanding s" "expand_bucket s' = expand_bucket s"
    "slabclass s' = slabclass s" "power_largest s' = power_largest s" "heads s' = heads s" "tails s' = tails s"
    "sizes s' = sizes s" "sizes_bytes s' = sizes_bytes s" "curr_items s' = curr_items s" "curr_bytes s' = curr_bytes s"
    using core by (simp_all add: core_def)
  have st: "same_table s s'" by (simp add: same_table_def f)
  have a: "assoc_inv s' \<and> assoc_map s' = assoc_map s"
    by (rule assoc_heap_cong [OF _ st f(3,4)]) (use c same in \<open>auto simp: cinv_def item_same_def\<close>)
  have sl: "slabs_inv s' F"
    by (rule slabs_inv_cong [of s F]) (use c f same free in \<open>auto simp: cinv_def item_same_def\<close>)
  have lr: "lru_inv s' Q"
    by (rule lru_inv_cong [of s Q]) (use c f same in \<open>auto simp: cinv_def item_same_def\<close>)
  have "linked_ok s' x" if "x \<in> lru_items Q" for x
    using c same [of x] ref [OF that] that
    by (auto simp: cinv_def linked_ok_def item_same_def valid_cls_def f ITEM_clsid_def)
  moreover have "(\<Sum>a \<in> lru_items Q. ITEM_ntotal (heap s' a)) = (\<Sum>a \<in> lru_items Q. ITEM_ntotal (heap s a))"
    using same by (auto simp: item_same_def intro: sum.cong)
  moreover have "assoc_items s' = assoc_items s" using a by (simp add: assoc_items_def)
  ultimately show ?thesis using a sl lr c same f by (simp add: cinv_def item_same_def)
qed

lemma cinv_upd_item:
  assumes "cinv s F Q" "item_same (f (heap s a)) (heap s a)" "a \<notin> free_items F"
    and "a \<in> lru_items Q \<Longrightarrow> 0 < refcount (f (heap s a))"
  shows "cinv (upd_item a f s) F Q \<and> assoc_map (upd_item a f s) = assoc_map s"
proof (rule cinv_cong [OF assms(1)])
  show "core (upd_item a f s) = core s" by (simp add: core_def upd_item_def)
  show "0 < refcount (heap (upd_item a f s) x)" if "x \<in> lru_items Q" for x
    using assms(1,4) that by (auto simp: cinv_def linked_ok_def)
qed (use assms in auto)

lemma cinv_same_heap:
  fixes s s' :: "'z lru_state_scheme"
  assumes "cinv s F Q" "core s' = core s" "heap s' = heap s"
  shows "cinv s' F Q \<and> assoc_map s' = assoc_map s"
  by (rule cinv_cong [OF assms(1,2)]) (use assms(1,3) in \<open>auto simp: cinv_def linked_ok_def\<close>)

section \<open>Linking\<close>

lemma queue_frame_fields:
  assumes "queue_frame s s'"
  shows "hash s' = hash s" "hashpower s' = hashpower s" "primary_hashtable s' = primary_hashtable s"
    "old_hashtable s' = old_hashtable s" "expanding s' = expanding s" "expand_bucket s' = expand_bucket s"
    "slabclass s' = slabclass s" "power_largest s' = power_largest s" "curr_items s' = curr_items s"
    "curr_bytes s' = curr_bytes s" "settings s' = settings s" "current_time s' = current_time s"
    "item_locks s' = item_locks s" "item_lock_hashpower s' = item_lock_hashpower s" "cas_id s' = cas_id s"
    "tstats s' = tstats s"
  by (subst assms [unfolded queue_frame_def, THEN conjunct1], simp)+

lemma queue_frame_item:
  assumes "queue_frame s s'"
  shows "same_key (heap s' a) (heap s a)" "h_next (heap s' a) = h_next (heap s a)"
    "it_flags (heap s' a) = it_flags (heap s a)" "slabs_clsid (heap s' a) = slabs_clsid (heap s a)"
    "ITEM_ntotal (heap s' a) = ITEM_ntotal (heap s a)" "refcount (heap s' a) = refcount (heap s a)"
    "i_time (heap s' a) = i_time (heap s a)" "exptime (heap s' a) = exptime (heap s a)"
    "ITEM_get_cas (heap s' a) = ITEM_get_cas (heap s a)" "i_data (heap s' a) = i_data (heap s a)"
    "nbytes (heap s' a) = nbytes (heap s a)"
proof -
  have q: "qlinks_only (heap s) (heap s')" using assms by (simp add: queue_frame_def)
  show "same_key (heap s' a) (heap s a)"
    using qlinks_only_field [OF q, of nkey] qlinks_only_field [OF q, of i_key] by (simp add: same_key_def)
  show "h_next (heap s' a) = h_next (heap s a)" "it_flags (heap s' a) = it_flags (heap s a)"
    "slabs_clsid (heap s' a) = slabs_clsid (heap s a)" "ITEM_ntotal (heap s' a) = ITEM_ntotal (heap s a)"
    "refcount (heap s' a) = refcount (heap s a)" "i_time (heap s' a) = i_time (heap s a)"
    "exptime (heap s' a) = exptime (heap s a)" "ITEM_get_cas (heap s' a) = ITEM_get_cas (heap s a)"
    "i_data (heap s' a) = i_data (heap s a)" "nbytes (heap s' a) = nbytes (heap s a)"
    by (rule qlinks_only_field [OF q]; simp add: ITEM_get_cas_def)+
qed

text \<open>Items without their links: what the table and queue operations on other items leave alone.\<close>

definition strip :: "item \<Rightarrow> item" where
  "strip i = i\<lparr>h_next := NULL, i_next := NULL, i_prev := NULL\<rparr>"

lemma strip_field:
  assumes "strip i = strip j" "\<And>k v w z. f (k\<lparr>h_next := v, i_next := w, i_prev := z\<rparr>) = f k"
  shows "f i = f j"
proof -
  have "f (strip i) = f (strip j)" using assms(1) by simp
  then show ?thesis by (simp add: strip_def assms(2))
qed

lemma strip_fields:
  assumes "strip i = strip j"
  shows "refcount i = refcount j" "it_flags i = it_flags j" "slabs_clsid i = slabs_clsid j" "same_key i j"
    "exptime i = exptime j" "i_time i = i_time j" "i_data i = i_data j" "nbytes i = nbytes j"
    "ITEM_ntotal i = ITEM_ntotal j" "ITEM_get_cas i = ITEM_get_cas j" "item_key i = item_key j"
    "i_suffix i = i_suffix j" "nsuffix i = nsuffix j"
proof -
  note f = strip_field [OF assms]
  show "refcount i = refcount j" "it_flags i = it_flags j" "slabs_clsid i = slabs_clsid j" 
    "exptime i = exptime j" "i_time i = i_time j" "i_data i = i_data j" "nbytes i = nbytes j"
    "ITEM_ntotal i = ITEM_ntotal j" "ITEM_get_cas i = ITEM_get_cas j" "item_key i = item_key j"
    "i_suffix i = i_suffix j" "nsuffix i = nsuffix j"
    by (rule f; simp add: ITEM_get_cas_def item_key_def)+
  show "same_key i j" unfolding same_key_def by (intro conjI; rule f; simp)
qed

lemma strip_refcount: "strip i = strip j \<Longrightarrow> strip (i\<lparr>refcount := r\<rparr>) = strip (j\<lparr>refcount := r\<rparr>)"
  by (cases i; cases j) (simp add: strip_def)

lemma strip_links [simp]:
  "strip (i\<lparr>h_next := a\<rparr>) = strip i" "strip (i\<lparr>i_next := a\<rparr>) = strip i" "strip (i\<lparr>i_prev := a\<rparr>) = strip i"
  by (simp_all add: strip_def)

lemma hlinks_only_strip: "hlinks_only h h' \<Longrightarrow> strip (h' a) = strip (h a)"
  by (erule hlinks_only_field) simp

lemma queue_frame_strip: "queue_frame s s' \<Longrightarrow> strip (heap s' a) = strip (heap s a)"
proof -
  assume "queue_frame s s'"
  then have "qlinks_only (heap s) (heap s')" by (simp add: queue_frame_def)
  then show ?thesis by (rule qlinks_only_field) simp
qed

lemma queue_frame_assoc:
  assumes "assoc_inv s" "queue_frame s s'"
  shows "assoc_inv s' \<and> assoc_map s' = assoc_map s"
proof -
  note f = queue_frame_fields [OF assms(2)] and i = queue_frame_item [OF assms(2)]
  have "same_table s s'" by (simp add: same_table_def f)
  then show ?thesis by (rule assoc_heap_cong [OF assms(1) _ f(3,4)]) (simp add: i)
qed

text \<open>An item that may be linked: a plain allocated item that is in use and not linked yet.\<close>

definition linkable :: "'z lru_state_scheme \<Rightarrow> (nat \<Rightarrow> addr list) \<Rightarrow> addr \<Rightarrow> bool" where
  "linkable s F it \<longleftrightarrow> it \<notin> free_items F \<and> it \<noteq> NULL \<and>
     \<not> has_flag (it_flags (heap s it)) ITEM_LINKED \<and> \<not> has_flag (it_flags (heap s it)) ITEM_SLABBED \<and>
     \<not> has_flag (it_flags (heap s it)) ITEM_CHUNKED \<and> key_wf (heap s it) \<and>
     valid_cls s (unat (ITEM_clsid (heap s it))) \<and> refcount (heap s it) \<noteq> - 1"

lemma has_flag_or: "has_flag f (m OR n) \<longleftrightarrow> has_flag f m \<or> has_flag f n"
  by (simp add: has_flag_def bit.conj_disj_distrib word_or_eq_0_iff)

lemma has_flag_or_left: "has_flag (m OR n) f \<longleftrightarrow> has_flag m f \<or> has_flag n f"
  using has_flag_set [of m n f] by (simp add: set_flag_def)

lemma ITEM_set_cas_fields [simp]:
  "i_next (ITEM_set_cas v i) = i_next i" "i_prev (ITEM_set_cas v i) = i_prev i" "h_next (ITEM_set_cas v i) = h_next i"
  "it_flags (ITEM_set_cas v i) = it_flags i" "slabs_clsid (ITEM_set_cas v i) = slabs_clsid i"
  "nkey (ITEM_set_cas v i) = nkey i" "i_key (ITEM_set_cas v i) = i_key i" "refcount (ITEM_set_cas v i) = refcount i"
  "ITEM_ntotal (ITEM_set_cas v i) = ITEM_ntotal i" "i_time (ITEM_set_cas v i) = i_time i"
  "exptime (ITEM_set_cas v i) = exptime i" "i_data (ITEM_set_cas v i) = i_data i" "nbytes (ITEM_set_cas v i) = nbytes i"
  by (simp_all add: ITEM_set_cas_def)

text \<open>The first half of \<open>do_item_link\<close>: flag, time, statistics and the new CAS value.\<close>

definition link_prepare :: "addr \<Rightarrow> 'z lru_state_scheme \<Rightarrow> 'z lru_state_scheme" where
  "link_prepare it s =
     (let s = upd_item it (\<lambda>i. i\<lparr>it_flags := set_flag (it_flags i) ITEM_LINKED, i_time := current_time s\<rparr>) s;
          s = s\<lparr>curr_bytes := curr_bytes s + ITEM_ntotal (heap s it), curr_items := curr_items s + 1,
                total_items := total_items s + 1\<rparr>;
          (v, s) = (if has_flag (it_flags (heap s it)) ITEM_CAS \<and> use_cas (settings s) then get_cas_id s else (0, s))
      in upd_item it (ITEM_set_cas v) s)"

lemma do_item_link_unfold:
  "\<not> has_flag (it_flags (heap s it)) ITEM_LINKED \<Longrightarrow> \<not> has_flag (it_flags (heap s it)) ITEM_SLABBED \<Longrightarrow>
   do_item_link it hv s = do {
     s \<leftarrow> item_link_q it (assoc_insert it hv (link_prepare it s));
     Some (item_stats_sizes_add it (upd_item it (\<lambda>i. i\<lparr>refcount := refcount i + 1\<rparr>) s)) }"
  by (simp add: do_item_link_def link_prepare_def has_flag_or Let_def get_cas_id_def split: prod.split)

text \<open>The CAS value a link gives, and the linked item apart from its links.\<close>

definition link_cas :: "addr \<Rightarrow> 'z lru_state_scheme \<Rightarrow> u64" where
  "link_cas it s = (if has_flag (it_flags (heap s it)) ITEM_CAS \<and> use_cas (settings s) then cas_id s + 1 else 0)"

definition linked_item :: "addr \<Rightarrow> 'z lru_state_scheme \<Rightarrow> item" where
  "linked_item it s = ITEM_set_cas (link_cas it s) ((heap s it)
     \<lparr>it_flags := set_flag (it_flags (heap s it)) ITEM_LINKED, i_time := current_time s\<rparr>)"

lemma link_prepare_heap: "heap (link_prepare it s) = (heap s)(it := linked_item it s)"
  by (simp add: link_prepare_def Let_def get_cas_id_def upd_item_def linked_item_def link_cas_def)

lemma linked_item_fields [simp]:
  "i_next (linked_item it s) = i_next (heap s it)" "i_prev (linked_item it s) = i_prev (heap s it)"
  "h_next (linked_item it s) = h_next (heap s it)" "slabs_clsid (linked_item it s) = slabs_clsid (heap s it)"
  "nkey (linked_item it s) = nkey (heap s it)" "i_key (linked_item it s) = i_key (heap s it)"
  "refcount (linked_item it s) = refcount (heap s it)" "ITEM_ntotal (linked_item it s) = ITEM_ntotal (heap s it)"
  "i_time (linked_item it s) = current_time s" "exptime (linked_item it s) = exptime (heap s it)"
  "i_data (linked_item it s) = i_data (heap s it)" "nbytes (linked_item it s) = nbytes (heap s it)"
  "it_flags (linked_item it s) = set_flag (it_flags (heap s it)) ITEM_LINKED"
  by (simp_all add: linked_item_def)

lemma link_prepare_fields:
  "hash (link_prepare it s) = hash s" "hashpower (link_prepare it s) = hashpower s"
  "primary_hashtable (link_prepare it s) = primary_hashtable s" "old_hashtable (link_prepare it s) = old_hashtable s"
  "expanding (link_prepare it s) = expanding s" "expand_bucket (link_prepare it s) = expand_bucket s"
  "slabclass (link_prepare it s) = slabclass s" "power_largest (link_prepare it s) = power_largest s"
  "heads (link_prepare it s) = heads s" "tails (link_prepare it s) = tails s" "sizes (link_prepare it s) = sizes s"
  "sizes_bytes (link_prepare it s) = sizes_bytes s" "curr_items (link_prepare it s) = curr_items s + 1"
  "curr_bytes (link_prepare it s) = curr_bytes s + ITEM_ntotal (heap s it)"
  "settings (link_prepare it s) = settings s" "current_time (link_prepare it s) = current_time s"
  "item_locks (link_prepare it s) = item_locks s" "tstats (link_prepare it s) = tstats s"
  "item_lock_hashpower (link_prepare it s) = item_lock_hashpower s"
  by (simp_all add: link_prepare_def Let_def get_cas_id_def upd_item_def)

lemma hpos_write_lru_fields [simp]:
  "slabclass (hpos_write p v s) = slabclass s" "power_largest (hpos_write p v s) = power_largest s"
  "heads (hpos_write p v s) = heads s" "tails (hpos_write p v s) = tails s" "sizes (hpos_write p v s) = sizes s"
  "sizes_bytes (hpos_write p v s) = sizes_bytes s" "curr_items (hpos_write p v s) = curr_items s"
  "curr_bytes (hpos_write p v s) = curr_bytes s" "cas_id (hpos_write p v s) = cas_id s"
  "tstats (hpos_write p v s) = tstats s"
  by (simp_all add: hpos_write_def upd_item_def split: hpos.split)

lemma upd_item_lru_fields [simp]:
  "heads (upd_item a f s) = heads s" "tails (upd_item a f s) = tails s" "sizes (upd_item a f s) = sizes s"
  "sizes_bytes (upd_item a f s) = sizes_bytes s" "curr_items (upd_item a f s) = curr_items s"
  "curr_bytes (upd_item a f s) = curr_bytes s" "cas_id (upd_item a f s) = cas_id s"
  "tstats (upd_item a f s) = tstats s" "bump_buf (upd_item a f s) = bump_buf s"
  by (simp_all add: upd_item_def)

lemma assoc_insert_lru_fields [simp]:
  "slabclass (assoc_insert it hv s) = slabclass s" "power_largest (assoc_insert it hv s) = power_largest s"
  "heads (assoc_insert it hv s) = heads s" "tails (assoc_insert it hv s) = tails s"
  "sizes (assoc_insert it hv s) = sizes s" "sizes_bytes (assoc_insert it hv s) = sizes_bytes s"
  "curr_items (assoc_insert it hv s) = curr_items s" "curr_bytes (assoc_insert it hv s) = curr_bytes s"
  "settings (assoc_insert it hv s) = settings s" "current_time (assoc_insert it hv s) = current_time s"
  "hash (assoc_insert it hv s) = hash s" "cas_id (assoc_insert it hv s) = cas_id s"
  "item_locks (assoc_insert it hv s) = item_locks s" "tstats (assoc_insert it hv s) = tstats s" "item_lock_hashpower (assoc_insert it hv s) = item_lock_hashpower s"
  by (simp_all add: assoc_insert_def Let_def)

lemma link_prepare_cas:
  "link_cas it s \<noteq> 0 \<longrightarrow> link_cas it s = cas_id (link_prepare it s)"
  "cas_id (link_prepare it s) = cas_id s \<or> cas_id (link_prepare it s) = cas_id s + 1"
  by (simp_all add: link_prepare_def Let_def get_cas_id_def upd_item_def link_cas_def)

text \<open>Prepared and entered in the hash table, the item is ready for its queue.\<close>

lemma link_insert_correct:
  assumes c: "cinv s F Q" and it: "linkable s F it" and hv: "hv = hash s (item_key (heap s it))"
    and fresh: "assoc_map s (item_key (heap s it)) = None"
  defines "t \<equiv> assoc_insert it hv (link_prepare it s)"
  shows "assoc_inv t" "assoc_map t = (assoc_map s)(item_key (heap s it) \<mapsto> it)" "slabs_inv t F" "lru_inv t Q"
    "\<And>a. a \<noteq> it \<Longrightarrow> heap t a = heap s a"
    "\<exists>n. heap t it = (linked_item it s)\<lparr>h_next := n\<rparr>"
proof -
  let ?p = "link_prepare it s"
  note h = link_prepare_heap [of it s]
  note f = link_prepare_fields [of it s]
  have nl: "it \<notin> lru_items Q" using it cinv_linked [OF c, of it] by (simp add: linkable_def)
  have na: "it \<notin> assoc_items s" using nl c by (simp add: cinv_def)
  have st: "same_table s ?p" by (simp add: same_table_def f)
  have a: "assoc_inv ?p \<and> assoc_map ?p = assoc_map s"
    by (rule assoc_heap_cong [OF _ st f(3,4)]) (use c na in \<open>auto simp: cinv_def h\<close>)
  have key: "assoc_key ?p it = item_key (heap s it)" by (simp add: assoc_key_def h item_key_def)
  have fr: "assoc_fresh ?p it"
    using it na a by (simp add: assoc_fresh_def assoc_items_def linkable_def h key_wf_def)
  have i: "assoc_inv t \<and> assoc_map t = (assoc_map s)(item_key (heap s it) \<mapsto> it) \<and> assoc_key t = assoc_key ?p"
    using assoc_insert_correct [of ?p it] a fr fresh unfolding key by (simp add: t_def hv f(1))
  then show "assoc_inv t" "assoc_map t = (assoc_map s)(item_key (heap s it) \<mapsto> it)" by auto
  have ht: "heap t = (heap ?p)(it := (heap ?p it)\<lparr>h_next := hpos_read ?p (hash_slot hv ?p)\<rparr>)"
    unfolding t_def by (rule assoc_insert_heap)
  then show o: "heap t x = heap s x" if "x \<noteq> it" for x using that h by simp
  have nf: "it \<notin> free_items F" using it by (simp add: linkable_def)
  have o': "heap t x = heap s x" if "x \<in> free_items F \<or> x \<in> lru_items Q" for x using o nf nl that by metis
  have tf: "slabclass t = slabclass s" "power_largest t = power_largest s" "heads t = heads s" "tails t = tails s"
    "sizes t = sizes s" "sizes_bytes t = sizes_bytes s" by (simp_all add: t_def f)
  show "slabs_inv t F" by (rule slabs_inv_cong [of s F]) (use c in \<open>simp_all add: cinv_def tf o'\<close>)
  show "lru_inv t Q" by (rule lru_inv_cong [of s Q]) (use c in \<open>simp_all add: cinv_def tf o'\<close>)
  show "\<exists>n. heap t it = (linked_item it s)\<lparr>h_next := n\<rparr>"
    using ht h by auto
qed

lemma sizes_add_core: "core (item_stats_sizes_add it s) = core s" "heap (item_stats_sizes_add it s) = heap s"
  "core (item_stats_sizes_remove it s) = core s" "heap (item_stats_sizes_remove it s) = heap s"
  by (simp_all add: item_stats_sizes_add_def item_stats_sizes_remove_def core_def Let_def split: option.split)

lemma sizes_add_settings [simp]:
  "settings (item_stats_sizes_add it s) = settings s" "current_time (item_stats_sizes_add it s) = current_time s"
  "hash (item_stats_sizes_add it s) = hash s" "item_locks (item_stats_sizes_add it s) = item_locks s"
  "cas_id (item_stats_sizes_add it s) = cas_id s" "cas_id (item_stats_sizes_remove it s) = cas_id s"
  "power_largest (item_stats_sizes_add it s) = power_largest s" "power_largest (item_stats_sizes_remove it s) = power_largest s"
  "tstats (item_stats_sizes_add it s) = tstats s" "tstats (item_stats_sizes_remove it s) = tstats s"
  "settings (item_stats_sizes_remove it s) = settings s" "current_time (item_stats_sizes_remove it s) = current_time s"
  "hash (item_stats_sizes_remove it s) = hash s" "item_locks (item_stats_sizes_remove it s) = item_locks s"
  "item_lock_hashpower (item_stats_sizes_add it s) = item_lock_hashpower s"
  "item_lock_hashpower (item_stats_sizes_remove it s) = item_lock_hashpower s"
  by (simp_all add: item_stats_sizes_add_def item_stats_sizes_remove_def Let_def split: option.split)

text \<open>What the item operations leave alone, the CAS counter apart.\<close>

definition env :: "'z lru_state_scheme \<Rightarrow> _" where
  "env s = (settings s, current_time s, hash s, (item_locks s, item_lock_hashpower s), tstats s, power_largest s, cas_id s)"

lemma env_upd_item [simp]: "env (upd_item a f s) = env s" by (simp add: env_def)

lemma env_fields:
  "env s' = env s \<Longrightarrow> settings s' = settings s" "env s' = env s \<Longrightarrow> current_time s' = current_time s"
  "env s' = env s \<Longrightarrow> hash s' = hash s" "env s' = env s \<Longrightarrow> item_locks s' = item_locks s"
  "env s' = env s \<Longrightarrow> tstats s' = tstats s" "env s' = env s \<Longrightarrow> power_largest s' = power_largest s"
  "env s' = env s \<Longrightarrow> cas_id s' = cas_id s" "env s' = env s \<Longrightarrow> item_lock_hashpower s' = item_lock_hashpower s"
  by (simp_all add: env_def)

lemma do_item_link_correct:
  assumes c: "cinv s F Q" and it: "linkable s F it" and hv: "hv = hash s (item_key (heap s it))"
    and fresh: "assoc_map s (item_key (heap s it)) = None"
  defines "cl \<equiv> slabs_clsid (heap s it)"
  shows "\<exists>s'. do_item_link it hv s = Some s' \<and> cinv s' F (Q(cl := it # Q cl)) \<and>
    assoc_map s' = (assoc_map s)(item_key (heap s it) \<mapsto> it) \<and>
    strip (heap s' it) = strip ((linked_item it s)\<lparr>refcount := refcount (heap s it) + 1\<rparr>) \<and>
    (\<forall>a. a \<notin> insert it (lru_items Q) \<longrightarrow> heap s' a = heap s a) \<and>
    (\<forall>a. a \<noteq> it \<longrightarrow> strip (heap s' a) = strip (heap s a)) \<and>
    env s' = env (s\<lparr>cas_id := cas_id s'\<rparr>) \<and>
    (link_cas it s \<noteq> 0 \<longrightarrow> link_cas it s = cas_id s') \<and> (cas_id s' = cas_id s \<or> cas_id s' = cas_id s + 1)"
proof -
  let ?t = "assoc_insert it hv (link_prepare it s)" and ?Q = "Q(cl := it # Q cl)"
  note li = link_insert_correct [OF c it hv fresh] and f = link_prepare_fields [of it s]
  obtain n where hit: "heap ?t it = (linked_item it s)\<lparr>h_next := n\<rparr>" using li(6) by blast
  have lk: "it \<notin> free_items F" "it \<noteq> NULL" "\<not> has_flag (it_flags (heap s it)) ITEM_LINKED"
    "\<not> has_flag (it_flags (heap s it)) ITEM_SLABBED" "\<not> has_flag (it_flags (heap s it)) ITEM_CHUNKED"
    "valid_cls s (unat (ITEM_clsid (heap s it)))" "refcount (heap s it) \<noteq> - 1"
    using it by (auto simp: linkable_def)
  have nl: "it \<notin> lru_items Q" using lk(3) cinv_linked [OF c, of it] by simp
  obtain u where u: "do_item_link_q it ?t = Some u" "lru_inv u ?Q" "queue_frame ?t u"
    "\<forall>a. a \<notin> insert it (lru_items Q) \<longrightarrow> heap u a = heap ?t a"
    using do_item_link_q_correct [OF li(4) nl lk(2)] hit lk(4) by (auto simp: cl_def)
  note qf = queue_frame_fields [OF u(3)] and qi = queue_frame_item [OF u(3)]
  have ua: "assoc_inv u \<and> assoc_map u = (assoc_map s)(item_key (heap s it) \<mapsto> it)"
    using queue_frame_assoc [OF li(1) u(3)] li(2) by simp
  have us: "slabs_inv u F"
  proof (rule slabs_inv_cong [OF li(3) qf(7,8)])
    fix a assume "a \<in> free_items F"
    then have "a \<notin> insert it (lru_items Q)" using cinv_free_not_linked [OF c] lk(1) by auto
    then show "i_prev (heap u a) = i_prev (heap ?t a) \<and> i_next (heap u a) = i_next (heap ?t a) \<and>
       it_flags (heap u a) = it_flags (heap ?t a) \<and> slabs_clsid (heap u a) = slabs_clsid (heap ?t a)"
      using u(4) by simp
  qed
  have items: "lru_items ?Q = insert it (lru_items Q)" by (rule lru_items_insert)
  have rng: "ran ((assoc_map s)(item_key (heap s it) \<mapsto> it)) = insert it (lru_items Q)"
    using c fresh by (simp add: cinv_def assoc_items_def)
  have nt: "ITEM_ntotal (heap u a) = ITEM_ntotal (heap s a)" for a
    using qi(5) [of a] li(5) [of a] hit by (cases "a = it") auto
  have ok: "linked_ok (u\<lparr>heap := (heap u)(it := (heap u it)\<lparr>refcount := refcount (heap u it) + 1\<rparr>)\<rparr>) a"
    if a: "a \<in> insert it (lru_items Q)" for a
  proof (cases "a = it")
    case True
    have "refcount (heap s it) + 1 \<noteq> 0" using lk(7) by (metis add_eq_0_iff2)
    then show ?thesis using True lk(4-6) qi [of it] hit qf(8) f(8)
      by (simp add: linked_ok_def valid_cls_def ITEM_clsid_def word_neq_0_conv [symmetric])
  next
    case False
    with a c have "linked_ok s a" by (auto simp: cinv_def)
    with False show ?thesis using qi [of a] li(5) [of a] qf(8) f(8) by (simp add: linked_ok_def valid_cls_def ITEM_clsid_def)
  qed
  let ?w = "upd_item it (\<lambda>i. i\<lparr>refcount := refcount i + 1\<rparr>) u"
  have inv: "cinv ?w F ?Q"
    unfolding cinv_def
  proof (intro conjI)
    have st: "same_table u ?w" by (simp add: same_table_def)
    have aw: "assoc_inv ?w \<and> assoc_map ?w = assoc_map u"
      by (rule assoc_heap_cong [OF _ st]) (use ua in \<open>auto simp: same_key_def\<close>)
    then show "assoc_inv ?w" by simp
    show "assoc_items ?w = lru_items ?Q" using aw ua rng items by (simp add: assoc_items_def)
    show "slabs_inv ?w F" by (rule slabs_inv_cong [OF us]) auto
    show "lru_inv ?w ?Q" by (rule lru_inv_cong [OF u(2)]) auto
    show "\<forall>a. has_flag (it_flags (heap ?w a)) ITEM_LINKED \<longleftrightarrow> a \<in> lru_items ?Q"
    proof
      fix a show "has_flag (it_flags (heap ?w a)) ITEM_LINKED \<longleftrightarrow> a \<in> lru_items ?Q"
        using qi(3) [of a] li(5) [of a] hit cinv_linked [OF c, of a] items by (cases "a = it") auto
    qed
    show "\<forall>a\<in>lru_items ?Q. linked_ok ?w a" using ok items by (simp add: upd_item_def)
    show "curr_items ?w = of_nat (card (lru_items ?Q))"
      using c qf(9) f(13) nl by (simp add: items lru_items_finite cinv_def)
    show "curr_bytes ?w = (\<Sum>a\<in>lru_items ?Q. ITEM_ntotal (heap ?w a))"
    proof -
      have "ITEM_ntotal (heap ?w a) = ITEM_ntotal (heap s a)" for a by (simp add: nt)
      then show ?thesis using c qf(10) f(14) nl by (simp add: items lru_items_finite cinv_def)
    qed
  qed
  let ?z = "item_stats_sizes_add it ?w"
  have z: "cinv ?z F ?Q \<and> assoc_map ?z = assoc_map ?w"
    by (rule cinv_same_heap [OF inv]) (simp_all add: sizes_add_core)
  have mw: "assoc_map ?w = assoc_map u"
  proof -
    have st: "same_table u ?w" by (simp add: same_table_def)
    show ?thesis using assoc_heap_cong [OF _ st] ua by (auto simp: same_key_def)
  qed
  have ex: "do_item_link it hv s = Some ?z"
    using u(1) by (simp add: do_item_link_unfold [OF lk(3,4)] item_link_q_def)
  show ?thesis
  proof (rule exI [of _ ?z], intro conjI)
    show "assoc_map ?z = (assoc_map s)(item_key (heap s it) \<mapsto> it)" using z mw ua by simp
    have "strip (heap u it) = strip (linked_item it s)" using queue_frame_strip [OF u(3), of it] hit by simp
    from strip_refcount [OF this, of "refcount (heap s it) + 1"]
    show "strip (heap ?z it) = strip ((linked_item it s)\<lparr>refcount := refcount (heap s it) + 1\<rparr>)"
      using qi(6) [of it] hit by (simp add: sizes_add_core)
    show "\<forall>a. a \<notin> insert it (lru_items Q) \<longrightarrow> heap ?z a = heap s a" using u(4) li(5) by (simp add: sizes_add_core)
    show "\<forall>a. a \<noteq> it \<longrightarrow> strip (heap ?z a) = strip (heap s a)"
      using queue_frame_strip [OF u(3)] li(5) by (simp add: sizes_add_core)
    show "env ?z = env (s\<lparr>cas_id := cas_id ?z\<rparr>)"
      using qf(11,12,1,13,14,16,8) f(15,16,1,17,18,19,8) by (simp add: env_def)
  qed (use ex z qf(15) link_prepare_cas [of it s] in simp_all)
qed

end
