(* ===== verification/Items_Ops.thy ===== *)
theory Items_Ops
  imports Items_Inv
begin

text \<open>
  Releasing, unlinking, updating, replacing and looking up items: each operation keeps the cache
  invariant and acts on the map of keys as its name says.
\<close>

section \<open>Frames of the lower layers\<close>

lemma slab_more_fields:
  assumes "slab_state.more s' = slab_state.more (s :: 'z lru_state_scheme)"
  shows "heads s' = heads s" "tails s' = tails s" "sizes s' = sizes s" "sizes_bytes s' = sizes_bytes s"
    "curr_items s' = curr_items s" "curr_bytes s' = curr_bytes s" "cas_id s' = cas_id s" "itemstats s' = itemstats s"
    "tstats s' = tstats s" "bump_buf s' = bump_buf s"
  using assms by (cases s; cases s'; simp)+

lemma assoc_more_fields:
  assumes "assoc_state.more s' = assoc_state.more (s :: 'z lru_state_scheme)"
  shows "slabclass s' = slabclass s" "power_largest s' = power_largest s" "slab_state.more s' = slab_state.more s"
  using assms by (cases s; cases s'; simp)+

section \<open>Releasing a reference\<close>

lemma do_item_remove_keep:
  assumes c: "cinv s F Q" and it: "it \<notin> free_items F" "\<not> has_flag (it_flags (heap s it)) ITEM_SLABBED"
    and r: "1 < refcount (heap s it)"
  shows "do_item_remove it s = Some (upd_item it (\<lambda>i. i\<lparr>refcount := refcount i - 1\<rparr>) s) \<and>
    cinv (upd_item it (\<lambda>i. i\<lparr>refcount := refcount i - 1\<rparr>) s) F Q \<and>
    assoc_map (upd_item it (\<lambda>i. i\<lparr>refcount := refcount i - 1\<rparr>) s) = assoc_map s"
proof -
  have r': "refcount (heap s it) - 1 \<noteq> 0" "0 < refcount (heap s it)"
    using r by (auto simp: word_less_nat_alt)
  have "cinv (upd_item it (\<lambda>i. i\<lparr>refcount := refcount i - 1\<rparr>) s) F Q \<and>
    assoc_map (upd_item it (\<lambda>i. i\<lparr>refcount := refcount i - 1\<rparr>) s) = assoc_map s"
  proof (rule cinv_upd_item [OF c _ it(1)])
    show "0 < refcount ((heap s it)\<lparr>refcount := refcount (heap s it) - 1\<rparr>)"
      using r'(1) unfolding word_gt_0 by simp
  qed (simp add: item_same_def same_key_def)
  then show ?thesis using it r' by (simp add: do_item_remove_def)
qed

text \<open>An item only its holder knows: allocated, plain and neither linked nor free.\<close>

definition private_item :: "'z lru_state_scheme \<Rightarrow> (nat \<Rightarrow> addr list) \<Rightarrow> addr \<Rightarrow> bool" where
  "private_item s F it \<longleftrightarrow> it \<notin> free_items F \<and> it \<noteq> NULL \<and>
     \<not> has_flag (it_flags (heap s it)) ITEM_LINKED \<and> \<not> has_flag (it_flags (heap s it)) ITEM_SLABBED \<and>
     \<not> has_flag (it_flags (heap s it)) ITEM_CHUNKED \<and> valid_cls s (unat (ITEM_clsid (heap s it)))"

lemma do_item_remove_last:
  assumes c: "cinv s F Q" and p: "private_item s F it" and r: "refcount (heap s it) = 1"
  defines "k \<equiv> unat (ITEM_clsid (heap s it))"
  shows "\<exists>s'. do_item_remove it s = Some s' \<and> cinv s' (F(k := it # F k)) Q \<and> assoc_map s' = assoc_map s \<and>
    (\<forall>a. a \<notin> insert it (free_items F) \<longrightarrow> heap s' a = heap s a) \<and> env s' = env s"
proof -
  let ?t = "upd_item it (\<lambda>i. i\<lparr>refcount := refcount i - 1\<rparr>) s" and ?F = "F(k := it # F k)"
  have it: "it \<notin> free_items F" "it \<noteq> NULL" "\<not> has_flag (it_flags (heap s it)) ITEM_LINKED"
    "\<not> has_flag (it_flags (heap s it)) ITEM_SLABBED" "\<not> has_flag (it_flags (heap s it)) ITEM_CHUNKED"
    "1 \<le> k" "k \<le> power_largest s" using p by (auto simp: private_item_def valid_cls_def k_def)
  have nl: "it \<notin> lru_items Q" using it(3) cinv_linked [OF c] by simp
  have ct: "cinv ?t F Q \<and> assoc_map ?t = assoc_map s"
    by (rule cinv_upd_item [OF c]) (use it nl in \<open>auto simp: item_same_def same_key_def\<close>)
  have "dll (heap s) (heads s d) (tails s d) (Q d)" for d using c by (auto simp: cinv_def lru_inv_def lru_ok_def)
  then have ends: "it \<noteq> heads s d" "it \<noteq> tails s d" for d
    using nl it(2) lru_itemsI [of it Q d] first_or_eqD [of "Q d" it] last_or_eqD [of "Q d" it] by (metis dll_def)+
  have kt: "unat (ITEM_clsid (heap ?t it)) = k" by (simp add: k_def ITEM_clsid_def)
  obtain s' where s': "do_slabs_free it (ITEM_ntotal (heap ?t it)) k ?t = Some s'" "slabs_inv s' ?F" "slab_frame ?t s'"
    "\<forall>a. a \<notin> insert it (free_items F) \<longrightarrow> heap s' a = heap ?t a"
    using do_slabs_free_correct [of ?t F k it "ITEM_ntotal (heap ?t it)"] ct it by (auto simp: cinv_def)
  have rm: "do_item_remove it s = Some s'"
    using it r ends s'(1) kt by (simp add: do_item_remove_def item_free_def slabs_free_def)
  have sm: "slab_state.more s' = slab_state.more ?t" using s'(3) by (simp add: slab_frame_def)
  note lf = slab_more_fields [OF sm]
  have same: "heap s' a = heap ?t a" if "a \<in> lru_items Q" for a
  proof -
    have "a \<notin> insert it (free_items F)" using cinv_free_not_linked [OF c, of a] nl that by auto
    then show ?thesis using s'(4) by blast
  qed
  have st: "same_table ?t s'" "primary_hashtable s' = primary_hashtable ?t" "old_hashtable s' = old_hashtable ?t"
    "power_largest s' = power_largest ?t"
    using s'(3) by (simp_all add: same_table_def slab_frame_def)
  have as: "assoc_inv s' \<and> assoc_map s' = assoc_map ?t"
    by (rule assoc_heap_cong [OF _ st(1-3)]) (use ct same in \<open>auto simp: cinv_def\<close>)
  have lr: "lru_inv s' Q"
    by (rule lru_inv_cong [of ?t Q]) (use ct same lf in \<open>auto simp: cinv_def\<close>)
  have fl: "has_flag (it_flags (heap s' a)) ITEM_LINKED \<longleftrightarrow> a \<in> lru_items Q" for a
  proof (cases "a \<in> free_items ?F")
    case True
    then have "it_flags (heap s' a) = ITEM_SLABBED" using slabs_inv_free_item [OF s'(2)] by blast
    moreover have "a \<notin> lru_items Q" using True nl cinv_free_not_linked [OF c] by (auto simp: free_items_upd)
    ultimately show ?thesis by simp
  next
    case False
    then have "heap s' a = heap ?t a" using s'(4) by (simp add: free_items_upd)
    then show ?thesis using cinv_linked [of ?t F Q a] ct by simp
  qed
  have ai: "assoc_items s' = lru_items Q" using as ct c by (simp add: cinv_def assoc_items_def)
  have ok: "linked_ok s' a" if "a \<in> lru_items Q" for a
  proof -
    have "linked_ok ?t a" using ct that by (auto simp: cinv_def)
    then show ?thesis unfolding linked_ok_def valid_cls_def same [OF that] st(4) .
  qed
  have sm': "(\<Sum>a\<in>lru_items Q. ITEM_ntotal (heap s' a)) = (\<Sum>a\<in>lru_items Q. ITEM_ntotal (heap ?t a))"
    using same by simp
  have cc: "curr_items s' = of_nat (card (lru_items Q))" "curr_bytes s' = (\<Sum>a\<in>lru_items Q. ITEM_ntotal (heap s' a))"
    unfolding sm' lf(5,6) using ct unfolding cinv_def by blast+
  have "cinv s' ?F Q" unfolding cinv_def using as ai lr fl s'(2) ok cc by blast
  then show ?thesis using rm as ct s'(3,4) by (intro exI [of _ s']) (auto simp: slab_frame_def env_def lf)
qed

section \<open>Unlinking\<close>

definition unlink_prepare :: "addr \<Rightarrow> 'z lru_state_scheme \<Rightarrow> 'z lru_state_scheme" where
  "unlink_prepare it s =
     (let s = upd_item it (\<lambda>i. i\<lparr>it_flags := clr_flag (it_flags i) ITEM_LINKED\<rparr>) s;
          s = s\<lparr>curr_bytes := curr_bytes s - ITEM_ntotal (heap s it), curr_items := curr_items s - 1\<rparr>
      in item_stats_sizes_remove it s)"

lemma do_item_unlink_unfold:
  "has_flag (it_flags (heap s it)) ITEM_LINKED \<Longrightarrow>
   do_item_unlink it hv s = do {
     t \<leftarrow> assoc_delete (item_key (heap s it)) hv (unlink_prepare it s);
     u \<leftarrow> do_item_unlink_q it t;
     do_item_remove it u }"
  by (simp add: do_item_unlink_def unlink_prepare_def Let_def item_unlink_q_def sizes_add_core item_key_def)

lemma do_item_unlink_nolock_eq: "do_item_unlink_nolock it hv s = do_item_unlink it hv s"
  by (simp add: do_item_unlink_def do_item_unlink_nolock_def item_unlink_q_def)

lemma unlink_prepare_heap:
  "heap (unlink_prepare it s) = (heap s)(it := (heap s it)\<lparr>it_flags := clr_flag (it_flags (heap s it)) ITEM_LINKED\<rparr>)"
  by (simp add: unlink_prepare_def Let_def sizes_add_core)

lemma unlink_prepare_fields:
  "hash (unlink_prepare it s) = hash s" "hashpower (unlink_prepare it s) = hashpower s"
  "primary_hashtable (unlink_prepare it s) = primary_hashtable s" "old_hashtable (unlink_prepare it s) = old_hashtable s"
  "expanding (unlink_prepare it s) = expanding s" "expand_bucket (unlink_prepare it s) = expand_bucket s"
  "slabclass (unlink_prepare it s) = slabclass s" "power_largest (unlink_prepare it s) = power_largest s"
  "heads (unlink_prepare it s) = heads s" "tails (unlink_prepare it s) = tails s" "sizes (unlink_prepare it s) = sizes s"
  "sizes_bytes (unlink_prepare it s) = sizes_bytes s" "curr_items (unlink_prepare it s) = curr_items s - 1"
  "curr_bytes (unlink_prepare it s) = curr_bytes s - ITEM_ntotal (heap s it)"
  "settings (unlink_prepare it s) = settings s" "current_time (unlink_prepare it s) = current_time s"
  "item_locks (unlink_prepare it s) = item_locks s" "tstats (unlink_prepare it s) = tstats s"
  "cas_id (unlink_prepare it s) = cas_id s" "item_lock_hashpower (unlink_prepare it s) = item_lock_hashpower s"
  by (simp_all add: unlink_prepare_def Let_def item_stats_sizes_remove_def upd_item_def split: option.split)

text \<open>Everything of \<open>do_item_unlink\<close> but the release: the item is out of the table and its queue.\<close>

lemma unlink_core:
  assumes c: "cinv s F Q" and it: "it \<in> lru_items Q" and hv: "hv = hash s (item_key (heap s it))"
  defines "cl \<equiv> slabs_clsid (heap s it)"
  shows "\<exists>t u. assoc_delete (item_key (heap s it)) hv (unlink_prepare it s) = Some t \<and> do_item_unlink_q it t = Some u \<and>
    cinv u F (Q(cl := remove1 it (Q cl))) \<and> assoc_map u = (assoc_map s)(item_key (heap s it) := None) \<and>
    private_item u F it \<and>
    strip (heap u it) = strip ((heap s it)\<lparr>it_flags := clr_flag (it_flags (heap s it)) ITEM_LINKED\<rparr>) \<and>
    (\<forall>a. a \<notin> lru_items Q \<longrightarrow> heap u a = heap s a) \<and> (\<forall>a. a \<noteq> it \<longrightarrow> strip (heap u a) = strip (heap s a)) \<and>
    env u = env s"
proof -
  let ?p = "unlink_prepare it s" and ?k = "item_key (heap s it)" and ?Q = "Q(cl := remove1 it (Q cl))"
  note h = unlink_prepare_heap [of it s] and f = unlink_prepare_fields [of it s]
  have lr: "lru_inv s Q" and ok: "linked_ok s it" using c it by (auto simp: cinv_def)
  have itq: "it \<in> set (Q cl)" unfolding cl_def using lru_items_cls [OF lr it] .
  have nt: "ITEM_ntotal (heap ?p a) = ITEM_ntotal (heap s a)" for a by (simp add: h)
  have st: "same_table s ?p" by (simp add: same_table_def f)
  have a: "assoc_inv ?p \<and> assoc_map ?p = assoc_map s"
    by (rule assoc_heap_cong [OF _ st f(3,4)]) (use c in \<open>auto simp: cinv_def h same_key_def\<close>)
  have m: "assoc_map ?p ?k = Some it" using a cinv_item_map [OF c it] by simp
  obtain t where t: "assoc_delete ?k hv ?p = Some t" "assoc_inv t" "assoc_map t = (assoc_map s)(?k := None)"
    "assoc_frame ?p t" "same_table ?p t" "\<forall>y. y \<notin> assoc_items ?p \<longrightarrow> heap t y = heap ?p y"
    using assoc_delete_correct [OF _ m] a hv f(1) by auto
  have hl: "hlinks_only (heap ?p) (heap t)" and mo: "assoc_state.more t = assoc_state.more ?p"
    using t(4) by (auto simp: assoc_frame_def)
  note sf = assoc_more_fields [OF mo] and lf = slab_more_fields [OF assoc_more_fields(3) [OF mo]]
  have tf: "i_prev (heap t x) = i_prev (heap ?p x)" "i_next (heap t x) = i_next (heap ?p x)"
    "it_flags (heap t x) = it_flags (heap ?p x)" "slabs_clsid (heap t x) = slabs_clsid (heap ?p x)"
    "ITEM_ntotal (heap t x) = ITEM_ntotal (heap ?p x)" "refcount (heap t x) = refcount (heap ?p x)"
    "same_key (heap t x) (heap ?p x)" for x
    by (rule hlinks_only_field [OF hl], simp)+ (rule hlinks_only_key [OF hl])
  have lrt: "lru_inv t Q"
    by (rule lru_inv_cong [OF lr]) (use lf f tf in \<open>simp_all add: h\<close>)
  obtain u where u: "do_item_unlink_q it t = Some u" "lru_inv u ?Q" "queue_frame t u"
    "\<forall>a. a \<notin> lru_items Q \<longrightarrow> heap u a = heap t a" "heap u it = heap t it"
    using do_item_unlink_q_correct [OF lrt itq] by blast
  note qf = queue_frame_fields [OF u(3)] and qi = queue_frame_item [OF u(3)]
  have ua: "assoc_inv u \<and> assoc_map u = (assoc_map s)(?k := None)"
    using queue_frame_assoc [OF t(2) u(3)] t(3) by simp
  have ai: "assoc_items ?p = lru_items Q" using a c by (simp add: cinv_def assoc_items_def)
  have out: "heap u x = heap s x" if "x \<notin> lru_items Q" for x
    using u(4) t(6) ai that it h by auto
  have us: "slabs_inv u F"
    by (rule slabs_inv_cong [of s F]) (use c qf sf f out cinv_free_not_linked [OF c] in \<open>auto simp: cinv_def\<close>)
  have items: "lru_items ?Q = lru_items Q - {it}" by (rule lru_items_remove [OF lr itq])
  have ui: "assoc_items u = lru_items Q - {it}"
    using assoc_delete_items [of s ?k it u] ua c cinv_item_map [OF c it] by (simp add: cinv_def)
  have str: "strip (heap u x) = strip (heap ?p x)" for x
    using queue_frame_strip [OF u(3), of x] hlinks_only_strip [OF hl, of x] by simp
  have fld: "refcount (heap u x) = refcount (heap s x) \<and> same_key (heap u x) (heap s x) \<and>
      slabs_clsid (heap u x) = slabs_clsid (heap s x) \<and> ITEM_ntotal (heap u x) = ITEM_ntotal (heap s x)" for x
    using qi [of x] tf [of x] h nt by (auto simp: same_key_def)
  have flg: "it_flags (heap u x) = (if x = it then clr_flag (it_flags (heap s x)) ITEM_LINKED else it_flags (heap s x))" for x
    using qi(3) [of x] tf(3) [of x] h by simp
  have inv: "cinv u F ?Q"
    unfolding cinv_def
  proof (intro conjI)
    show "\<forall>a. has_flag (it_flags (heap u a)) ITEM_LINKED \<longleftrightarrow> a \<in> lru_items ?Q"
      using cinv_linked [OF c] by (auto simp: flg items)
    show "\<forall>a\<in>lru_items ?Q. linked_ok u a"
    proof
      fix a assume a: "a \<in> lru_items ?Q"
      then have "linked_ok s a" "a \<noteq> it" using c items by (auto simp: cinv_def)
      then show "linked_ok u a" using fld [of a] flg [of a] qf(8) sf(2) f(8) by (simp add: linked_ok_def valid_cls_def ITEM_clsid_def)
    qed
    show "curr_items u = of_nat (card (lru_items ?Q))"
    proof -
      obtain n where n: "card (lru_items Q) = Suc n" using it lru_items_finite [of Q] by (metis card_eq_0_iff empty_iff not0_implies_Suc)
      then have "card (lru_items ?Q) = n" using it lru_items_finite [of Q] by (simp add: items)
      then show ?thesis using n c qf(9) lf(5) f(13) by (simp add: cinv_def)
    qed
    show "curr_bytes u = (\<Sum>a\<in>lru_items ?Q. ITEM_ntotal (heap u a))"
      using c qf(10) lf(6) f(14) fld it lru_items_finite [of Q]
      by (simp add: cinv_def items sum_diff1)
  qed (use ua us u(2) ui items in auto)
  have nf: "it \<notin> free_items F" using cinv_free_not_linked [OF c] it by blast
  have nn: "it \<noteq> NULL" using lru_inv_nonnull [OF lr] it by metis
  have pv: "private_item u F it"
    using nf nn ok flg [of it] fld [of it] qf(8) sf(2) f(8) by (simp add: private_item_def linked_ok_def valid_cls_def ITEM_clsid_def)
  have "settings t = settings ?p" "current_time t = current_time ?p" "hash t = hash ?p" "item_locks t = item_locks ?p"
    "item_lock_hashpower t = item_lock_hashpower ?p" using t(4) by (auto simp: assoc_frame_def)
  then have env: "env u = env s" using qf(11,12,1,13,14,16) f(15,16,1,17,18,20) lf(9) by (simp add: env_def qf(8,15) sf(2) f(8,19) lf(7))
  show ?thesis using t(1) u(1) inv ua pv out str env h by (intro exI [of _ t] exI [of _ u]) simp
qed


text \<open>The reference is dropped and, when it was the last one, the chunk goes back to its class.\<close>

definition freed :: "'z lru_state_scheme \<Rightarrow> addr \<Rightarrow> (nat \<Rightarrow> addr list) \<Rightarrow> nat \<Rightarrow> addr list" where
  "freed s it F = (if refcount (heap s it) = 1
     then F(unat (ITEM_clsid (heap s it)) := it # F (unat (ITEM_clsid (heap s it)))) else F)"

lemma freed_items: "free_items (freed s it F) = (if refcount (heap s it) = 1 then insert it (free_items F) else free_items F)"
  by (simp add: freed_def free_items_upd)

lemma word_gt_1: "(r :: 'a::len word) \<noteq> 0 \<Longrightarrow> r \<noteq> 1 \<Longrightarrow> 1 < r"
  by (metis linorder_neqE word_less_1)

lemma do_item_remove_private:
  assumes c: "cinv s F Q" and p: "private_item s F it" and r: "refcount (heap s it) \<noteq> 0"
  shows "\<exists>s'. do_item_remove it s = Some s' \<and> cinv s' (freed s it F) Q \<and> assoc_map s' = assoc_map s \<and>
    (\<forall>a. a \<notin> insert it (free_items F) \<longrightarrow> heap s' a = heap s a) \<and> env s' = env s \<and>
    (refcount (heap s it) \<noteq> 1 \<longrightarrow> private_item s' F it \<and> heap s' it = (heap s it)\<lparr>refcount := refcount (heap s it) - 1\<rparr>)"
proof (cases "refcount (heap s it) = 1")
  case True
  then show ?thesis using do_item_remove_last [OF c p True] by (simp add: freed_def)
next
  case False
  have "1 < refcount (heap s it)" by (rule word_gt_1 [OF r False])
  moreover have "it \<notin> free_items F" "\<not> has_flag (it_flags (heap s it)) ITEM_SLABBED" using p by (auto simp: private_item_def)
  ultimately show ?thesis
    using do_item_remove_keep [OF c, of it] False p
    by (intro exI [of _ "upd_item it (\<lambda>i. i\<lparr>refcount := refcount i - 1\<rparr>) s"])
       (simp add: freed_def private_item_def ITEM_clsid_def valid_cls_def)
qed

lemma do_item_unlink_correct:
  assumes c: "cinv s F Q" and it: "it \<in> lru_items Q" and hv: "hv = hash s (item_key (heap s it))"
  defines "cl \<equiv> slabs_clsid (heap s it)"
  shows "\<exists>s'. do_item_unlink it hv s = Some s' \<and> cinv s' (freed s it F) (Q(cl := remove1 it (Q cl))) \<and>
    assoc_map s' = (assoc_map s)(item_key (heap s it) := None) \<and>
    (\<forall>a. a \<notin> lru_items Q \<longrightarrow> a \<notin> free_items F \<longrightarrow> heap s' a = heap s a) \<and>
    (\<forall>a. a \<noteq> it \<longrightarrow> a \<notin> free_items F \<longrightarrow> strip (heap s' a) = strip (heap s a)) \<and> env s' = env s \<and>
    (refcount (heap s it) \<noteq> 1 \<longrightarrow> private_item s' F it \<and>
       strip (heap s' it) = strip ((heap s it)\<lparr>it_flags := clr_flag (it_flags (heap s it)) ITEM_LINKED,
         refcount := refcount (heap s it) - 1\<rparr>))"
proof -
  obtain t u where u: "assoc_delete (item_key (heap s it)) hv (unlink_prepare it s) = Some t" "do_item_unlink_q it t = Some u"
    "cinv u F (Q(cl := remove1 it (Q cl)))" "assoc_map u = (assoc_map s)(item_key (heap s it) := None)" "private_item u F it"
    "strip (heap u it) = strip ((heap s it)\<lparr>it_flags := clr_flag (it_flags (heap s it)) ITEM_LINKED\<rparr>)"
    "\<forall>a. a \<notin> lru_items Q \<longrightarrow> heap u a = heap s a" "\<forall>a. a \<noteq> it \<longrightarrow> strip (heap u a) = strip (heap s a)" "env u = env s"
    using unlink_core [OF c it hv] unfolding cl_def by blast
  have r: "refcount (heap u it) = refcount (heap s it)" "slabs_clsid (heap u it) = slabs_clsid (heap s it)"
    using strip_fields(1,3) [OF u(6)] by auto
  have "refcount (heap s it) \<noteq> 0" using c it by (auto simp: cinv_def linked_ok_def)
  then obtain s' where s': "do_item_remove it u = Some s'" "cinv s' (freed u it F) (Q(cl := remove1 it (Q cl)))"
    "assoc_map s' = assoc_map u" "\<forall>a. a \<notin> insert it (free_items F) \<longrightarrow> heap s' a = heap u a" "env s' = env u"
    "refcount (heap u it) \<noteq> 1 \<longrightarrow> private_item s' F it \<and> heap s' it = (heap u it)\<lparr>refcount := refcount (heap u it) - 1\<rparr>"
    using do_item_remove_private [OF u(3,5)] r by auto
  have fr: "freed u it F = freed s it F" by (simp add: freed_def r ITEM_clsid_def)
  have lk: "has_flag (it_flags (heap s it)) ITEM_LINKED" using cinv_linked [OF c] it by blast
  show ?thesis
  proof (rule exI [of _ s'], intro conjI)
    show "do_item_unlink it hv s = Some s'" using u(1,2) s'(1) by (simp add: do_item_unlink_unfold [OF lk])
    show "\<forall>a. a \<notin> lru_items Q \<longrightarrow> a \<notin> free_items F \<longrightarrow> heap s' a = heap s a" using s'(4) u(7) it by auto
    show "\<forall>a. a \<noteq> it \<longrightarrow> a \<notin> free_items F \<longrightarrow> strip (heap s' a) = strip (heap s a)" using s'(4) u(8) by auto
    show "refcount (heap s it) \<noteq> 1 \<longrightarrow> private_item s' F it \<and>
       strip (heap s' it) = strip ((heap s it)\<lparr>it_flags := clr_flag (it_flags (heap s it)) ITEM_LINKED,
         refcount := refcount (heap s it) - 1\<rparr>)"
      using s'(6) r strip_refcount [OF u(6), of "refcount (heap s it) - 1"] by simp
  qed (use s' u fr in auto)
qed

section \<open>Replacing\<close>

lemma do_item_replace_correct:
  assumes c: "cinv s F Q" and it: "it \<in> lru_items Q" and hv: "hv = hash s (item_key (heap s it))"
    and new: "linkable s F nw" "item_key (heap s nw) = item_key (heap s it)"
  defines "Q' \<equiv> Q(slabs_clsid (heap s it) := remove1 it (Q (slabs_clsid (heap s it))))"
  shows "\<exists>s'. do_item_replace it nw hv s = Some s' \<and>
    cinv s' (freed s it F) (Q'(slabs_clsid (heap s nw) := nw # Q' (slabs_clsid (heap s nw)))) \<and>
    assoc_map s' = (assoc_map s)(item_key (heap s it) \<mapsto> nw) \<and> env s' = env (s\<lparr>cas_id := cas_id s'\<rparr>) \<and>
    strip (heap s' nw) = strip ((linked_item nw s)\<lparr>refcount := refcount (heap s nw) + 1\<rparr>) \<and>
    (\<forall>a. a \<noteq> it \<longrightarrow> a \<noteq> nw \<longrightarrow> a \<notin> free_items F \<longrightarrow> strip (heap s' a) = strip (heap s a)) \<and>
    (link_cas nw s \<noteq> 0 \<longrightarrow> link_cas nw s = cas_id s') \<and>
    (refcount (heap s it) \<noteq> 1 \<longrightarrow> private_item s' F it \<and> refcount (heap s' it) = refcount (heap s it) - 1 \<and>
       strip (heap s' it) = strip ((heap s it)\<lparr>it_flags := clr_flag (it_flags (heap s it)) ITEM_LINKED,
         refcount := refcount (heap s it) - 1\<rparr>))"
proof -
  have nl: "nw \<notin> lru_items Q" "nw \<notin> free_items F" using new(1) cinv_linked [OF c, of nw] by (auto simp: linkable_def)
  obtain t where t: "do_item_unlink it hv s = Some t" "cinv t (freed s it F) Q'"
    "assoc_map t = (assoc_map s)(item_key (heap s it) := None)"
    "\<forall>a. a \<notin> lru_items Q \<longrightarrow> a \<notin> free_items F \<longrightarrow> heap t a = heap s a" "env t = env s"
    "\<forall>a. a \<noteq> it \<longrightarrow> a \<notin> free_items F \<longrightarrow> strip (heap t a) = strip (heap s a)"
    "refcount (heap s it) \<noteq> 1 \<longrightarrow> private_item t F it \<and>
       strip (heap t it) = strip ((heap s it)\<lparr>it_flags := clr_flag (it_flags (heap s it)) ITEM_LINKED,
         refcount := refcount (heap s it) - 1\<rparr>)"
    using do_item_unlink_correct [OF c it hv] unfolding Q'_def by blast
  have hn: "heap t nw = heap s nw" using t(4) nl by blast
  note e = env_fields [OF t(5)]
  have lk: "linkable t (freed s it F) nw"
    using new(1) nl it e(6) by (auto simp: linkable_def hn freed_items valid_cls_def)
  have li: "linked_item nw t = linked_item nw s" by (simp add: linked_item_def link_cas_def hn e)
  have lc: "link_cas nw t = link_cas nw s" by (simp add: link_cas_def hn e)
  obtain s' where s': "do_item_link nw hv t = Some s'"
    "cinv s' (freed s it F) (Q'(slabs_clsid (heap s nw) := nw # Q' (slabs_clsid (heap s nw))))"
    "assoc_map s' = (assoc_map t)(item_key (heap s nw) \<mapsto> nw)" "env s' = env (t\<lparr>cas_id := cas_id s'\<rparr>)"
    "strip (heap s' nw) = strip ((linked_item nw s)\<lparr>refcount := refcount (heap s nw) + 1\<rparr>)"
    "\<forall>a. a \<noteq> nw \<longrightarrow> strip (heap s' a) = strip (heap t a)" "link_cas nw t \<noteq> 0 \<longrightarrow> link_cas nw t = cas_id s'"
    using do_item_link_correct [OF t(2) lk] t(3) new(2) hv unfolding hn li e(3) by auto
  have "\<not> has_flag (it_flags (heap s it)) ITEM_SLABBED" using c it by (auto simp: cinv_def linked_ok_def)
  then have "do_item_replace it nw hv s = Some s'" using t(1) s'(1) by (simp add: do_item_replace_def)
  moreover have "private_item s' F it \<and> refcount (heap s' it) = refcount (heap s it) - 1 \<and>
       strip (heap s' it) = strip ((heap s it)\<lparr>it_flags := clr_flag (it_flags (heap s it)) ITEM_LINKED,
         refcount := refcount (heap s it) - 1\<rparr>)" if "refcount (heap s it) \<noteq> 1"
  proof -
    have it': "it \<noteq> nw" using nl it by blast
    have x: "strip (heap s' it) = strip (heap t it)" using s'(6) it' by simp
    have "power_largest s' = power_largest t" using s'(4) by (simp add: env_def)
    then have "private_item s' F it" using t(7) that strip_fields(2,3) [OF x] by (simp add: private_item_def ITEM_clsid_def valid_cls_def)
    then show ?thesis using t(7) that x strip_fields(1) [OF x] strip_fields(1) [of "heap t it"] by fastforce
  qed
  ultimately show ?thesis using s' t(3,6) new(2) e lc by (intro exI [of _ s']) (simp add: env_def)
qed

end
