(* ===== verification/Items_Get.thy ===== *)
theory Items_Get
  imports Items_Ops
begin

text \<open>
  Lookups and LRU bumps. A bump moves an item between or within the LRU queues and never touches
  what is stored; a lookup returns the live item stored under the key, and unlinks the item it
  finds expired or flushed.
\<close>

section \<open>Bumping\<close>

definition same_value :: "item \<Rightarrow> item \<Rightarrow> bool" where
  "same_value i j \<longleftrightarrow> same_key i j \<and> i_data i = i_data j \<and> nbytes i = nbytes j \<and> exptime i = exptime j \<and>
     ITEM_get_cas i = ITEM_get_cas j \<and> refcount i = refcount j \<and> ITEM_clsid i = ITEM_clsid j \<and>
     ITEM_ntotal i = ITEM_ntotal j \<and> h_next i = h_next j \<and>
     has_flag (it_flags i) ITEM_LINKED = has_flag (it_flags j) ITEM_LINKED \<and>
     has_flag (it_flags i) ITEM_SLABBED = has_flag (it_flags j) ITEM_SLABBED \<and>
     has_flag (it_flags i) ITEM_CHUNKED = has_flag (it_flags j) ITEM_CHUNKED"

lemma same_value_refl [simp]: "same_value i i" by (simp add: same_value_def same_key_def)

lemma same_value_trans: "same_value i j \<Longrightarrow> same_value j k \<Longrightarrow> same_value i k"
  by (simp add: same_value_def same_key_def)

lemma queue_frame_value: "queue_frame s s' \<Longrightarrow> same_value (heap s' a) (heap s a)"
  using queue_frame_item [of s s' a] by (simp add: same_value_def ITEM_clsid_def)

definition bumped ::
  "'z lru_state_scheme \<Rightarrow> (nat \<Rightarrow> addr list) \<Rightarrow> (u8 \<Rightarrow> addr list) \<Rightarrow> addr \<Rightarrow> 'z lru_state_scheme \<Rightarrow> (u8 \<Rightarrow> addr list) \<Rightarrow> bool" where
  "bumped s F Q it s' Q' \<longleftrightarrow> cinv s' F Q' \<and> lru_items Q' = lru_items Q \<and> assoc_map s' = assoc_map s \<and>
     same_value (heap s' it) (heap s it) \<and> (\<forall>a. a \<noteq> it \<longrightarrow> strip (heap s' a) = strip (heap s a)) \<and>
     (\<forall>a. a \<notin> lru_items Q \<longrightarrow> heap s' a = heap s a) \<and> env s' = env s"

lemma bumped_refl: "cinv s F Q \<Longrightarrow> bumped s F Q it s Q"
  by (simp add: bumped_def)

lemma bumped_trans: "bumped s F Q it t P \<Longrightarrow> bumped t F P it u R \<Longrightarrow> bumped s F Q it u R"
  unfolding bumped_def by (auto dest: same_value_trans)

lemma bumped_upd:
  assumes c: "cinv s F Q" and it: "it \<in> lru_items Q"
    and f: "item_same (f (heap s it)) (heap s it)" "same_value (f (heap s it)) (heap s it)"
  shows "bumped s F Q it (upd_item it f s) Q"
proof -
  have "0 < refcount (heap s it)" using c it by (auto simp: cinv_def linked_ok_def)
  moreover have "it \<notin> free_items F" using cinv_free_not_linked [OF c] it by blast
  ultimately have "cinv (upd_item it f s) F Q \<and> assoc_map (upd_item it f s) = assoc_map s"
    using f by (intro cinv_upd_item [OF c]) (auto simp: same_value_def)
  then show ?thesis using f it by (auto simp: bumped_def)
qed

lemma bumped_same_heap:
  assumes c: "cinv s F Q" and e: "core s' = core s" "heap s' = heap s" "env s' = env s"
  shows "bumped s F Q it s' Q"
  using cinv_same_heap [OF c e(1,2)] e by (simp add: bumped_def)

text \<open>Taking an item out of its queue and putting it at the head of the queue its class id names.\<close>

lemma requeue_correct:
  assumes c: "cinv s F Q" and it: "it \<in> lru_items Q" and f: "same_value (f (heap s it)) (heap s it)"
  shows "\<exists>t v Q'. do_item_unlink_q it s = Some t \<and> do_item_link_q it (upd_item it f t) = Some v \<and> bumped s F Q it v Q'"
proof -
  let ?c = "slabs_clsid (heap s it)" and ?d = "slabs_clsid (f (heap s it))"
  let ?P = "Q(?c := remove1 it (Q ?c))"
  have lr: "lru_inv s Q" and ok: "linked_ok s it" using c it by (auto simp: cinv_def)
  have itq: "it \<in> set (Q ?c)" by (rule lru_items_cls [OF lr it])
  obtain t where t: "do_item_unlink_q it s = Some t" "lru_inv t ?P" "queue_frame s t"
    "\<forall>a. a \<notin> lru_items Q \<longrightarrow> heap t a = heap s a" "heap t it = heap s it"
    using do_item_unlink_q_correct [OF lr itq] by blast
  have ip: "lru_items ?P = lru_items Q - {it}" by (rule lru_items_remove [OF lr itq])
  define u where "u = upd_item it f t"
  have hu: "heap u = (heap t)(it := f (heap s it))" by (simp add: u_def t(5) upd_item_def)
  have lu: "lru_inv u ?P" by (rule lru_inv_cong [OF t(2)]) (use ip in \<open>auto simp: u_def\<close>)
  have nn: "it \<noteq> NULL" using lru_inv_nonnull [OF lr] it by metis
  obtain v where v: "do_item_link_q it u = Some v" "lru_inv v (?P(?d := it # ?P ?d))" "queue_frame u v"
    "\<forall>a. a \<notin> insert it (lru_items ?P) \<longrightarrow> heap v a = heap u a"
    using do_item_link_q_correct [OF lu _ nn _ refl] ip ok f hu by (auto simp: linked_ok_def same_value_def)
  let ?R = "?P(?d := it # ?P ?d)"
  have items: "lru_items ?R = lru_items Q" using lru_items_insert [of ?P ?d it] ip it by auto
  note qt = queue_frame_fields [OF t(3)] and qv = queue_frame_fields [OF v(3)]
  have uf: "core u = core t" "env u = env t" by (simp_all add: u_def core_def env_def upd_item_def)
  have at: "assoc_inv t \<and> assoc_map t = assoc_map s" using queue_frame_assoc [OF _ t(3)] c by (auto simp: cinv_def)
  have st: "same_table t u" by (simp add: same_table_def u_def)
  have au: "assoc_inv u \<and> assoc_map u = assoc_map t"
    by (rule assoc_heap_cong [OF _ st]) (use at f t(5) in \<open>auto simp: u_def same_value_def same_key_def\<close>)
  have av: "assoc_inv v \<and> assoc_map v = assoc_map s" using queue_frame_assoc [OF _ v(3)] au at by auto
  have out: "heap v a = heap s a" if "a \<notin> lru_items Q" for a
    using v(4) t(4) that it ip hu by auto
  have val: "same_value (heap v a) (heap s a)" for a
    using same_value_trans [OF queue_frame_value [OF v(3)], of a "heap s a"] queue_frame_value [OF t(3), of a] f hu
    by (cases "a = it") auto
  have stp: "strip (heap v a) = strip (heap s a)" if "a \<noteq> it" for a
    using queue_frame_strip [OF v(3), of a] queue_frame_strip [OF t(3), of a] hu that by simp
  have pl: "power_largest v = power_largest s" "slabclass v = slabclass s" "curr_items v = curr_items s" "curr_bytes v = curr_bytes s"
    using qv(7-10) qt(7-10) uf(1) by (simp_all add: core_def)
  have "cinv v F ?R"
    unfolding cinv_def items
  proof (intro conjI)
    show "slabs_inv v F"
      by (rule slabs_inv_cong [of s F]) (use c pl out cinv_free_not_linked [OF c] in \<open>auto simp: cinv_def\<close>)
    show "\<forall>a\<in>lru_items Q. linked_ok v a"
      using c val pl(1) by (auto simp: cinv_def linked_ok_def same_value_def valid_cls_def)
    show "\<forall>a. has_flag (it_flags (heap v a)) ITEM_LINKED = (a \<in> lru_items Q)"
      using cinv_linked [OF c] val by (auto simp: same_value_def)
    show "curr_bytes v = (\<Sum>a\<in>lru_items Q. ITEM_ntotal (heap v a))"
      using c pl(4) val by (simp add: cinv_def same_value_def)
  qed (use av v(2) c pl in \<open>auto simp: cinv_def assoc_items_def\<close>)
  moreover have "env v = env s"
    using qv(1,11-16,8) qt(1,11-16,8) uf(2) by (simp add: env_def)
  ultimately have "bumped s F Q it v ?R" using items av val stp out by (simp add: bumped_def)
  then show ?thesis using t(1) v(1) unfolding u_def by blast
qed

lemma ITEM_clsid_or_lru: "CLEAR_LRU (CLEAR_LRU c OR WARM_LRU) = CLEAR_LRU c" "CLEAR_LRU (CLEAR_LRU c OR COLD_LRU) = CLEAR_LRU c"
  unfolding CLEAR_LRU_def lru_id_defs
  by (rule bit_eqI; auto simp: bit_simps numeral_eq_Suc less_Suc_eq)+

lemma bumped_frame: "bumped s F Q it t P \<Longrightarrow> core w = core t \<Longrightarrow> heap w = heap t \<Longrightarrow> env w = env t \<Longrightarrow> bumped s F Q it w P"
proof -
  assume b: "bumped s F Q it t P" and e: "core w = core t" "heap w = heap t" "env w = env t"
  from b have "cinv t F P" by (simp add: bumped_def)
  from bumped_trans [OF b bumped_same_heap [OF this e]] show ?thesis .
qed

lemma upd_itemstats_frame [simp]:
  "core (upd_itemstats i f s) = core s" "heap (upd_itemstats i f s) = heap s" "env (upd_itemstats i f s) = env s"
  by (simp_all add: upd_itemstats_def core_def env_def)

lemma upd_item_id [simp]: "upd_item a (\<lambda>i. i) s = s"
  by (simp add: upd_item_def)

lemma do_item_update_nolock_correct:
  assumes c: "cinv s F Q" and it: "it \<in> lru_items Q"
  shows "\<exists>s' Q'. do_item_update_nolock it s = Some s' \<and> bumped s F Q it s' Q'"
proof (cases "i_time (heap s it) < current_time s - ITEM_UPDATE_INTERVAL")
  case True
  obtain t v Q' where "do_item_unlink_q it s = Some t" "do_item_link_q it (upd_item it (\<lambda>i. i\<lparr>i_time := current_time t\<rparr>) t) = Some v"
    "bumped s F Q it v Q'"
  proof -
    obtain t where t: "do_item_unlink_q it s = Some t" using requeue_correct [OF c it, of "\<lambda>i. i"] by auto
    have "same_value ((heap s it)\<lparr>i_time := current_time t\<rparr>) (heap s it)"
      by (simp add: same_value_def same_key_def ITEM_get_cas_def ITEM_clsid_def)
    from requeue_correct [OF c it, of "\<lambda>i. i\<lparr>i_time := current_time t\<rparr>", OF this] t that show ?thesis by auto
  qed
  moreover have "\<not> has_flag (it_flags (heap s it)) ITEM_SLABBED" using c it by (auto simp: cinv_def linked_ok_def)
  ultimately show ?thesis using True cinv_linked [OF c, of it] it by (auto simp: do_item_update_nolock_def)
next
  case False
  then show ?thesis using bumped_refl [OF c] by (auto simp: do_item_update_nolock_def)
qed

lemma bumped_time:
  assumes "cinv s F Q" "it \<in> lru_items Q"
  shows "bumped s F Q it (upd_item it (\<lambda>i. i\<lparr>i_time := v\<rparr>) s) Q"
  by (rule bumped_upd [OF assms]) (simp_all add: item_same_def same_value_def same_key_def ITEM_get_cas_def ITEM_clsid_def)

lemma do_item_update_correct:
  assumes c: "cinv s F Q" and it: "it \<in> lru_items Q"
  shows "\<exists>s' Q'. do_item_update it s = Some s' \<and> bumped s F Q it s' Q'"
proof -
  let ?t = "upd_item it (\<lambda>i. i\<lparr>i_time := current_time s\<rparr>) s"
  have lk: "has_flag (it_flags (heap s it)) ITEM_LINKED" "\<not> has_flag (it_flags (heap s it)) ITEM_SLABBED"
    using cinv_linked [OF c, of it] c it by (auto simp: cinv_def linked_ok_def)
  note bt = bumped_time [OF c it, of "current_time s"]
  have ct: "cinv ?t F Q" using bt by (simp add: bumped_def)
  let ?f = "\<lambda>i. i\<lparr>slabs_clsid := ITEM_clsid i OR WARM_LRU, it_flags := clr_flag (it_flags i) ITEM_ACTIVE\<rparr>"
  have "same_value (?f (heap ?t it)) (heap ?t it)"
    by (simp add: same_value_def same_key_def ITEM_get_cas_def ITEM_clsid_def ITEM_clsid_or_lru ITEM_ntotal_def)
  from requeue_correct [OF ct it, of ?f, OF this] obtain u v P where w: "do_item_unlink_q it ?t = Some u"
    "do_item_link_q it (upd_item it ?f u) = Some v" "bumped ?t F Q it v P" by auto
  from requeue_correct [OF ct it, of "\<lambda>i. i"] obtain u' v' P' where w': "do_item_unlink_q it ?t = Some u'"
    "do_item_link_q it u' = Some v'" "bumped ?t F Q it v' P'" by auto
  show ?thesis
  proof (cases "lru_segmented (settings s)")
    case True
    let ?cold = "ITEM_lruid (heap s it) = COLD_LRU \<and> has_flag (it_flags (heap s it)) ITEM_ACTIVE"
    have "bumped s F Q it (upd_itemstats k g v) P" for k g
      by (rule bumped_frame [OF bumped_trans [OF bt w(3)]]) simp_all
    then show ?thesis using True lk w(1,2) bt bumped_refl [OF c, of it]
      by (cases ?cold) (auto simp: do_item_update_def item_unlink_q_def item_link_q_warm_def)
  next
    case False
    then show ?thesis using lk w'(1,2) bumped_trans [OF bt w'(3)] bumped_refl [OF c, of it]
      by (auto simp: do_item_update_def item_unlink_q_def item_link_q_def)
  qed
qed

section \<open>The asynchronous bump\<close>

lemma lru_bump_async_heap:
  "fst (lru_bump_async it hv s) = False" "heap (snd (lru_bump_async it hv s)) = heap s"
  "core (snd (lru_bump_async it hv s)) = core s" "env (snd (lru_bump_async it hv s)) = env s"
  by (simp_all add: lru_bump_async_def Let_def upd_item_def core_def env_def split: option.split prod.split)

lemma bumped_flag:
  assumes "cinv s F Q" "it \<in> lru_items Q" "f \<in> {ITEM_FETCHED, ITEM_ACTIVE}"
  shows "bumped s F Q it (upd_item it (\<lambda>i. i\<lparr>it_flags := set_flag (it_flags i) f\<rparr>) s) Q"
    "bumped s F Q it (upd_item it (\<lambda>i. i\<lparr>it_flags := clr_flag (it_flags i) ITEM_ACTIVE\<rparr>) s) Q"
  by (rule bumped_upd [OF assms(1,2)]; use assms(3) in
     \<open>auto simp: item_same_def same_value_def same_key_def ITEM_get_cas_def ITEM_clsid_def ITEM_ntotal_def\<close>)+

lemma bumped_cinv: "bumped s F Q it s' Q' \<Longrightarrow> cinv s' F Q' \<and> (it \<in> lru_items Q' \<longleftrightarrow> it \<in> lru_items Q)"
  by (simp add: bumped_def)

lemma get_hit_correct:
  assumes c: "cinv s F Q" and it: "it \<in> lru_items Q"
  shows "\<exists>s' Q'. get_hit it hv s = Some s' \<and> bumped s F Q it s' Q'"
proof -
  let ?a = "upd_item it (\<lambda>i. i\<lparr>it_flags := set_flag (it_flags i) ITEM_ACTIVE\<rparr>) s"
  let ?f = "upd_item it (\<lambda>i. i\<lparr>it_flags := set_flag (it_flags i) ITEM_FETCHED\<rparr>) s"
  have a: "bumped s F Q it ?a Q" and f: "bumped s F Q it ?f Q" using bumped_flag(1) [OF c it] by blast+
  have ca: "cinv ?a F Q" "cinv ?f F Q" using a f by (auto simp: bumped_def)
  obtain ua Qa uf Qf where u: "do_item_update it ?a = Some ua" "bumped ?a F Q it ua Qa"
    "do_item_update it ?f = Some uf" "bumped ?f F Q it uf Qf"
    using do_item_update_correct [OF ca(1) it] do_item_update_correct [OF ca(2) it] by blast
  let ?l = "snd (lru_bump_async it hv ?a)"
  have l: "bumped s F Q it ?l Q" by (rule bumped_frame [OF a]) (simp_all add: lru_bump_async_heap)
  then have "cinv ?l F Q" by (simp add: bumped_def)
  from bumped_trans [OF l bumped_flag(2) [OF this it, of ITEM_ACTIVE]]
  have l': "bumped s F Q it (upd_item it (\<lambda>i. i\<lparr>it_flags := clr_flag (it_flags i) ITEM_ACTIVE\<rparr>) ?l) Q" by simp
  show ?thesis
  proof (cases "lru_segmented (settings s)")
    case True
    consider "has_flag (it_flags (heap s it)) ITEM_ACTIVE"
      | "\<not> has_flag (it_flags (heap s it)) ITEM_ACTIVE" "\<not> has_flag (it_flags (heap s it)) ITEM_FETCHED"
      | "\<not> has_flag (it_flags (heap s it)) ITEM_ACTIVE" "has_flag (it_flags (heap s it)) ITEM_FETCHED" "ITEM_lruid (heap s it) \<noteq> COLD_LRU"
      | "\<not> has_flag (it_flags (heap s it)) ITEM_ACTIVE" "has_flag (it_flags (heap s it)) ITEM_FETCHED" "ITEM_lruid (heap s it) = COLD_LRU"
      by blast
    then show ?thesis
    proof cases
      case 1
      then have "get_hit it hv s = Some s" using True by (simp add: get_hit_def)
      then show ?thesis using bumped_refl [OF c] by blast
    next
      case 2
      then have "get_hit it hv s = Some ?f" using True by (simp add: get_hit_def)
      then show ?thesis using f by blast
    next
      case 3
      then have "get_hit it hv s = Some ua" using True u(1) by (simp add: get_hit_def ITEM_lruid_def Let_def)
      then show ?thesis using bumped_trans [OF a u(2)] by blast
    next
      case 4
      then have "get_hit it hv s = Some (upd_item it (\<lambda>i. i\<lparr>it_flags := clr_flag (it_flags i) ITEM_ACTIVE\<rparr>) ?l)"
        using True by (simp add: get_hit_def ITEM_lruid_def Let_def split_beta lru_bump_async_heap(1))
      then show ?thesis using l' by blast
    qed
  next
    case False
    then show ?thesis using u(3) bumped_trans [OF f u(4)] by (auto simp: get_hit_def)
  qed
qed

section \<open>Lookup\<close>

text \<open>Live: neither flushed nor expired at the current time.\<close>

definition item_live :: "'z lru_state_scheme \<Rightarrow> addr \<Rightarrow> bool" where
  "item_live s it \<longleftrightarrow>
     (oldest_live (settings s) = 0 \<or> current_time s < oldest_live (settings s) \<or>
        oldest_live (settings s) < i_time (heap s it) \<and>
        (ITEM_get_cas (heap s it) = 0 \<or> oldest_cas (settings s) \<le> ITEM_get_cas (heap s it))) \<and>
     (exptime (heap s it) = 0 \<or> current_time s < exptime (heap s it))"

lemma item_live_iff:
  "item_live s it \<longleftrightarrow> \<not> item_is_flushed it s \<and> (exptime (heap s it) = 0 \<or> current_time s < exptime (heap s it))"
  by (auto simp: item_live_def item_is_flushed_def Let_def not_le not_less)

lemma assoc_find_map:
  assumes "assoc_inv s"
  shows "assoc_find k (hash s k) s = Some (case assoc_map s k of None \<Rightarrow> NULL | Some p \<Rightarrow> p)"
proof -
  obtain C where "assoc_rep s C" using assms by (auto simp: assoc_inv_def)
  from assoc_find_total [OF this] obtain p where "assoc_find k (hash s k) s = Some p" by blast
  then show ?thesis by (simp add: assoc_map_def)
qed

lemma item_is_flushed_cong:
  "settings s' = settings s \<Longrightarrow> current_time s' = current_time s \<Longrightarrow> i_time (heap s' it) = i_time (heap s it) \<Longrightarrow>
   ITEM_get_cas (heap s' it) = ITEM_get_cas (heap s it) \<Longrightarrow> item_is_flushed it s' = item_is_flushed it s"
  by (simp add: item_is_flushed_def)

lemma do_item_get_miss:
  "assoc_inv s \<Longrightarrow> assoc_map s k = None \<Longrightarrow> do_item_get k (hash s k) upd s = Some (NULL, s)"
  by (simp add: do_item_get_def assoc_find_map)

lemma refcount_inc:
  assumes c: "cinv s F Q" and it: "it \<in> lru_items Q" and r: "refcount (heap s it) \<noteq> - 1"
  defines "t \<equiv> upd_item it (\<lambda>i. i\<lparr>refcount := refcount i + 1\<rparr>) s"
  shows "cinv t F Q" "assoc_map t = assoc_map s" "1 < refcount (heap t it)" "item_is_flushed it t = item_is_flushed it s"
proof -
  have r0: "refcount (heap s it) + 1 \<noteq> 0" using r by (metis add_eq_0_iff2)
  have "0 < refcount (heap s it)" using c it by (auto simp: cinv_def linked_ok_def)
  then have "refcount (heap s it) + 1 \<noteq> 1" by auto
  then show "1 < refcount (heap t it)" using word_gt_1 [OF r0] by (simp add: t_def)
  have "cinv t F Q \<and> assoc_map t = assoc_map s" unfolding t_def
    by (rule cinv_upd_item [OF c])
      (use r0 cinv_free_not_linked [OF c] it in \<open>auto simp: item_same_def same_key_def word_gt_0\<close>)
  then show "cinv t F Q" "assoc_map t = assoc_map s" by auto
  show "item_is_flushed it t = item_is_flushed it s"
    by (rule item_is_flushed_cong) (simp_all add: t_def ITEM_get_cas_def)
qed

lemma do_item_get_live:
  assumes c: "cinv s F Q" and m: "assoc_map s k = Some it" and r: "refcount (heap s it) \<noteq> - 1" and l: "item_live s it"
  shows "\<exists>s' Q'. do_item_get k (hash s k) upd s = Some (it, s') \<and>
    bumped (upd_item it (\<lambda>i. i\<lparr>refcount := refcount i + 1\<rparr>) s) F Q it s' Q'"
proof -
  let ?t = "upd_item it (\<lambda>i. i\<lparr>refcount := refcount i + 1\<rparr>) s"
  have it: "it \<in> lru_items Q" using cinv_map_item [OF c m] by blast
  have nn: "it \<noteq> NULL" using lru_inv_nonnull it c unfolding cinv_def by metis
  note t = refcount_inc [OF c it r]
  obtain s' Q' where s': "get_hit it (hash s k) ?t = Some s'" "bumped ?t F Q it s' Q'"
    using get_hit_correct [OF t(1) it] by blast
  have inv: "assoc_inv s" using c by (simp add: cinv_def)
  have live: "\<not> item_is_flushed it ?t" "\<not> (exptime (heap s it) \<noteq> 0 \<and> exptime (heap s it) \<le> current_time s)"
    using l t(4) by (auto simp: item_live_iff)
  show ?thesis
    using s' live nn bumped_refl [OF t(1), of it]
    by (cases upd) (auto simp: do_item_get_def assoc_find_map [OF inv] m)
qed

lemma do_item_get_dead:
  assumes c: "cinv s F Q" and m: "assoc_map s k = Some it" and r: "refcount (heap s it) \<noteq> - 1" and l: "\<not> item_live s it"
  shows "\<exists>s' Q'. do_item_get k (hash s k) upd s = Some (NULL, s') \<and> cinv s' (freed s it F) Q' \<and>
    lru_items Q' = lru_items Q - {it} \<and> assoc_map s' = (assoc_map s)(k := None) \<and>
    (\<forall>a. a \<noteq> it \<longrightarrow> a \<notin> free_items F \<longrightarrow> strip (heap s' a) = strip (heap s a)) \<and>
    env s' = env (s\<lparr>tstats := tstats s'\<rparr>)"
proof -
  let ?t = "upd_item it (\<lambda>i. i\<lparr>refcount := refcount i + 1\<rparr>) s"
  have it: "it \<in> lru_items Q" "item_key (heap s it) = k" using cinv_map_item [OF c m] by blast+
  have nn: "it \<noteq> NULL" using lru_inv_nonnull it c unfolding cinv_def by metis
  note t = refcount_inc [OF c it(1) r]
  let ?cl = "slabs_clsid (heap s it)" let ?Q = "Q(?cl := remove1 it (Q ?cl))"
  have "hash s k = hash ?t (item_key (heap ?t it))" "slabs_clsid (heap ?t it) = ?cl" using it(2) by (simp_all add: item_key_def)
  then obtain u where u: "do_item_unlink it (hash s k) ?t = Some u" "cinv u (freed ?t it F) ?Q"
    "assoc_map u = (assoc_map ?t)(item_key (heap ?t it) := None)" "env u = env ?t" "private_item u F it"
    "strip (heap u it) = strip ((heap ?t it)\<lparr>it_flags := clr_flag (it_flags (heap ?t it)) ITEM_LINKED,
         refcount := refcount (heap ?t it) - 1\<rparr>)"
    "\<forall>a. a \<noteq> it \<longrightarrow> a \<notin> free_items F \<longrightarrow> strip (heap u a) = strip (heap ?t a)"
    using do_item_unlink_correct [OF t(1) it(1)] t(3) by auto
  have ru: "refcount (heap u it) = refcount (heap s it)" "slabs_clsid (heap u it) = ?cl" using strip_fields(1,3) [OF u(6)] by simp_all
  have fr: "freed ?t it F = F" "freed u it F = freed s it F" using t(3) ru by (auto simp: freed_def ITEM_clsid_def)
  have "refcount (heap u it) \<noteq> 0" using ru c it(1) by (auto simp: cinv_def linked_ok_def)
  then obtain s' where s': "do_item_remove it u = Some s'" "cinv s' (freed s it F) ?Q" "assoc_map s' = assoc_map u"
    "\<forall>a. a \<notin> insert it (free_items F) \<longrightarrow> heap s' a = heap u a" "env s' = env u"
    using do_item_remove_private [OF _ u(5), of ?Q] u(2) fr by auto
  have inv: "assoc_inv s" using c by (simp add: cinv_def)
  have nk: "item_key (heap ?t it) = k" using it(2) by (simp add: item_key_def)
  have items: "lru_items ?Q = lru_items Q - {it}"
    using lru_items_remove [of s Q it ?cl] lru_items_cls [of s Q it] it(1) c by (simp add: cinv_def)
  have w: "cinv (s'\<lparr>tstats := x\<rparr>) (freed s it F) ?Q \<and> assoc_map (s'\<lparr>tstats := x\<rparr>) = assoc_map s'" for x
    by (rule cinv_same_heap [OF s'(2)]) (simp_all add: core_def)
  obtain x where "do_item_get k (hash s k) upd s = Some (NULL, s'\<lparr>tstats := x\<rparr>)"
  proof (cases "item_is_flushed it ?t")
    case True
    then show ?thesis using that u(1) s'(1) nn by (simp add: do_item_get_def assoc_find_map [OF inv] m)
  next
    case False
    then have "exptime (heap s it) \<noteq> 0 \<and> exptime (heap s it) \<le> current_time s" using l t(4) by (auto simp: item_live_iff)
    then show ?thesis using that False u(1) s'(1) nn by (simp add: do_item_get_def assoc_find_map [OF inv] m)
  qed
  moreover have "assoc_map s' = (assoc_map s)(k := None)" using s'(3) u(3) t(2) nk by simp
  moreover have "\<forall>a. a \<noteq> it \<longrightarrow> a \<notin> free_items F \<longrightarrow> strip (heap s' a) = strip (heap s a)" using s'(4) u(7) by simp
  moreover have "env (s'\<lparr>tstats := x\<rparr>) = env (s\<lparr>tstats := x\<rparr>)" using s'(5) u(4) by (simp add: env_def)
  ultimately show ?thesis using w [of x] items by (intro exI [of _ "s'\<lparr>tstats := x\<rparr>"] exI [of _ ?Q]) simp
qed

end
