(* ===== verification/Items_Spec.thy ===== *)
theory Items_Spec
  imports Items_Get Slabs_Spec
begin

text \<open>
  What the item layer promises: it is a map from keys to values, in which an entry may disappear
  only when it is unlinked, replaced or found dead by a lookup. The locale \<open>value_map\<close> is the
  contract the storage commands rely on, interpreted on the operations of \<^verbatim>\<open>items.c\<close>; the step
  relation \<open>cache_step\<close> runs them in any order, with the clock moving, and refines the map.
\<close>

section \<open>The stored values\<close>

type_synonym "value" = "bytes \<times> int \<times> u32 \<times> u64"

definition item_value :: "item \<Rightarrow> value" where
  "item_value i = (take (nat (nbytes i)) (i_data i), nbytes i, exptime i, ITEM_get_cas i)"

definition cache_view :: "'z lru_state_scheme \<Rightarrow> bytes \<Rightarrow> value option" where
  "cache_view s k = map_option (\<lambda>it. item_value (heap s it)) (assoc_map s k)"

definition cache_inv :: "'z lru_state_scheme \<Rightarrow> bool" where
  "cache_inv s \<longleftrightarrow> (\<exists>F Q. cinv s F Q)"

definition can_link :: "'z lru_state_scheme \<Rightarrow> addr \<Rightarrow> bool" where
  "can_link s it \<longleftrightarrow> (\<exists>F Q. cinv s F Q \<and> linkable s F it)"

lemma item_value_strip: "strip i = strip j \<Longrightarrow> item_value i = item_value j"
  using strip_fields(5,7,8,10) [of i j] by (simp add: item_value_def)

lemma item_value_same: "same_value i j \<Longrightarrow> item_value i = item_value j"
  by (simp add: item_value_def same_value_def)

lemma item_value_refcount [simp]: "item_value (i\<lparr>refcount := r\<rparr>) = item_value i"
  by (simp add: item_value_def ITEM_get_cas_def)

lemma cache_view_upd:
  assumes c: "cinv s F Q" and m: "assoc_map s' = (assoc_map s)(k := r)"
    and same: "\<And>k' x. k' \<noteq> k \<Longrightarrow> assoc_map s k' = Some x \<Longrightarrow> item_value (heap s' x) = item_value (heap s x)"
  shows "cache_view s' = (cache_view s)(k := map_option (\<lambda>it. item_value (heap s' it)) r)"
proof
  fix k'
  show "cache_view s' k' = ((cache_view s)(k := map_option (\<lambda>it. item_value (heap s' it)) r)) k'"
    using same [of k'] m by (cases "k' = k"; cases "assoc_map s k'") (auto simp: cache_view_def)
qed

lemma cache_view_same:
  assumes "cinv s F Q" "assoc_map s' = assoc_map s" "\<And>x. x \<in> lru_items Q \<Longrightarrow> item_value (heap s' x) = item_value (heap s x)"
  shows "cache_view s' = cache_view s"
proof
  fix k show "cache_view s' k = cache_view s k"
    using assms cinv_map_item [OF assms(1)] by (cases "assoc_map s k") (auto simp: cache_view_def)
qed

lemma other_item:
  assumes "cinv s F Q" "assoc_map s k' = Some x" "k' \<noteq> item_key (heap s it)"
  shows "x \<noteq> it" "x \<in> lru_items Q" "x \<notin> free_items F"
  using cinv_map_item [OF assms(1,2)] assms(3) cinv_free_not_linked [OF assms(1), of x] by auto

lemma link_view:
  assumes "can_link s it" "assoc_map s (item_key (heap s it)) = None"
  shows "\<exists>s'. do_item_link it (hash s (item_key (heap s it))) s = Some s' \<and> cache_inv s' \<and>
    cache_view s' = (cache_view s)(item_key (heap s it) \<mapsto> item_value (linked_item it s)) \<and>
    assoc_map s' = (assoc_map s)(item_key (heap s it) \<mapsto> it) \<and>
    strip (heap s' it) = strip ((linked_item it s)\<lparr>refcount := refcount (heap s it) + 1\<rparr>) \<and>
    env s' = env (s\<lparr>cas_id := cas_id s'\<rparr>) \<and> (link_cas it s \<noteq> 0 \<longrightarrow> link_cas it s = cas_id s')"
proof -
  obtain F Q where c: "cinv s F Q" and l: "linkable s F it" using assms(1) by (auto simp: can_link_def)
  from do_item_link_correct [OF c l refl assms(2)] obtain s' where s':
    "do_item_link it (hash s (item_key (heap s it))) s = Some s'"
    "cache_inv s'" "assoc_map s' = (assoc_map s)(item_key (heap s it) \<mapsto> it)"
    "strip (heap s' it) = strip ((linked_item it s)\<lparr>refcount := refcount (heap s it) + 1\<rparr>)"
    "\<forall>a. a \<noteq> it \<longrightarrow> strip (heap s' a) = strip (heap s a)" "env s' = env (s\<lparr>cas_id := cas_id s'\<rparr>)"
    "link_cas it s \<noteq> 0 \<longrightarrow> link_cas it s = cas_id s'"
    unfolding cache_inv_def by blast
  have "cache_view s' = (cache_view s)(item_key (heap s it) := map_option (\<lambda>it. item_value (heap s' it)) (Some it))"
    by (rule cache_view_upd [OF c s'(3)]) (use s'(5) other_item [OF c] in \<open>blast intro: item_value_strip\<close>)
  then show ?thesis using s' item_value_strip [OF s'(4)] by simp
qed

definition is_linked :: "'z lru_state_scheme \<Rightarrow> addr \<Rightarrow> bool" where
  "is_linked s it \<longleftrightarrow> it \<noteq> NULL \<and> has_flag (it_flags (heap s it)) ITEM_LINKED"

lemma cinv_is_linked: "cinv s F Q \<Longrightarrow> is_linked s it \<longleftrightarrow> it \<in> lru_items Q"
  using cinv_linked [of s F Q it] lru_inv_nonnull [of s Q] unfolding is_linked_def cinv_def by metis

lemma unlink_view:
  assumes "cache_inv s" "is_linked s it"
  shows "\<exists>s'. do_item_unlink it (hash s (item_key (heap s it))) s = Some s' \<and> cache_inv s' \<and>
    cache_view s' = (cache_view s)(item_key (heap s it) := None) \<and>
    assoc_map s' = (assoc_map s)(item_key (heap s it) := None) \<and> env s' = env s"
proof -
  obtain F Q where c: "cinv s F Q" using assms(1) by (auto simp: cache_inv_def)
  have it: "it \<in> lru_items Q" using assms(2) cinv_is_linked [OF c] by simp
  from do_item_unlink_correct [OF c it refl] obtain s' where s':
    "do_item_unlink it (hash s (item_key (heap s it))) s = Some s'" "cache_inv s'"
    "assoc_map s' = (assoc_map s)(item_key (heap s it) := None)"
    "\<forall>a. a \<noteq> it \<longrightarrow> a \<notin> free_items F \<longrightarrow> strip (heap s' a) = strip (heap s a)" "env s' = env s"
    unfolding cache_inv_def by blast
  have "cache_view s' = (cache_view s)(item_key (heap s it) := map_option (\<lambda>it. item_value (heap s' it)) None)"
    by (rule cache_view_upd [OF c s'(3)]) (use s'(4) other_item [OF c] in \<open>blast intro: item_value_strip\<close>)
  then show ?thesis using s' by simp
qed

lemma replace_view:
  assumes "can_link s nw" "is_linked s it" "item_key (heap s nw) = item_key (heap s it)"
  shows "\<exists>s'. do_item_replace it nw (hash s (item_key (heap s it))) s = Some s' \<and> cache_inv s' \<and>
    cache_view s' = (cache_view s)(item_key (heap s it) \<mapsto> item_value (linked_item nw s)) \<and>
    (link_cas nw s \<noteq> 0 \<longrightarrow> link_cas nw s = cas_id s')"
proof -
  obtain F Q where c: "cinv s F Q" and l: "linkable s F nw" using assms(1) by (auto simp: can_link_def)
  have it: "it \<in> lru_items Q" using assms(2) cinv_is_linked [OF c] by simp
  from do_item_replace_correct [OF c it refl l assms(3)] obtain s' where s':
    "do_item_replace it nw (hash s (item_key (heap s it))) s = Some s'" "cache_inv s'"
    "assoc_map s' = (assoc_map s)(item_key (heap s it) \<mapsto> nw)"
    "strip (heap s' nw) = strip ((linked_item nw s)\<lparr>refcount := refcount (heap s nw) + 1\<rparr>)"
    "\<forall>a. a \<noteq> it \<longrightarrow> a \<noteq> nw \<longrightarrow> a \<notin> free_items F \<longrightarrow> strip (heap s' a) = strip (heap s a)"
    "link_cas nw s \<noteq> 0 \<longrightarrow> link_cas nw s = cas_id s'"
    unfolding cache_inv_def by blast
  have nl: "nw \<notin> lru_items Q" using l cinv_linked [OF c, of nw] by (simp add: linkable_def)
  have "cache_view s' = (cache_view s)(item_key (heap s it) := map_option (\<lambda>it. item_value (heap s' it)) (Some nw))"
  proof (rule cache_view_upd [OF c s'(3)])
    fix k' x assume "k' \<noteq> item_key (heap s it)" "assoc_map s k' = Some x"
    with other_item [OF c this(2,1)] nl s'(5) show "item_value (heap s' x) = item_value (heap s x)"
      by (blast intro: item_value_strip)
  qed
  then show ?thesis using s' item_value_strip [OF s'(4)] by simp
qed

lemma bumped_view: "cinv s F Q \<Longrightarrow> bumped s F Q it s' Q' \<Longrightarrow> cache_inv s' \<and> cache_view s' = cache_view s \<and> env s' = env s"
proof -
  assume c: "cinv s F Q" and b: "bumped s F Q it s' Q'"
  have "cache_view s' = cache_view s"
  proof (rule cache_view_same [OF c])
    fix x show "item_value (heap s' x) = item_value (heap s x)"
      using b by (cases "x = it") (auto simp: bumped_def intro: item_value_strip item_value_same)
  qed (use b in \<open>simp add: bumped_def\<close>)
  then show ?thesis using b by (auto simp: bumped_def cache_inv_def)
qed

text \<open>The dead or missing case and the live case of a lookup.\<close>

definition lookup :: "'z lru_state_scheme \<Rightarrow> bytes \<Rightarrow> addr option" where
  "lookup s k = (case assoc_map s k of None \<Rightarrow> None | Some it \<Rightarrow> if item_live s it then Some it else None)"

lemma get_view:
  assumes "cache_inv s" "\<And>it. assoc_map s k = Some it \<Longrightarrow> refcount (heap s it) \<noteq> - 1"
  shows "\<exists>s'. do_item_get k (hash s k) upd s = Some (case lookup s k of None \<Rightarrow> NULL | Some it \<Rightarrow> it, s') \<and>
    cache_inv s' \<and> cache_view s' = (if lookup s k = None then (cache_view s)(k := None) else cache_view s)"
proof -
  obtain F Q where c: "cinv s F Q" using assms(1) by (auto simp: cache_inv_def)
  have ai: "assoc_inv s" using c by (simp add: cinv_def)
  consider "assoc_map s k = None" | it where "assoc_map s k = Some it" "item_live s it"
    | it where "assoc_map s k = Some it" "\<not> item_live s it" by (cases "assoc_map s k") auto
  then show ?thesis
  proof cases
    case 1
    then have "cache_view s k = None" by (simp add: cache_view_def)
    then have "(cache_view s)(k := None) = cache_view s" by auto
    then show ?thesis using do_item_get_miss [OF ai 1] assms(1) 1 by (simp add: lookup_def)
  next
    case (2 it)
    let ?t = "upd_item it (\<lambda>i. i\<lparr>refcount := refcount i + 1\<rparr>) s"
    from do_item_get_live [OF c 2(1) assms(2) [OF 2(1)] 2(2)] obtain s' Q' where s':
      "do_item_get k (hash s k) upd s = Some (it, s')" "bumped ?t F Q it s' Q'" by blast
    have it: "it \<in> lru_items Q" using cinv_map_item [OF c 2(1)] by blast
    note t = refcount_inc [OF c it assms(2) [OF 2(1)]]
    have "cache_view ?t = cache_view s" by (rule cache_view_same [OF c t(2)]) simp
    then show ?thesis using bumped_view [OF t(1) s'(2)] s'(1) 2 by (simp add: lookup_def)
  next
    case (3 it)
    have k: "item_key (heap s it) = k" using cinv_map_item [OF c 3(1)] by blast
    from do_item_get_dead [OF c 3(1) assms(2) [OF 3(1)] 3(2)] obtain s' where s':
      "do_item_get k (hash s k) upd s = Some (NULL, s')" "cache_inv s'" "assoc_map s' = (assoc_map s)(k := None)"
      "\<forall>a. a \<noteq> it \<longrightarrow> a \<notin> free_items F \<longrightarrow> strip (heap s' a) = strip (heap s a)"
      unfolding cache_inv_def by blast
    have "cache_view s' = (cache_view s)(k := map_option (\<lambda>it. item_value (heap s' it)) None)"
      by (rule cache_view_upd [OF c s'(3)]) (use s'(4) other_item [OF c, of _ _ it] k in \<open>blast intro: item_value_strip\<close>)
    then show ?thesis using s' 3 by (simp add: lookup_def)
  qed
qed

text \<open>Who may drop a reference: the holder of a reference beyond the one of the table and queue.\<close>

definition can_release :: "'z lru_state_scheme \<Rightarrow> addr \<Rightarrow> bool" where
  "can_release s it \<longleftrightarrow> (\<exists>F Q. cinv s F Q \<and> refcount (heap s it) \<noteq> 0 \<and>
     (private_item s F it \<or> it \<in> lru_items Q \<and> refcount (heap s it) \<noteq> 1))"

lemma release_view:
  assumes "can_release s it"
  shows "\<exists>s'. do_item_remove it s = Some s' \<and> cache_inv s' \<and> cache_view s' = cache_view s"
proof -
  obtain F Q where c: "cinv s F Q" and r: "refcount (heap s it) \<noteq> 0"
    and d: "private_item s F it \<or> it \<in> lru_items Q \<and> refcount (heap s it) \<noteq> 1"
    using assms by (auto simp: can_release_def)
  show ?thesis
  proof (cases "private_item s F it")
    case True
    from do_item_remove_private [OF c True r] obtain s' where s': "do_item_remove it s = Some s'" "cache_inv s'"
      "assoc_map s' = assoc_map s" "\<forall>a. a \<notin> insert it (free_items F) \<longrightarrow> heap s' a = heap s a"
      unfolding cache_inv_def by blast
    have "it \<notin> lru_items Q" using True cinv_linked [OF c, of it] by (auto simp: private_item_def)
    then have "cache_view s' = cache_view s"
      using cache_view_same [OF c s'(3)] s'(4) cinv_free_not_linked [OF c] by (metis insertE)
    then show ?thesis using s' by blast
  next
    case False
    then have it: "it \<in> lru_items Q" "refcount (heap s it) \<noteq> 1" using d by auto
    have "it \<notin> free_items F" "\<not> has_flag (it_flags (heap s it)) ITEM_SLABBED"
      using it c cinv_free_not_linked [OF c] by (auto simp: cinv_def linked_ok_def)
    from do_item_remove_keep [OF c this word_gt_1 [OF r it(2)]]
    have "do_item_remove it s = Some (upd_item it (\<lambda>i. i\<lparr>refcount := refcount i - 1\<rparr>) s)"
      "cache_inv (upd_item it (\<lambda>i. i\<lparr>refcount := refcount i - 1\<rparr>) s)"
      "assoc_map (upd_item it (\<lambda>i. i\<lparr>refcount := refcount i - 1\<rparr>) s) = assoc_map s"
      by (auto simp: cache_inv_def)
    moreover from this(3) have "cache_view (upd_item it (\<lambda>i. i\<lparr>refcount := refcount i - 1\<rparr>) s) = cache_view s"
      by (rule cache_view_same [OF c]) simp
    ultimately show ?thesis by blast
  qed
qed

section \<open>The contract\<close>

text \<open>
  What a client of the item layer relies on: a map whose entries are carried by items of type \<open>'a\<close>.
  \<open>ready s a k v\<close> says that linking \<open>a\<close> stores \<open>v\<close> under \<open>k\<close>; \<open>stored s a k\<close> that \<open>a\<close> is the item of \<open>k\<close>.
\<close>

locale value_map =
  fixes ok :: "'s \<Rightarrow> bool" and view :: "'s \<Rightarrow> 'k \<Rightarrow> 'v option"
    and ready :: "'s \<Rightarrow> 'a \<Rightarrow> 'k \<Rightarrow> 'v \<Rightarrow> bool" and stored :: "'s \<Rightarrow> 'a \<Rightarrow> 'k \<Rightarrow> bool"
    and link :: "'a \<Rightarrow> 's \<Rightarrow> 's option" and unlink :: "'a \<Rightarrow> 's \<Rightarrow> 's option" and subst_item :: "'a \<Rightarrow> 'a \<Rightarrow> 's \<Rightarrow> 's option"
  assumes link_law: "ready s a k v \<Longrightarrow> view s k = None \<Longrightarrow>
      \<exists>s'. link a s = Some s' \<and> ok s' \<and> view s' = (view s)(k \<mapsto> v) \<and> stored s' a k"
    and unlink_law: "ok s \<Longrightarrow> stored s a k \<Longrightarrow> \<exists>s'. unlink a s = Some s' \<and> ok s' \<and> view s' = (view s)(k := None)"
    and subst_law: "ready s b k v \<Longrightarrow> stored s a k \<Longrightarrow>
      \<exists>s'. subst_item a b s = Some s' \<and> ok s' \<and> view s' = (view s)(k \<mapsto> v)"
    and stored_view: "ok s \<Longrightarrow> stored s a k \<Longrightarrow> view s k \<noteq> None"
begin

lemma link_unlink:
  assumes "ready s a k v" "view s k = None"
  shows "\<exists>s' s''. link a s = Some s' \<and> view s' k = Some v \<and> unlink a s' = Some s'' \<and> ok s'' \<and> view s'' = view s"
proof -
  obtain s' where s': "link a s = Some s'" "ok s'" "view s' = (view s)(k \<mapsto> v)" "stored s' a k"
    using link_law [OF assms] by blast
  obtain s'' where s'': "unlink a s' = Some s''" "ok s''" "view s'' = (view s')(k := None)"
    using unlink_law [OF s'(2,4)] by blast
  have "view s'' = view s" using s''(3) s'(3) assms(2) by auto
  then show ?thesis using s' s'' by simp
qed

lemma subst_others:
  assumes "ready s b k v" "stored s a k" "k' \<noteq> k"
  shows "\<exists>s'. subst_item a b s = Some s' \<and> view s' k = Some v \<and> view s' k' = view s k'"
  using subst_law [OF assms(1,2)] assms(3) by auto

end

definition item_ready :: "'z lru_state_scheme \<Rightarrow> addr \<Rightarrow> bytes \<Rightarrow> value \<Rightarrow> bool" where
  "item_ready s it k v \<longleftrightarrow> can_link s it \<and> item_key (heap s it) = k \<and> item_value (linked_item it s) = v"

definition item_stored :: "'z lru_state_scheme \<Rightarrow> addr \<Rightarrow> bytes \<Rightarrow> bool" where
  "item_stored s it k \<longleftrightarrow> is_linked s it \<and> item_key (heap s it) = k"

definition link_item :: "addr \<Rightarrow> 'z lru_state_scheme \<Rightarrow> 'z lru_state_scheme option" where
  "link_item it s = do_item_link it (hash s (item_key (heap s it))) s"

definition unlink_item :: "addr \<Rightarrow> 'z lru_state_scheme \<Rightarrow> 'z lru_state_scheme option" where
  "unlink_item it s = do_item_unlink it (hash s (item_key (heap s it))) s"

definition replace_item :: "addr \<Rightarrow> addr \<Rightarrow> 'z lru_state_scheme \<Rightarrow> 'z lru_state_scheme option" where
  "replace_item it new_it s = do_item_replace it new_it (hash s (item_key (heap s it))) s"

lemma cache_view_none: "cache_view s k = None \<longleftrightarrow> assoc_map s k = None"
  by (simp add: cache_view_def)

lemma link_item_stored:
  assumes "can_link s it" "strip (heap s' it) = strip ((linked_item it s)\<lparr>refcount := r\<rparr>)"
  shows "item_stored s' it (item_key (heap s it))"
  using assms strip_fields(2,11) [OF assms(2)]
  by (auto simp: item_stored_def is_linked_def can_link_def linkable_def item_key_def)

interpretation items: value_map cache_inv cache_view item_ready item_stored link_item unlink_item replace_item
proof
  fix s :: "'z lru_state_scheme" and it nw k v
  show "item_ready s it k v \<Longrightarrow> cache_view s k = None \<Longrightarrow>
      \<exists>s'. link_item it s = Some s' \<and> cache_inv s' \<and> cache_view s' = (cache_view s)(k \<mapsto> v) \<and> item_stored s' it k"
    unfolding item_ready_def cache_view_none link_item_def using link_view [of s it] link_item_stored [of s it] by auto
  show "cache_inv s \<Longrightarrow> item_stored s it k \<Longrightarrow>
      \<exists>s'. unlink_item it s = Some s' \<and> cache_inv s' \<and> cache_view s' = (cache_view s)(k := None)"
    unfolding item_stored_def unlink_item_def using unlink_view [of s it] by auto
  show "item_ready s nw k v \<Longrightarrow> item_stored s it k \<Longrightarrow>
      \<exists>s'. replace_item it nw s = Some s' \<and> cache_inv s' \<and> cache_view s' = (cache_view s)(k \<mapsto> v)"
    unfolding item_ready_def item_stored_def replace_item_def using replace_view [of s nw it] by auto
  show "cache_inv s \<Longrightarrow> item_stored s it k \<Longrightarrow> cache_view s k \<noteq> None"
    unfolding item_stored_def cache_inv_def using cinv_item_map [of s] cinv_is_linked [of s] by (auto simp: cache_view_def)
qed

section \<open>Runs\<close>

datatype cache_label = Set_key bytes "value" | Delete_key bytes | Read_key bytes "value option" | Tau

inductive cache_step :: "'z lru_state_scheme \<Rightarrow> cache_label \<Rightarrow> 'z lru_state_scheme \<Rightarrow> bool" where
  link: "item_ready s it k v \<Longrightarrow> assoc_map s k = None \<Longrightarrow> link_item it s = Some s' \<Longrightarrow> cache_step s (Set_key k v) s'"
| subst: "item_ready s nw k v \<Longrightarrow> item_stored s it k \<Longrightarrow> replace_item it nw s = Some s' \<Longrightarrow> cache_step s (Set_key k v) s'"
| unlink: "item_stored s it k \<Longrightarrow> unlink_item it s = Some s' \<Longrightarrow> cache_step s (Delete_key k) s'"
| get: "(\<And>it. assoc_map s k = Some it \<Longrightarrow> refcount (heap s it) \<noteq> - 1) \<Longrightarrow>
    do_item_get k (hash s k) upd s = Some (it, s') \<Longrightarrow>
    cache_step s (Read_key k (if it = NULL then None else Some (item_value (heap s it)))) s'"
| release: "can_release s it \<Longrightarrow> do_item_remove it s = Some s' \<Longrightarrow> cache_step s Tau s'"
| bump: "is_linked s it \<Longrightarrow> do_item_update it s = Some s' \<Longrightarrow> cache_step s Tau s'"
| tick: "cache_step s Tau (s\<lparr>current_time := t, settings := st\<rparr>)"

inductive_cases cache_step_SetE: "cache_step s (Set_key k v) s'"
inductive_cases cache_step_DeleteE: "cache_step s (Delete_key k) s'"
inductive_cases cache_step_ReadE: "cache_step s (Read_key k v) s'"
inductive_cases cache_step_TauE: "cache_step s Tau s'"

inductive cache_steps :: "'z lru_state_scheme \<Rightarrow> cache_label list \<Rightarrow> 'z lru_state_scheme \<Rightarrow> bool" where
  cache_refl: "cache_steps s [] s"
| cache_snoc: "cache_steps s ls t \<Longrightarrow> cache_step t l u \<Longrightarrow> cache_steps s (ls @ [l]) u"

text \<open>
  The abstract cache. A read that finds a value returns the stored one; a read that finds none
  may have removed a dead entry. \<open>None\<close> is a behaviour the abstract cache does not have.
\<close>

primrec cache_spec :: "cache_label \<Rightarrow> (bytes \<rightharpoonup> value) \<Rightarrow> (bytes \<rightharpoonup> value) option" where
  "cache_spec (Set_key k v) m = Some (m(k \<mapsto> v))"
| "cache_spec (Delete_key k) m = (if m k = None then None else Some (m(k := None)))"
| "cache_spec (Read_key k r) m = (case r of None \<Rightarrow> Some (m(k := None)) | Some v \<Rightarrow> if m k = Some v then Some m else None)"
| "cache_spec Tau m = Some m"

primrec cache_run :: "cache_label list \<Rightarrow> (bytes \<rightharpoonup> value) \<Rightarrow> (bytes \<rightharpoonup> value) option" where
  "cache_run [] m = Some m"
| "cache_run (l # ls) m = Option.bind (cache_spec l m) (cache_run ls)"

lemma cache_run_snoc: "cache_run (ls @ [l]) m = Option.bind (cache_run ls m) (cache_spec l)"
proof (induction ls arbitrary: m)
  case (Cons x xs)
  then show ?case by (cases "cache_spec x m") auto
next
  case Nil
  then show ?case by (cases "cache_spec l m") auto
qed

lemma lookup_view: "cache_inv s \<Longrightarrow> lookup s k = Some it \<Longrightarrow> it \<noteq> NULL \<and> cache_view s k = Some (item_value (heap s it))"
proof -
  assume "cache_inv s" and l: "lookup s k = Some it"
  then obtain F Q where c: "cinv s F Q" by (auto simp: cache_inv_def)
  have m: "assoc_map s k = Some it" using l by (auto simp: lookup_def split: option.splits if_splits)
  then have "it \<in> lru_items Q" using cinv_map_item [OF c] by blast
  moreover have "NULL \<notin> lru_items Q" using c lru_inv_nonnull by (auto simp: cinv_def)
  ultimately have "it \<noteq> NULL" by metis
  then show ?thesis using m by (simp add: cache_view_def)
qed

lemma cache_inv_clock: "cache_inv s \<Longrightarrow> cache_inv (s\<lparr>current_time := t, settings := st\<rparr>) \<and>
   cache_view (s\<lparr>current_time := t, settings := st\<rparr>) = cache_view s"
proof -
  assume "cache_inv s"
  then obtain F Q where c: "cinv s F Q" by (auto simp: cache_inv_def)
  have w: "cinv (s\<lparr>current_time := t, settings := st\<rparr>) F Q \<and> assoc_map (s\<lparr>current_time := t, settings := st\<rparr>) = assoc_map s"
    by (rule cinv_same_heap [OF c]) (simp_all add: core_def)
  then have "cache_view (s\<lparr>current_time := t, settings := st\<rparr>) = cache_view s" by (simp add: cache_view_def fun_eq_iff)
  with w show ?thesis unfolding cache_inv_def by blast
qed

lemma cache_step_spec: "cache_step s l s' \<Longrightarrow> cache_inv s \<Longrightarrow> cache_inv s' \<and> cache_spec l (cache_view s) = Some (cache_view s')"
proof (induction rule: cache_step.induct)
  case (link s it k v s')
  then show ?case using items.link_law [of s it k v] by (auto simp: cache_view_none fun_eq_iff)
next
  case (subst s nw k v it s')
  then show ?case using items.subst_law [of s nw k v it] by (auto simp: fun_eq_iff)
next
  case (unlink s it k s')
  then show ?case using items.unlink_law [of s it k] items.stored_view [of s it k] by auto
next
  case (get s k upd it s')
  from get_view [OF get.prems get.hyps(1), of k upd] get.hyps(2) have
    w: "it = (case lookup s k of None \<Rightarrow> NULL | Some it \<Rightarrow> it)" "cache_inv s'"
       "cache_view s' = (if lookup s k = None then (cache_view s)(k := None) else cache_view s)" by auto
  then show ?case using lookup_view [OF get.prems] by (cases "lookup s k") auto
next
  case (release s it s')
  then show ?case using release_view [of s it] by simp
next
  case (bump s it s')
  then obtain F Q where c: "cinv s F Q" by (auto simp: cache_inv_def)
  have it: "it \<in> lru_items Q" using bump.hyps(1) cinv_is_linked [OF c] by simp
  show ?case using do_item_update_correct [OF c it] bumped_view [OF c] bump.hyps(2) by auto
next
  case (tick s t st)
  then show ?case using cache_inv_clock [OF tick] by simp
qed

lemma cache_steps_spec:
  "cache_steps s ls s' \<Longrightarrow> cache_inv s \<Longrightarrow> cache_inv s' \<and> cache_run ls (cache_view s) = Some (cache_view s')"
proof (induction rule: cache_steps.induct)
  case (cache_snoc s ls t l u)
  then show ?case using cache_step_spec [OF cache_snoc.hyps(2)] by (simp add: cache_run_snoc)
qed simp

lemma cache_count:
  assumes "cache_inv s"
  shows "curr_items s = of_nat (card (dom (cache_view s)))"
proof -
  obtain F Q where c: "cinv s F Q" using assms by (auto simp: cache_inv_def)
  have "dom (cache_view s) = (\<lambda>x. item_key (heap s x)) ` lru_items Q"
    using cinv_map_item [OF c] cinv_item_map [OF c] by (force simp: cache_view_def image_iff dom_def)
  moreover have "inj_on (\<lambda>x. item_key (heap s x)) (lru_items Q)"
    using cinv_item_map [OF c] by (auto intro!: inj_onI) (metis option.inject)
  ultimately show ?thesis using c by (simp add: card_image cinv_def)
qed

section \<open>Example\<close>

text \<open>
  An empty cache at time 100 with three items in hand, all of class 1: 100 and 200 with key 6, and
  300 with key 8, which expires at time 50.
\<close>

definition ex_cache_item :: "bytes \<Rightarrow> bytes \<Rightarrow> u32 \<Rightarrow> item" where
  "ex_cache_item k d e = zero_item\<lparr>nkey := word_of_nat (length k), i_key := k, slabs_clsid := 1, refcount := 1,
     it_flags := ITEM_CAS, i_data := d, nbytes := int (length d), exptime := e\<rparr>"

definition ex_cache :: lru_state where
  "ex_cache = slab_state.extend (ex_slab\<lparr>heap := (\<lambda>_. zero_item)(100 := ex_cache_item [6] [49, 13, 10] 0,
       200 := ex_cache_item [6] [50, 13, 10] 0, 300 := ex_cache_item [8] [51, 13, 10] 50), current_time := 100\<rparr>)
     (lru_state.fields (\<lambda>_. 0) (\<lambda>_. 0) (\<lambda>_. itemstats_t.make 0 0 0 0 0 0 0 0 0 0 0 0 0 0 0 0 0 0 0 0)
       (\<lambda>_. 0) (\<lambda>_. 0) None 0 0 7 0 0 0 (thread_stats.make 0 0 0 (\<lambda>_. 0) (\<lambda>_. 0) (\<lambda>_. 0) (\<lambda>_. 0))
       (bipbuf.make 64 0 0 0 False (\<lambda>_. (0, 0))) 0)"

lemmas ex_cache_defs = ex_cache_def slab_state.defs lru_state.defs ex_slab_def

lemma ex_cache_fields:
  "heap ex_cache = (\<lambda>_. zero_item)(100 := ex_cache_item [6] [49, 13, 10] 0, 200 := ex_cache_item [6] [50, 13, 10] 0,
     300 := ex_cache_item [8] [51, 13, 10] 50)"
  "current_time ex_cache = 100" "hash ex_cache = (\<lambda>k. word_of_nat (sum_list (map unat k)))" "power_largest ex_cache = 2"
  "heads ex_cache = (\<lambda>_. 0)" "tails ex_cache = (\<lambda>_. 0)" "sizes ex_cache = (\<lambda>_. 0)" "sizes_bytes ex_cache = (\<lambda>_. 0)"
  "curr_items ex_cache = 0" "curr_bytes ex_cache = 0" "cas_id ex_cache = 7"
  "settings ex_cache = ex_settings\<lparr>slab_page_size := 1024, slab_chunk_size_max := 512\<rparr>"
  "slabclass ex_cache = slabclass ex_slab" "expanding ex_cache = False" "started_expanding ex_cache = False"
  "hashpower ex_cache = 1" "primary_hashtable ex_cache = [0, 0]"
  by (simp_all add: ex_cache_defs)

lemma ex_cache_table: "assoc_inv ex_cache \<and> assoc_map ex_cache = Map.empty"
proof -
  have "unat (hashsize 1) = 2" by (subst unat_hashsize) simp_all
  then have "assoc_init 1 True ex_cache = Some ex_cache"
    by (simp add: assoc_init_def ex_cache_defs numeral_2_eq_2)
  from assoc_init_sys [OF this] show ?thesis by (simp add: assoc_sys_def ex_cache_fields)
qed

lemma ex_cache_slabs: "slabs_inv ex_cache (\<lambda>_. [])"
proof -
  have "slots (slabclass ex_slab c) = NULL \<and> sl_curr (slabclass ex_slab c) = 0" for c
    by (simp add: ex_slab_def empty_class_def)
  then show ?thesis by (simp add: slabs_inv_def free_ok_def dll_def ex_cache_fields)
qed

lemma ex_cache_cinv: "cinv ex_cache (\<lambda>_. []) (\<lambda>_. [])"
  using ex_cache_table ex_cache_slabs
  by (simp add: cinv_def lru_inv_def lru_ok_def dll_def lru_items_def assoc_items_def ex_cache_fields ex_cache_item_def zero_item_def)

lemma ex_cache_linkable: "a \<in> {100, 200, 300} \<Longrightarrow> linkable ex_cache (\<lambda>_. []) a"
  by (auto simp: linkable_def free_items_def ex_cache_fields ex_cache_item_def zero_item_def key_wf_def valid_cls_def
      ITEM_clsid_def CLEAR_LRU_def)

lemma ex_cache_keys: "item_key (heap ex_cache 100) = [6]" "item_key (heap ex_cache 200) = [6]" "item_key (heap ex_cache 300) = [8]"
  by (simp_all add: ex_cache_fields ex_cache_item_def item_key_def)

lemma ex_cache_inv: "cache_inv ex_cache" "a \<in> {100, 200, 300} \<Longrightarrow> can_link ex_cache a"
  using ex_cache_cinv ex_cache_linkable by (auto simp: cache_inv_def can_link_def)

section \<open>Properties\<close>

text \<open>
  (C1) The item layer refines a map from keys to values: in every run of links, replacements,
  unlinks, lookups, releases, bumps and clock or settings changes the cache invariant holds, every
  lookup returns the value stored under its key or finds none, and nothing but these operations
  on a key changes its value. The global item counter equals the number of stored keys.
\<close>

theorem cache_refines_map:
  assumes "cache_inv s" "cache_steps s ls s'"
  shows "cache_inv s' \<and> cache_run ls (cache_view s) = Some (cache_view s') \<and>
    curr_items s' = of_nat (card (dom (cache_view s')))"
  using cache_steps_spec [OF assms(2,1)] cache_count by blast

lemma ex_link_100: "\<exists>s'. link_item 100 ex_cache = Some s' \<and> cache_inv s' \<and> item_stored s' 100 [6] \<and>
   cache_view s' = (cache_view ex_cache)([6] \<mapsto> item_value (linked_item 100 ex_cache)) \<and>
   assoc_map s' = (assoc_map ex_cache)([6] \<mapsto> 100) \<and>
   strip (heap s' 100) = strip ((linked_item 100 ex_cache)\<lparr>refcount := 2\<rparr>) \<and>
   env s' = env (ex_cache\<lparr>cas_id := cas_id s'\<rparr>)"
proof -
  have c: "can_link ex_cache 100" using ex_cache_inv(2) by simp
  have r: "refcount (heap ex_cache 100) + 1 = 2" by (simp add: ex_cache_fields ex_cache_item_def)
  from link_view [OF c] ex_cache_table ex_cache_keys link_item_stored [OF c] show ?thesis
    unfolding link_item_def r by auto
qed

lemma ex_view: "cache_view ex_cache = Map.empty" "item_ready ex_cache 100 [6] (item_value (linked_item 100 ex_cache))"
  "item_value (linked_item 100 ex_cache) = ([49, 13, 10], 3, 0, 8)"
proof -
  show "cache_view ex_cache = Map.empty" using ex_cache_table by (simp add: cache_view_def fun_eq_iff)
  show "item_ready ex_cache 100 [6] (item_value (linked_item 100 ex_cache))"
    using ex_cache_inv(2) ex_cache_keys by (simp add: item_ready_def)
  show "item_value (linked_item 100 ex_cache) = ([49, 13, 10], 3, 0, 8)"
    by (simp add: item_value_def linked_item_def link_cas_def ex_cache_fields ex_cache_item_def ITEM_set_cas_def
        ITEM_get_cas_def ex_settings_def)
qed

theorem cache_refines_map_witness:
  "\<exists>s'. link_item 100 ex_cache = Some s' \<and> cache_view s' = [[6] \<mapsto> ([49, 13, 10], 3, 0, 8)] \<and> curr_items s' = 1"
proof -
  obtain s' where s': "link_item 100 ex_cache = Some s'" using ex_link_100 by blast
  have "cache_step ex_cache (Set_key [6] ([49, 13, 10], 3, 0, 8)) s'"
    using cache_step.link [OF ex_view(2) _ s'] ex_cache_table by (simp add: ex_view)
  from cache_snoc [OF cache_refl this]
  have "cache_steps ex_cache [Set_key [6] ([49, 13, 10], 3, 0, 8)] s'" by simp
  from cache_refines_map [OF ex_cache_inv(1) this]
  have "cache_view s' = [[6] \<mapsto> ([49, 13, 10], 3, 0, 8)]" "curr_items s' = of_nat (card (dom (cache_view s')))"
    by (auto simp: ex_view fun_eq_iff)
  with s' show ?thesis by simp
qed



text \<open>
  Linking an item under a free key and unlinking it again restores the contents of the cache.
\<close>

theorem link_unlink_roundtrip:
  assumes "item_ready s it k v" "cache_view s k = None"
  shows "\<exists>s' s''. link_item it s = Some s' \<and> cache_view s' k = Some v \<and> unlink_item it s' = Some s'' \<and>
    cache_inv s'' \<and> cache_view s'' = cache_view s"
  by (rule items.link_unlink [OF assms])

theorem link_unlink_roundtrip_witness:
  "\<exists>s' s''. link_item 100 ex_cache = Some s' \<and> cache_view s' [6] = Some ([49, 13, 10], 3, 0, 8) \<and>
     unlink_item 100 s' = Some s'' \<and> cache_view s'' = Map.empty"
  using link_unlink_roundtrip [OF ex_view(2)] by (auto simp: ex_view)

text \<open>
  (C27) Replacing an item swaps the value of its key in one step, leaves every other key alone, and
  gives the new item a CAS value no other item has yet: the incremented global counter.
\<close>

theorem do_item_replace_spec:
  assumes "can_link s nw" "is_linked s it" "item_key (heap s nw) = item_key (heap s it)"
  shows "\<exists>s'. do_item_replace it nw (hash s (item_key (heap s it))) s = Some s' \<and> cache_inv s' \<and>
    cache_view s' = (cache_view s)(item_key (heap s it) \<mapsto> item_value (linked_item nw s)) \<and>
    (link_cas nw s \<noteq> 0 \<longrightarrow> link_cas nw s = cas_id s')"
  by (rule replace_view [OF assms])

lemma ex_link_100_free:
  "\<exists>s' Q. link_item 100 ex_cache = Some s' \<and> cinv s' (\<lambda>_. []) Q \<and> 100 \<in> lru_items Q \<and> linkable s' (\<lambda>_. []) 200 \<and>
     item_key (heap s' 200) = [6] \<and> item_key (heap s' 100) = [6] \<and> hash s' [6] = 6 \<and> i_data (heap s' 200) = [50, 13, 10] \<and> nbytes (heap s' 200) = 3"
proof -
  have l: "linkable ex_cache (\<lambda>_. []) 100" "linkable ex_cache (\<lambda>_. []) 200" using ex_cache_linkable by auto
  have fr: "assoc_map ex_cache (item_key (heap ex_cache 100)) = None" using ex_cache_table by simp
  from do_item_link_correct [OF ex_cache_cinv l(1) refl fr] obtain s' where s': "link_item 100 ex_cache = Some s'"
    "cinv s' (\<lambda>_. []) ((\<lambda>_. [])(slabs_clsid (heap ex_cache 100) := [100]))"
    "strip (heap s' 100) = strip ((linked_item 100 ex_cache)\<lparr>refcount := refcount (heap ex_cache 100) + 1\<rparr>)"
    "\<forall>a. a \<notin> insert 100 (lru_items (\<lambda>_. [])) \<longrightarrow> heap s' a = heap ex_cache a" "env s' = env (ex_cache\<lparr>cas_id := cas_id s'\<rparr>)"
    unfolding link_item_def by auto
  let ?Q = "(\<lambda>_. [])(slabs_clsid (heap ex_cache 100) := [100])"
  have h: "heap s' 200 = heap ex_cache 200" using s'(4) by (simp add: lru_items_def)
  have "100 \<in> lru_items ?Q" by (rule lru_itemsI [of _ _ "slabs_clsid (heap ex_cache 100)"]) simp
  moreover have "linkable s' (\<lambda>_. []) 200"
    using l(2) s'(5) by (simp add: linkable_def h valid_cls_def env_def)
  moreover have "item_key (heap s' 100) = [6]"
    using strip_fields(11) [OF s'(3)] by (simp add: item_key_def ex_cache_fields ex_cache_item_def)
  moreover have "hash s' [6] = 6" using s'(5) by (simp add: env_def ex_cache_fields)
  moreover have "i_data (heap s' 200) = [50, 13, 10]" "nbytes (heap s' 200) = 3" by (simp_all add: h ex_cache_fields ex_cache_item_def)
  ultimately show ?thesis using s'(1,2) h ex_cache_keys(2) by auto
qed

theorem do_item_replace_spec_witness:
  "\<exists>s' s''. link_item 100 ex_cache = Some s' \<and> do_item_replace 100 200 6 s' = Some s'' \<and>
     map_option fst (cache_view s'' [6]) = Some [50, 13, 10]"
proof -
  obtain s' Q where s': "link_item 100 ex_cache = Some s'" "cinv s' (\<lambda>_. []) Q" "100 \<in> lru_items Q" "linkable s' (\<lambda>_. []) 200"
     "item_key (heap s' 200) = [6]" "item_key (heap s' 100) = [6]" "hash s' [6] = 6"
     "i_data (heap s' 200) = [50, 13, 10]" "nbytes (heap s' 200) = 3" using ex_link_100_free by blast
  have "can_link s' 200" "is_linked s' 100" using s' cinv_is_linked [OF s'(2)] by (auto simp: can_link_def)
  with do_item_replace_spec [of s' 200 100] s' obtain s'' where "do_item_replace 100 200 6 s' = Some s''"
    "cache_view s'' = (cache_view s')([6] \<mapsto> item_value (linked_item 200 s'))" by auto
  then show ?thesis using s'(1,8,9) by (simp add: item_value_def)
qed

text \<open>
  Bumping an item in the LRU, in either the segmented or the flat mode, keeps the cache
  invariant, every stored value, the contents of the hash table and the free lists.
\<close>

theorem do_item_update_keeps_values:
  assumes "cinv s F Q" "it \<in> lru_items Q"
  shows "\<exists>s' Q'. do_item_update it s = Some s' \<and> cinv s' F Q' \<and> lru_items Q' = lru_items Q \<and>
    assoc_map s' = assoc_map s \<and> cache_view s' = cache_view s"
  using do_item_update_correct [OF assms] bumped_view [OF assms(1)] unfolding bumped_def by blast

theorem do_item_update_keeps_values_witness:
  "\<exists>s' s'' F Q. link_item 100 ex_cache = Some s' \<and> do_item_update 100 s' = Some s'' \<and> cinv s'' F Q \<and> 100 \<in> lru_items Q"
proof -
  obtain s' Q where s': "link_item 100 ex_cache = Some s'" "cinv s' (\<lambda>_. []) Q" "100 \<in> lru_items Q" using ex_link_100_free by blast
  from do_item_update_keeps_values [OF s'(2,3)] s'(1,3) show ?thesis by auto
qed

text \<open>
  Dropping a reference on an unlinked item frees its chunk exactly when it was the last one:
  the chunk then heads the free list of the item's class, otherwise only the count changes. No
  stored value is affected.
\<close>

theorem do_item_remove_frees_last:
  assumes "cinv s F Q" "private_item s F it" "refcount (heap s it) \<noteq> 0"
  shows "\<exists>s'. do_item_remove it s = Some s' \<and> cache_view s' = cache_view s \<and>
    (if refcount (heap s it) = 1
     then cinv s' (F(unat (ITEM_clsid (heap s it)) := it # F (unat (ITEM_clsid (heap s it))))) Q
     else cinv s' F Q \<and> heap s' it = (heap s it)\<lparr>refcount := refcount (heap s it) - 1\<rparr>)"
proof -
  have "can_release s it" using assms by (auto simp: can_release_def)
  from release_view [OF this] do_item_remove_private [OF assms] show ?thesis by (auto simp: freed_def)
qed

theorem do_item_remove_frees_last_witness:
  "\<exists>s'. do_item_remove 300 ex_cache = Some s' \<and> cinv s' ((\<lambda>_. [])(1 := [300])) (\<lambda>_. [])"
proof -
  have p: "private_item ex_cache (\<lambda>_. []) 300" using ex_cache_linkable [of 300] by (simp add: private_item_def linkable_def)
  have r: "refcount (heap ex_cache 300) = 1" "unat (ITEM_clsid (heap ex_cache 300)) = 1"
    by (simp_all add: ex_cache_fields ex_cache_item_def ITEM_clsid_def CLEAR_LRU_def)
  from do_item_remove_frees_last [OF ex_cache_cinv p] r show ?thesis by auto
qed

text \<open>
  The asynchronous bump never reports success: \<open>lru_bump_async\<close> always returns false and drops
  the reference it took, also when the entry has been pushed into the bump buffer; the entry the
  buffer then holds is not backed by a reference, and the caller clears \<^verbatim>\<open>ITEM_ACTIVE\<close> again.
\<close>

theorem lru_bump_async_drops_reference:
  "fst (lru_bump_async it hv s) = False \<and> heap (snd (lru_bump_async it hv s)) = heap s"
  using lru_bump_async_heap by blast

end
