(* ===== verification/Store.thy ===== *)
theory Store
  imports Items_Spec
begin

text \<open>
  The storage commands of \<^verbatim>\<open>slabs_curd/memcached.c\<close> (\<^verbatim>\<open>do_store_item\<close>, \<^verbatim>\<open>do_add_delta\<close>) and the item
  access functions of \<^verbatim>\<open>slabs_curd/thread.c\<close> that wrap the item operations in item locks.

  An item lock that is already held blocks the caller; in the sequential model that is \<open>None\<close>, the
  value of a run that does not return. The connection carries the CAS value it reports; its
  thread's statistics are part of the state. Trace and log output is left out.
\<close>

section \<open>Item locks and the wrappers of \<^verbatim>\<open>thread.c\<close>\<close>

definition item_lock :: "u32 \<Rightarrow> 'z lru_state_scheme \<Rightarrow> 'z lru_state_scheme option" where
  "item_lock hv s =
     (let l = hv_bucket hv (item_lock_hashpower s)
      in if item_locks s l then None else Some (s\<lparr>item_locks := (item_locks s)(l := True)\<rparr>))"

definition item_unlock :: "u32 \<Rightarrow> 'z lru_state_scheme \<Rightarrow> 'z lru_state_scheme" where
  "item_unlock hv s = s\<lparr>item_locks := (item_locks s)(hv_bucket hv (item_lock_hashpower s) := False)\<rparr>"

definition item_alloc :: "bytes \<Rightarrow> u32 \<Rightarrow> u32 \<Rightarrow> int \<Rightarrow> 'z lru_state_scheme \<Rightarrow> (addr \<times> 'z lru_state_scheme) option" where
  "item_alloc key flags expt nb s = do_item_alloc key flags expt nb s"

definition item_get :: "bytes \<Rightarrow> bool \<Rightarrow> 'z lru_state_scheme \<Rightarrow> (addr \<times> 'z lru_state_scheme) option" where
  "item_get key do_update s = do {
     let hv = hash s key;
     s \<leftarrow> item_lock hv s;
     (it, s) \<leftarrow> do_item_get key hv do_update s;
     Some (it, item_unlock hv s)
   }"

definition item_touch :: "bytes \<Rightarrow> u32 \<Rightarrow> 'z lru_state_scheme \<Rightarrow> (addr \<times> 'z lru_state_scheme) option" where
  "item_touch key expt s = do {
     let hv = hash s key;
     s \<leftarrow> item_lock hv s;
     (it, s) \<leftarrow> do_item_touch key expt hv s;
     Some (it, item_unlock hv s)
   }"

definition item_link :: "addr \<Rightarrow> 'z lru_state_scheme \<Rightarrow> 'z lru_state_scheme option" where
  "item_link it s = do {
     let hv = hash s (item_key (heap s it));
     s \<leftarrow> item_lock hv s;
     s \<leftarrow> do_item_link it hv s;
     Some (item_unlock hv s)
   }"

definition item_remove :: "addr \<Rightarrow> 'z lru_state_scheme \<Rightarrow> 'z lru_state_scheme option" where
  "item_remove it s = do {
     let hv = hash s (item_key (heap s it));
     s \<leftarrow> item_lock hv s;
     s \<leftarrow> do_item_remove it s;
     Some (item_unlock hv s)
   }"

definition item_replace :: "addr \<Rightarrow> addr \<Rightarrow> u32 \<Rightarrow> 'z lru_state_scheme \<Rightarrow> 'z lru_state_scheme option" where
  "item_replace old_it new_it hv s = do_item_replace old_it new_it hv s"

definition item_unlink :: "addr \<Rightarrow> 'z lru_state_scheme \<Rightarrow> 'z lru_state_scheme option" where
  "item_unlink it s = do {
     let hv = hash s (item_key (heap s it));
     s \<leftarrow> item_lock hv s;
     s \<leftarrow> do_item_unlink it hv s;
     Some (item_unlock hv s)
   }"

text \<open>
  The size of the item lock table. \<open>None\<close> is the exit of the process: the table must be smaller than
  the hash table, and its memory must be there.
\<close>

definition item_lock_power :: "int \<Rightarrow> nat" where
  "item_lock_power nthreads =
     (if nthreads < 3 then 10 else if nthreads < 4 then 11 else if nthreads < 5 then 12
      else if nthreads \<le> 10 then 13 else if nthreads \<le> 20 then 14 else 15)"

definition memcached_thread_init :: "int \<Rightarrow> bool \<Rightarrow> bool \<Rightarrow> 'z lru_state_scheme \<Rightarrow> 'z lru_state_scheme option" where
  "memcached_thread_init nthreads locks_ok threads_ok s =
     (let power = item_lock_power nthreads
      in if hashpower s \<le> power \<or> \<not> locks_ok \<or> \<not> threads_ok then None
         else Some (s\<lparr>item_lock_hashpower := power, item_locks := (\<lambda>_. False)\<rparr>))"

section \<open>Settings\<close>

definition settings_init :: settings where
  "settings_init = \<lparr>maxbytes = 64 * 1024 * 1024, oldest_live = 0, oldest_cas = 0, evict_to_free = True,
     factor_num = 5, factor_den = 4, chunk_size = 48, use_cas = True, item_size_max = 1024 * 1024,
     slab_chunk_size_max = (1024 * 1024) div 2, slab_page_size = 1024 * 1024, lru_segmented = True,
     slab_reassign = True, slab_automove = 1, hot_lru_pct = 20, warm_lru_pct = 40,
     tail_repair_time = 0, inline_ascii_response = False, temp_lru = False, temporary_ttl = 61\<rparr>"

section \<open>Data bytes\<close>

text \<open>\<^verbatim>\<open>memcpy\<close> into and out of the data of an item or chunk; bytes never written read as 0.\<close>

definition data_write :: "nat \<Rightarrow> bytes \<Rightarrow> bytes \<Rightarrow> bytes" where
  "data_write off bs d =
     (let d = d @ replicate (off + length bs - length d) 0
      in take off d @ bs @ drop (off + length bs) d)"

definition data_read :: "nat \<Rightarrow> nat \<Rightarrow> bytes \<Rightarrow> bytes" where
  "data_read off n d = take n (drop off (d @ replicate (off + n - length d) 0))"

text \<open>The client flags kept in the suffix.\<close>

definition suffix_flags :: "settings \<Rightarrow> item \<Rightarrow> u32" where
  "suffix_flags st it =
     (if inline_ascii_response st then ucast (fst (c_strtoull (i_suffix it)))
      else if 0 < nsuffix it then bytes_to_u32 (i_suffix it) else 0)"

section \<open>Increment and decrement\<close>

datatype delta_result_type = OK | NON_NUMERIC | EOM | DELTA_ITEM_NOT_FOUND | DELTA_ITEM_CAS_MISMATCH

definition delta_value :: "bool \<Rightarrow> u64 \<Rightarrow> u64 \<Rightarrow> u64" where
  "delta_value incr delta v = (if incr then v + delta else if v < delta then 0 else v - delta)"

definition delta_in_place :: "addr \<Rightarrow> bytes \<Rightarrow> 'z lru_state_scheme \<Rightarrow> 'z lru_state_scheme option" where
  "delta_in_place it buf s = do {
     let s = item_stats_sizes_remove it s;
     let (v, s) = (if has_flag (it_flags (heap s it)) ITEM_CAS \<and> use_cas (settings s) then get_cas_id s else (0, s));
     let s = upd_item it (ITEM_set_cas v) s;
     let s = item_stats_sizes_add it s;
     let s = upd_item it (\<lambda>i. i\<lparr>i_data := data_write 0 buf (i_data i)\<rparr>) s;
     let s = upd_item it (\<lambda>i. i\<lparr>i_data := data_write (length buf) (replicate (nat (nbytes i) - length buf - 2) 32) (i_data i)\<rparr>) s;
     do_item_update it s
   }"

definition delta_replace :: "addr \<Rightarrow> bytes \<Rightarrow> u32 \<Rightarrow> 'z lru_state_scheme \<Rightarrow> (bool \<times> 'z lru_state_scheme) option" where
  "delta_replace it buf hv s = do {
     let flags = suffix_flags (settings s) (heap s it);
     (new_it, s) \<leftarrow> do_item_alloc (item_key (heap s it)) flags (exptime (heap s it)) (int (length buf) + 2) s;
     (if new_it = NULL then do {
        s \<leftarrow> do_item_remove it s;
        Some (False, s)
      } else do {
        let s = upd_item new_it (\<lambda>i. i\<lparr>i_data := data_write 0 buf (i_data i)\<rparr>) s;
        let s = upd_item new_it (\<lambda>i. i\<lparr>i_data := data_write (length buf) CRLF (i_data i)\<rparr>) s;
        s \<leftarrow> item_replace it new_it hv s;
        let s = upd_item it (ITEM_set_cas (if use_cas (settings s) then ITEM_get_cas (heap s new_it) else 0)) s;
        s \<leftarrow> do_item_remove new_it s;
        Some (True, s)
      })
   }"

text \<open>\<open>cas\<close> is the in-out parameter, \<open>None\<close> for a null pointer; \<open>buf\<close> the response buffer.\<close>

definition do_add_delta ::
  "bytes \<Rightarrow> bool \<Rightarrow> u64 \<Rightarrow> bytes \<Rightarrow> u64 option \<Rightarrow> u32 \<Rightarrow> 'z lru_state_scheme \<Rightarrow>
   (delta_result_type \<times> bytes \<times> u64 option \<times> 'z lru_state_scheme) option" where
  "do_add_delta key incr delta buf cas hv s = do {
     (it, s) \<leftarrow> do_item_get key hv False s;
     (if it = NULL then Some (DELTA_ITEM_NOT_FOUND, buf, cas, s)
      else if nbytes (heap s it) \<le> 2 \<or> has_flag (it_flags (heap s it)) ITEM_CHUNKED then Some (NON_NUMERIC, buf, cas, s)
      else if (case cas of None \<Rightarrow> False | Some v \<Rightarrow> v \<noteq> 0 \<and> ITEM_get_cas (heap s it) \<noteq> v) then do {
        s \<leftarrow> do_item_remove it s;
        Some (DELTA_ITEM_CAS_MISMATCH, buf, cas, s)
      } else (case safe_strtoull (i_data (heap s it)) of
        None \<Rightarrow> do { s \<leftarrow> do_item_remove it s; Some (NON_NUMERIC, buf, cas, s) }
      | Some v \<Rightarrow> do {
          let v = delta_value incr delta v;
          let cl = ITEM_clsid (heap s it);
          let s = (if incr
             then s\<lparr>tstats := (tstats s)\<lparr>incr_hits := (incr_hits (tstats s))(cl := incr_hits (tstats s) cl + 1)\<rparr>\<rparr>
             else s\<lparr>tstats := (tstats s)\<lparr>decr_hits := (decr_hits (tstats s))(cl := decr_hits (tstats s) cl + 1)\<rparr>\<rparr>);
          let buf = print_nat (unat v);
          let res = int (length buf);
          (if res + 2 \<le> nbytes (heap s it) \<and> refcount (heap s it) = 2 then do {
             s \<leftarrow> delta_in_place it buf s;
             let cas = map_option (\<lambda>_. ITEM_get_cas (heap s it)) cas;
             s \<leftarrow> do_item_remove it s;
             Some (OK, buf, cas, s)
           } else if 1 < refcount (heap s it) then do {
             (ok, s) \<leftarrow> delta_replace it buf hv s;
             (if \<not> ok then Some (EOM, buf, cas, s)
              else do {
                let cas = map_option (\<lambda>_. ITEM_get_cas (heap s it)) cas;
                s \<leftarrow> do_item_remove it s;
                Some (OK, buf, cas, s)
              })
           } else do {
             s \<leftarrow> (if refcount (heap s it) = 1 then do_item_remove it s else Some s);
             Some (DELTA_ITEM_NOT_FOUND, buf, cas, s)
           })
        }))
   }"

section \<open>Append and prepend\<close>

partial_function (option) free_chunk :: "addr \<Rightarrow> 'z lru_state_scheme \<Rightarrow> addr option" where
  "free_chunk dch s =
     (if ch_size (heap s dch) = ch_used (heap s dch) \<and> i_next (heap s dch) \<noteq> NULL
      then free_chunk (i_next (heap s dch)) s else Some dch)"

text \<open>Copying out of a chunked item: \<open>copied\<close> bytes of the source chunk are done, \<open>remain\<close> to go.\<close>

partial_function (option) copy_from_chunks ::
  "addr \<Rightarrow> addr \<Rightarrow> int \<Rightarrow> int \<Rightarrow> 'z lru_state_scheme \<Rightarrow> (int \<times> 'z lru_state_scheme) option" where
  "copy_from_chunks dch sch copied remain s =
     (if sch = NULL \<or> dch = NULL \<or> remain = 0 then do { c_assert (remain = 0); Some (0, s) }
      else do {
        c_assert (ch_used (heap s dch) \<le> ch_size (heap s dch));
        let room = ch_size (heap s dch) - ch_used (heap s dch);
        let todo = (if room < ch_used (heap s sch) - copied then room else ch_used (heap s sch) - copied);
        let todo = (if remain < todo then remain else todo);
        let bs = data_read (nat copied) (nat todo) (i_data (heap s sch));
        let s = upd_item dch (\<lambda>c. c\<lparr>i_data := data_write (nat (ch_used c)) bs (i_data c), ch_used := ch_used c + todo\<rparr>) s;
        let copied = copied + todo;
        let remain = remain - todo;
        c_assert (ch_used (heap s dch) \<le> ch_size (heap s dch));
        (tch, s) \<leftarrow> (if ch_size (heap s dch) = ch_used (heap s dch) then do_item_alloc_chunk dch (nat remain) s else Some (dch, s));
        (if tch = NULL then Some (-1, s)
         else do {
           c_assert (copied \<le> ch_used (heap s sch));
           (if copied = ch_used (heap s sch) then copy_from_chunks tch (i_next (heap s sch)) 0 remain s
            else copy_from_chunks tch sch copied remain s)
         })
      })"

text \<open>Copying out of a plain item, \<open>don\<close> bytes done.\<close>

partial_function (option) copy_from_item ::
  "addr \<Rightarrow> addr \<Rightarrow> int \<Rightarrow> int \<Rightarrow> 'z lru_state_scheme \<Rightarrow> (int \<times> 'z lru_state_scheme) option" where
  "copy_from_item dch s_it len don s =
     (if \<not> (don < len \<and> dch \<noteq> NULL) then do { c_assert (len = don); Some (0, s) }
      else do {
        let room = ch_size (heap s dch) - ch_used (heap s dch);
        let todo = (if room < len - don then room else len - don);
        let bs = data_read (nat don) (nat todo) (i_data (heap s s_it));
        let s = upd_item dch (\<lambda>c. c\<lparr>i_data := data_write (nat (ch_used c)) bs (i_data c), ch_used := ch_used c + todo\<rparr>) s;
        let don = don + todo;
        c_assert (ch_used (heap s dch) \<le> ch_size (heap s dch));
        (tch, s) \<leftarrow> (if ch_size (heap s dch) = ch_used (heap s dch) then do_item_alloc_chunk dch (nat (len - don)) s else Some (dch, s));
        (if tch = NULL then Some (-1, s) else copy_from_item tch s_it len don s)
      })"

definition store_item_copy_chunks :: "addr \<Rightarrow> addr \<Rightarrow> int \<Rightarrow> 'z lru_state_scheme \<Rightarrow> (int \<times> 'z lru_state_scheme) option" where
  "store_item_copy_chunks d_it s_it len s = do {
     dch \<leftarrow> free_chunk (ITEM_data d_it (heap s d_it)) s;
     (if has_flag (it_flags (heap s s_it)) ITEM_CHUNKED
      then copy_from_chunks dch (ITEM_data s_it (heap s s_it)) 0 len s
      else copy_from_item dch s_it len 0 s)
   }"

datatype store_cmd = NREAD_ADD | NREAD_SET | NREAD_REPLACE | NREAD_APPEND | NREAD_PREPEND | NREAD_CAS

definition copy_two :: "addr \<Rightarrow> addr \<Rightarrow> addr \<Rightarrow> 'z lru_state_scheme \<Rightarrow> (int \<times> 'z lru_state_scheme) option" where
  "copy_two new_it fst_it snd_it s =
     (if has_flag (it_flags (heap s new_it)) ITEM_CHUNKED then do {
        (r, s) \<leftarrow> store_item_copy_chunks new_it fst_it (nbytes (heap s fst_it) - 2) s;
        (if r = -1 then Some (-1, s)
         else do {
           (r, s) \<leftarrow> store_item_copy_chunks new_it snd_it (nbytes (heap s snd_it)) s;
           Some (if r = -1 then -1 else 0, s)
         })
      } else
        let nf = nat (nbytes (heap s fst_it)); ns = nat (nbytes (heap s snd_it));
            s = upd_item new_it (\<lambda>i. i\<lparr>i_data := data_write 0 (data_read 0 nf (i_data (heap s fst_it))) (i_data i)\<rparr>) s;
            s = upd_item new_it (\<lambda>i. i\<lparr>i_data := data_write (nf - 2) (data_read 0 ns (i_data (heap s snd_it))) (i_data i)\<rparr>) s
        in Some (0, s))"

definition store_item_copy_data :: "store_cmd \<Rightarrow> addr \<Rightarrow> addr \<Rightarrow> addr \<Rightarrow> 'z lru_state_scheme \<Rightarrow> (int \<times> 'z lru_state_scheme) option" where
  "store_item_copy_data comm old_it new_it add_it s =
     (if comm = NREAD_APPEND then copy_two new_it old_it add_it s else copy_two new_it add_it old_it s)"

section \<open>Storing an item\<close>

datatype store_item_type = NOT_STORED | STORED | EXISTS | NOT_FOUND | TOO_LARGE | NOT_MEMORY

record conn =
  sfd :: int
  c_cas :: u64

text \<open>
  The append and prepend part of \<open>do_store_item\<close>: the status so far, whether the allocation
  failed, the item to store and the new item to release, if any.
\<close>

definition store_combine ::
  "addr \<Rightarrow> store_cmd \<Rightarrow> addr \<Rightarrow> 'z lru_state_scheme \<Rightarrow>
   (store_item_type \<times> bool \<times> addr \<times> addr \<times> 'z lru_state_scheme) option" where
  "store_combine it comm old_it s =
     (if ITEM_get_cas (heap s it) \<noteq> 0 \<and> ITEM_get_cas (heap s it) \<noteq> ITEM_get_cas (heap s old_it)
      then Some (EXISTS, False, it, NULL, s)
      else do {
        let flags = suffix_flags (settings s) (heap s old_it);
        (new_it, s) \<leftarrow> do_item_alloc (item_key (heap s it)) flags (exptime (heap s old_it))
                          (nbytes (heap s it) + nbytes (heap s old_it) - 2) s;
        (if new_it = NULL then Some (NOT_STORED, True, it, NULL, s)
         else do {
           (r, s) \<leftarrow> store_item_copy_data comm old_it new_it it s;
           (if r = -1 then do { s \<leftarrow> item_remove new_it s; Some (NOT_STORED, True, it, new_it, s) }
            else Some (NOT_STORED, False, new_it, new_it, s))
         })
      })"

definition store_cas :: "addr \<Rightarrow> addr \<Rightarrow> u32 \<Rightarrow> 'z lru_state_scheme \<Rightarrow> (store_item_type \<times> 'z lru_state_scheme) option" where
  "store_cas it old_it hv s =
     (if old_it = NULL then Some (NOT_FOUND, s\<lparr>tstats := (tstats s)\<lparr>cas_misses := cas_misses (tstats s) + 1\<rparr>\<rparr>)
      else
        let cl = ITEM_clsid (heap s old_it)
        in if ITEM_get_cas (heap s it) = ITEM_get_cas (heap s old_it) then do {
             let s = s\<lparr>tstats := (tstats s)\<lparr>cas_hits := (cas_hits (tstats s))(cl := cas_hits (tstats s) cl + 1)\<rparr>\<rparr>;
             s \<leftarrow> item_replace old_it it hv s;
             Some (STORED, s)
           }
           else Some (EXISTS, s\<lparr>tstats := (tstats s)\<lparr>cas_badval := (cas_badval (tstats s))(cl := cas_badval (tstats s) cl + 1)\<rparr>\<rparr>))"

definition do_store_item ::
  "addr \<Rightarrow> store_cmd \<Rightarrow> conn \<Rightarrow> u32 \<Rightarrow> 'z lru_state_scheme \<Rightarrow> (store_item_type \<times> conn \<times> 'z lru_state_scheme) option" where
  "do_store_item it comm c hv s = do {
     (old_it, s) \<leftarrow> do_item_get (item_key (heap s it)) hv False s;
     (stored, it, new_it, c, s) \<leftarrow>
       (if old_it \<noteq> NULL \<and> comm = NREAD_ADD then do {
          s \<leftarrow> do_item_update old_it s;
          Some (NOT_STORED, it, NULL, c, s)
        } else if old_it = NULL \<and> (comm = NREAD_REPLACE \<or> comm = NREAD_APPEND \<or> comm = NREAD_PREPEND)
        then Some (NOT_STORED, it, NULL, c, s)
        else if comm = NREAD_CAS then do {
          (stored, s) \<leftarrow> store_cas it old_it hv s;
          Some (stored, it, NULL, c, s)
        } else do {
          (stored, failed_alloc, it, new_it, s) \<leftarrow>
            (if comm = NREAD_APPEND \<or> comm = NREAD_PREPEND then store_combine it comm old_it s
             else Some (NOT_STORED, False, it, NULL, s));
          (if stored = NOT_STORED \<and> \<not> failed_alloc then do {
             s \<leftarrow> (if old_it \<noteq> NULL then item_replace old_it it hv s else do_item_link it hv s);
             Some (STORED, it, new_it, c\<lparr>c_cas := ITEM_get_cas (heap s it)\<rparr>, s)
           } else Some (stored, it, new_it, c, s))
        });
     s \<leftarrow> (if old_it \<noteq> NULL then do_item_remove old_it s else Some s);
     s \<leftarrow> (if new_it \<noteq> NULL then do_item_remove new_it s else Some s);
     Some (stored, if stored = STORED then c\<lparr>c_cas := ITEM_get_cas (heap s it)\<rparr> else c, s)
   }"

definition add_delta ::
  "bytes \<Rightarrow> bool \<Rightarrow> u64 \<Rightarrow> bytes \<Rightarrow> u64 option \<Rightarrow> 'z lru_state_scheme \<Rightarrow>
   (delta_result_type \<times> bytes \<times> u64 option \<times> 'z lru_state_scheme) option" where
  "add_delta key incr delta buf cas s = do {
     let hv = hash s key;
     s \<leftarrow> item_lock hv s;
     (ret, buf, cas, s) \<leftarrow> do_add_delta key incr delta buf cas hv s;
     Some (ret, buf, cas, item_unlock hv s)
   }"

definition store_item :: "addr \<Rightarrow> store_cmd \<Rightarrow> conn \<Rightarrow> 'z lru_state_scheme \<Rightarrow> (store_item_type \<times> conn \<times> 'z lru_state_scheme) option" where
  "store_item it comm c s = do {
     let hv = hash s (item_key (heap s it));
     s \<leftarrow> item_lock hv s;
     (ret, c, s) \<leftarrow> do_store_item it comm c hv s;
     Some (ret, c, item_unlock hv s)
   }"

end
