(* ===== verification/Store_Spec.thy ===== *)
theory Store_Spec
  imports Store
begin

text \<open>
  What the storage commands do to the map of keys and values, on every outcome.
\<close>

section \<open>Looking up with the intention to store\<close>

lemma linkable_strip:
  assumes "linkable s F it" "strip (heap s' it) = strip (heap s it)" "power_largest s' = power_largest s" "it \<notin> free_items F'"
  shows "linkable s' F' it"
  using assms(1,3,4) strip_fields(1-4) [OF assms(2)]
  by (auto simp: linkable_def valid_cls_def ITEM_clsid_def key_wf_def same_key_def)

lemma linked_item_cas: "ITEM_get_cas (linked_item it t) = (if has_flag (it_flags (heap t it)) ITEM_CAS then link_cas it t else 0)"
  by (simp add: linked_item_def ITEM_get_cas_def ITEM_set_cas_def)

lemma linked_item_value:
  assumes "strip (heap s' it) = strip (heap s it)" "settings s' = settings s" "cas_id s' = cas_id s"
  shows "item_value (linked_item it s') = item_value (linked_item it s)"
proof -
  note f = strip_fields [OF assms(1)]
  have "link_cas it s' = link_cas it s" using f(2) assms(2,3) by (simp add: link_cas_def)
  then show ?thesis using f(2,5,7,8) by (simp add: item_value_def linked_item_cas)
qed

definition opt_ptr :: "addr option \<Rightarrow> addr" where
  "opt_ptr r = (case r of None \<Rightarrow> NULL | Some p \<Rightarrow> p)"

lemma opt_ptr_simps [simp]: "opt_ptr None = NULL" "opt_ptr (Some p) = p" by (simp_all add: opt_ptr_def)

lemma do_item_get_noupdate:
  assumes c: "cinv s F Q" and m: "assoc_map s k = Some it" and r: "refcount (heap s it) \<noteq> - 1" and l: "item_live s it"
  shows "do_item_get k (hash s k) False s = Some (it, upd_item it (\<lambda>i. i\<lparr>refcount := refcount i + 1\<rparr>) s)"
proof -
  have it: "it \<in> lru_items Q" using cinv_map_item [OF c m] by blast
  have nn: "it \<noteq> NULL" using lru_inv_nonnull it c unfolding cinv_def by metis
  have inv: "assoc_inv s" using c by (simp add: cinv_def)
  have "\<not> (exptime (heap s it) \<noteq> 0 \<and> exptime (heap s it) \<le> current_time s)" "\<not> item_is_flushed it s"
    using l by (auto simp: item_live_iff)
  then show ?thesis using nn refcount_inc(4) [OF c it r]
    by (auto simp: do_item_get_def assoc_find_map [OF inv] m)
qed

text \<open>The state in which a storage command continues after its lookup of the key.\<close>

definition store_ready ::
  "'z lru_state_scheme \<Rightarrow> addr \<Rightarrow> 'z lru_state_scheme \<Rightarrow> (nat \<Rightarrow> addr list) \<Rightarrow> (u8 \<Rightarrow> addr list) \<Rightarrow> bool" where
  "store_ready s it t F Q \<longleftrightarrow> cinv t F Q \<and> linkable t F it \<and> strip (heap t it) = strip (heap s it) \<and>
     env t = env (s\<lparr>tstats := tstats t\<rparr>) \<and>
     (case lookup s (item_key (heap s it)) of
        None \<Rightarrow> assoc_map t (item_key (heap s it)) = None \<and> cache_view t = (cache_view s)(item_key (heap s it) := None)
      | Some p \<Rightarrow> p \<in> lru_items Q \<and> 1 < refcount (heap t p) \<and> p \<noteq> NULL \<and>
          item_key (heap t p) = item_key (heap s it) \<and> ITEM_get_cas (heap t p) = ITEM_get_cas (heap s p) \<and>
          cache_view t = cache_view s)"

lemma get_for_store:
  assumes c: "cinv s F Q" and l: "linkable s F it"
    and r: "\<And>p. assoc_map s (item_key (heap s it)) = Some p \<Longrightarrow> refcount (heap s p) \<noteq> - 1"
  defines "k \<equiv> item_key (heap s it)"
  shows "\<exists>t F' Q'. do_item_get k (hash s k) False s = Some (opt_ptr (lookup s k), t) \<and> store_ready s it t F' Q'"
proof -
  have nl: "it \<notin> lru_items Q" "it \<notin> free_items F" using l cinv_linked [OF c, of it] by (auto simp: linkable_def)
  have ai: "assoc_inv s" using c by (simp add: cinv_def)
  consider "assoc_map s k = None" | p where "assoc_map s k = Some p" "item_live s p"
    | p where "assoc_map s k = Some p" "\<not> item_live s p" by (cases "assoc_map s k") auto
  then show ?thesis
  proof cases
    case 1
    then have "cache_view s k = None" by (simp add: cache_view_def)
    then have "(cache_view s)(k := None) = cache_view s" by auto
    then have "store_ready s it s F Q" using c l 1 by (simp add: store_ready_def lookup_def k_def)
    then show ?thesis using do_item_get_miss [OF ai 1] 1 by (auto simp: lookup_def)
  next
    case (2 p)
    let ?t = "upd_item p (\<lambda>i. i\<lparr>refcount := refcount i + 1\<rparr>) s"
    have p: "p \<in> lru_items Q" "item_key (heap s p) = k" using cinv_map_item [OF c 2(1)] by blast+
    have nn: "p \<noteq> NULL" using lru_inv_nonnull p(1) c unfolding cinv_def by metis
    have r': "refcount (heap s p) \<noteq> - 1" using r 2(1) by (simp add: k_def)
    note t = refcount_inc [OF c p(1) r']
    have lk: "lookup s k = Some p" using 2 by (simp add: lookup_def)
    have v: "cache_view ?t = cache_view s" by (rule cache_view_same [OF c t(2)]) simp
    have h: "heap ?t it = heap s it" using nl p(1) by auto
    have "linkable ?t F it" by (rule linkable_strip [OF l]) (use h nl in \<open>auto simp: upd_item_def\<close>)
    moreover have "item_key (heap ?t p) = k" "ITEM_get_cas (heap ?t p) = ITEM_get_cas (heap s p)"
      using p(2) by (simp_all add: item_key_def ITEM_get_cas_def)
    moreover have "env ?t = env (s\<lparr>tstats := tstats ?t\<rparr>)" by (simp add: env_def)
    ultimately have "store_ready s it ?t F Q" using t(1,3) p(1) lk nn v h
      unfolding store_ready_def k_def [symmetric] by simp
    then show ?thesis using do_item_get_noupdate [OF c 2(1) r' 2(2)] lk by auto
  next
    case (3 p)
    have p: "p \<in> lru_items Q" "item_key (heap s p) = k" using cinv_map_item [OF c 3(1)] by blast+
    have r': "refcount (heap s p) \<noteq> - 1" using r 3(1) by (simp add: k_def)
    from do_item_get_dead [OF c 3(1) r' 3(2), of False] obtain t Q' where t: "do_item_get k (hash s k) False s = Some (NULL, t)"
      "cinv t (freed s p F) Q'" "assoc_map t = (assoc_map s)(k := None)" "env t = env (s\<lparr>tstats := tstats t\<rparr>)"
      "\<forall>a. a \<noteq> p \<longrightarrow> a \<notin> free_items F \<longrightarrow> strip (heap t a) = strip (heap s a)" by blast
    have ne: "it \<noteq> p" using nl p by auto
    have st: "strip (heap t it) = strip (heap s it)" using t(5) ne nl by blast
    have lk: "lookup s k = None" using 3 by (simp add: lookup_def)
    have "cache_view t = (cache_view s)(k := map_option (\<lambda>it. item_value (heap t it)) None)"
      by (rule cache_view_upd [OF c t(3)]) (use t(5) other_item [OF c, of _ _ p] p in \<open>blast intro: item_value_strip\<close>)
    moreover have "linkable t (freed s p F) it"
      by (rule linkable_strip [OF l st]) (use t(4) ne nl in \<open>auto simp: env_def freed_items\<close>)
    ultimately have "store_ready s it t (freed s p F) Q'" using t st lk by (simp add: store_ready_def k_def [symmetric])
    then show ?thesis using t(1) lk by auto
  qed
qed

section \<open>The branches\<close>

text \<open>Nothing but the cache itself, its counters and the CAS number differs.\<close>

definition same_env :: "'z lru_state_scheme \<Rightarrow> 'z lru_state_scheme \<Rightarrow> bool" where
  "same_env s t \<longleftrightarrow> settings t = settings s \<and> current_time t = current_time s \<and> hash t = hash s \<and> item_locks t = item_locks s \<and>
     item_lock_hashpower t = item_lock_hashpower s \<and> power_largest t = power_largest s"

lemma same_env_refl [simp]: "same_env s s" by (simp add: same_env_def)

lemma same_env_trans: "same_env s t \<Longrightarrow> same_env t u \<Longrightarrow> same_env s u" by (simp add: same_env_def)

lemma env_same_env: "env t = env (s\<lparr>tstats := x, cas_id := y\<rparr>) \<Longrightarrow> same_env s t" by (simp add: env_def same_env_def)

lemma env_eq_same_env: "env t = env s \<Longrightarrow> same_env s t" by (simp add: env_def same_env_def)

lemma tstats_same_env [simp]: "same_env (s\<lparr>tstats := x\<rparr>) t = same_env s t" "same_env s (t\<lparr>tstats := x\<rparr>) = same_env s t"
  by (simp_all add: same_env_def)

text \<open>What a storage command leaves of the item it was given: the caller's reference is still there, beside that of the cache if the item was linked.\<close>

definition still_held :: "'z lru_state_scheme \<Rightarrow> addr \<Rightarrow> 'z lru_state_scheme \<Rightarrow> bool" where
  "still_held s it u \<longleftrightarrow> same_env s u \<and> (\<exists>F Q. cinv u F Q \<and> item_key (heap u it) = item_key (heap s it) \<and>
     (private_item u F it \<and> refcount (heap u it) = refcount (heap s it) \<or> it \<in> lru_items Q \<and> refcount (heap u it) = refcount (heap s it) + 1))"

lemma linkable_private: "linkable s F it \<Longrightarrow> private_item s F it"
  by (simp add: linkable_def private_item_def)

lemma still_held_private: "cinv u F Q \<Longrightarrow> linkable u F it \<Longrightarrow> strip (heap u it) = strip (heap s it) \<Longrightarrow> same_env s u \<Longrightarrow> still_held s it u"
  using strip_fields(1,11) [of "heap u it" "heap s it"] linkable_private unfolding still_held_def by blast

lemma still_held_linked:
  assumes "cinv u F Q" "it \<in> lru_items Q" "same_env s u" "strip (heap t it) = strip (heap s it)"
    and "strip (heap u it) = strip ((linked_item it t)\<lparr>refcount := refcount (heap t it) + 1\<rparr>)"
  shows "still_held s it u"
proof -
  have "item_key (heap u it) = item_key (heap s it)"
    using strip_fields(11) [OF assms(5)] strip_fields(11) [OF assms(4)] by (simp add: item_key_def)
  moreover have "refcount (heap u it) = refcount (heap s it) + 1" using strip_fields(1) [OF assms(5)] strip_fields(1) [OF assms(4)] by simp
  ultimately show ?thesis using assms(1-3) unfolding still_held_def by blast
qed

lemma release_held:
  assumes c: "cinv s F Q" and p: "p \<in> lru_items Q" "1 < refcount (heap s p)"
  shows "\<exists>u. do_item_remove p s = Some u \<and> cinv u F Q \<and> cache_view u = cache_view s \<and> (\<forall>a. a \<noteq> p \<longrightarrow> heap u a = heap s a) \<and> env u = env s"
proof -
  have "refcount (heap s p) \<noteq> 0" "refcount (heap s p) \<noteq> 1" using p(2) by auto
  then have "\<exists>u. do_item_remove p s = Some u \<and> cache_inv u \<and> cache_view u = cache_view s"
    using c p(1) by (intro release_view) (auto simp: can_release_def)
  moreover have "p \<notin> free_items F" using cinv_free_not_linked [OF c] p(1) by blast
  moreover have "\<not> has_flag (it_flags (heap s p)) ITEM_SLABBED" using c p(1) by (auto simp: cinv_def linked_ok_def)
  ultimately show ?thesis using do_item_remove_keep [OF c _ _ p(2)] by auto
qed

lemma tstats_frame: "cinv s F Q \<Longrightarrow> cinv (s\<lparr>tstats := x\<rparr>) F Q \<and> cache_view (s\<lparr>tstats := x\<rparr>) = cache_view s"
proof -
  assume c: "cinv s F Q"
  have "cinv (s\<lparr>tstats := x\<rparr>) F Q \<and> assoc_map (s\<lparr>tstats := x\<rparr>) = assoc_map s"
    by (rule cinv_same_heap [OF c]) (simp_all add: core_def)
  then show ?thesis by (simp add: cache_view_def fun_eq_iff)
qed

lemma replace_release:
  assumes c: "cinv s F Q" and l: "linkable s F it" and p: "p \<in> lru_items Q" "1 < refcount (heap s p)"
    and k: "item_key (heap s p) = item_key (heap s it)"
  shows "\<exists>t u. do_item_replace p it (hash s (item_key (heap s it))) s = Some t \<and> do_item_remove p t = Some u \<and> cache_inv u \<and>
    cache_view u = (cache_view s)(item_key (heap s it) \<mapsto> item_value (linked_item it s)) \<and>
    ITEM_get_cas (heap u it) = ITEM_get_cas (linked_item it s) \<and> still_held s it u"
proof -
  have r: "refcount (heap s p) \<noteq> 1" "refcount (heap s p) \<noteq> 0" "refcount (heap s p) - 1 \<noteq> 0" using p(2) by auto
  define Q' where "Q' = Q(slabs_clsid (heap s p) := remove1 p (Q (slabs_clsid (heap s p))))"
  define R where "R = Q'(slabs_clsid (heap s it) := it # Q' (slabs_clsid (heap s it)))"
  have nf: "freed s p F = F" using r by (simp add: freed_def)
  obtain t where t: "do_item_replace p it (hash s (item_key (heap s it))) s = Some t" "cinv t F R"
    "strip (heap t it) = strip ((linked_item it s)\<lparr>refcount := refcount (heap s it) + 1\<rparr>)"
    "private_item t F p" "refcount (heap t p) = refcount (heap s p) - 1" "env t = env (s\<lparr>cas_id := cas_id t\<rparr>)"
    using do_item_replace_correct [OF c p(1) refl l k [symmetric]] r(1) nf k unfolding Q'_def R_def by auto
  have it: "it \<in> lru_items R" unfolding R_def by (simp add: lru_items_insert)
  from do_item_remove_private [OF t(2,4)] r(3) t(5) obtain u where u: "do_item_remove p t = Some u"
    "\<forall>a. a \<notin> insert p (free_items F) \<longrightarrow> heap u a = heap t a" "cinv u (freed t p F) R" "env u = env t" by auto
  have cv: "cache_view t = (cache_view s)(item_key (heap s it) \<mapsto> item_value (linked_item it s))"
    using replace_view [of s it p] t(1) c l p(1) k cinv_is_linked [OF c, of p] by (auto simp: can_link_def)
  have rl: "cache_inv u \<and> cache_view u = cache_view t"
    using release_view [of t p] u(1) t(2,4,5) r(3) by (auto simp: can_release_def)
  have "it \<notin> free_items F" "it \<noteq> p" using l it cinv_linked [OF c, of it] p(1) by (auto simp: linkable_def)
  then have "heap u it = heap t it" using u(2) by blast
  then have h: "strip (heap u it) = strip ((linked_item it s)\<lparr>refcount := refcount (heap s it) + 1\<rparr>)" using t(3) by simp
  then have "ITEM_get_cas (heap u it) = ITEM_get_cas (linked_item it s)"
    using strip_fields(10) [OF h] by (simp add: ITEM_get_cas_def)
  moreover have "same_env s u" using t(6) u(4) by (simp add: env_def same_env_def)
  ultimately show ?thesis using t(1) u(1) rl cv still_held_linked [OF u(3) it _ refl h] by auto
qed

text \<open>The result of a storage command: \<open>r\<close> is the CAS value of the live item of the key, \<open>v\<close> that of the item to store.\<close>

fun store_outcome :: "store_cmd \<Rightarrow> u64 option \<Rightarrow> u64 \<Rightarrow> store_item_type" where
  "store_outcome NREAD_ADD r v = (if r = None then STORED else NOT_STORED)"
| "store_outcome NREAD_REPLACE r v = (if r = None then NOT_STORED else STORED)"
| "store_outcome NREAD_CAS r v = (case r of None \<Rightarrow> NOT_FOUND | Some w \<Rightarrow> if v = w then STORED else EXISTS)"
| "store_outcome _ r v = STORED"

lemma link_new:
  assumes c: "cinv s F Q" and l: "linkable s F it" and m: "assoc_map s (item_key (heap s it)) = None"
  shows "\<exists>t. do_item_link it (hash s (item_key (heap s it))) s = Some t \<and> cache_inv t \<and>
    cache_view t = (cache_view s)(item_key (heap s it) \<mapsto> item_value (linked_item it s)) \<and>
    ITEM_get_cas (heap t it) = ITEM_get_cas (linked_item it s) \<and> still_held s it t"
proof -
  have "can_link s it" using c l by (auto simp: can_link_def)
  from link_view [OF this m] obtain t where t: "do_item_link it (hash s (item_key (heap s it))) s = Some t" "cache_inv t"
    "cache_view t = (cache_view s)(item_key (heap s it) \<mapsto> item_value (linked_item it s))"
    "strip (heap t it) = strip ((linked_item it s)\<lparr>refcount := refcount (heap s it) + 1\<rparr>)" "env t = env (s\<lparr>cas_id := cas_id t\<rparr>)" by blast
  let ?R = "Q(slabs_clsid (heap s it) := it # Q (slabs_clsid (heap s it)))"
  have R: "cinv t F ?R" "it \<in> lru_items ?R" using do_item_link_correct [OF c l refl m] t(1) by (simp_all add: lru_items_insert)
  have "same_env s t" using t(5) by (simp add: env_def same_env_def)
  from still_held_linked [OF R this refl t(4)] show ?thesis using t strip_fields(10) [OF t(4)] by (simp add: ITEM_get_cas_def)
qed

lemma update_release:
  assumes c: "cinv s F Q" and p: "p \<in> lru_items Q" "1 < refcount (heap s p)"
  shows "\<exists>t u R. do_item_update p s = Some t \<and> do_item_remove p t = Some u \<and> cinv u F R \<and> cache_view u = cache_view s \<and>
    (\<forall>a. a \<noteq> p \<longrightarrow> strip (heap u a) = strip (heap s a)) \<and> env u = env s"
proof -
  obtain t Q' where t: "do_item_update p s = Some t" "bumped s F Q p t Q'" using do_item_update_correct [OF c p(1)] by blast
  have "cinv t F Q'" "p \<in> lru_items Q'" "1 < refcount (heap t p)" using t(2) p by (auto simp: bumped_def same_value_def)
  from release_held [OF this] show ?thesis using t bumped_view [OF c t(2)] by (auto simp: bumped_def)
qed

text \<open>\<open>do_store_item\<close> without append and prepend, from the state after the lookup.\<close>

lemma store_after_get:
  assumes g: "do_item_get (item_key (heap s it)) hv False s = Some (opt_ptr (lookup s (item_key (heap s it))), t)"
    and rd: "store_ready s it t F Q" and hv: "hv = hash s (item_key (heap s it))"
    and cm: "comm \<notin> {NREAD_APPEND, NREAD_PREPEND}"
  defines "k \<equiv> item_key (heap s it)"
  defines "res \<equiv> store_outcome comm (map_option (\<lambda>p. ITEM_get_cas (heap s p)) (lookup s k)) (ITEM_get_cas (heap s it))"
  shows "\<exists>c' u. do_store_item it comm c hv s = Some (res, c', u) \<and> cache_inv u \<and>
    cache_view u = (if res = STORED then (cache_view s)(k \<mapsto> item_value (linked_item it s))
      else if lookup s k = None then (cache_view s)(k := None) else cache_view s) \<and>
    c' = (if res = STORED then c\<lparr>c_cas := ITEM_get_cas (linked_item it s)\<rparr> else c) \<and> still_held s it u"
proof -
  have ct: "cinv t F Q" and lt: "linkable t F it" and st: "strip (heap t it) = strip (heap s it)"
    and en: "env t = env (s\<lparr>tstats := tstats t\<rparr>)" using rd by (auto simp: store_ready_def)
  have e: "hash t = hash s" "settings t = settings s" "cas_id t = cas_id s" using en by (simp_all add: env_def)
  have se: "same_env s t" using en by (simp add: env_def same_env_def)
  have kt: "item_key (heap t it) = k" "ITEM_get_cas (heap t it) = ITEM_get_cas (heap s it)"
    using strip_fields(10,11) [OF st] by (simp_all add: k_def)
  have val: "item_value (linked_item it t) = item_value (linked_item it s)" by (rule linked_item_value [OF st e(2,3)])
  then have cas: "ITEM_get_cas (linked_item it t) = ITEM_get_cas (linked_item it s)" by (simp add: item_value_def)
  have sh: "still_held s it u" if "still_held t it u" for u
    using that se kt(1) strip_fields(1) [OF st] same_env_trans [OF se] unfolding still_held_def k_def by simp
  have sp: "still_held s it u" if "cinv u F P" "strip (heap u it) = strip (heap t it)" "env u = env (t\<lparr>tstats := x\<rparr>)" for u P x
  proof (rule still_held_private [OF that(1)])
    show "linkable u F it" by (rule linkable_strip [OF lt that(2)]) (use lt that(3) in \<open>auto simp: env_def linkable_def\<close>)
    show "strip (heap u it) = strip (heap s it)" using that(2) st by simp
    show "same_env s u" using that(3) se by (simp add: env_def same_env_def)
  qed
  have g': "do_item_get k hv False s = Some (opt_ptr (lookup s k), t)" using g by (simp add: k_def)
  have ht: "hash t (item_key (heap t it)) = hv" using e(1) kt(1) hv by (simp add: k_def)
  note unf = do_store_item_def k_def [symmetric] g'
  show ?thesis
  proof (cases "lookup s k")
    case None
    then have m: "assoc_map t (item_key (heap t it)) = None" and v: "cache_view t = (cache_view s)(k := None)"
      using rd kt(1) by (simp_all add: store_ready_def k_def)
    obtain u where u: "do_item_link it hv t = Some u" "cache_inv u" "cache_view u = (cache_view t)(k \<mapsto> item_value (linked_item it s))"
      "ITEM_get_cas (heap u it) = ITEM_get_cas (linked_item it s)" "still_held s it u"
      using link_new [OF ct lt m] ht kt(1) val cas sh by auto
    have u3: "cache_view u = (cache_view s)(k \<mapsto> item_value (linked_item it s))" using u(3) v by simp
    have ti: "cache_inv t" using ct by (auto simp: cache_inv_def)
    have hd: "still_held s it (t\<lparr>tstats := x\<rparr>)" for x using sp [of "t\<lparr>tstats := x\<rparr>" Q x] tstats_frame [OF ct, of x] by simp
    show ?thesis
    proof (cases comm)
      case NREAD_CAS
      then show ?thesis using None tstats_frame [OF ct] v hd
        by (auto simp: unf res_def store_cas_def cache_inv_def)
    qed (use None cm u(1,2,4,5) u3 ti v hd [of "tstats t"] in \<open>auto simp: unf res_def\<close>)
  next
    case (Some p)
    then have p: "p \<in> lru_items Q" "1 < refcount (heap t p)" "p \<noteq> NULL" "item_key (heap t p) = k"
      "ITEM_get_cas (heap t p) = ITEM_get_cas (heap s p)" and v: "cache_view t = cache_view s"
      using rd by (auto simp: store_ready_def k_def)
    have np: "it \<noteq> p" using lt cinv_linked [OF ct, of it] p(1) by (auto simp: linkable_def)
    have rep: "\<exists>t2 u. do_item_replace p it hv (t\<lparr>tstats := x\<rparr>) = Some t2 \<and> do_item_remove p t2 = Some u \<and> cache_inv u \<and>
       cache_view u = (cache_view s)(k \<mapsto> item_value (linked_item it s)) \<and> ITEM_get_cas (heap u it) = ITEM_get_cas (linked_item it s) \<and>
       still_held s it u" for x
    proof -
      let ?t = "t\<lparr>tstats := x\<rparr>"
      have c': "cinv ?t F Q" "cache_view ?t = cache_view s" using tstats_frame [OF ct] v by auto
      have l': "linkable ?t F it" by (rule linkable_strip [OF lt]) (use lt in \<open>auto simp: linkable_def\<close>)
      have li: "linked_item it ?t = linked_item it t" by (simp add: linked_item_def link_cas_def)
      have "still_held t it u" if "still_held ?t it u" for u using that by (simp add: still_held_def)
      then show ?thesis using replace_release [OF c'(1) l' p(1)] p(2,4) kt(1) ht c'(2) val cas sh unfolding li by auto
    qed
    show ?thesis
    proof (cases comm)
      case NREAD_ADD
      obtain t2 u R where u: "do_item_update p t = Some t2" "do_item_remove p t2 = Some u" "cinv u F R" "cache_view u = cache_view t"
        "\<forall>a. a \<noteq> p \<longrightarrow> strip (heap u a) = strip (heap t a)" "env u = env t" using update_release [OF ct p(1,2)] by auto
      have "still_held s it u" using sp [OF u(3), of "tstats t"] u(5,6) np by simp
      then show ?thesis using NREAD_ADD Some u(1-4) v p(3) by (auto simp: unf res_def cache_inv_def)
    next
      case NREAD_CAS
      let ?x = "(tstats t)\<lparr>cas_badval := (cas_badval (tstats t))(ITEM_clsid (heap t p) := cas_badval (tstats t) (ITEM_clsid (heap t p)) + 1)\<rparr>"
      obtain u where u: "do_item_remove p (t\<lparr>tstats := ?x\<rparr>) = Some u" "cinv u F Q" "cache_view u = cache_view (t\<lparr>tstats := ?x\<rparr>)"
        "\<forall>a. a \<noteq> p \<longrightarrow> heap u a = heap t a" "env u = env (t\<lparr>tstats := ?x\<rparr>)"
        using release_held [of "t\<lparr>tstats := ?x\<rparr>" F Q p] tstats_frame [OF ct] p by auto
      have "still_held s it u" using sp [OF u(2) _ u(5)] u(4) np by simp
      moreover have "cache_inv u" using u(2) by (auto simp: cache_inv_def)
      moreover have "\<exists>t2 u. do_item_replace p it hv (t\<lparr>tstats := (tstats t)\<lparr>cas_hits := (cas_hits (tstats t))
         (ITEM_clsid (heap t p) := cas_hits (tstats t) (ITEM_clsid (heap t p)) + 1)\<rparr>\<rparr>) = Some t2 \<and>
         do_item_remove p t2 = Some u \<and> cache_inv u \<and> cache_view u = (cache_view s)(k \<mapsto> item_value (linked_item it s)) \<and>
         ITEM_get_cas (heap u it) = ITEM_get_cas (linked_item it s) \<and> still_held s it u" by (rule rep)
      ultimately show ?thesis using Some NREAD_CAS p(3,5) kt(2) v tstats_frame [OF ct, of ?x] u(1,3)
        by (cases "ITEM_get_cas (heap s it) = ITEM_get_cas (heap s p)")
           (auto simp: unf res_def store_cas_def item_replace_def Let_def)
    qed (use Some cm rep [of "tstats t"] p(3) in \<open>auto simp: unf res_def item_replace_def\<close>)
  qed
qed


section \<open>Properties of the storage commands\<close>

text \<open>
  (C2) \<open>do_store_item\<close> for add, set, replace and cas: the result is the one the command's definition
  asks for, given whether a live item is stored under the key and, for cas, whether its CAS value
  equals the given one; the item is stored under its key exactly when the result is \<^verbatim>\<open>STORED\<close>, no
  other key changes (a dead item found under the key goes away), the reference taken by the
  lookup is given back, and the connection reports the new CAS value.
\<close>

theorem do_store_item_spec:
  assumes "cinv s F Q" "linkable s F it" "comm \<notin> {NREAD_APPEND, NREAD_PREPEND}"
    and "\<And>p. assoc_map s (item_key (heap s it)) = Some p \<Longrightarrow> refcount (heap s p) \<noteq> - 1"
    and "k = item_key (heap s it)"
    and "res = store_outcome comm (map_option (\<lambda>p. ITEM_get_cas (heap s p)) (lookup s k)) (ITEM_get_cas (heap s it))"
  shows "\<exists>c' u. do_store_item it comm c (hash s k) s = Some (res, c', u) \<and> cache_inv u \<and>
    cache_view u = (if res = STORED then (cache_view s)(k \<mapsto> item_value (linked_item it s))
      else if lookup s k = None then (cache_view s)(k := None) else cache_view s) \<and>
    c' = (if res = STORED then c\<lparr>c_cas := ITEM_get_cas (linked_item it s)\<rparr> else c)"
proof -
  obtain t F' Q' where t: "do_item_get k (hash s k) False s = Some (opt_ptr (lookup s k), t)" "store_ready s it t F' Q'"
    using get_for_store [OF assms(1,2,4)] unfolding assms(5) by blast
  show ?thesis using store_after_get [OF _ t(2) _ assms(3)] t(1) unfolding assms(5,6) by blast
qed

theorem do_store_item_spec_witness:
  "\<exists>c u. do_store_item 100 NREAD_SET \<lparr>sfd = 3, c_cas = 0\<rparr> 6 ex_cache = Some (STORED, c, u) \<and>
     cache_view u = [[6] \<mapsto> ([49, 13, 10], 3, 0, 8)] \<and> c_cas c = 8"
proof -
  have l: "linkable ex_cache (\<lambda>_. []) 100" using ex_cache_linkable by simp
  have c: "ITEM_get_cas (linked_item 100 ex_cache) = 8" using ex_view(3) by (simp add: item_value_def)
  have "hash ex_cache [6] = 6" by (simp add: ex_cache_fields)
  with do_store_item_spec [OF ex_cache_cinv l _ _ ex_cache_keys(1) [symmetric] refl, of NREAD_SET "\<lparr>sfd = 3, c_cas = 0\<rparr>"]
  show ?thesis using ex_cache_table by (auto simp: ex_view c)
qed

section \<open>Increment and decrement\<close>

text \<open>The bytes an in-place update leaves: the number, padded with blanks in front of the final \<^verbatim>\<open>CRLF\<close>.\<close>

definition delta_data :: "bytes \<Rightarrow> bytes \<Rightarrow> bytes" where
  "delta_data buf d = buf @ replicate (length d - length buf - 2) 32 @ drop (length d - 2) d"

lemma data_write_fit: "off + length bs \<le> length d \<Longrightarrow> data_write off bs d = take off d @ bs @ drop (off + length bs) d"
  by (simp add: data_write_def)

lemma delta_data_write:
  assumes "length buf + 2 \<le> length d"
  shows "data_write (length buf) (replicate (length d - length buf - 2) 32) (data_write 0 buf d) = delta_data buf d"
proof -
  have 1: "data_write 0 buf d = buf @ drop (length buf) d" using assms by (simp add: data_write_fit)
  have 2: "length buf + (length d - length buf - 2) = length d - 2" using assms by simp
  show ?thesis using assms unfolding 1 by (subst data_write_fit) (simp_all add: delta_data_def 2)
qed

definition delta_item :: "addr \<Rightarrow> bytes \<Rightarrow> 'z lru_state_scheme \<Rightarrow> item" where
  "delta_item it buf s = (ITEM_set_cas (link_cas it s) (heap s it))\<lparr>i_data :=
     data_write (length buf) (replicate (nat (nbytes (heap s it)) - length buf - 2) 32) (data_write 0 buf (i_data (heap s it)))\<rparr>"

lemma delta_in_place_eq:
  "\<exists>w. delta_in_place it buf s = do_item_update it w \<and> core w = core s \<and> heap w = (heap s)(it := delta_item it buf s) \<and>
     env w = env (s\<lparr>cas_id := cas_id w\<rparr>)"
proof -
  define a where "a = item_stats_sizes_remove it s"
  define b where "b = (if has_flag (it_flags (heap a it)) ITEM_CAS \<and> use_cas (settings a) then get_cas_id a else (0, a))"
  define c where "c = item_stats_sizes_add it (upd_item it (ITEM_set_cas (fst b)) (snd b))"
  define d where "d = upd_item it (\<lambda>i. i\<lparr>i_data := data_write 0 buf (i_data i)\<rparr>) c"
  define w where "w = upd_item it (\<lambda>i. i\<lparr>i_data := data_write (length buf) (replicate (nat (nbytes i) - length buf - 2) 32) (i_data i)\<rparr>) d"
  have a1: "core a = core s" "heap a = heap s" "settings a = settings s" "cas_id a = cas_id s" "env a = env s"
    by (simp_all add: a_def sizes_add_core env_def)
  have b1: "core (snd b) = core s" "heap (snd b) = heap s" "fst b = link_cas it s" "env (snd b) = env (s\<lparr>cas_id := cas_id (snd b)\<rparr>)"
    using a1 by (simp_all add: b_def get_cas_id_def link_cas_def core_def env_def Let_def)
  have cu: "core (upd_item x f r) = core r" for x f and r :: "'z lru_state_scheme" by (simp add: core_def upd_item_def)
  have c1: "core c = core s" "heap c = (heap s)(it := ITEM_set_cas (link_cas it s) (heap s it))" "cas_id c = cas_id (snd b)"
    "env c = env (snd b)" using b1 by (simp_all add: c_def sizes_add_core cu env_def)
  have "core w = core s" "cas_id w = cas_id (snd b)" "env w = env (snd b)" using c1 by (simp_all add: w_def d_def cu env_def)
  moreover have "heap w = (heap s)(it := delta_item it buf s)" using c1(2) by (simp add: w_def d_def delta_item_def)
  moreover have "delta_in_place it buf s = do_item_update it w"
    by (simp add: delta_in_place_def a_def b_def c_def d_def w_def Let_def split_beta)
  ultimately show ?thesis using b1(4) by (intro exI [of _ w]) simp
qed

lemma delta_item_fields [simp]:
  "nbytes (delta_item it buf s) = nbytes (heap s it)" "exptime (delta_item it buf s) = exptime (heap s it)"
  "refcount (delta_item it buf s) = refcount (heap s it)" "it_flags (delta_item it buf s) = it_flags (heap s it)"
  by (simp_all add: delta_item_def)

lemma delta_in_place_correct:
  assumes c: "cinv s F Q" and it: "it \<in> lru_items Q"
  shows "\<exists>u Q'. delta_in_place it buf s = Some u \<and> cinv u F Q' \<and> lru_items Q' = lru_items Q \<and> assoc_map u = assoc_map s \<and>
    same_value (heap u it) (delta_item it buf s) \<and> (\<forall>a. a \<noteq> it \<longrightarrow> strip (heap u a) = strip (heap s a))"
proof -
  obtain w where w: "delta_in_place it buf s = do_item_update it w" "core w = core s" "heap w = (heap s)(it := delta_item it buf s)"
    using delta_in_place_eq [of it buf s] by blast
  have "item_same (delta_item it buf s) (heap s it)"
    by (simp add: item_same_def delta_item_def same_key_def ITEM_ntotal_def ITEM_set_cas_def)
  moreover have "refcount (delta_item it buf s) = refcount (heap s it)" "it_flags (delta_item it buf s) = it_flags (heap s it)" by simp_all
  ultimately have cw: "cinv w F Q \<and> assoc_map w = assoc_map s"
    using w(3) by (intro cinv_cong [OF c w(2)]) (use c in \<open>auto simp: cinv_def linked_ok_def\<close>)
  obtain u Q' where "do_item_update it w = Some u" "bumped w F Q it u Q'" using do_item_update_correct [of w F Q it] cw it by blast
  then show ?thesis using w cw by (intro exI [of _ u] exI [of _ Q']) (auto simp: bumped_def)
qed

lemma delta_item_value:
  assumes "length (i_data (heap s it)) = nat (nbytes (heap s it))" "length buf + 2 \<le> length (i_data (heap s it))"
  shows "item_value (delta_item it buf s) = (delta_data buf (i_data (heap s it)), nbytes (heap s it), exptime (heap s it),
    if has_flag (it_flags (heap s it)) ITEM_CAS then link_cas it s else 0)"
proof -
  have l: "length (delta_data buf (i_data (heap s it))) = nat (nbytes (heap s it))" using assms by (simp add: delta_data_def)
  have d: "i_data (delta_item it buf s) = delta_data buf (i_data (heap s it))"
    using delta_data_write [OF assms(2)] assms(1) by (simp add: delta_item_def)
  have "ITEM_get_cas (delta_item it buf s) = (if has_flag (it_flags (heap s it)) ITEM_CAS then link_cas it s else 0)"
    by (simp add: delta_item_def ITEM_get_cas_def ITEM_set_cas_def)
  then show ?thesis using l d by (simp add: item_value_def)
qed

lemma unat_delta_value:
  "unat (delta_value incr delta v) = (if incr then (unat v + unat delta) mod 2 ^ 64 else unat v - unat delta)"
  by (auto simp: delta_value_def unat_word_ariths(1) unat_sub word_less_nat_alt word_le_nat_alt not_less)

text \<open>
  (C9) Incrementing or decrementing a number that only the cache holds, with room for the result:
  the command answers \<^verbatim>\<open>OK\<close> with the decimal result (addition wraps at 2 ^ 64, subtraction stops at
  0), overwrites the value in place, padded with blanks in front of its \<^verbatim>\<open>CRLF\<close>, gives it a new CAS
  value, changes no other key and gives its reference back.
\<close>

theorem do_add_delta_in_place:
  assumes "cinv s F Q" "assoc_map s k = Some p" "item_live s p" "refcount (heap s p) = 1"
    and "2 < nbytes (heap s p)" "length (i_data (heap s p)) = nat (nbytes (heap s p))"
    and "case cas of None \<Rightarrow> True | Some v \<Rightarrow> v = 0 \<or> v = ITEM_get_cas (heap s p)"
    and "safe_strtoull (i_data (heap s p)) = Some v" "w = print_nat (if incr then (unat v + unat delta) mod 2 ^ 64 else unat v - unat delta)"
    and "length w + 2 \<le> length (i_data (heap s p))"
  shows "\<exists>cas' u. do_add_delta k incr delta buf cas (hash s k) s = Some (OK, w, cas', u) \<and> cache_inv u \<and>
    cache_view u = (cache_view s)(k \<mapsto> (delta_data w (i_data (heap s p)), nbytes (heap s p), exptime (heap s p),
      if has_flag (it_flags (heap s p)) ITEM_CAS then link_cas p s else 0))"
proof -
  let ?t = "upd_item p (\<lambda>i. i\<lparr>refcount := refcount i + 1\<rparr>) s"
  have p: "p \<in> lru_items Q" "item_key (heap s p) = k" using cinv_map_item [OF assms(1,2)] by blast+
  have nn: "p \<noteq> NULL" using lru_inv_nonnull p(1) assms(1) unfolding cinv_def by metis
  have r: "refcount (heap s p) \<noteq> - 1" using assms(4) by simp
  have nc: "\<not> has_flag (it_flags (heap s p)) ITEM_CHUNKED" using assms(1) p(1) by (auto simp: cinv_def linked_ok_def)
  note t = refcount_inc [OF assms(1) p(1) r]
  note get = do_item_get_noupdate [OF assms(1,2) r assms(3)]
  obtain x where x: "(if incr
     then ?t\<lparr>tstats := (tstats ?t)\<lparr>incr_hits := (incr_hits (tstats ?t))(ITEM_clsid (heap ?t p) := incr_hits (tstats ?t) (ITEM_clsid (heap ?t p)) + 1)\<rparr>\<rparr>
     else ?t\<lparr>tstats := (tstats ?t)\<lparr>decr_hits := (decr_hits (tstats ?t))(ITEM_clsid (heap ?t p) := decr_hits (tstats ?t) (ITEM_clsid (heap ?t p)) + 1)\<rparr>\<rparr>)
     = ?t\<lparr>tstats := x\<rparr>" by (cases incr) auto
  let ?x = "?t\<lparr>tstats := x\<rparr>"
  have cx: "cinv ?x F Q" "cache_view ?x = cache_view ?t" using tstats_frame [OF t(1)] by auto
  have mx: "assoc_map ?x = assoc_map s"
    using cinv_same_heap [OF t(1), of ?x] t(2) by (simp add: core_def)
  obtain y Q' where y: "delta_in_place p w ?x = Some y" "cinv y F Q'" "lru_items Q' = lru_items Q" "assoc_map y = assoc_map ?x"
    "same_value (heap y p) (delta_item p w ?x)" "\<forall>a. a \<noteq> p \<longrightarrow> strip (heap y a) = strip (heap ?x a)"
    using delta_in_place_correct [OF cx(1) p(1)] by blast
  have ry: "refcount (heap y p) = 2" using y(5) assms(4) by (simp add: same_value_def)
  obtain u where u: "do_item_remove p y = Some u" "cache_inv u" "cache_view u = cache_view y"
    using release_held [OF y(2), of p] p(1) y(3) ry by (auto simp: cache_inv_def)
  have v: "cache_view y = (cache_view s)(k := map_option (\<lambda>it. item_value (heap y it)) (Some p))"
  proof (rule cache_view_upd [OF assms(1)])
    show "assoc_map y = (assoc_map s)(k := Some p)" using y(4) mx assms(2) by auto
    fix k' z assume "k' \<noteq> k" "assoc_map s k' = Some z"
    with other_item [OF assms(1) this(2), of p] p(2) y(6) show "item_value (heap y z) = item_value (heap s z)"
      by (auto dest!: item_value_strip)
  qed
  have len: "length (i_data (heap ?x p)) = nat (nbytes (heap ?x p))" "length w + 2 \<le> length (i_data (heap ?x p))" using assms(6,10) by auto
  have lc: "link_cas p ?x = link_cas p s" by (simp add: link_cas_def)
  have vy: "item_value (heap y p) = (delta_data w (i_data (heap s p)), nbytes (heap s p), exptime (heap s p),
      if has_flag (it_flags (heap s p)) ITEM_CAS then link_cas p s else 0)"
    using item_value_same [OF y(5)] delta_item_value [OF len] by (simp add: lc)
  have fit: "int (length w) + 2 \<le> nbytes (heap s p)" using assms(5,6,10) by linarith
  have cs: "\<not> (case cas of None \<Rightarrow> False | Some v \<Rightarrow> v \<noteq> 0 \<and> ITEM_get_cas (heap ?t p) \<noteq> v)"
    using assms(7) by (auto simp: ITEM_get_cas_def split: option.splits)
  have wd: "w = print_nat (unat (delta_value incr delta v))" using assms(9) by (simp only: unat_delta_value)
  have "\<exists>cas'. do_add_delta k incr delta buf cas (hash s k) s = Some (OK, w, cas', u)"
    using get nn assms(4,5,8) nc cs y(1) u(1) fit unfolding do_add_delta_def wd [symmetric] Let_def
    by (simp add: x [simplified] wd [symmetric])
  then show ?thesis using u(2,3) v vy by auto
qed

text \<open>The cache with item 100, the number 1, linked and given back by its creator.\<close>

lemma ex_stored:
  "\<exists>s Q. cinv s (\<lambda>_. []) Q \<and> assoc_map s [6] = Some 100 \<and> item_live s 100 \<and> refcount (heap s 100) = 1 \<and>
     nbytes (heap s 100) = 3 \<and> i_data (heap s 100) = [49, 13, 10] \<and> hash s [6] = 6 \<and>
     (\<exists>t. link_item 100 ex_cache = Some t \<and> do_item_remove 100 t = Some s)"
proof -
  obtain t Q where t: "link_item 100 ex_cache = Some t" "cinv t (\<lambda>_. []) Q" "100 \<in> lru_items Q" using ex_link_100_free by blast
  have f: "strip (heap t 100) = strip ((linked_item 100 ex_cache)\<lparr>refcount := 2\<rparr>)" "env t = env (ex_cache\<lparr>cas_id := cas_id t\<rparr>)"
    "assoc_map t = (assoc_map ex_cache)([6] \<mapsto> 100)" using ex_link_100 t(1) by auto
  note g = strip_fields(1,2,5,7,8) [OF f(1)]
  let ?s = "upd_item 100 (\<lambda>i. i\<lparr>refcount := refcount i - 1\<rparr>) t"
  have sl: "\<not> has_flag (it_flags (heap t 100)) ITEM_SLABBED" using t(2,3) by (auto simp: cinv_def linked_ok_def)
  have rc: "1 < refcount (heap t 100)" "(100 :: nat) \<notin> free_items (\<lambda>_. [])" using g(1) by (auto simp: free_items_def)
  from do_item_remove_keep [OF t(2) rc(2) sl rc(1)] have r: "do_item_remove 100 t = Some ?s" "cinv ?s (\<lambda>_. []) Q" "assoc_map ?s = assoc_map t"
    by auto
  have lv: "item_live ?s 100" using f(2) g(3)
    by (simp add: item_live_def item_is_flushed_def env_def ex_cache_fields ex_cache_item_def ex_settings_def)
  have hs: "hash ?s [6] = 6" using f(2) by (simp add: env_def ex_cache_fields)
  have "assoc_map ?s [6] = Some 100" "refcount (heap ?s 100) = 1" "nbytes (heap ?s 100) = 3" "i_data (heap ?s 100) = [49, 13, 10]"
    using r(3) f(3) g by (auto simp: ex_cache_fields ex_cache_item_def)
  then show ?thesis using r(1,2) lv hs t(1) by blast
qed

lemma ex_number: "safe_strtoull [49, 13, 10] = Some 1"
  by (simp add: safe_strtoull_def c_strtoull_def Let_def c_isspace_def c_isdigit_def digits_value_def)

lemma print_digit: "n < 10 \<Longrightarrow> print_nat n = [of_nat (48 + n)]"
  by (subst print_nat.simps) simp

theorem do_add_delta_in_place_witness:
  "\<exists>s t u cas. link_item 100 ex_cache = Some t \<and> do_item_remove 100 t = Some s \<and>
     do_add_delta [6] True 4 [] None 6 s = Some (OK, [53], cas, u) \<and> map_option fst (cache_view u [6]) = Some [53, 13, 10]"
proof -
  obtain s t Q where s: "cinv s (\<lambda>_. []) Q" "assoc_map s [6] = Some 100" "item_live s 100" "refcount (heap s 100) = 1"
    "nbytes (heap s 100) = 3" "i_data (heap s 100) = [49, 13, 10]" "hash s [6] = 6"
    "link_item 100 ex_cache = Some t" "do_item_remove 100 t = Some s" using ex_stored by blast
  have w: "print_nat ((unat (1 :: u64) + unat (4 :: u64)) mod 2 ^ 64) = [53]" by (simp add: print_digit)
  from do_add_delta_in_place [OF s(1-4), of None 1 "[53]" True 4 "[]"] s(5-7) w ex_number obtain cas u where
    "do_add_delta [6] True 4 [] None 6 s = Some (OK, [53], cas, u)"
    "map_option fst (cache_view u [6]) = Some (delta_data [53] [49, 13, 10])" by auto
  moreover have "delta_data [53] [49, 13, 10] = [53, 13, 10]" by (simp add: delta_data_def)
  ultimately show ?thesis using s(8,9) by auto
qed

text \<open>
  Incrementing a value of at most two bytes answers \<^verbatim>\<open>NON_NUMERIC\<close> without giving back the
  reference the lookup took: each such command leaves the item's reference count one higher.
\<close>

theorem do_add_delta_leaks_reference:
  assumes "cinv s F Q" "assoc_map s k = Some p" "item_live s p" "refcount (heap s p) \<noteq> - 1" "nbytes (heap s p) \<le> 2"
  shows "do_add_delta k incr delta buf cas (hash s k) s =
    Some (NON_NUMERIC, buf, cas, upd_item p (\<lambda>i. i\<lparr>refcount := refcount i + 1\<rparr>) s)"
proof -
  have "p \<in> lru_items Q" using cinv_map_item [OF assms(1,2)] by blast
  then have "p \<noteq> NULL" using lru_inv_nonnull assms(1) unfolding cinv_def by metis
  then show ?thesis using do_item_get_noupdate [OF assms(1,2,4,3)] assms(5) by (simp add: do_add_delta_def)
qed

definition ex_short :: lru_state where
  "ex_short = upd_item 100 (\<lambda>i. i\<lparr>nbytes := 2, i_data := CRLF\<rparr>) ex_cache"

lemma ex_short_stored:
  "\<exists>(s :: lru_state) Q. cinv s (\<lambda>_. []) Q \<and> assoc_map s [6] = Some 100 \<and> item_live s 100 \<and> refcount (heap s 100) = 2 \<and>
     nbytes (heap s 100) = 2 \<and> hash s [6] = 6"
proof -
  have nf: "(100 :: nat) \<notin> free_items (\<lambda>_. [])" "(100 :: nat) \<notin> lru_items (\<lambda>_. [])" by (auto simp: free_items_def lru_items_def)
  have nt: "ITEM_ntotal (i\<lparr>nbytes := n, i_data := d\<rparr>) = ITEM_ntotal (i\<lparr>nbytes := n\<rparr>)" for i n d by (simp add: ITEM_ntotal_def)
  have core: "core ex_short = core ex_cache" by (simp add: ex_short_def core_def upd_item_def)
  have tb: "assoc_inv ex_short \<and> assoc_map ex_short = assoc_map ex_cache"
    by (rule assoc_heap_cong) (use ex_cache_table in \<open>auto simp: same_table_def ex_short_def upd_item_def assoc_items_def\<close>)
  have sl: "slabs_inv ex_short (\<lambda>_. [])"
    by (rule slabs_inv_cong [OF ex_cache_slabs]) (auto simp: ex_short_def upd_item_def free_items_def)
  have c: "cinv ex_short (\<lambda>_. []) (\<lambda>_. [])"
    using tb sl ex_cache_table
    by (simp add: cinv_def lru_inv_def lru_ok_def dll_def lru_items_def assoc_items_def ex_short_def ex_cache_fields ex_cache_item_def zero_item_def upd_item_def)
  have l: "linkable ex_short (\<lambda>_. []) 100"
    using ex_cache_linkable [of 100] by (simp add: linkable_def ex_short_def key_wf_def ITEM_clsid_def valid_cls_def upd_item_def)
  have k: "item_key (heap ex_short 100) = [6]" using ex_cache_keys by (simp add: ex_short_def item_key_def)
  have m: "assoc_map ex_short (item_key (heap ex_short 100)) = None" using tb ex_cache_table by simp
  from do_item_link_correct [OF c l refl m] obtain t :: lru_state where t: "cinv t (\<lambda>_. []) ((\<lambda>_. [])(slabs_clsid (heap ex_short 100) := [100]))"
    "assoc_map t = (assoc_map ex_short)([6] \<mapsto> 100)"
    "strip (heap t 100) = strip ((linked_item 100 ex_short)\<lparr>refcount := refcount (heap ex_short 100) + 1\<rparr>)"
    "env t = env (ex_short\<lparr>cas_id := cas_id t\<rparr>)" unfolding k by blast
  note g = strip_fields(1,5,8) [OF t(3)]
  have e: "settings t = settings ex_cache" "hash t [6] = 6" using t(4) by (simp_all add: env_def ex_short_def upd_item_def ex_cache_fields)
  have "item_live t 100" "refcount (heap t 100) = 2" "nbytes (heap t 100) = 2"
    using g e by (simp_all add: item_live_def item_is_flushed_def ex_short_def ex_cache_fields ex_cache_item_def ex_settings_def)
  then show ?thesis using t(1,2) e(2) by auto
qed

theorem do_add_delta_leaks_reference_witness:
  "\<exists>s :: lru_state. refcount (heap s 100) = 2 \<and> (\<exists>u. do_add_delta [6] True 1 [] None 6 s = Some (NON_NUMERIC, [], None, u) \<and>
     refcount (heap u 100) = 3)"
proof -
  obtain s :: lru_state and Q where s: "cinv s (\<lambda>_. []) Q" "assoc_map s [6] = Some 100" "item_live s 100" "refcount (heap s 100) = 2"
    "nbytes (heap s 100) = 2" "hash s [6] = 6" using ex_short_stored by blast
  from do_add_delta_leaks_reference [OF s(1-3), of True 1 "[]" None] s(4-6) show ?thesis by (intro exI [of _ s]) simp
qed

text \<open>
  The item lock table is always smaller than the hash table, as bucket migration needs it (it
  covers one bucket with one lock): \<open>memcached_thread_init\<close> refuses to start otherwise, and leaves all
  item locks free.
\<close>

theorem memcached_thread_init_locks:
  assumes "memcached_thread_init nthreads locks_ok threads_ok s = Some s'"
  shows "item_lock_hashpower s' < hashpower s' \<and> 10 \<le> item_lock_hashpower s' \<and> item_lock_hashpower s' \<le> 15 \<and>
    item_locks s' = (\<lambda>_. False) \<and> (cinv s F Q \<longrightarrow> cinv s' F Q)"
proof -
  have s': "s' = s\<lparr>item_lock_hashpower := item_lock_power nthreads, item_locks := \<lambda>_. False\<rparr>" "item_lock_power nthreads < hashpower s"
    using assms by (auto simp: memcached_thread_init_def Let_def split: if_splits)
  have "cinv s F Q \<longrightarrow> cinv s' F Q" using cinv_same_heap [of s F Q s'] by (simp add: s'(1) core_def)
  then show ?thesis using s' by (simp add: item_lock_power_def)
qed

theorem memcached_thread_init_locks_witness:
  "\<exists>s'. memcached_thread_init 4 True True (ex_cache\<lparr>hashpower := 16\<rparr>) = Some s' \<and> item_lock_hashpower s' < hashpower s'"
proof -
  obtain s' where s': "memcached_thread_init 4 True True (ex_cache\<lparr>hashpower := 16\<rparr>) = Some s'"
    by (simp add: memcached_thread_init_def item_lock_power_def)
  with memcached_thread_init_locks [OF s'] show ?thesis by blast
qed

end
