(* ===== verification/Hash.thy ===== *)
theory Hash
  imports Mc_Prelude
begin

text \<open>
  The hash functions of \<^verbatim>\<open>slabs_curd/murmur3_hash.c\<close> and \<^verbatim>\<open>slabs_curd/jenkins_hash.c\<close>. Both read the
  key in machine words, so the model reads bytes from a memory, takes the byte order of the host
  as a parameter and shows what each read path makes of the bytes around the key.
\<close>

unbundle bit_operations_syntax

section \<open>Memory reads\<close>

type_synonym mem = "nat \<Rightarrow> u8"

definition sh :: "u8 \<Rightarrow> nat \<Rightarrow> u32" where "sh b n = push_bit n (ucast b)"

definition rd32 :: "bool \<Rightarrow> mem \<Rightarrow> nat \<Rightarrow> u32" where
  "rd32 le m p = (if le then sh (m (p + 3)) 24 + sh (m (p + 2)) 16 + sh (m (p + 1)) 8 + sh (m p) 0
     else sh (m p) 24 + sh (m (p + 1)) 16 + sh (m (p + 2)) 8 + sh (m (p + 3)) 0)"

definition rd16 :: "bool \<Rightarrow> mem \<Rightarrow> nat \<Rightarrow> u32" where
  "rd16 le m p = (if le then sh (m (p + 1)) 8 + sh (m p) 0 else sh (m p) 8 + sh (m (p + 1)) 0)"

section \<open>MurmurHash3\<close>

definition rotl32 :: "u32 \<Rightarrow> nat \<Rightarrow> u32" where
  "rotl32 x r = push_bit r x OR drop_bit (32 - r) x"

definition getblock32 :: "bool \<Rightarrow> mem \<Rightarrow> nat \<Rightarrow> int \<Rightarrow> u32" where
  "getblock32 le m p i = rd32 le m (nat (int p + 4 * i))"

definition fmix32 :: "u32 \<Rightarrow> u32" where
  "fmix32 h =
     (let h = h XOR drop_bit 16 h;
          h = h * 0x85ebca6b;
          h = h XOR drop_bit 13 h;
          h = h * 0xc2b2ae35
      in h XOR drop_bit 16 h)"

definition murmur_k :: "u32 \<Rightarrow> u32" where
  "murmur_k k1 = rotl32 (k1 * 0xcc9e2d51) 15 * 0x1b873593"

text \<open>The body loop: \<open>i\<close> runs from \<open>- nblocks\<close> up to 0, relative to the end of the blocks.\<close>

function murmur_body :: "bool \<Rightarrow> mem \<Rightarrow> nat \<Rightarrow> int \<Rightarrow> u32 \<Rightarrow> u32" where
  "murmur_body le m blocks i h1 =
     (if i < 0 then murmur_body le m blocks (i + 1) (rotl32 (h1 XOR murmur_k (getblock32 le m blocks i)) 13 * 5 + 0xe6546b64)
      else h1)"
  by pat_completeness auto
termination by (relation "measure (\<lambda>(le, m, b, i, h). nat (- i))") auto

declare murmur_body.simps [simp del]

definition murmur_tail :: "mem \<Rightarrow> nat \<Rightarrow> nat \<Rightarrow> u32 \<Rightarrow> u32" where
  "murmur_tail m t n h1 =
     (let k1 = (0 :: u32);
          k1 = (if n = 3 then k1 XOR sh (m (t + 2)) 16 else k1);
          k1 = (if n = 3 \<or> n = 2 then k1 XOR sh (m (t + 1)) 8 else k1);
          k1 = (if n = 3 \<or> n = 2 \<or> n = 1 then k1 XOR sh (m t) 0 else k1)
      in if n = 3 \<or> n = 2 \<or> n = 1 then h1 XOR murmur_k k1 else h1)"

definition MurmurHash3_x86_32 :: "bool \<Rightarrow> mem \<Rightarrow> nat \<Rightarrow> nat \<Rightarrow> u32" where
  "MurmurHash3_x86_32 le m key len =
     (let nblocks = len div 4;
          h1 = murmur_body le m (key + nblocks * 4) (- int nblocks) 0;
          h1 = murmur_tail m (key + nblocks * 4) (len mod 4) h1
      in fmix32 (h1 XOR of_nat len))"

section \<open>Jenkins\<close>

definition rot :: "u32 \<Rightarrow> nat \<Rightarrow> u32" where
  "rot x k = push_bit k x XOR drop_bit (32 - k) x"

text \<open>One line of the macro \<^verbatim>\<open>mix\<close>, and of \<^verbatim>\<open>final\<close>; the lines rotate the roles of the three words.\<close>

definition mix_line :: "nat \<Rightarrow> u32 \<times> u32 \<times> u32 \<Rightarrow> u32 \<times> u32 \<times> u32" where
  "mix_line k = (\<lambda>(a, b, c). let a = a - c; a = a XOR rot c k; c = c + b in (a, b, c))"

definition mix :: "u32 \<times> u32 \<times> u32 \<Rightarrow> u32 \<times> u32 \<times> u32" where
  "mix = (\<lambda>(a, b, c).
     let (a, b, c) = mix_line 4 (a, b, c);
         (b, c, a) = mix_line 6 (b, c, a);
         (c, a, b) = mix_line 8 (c, a, b);
         (a, b, c) = mix_line 16 (a, b, c);
         (b, c, a) = mix_line 19 (b, c, a);
         (c, a, b) = mix_line 4 (c, a, b)
     in (a, b, c))"

definition final_line :: "u32 \<Rightarrow> u32 \<Rightarrow> nat \<Rightarrow> u32" where
  "final_line x y k = (x XOR y) - rot y k"

definition final :: "u32 \<times> u32 \<times> u32 \<Rightarrow> u32 \<times> u32 \<times> u32" where
  "final = (\<lambda>(a, b, c).
     let c = final_line c b 14;
         a = final_line a c 11;
         b = final_line b a 25;
         c = final_line c b 16;
         a = final_line a c 4;
         b = final_line b a 14;
         c = final_line c b 24
     in (a, b, c))"

definition add3 :: "u32 \<Rightarrow> u32 \<Rightarrow> u32 \<Rightarrow> u32 \<times> u32 \<times> u32 \<Rightarrow> u32 \<times> u32 \<times> u32" where
  "add3 x y z = (\<lambda>(a, b, c). (a + x, b + y, c + z))"

text \<open>
  The three read paths of the little-endian variant: 32-bit, 16-bit and bytes. Each switch of the
  source falls through where it has no \<^verbatim>\<open>break\<close>; a remaining length of 0 returns \<open>c\<close> without the
  final mixing.
\<close>

definition le_tail32 :: "mem \<Rightarrow> nat \<Rightarrow> nat \<Rightarrow> u32 \<times> u32 \<times> u32 \<Rightarrow> u32 \<times> u32 \<times> u32" where
  "le_tail32 m p n =
     (let k0 = rd32 True m p; k1 = rd32 True m (p + 4); k2 = rd32 True m (p + 8)
      in if n = 12 then add3 k0 k1 k2 else if n = 11 then add3 k0 k1 (k2 AND 0xffffff)
         else if n = 10 then add3 k0 k1 (k2 AND 0xffff) else if n = 9 then add3 k0 k1 (k2 AND 0xff)
         else if n = 8 then add3 k0 k1 0 else if n = 7 then add3 k0 (k1 AND 0xffffff) 0
         else if n = 6 then add3 k0 (k1 AND 0xffff) 0 else if n = 5 then add3 k0 (k1 AND 0xff) 0
         else if n = 4 then add3 k0 0 0 else if n = 3 then add3 (k0 AND 0xffffff) 0 0
         else if n = 2 then add3 (k0 AND 0xffff) 0 0 else if n = 1 then add3 (k0 AND 0xff) 0 0
         else add3 0 0 0)"

definition le_tail16 :: "mem \<Rightarrow> nat \<Rightarrow> nat \<Rightarrow> u32 \<times> u32 \<times> u32 \<Rightarrow> u32 \<times> u32 \<times> u32" where
  "le_tail16 m p n =
     (let k = (\<lambda>i. rd16 True m (p + 2 * i)); k8 = (\<lambda>i. m (p + i));
          w0 = k 0 + push_bit 16 (k 1); w1 = k 2 + push_bit 16 (k 3)
      in if n = 12 then add3 w0 w1 (k 4 + push_bit 16 (k 5))
         else if n = 11 then add3 w0 w1 (sh (k8 10) 16 + k 4) else if n = 10 then add3 w0 w1 (k 4)
         else if n = 9 then add3 w0 w1 (sh (k8 8) 0) else if n = 8 then add3 w0 w1 0
         else if n = 7 then add3 w0 (sh (k8 6) 16 + k 2) 0 else if n = 6 then add3 w0 (k 2) 0
         else if n = 5 then add3 w0 (sh (k8 4) 0) 0 else if n = 4 then add3 w0 0 0
         else if n = 3 then add3 (sh (k8 2) 16 + k 0) 0 0 else if n = 2 then add3 (k 0) 0 0
         else if n = 1 then add3 (sh (k8 0) 0) 0 0 else add3 0 0 0)"

text \<open>One word of the last block in the byte path: the bytes of the key that fall into it.\<close>

definition le_part :: "mem \<Rightarrow> nat \<Rightarrow> nat \<Rightarrow> u32" where
  "le_part m p n = (if 4 \<le> n then sh (m (p + 3)) 24 else 0) + (if 3 \<le> n then sh (m (p + 2)) 16 else 0)
     + (if 2 \<le> n then sh (m (p + 1)) 8 else 0) + (if 1 \<le> n then sh (m p) 0 else 0)"

definition be_part :: "mem \<Rightarrow> nat \<Rightarrow> nat \<Rightarrow> u32" where
  "be_part m p n = (if 4 \<le> n then sh (m (p + 3)) 0 else 0) + (if 3 \<le> n then sh (m (p + 2)) 8 else 0)
     + (if 2 \<le> n then sh (m (p + 1)) 16 else 0) + (if 1 \<le> n then sh (m p) 24 else 0)"

definition le_tail8 :: "mem \<Rightarrow> nat \<Rightarrow> nat \<Rightarrow> u32 \<times> u32 \<times> u32 \<Rightarrow> u32 \<times> u32 \<times> u32" where
  "le_tail8 m p n = add3 (le_part m p n) (le_part m (p + 4) (n - 4)) (le_part m (p + 8) (n - 8))"

definition be_tail8 :: "mem \<Rightarrow> nat \<Rightarrow> nat \<Rightarrow> u32 \<times> u32 \<times> u32 \<Rightarrow> u32 \<times> u32 \<times> u32" where
  "be_tail8 m p n = add3 (be_part m p n) (be_part m (p + 4) (n - 4)) (be_part m (p + 8) (n - 8))"

definition be_tail32 :: "bool \<Rightarrow> mem \<Rightarrow> nat \<Rightarrow> nat \<Rightarrow> u32 \<times> u32 \<times> u32 \<Rightarrow> u32 \<times> u32 \<times> u32" where
  "be_tail32 le m p n =
     (let k0 = rd32 le m p; k1 = rd32 le m (p + 4); k2 = rd32 le m (p + 8)
      in if n = 12 then add3 k0 k1 k2 else if n = 11 then add3 k0 k1 (k2 AND 0xffffff00)
         else if n = 10 then add3 k0 k1 (k2 AND 0xffff0000) else if n = 9 then add3 k0 k1 (k2 AND 0xff000000)
         else if n = 8 then add3 k0 k1 0 else if n = 7 then add3 k0 (k1 AND 0xffffff00) 0
         else if n = 6 then add3 k0 (k1 AND 0xffff0000) 0 else if n = 5 then add3 k0 (k1 AND 0xff000000) 0
         else if n = 4 then add3 k0 0 0 else if n = 3 then add3 (k0 AND 0xffffff00) 0 0
         else if n = 2 then add3 (k0 AND 0xffff0000) 0 0 else if n = 1 then add3 (k0 AND 0xff000000) 0 0
         else add3 0 0 0)"

text \<open>
  The loop over full blocks and the last block, for a reader of one block and of the tail. This is
  the shape all five paths share.
\<close>

function jenkins_loop ::
  "(nat \<Rightarrow> u32 \<times> u32 \<times> u32 \<Rightarrow> u32 \<times> u32 \<times> u32) \<Rightarrow> (nat \<Rightarrow> nat \<Rightarrow> u32 \<times> u32 \<times> u32 \<Rightarrow> u32 \<times> u32 \<times> u32) \<Rightarrow>
   nat \<Rightarrow> nat \<Rightarrow> u32 \<times> u32 \<times> u32 \<Rightarrow> u32" where
  "jenkins_loop block tail p n st =
     (if 12 < n then jenkins_loop block tail (p + 12) (n - 12) (mix (block p st))
      else if n = 0 then snd (snd st) else snd (snd (final (tail p n st))))"
  by pat_completeness auto
termination by (relation "measure (\<lambda>(b, t, p, n, st). n)") auto

declare jenkins_loop.simps [simp del]

definition jenkins_start :: "nat \<Rightarrow> u32 \<times> u32 \<times> u32" where
  "jenkins_start len = (let v = 0xdeadbeef + of_nat len in (v, v, v))"

definition le_block32 :: "mem \<Rightarrow> nat \<Rightarrow> u32 \<times> u32 \<times> u32 \<Rightarrow> u32 \<times> u32 \<times> u32" where
  "le_block32 m p = add3 (rd32 True m p) (rd32 True m (p + 4)) (rd32 True m (p + 8))"

definition le_block16 :: "mem \<Rightarrow> nat \<Rightarrow> u32 \<times> u32 \<times> u32 \<Rightarrow> u32 \<times> u32 \<times> u32" where
  "le_block16 m p = (let k = (\<lambda>i. rd16 True m (p + 2 * i))
     in add3 (k 0 + push_bit 16 (k 1)) (k 2 + push_bit 16 (k 3)) (k 4 + push_bit 16 (k 5)))"

definition le_block8 :: "mem \<Rightarrow> nat \<Rightarrow> u32 \<times> u32 \<times> u32 \<Rightarrow> u32 \<times> u32 \<times> u32" where
  "le_block8 m p = (let k = (\<lambda>i. m (p + i))
     in add3 (sh (k 0) 0 + sh (k 1) 8 + sh (k 2) 16 + sh (k 3) 24) (sh (k 4) 0 + sh (k 5) 8 + sh (k 6) 16 + sh (k 7) 24)
          (sh (k 8) 0 + sh (k 9) 8 + sh (k 10) 16 + sh (k 11) 24))"

definition be_block32 :: "bool \<Rightarrow> mem \<Rightarrow> nat \<Rightarrow> u32 \<times> u32 \<times> u32 \<Rightarrow> u32 \<times> u32 \<times> u32" where
  "be_block32 le m p = add3 (rd32 le m p) (rd32 le m (p + 4)) (rd32 le m (p + 8))"

definition be_block8 :: "mem \<Rightarrow> nat \<Rightarrow> u32 \<times> u32 \<times> u32 \<Rightarrow> u32 \<times> u32 \<times> u32" where
  "be_block8 m p = (let k = (\<lambda>i. m (p + i))
     in add3 (sh (k 0) 24 + sh (k 1) 16 + sh (k 2) 8 + sh (k 3) 0) (sh (k 4) 24 + sh (k 5) 16 + sh (k 6) 8 + sh (k 7) 0)
          (sh (k 8) 24 + sh (k 9) 16 + sh (k 10) 8 + sh (k 11) 0))"

text \<open>
  The little-endian variant, selected for a little-endian host, and the big-endian variant, which
  \<^verbatim>\<open>ENDIAN_BIG\<close> selects whatever the byte order \<open>le\<close> of the host is.
\<close>

definition jenkins_hash_little :: "mem \<Rightarrow> nat \<Rightarrow> nat \<Rightarrow> u32" where
  "jenkins_hash_little m key len =
     (if key mod 4 = 0 then jenkins_loop (le_block32 m) (le_tail32 m) key len (jenkins_start len)
      else if key mod 2 = 0 then jenkins_loop (le_block16 m) (le_tail16 m) key len (jenkins_start len)
      else jenkins_loop (le_block8 m) (le_tail8 m) key len (jenkins_start len))"

definition jenkins_hash :: "bool \<Rightarrow> mem \<Rightarrow> nat \<Rightarrow> nat \<Rightarrow> u32" where
  "jenkins_hash le m key len =
     (if key mod 4 = 0 then jenkins_loop (be_block32 le m) (be_tail32 le m) key len (jenkins_start len)
      else jenkins_loop (be_block8 m) (be_tail8 m) key len (jenkins_start len))"

section \<open>Words from bytes\<close>

lemma or_add: "(\<And>n. n < 32 \<Longrightarrow> \<not> (bit a n \<and> bit b n)) \<Longrightarrow> a + b = a OR (b :: u32)"
proof -
  assume h: "\<And>n. n < 32 \<Longrightarrow> \<not> (bit a n \<and> bit b n)"
  have "a AND b = 0" by (rule bit_word_eqI) (use h in \<open>auto simp: bit_and_iff\<close>)
  then show ?thesis by (rule disjunctive_add_eq_or)
qed

lemma bit_sh: "bit (sh b k) n \<longleftrightarrow> k \<le> n \<and> n < 32 \<and> n < k + 8 \<and> bit b (n - k)"
  by (auto simp: sh_def bit_push_bit_iff bit_ucast_iff dest: bit_imp_le_length)

lemma bytes_sum:
  "sh a 24 + sh b 16 = sh a 24 OR sh b 16" "sh a 24 + sh b 16 + sh c 8 = sh a 24 OR sh b 16 OR sh c 8"
  "sh a 24 + sh b 16 + sh c 8 + sh d 0 = sh a 24 OR sh b 16 OR sh c 8 OR sh d 0"
proof -
  show 1: "sh a 24 + sh b 16 = sh a 24 OR sh b 16" by (rule or_add) (auto simp: bit_sh)
  show 2: "sh a 24 + sh b 16 + sh c 8 = sh a 24 OR sh b 16 OR sh c 8"
    unfolding 1 by (subst or_add) (auto simp: bit_sh bit_or_iff or.assoc)
  show "sh a 24 + sh b 16 + sh c 8 + sh d 0 = sh a 24 OR sh b 16 OR sh c 8 OR sh d 0"
    unfolding 2 by (subst or_add) (auto simp: bit_sh bit_or_iff or.assoc)
qed

lemma mask_consts: "(0xffffff :: u32) = mask 24" "(0xffff :: u32) = mask 16" "(0xff :: u32) = mask 8"
  "(0xffffff00 :: u32) = NOT (mask 8)" "(0xffff0000 :: u32) = NOT (mask 16)" "(0xff000000 :: u32) = NOT (mask 24)"
  by (simp_all add: mask_eq_exp_minus_1)

lemma bytes_sum2: "sh b 16 + sh c 8 = sh b 16 OR sh c 8" "sh c 8 + sh d 0 = sh c 8 OR sh d 0"
  "sh b 16 + sh c 8 + sh d 0 = sh b 16 OR sh c 8 OR sh d 0"
proof -
  show 1: "sh b 16 + sh c 8 = sh b 16 OR sh c 8" by (rule or_add) (auto simp: bit_sh)
  show "sh c 8 + sh d 0 = sh c 8 OR sh d 0" by (rule or_add) (auto simp: bit_sh)
  show "sh b 16 + sh c 8 + sh d 0 = sh b 16 OR sh c 8 OR sh d 0"
    unfolding 1 by (subst or_add) (auto simp: bit_sh bit_or_iff or.assoc)
qed

lemma word_masked_low:
  "(sh a 24 + sh b 16 + sh c 8 + sh d 0) AND mask 24 = sh b 16 + sh c 8 + sh d 0"
  "(sh a 24 + sh b 16 + sh c 8 + sh d 0) AND mask 16 = sh c 8 + sh d 0"
  "(sh a 24 + sh b 16 + sh c 8 + sh d 0) AND mask 8 = sh d 0"
  unfolding bytes_sum(3) bytes_sum2(3) bytes_sum2(2) by (rule bit_word_eqI; auto simp: bit_sh bit_and_iff bit_or_iff bit_mask_iff)+

lemma word_masked_high:
  "(sh a 24 + sh b 16 + sh c 8 + sh d 0) AND NOT (mask 8) = sh a 24 + sh b 16 + sh c 8"
  "(sh a 24 + sh b 16 + sh c 8 + sh d 0) AND NOT (mask 16) = sh a 24 + sh b 16"
  "(sh a 24 + sh b 16 + sh c 8 + sh d 0) AND NOT (mask 24) = sh a 24"
  unfolding bytes_sum(3) unfolding bytes_sum(2) unfolding bytes_sum(1)
  by (rule bit_word_eqI; auto simp: bit_sh bit_and_iff bit_or_iff bit_mask_iff bit_not_iff)+

lemma le_part_full: "4 \<le> n \<Longrightarrow> le_part m p n = rd32 True m p"
  by (simp add: le_part_def rd32_def)

lemma be_part_full: "4 \<le> n \<Longrightarrow> be_part m p n = rd32 False m p"
  by (simp add: be_part_def rd32_def ac_simps)

lemma le_part_short:
  "le_part m p 3 = rd32 True m p AND mask 24" "le_part m p 2 = rd32 True m p AND mask 16"
  "le_part m p (Suc 0) = rd32 True m p AND mask 8" "le_part m p 0 = 0"
  by (simp_all add: le_part_def rd32_def word_masked_low)

lemma be_part_short:
  "be_part m p 3 = rd32 False m p AND NOT (mask 8)" "be_part m p 2 = rd32 False m p AND NOT (mask 16)"
  "be_part m p (Suc 0) = rd32 False m p AND NOT (mask 24)" "be_part m p 0 = 0"
  by (simp_all add: be_part_def rd32_def word_masked_high)

lemma push_bit_sh: "push_bit 16 (sh a 8 + sh b 0) = sh a 24 + sh b 16"
  by (simp add: sh_def push_bit_eq_mult algebra_simps)

lemma rd16_pair: "rd16 True m p + push_bit 16 (rd16 True m (p + 2)) = rd32 True m p"
proof -
  have "p + 2 + 1 = p + 3" by simp
  then show ?thesis unfolding rd16_def rd32_def by (simp only: if_True push_bit_sh) (simp add: ac_simps)
qed

lemma rd16_half: "rd16 True m p = rd32 True m p AND mask 16" "sh (m (p + 2)) 16 + rd16 True m p = rd32 True m p AND mask 24"
  unfolding rd16_def rd32_def if_True word_masked_low by (simp_all only: add.assoc)

lemma upto12: "(n :: nat) \<le> 12 \<Longrightarrow> n \<in> {0, 1, 2, 3, 4, 5, 6, 7, 8, 9, 10, 11, 12}"
  unfolding insert_iff empty_iff by presburger

lemma le_tails: "n \<le> 12 \<Longrightarrow> le_tail32 m p n = le_tail8 m p n" "n \<le> 12 \<Longrightarrow> le_tail16 m p n = le_tail8 m p n"
proof -
  assume n: "n \<le> 12"
  show "le_tail32 m p n = le_tail8 m p n"
    using upto12 [OF n] by (auto simp: le_tail32_def le_tail8_def Let_def le_part_full le_part_short mask_consts)
  have w: "rd16 True m (p + i) + push_bit 16 (rd16 True m (p + (i + 2))) = rd32 True m (p + i)" for i
    using rd16_pair [of m "p + i"] by (simp add: add.assoc)
  have h: "sh (m (p + (i + 2))) 16 + rd16 True m (p + i) = rd32 True m (p + i) AND mask 24" for i
    using rd16_half(2) [of m "p + i"] by (simp add: add.assoc)
  have b: "sh (m (p + i)) 0 = rd32 True m (p + i) AND mask 8" for i by (simp add: rd32_def word_masked_low)
  show "le_tail16 m p n = le_tail8 m p n"
    using upto12 [OF n] w [of 0] w [of 4] w [of 8] h [of 0] h [of 4] h [of 8] b [of 0] b [of 4] b [of 8]
    by (auto simp: le_tail16_def le_tail8_def Let_def le_part_full le_part_short rd16_half(1))
qed

lemma be_tails: "n \<le> 12 \<Longrightarrow> be_tail32 False m p n = be_tail8 m p n"
  using upto12 [of n] by (auto simp: be_tail32_def be_tail8_def Let_def be_part_full be_part_short mask_consts)

lemma le_blocks: "le_block32 m p = le_block8 m p" "le_block16 m p = le_block8 m p"
proof -
  have r: "rd32 True m (p + i) = sh (m (p + i)) 0 + sh (m (p + (i + 1))) 8 + sh (m (p + (i + 2))) 16 + sh (m (p + (i + 3))) 24" for i
    by (simp add: rd32_def ac_simps)
  have r8: "rd32 True m p = sh (m p) 0 + sh (m (p + 1)) 8 + sh (m (p + 2)) 16 + sh (m (p + 3)) 24"
    "rd32 True m (p + 4) = sh (m (p + 4)) 0 + sh (m (p + 5)) 8 + sh (m (p + 6)) 16 + sh (m (p + 7)) 24"
    "rd32 True m (p + 8) = sh (m (p + 8)) 0 + sh (m (p + 9)) 8 + sh (m (p + 10)) 16 + sh (m (p + 11)) 24"
    using r [of 0] r [of 4] r [of 8] by simp_all
  show 1: "le_block32 m p = le_block8 m p" by (simp add: le_block32_def le_block8_def Let_def r8)
  have w: "rd16 True m (p + i) + push_bit 16 (rd16 True m (p + (i + 2))) = rd32 True m (p + i)" for i
    using rd16_pair [of m "p + i"] by (simp add: add.assoc)
  have "le_block16 m p = le_block32 m p"
    using w [of 0] w [of 4] w [of 8] by (simp add: le_block16_def le_block32_def Let_def)
  then show "le_block16 m p = le_block8 m p" using 1 by simp
qed

lemma be_blocks: "be_block32 False m p = be_block8 m p"
proof -
  have r: "rd32 False m (p + i) = sh (m (p + i)) 24 + sh (m (p + (i + 1))) 16 + sh (m (p + (i + 2))) 8 + sh (m (p + (i + 3))) 0" for i
    by (simp add: rd32_def ac_simps)
  have "rd32 False m (p + 4) = sh (m (p + 4)) 24 + sh (m (p + 5)) 16 + sh (m (p + 6)) 8 + sh (m (p + 7)) 0"
    "rd32 False m (p + 8) = sh (m (p + 8)) 24 + sh (m (p + 9)) 16 + sh (m (p + 10)) 8 + sh (m (p + 11)) 0"
    using r [of 4] r [of 8] by simp_all
  then show ?thesis using r [of 0] by (simp add: be_block32_def be_block8_def Let_def)
qed

lemma jenkins_loop_cong:
  assumes "\<And>q st. p \<le> q \<Longrightarrow> q + 12 \<le> p + n \<Longrightarrow> block q st = block' (q + d - e) st"
    and "\<And>q k st. p \<le> q \<Longrightarrow> q + k = p + n \<Longrightarrow> k \<le> 12 \<Longrightarrow> tail q k st = tail' (q + d - e) k st" and "e \<le> p + d"
  shows "jenkins_loop block tail p n st = jenkins_loop block' tail' (p + d - e) n st"
  using assms
proof (induction n arbitrary: p st rule: less_induct)
  case (less n)
  show ?case
  proof (cases "12 < n")
    case True
    have "jenkins_loop block tail (p + 12) (n - 12) s = jenkins_loop block' tail' (p + 12 + d - e) (n - 12) s" for s
      by (rule less.IH) (use True less.prems in auto)
    moreover have "p + 12 + d - e = p + d - e + 12" using less.prems(3) by simp
    ultimately show ?thesis using True less.prems(1) [of p st]
      by (subst (1 2) jenkins_loop.simps) simp
  next
    case False
    then show ?thesis using less.prems(2) [of p n st] by (subst (1 2) jenkins_loop.simps) simp
  qed
qed

lemma jenkins_little_bytes: "jenkins_hash_little m key len = jenkins_loop (le_block8 m) (le_tail8 m) key len (jenkins_start len)"
proof -
  have "jenkins_loop (le_block32 m) (le_tail32 m) key len st = jenkins_loop (le_block8 m) (le_tail8 m) (key + 0 - 0) len st"
    "jenkins_loop (le_block16 m) (le_tail16 m) key len st = jenkins_loop (le_block8 m) (le_tail8 m) (key + 0 - 0) len st" for st
    by (rule jenkins_loop_cong; simp add: le_blocks le_tails)+
  then show ?thesis by (simp add: jenkins_hash_little_def)
qed

lemma jenkins_big_bytes: "jenkins_hash False m key len = jenkins_loop (be_block8 m) (be_tail8 m) key len (jenkins_start len)"
proof -
  have "jenkins_loop (be_block32 False m) (be_tail32 False m) key len st = jenkins_loop (be_block8 m) (be_tail8 m) (key + 0 - 0) len st" for st
    by (rule jenkins_loop_cong; simp add: be_blocks be_tails)
  then show ?thesis by (simp add: jenkins_hash_def)
qed

text \<open>Only the bytes of the key matter to the byte paths.\<close>

lemma le_part_cong: "(\<And>i. i < n \<Longrightarrow> m (p + i) = m' (q + i)) \<Longrightarrow> le_part m p n = le_part m' q n"
proof -
  assume h: "\<And>i. i < n \<Longrightarrow> m (p + i) = m' (q + i)"
  show ?thesis using h [of 0] h [of 1] h [of 2] h [of 3] unfolding le_part_def by simp
qed

lemma be_part_cong: "(\<And>i. i < n \<Longrightarrow> m (p + i) = m' (q + i)) \<Longrightarrow> be_part m p n = be_part m' q n"
proof -
  assume h: "\<And>i. i < n \<Longrightarrow> m (p + i) = m' (q + i)"
  show ?thesis using h [of 0] h [of 1] h [of 2] h [of 3] unfolding be_part_def by simp
qed

lemma tail8_cong:
  assumes h: "\<And>i. i < n \<Longrightarrow> m (p + i) = m' (q + i)"
  shows "le_tail8 m p n = le_tail8 m' q n" "be_tail8 m p n = be_tail8 m' q n"
proof -
  have "i < n - 4 \<Longrightarrow> m (p + 4 + i) = m' (q + 4 + i)" "i < n - 8 \<Longrightarrow> m (p + 8 + i) = m' (q + 8 + i)" for i
    using h [of "4 + i"] h [of "8 + i"] by (simp_all add: add.assoc)
  note c = h this
  show "le_tail8 m p n = le_tail8 m' q n"
    unfolding le_tail8_def using le_part_cong [of n m p m' q, OF c(1)] le_part_cong [of "n - 4" m "p + 4" m' "q + 4", OF c(2)]
      le_part_cong [of "n - 8" m "p + 8" m' "q + 8", OF c(3)] by simp
  show "be_tail8 m p n = be_tail8 m' q n"
    unfolding be_tail8_def using be_part_cong [of n m p m' q, OF c(1)] be_part_cong [of "n - 4" m "p + 4" m' "q + 4", OF c(2)]
      be_part_cong [of "n - 8" m "p + 8" m' "q + 8", OF c(3)] by simp
qed

lemma block8_tail: "le_block8 m p = le_tail8 m p 12" "be_block8 m p = be_tail8 m p 12"
proof -
  show "le_block8 m p = le_tail8 m p 12"
    using le_blocks(1) [of m p] by (simp add: le_block32_def le_tail8_def le_part_full)
  show "be_block8 m p = be_tail8 m p 12"
    using be_blocks [of m p] by (simp add: be_block32_def be_tail8_def be_part_full)
qed

lemma jenkins_bytes_cong:
  assumes h: "\<And>i. i < len \<Longrightarrow> m (p + i) = m' (q + i)"
  shows "jenkins_loop (le_block8 m) (le_tail8 m) p len st = jenkins_loop (le_block8 m') (le_tail8 m') q len st"
    "jenkins_loop (be_block8 m) (be_tail8 m) p len st = jenkins_loop (be_block8 m') (be_tail8 m') q len st"
proof -
  have eq: "m (r + i) = m' (r + q - p + i)" if "p \<le> r" "r + k \<le> p + len" "i < k" for r k i
    using h [of "r - p + i"] that by (simp add: algebra_simps)
  have "le_tail8 m r k = le_tail8 m' (r + q - p) k" "be_tail8 m r k = be_tail8 m' (r + q - p) k"
    if "p \<le> r" "r + k \<le> p + len" for r k
    by (rule tail8_cong; use eq [OF that] in blast)+
  note t = this
  have "jenkins_loop (le_block8 m) (le_tail8 m) p len st = jenkins_loop (le_block8 m') (le_tail8 m') (p + q - p) len st"
    by (rule jenkins_loop_cong) (use t in \<open>simp_all add: block8_tail\<close>)
  then show "jenkins_loop (le_block8 m) (le_tail8 m) p len st = jenkins_loop (le_block8 m') (le_tail8 m') q len st" by simp
  have "jenkins_loop (be_block8 m) (be_tail8 m) p len st = jenkins_loop (be_block8 m') (be_tail8 m') (p + q - p) len st"
    by (rule jenkins_loop_cong) (use t in \<open>simp_all add: block8_tail\<close>)
  then show "jenkins_loop (be_block8 m) (be_tail8 m) p len st = jenkins_loop (be_block8 m') (be_tail8 m') q len st" by simp
qed

section \<open>Invertible steps\<close>

lemma xorshift_inj: "0 < k \<Longrightarrow> inj (\<lambda>h :: u32. h XOR drop_bit k h)"
proof (rule injI, rule bit_word_eqI)
  fix x y :: u32 and n assume k: "0 < k" and e: "x XOR drop_bit k x = y XOR drop_bit k y" and n: "n < LENGTH(32)"
  have "bit x n = bit y n" if "32 - n = d" for n d
    using that
  proof (induction d arbitrary: n rule: less_induct)
    case (less d)
    show ?case
    proof (cases "n < 32")
      case True
      then have "bit x (n + k) = bit y (n + k)" using less.IH [of "32 - (n + k)" "n + k"] less.prems k by simp
      moreover have "bit (x XOR drop_bit k x) n = bit (y XOR drop_bit k y) n" using e by simp
      ultimately show ?thesis by (auto simp: bit_xor_iff bit_drop_bit_eq add.commute)
    qed (auto dest: bit_imp_le_length)
  qed
  then show "bit x n = bit y n" by blast
qed

lemma mult_inj: "c * c' = 1 \<Longrightarrow> inj (\<lambda>x :: u32. x * c)"
  by (rule inj_on_inverseI [where g = "\<lambda>x. x * c'"]) (simp add: mult.assoc)

lemma fmix32_inj: "inj fmix32"
proof -
  have "inj ((\<lambda>h. h XOR drop_bit 16 h) \<circ> (\<lambda>h. h * 0xc2b2ae35) \<circ> (\<lambda>h. h XOR drop_bit 13 h) \<circ> (\<lambda>h. h * 0x85ebca6b)
      \<circ> (\<lambda>h :: u32. h XOR drop_bit 16 h))"
    by (intro inj_compose xorshift_inj mult_inj [where c' = "0x7ed1b41d"] mult_inj [where c' = "0xa5cb9243"]) simp_all
  then show ?thesis by (simp add: fmix32_def [abs_def] Let_def comp_def)
qed

lemma bit_rotl32: "0 < r \<Longrightarrow> r < 32 \<Longrightarrow> n < 32 \<Longrightarrow> bit (rotl32 x r) n = bit x (if r \<le> n then n - r else 32 - r + n)"
  by (auto simp: rotl32_def bit_or_iff bit_push_bit_iff bit_drop_bit_eq dest: bit_imp_le_length)

lemma rotl32_inj: assumes r: "0 < r" "r < 32" shows "inj (\<lambda>x. rotl32 x r)"
proof (rule injI, rule bit_word_eqI)
  fix x y :: u32 and n assume e: "rotl32 x r = rotl32 y r" and n: "n < LENGTH(32)"
  let ?k = "if n + r < 32 then n + r else n + r - 32"
  have "bit (rotl32 x r) ?k = bit (rotl32 y r) ?k" using e by simp
  then show "bit x n = bit y n" using r n by (simp add: bit_rotl32 split: if_splits)
qed

lemma murmur_k_inj: "inj murmur_k"
proof -
  have "inj ((\<lambda>x. x * 0x1b873593) \<circ> (\<lambda>x. rotl32 x 15) \<circ> (\<lambda>x :: u32. x * 0xcc9e2d51))"
    by (intro inj_compose rotl32_inj mult_inj [where c' = "0x56ed309b"] mult_inj [where c' = "0xdee13bb1"]) simp_all
  then show ?thesis by (simp add: murmur_k_def [abs_def] comp_def)
qed

lemma murmur_body_step:
  "murmur_body le m b (- int (Suc n)) h = murmur_body le m b (- int n) (rotl32 (h XOR murmur_k (getblock32 le m b (- int (Suc n)))) 13 * 5 + 0xe6546b64)"
  "murmur_body le m b 0 h = h"
  by (subst murmur_body.simps; simp)+

text \<open>The body as a loop over the blocks in the order of the key.\<close>

lemma murmur_body_blocks:
  "n \<le> b div 4 \<Longrightarrow> murmur_body le m b (- int n) h =
     fold (\<lambda>i h. rotl32 (h XOR murmur_k (rd32 le m (b - 4 * n + 4 * i))) 13 * 5 + 0xe6546b64) [0..<n] h"
proof (induction n arbitrary: h)
  case (Suc n)
  have u: "[0..<Suc n] = 0 # map Suc [0..<n]" by (simp add: upt_conv_Cons map_Suc_upt)
  have g: "getblock32 le m b (- int (Suc n)) = rd32 le m (b - 4 * Suc n)"
  proof -
    have "4 * Suc n \<le> b" using Suc.prems by (metis div_times_less_eq_dividend le_trans mult.commute mult_le_mono1)
    then have "int b + 4 * - int (Suc n) = int (b - 4 * Suc n)" by (subst of_nat_diff) simp_all
    then show ?thesis by (simp only: getblock32_def nat_int)
  qed
  have e: "b - 4 * Suc n + 4 * Suc i = b - 4 * n + 4 * i" for i using Suc.prems by simp
  have "murmur_body le m b (- int (Suc n)) h = murmur_body le m b (- int n) (rotl32 (h XOR murmur_k (rd32 le m (b - 4 * Suc n))) 13 * 5 + 0xe6546b64)"
    using murmur_body_step(1) [of le m b n h] unfolding g .
  also have "\<dots> = fold (\<lambda>i h. rotl32 (h XOR murmur_k (rd32 le m (b - 4 * n + 4 * i))) 13 * 5 + 0xe6546b64) [0..<n]
      (rotl32 (h XOR murmur_k (rd32 le m (b - 4 * Suc n))) 13 * 5 + 0xe6546b64)"
    using Suc by simp
  finally show ?case unfolding u fold_simps fold_map comp_def e by simp
qed (simp add: murmur_body_step(2))

lemma rd32_cong: "(\<And>i. i < 4 \<Longrightarrow> m (p + i) = m' (q + i)) \<Longrightarrow> rd32 le m p = rd32 le m' q"
proof -
  assume h: "\<And>i. i < 4 \<Longrightarrow> m (p + i) = m' (q + i)"
  show ?thesis using h [of 0] h [of 1] h [of 2] h [of 3] unfolding rd32_def by simp
qed

lemma murmur_tail_cong: "(\<And>i. i < n \<Longrightarrow> m (p + i) = m' (q + i)) \<Longrightarrow> murmur_tail m p n h = murmur_tail m' q n h"
proof -
  assume h: "\<And>i. i < n \<Longrightarrow> m (p + i) = m' (q + i)"
  show ?thesis using h [of 0] h [of 1] h [of 2] unfolding murmur_tail_def Let_def by auto
qed

lemma murmur_cong:
  assumes h: "\<And>i. i < len \<Longrightarrow> m (p + i) = m' (q + i)"
  shows "MurmurHash3_x86_32 le m p len = MurmurHash3_x86_32 le m' q len"
proof -
  let ?n = "len div 4"
  have b: "murmur_body le m (p + ?n * 4) (- int ?n) 0 = murmur_body le m' (q + ?n * 4) (- int ?n) 0"
  proof -
    have "rd32 le m (p + 4 * i) = rd32 le m' (q + 4 * i)" if "i < ?n" for i
    proof (rule rd32_cong)
      fix j :: nat assume "j < 4"
      then show "m (p + 4 * i + j) = m' (q + 4 * i + j)" using h [of "4 * i + j"] that by (simp add: add.assoc)
    qed
    then show ?thesis by (subst (1 2) murmur_body_blocks) (auto intro!: fold_cong)
  qed
  have "m (p + ?n * 4 + i) = m' (q + ?n * 4 + i)" if "i < len mod 4" for i
    using h [of "?n * 4 + i"] that by (simp add: add.assoc) (metis div_mult_mod_eq nat_add_left_cancel_less)
  then have "murmur_tail m (p + ?n * 4) (len mod 4) x = murmur_tail m' (q + ?n * 4) (len mod 4) x" for x
    by (rule murmur_tail_cong)
  then show ?thesis using b by (simp add: MurmurHash3_x86_32_def Let_def)
qed

lemma mix_line_inj: "inj (mix_line k)"
  by (rule inj_on_inverseI [where g = "\<lambda>(a, b, c). ((a XOR rot (c - b) k) + (c - b), b, c - b)"])
    (auto simp: mix_line_def Let_def xor.assoc)

section \<open>Properties\<close>

text \<open>
  The hash of a key depends on its bytes only, not on where it is stored or on the memory around
  it: MurmurHash3 on any host, and Jenkins's hash when it is built for the byte order of its host,
  although both read whole machine words, at alignments of 4, 2 and 1 bytes, and beyond the end of
  the key.
\<close>

theorem hash_of_key_bytes:
  assumes "\<And>i. i < len \<Longrightarrow> m (p + i) = m' (q + i)"
  shows "MurmurHash3_x86_32 le m p len = MurmurHash3_x86_32 le m' q len \<and>
    jenkins_hash_little m p len = jenkins_hash_little m' q len \<and> jenkins_hash False m p len = jenkins_hash False m' q len"
  using murmur_cong [of len m p m' q le, OF assms] jenkins_bytes_cong [of len m p m' q, OF assms] by (simp add: jenkins_little_bytes jenkins_big_bytes)

theorem hash_of_key_bytes_witness:
  "jenkins_hash_little ((\<lambda>_. 0)(8 := 97, 9 := 98)) 8 1 = jenkins_hash_little ((\<lambda>_. 0)(17 := 97)) 17 1"
  using hash_of_key_bytes [of 1 "(\<lambda>_. 0)(8 := 97, 9 := 98)" 8 "(\<lambda>_. 0)(17 := 97)" 17] by simp

text \<open>
  (C38) The three read paths of the little-endian Jenkins hash, by words of 32 bits, of 16 bits and by
  bytes, compute the same function.
\<close>

theorem jenkins_paths_agree:
  "jenkins_loop (le_block32 m) (le_tail32 m) key len (jenkins_start len) = jenkins_loop (le_block8 m) (le_tail8 m) key len (jenkins_start len) \<and>
   jenkins_loop (le_block16 m) (le_tail16 m) key len (jenkins_start len) = jenkins_loop (le_block8 m) (le_tail8 m) key len (jenkins_start len)"
proof -
  have "jenkins_loop (le_block32 m) (le_tail32 m) key len st = jenkins_loop (le_block8 m) (le_tail8 m) (key + 0 - 0) len st"
    "jenkins_loop (le_block16 m) (le_tail16 m) key len st = jenkins_loop (le_block8 m) (le_tail8 m) (key + 0 - 0) len st" for st
    by (rule jenkins_loop_cong; simp add: le_blocks le_tails)+
  then show ?thesis by simp
qed

text \<open>
  The sources define \<^verbatim>\<open>ENDIAN_BIG\<close> for every host. On a little-endian host the hash of a one-byte key
  at an aligned address then comes from the fourth byte of its word, a byte behind the key, and
  not from the key: two copies of the same key get different hash values.
\<close>

theorem jenkins_big_on_little_host:
  "jenkins_hash True ((\<lambda>_. 0)(8 := 97)) 8 1 \<noteq> jenkins_hash True ((\<lambda>_. 0)(8 := 97, 11 := 1)) 8 1"
proof -
  have f: "snd (snd (final (be_tail32 True m 8 1 (jenkins_start 1)))) = jenkins_hash True m 8 1" for m
    by (simp add: jenkins_hash_def jenkins_loop.simps)
  have r: "rd32 True ((\<lambda>_. 0)(8 := 97)) 8 = 97" "rd32 True ((\<lambda>_. 0)(8 := 97, 11 := 1)) 8 = 0x1000061"
    by (simp_all add: rd32_def sh_def)
  have t: "be_tail32 True ((\<lambda>_. 0)(8 := 97)) 8 1 (jenkins_start 1) = (0xdeadbef0, 0xdeadbef0, 0xdeadbef0)"
    "be_tail32 True ((\<lambda>_. 0)(8 := 97, 11 := 1)) 8 1 (jenkins_start 1) = (0xdfadbef0, 0xdeadbef0, 0xdeadbef0)"
    by (simp_all add: be_tail32_def Let_def r add3_def jenkins_start_def)
  have l: "final_line 0xdeadbef0 0xdeadbef0 14 = 0x9043c855" "final_line 0xdeadbef0 0x9043c855 11 = 0x30abca23"
    "final_line 0xdeadbef0 0x30abca23 25 = 0xa7a51d3f" "final_line 0x9043c855 0xa7a51d3f 16 = 0x1aa72dc5"
    "final_line 0x30abca23 0x1aa72dc5 4 = 0x7f9a0b95" "final_line 0xa7a51d3f 0x7f9a0b95 14 = 0x5559b6c4"
    "final_line 0x1aa72dc5 0x5559b6c4 24 = 0x8ba9414b" "final_line 0xdfadbef0 0x9043c855 11 = 0x31abca23"
    "final_line 0xdeadbef0 0x31abca23 25 = 0xa8a31d3f" "final_line 0x9043c855 0xa8a31d3f 16 = 0x1ba12cc7"
    "final_line 0x31abca23 0x1ba12cc7 4 = 0x6ff81a73" "final_line 0xa8a31d3f 0x6ff81a73 14 = 0xc0be2b4e"
    "final_line 0x1ba12cc7 0xc0be2b4e 24 = 0x8c5e495e"
    by (simp_all add: final_line_def rot_def)
  show ?thesis unfolding f [symmetric] t by (simp add: final_def l)
qed

text \<open>
  MurmurHash3 has no collisions among keys of four bytes: the block mixing and the finalisation
  are bijections of the 32-bit words.
\<close>

theorem murmur_4byte_no_collision:
  assumes "MurmurHash3_x86_32 le m p 4 = MurmurHash3_x86_32 le m' q 4"
  shows "rd32 le m p = rd32 le m' q"
proof -
  have e: "MurmurHash3_x86_32 le m p 4 = fmix32 ((rotl32 (murmur_k (rd32 le m p)) 13 * 5 + 0xe6546b64) XOR 4)" for m p
    using murmur_body_blocks [of 1 "p + 4" le m 0] by (simp add: MurmurHash3_x86_32_def Let_def murmur_tail_def)
  have i: "inj (\<lambda>x. (rotl32 (murmur_k x) 13 * 5 + 0xe6546b64) XOR 4)"
  proof -
    have x: "inj (\<lambda>x :: u32. x XOR 4)" by (rule inj_on_inverseI [where g = "\<lambda>x. x XOR 4"]) (simp add: xor.assoc)
    have "inj ((\<lambda>x :: u32. x XOR 4) \<circ> (\<lambda>x. x + 0xe6546b64) \<circ> (\<lambda>x. x * 5) \<circ> (\<lambda>x. rotl32 x 13) \<circ> murmur_k)"
      by (intro inj_compose x rotl32_inj mult_inj [where c' = "0xcccccccd"] murmur_k_inj) (simp_all add: inj_def)
    then show ?thesis by (simp add: comp_def)
  qed
  show ?thesis using assms unfolding e by (auto dest!: injD [OF fmix32_inj] injD [OF i])
qed

theorem murmur_4byte_no_collision_witness:
  "MurmurHash3_x86_32 True (\<lambda>_. 0) 0 4 \<noteq> MurmurHash3_x86_32 True ((\<lambda>_. 0)(1 := 7)) 0 4 \<and>
   rd32 True (\<lambda>_. 0) 0 = rd32 True (\<lambda>_. 0) 8"
proof -
  have "rd32 True (\<lambda>_. 0) 0 \<noteq> rd32 True ((\<lambda>_. 0)(1 := 7)) 0" by (simp add: rd32_def sh_def)
  moreover have "MurmurHash3_x86_32 True (\<lambda>_. 0) 0 4 = MurmurHash3_x86_32 True (\<lambda>_. 0) 8 4" by (rule murmur_cong) simp
  ultimately show ?thesis using murmur_4byte_no_collision [of True "\<lambda>_. 0" 0 "(\<lambda>_. 0)(1 := 7)" 0]
      murmur_4byte_no_collision [of True "\<lambda>_. 0" 0 "\<lambda>_. 0" 8] by blast
qed

text \<open>
  The mixing step of Jenkins's hash is reversible, as its comment says: it loses no information
  of the three words it mixes.
\<close>

theorem mix_reversible: "bij mix"
proof -
  define R :: "u32 \<times> u32 \<times> u32 \<Rightarrow> u32 \<times> u32 \<times> u32" where "R = (\<lambda>(a, b, c). (b, c, a))"
  have eq: "mix = R \<circ> mix_line 4 \<circ> R \<circ> mix_line 19 \<circ> R \<circ> mix_line 16 \<circ> R \<circ> mix_line 8 \<circ> R \<circ> mix_line 6 \<circ> R \<circ> mix_line 4"
    by (rule ext) (simp add: mix_def R_def split_beta)
  have r: "inj R" by (auto simp: R_def inj_def)
  have "inj mix" unfolding eq by (intro inj_compose mix_line_inj r)
  then show ?thesis by (simp add: bij_def finite_UNIV_inj_surj)
qed

end
