(* ===== verification/Obj_Cache.thy ===== *)
theory Obj_Cache
  imports Slabs_Spec
begin

text \<open>
  The object cache of \<^verbatim>\<open>network/cache.c\<close> in its debug build: a stack of buffers of one size, each
  fenced by two words with a fixed pattern that are checked when the object comes back. The words
  of memory, the answers of \<^verbatim>\<open>malloc\<close> and \<^verbatim>\<open>realloc\<close>, and the buffers handed to the destructor and to
  \<^verbatim>\<open>free\<close> are part of the state; \<open>None\<close> is the \<^verbatim>\<open>SIGABRT\<close> of a broken fence.
\<close>

section \<open>Model\<close>

record cache_t =
  c_ptr :: "addr list"
  bufsize :: nat
  freetotal :: nat
  freecurr :: nat
  ctor :: "(addr \<Rightarrow> int) option"
  dtor :: bool
  c_words :: "addr \<Rightarrow> u64"
  c_mallocs :: "addr list"
  realloc_ok :: bool
  destroyed :: "addr list"
  released :: "addr list"

abbreviation (input) redzone_pattern :: u64 where "redzone_pattern \<equiv> 0xdeadbeefcafebabe"
abbreviation (input) initial_pool_size :: nat where "initial_pool_size \<equiv> 64"

definition get_object :: "addr \<Rightarrow> addr" where "get_object p = p + 8"

text \<open>\<open>ok\<close>: all of the allocations and the mutex initialisation of \<^verbatim>\<open>cache_create\<close> succeed.\<close>

definition cache_create :: "nat \<Rightarrow> (addr \<Rightarrow> int) option \<Rightarrow> bool \<Rightarrow> bool \<Rightarrow> cache_t \<Rightarrow> cache_t option" where
  "cache_create sz constructor destructor ok env =
     (if \<not> ok then None
      else Some (env\<lparr>c_ptr := replicate initial_pool_size NULL, freetotal := initial_pool_size, freecurr := 0,
        ctor := constructor, dtor := destructor, bufsize := sz + 2 * 8\<rparr>))"

fun cache_destroy_loop :: "nat \<Rightarrow> cache_t \<Rightarrow> cache_t" where
  "cache_destroy_loop 0 s = s"
| "cache_destroy_loop (Suc n) s =
     (let p = c_ptr s ! n;
          s = s\<lparr>freecurr := n\<rparr>;
          s = (if dtor s then s\<lparr>destroyed := get_object p # destroyed s\<rparr> else s)
      in cache_destroy_loop n (s\<lparr>released := p # released s\<rparr>))"

definition cache_destory :: "cache_t \<Rightarrow> cache_t" where
  "cache_destory s = cache_destroy_loop (freecurr s) s"

definition do_cache_alloc :: "cache_t \<Rightarrow> addr \<times> cache_t" where
  "do_cache_alloc s =
     (let (ret, object, s) =
        (if 0 < freecurr s then
           (let p = c_ptr s ! (freecurr s - 1) in (p, get_object p, s\<lparr>freecurr := freecurr s - 1\<rparr>))
         else
           (let p = (case c_mallocs s of [] \<Rightarrow> NULL | a # _ \<Rightarrow> a);
                s = s\<lparr>c_mallocs := drop 1 (c_mallocs s)\<rparr>
            in if p = NULL then (NULL, NULL, s)
               else case ctor s of
                 Some f \<Rightarrow> if f (get_object p) \<noteq> 0 then (p, NULL, s\<lparr>released := p # released s\<rparr>) else (p, get_object p, s)
               | None \<Rightarrow> (p, get_object p, s)))
      in if object \<noteq> NULL
         then (object, s\<lparr>c_words := (c_words s)(ret := redzone_pattern, ret + 8 + bufsize s - 2 * 8 := redzone_pattern)\<rparr>)
         else (object, s))"

definition cache_alloc :: "cache_t \<Rightarrow> addr \<times> cache_t" where
  "cache_alloc s = do_cache_alloc s"

definition do_cache_free :: "addr \<Rightarrow> cache_t \<Rightarrow> cache_t option" where
  "do_cache_free p s =
     (if c_words s (p + bufsize s - 2 * 8) \<noteq> redzone_pattern then None
      else
        let pre = p - 8
        in if c_words s pre \<noteq> redzone_pattern then None
           else if freecurr s < freetotal s
           then Some (s\<lparr>c_ptr := (c_ptr s)[freecurr s := pre], freecurr := freecurr s + 1\<rparr>)
           else
             let newtotal = freetotal s * 2
             in if realloc_ok s
                then Some (s\<lparr>freetotal := newtotal,
                  c_ptr := (c_ptr s @ replicate (newtotal - freetotal s) NULL)[freecurr s := pre],
                  freecurr := freecurr s + 1\<rparr>)
                else
                  let s = (if dtor s then s\<lparr>destroyed := pre # destroyed s\<rparr> else s)
                  in Some (s\<lparr>released := pre # released s\<rparr>))"

definition cache_free :: "addr \<Rightarrow> cache_t \<Rightarrow> cache_t option" where
  "cache_free p s = do_cache_free p s"

section \<open>The cache as a store of objects\<close>

definition oc_inv :: "cache_t \<Rightarrow> bool" where
  "oc_inv s \<longleftrightarrow> freecurr s \<le> freetotal s \<and> length (c_ptr s) = freetotal s \<and> 0 < freetotal s \<and> 2 * 8 \<le> bufsize s \<and>
     distinct (take (freecurr s) (c_ptr s))"

definition oc_free :: "cache_t \<Rightarrow> addr list" where
  "oc_free s = rev (map get_object (take (freecurr s) (c_ptr s)))"

text \<open>An object the cache has handed out, with both of its fences intact.\<close>

definition oc_mine :: "cache_t \<Rightarrow> addr \<Rightarrow> bool" where
  "oc_mine s a \<longleftrightarrow> 8 \<le> a \<and> a \<notin> set (oc_free s) \<and> c_words s (a - 8) = redzone_pattern \<and>
     c_words s (a + bufsize s - 2 * 8) = redzone_pattern"

definition oc_ok :: "cache_t \<Rightarrow> bool" where "oc_ok s \<longleftrightarrow> oc_inv s \<and> realloc_ok s"

definition oc_take :: "cache_t \<Rightarrow> (addr \<times> cache_t) option" where "oc_take s = Some (cache_alloc s)"

lemma get_object_inj: "inj get_object" by (simp add: get_object_def inj_def)

lemma do_cache_free_push:
  assumes inv: "oc_inv s" and mine: "oc_mine s a" and room: "freecurr s < freetotal s \<or> realloc_ok s"
  shows "\<exists>s'. do_cache_free a s = Some s' \<and> oc_inv s' \<and> oc_free s' = a # oc_free s \<and> realloc_ok s' = realloc_ok s"
proof -
  obtain p where a: "a = get_object p" using mine by (auto simp: oc_mine_def get_object_def dest: le_Suc_ex)
  then have a8: "a - 8 = p" by (simp add: get_object_def)
  have w: "c_words s (a + bufsize s - 2 * 8) = redzone_pattern" "c_words s (a - 8) = redzone_pattern" using mine by (auto simp: oc_mine_def)
  have nin: "p \<notin> set (take (freecurr s) (c_ptr s))" using mine by (auto simp: oc_mine_def oc_free_def a)
  define xs where "xs = (if freecurr s < freetotal s then c_ptr s else c_ptr s @ replicate (freetotal s * 2 - freetotal s) NULL)"
  have len: "freecurr s < length xs" "take (freecurr s) xs = take (freecurr s) (c_ptr s)"
    using inv by (auto simp: xs_def oc_inv_def)
  have t: "take (Suc (freecurr s)) (xs[freecurr s := p]) = take (freecurr s) (c_ptr s) @ [p]"
    using len by (simp add: take_Suc_conv_app_nth)
  have l: "length (xs[freecurr s := p]) = (if freecurr s < freetotal s then freetotal s else freetotal s * 2)"
    using inv by (auto simp: xs_def oc_inv_def)
  show ?thesis
  proof (cases "freecurr s < freetotal s")
    case True
    let ?s = "s\<lparr>c_ptr := xs[freecurr s := p], freecurr := freecurr s + 1\<rparr>"
    have "do_cache_free a s = Some ?s" using True w a8 by (simp add: do_cache_free_def xs_def Let_def)
    moreover have "oc_inv ?s" "oc_free ?s = a # oc_free s"
      using inv True t l nin a by (auto simp: oc_inv_def oc_free_def)
    ultimately show ?thesis by simp
  next
    case False
    let ?s = "s\<lparr>freetotal := freetotal s * 2, c_ptr := xs[freecurr s := p], freecurr := freecurr s + 1\<rparr>"
    have "do_cache_free a s = Some ?s" using False room w a8 by (simp add: do_cache_free_def xs_def Let_def)
    moreover have "oc_inv ?s" "oc_free ?s = a # oc_free s"
      using inv False t l nin a by (auto simp: oc_inv_def oc_free_def)
    ultimately show ?thesis by simp
  qed
qed

lemma do_cache_alloc_pop:
  assumes inv: "oc_inv s" and f: "oc_free s = a # as"
  shows "\<exists>s'. do_cache_alloc s = (a, s') \<and> oc_inv s' \<and> oc_free s' = as \<and> oc_mine s' a \<and> realloc_ok s' = realloc_ok s"
proof -
  have pos: "0 < freecurr s" using f by (cases "freecurr s") (auto simp: oc_free_def)
  then obtain n where n: "freecurr s = Suc n" "n < length (c_ptr s)" using inv by (auto simp: oc_inv_def gr0_conv_Suc)
  have sp: "take (freecurr s) (c_ptr s) = take n (c_ptr s) @ [c_ptr s ! n]" using n by (simp add: take_Suc_conv_app_nth)
  have a: "a = get_object (c_ptr s ! n)" "as = rev (map get_object (take n (c_ptr s)))" using f by (auto simp: oc_free_def sp)
  let ?p = "c_ptr s ! n"
  let ?s = "s\<lparr>freecurr := n, c_words := (c_words s)(?p := redzone_pattern, ?p + 8 + bufsize s - 2 * 8 := redzone_pattern)\<rparr>"
  have ev: "do_cache_alloc s = (a, ?s)" using n a by (simp add: do_cache_alloc_def get_object_def Let_def)
  have d: "distinct (take n (c_ptr s) @ [?p])" using inv sp by (simp add: oc_inv_def)
  have "oc_inv ?s" using inv n d by (auto simp: oc_inv_def)
  moreover have "oc_free ?s = as" by (simp add: oc_free_def a)
  moreover have "a \<notin> set as" using d get_object_inj by (auto simp: a get_object_def)
  then have "oc_mine ?s a" using calculation(2) inv by (auto simp: oc_mine_def a get_object_def oc_inv_def)
  ultimately show ?thesis using ev by auto
qed

interpretation objcache: chunk_store oc_ok oc_free oc_mine oc_take cache_free
proof
  show "oc_ok s \<Longrightarrow> oc_mine s a \<Longrightarrow> \<exists>s'. cache_free a s = Some s' \<and> oc_ok s' \<and> oc_free s' = a # oc_free s" for s a
    using do_cache_free_push [of s a] by (auto simp: oc_ok_def cache_free_def)
  show "oc_ok s \<Longrightarrow> oc_free s = a # as \<Longrightarrow> \<exists>s'. oc_take s = Some (a, s') \<and> oc_ok s' \<and> oc_free s' = as \<and> oc_mine s' a" for s a as
    using do_cache_alloc_pop [of s a as] by (auto simp: oc_ok_def oc_take_def cache_alloc_def)
  show "oc_ok s \<Longrightarrow> distinct (oc_free s)" for s
    using get_object_inj by (auto simp: oc_ok_def oc_inv_def oc_free_def distinct_map intro: inj_on_subset)
  show "oc_ok s \<Longrightarrow> a \<in> set (oc_free s) \<Longrightarrow> \<not> oc_mine s a" for s a by (simp add: oc_mine_def)
qed

section \<open>Properties\<close>

text \<open>
  An object given back to the cache is the next one handed out, with its fences rewritten; the
  array of free buffers grows as needed, and an object whose front or rear fence was overwritten
  is never put back: the process aborts.
\<close>

theorem cache_free_alloc:
  assumes "oc_inv s" "realloc_ok s" "8 \<le> a" "a \<notin> set (oc_free s)"
  shows "if oc_mine s a
    then \<exists>s' s''. cache_free a s = Some s' \<and> cache_alloc s' = (a, s'') \<and> oc_mine s'' a \<and> oc_inv s'' \<and> oc_free s'' = oc_free s
    else cache_free a s = None"
proof (cases "oc_mine s a")
  case True
  obtain s' where s': "cache_free a s = Some s'" "oc_inv s'" "oc_free s' = a # oc_free s"
    using do_cache_free_push [OF assms(1) True] assms(2) by (auto simp: cache_free_def)
  then show ?thesis using do_cache_alloc_pop [OF s'(2,3)] True by (auto simp: cache_alloc_def)
next
  case False
  then have "c_words s (a - 8) \<noteq> redzone_pattern \<or> c_words s (a + bufsize s - 2 * 8) \<noteq> redzone_pattern"
    using assms(3,4) by (auto simp: oc_mine_def)
  then show ?thesis using False by (auto simp: cache_free_def do_cache_free_def Let_def)
qed

definition ex_objs :: cache_t where
  "ex_objs = \<lparr>c_ptr = replicate 64 0, bufsize = 48, freetotal = 64, freecurr = 0, ctor = None, dtor = True, c_words = (\<lambda>_. 0),
     c_mallocs = [4096], realloc_ok = True, destroyed = [], released = []\<rparr>"

theorem cache_free_alloc_witness:
  "\<exists>s s' s''. cache_alloc ex_objs = (4104, s) \<and> cache_free 4104 s = Some s' \<and> cache_alloc s' = (4104, s'')"
proof -
  let ?s = "ex_objs\<lparr>c_mallocs := [], c_words := (\<lambda>_. 0)(4096 := redzone_pattern, 4136 := redzone_pattern)\<rparr>"
  have s: "cache_alloc ex_objs = (4104, ?s)"
    by (simp add: cache_alloc_def do_cache_alloc_def ex_objs_def get_object_def)
  have "oc_inv ?s" "realloc_ok ?s" "oc_free ?s = []" "oc_mine ?s 4104"
    by (simp_all add: oc_inv_def ex_objs_def oc_free_def oc_mine_def)
  with cache_free_alloc [of ?s 4104] s show ?thesis by auto
qed

text \<open>
  When the free array cannot grow, \<open>do_cache_free\<close> hands the destructor the address of the front
  fence, eight bytes before the object that the constructor was given and that \<open>cache_destory\<close> hands
  to the same destructor.
\<close>

theorem cache_free_destructor_gets_fence:
  assumes "oc_mine s a" "freecurr s = freetotal s" "\<not> realloc_ok s" "dtor s"
  shows "\<exists>s'. cache_free a s = Some s' \<and> destroyed s' = (a - 8) # destroyed s \<and> released s' = (a - 8) # released s"
  using assms by (simp add: cache_free_def do_cache_free_def oc_mine_def Let_def)

theorem cache_free_destructor_gets_fence_witness:
  "\<exists>s. cache_free 4104 (ex_objs\<lparr>freecurr := 0, freetotal := 0, c_ptr := [], realloc_ok := False,
     c_words := (\<lambda>_. 0)(4096 := redzone_pattern, 4136 := redzone_pattern)\<rparr>) = Some s \<and> destroyed s = [4096]"
  by (rule exE [OF cache_free_destructor_gets_fence [of "ex_objs\<lparr>freecurr := 0, freetotal := 0, c_ptr := [], realloc_ok := False,
     c_words := (\<lambda>_. 0)(4096 := redzone_pattern, 4136 := redzone_pattern)\<rparr>" 4104]])
    (simp_all add: oc_mine_def oc_free_def ex_objs_def)

end
