(* ===== verification/Rebalance.thy ===== *)
theory Rebalance
  imports Items_Spec
begin

text \<open>
  The page mover of \<^verbatim>\<open>memory_lru/slabs.c\<close>: memory limits and the release of spare pages, and the
  rebalance machine that takes one page away from a slab class. \<^verbatim>\<open>slab_rebalance_start\<close> picks the
  page, \<^verbatim>\<open>slab_rebalance_move\<close> clears its chunks a few at a time, \<^verbatim>\<open>slab_rebalance_finish\<close> hands the
  page to its new class. The file shares its slab allocator and item layer with \<^verbatim>\<open>slabs_curd\<close>, whose
  models are used here.

  A class number is an index into \<^verbatim>\<open>slabclass\<close>, an array of \<^verbatim>\<open>MAX_NUMBER_OF_SLAB_CLASSES\<close> entries;
  reading it elsewhere, or through a null pointer, is \<open>None\<close>. The counter \<^verbatim>\<open>done\<close> is only tested
  for being 0 and reset when it is not, so it is a truth value. \<^verbatim>\<open>EXTSTORE\<close> is off.
\<close>

section \<open>State\<close>

record reb_state = lru_state +
  slab_bulk_check :: int
  slab_reassign_running :: bool
  slabs_moved :: u64
  slab_reassign_rescues :: u64
  slab_reassign_evictions_nomem :: u64
  slab_reassign_inline_reclaim :: u64
  slab_reassign_chunk_rescues :: u64
  slab_reassign_busy_deletes :: u64
  slab_reassign_busy_items :: u64
  freed_pages :: "addr list"

definition upd_rebal :: "(slab_rebalance \<Rightarrow> slab_rebalance) \<Rightarrow> 'z slab_state_scheme \<Rightarrow> 'z slab_state_scheme" where
  "upd_rebal f s = s\<lparr>slab_rebal := f (slab_rebal s)\<rparr>"

section \<open>The memory limit\<close>

function release_loop :: "'z reb_state_scheme \<Rightarrow> 'z reb_state_scheme" where
  "release_loop s =
     (if mem_limit s < mem_malloced s then
        (let (p, t) = get_page_from_global_pool s
         in if p \<noteq> NULL
            then release_loop (t\<lparr>freed_pages := p # freed_pages t, mem_malloced := mem_malloced t - of_nat (slab_page_size (settings t))\<rparr>)
            else t)
      else s)"
  by pat_completeness auto
termination
  by (relation "measure (\<lambda>s. slabs (slabclass s 0))")
    (auto simp: get_page_from_global_pool_def Let_def upd_class_def split: if_splits)

declare release_loop.simps [simp del]

definition memory_release :: "'z reb_state_scheme \<Rightarrow> 'z reb_state_scheme" where
  "memory_release s =
     (if mem_base s \<noteq> NULL then s else if \<not> slab_reassign (settings s) then s else release_loop s)"

definition do_slabs_adjust_mem_limit :: "u64 \<Rightarrow> 'z reb_state_scheme \<Rightarrow> bool \<times> 'z reb_state_scheme" where
  "do_slabs_adjust_mem_limit new_mem_limit s =
     (if mem_base s \<noteq> NULL then (False, s)
      else let s = s\<lparr>settings := (settings s)\<lparr>maxbytes := new_mem_limit\<rparr>, mem_limit := new_mem_limit, mem_limit_reached := False\<rparr>
           in (True, memory_release s))"

definition slabs_adjust_mem_limit :: "u64 \<Rightarrow> 'z reb_state_scheme \<Rightarrow> bool \<times> 'z reb_state_scheme" where
  "slabs_adjust_mem_limit new_mem_limit s = do_slabs_adjust_mem_limit new_mem_limit s"

definition slabs_adjust_mem_requested :: "nat \<Rightarrow> u64 \<Rightarrow> u64 \<Rightarrow> 'z slab_state_scheme \<Rightarrow> 'z slab_state_scheme option" where
  "slabs_adjust_mem_requested cid old ntotal s =
     (if cid < POWER_SMALLEST \<or> power_largest s < cid then None
      else Some (upd_class cid (\<lambda>p. p\<lparr>requested := requested p - old + ntotal\<rparr>) s))"

text \<open>The free chunks of a class, whether memory is used up, the bytes in use and the chunks per page.\<close>

definition slabs_available_chunks :: "nat \<Rightarrow> 'z slab_state_scheme \<Rightarrow> nat \<times> bool \<times> u64 \<times> nat" where
  "slabs_available_chunks cid s =
     (let p = slabclass s cid in (sl_curr p, mem_limit s \<le> mem_malloced s, requested p, perslab p))"

definition global_page_pool_size :: "'z slab_state_scheme \<Rightarrow> nat \<times> bool" where
  "global_page_pool_size s = (slabs (slabclass s SLAB_GLOBAL_PAGE_POOL), mem_limit s \<le> mem_malloced s)"

section \<open>Starting a move\<close>

abbreviation (input) class_index :: "int \<Rightarrow> bool" where
  "class_index c \<equiv> 0 \<le> c \<and> c < int MAX_NUMBER_OF_SLAB_CLASSES"

definition slab_rebalance_start :: "'z reb_state_scheme \<Rightarrow> (int \<times> 'z reb_state_scheme) option" where
  "slab_rebalance_start s = do {
     let src = s_clsid (slab_rebal s);
     let dst = d_clsid (slab_rebal s);
     let no_go = (if src < int SLAB_GLOBAL_PAGE_POOL \<or> int (power_largest s) < src \<or>
                     dst < int SLAB_GLOBAL_PAGE_POOL \<or> int (power_largest s) < dst \<or> src = dst then -2 else (0 :: int));
     c_assert (class_index src \<and> class_index dst);
     let (ok, s) = grow_slab_list (nat dst) s;
     let no_go = (if \<not> ok then -1 else no_go);
     let s_cls = slabclass s (nat src);
     let no_go = (if slabs s_cls < 2 then -3 else no_go);
     (if no_go \<noteq> 0 then Some (no_go, s)
      else do {
        let start = slab_list s_cls ! 0;
        let s = upd_rebal (\<lambda>r. r\<lparr>slab_start := start, slab_end := start + sc_size s_cls * perslab s_cls,
                  slab_pos := start, sr_done := (src = int SLAB_GLOBAL_PAGE_POOL)\<rparr>) s;
        Some (0, s\<lparr>slab_rebalance_signal := 2, slab_reassign_running := True\<rparr>)
      })
   }"

section \<open>Clearing the chunks of the page\<close>

abbreviation (input) MOVED_FLAGS :: u8 where "MOVED_FLAGS \<equiv> ITEM_SLABBED OR ITEM_FETCHED"

definition mark_moved :: "addr \<Rightarrow> 'z base_state_scheme \<Rightarrow> 'z base_state_scheme" where
  "mark_moved it s = upd_item it (\<lambda>i. i\<lparr>refcount := 0, it_flags := MOVED_FLAGS\<rparr>) s"

text \<open>\<open>n\<close> of the \<^verbatim>\<open>perslab\<close> attempts are left.\<close>

fun rebalance_alloc_loop :: "nat \<Rightarrow> nat \<Rightarrow> nat \<Rightarrow> 'z reb_state_scheme \<Rightarrow> (addr \<times> 'z reb_state_scheme) option" where
  "rebalance_alloc_loop 0 sz cid s = Some (NULL, s)"
| "rebalance_alloc_loop (Suc n) sz cid s = do {
     (new_it, _, s) \<leftarrow> do_slabs_alloc sz cid SLABS_ALLOC_NO_NEWPAGE s;
     (if new_it = NULL then Some (NULL, s)
      else if slab_start (slab_rebal s) \<le> new_it \<and> new_it < slab_end (slab_rebal s) then do {
        let s = sub_requested (nat (s_clsid (slab_rebal s))) (of_nat sz) s;
        let s = mark_moved new_it s;
        rebalance_alloc_loop n sz cid (upd_rebal (\<lambda>r. r\<lparr>inline_reclaim := inline_reclaim r + 1\<rparr>) s)
      } else Some (new_it, s))
   }"

definition slab_rebalance_alloc :: "nat \<Rightarrow> nat \<Rightarrow> 'z reb_state_scheme \<Rightarrow> (addr \<times> 'z reb_state_scheme) option" where
  "slab_rebalance_alloc sz cid s = rebalance_alloc_loop (perslab (slabclass s (nat (s_clsid (slab_rebal s))))) sz cid s"

definition slab_rebalance_cut_free :: "nat \<Rightarrow> addr \<Rightarrow> 'z slab_state_scheme \<Rightarrow> 'z slab_state_scheme option" where
  "slab_rebalance_cut_free s_cls it s = do {
     c_assert (it_flags (heap s it) = ITEM_SLABBED);
     let s = (if slots (slabclass s s_cls) = it then upd_class s_cls (\<lambda>p. p\<lparr>slots := i_next (heap s it)\<rparr>) s else s);
     let s = (if i_next (heap s it) \<noteq> NULL then upd_item (i_next (heap s it)) (\<lambda>i. i\<lparr>i_prev := i_prev (heap s it)\<rparr>) s else s);
     let s = (if i_prev (heap s it) \<noteq> NULL then upd_item (i_prev (heap s it)) (\<lambda>i. i\<lparr>i_next := i_next (heap s it)\<rparr>) s else s);
     Some (upd_class s_cls (\<lambda>p. p\<lparr>sl_curr := sl_curr p - 1\<rparr>) s)
   }"

datatype move_status = MOVE_PASS | MOVE_FROM_SLAB | MOVE_FROM_LRU | MOVE_BUSY | MOVE_LOCKED

abbreviation (input) SLAB_MOVE_MAX_LOOPS :: u32 where "SLAB_MOVE_MAX_LOOPS \<equiv> 1000"

text \<open>
  The linked item at the current position: its lock is tried, a reference is taken, and it is
  moved only when the reference of the hash table and this one are the only two. The result
  carries the lock, which stays held for \<^verbatim>\<open>MOVE_FROM_LRU\<close>.
\<close>

definition rebalance_lock_item :: "addr \<Rightarrow> 'z reb_state_scheme \<Rightarrow> (move_status \<times> nat \<times> 'z reb_state_scheme) option" where
  "rebalance_lock_item it s =
     (let hv = hash s (item_key (heap s it))
      in case item_trylock hv s of
           None \<Rightarrow> Some (MOVE_LOCKED, 0, s)
         | Some (hold_lock, s) \<Rightarrow> do {
             let is_linked = has_flag (it_flags (heap s it)) ITEM_LINKED;
             let s = upd_item it (\<lambda>i. i\<lparr>refcount := refcount i + 1\<rparr>) s;
             let rc = refcount (heap s it);
             (status, s) \<leftarrow>
               (if rc = 2 then Some (if is_linked then MOVE_FROM_LRU else MOVE_BUSY, s)
                else if 2 < rc \<and> is_linked then do {
                  s \<leftarrow> (if SLAB_MOVE_MAX_LOOPS < busy_loops (slab_rebal s)
                        then do_item_unlink it hv (upd_rebal (\<lambda>r. r\<lparr>busy_deletes := busy_deletes r + 1\<rparr>) s)
                        else Some s);
                  Some (MOVE_BUSY, s)
                } else Some (MOVE_BUSY, s));
             (if status = MOVE_BUSY
              then Some (status, hold_lock, item_trylock_unlock hold_lock (upd_item it (\<lambda>i. i\<lparr>refcount := refcount i - 1\<rparr>) s))
              else Some (status, hold_lock, s))
           })"

text \<open>What to do with the item \<open>it\<close> at the current position, or that \<open>ch\<close> at the position belongs to.\<close>

definition rebalance_examine :: "nat \<Rightarrow> addr \<Rightarrow> addr \<Rightarrow> 'z reb_state_scheme \<Rightarrow> (move_status \<times> nat \<times> 'z reb_state_scheme) option" where
  "rebalance_examine s_cls it ch s =
     (if it_flags (heap s it) \<noteq> MOVED_FLAGS then
        (if has_flag (it_flags (heap s it)) ITEM_SLABBED then do {
           c_assert (ch = NULL);
           s \<leftarrow> slab_rebalance_cut_free s_cls it s;
           Some (MOVE_FROM_SLAB, 0, s)
         } else if has_flag (it_flags (heap s it)) ITEM_LINKED then rebalance_lock_item it s
         else Some (MOVE_BUSY, 0, s))
      else Some (MOVE_PASS, 0, s))"

partial_function (option) repoint_heads :: "addr \<Rightarrow> addr \<Rightarrow> 'z base_state_scheme \<Rightarrow> 'z base_state_scheme option" where
  "repoint_heads fch new_it s =
     (if fch = NULL then Some s
      else repoint_heads (i_next (heap s fch)) new_it (upd_item fch (\<lambda>c. c\<lparr>ch_head := new_it\<rparr>) s))"

text \<open>
  \<^verbatim>\<open>memcpy(new_it, it, ntotal)\<close>: the structure with its key and data, and for a chunked item the
  first chunk header that is stored in place of the data.
\<close>

definition copy_item :: "addr \<Rightarrow> addr \<Rightarrow> 'z base_state_scheme \<Rightarrow> 'z base_state_scheme" where
  "copy_item new_it it s =
     (let s' = upd_item new_it (\<lambda>_. heap s it) s
      in if has_flag (it_flags (heap s it)) ITEM_CHUNKED
         then upd_item (ITEM_data new_it (heap s it)) (\<lambda>_. heap s (ITEM_data it (heap s it))) s' else s')"

definition rescue_item :: "addr \<Rightarrow> addr \<Rightarrow> u32 \<Rightarrow> 'z reb_state_scheme \<Rightarrow> 'z reb_state_scheme option" where
  "rescue_item it new_it hv s = do {
     c_assert (\<not> has_flag (it_flags (heap s new_it)) ITEM_CHUNKED);
     let s = copy_item new_it it s;
     let s = upd_item new_it (\<lambda>i. i\<lparr>i_prev := NULL, i_next := NULL, h_next := NULL,
               it_flags := clr_flag (it_flags i) ITEM_LINKED, refcount := 0\<rparr>) s;
     s \<leftarrow> do_item_replace it new_it hv s;
     s \<leftarrow> (if has_flag (it_flags (heap s new_it)) ITEM_CHUNKED then do {
             let fch = ITEM_data new_it (heap s new_it);
             c_assert (i_next (heap s fch) \<noteq> NULL);
             repoint_heads fch new_it (upd_item (i_next (heap s fch)) (\<lambda>c. c\<lparr>i_prev := fch\<rparr>) s)
           } else Some s);
     Some (upd_rebal (\<lambda>r. r\<lparr>rescues := rescues r + 1\<rparr>) (mark_moved it s))
   }"

definition rescue_chunk :: "addr \<Rightarrow> addr \<Rightarrow> addr \<Rightarrow> 'z reb_state_scheme \<Rightarrow> 'z reb_state_scheme option" where
  "rescue_chunk it ch nch s = do {
     c_assert (i_prev (heap s ch) \<noteq> NULL);
     let s = upd_item (i_prev (heap s ch)) (\<lambda>c. c\<lparr>i_next := nch\<rparr>) s;
     let s = (if i_next (heap s ch) \<noteq> NULL then upd_item (i_next (heap s ch)) (\<lambda>c. c\<lparr>i_prev := nch\<rparr>) s else s);
     let s = upd_item nch (\<lambda>_. heap s ch) s;
     let s = upd_rebal (\<lambda>r. r\<lparr>chunk_rescues := chunk_rescues r + 1\<rparr>) (mark_moved ch s);
     Some (upd_item it (\<lambda>i. i\<lparr>refcount := refcount i - 1\<rparr>) s)
   }"

text \<open>Where to copy the item or chunk: \<open>NULL\<close> for a dead item and when no chunk is free.\<close>

definition rebalance_target :: "nat \<Rightarrow> addr \<Rightarrow> addr \<Rightarrow> u64 \<Rightarrow> 'z reb_state_scheme \<Rightarrow> (addr \<times> 'z reb_state_scheme) option" where
  "rebalance_target s_cls it ch ntotal s =
     (if (exptime (heap s it) \<noteq> 0 \<and> exptime (heap s it) < current_time s) \<or> item_is_flushed it s then Some (NULL, s)
      else do {
        (new_it, s) \<leftarrow> slab_rebalance_alloc (if ch = NULL then unat ntotal else sc_size (slabclass s s_cls))
                         (nat (s_clsid (slab_rebal s))) s;
        Some (new_it, if new_it = NULL then upd_rebal (\<lambda>r. r\<lparr>evictions_nomem := evictions_nomem r + 1\<rparr>) s else s)
      })"

text \<open>
  \<^verbatim>\<open>MOVE_FROM_LRU\<close>: the item is copied to a chunk of its class outside the page, or dropped when it
  has expired or no such chunk is free. The first component counts the item as busy.
\<close>

definition rebalance_from_lru :: "nat \<Rightarrow> addr \<Rightarrow> addr \<Rightarrow> nat \<Rightarrow> 'z reb_state_scheme \<Rightarrow> (nat \<times> 'z reb_state_scheme) option" where
  "rebalance_from_lru s_cls it ch hold_lock s = do {
     let hv = hash s (item_key (heap s it));
     let ntotal = (if ch = NULL \<and> has_flag (it_flags (heap s it)) ITEM_CHUNKED
                   then of_nat (sc_size (slabclass s s_cls)) else ITEM_ntotal (heap s it));
     (new_it, s) \<leftarrow> rebalance_target s_cls it ch ntotal s;
     (busy, requested_adjust, s) \<leftarrow>
       (if new_it \<noteq> NULL then
          (if ch = NULL then do { s \<leftarrow> rescue_item it new_it hv s; Some (0, ucast ntotal :: u32, s) }
           else do { s \<leftarrow> rescue_chunk it ch new_it s; Some (0, of_nat (sc_size (slabclass s s_cls)), s) })
        else do {
          let ntotal = ITEM_ntotal (heap s it);
          s \<leftarrow> do_item_unlink it hv s;
          s \<leftarrow> slabs_free it ntotal (nat (s_clsid (slab_rebal s))) s;
          Some (1, 0, upd_rebal (\<lambda>r. r\<lparr>busy_items := busy_items r + 1\<rparr>) s)
        });
     let s = item_trylock_unlock hold_lock s;
     Some (busy, sub_requested s_cls (ucast requested_adjust) s)
   }"

text \<open>One round of the loop: the chunk at the current position.\<close>

definition rebalance_chunk :: "nat \<Rightarrow> 'z reb_state_scheme \<Rightarrow> (nat \<times> 'z reb_state_scheme) option" where
  "rebalance_chunk s_cls s = do {
     let pos = slab_pos (slab_rebal s);
     let is_chunk = has_flag (it_flags (heap s pos)) ITEM_CHUNK;
     let ch = (if is_chunk then pos else NULL);
     let it = (if is_chunk then ch_head (heap s pos) else pos);
     c_assert (is_chunk \<longrightarrow> has_flag (it_flags (heap s it)) ITEM_CHUNKED);
     (status, hold_lock, s) \<leftarrow> rebalance_examine s_cls it ch s;
     (busy, s) \<leftarrow> (case status of
          MOVE_FROM_LRU \<Rightarrow> rebalance_from_lru s_cls it ch hold_lock s
        | MOVE_FROM_SLAB \<Rightarrow> Some (0, mark_moved it s)
        | MOVE_BUSY \<Rightarrow> Some (1, upd_rebal (\<lambda>r. r\<lparr>busy_items := busy_items r + 1\<rparr>) s)
        | MOVE_LOCKED \<Rightarrow> Some (1, upd_rebal (\<lambda>r. r\<lparr>busy_items := busy_items r + 1\<rparr>) s)
        | MOVE_PASS \<Rightarrow> Some (0, s));
     Some (busy, upd_rebal (\<lambda>r. r\<lparr>slab_pos := slab_pos r + sc_size (slabclass s s_cls)\<rparr>) s)
   }"

fun rebalance_chunks :: "nat \<Rightarrow> nat \<Rightarrow> nat \<Rightarrow> 'z reb_state_scheme \<Rightarrow> (nat \<times> 'z reb_state_scheme) option" where
  "rebalance_chunks 0 s_cls was_busy s = Some (was_busy, s)"
| "rebalance_chunks (Suc x) s_cls was_busy s = do {
     (busy, s) \<leftarrow> rebalance_chunk s_cls s;
     (if slab_end (slab_rebal s) \<le> slab_pos (slab_rebal s) then Some (was_busy + busy, s)
      else rebalance_chunks x s_cls (was_busy + busy) s)
   }"

definition slab_rebalance_move :: "'z reb_state_scheme \<Rightarrow> (nat \<times> 'z reb_state_scheme) option" where
  "slab_rebalance_move s = do {
     c_assert (class_index (s_clsid (slab_rebal s)));
     (was_busy, s) \<leftarrow> rebalance_chunks (nat (slab_bulk_check s)) (nat (s_clsid (slab_rebal s))) 0 s;
     let r = slab_rebal s;
     Some (was_busy,
       if slab_end r \<le> slab_pos r then
         (if busy_items r \<noteq> 0
          then upd_rebal (\<lambda>r. r\<lparr>slab_pos := slab_start r, busy_items := 0, busy_loops := busy_loops r + 1\<rparr>)
                 (s\<lparr>slab_reassign_busy_items := slab_reassign_busy_items s + ucast (busy_items r)\<rparr>)
          else upd_rebal (\<lambda>r. r\<lparr>sr_done := True\<rparr>) s)
       else s)
   }"

section \<open>Handing the page over\<close>

definition slab_rebalance_finish :: "'z reb_state_scheme \<Rightarrow> 'z reb_state_scheme option" where
  "slab_rebalance_finish s = do {
     let r = slab_rebal s;
     c_assert (class_index (s_clsid r) \<and> class_index (d_clsid r));
     let src = nat (s_clsid r);
     let dst = nat (d_clsid r);
     let s = upd_class src (\<lambda>p. p\<lparr>slabs := slabs p - 1,
               slab_list := take (slabs p - 1) (drop 1 (slab_list p)) @ drop (slabs p - 1) (slab_list p)\<rparr>) s;
     let s = upd_class dst (\<lambda>p. p\<lparr>slab_list := (slab_list p)[slabs p := slab_start r], slabs := slabs p + 1\<rparr>) s;
     s \<leftarrow> (if SLAB_GLOBAL_PAGE_POOL < dst
           then split_slab_page_into_freelist (slab_start r) dst (zero_page (slab_start r) (slab_page_size (settings s)) s)
           else Some (memory_release (s\<lparr>mem_limit_reached := False\<rparr>)));
     let s = upd_rebal (\<lambda>r. r\<lparr>busy_loops := 0, sr_done := False, s_clsid := 0, d_clsid := 0, slab_start := NULL, slab_end := NULL,
               slab_pos := NULL, evictions_nomem := 0, inline_reclaim := 0, rescues := 0, chunk_rescues := 0, busy_deletes := 0\<rparr>) s;
     Some (s\<lparr>slab_rebalance_signal := 0, slabs_moved := slabs_moved s + 1,
       slab_reassign_rescues := slab_reassign_rescues s + ucast (rescues r),
       slab_reassign_evictions_nomem := slab_reassign_evictions_nomem s + ucast (evictions_nomem r),
       slab_reassign_inline_reclaim := slab_reassign_inline_reclaim s + ucast (inline_reclaim r),
       slab_reassign_chunk_rescues := slab_reassign_chunk_rescues s + ucast (chunk_rescues r),
       slab_reassign_busy_deletes := slab_reassign_busy_deletes s + ucast (busy_deletes r),
       slab_reassign_running := False\<rparr>)
   }"

text \<open>One turn of the mover thread, up to its sleep or its wait for the next request.\<close>

definition slab_rebalance_turn :: "'z reb_state_scheme \<Rightarrow> 'z reb_state_scheme option" where
  "slab_rebalance_turn s = do {
     s \<leftarrow> (if slab_rebalance_signal s = 1 then do {
             (r, s) \<leftarrow> slab_rebalance_start s;
             Some (if r < 0 then s\<lparr>slab_rebalance_signal := 0\<rparr> else s)
           } else if slab_rebalance_signal s \<noteq> 0 \<and> slab_start (slab_rebal s) \<noteq> NULL
           then map_option snd (slab_rebalance_move s)
           else Some s);
     (if sr_done (slab_rebal s) then slab_rebalance_finish s else Some s)
   }"

end
