(* ===== verification/Rebalance_Inv.thy ===== *)
theory Rebalance_Inv
  imports Rebalance
begin

text \<open>
  The page mover keeps the cache invariant: what it does to free chunks and to the chunks of the
  page it clears stays outside the hash table and the queues, and a linked item is moved by the
  same replacement that a store uses.
\<close>

section \<open>Changes outside the linked items\<close>

lemma cinv_outside:
  fixes s s' :: "'z lru_state_scheme"
  assumes c: "cinv s F Q" and sl: "slabs_inv s' G" and fr: "slab_frame s s'"
    and same: "\<And>a. a \<in> lru_items Q \<Longrightarrow> heap s' a = heap s a"
    and out: "\<And>a. a \<notin> lru_items Q \<Longrightarrow> \<not> has_flag (it_flags (heap s' a)) ITEM_LINKED"
  shows "cinv s' G Q \<and> assoc_map s' = assoc_map s \<and> env s' = env s \<and> cache_view s' = cache_view s"
proof -
  have sm: "slab_state.more s' = slab_state.more s" using fr by (simp add: slab_frame_def)
  note lf = slab_more_fields [OF sm]
  have st: "same_table s s'" "primary_hashtable s' = primary_hashtable s" "old_hashtable s' = old_hashtable s"
    "power_largest s' = power_largest s"
    using fr by (simp_all add: same_table_def slab_frame_def)
  have as: "assoc_inv s' \<and> assoc_map s' = assoc_map s"
    by (rule assoc_heap_cong [OF _ st(1-3)]) (use c same in \<open>auto simp: cinv_def\<close>)
  have lr: "lru_inv s' Q" by (rule lru_inv_cong [of s Q]) (use c same lf in \<open>auto simp: cinv_def\<close>)
  have fl: "has_flag (it_flags (heap s' a)) ITEM_LINKED \<longleftrightarrow> a \<in> lru_items Q" for a
    using out [of a] same [of a] cinv_linked [OF c, of a] by (cases "a \<in> lru_items Q") auto
  have ok: "linked_ok s' a" if "a \<in> lru_items Q" for a
    using c that unfolding linked_ok_def valid_cls_def same [OF that] st(4) by (auto simp: cinv_def linked_ok_def valid_cls_def)
  have sum: "(\<Sum>a\<in>lru_items Q. ITEM_ntotal (heap s' a)) = (\<Sum>a\<in>lru_items Q. ITEM_ntotal (heap s a))" using same by simp
  have "cinv s' G Q" using as lr fl ok sl c lf by (simp add: cinv_def assoc_items_def sum)
  moreover have "env s' = env s" using fr lf by (simp add: env_def slab_frame_def)
  moreover have "cache_view s' = cache_view s" by (rule cache_view_same [OF c]) (use as same in auto)
  ultimately show ?thesis using as by simp
qed

text \<open>The mover's own variables and the sizes of the classes.\<close>

definition geom :: "'z slab_state_scheme \<Rightarrow> slab_rebalance \<times> (nat \<Rightarrow> nat \<times> nat)" where
  "geom s = (slab_rebal s, \<lambda>c. (sc_size (slabclass s c), perslab (slabclass s c)))"

lemma geom_upd [simp]:
  "geom (upd_item a f s) = geom s" "geom (sub_requested c n s) = geom s" "geom (item_trylock_unlock l s) = geom s"
  "geom (slots_pop c n s) = geom s" "geom (slots_push c a s) = geom s" "geom (mark_moved a s) = geom s"
  by (auto simp: geom_def upd_item_def upd_class_def sub_requested_def item_trylock_unlock_def slots_pop_def slots_push_def mark_moved_def Let_def)

lemma geom_lru [simp]:
  "geom (s\<lparr>heads := x\<rparr>) = geom s" "geom (s\<lparr>tails := x\<rparr>) = geom s" "geom (s\<lparr>sizes := y\<rparr>) = geom s"
  "geom (s\<lparr>sizes_bytes := z\<rparr>) = geom s" "geom (s\<lparr>curr_items := n\<rparr>) = geom s" "geom (s\<lparr>curr_bytes := n\<rparr>) = geom s"
  "geom (s\<lparr>total_items := n\<rparr>) = geom s" "geom (s\<lparr>cas_id := n\<rparr>) = geom s" "geom (s\<lparr>stats_sizes_hist := h\<rparr>) = geom s"
  "geom (s\<lparr>item_locks := l\<rparr>) = geom s"
  by (simp_all add: geom_def)

lemma geom_rebal: "geom (upd_rebal f s) = (f (slab_rebal s), snd (geom s))" "slab_frame s (upd_rebal f s)"
  by (simp_all add: geom_def upd_rebal_def slab_frame_def)

lemma upd_rebal_fields [simp]: "heap (upd_rebal f s) = heap s" "slabclass (upd_rebal f s) = slabclass s"
  "slab_rebal (upd_rebal f s) = f (slab_rebal s)" "power_largest (upd_rebal f s) = power_largest s"
  "slab_rebal (upd_item a g s) = slab_rebal s"
  by (simp_all add: upd_rebal_def) (simp add: upd_item_def)

lemma slabs_inv_same_classes: "slabs_inv s F \<Longrightarrow> slabclass s' = slabclass s \<Longrightarrow> heap s' = heap s \<Longrightarrow> power_largest s' = power_largest s \<Longrightarrow> slabs_inv s' F"
  by (rule slabs_inv_cong [of s F]) simp_all

lemma mark_moved_fields [simp]: "heap (mark_moved a s) = (heap s)(a := (heap s a)\<lparr>refcount := 0, it_flags := MOVED_FLAGS\<rparr>)"
  "slab_frame s (mark_moved a s)" "slabclass (mark_moved a s) = slabclass s" "power_largest (mark_moved a s) = power_largest s"
  "slab_rebal (mark_moved a s) = slab_rebal s"
  by (simp_all add: mark_moved_def)

section \<open>Free chunks\<close>

lemma free_items_remove1:
  assumes "slabs_inv s F" "x \<in> set (F cid)"
  shows "free_items (F(cid := remove1 x (F cid))) = free_items F - {x}"
proof -
  have v: "1 \<le> cid" "cid \<le> power_largest s" using slabs_inv_item [OF assms] by auto
  have d: "distinct (F cid)" using slabs_inv_free_ok [OF assms(1) v] by (auto simp: free_ok_def dll_def)
  have o: "x \<notin> set (F c)" if "c \<noteq> cid" for c using assms that unfolding slabs_inv_def by blast
  show ?thesis
  proof (rule set_eqI)
    fix a
    have "(\<exists>c. a \<in> set ((F(cid := remove1 x (F cid))) c)) \<longleftrightarrow> (\<exists>c. a \<in> set (F c)) \<and> a \<noteq> x" using d o by (auto split: if_splits) metis
    then show "a \<in> free_items (F(cid := remove1 x (F cid))) \<longleftrightarrow> a \<in> free_items F - {x}" by (simp add: free_items_def)
  qed
qed

lemma cut_free_correct:
  assumes inv: "slabs_inv s F" and x: "x \<in> set (F cid)"
  shows "\<exists>s'. slab_rebalance_cut_free cid x s = Some s' \<and> slabs_inv s' (F(cid := remove1 x (F cid))) \<and> slab_frame s s' \<and>
    geom s' = geom s \<and> heap s' x = heap s x \<and> (\<forall>a. a \<notin> free_items F \<longrightarrow> heap s' a = heap s a)"
proof -
  have v: "1 \<le> cid" "cid \<le> power_largest s" and fl: "it_flags (heap s x) = ITEM_SLABBED" using slabs_inv_item [OF inv x] by auto
  have ok: "free_ok s cid (F cid)" by (rule slabs_inv_free_ok [OF inv v])
  obtain ps ns where sp: "F cid = ps @ x # ns" using x by (meson split_list)
  have d: "dll (heap s) (slots (slabclass s cid)) (last_or (F cid) NULL) (ps @ x # ns)" using ok sp by (simp add: free_ok_def)
  note l = dll_split_links [OF d]
  have nn: "NULL \<notin> set ps" "NULL \<notin> set ns" using dll_nonnull [OF d] by auto
  have ds: "distinct (ps @ x # ns)" using d by (simp add: dll_def)
  let ?nx = "i_next (heap s x)" and ?pv = "i_prev (heap s x)"
  have nx: "?nx \<noteq> NULL \<Longrightarrow> ?nx \<in> set ns" using l(2) by (auto intro: first_or_eqD)
  have pv: "?pv \<noteq> NULL \<Longrightarrow> ?pv \<in> set ps" using l(1) by (auto intro: last_or_eqD)
  have ne: "?nx \<noteq> x" "?pv \<noteq> x" "?nx \<noteq> NULL \<Longrightarrow> ?pv \<noteq> ?nx" using nx pv l(3-5) ds by force+
  define s1 where "s1 = (if slots (slabclass s cid) = x then upd_class cid (\<lambda>p. p\<lparr>slots := ?nx\<rparr>) s else s)"
  define s2 where "s2 = (if ?nx \<noteq> NULL then upd_item ?nx (\<lambda>i. i\<lparr>i_prev := ?pv\<rparr>) s1 else s1)"
  define s3 where "s3 = (if ?pv \<noteq> NULL then upd_item ?pv (\<lambda>i. i\<lparr>i_next := ?nx\<rparr>) s2 else s2)"
  define s' where "s' = upd_class cid (\<lambda>p. p\<lparr>sl_curr := sl_curr p - 1\<rparr>) s3"
  have hx: "heap s1 = heap s" "heap s2 x = heap s x" using ne by (simp_all add: s1_def s2_def)
  have ev: "slab_rebalance_cut_free cid x s = Some s'"
    using hx fl by (simp add: slab_rebalance_cut_free_def Let_def s'_def s3_def s2_def s1_def)
  have h: "heap s' a = (if a = ?nx \<and> a \<noteq> NULL then (heap s a)\<lparr>i_prev := ?pv\<rparr>
      else if a = ?pv \<and> a \<noteq> NULL then (heap s a)\<lparr>i_next := ?nx\<rparr> else heap s a)" for a
    using ne by (auto simp: s'_def s3_def s2_def s1_def)
  have cl: "slabclass s' cid = (slabclass s cid)\<lparr>slots := (if slots (slabclass s cid) = x then ?nx else slots (slabclass s cid)),
      sl_curr := sl_curr (slabclass s cid) - 1\<rparr>" "\<And>c. c \<noteq> cid \<Longrightarrow> slabclass s' c = slabclass s c" "power_largest s' = power_largest s"
    by (simp_all add: s'_def s3_def s2_def s1_def)
  have dd: "dll (heap s') (if slots (slabclass s cid) = x then ?nx else slots (slabclass s cid))
      (if last_or (F cid) NULL = x then ?pv else last_or (F cid) NULL) (ps @ ns)"
    by (rule dll_unlink [OF d]) (use ds nn nx pv in \<open>auto simp: h\<close>)
  have r: "remove1 x (F cid) = ps @ ns" using l(3) by (simp add: sp remove1_append)
  have "(if last_or (F cid) NULL = x then ?pv else last_or (F cid) NULL) = last_or (ps @ ns) NULL" using dd by (simp add: dll_def)
  then have fo: "free_ok s' cid (remove1 x (F cid))"
    using dd ok unfolding r by (auto simp: free_ok_def cl sp h split: if_splits)
  have si: "slabs_inv s' (F(cid := remove1 x (F cid)))"
  proof (rule slabs_inv_upd [OF inv v cl(3,2) _ fo])
    fix a c assume c: "c \<noteq> cid" "a \<in> set (F c)"
    then have "a \<notin> set (F cid)" using inv unfolding slabs_inv_def by blast
    then show "heap s' a = heap s a" using nx pv by (auto simp: h sp)
  next
    fix c assume "c \<noteq> cid" then show "set (F c) \<inter> set (remove1 x (F cid)) = {}"
      using inv set_remove1_subset [of x "F cid"] unfolding slabs_inv_def by blast
  qed
  have fr: "slab_frame s s'" by (simp add: slab_frame_def s'_def s3_def s2_def s1_def upd_class_def upd_item_def)
  have ge: "geom s' = geom s" by (auto simp: geom_def s'_def s3_def s2_def s1_def upd_class_def upd_item_def)
  have "heap s' a = heap s a" if "a \<notin> free_items F" for a
    using that free_itemsI [of a F cid] nx pv by (auto simp: h sp)
  then show ?thesis using ev si fr ge ne l(5) by (auto simp: h)
qed

section \<open>A chunk outside the page\<close>

lemma alloc_no_newpage:
  assumes inv: "slabs_inv s F" and v: "1 \<le> cid" "cid \<le> power_largest s" and sz: "sz \<le> sc_size (slabclass s cid)"
  shows "do_slabs_alloc sz cid SLABS_ALLOC_NO_NEWPAGE s = (case F cid of [] \<Rightarrow> Some (NULL, Some (requested (slabclass s cid)), s)
    | x # _ \<Rightarrow> Some (x, Some (requested (slabclass s cid)), slots_pop cid (of_nat sz) s))"
proof -
  have ok: "free_ok s cid (F cid)" by (rule slabs_inv_free_ok [OF inv v])
  have as: "sl_curr (slabclass s cid) = 0 \<or> slabs_clsid (heap s (slots (slabclass s cid))) = 0"
    using ok by (cases "F cid") (auto simp: free_ok_def dll_def)
  show ?thesis
  proof (cases "F cid")
    case Nil
    then have "sl_curr (slabclass s cid) = 0" using ok by (simp add: free_ok_def)
    then show ?thesis by (simp add: do_slabs_alloc_unfold [OF v as sz] Nil)
  next
    case (Cons x xs)
    then have "sl_curr (slabclass s cid) \<noteq> 0" using ok by (simp add: free_ok_def)
    then show ?thesis using slots_pop_correct(1) [OF inv v Cons] by (simp add: do_slabs_alloc_unfold [OF v as sz] Cons)
  qed
qed

definition in_page :: "slab_rebalance \<Rightarrow> addr \<Rightarrow> bool" where
  "in_page r a \<longleftrightarrow> slab_start r \<le> a \<and> a < slab_end r"

text \<open>
  The outcome of a search for a chunk: \<open>p\<close> is \<open>NULL\<close> or a free chunk outside the page, now in the
  caller's hands; the free chunks of the page that were passed over are cleared.
\<close>

definition found_chunk :: "nat \<Rightarrow> 'z reb_state_scheme \<Rightarrow> (nat \<Rightarrow> addr list) \<Rightarrow> addr \<Rightarrow> 'z reb_state_scheme \<Rightarrow> (nat \<Rightarrow> addr list) \<Rightarrow> bool" where
  "found_chunk cid s F p s' G \<longleftrightarrow> slabs_inv s' G \<and> slab_frame s s' \<and> free_items G \<subseteq> free_items F \<and>
     (\<forall>a. a \<notin> free_items F \<longrightarrow> heap s' a = heap s a) \<and>
     (\<forall>a. a \<in> free_items F \<longrightarrow> a \<notin> free_items G \<longrightarrow> a \<noteq> p \<longrightarrow> in_page (slab_rebal s) a \<and> it_flags (heap s' a) = MOVED_FLAGS) \<and>
     (p \<noteq> NULL \<longrightarrow> p \<in> set (F cid) \<and> p \<notin> free_items G \<and> \<not> in_page (slab_rebal s) p \<and> it_flags (heap s' p) = 0) \<and>
     (\<exists>n. slab_rebal s' = (slab_rebal s)\<lparr>inline_reclaim := n\<rparr>) \<and> snd (geom s') = snd (geom s)"

lemma found_chunk_none: "slabs_inv s F \<Longrightarrow> found_chunk cid s F NULL s F"
  unfolding found_chunk_def by (auto intro!: exI [of _ "inline_reclaim (slab_rebal s)"])

lemma moved_flags [simp]: "\<not> has_flag MOVED_FLAGS ITEM_LINKED" "has_flag MOVED_FLAGS ITEM_SLABBED" "MOVED_FLAGS \<noteq> ITEM_SLABBED"
  "\<not> has_flag MOVED_FLAGS ITEM_CHUNK" "\<not> has_flag MOVED_FLAGS ITEM_CHUNKED"
  by (simp_all add: item_flag_defs has_flag_def)

text \<open>The state after a free chunk of the page has been passed over.\<close>

definition passed_over :: "nat \<Rightarrow> nat \<Rightarrow> addr \<Rightarrow> 'z reb_state_scheme \<Rightarrow> 'z reb_state_scheme" where
  "passed_over cid sz x s = upd_rebal (\<lambda>r. r\<lparr>inline_reclaim := inline_reclaim r + 1\<rparr>)
     (mark_moved x (sub_requested cid (of_nat sz) (slots_pop cid (of_nat sz) s)))"

lemma rebalance_alloc_step:
  assumes "slabs_inv s F" "1 \<le> cid" "cid \<le> power_largest s" "sz \<le> sc_size (slabclass s cid)" "nat (s_clsid (slab_rebal s)) = cid"
    and F: "F cid = x # xs"
  shows "rebalance_alloc_loop (Suc n) sz cid s =
    (if in_page (slab_rebal s) x then rebalance_alloc_loop n sz cid (passed_over cid sz x s) else Some (x, slots_pop cid (of_nat sz) s))"
proof -
  have r: "slab_rebal (slots_pop cid (of_nat sz) s) = slab_rebal s" by (simp add: slots_pop_def Let_def upd_class_def upd_item_def)
  have x0: "x \<noteq> NULL" using slabs_inv_item [OF assms(1), of x cid] F by simp
  show ?thesis
    unfolding rebalance_alloc_loop.simps alloc_no_newpage [OF assms(1-4)] F list.case bind.bind_lunit prod.case r Let_def passed_over_def assms(5)
    using x0 by (simp only: in_page_def if_False)
qed

lemma passed_over_correct:
  fixes sz :: nat and c :: nat
  assumes inv: "slabs_inv s F" "1 \<le> cid" "cid \<le> power_largest s" and F: "F cid = x # xs"
  defines "u \<equiv> passed_over cid sz x s"
  shows "slabs_inv u (F(cid := xs))" "slab_frame s u" "snd (geom u) = snd (geom s)"
    "slab_rebal u = (slab_rebal s)\<lparr>inline_reclaim := inline_reclaim (slab_rebal s) + 1\<rparr>"
    "it_flags (heap u x) = MOVED_FLAGS" "\<And>a. a \<notin> free_items F \<Longrightarrow> heap u a = heap s a"
    "sc_size (slabclass u c) = sc_size (slabclass s c)" "power_largest u = power_largest s"
proof -
  let ?t = "slots_pop cid (of_nat sz) s"
  note pop = slots_pop_correct(2-6) [OF inv F, where sz = "of_nat sz"]
  note fi = free_items_tail [OF inv(1) F]
  have xF: "x \<in> free_items F" using F free_itemsI [of x F cid] by auto
  have hu: "heap u = (heap ?t)(x := (heap ?t x)\<lparr>refcount := 0, it_flags := MOVED_FLAGS\<rparr>)"
    by (simp add: u_def passed_over_def sub_requested_def)
  have "slabs_inv (mark_moved x (sub_requested cid (of_nat sz) ?t)) (F(cid := xs))"
    by (rule slabs_inv_cong [OF sub_requested_inv [OF pop(1)]]) (use fi in \<open>auto simp: sub_requested_def\<close>)
  then show "slabs_inv u (F(cid := xs))" unfolding u_def passed_over_def by (rule slabs_inv_same_classes) simp_all
  show "slab_frame s u" unfolding u_def passed_over_def
    by (meson slab_frame_trans slab_frame_upd(3) slots_pop_frame mark_moved_fields(2) geom_rebal(2))
  show "snd (geom u) = snd (geom s)" by (simp add: u_def passed_over_def geom_rebal)
  then show "sc_size (slabclass u c) = sc_size (slabclass s c)" by (auto simp: geom_def fun_eq_iff)
  show "slab_rebal u = (slab_rebal s)\<lparr>inline_reclaim := inline_reclaim (slab_rebal s) + 1\<rparr>" "power_largest u = power_largest s"
    by (simp_all add: u_def passed_over_def sub_requested_def slots_pop_def Let_def) (simp_all add: upd_class_def upd_item_def)
  show "it_flags (heap u x) = MOVED_FLAGS" by (simp add: hu)
  show "heap u a = heap s a" if "a \<notin> free_items F" for a using that pop(3) [of a] xF by (auto simp: hu)
qed

lemma found_chunk_passed:
  assumes inv: "slabs_inv s F" "1 \<le> cid" "cid \<le> power_largest s" and F: "F cid = x # xs" and pg: "in_page (slab_rebal s) x"
    and r: "found_chunk cid (passed_over cid sz x s) (F(cid := xs)) p s' G"
  shows "found_chunk cid s F p s' G"
proof -
  let ?u = "passed_over cid sz x s"
  note u = passed_over_correct [OF inv F, where sz = sz]
  note fi = free_items_tail [OF inv(1) F]
  have ip: "in_page (slab_rebal ?u) = in_page (slab_rebal s)" by (simp add: in_page_def fun_eq_iff u(4))
  have xF: "x \<in> free_items F" using F free_itemsI [of x F cid] by auto
  note f = r [unfolded found_chunk_def fi ip]
  have xs: "it_flags (heap s' x) = MOVED_FLAGS" using f u(5) by simp
  show ?thesis unfolding found_chunk_def
  proof (intro conjI)
    show "slab_frame s s'" using u(2) f slab_frame_trans by blast
    show "\<forall>a. a \<notin> free_items F \<longrightarrow> heap s' a = heap s a" using f u(6) xF by simp
    show "\<forall>a. a \<in> free_items F \<longrightarrow> a \<notin> free_items G \<longrightarrow> a \<noteq> p \<longrightarrow> in_page (slab_rebal s) a \<and> it_flags (heap s' a) = MOVED_FLAGS"
      using f pg xs by blast
    show "p \<noteq> NULL \<longrightarrow> p \<in> set (F cid) \<and> p \<notin> free_items G \<and> \<not> in_page (slab_rebal s) p \<and> it_flags (heap s' p) = 0"
      using f F by simp
    obtain m where "slab_rebal s' = (slab_rebal ?u)\<lparr>inline_reclaim := m\<rparr>" using f by blast
    then show "\<exists>n. slab_rebal s' = (slab_rebal s)\<lparr>inline_reclaim := n\<rparr>" unfolding u(4) by auto
    show "snd (geom s') = snd (geom s)" using f u(3) by simp
    show "slabs_inv s' G" "free_items G \<subseteq> free_items F" using f by blast+
  qed
qed

lemma rebalance_alloc_loop_correct:
  assumes "slabs_inv s F" "1 \<le> cid" "cid \<le> power_largest s" "sz \<le> sc_size (slabclass s cid)" "nat (s_clsid (slab_rebal s)) = cid"
  shows "\<exists>p s' G. rebalance_alloc_loop n sz cid s = Some (p, s') \<and> found_chunk cid s F p s' G \<and>
    (p = NULL \<longrightarrow> (\<forall>a \<in> set (take n (F cid)). in_page (slab_rebal s) a))"
  using assms
proof (induction n arbitrary: s F)
  case 0
  then show ?case using found_chunk_none [of s F cid] by auto
next
  case (Suc n)
  show ?case
  proof (cases "F cid")
    case Nil
    then show ?thesis using alloc_no_newpage [OF Suc.prems(1-4)] found_chunk_none [OF Suc.prems(1), of cid] by auto
  next
    case (Cons x xs)
    note st = rebalance_alloc_step [OF Suc.prems Cons, of n]
    show ?thesis
    proof (cases "in_page (slab_rebal s) x")
      case False
      note pop = slots_pop_correct(2-6) [OF Suc.prems(1-3) Cons, where sz = "of_nat sz"]
      have x: "x \<in> free_items F" "x \<noteq> NULL" using Cons free_itemsI [of x F cid] slabs_inv_item [OF Suc.prems(1), of x cid] by auto
      have r: "slab_rebal (slots_pop cid (of_nat sz) s) = slab_rebal s" by (simp add: slots_pop_def Let_def upd_class_def upd_item_def)
      have "found_chunk cid s F x (slots_pop cid (of_nat sz) s) (F(cid := xs))"
        unfolding found_chunk_def free_items_tail [OF Suc.prems(1) Cons] r
        using pop(1,2,3) x Cons False by (auto intro!: exI [of _ "inline_reclaim (slab_rebal s)"])
      then show ?thesis using st False x(2) by auto
    next
      case True
      let ?u = "passed_over cid sz x s"
      note u = passed_over_correct [OF Suc.prems(1-3) Cons, where sz = sz]
      have pu: "cid \<le> power_largest ?u" "sz \<le> sc_size (slabclass ?u cid)" "nat (s_clsid (slab_rebal ?u)) = cid"
        using Suc.prems(3-5) u(4,7,8) by simp_all
      obtain p s' G where r: "rebalance_alloc_loop n sz cid ?u = Some (p, s')" "found_chunk cid ?u (F(cid := xs)) p s' G"
        "p = NULL \<longrightarrow> (\<forall>a \<in> set (take n xs). in_page (slab_rebal ?u) a)"
        using Suc.IH [OF u(1) Suc.prems(2) pu] by (simp only: fun_upd_same) blast
      have ip: "in_page (slab_rebal ?u) = in_page (slab_rebal s)" by (simp add: in_page_def fun_eq_iff u(4))
      show ?thesis
        using st True r(1,3) found_chunk_passed [OF Suc.prems(1-3) Cons True r(2)] Cons ip by auto
    qed
  qed
qed

end
