(* ===== verification/Rebalance_Spec.thy ===== *)
theory Rebalance_Spec
  imports Rebalance_Inv
begin

text \<open>
  What the page mover does to the cache: a round on one chunk of the page, the search for a chunk
  to move an item to, the hand-over of the cleared page, and the release of pages above the
  memory limit.
\<close>

section \<open>Item operations leave the mover alone\<close>

lemma geom_more:
  fixes s t :: "'z slab_state_scheme"
  shows "assoc_state.more t = assoc_state.more s \<Longrightarrow> geom t = geom s"
  by (cases s; cases t) (simp add: geom_def)

lemma assoc_delete_geom:
  fixes s :: "'z lru_state_scheme"
  shows "assoc_delete k hv s = Some t \<Longrightarrow> geom t = geom s"
  by (rule geom_more) (auto simp: assoc_delete_def Let_def hpos_write_def split: Option.bind_splits if_splits hpos.splits)

lemma unlink_q_geom: "do_item_unlink_q it s = Some t \<Longrightarrow> geom t = geom s"
  by (auto simp: do_item_unlink_q_def Let_def)

lemma link_q_geom: "do_item_link_q it s = Some t \<Longrightarrow> geom t = geom s"
  by (auto simp: do_item_link_q_def Let_def)

lemma sizes_geom [simp]: "geom (item_stats_sizes_add it s) = geom s" "geom (item_stats_sizes_remove it s) = geom s"
  by (simp_all add: item_stats_sizes_add_def item_stats_sizes_remove_def Let_def split: option.split)

lemma prepare_geom [simp]: "geom (unlink_prepare it s) = geom s" "geom (link_prepare it s) = geom s"
  "geom (assoc_insert it hv s) = geom s" for s :: "'z lru_state_scheme"
proof -
  show "geom (unlink_prepare it s) = geom s" by (simp add: unlink_prepare_def Let_def)
  show "geom (link_prepare it s) = geom s" by (simp add: link_prepare_def Let_def get_cas_id_def)
  show "geom (assoc_insert it hv s) = geom s"
    by (rule geom_more) (simp add: assoc_insert_def Let_def hpos_write_def split: hpos.split)
qed

lemma do_item_remove_geom:
  "do_item_remove it s = Some t \<Longrightarrow> \<not> has_flag (it_flags (heap s it)) ITEM_CHUNKED \<Longrightarrow> geom t = geom s"
  by (auto simp: do_item_remove_def item_free_def slabs_free_def do_slabs_free_def Let_def split: if_splits)

lemma do_item_unlink_geom:
  assumes "do_item_unlink it hv s = Some t" "\<not> has_flag (it_flags (heap s it)) ITEM_CHUNKED"
  shows "geom t = geom s"
proof (cases "has_flag (it_flags (heap s it)) ITEM_LINKED")
  case True
  obtain u v where u: "assoc_delete (item_key (heap s it)) hv (unlink_prepare it s) = Some u" "do_item_unlink_q it u = Some v" "do_item_remove it v = Some t"
    using assms(1) by (auto simp: do_item_unlink_unfold [OF True] split: Option.bind_splits)
  have f: "it_flags (heap u it) = it_flags (heap (unlink_prepare it s) it)"
    using u(1) by (auto simp: assoc_delete_def Let_def hpos_write_def split: Option.bind_splits if_splits hpos.splits)
  have g: "it_flags (heap v it) = it_flags (heap u it)"
    using u(2) by (auto simp: do_item_unlink_q_def Let_def)
  have "\<not> has_flag (it_flags (heap v it)) ITEM_CHUNKED"
    using assms(2) by (simp add: f g unlink_prepare_heap has_flag_clr_other flag_simps)
  then show ?thesis using assoc_delete_geom [OF u(1)] unlink_q_geom [OF u(2)] do_item_remove_geom [OF u(3)] by simp
qed (use assms in \<open>simp add: do_item_unlink_def\<close>)

lemma do_item_link_geom:
  assumes "do_item_link it hv s = Some t"
  shows "geom t = geom s"
proof -
  have f: "\<not> has_flag (it_flags (heap s it)) ITEM_LINKED" "\<not> has_flag (it_flags (heap s it)) ITEM_SLABBED"
    using assms by (auto simp: do_item_link_def has_flag_or)
  obtain u where "do_item_link_q it (assoc_insert it hv (link_prepare it s)) = Some u"
    "t = item_stats_sizes_add it (upd_item it (\<lambda>i. i\<lparr>refcount := refcount i + 1\<rparr>) u)"
    using assms by (auto simp: do_item_link_unfold [OF f] item_link_q_def split: Option.bind_splits)
  then show ?thesis using link_q_geom by fastforce
qed

lemma do_item_replace_geom:
  assumes "do_item_replace it nw hv s = Some t" "\<not> has_flag (it_flags (heap s it)) ITEM_CHUNKED"
  shows "geom t = geom s"
  using assms do_item_unlink_geom do_item_link_geom by (fastforce simp: do_item_replace_def split: Option.bind_splits)

section \<open>Moving or dropping a linked item\<close>

text \<open>A value without its CAS: what a move keeps.\<close>

definition payload :: "value \<Rightarrow> bytes \<times> int \<times> u32" where
  "payload v = (fst v, fst (snd v), fst (snd (snd v)))"

lemma linked_key_wf: "cinv s F Q \<Longrightarrow> x \<in> lru_items Q \<Longrightarrow> key_wf (heap s x)"
proof -
  assume c: "cinv s F Q" "x \<in> lru_items Q"
  then obtain C where r: "assoc_rep s C" by (auto simp: cinv_def assoc_inv_def)
  have "x \<in> chain_items C" using c assoc_items_eq [OF r] by (simp add: cinv_def)
  then obtain sl where "x \<in> set (C sl)" by (auto simp: chain_items_def)
  then show ?thesis using r by (auto dest: assoc_rep_item_slot)
qed

text \<open>The moved item before it is linked again.\<close>

definition copied :: "item \<Rightarrow> item" where
  "copied i = i\<lparr>i_prev := NULL, i_next := NULL, h_next := NULL, it_flags := clr_flag (it_flags i) ITEM_LINKED, refcount := 0\<rparr>"

lemma rescue_item_correct:
  fixes s :: "'z reb_state_scheme"
  assumes c: "cinv s F Q" and it: "it \<in> lru_items Q" and rc: "refcount (heap s it) = 2"
    and nw: "nw \<notin> free_items F" "nw \<noteq> NULL" "nw \<notin> lru_items Q" "it_flags (heap s nw) = 0"
  defines "k \<equiv> item_key (heap s it)"
  shows "\<exists>s' Q'. rescue_item it nw (hash s k) s = Some s' \<and> cinv s' F Q' \<and> it_flags (heap s' it) = MOVED_FLAGS \<and>
    (\<exists>v. cache_view s' = (cache_view s)(k \<mapsto> v) \<and> payload v = payload (item_value (heap s it))) \<and>
    item_locks s' = item_locks s \<and> geom s' = ((slab_rebal s)\<lparr>rescues := rescues (slab_rebal s) + 1\<rparr>, snd (geom s))"
proof -
  let ?t = "upd_item nw (\<lambda>_. copied (heap s it)) s"
  have ok: "linked_ok s it" and ne: "nw \<noteq> it" using c it nw(3) by (auto simp: cinv_def)
  have sl: "slabs_inv s F" using c by (simp add: cinv_def)
  have st: "slabs_inv ?t F" by (rule slabs_inv_cong [OF sl]) (use nw(1) in auto)
  have fl: "\<not> has_flag (it_flags (heap ?t a)) ITEM_LINKED" if "a \<notin> lru_items Q" for a
    using that cinv_linked [OF c, of a] by (simp add: copied_def)
  have sm: "heap ?t a = heap s a" if "a \<in> lru_items Q" for a using that nw(3) by auto
  have t: "cinv ?t F Q" "env ?t = env s" "cache_view ?t = cache_view s"
    using cinv_outside [OF c st slab_frame_upd(2) sm fl] by auto
  have hi: "heap ?t it = heap s it" using ne by simp
  have key: "item_key (heap ?t nw) = k" by (simp add: copied_def k_def item_key_def)
  have lk: "linkable ?t F nw"
    using nw ok linked_key_wf [OF c it]
    by (simp add: linkable_def copied_def linked_ok_def key_wf_def ITEM_clsid_def valid_cls_def has_flag_clr_other flag_simps)
  have hk: "hash s k = hash ?t (item_key (heap ?t it))" using hi by (simp add: k_def)
  have e: "item_key (heap ?t nw) = item_key (heap ?t it)" using key hi by (simp add: k_def)
  obtain u Q' where u: "do_item_replace it nw (hash s k) ?t = Some u" "cinv u (freed ?t it F) Q'"
    "assoc_map u = (assoc_map ?t)(item_key (heap ?t it) \<mapsto> nw)" "env u = env (?t\<lparr>cas_id := cas_id u\<rparr>)"
    "strip (heap u nw) = strip ((linked_item nw ?t)\<lparr>refcount := refcount (heap ?t nw) + 1\<rparr>)"
    "\<forall>a. a \<noteq> it \<longrightarrow> a \<noteq> nw \<longrightarrow> a \<notin> free_items F \<longrightarrow> strip (heap u a) = strip (heap ?t a)"
    "refcount (heap ?t it) \<noteq> 1 \<longrightarrow> private_item u F it \<and> refcount (heap u it) = refcount (heap ?t it) - 1"
    using do_item_replace_correct [OF t(1) it hk lk e] by blast
  have fr: "freed ?t it F = F" using rc hi by (simp add: freed_def)
  have cu: "cinv u F Q'" using u(2) fr by simp
  have pv: "private_item u F it" using u(7) rc hi by simp
  have vu: "cache_view u = (cache_view s)(k \<mapsto> item_value (linked_item nw ?t))"
  proof -
    have "cache_view u = (cache_view ?t)(k := map_option (\<lambda>it. item_value (heap u it)) (Some nw))"
    proof (rule cache_view_upd [OF t(1)])
      show "assoc_map u = (assoc_map ?t)(k := Some nw)" using u(3) hi by (simp add: k_def)
      fix k' x assume "k' \<noteq> k" "assoc_map ?t k' = Some x"
      with other_item [OF t(1) this(2), of it] hi nw(3) u(6) show "item_value (heap u x) = item_value (heap ?t x)"
        by (metis item_value_strip k_def)
    qed
    then show ?thesis using item_value_strip [OF u(5)] t(3) by simp
  qed
  let ?w = "mark_moved it u"
  have pv': "it \<notin> free_items F" "it \<notin> lru_items Q'" using pv cinv_linked [OF cu, of it] by (auto simp: private_item_def)
  have sw: "slabs_inv ?w F" by (rule slabs_inv_cong [of u F]) (use cu pv' in \<open>auto simp: cinv_def\<close>)
  have wm: "heap ?w a = heap u a" if "a \<in> lru_items Q'" for a using that pv' by auto
  have wf: "\<not> has_flag (it_flags (heap ?w a)) ITEM_LINKED" if "a \<notin> lru_items Q'" for a
    using that cinv_linked [OF cu, of a] by simp
  have w: "cinv ?w F Q'" "env ?w = env u" "cache_view ?w = cache_view u"
    using cinv_outside [OF cu sw mark_moved_fields(2) wm wf] by auto
  let ?z = "upd_rebal (\<lambda>r. r\<lparr>rescues := rescues r + 1\<rparr>) ?w"
  have sz: "slabs_inv ?z F" by (rule slabs_inv_same_classes [OF sw]) simp_all
  have z: "cinv ?z F Q'" "cache_view ?z = cache_view u"
    using cinv_outside [OF w(1) sz geom_rebal(2)] w cinv_linked [OF w(1)] by auto
  have cp: "copy_item nw it s = upd_item nw (\<lambda>_. heap s it) s"
    using ok by (simp add: copy_item_def linked_ok_def)
  have tt: "upd_item nw (\<lambda>i. i\<lparr>i_prev := NULL, i_next := NULL, h_next := NULL, it_flags := clr_flag (it_flags i) ITEM_LINKED, refcount := 0\<rparr>)
      (copy_item nw it s) = ?t"
    by (simp add: cp upd_item_def copied_def)
  have nc: "\<not> has_flag (it_flags (heap u nw)) ITEM_CHUNKED"
    using strip_fields(2) [OF u(5)] ok by (simp add: copied_def linked_ok_def has_flag_set has_flag_clr_other flag_simps)
  have ev: "rescue_item it nw (hash s k) s = Some ?z"
    using nw(4) u(1) nc by (simp add: rescue_item_def tt Let_def)
  have gu: "geom u = geom s" using do_item_replace_geom [OF u(1)] hi ok by (simp add: linked_ok_def)
  have ga: "geom ?z = ((slab_rebal s)\<lparr>rescues := rescues (slab_rebal s) + 1\<rparr>, snd (geom s))"
    using gu by (simp add: geom_rebal geom_def)
  have pl: "payload (item_value (linked_item nw ?t)) = payload (item_value (heap s it))"
    by (simp add: payload_def item_value_def copied_def)
  have il: "item_locks ?z = item_locks s"
    using w(2) u(4) t(2) by (simp add: env_def upd_rebal_def)
  have cv: "cache_view ?z = (cache_view s)(k \<mapsto> item_value (linked_item nw ?t))" using z(2) vu by (rule trans)
  have fm: "it_flags (heap ?z it) = MOVED_FLAGS" by simp
  show ?thesis by (intro exI conjI) (rule ev z(1) fm cv pl il ga)+
qed

lemma cinv_rebal [simp]: "cinv (upd_rebal f s) F Q = cinv s F Q" "cache_view (upd_rebal f s) = cache_view s"
  "item_locks (upd_rebal f s) = item_locks s" "hash (upd_rebal f s) = hash s"
proof -
  have 1: "cinv s F Q \<Longrightarrow> cinv (upd_rebal f s) F Q" for f and s :: "'z lru_state_scheme"
    using cinv_same_heap [of s F Q "upd_rebal f s"] by (simp add: core_def upd_rebal_def)
  have "upd_rebal (\<lambda>_. slab_rebal s) (upd_rebal f s) = s" by (simp add: upd_rebal_def)
  then show "cinv (upd_rebal f s) F Q = cinv s F Q" using 1 [of s f] 1 [of "upd_rebal f s" "\<lambda>_. slab_rebal s"] by auto
  have h: "hash_slot hv (upd_rebal f s) = hash_slot hv s" "hash (upd_rebal f s) = hash s" for hv
    by (simp_all add: hash_slot_def upd_rebal_def Let_def)
  have r: "hpos_read (upd_rebal f s) p = hpos_read s p" for p by (cases p) (simp_all add: hpos_read_def upd_rebal_def)
  show "cache_view (upd_rebal f s) = cache_view s" by (rule ext) (simp add: cache_view_def assoc_map_def assoc_find_def h r)
  show "item_locks (upd_rebal f s) = item_locks s" "hash (upd_rebal f s) = hash s" by (simp_all add: upd_rebal_def)
qed

lemma drop_item_correct:
  fixes s :: "'z lru_state_scheme"
  assumes c: "cinv s F Q" and it: "it \<in> lru_items Q" and rc: "refcount (heap s it) = 2" and v: "1 \<le> cid" "cid \<le> power_largest s"
  defines "k \<equiv> item_key (heap s it)"
  shows "\<exists>t s' Q'. do_item_unlink it (hash s k) s = Some t \<and> slabs_free it n cid t = Some s' \<and> cinv s' (F(cid := it # F cid)) Q' \<and>
    cache_view s' = (cache_view s)(k := None) \<and> item_locks s' = item_locks s \<and> geom s' = geom s \<and> geom t = geom s"
proof -
  have ok: "linked_ok s it" using c it by (auto simp: cinv_def)
  obtain t Q' where t: "do_item_unlink it (hash s k) s = Some t" "cinv t (freed s it F) Q'"
    "assoc_map t = (assoc_map s)(item_key (heap s it) := None)"
    "\<forall>a. a \<noteq> it \<longrightarrow> a \<notin> free_items F \<longrightarrow> strip (heap t a) = strip (heap s a)" "env t = env s"
    "refcount (heap s it) \<noteq> 1 \<longrightarrow> private_item t F it"
    using do_item_unlink_correct [OF c it refl] unfolding k_def by blast
  have ct: "cinv t F Q'" using t(2) rc by (simp add: freed_def)
  have p: "it \<notin> free_items F" "it \<noteq> NULL" "\<not> has_flag (it_flags (heap t it)) ITEM_CHUNKED" "it \<notin> lru_items Q'"
    using t(6) rc cinv_linked [OF ct, of it] by (auto simp: private_item_def)
  have vt: "cid \<le> power_largest t" using v env_fields(6) [OF t(5)] by simp
  have si: "slabs_inv t F" using ct by (simp add: cinv_def)
  obtain s' where s': "do_slabs_free it n cid t = Some s'" "slabs_inv s' (F(cid := it # F cid))" "slab_frame t s'"
    "\<forall>a. a \<notin> insert it (free_items F) \<longrightarrow> heap s' a = heap t a"
    using do_slabs_free_correct [OF si v(1) vt p(1-3)] by blast
  have sm: "heap s' a = heap t a" if "a \<in> lru_items Q'" for a
  proof -
    have "a \<notin> insert it (free_items F)" using that p(4) cinv_free_not_linked [OF ct, of a] by auto
    then show ?thesis using s'(4) by blast
  qed
  have fl: "\<not> has_flag (it_flags (heap s' a)) ITEM_LINKED" if "a \<notin> lru_items Q'" for a
  proof (cases "a \<in> free_items (F(cid := it # F cid))")
    case True
    then show ?thesis using slabs_inv_free_item [OF s'(2)] by simp
  next
    case False
    then show ?thesis using s'(4) that cinv_linked [OF ct, of a] by (simp add: free_items_upd)
  qed
  note o = cinv_outside [OF ct s'(2,3) sm fl]
  have vt: "cache_view t = (cache_view s)(k := map_option (\<lambda>it. item_value (heap t it)) None)"
    unfolding k_def by (rule cache_view_upd [OF c t(3)]) (use t(4) other_item [OF c] in \<open>blast intro: item_value_strip\<close>)
  have g: "geom t = geom s" using do_item_unlink_geom [OF t(1)] ok by (simp add: linked_ok_def)
  have "geom s' = geom t" using s'(1) p(3) by (auto simp: do_slabs_free_def Let_def)
  then show ?thesis using t(1) s'(1) o vt g t(5) by (auto simp: slabs_free_def env_def)
qed

section \<open>The linked item of a page\<close>

definition mover_dead :: "'z lru_state_scheme \<Rightarrow> addr \<Rightarrow> bool" where
  "mover_dead s it \<longleftrightarrow> (exptime (heap s it) \<noteq> 0 \<and> exptime (heap s it) < current_time s) \<or> item_is_flushed it s"

lemma found_chunk_cinv:
  assumes c: "cinv s F Q" and f: "found_chunk cid s F p s' G"
  shows "cinv s' G Q \<and> cache_view s' = cache_view s \<and> env s' = env s" "a \<in> lru_items Q \<Longrightarrow> heap s' a = heap s a"
proof -
  have sm: "heap s' a = heap s a" if "a \<in> lru_items Q" for a
    using f cinv_free_not_linked [OF c, of a] that by (auto simp: found_chunk_def)
  then show "a \<in> lru_items Q \<Longrightarrow> heap s' a = heap s a" .
  have s': "slabs_inv s' G" "slab_frame s s'" using f by (auto simp: found_chunk_def)
  have "\<not> has_flag (it_flags (heap s' a)) ITEM_LINKED" if "a \<notin> lru_items Q" for a
  proof -
    consider "a \<notin> free_items F" | "a \<in> free_items G" | "a \<in> free_items F" "a \<notin> free_items G" by blast
    then show ?thesis
    proof cases
      case 1
      then show ?thesis using f that cinv_linked [OF c, of a] by (simp add: found_chunk_def)
    next
      case 2
      then show ?thesis using slabs_inv_free_item [OF s'(1), of a] by simp
    next
      case 3
      have "a \<noteq> NULL" using 3 slabs_inv_free_item [of s F a] c by (auto simp: cinv_def)
      then show ?thesis using f 3 by (cases "a = p") (auto simp: found_chunk_def)
    qed
  qed
  from cinv_outside [OF c s' sm this] show "cinv s' G Q \<and> cache_view s' = cache_view s \<and> env s' = env s" by blast
qed

definition no_room :: "nat \<Rightarrow> 'z slab_state_scheme \<Rightarrow> (nat \<Rightarrow> addr list) \<Rightarrow> bool" where
  "no_room cid s F \<longleftrightarrow> (\<forall>a \<in> set (take (perslab (slabclass s cid)) (F cid)). in_page (slab_rebal s) a)"

lemma unlock_sub:
  fixes s :: "'z reb_state_scheme" and cid l :: nat and n :: u64
  assumes c: "cinv s F Q"
  defines "t \<equiv> sub_requested cid n (item_trylock_unlock l s)"
  shows "cinv t F Q" "cache_view t = cache_view s" "item_locks t = (item_locks s)(l := False)" "geom t = geom s" "heap t = heap s"
proof -
  let ?u = "item_trylock_unlock l s"
  have u: "cinv ?u F Q" "assoc_map ?u = assoc_map s"
    using cinv_same_heap [OF c, of ?u] by (simp_all add: core_def item_trylock_unlock_def)
  have h: "heap ?u = heap s" "heap t = heap s" by (simp_all add: item_trylock_unlock_def t_def sub_requested_def)
  have si: "slabs_inv t F" unfolding t_def by (rule sub_requested_inv) (use u in \<open>simp add: cinv_def\<close>)
  have fl: "\<not> has_flag (it_flags (heap t a)) ITEM_LINKED" if "a \<notin> lru_items Q" for a using that cinv_linked [OF c, of a] h by simp
  have "cinv t F Q \<and> assoc_map t = assoc_map ?u \<and> env t = env ?u \<and> cache_view t = cache_view ?u"
    by (rule cinv_outside [OF u(1) si _ _ fl]) (simp_all add: t_def h sub_requested_def)
  moreover have "cache_view ?u = cache_view s" by (rule cache_view_same [OF c u(2)]) (simp add: h)
  ultimately show "cinv t F Q" "cache_view t = cache_view s" by auto
  show "item_locks t = (item_locks s)(l := False)" by (simp add: t_def sub_requested_def upd_class_def item_trylock_unlock_def)
  show "geom t = geom s" by (simp add: t_def)
  show "heap t = heap s" by (rule h)
qed

text \<open>The outcome for the linked item \<open>it\<close>: moved, or dropped for one of two reasons.\<close>

definition moved_or_dropped :: "nat \<Rightarrow> 'z reb_state_scheme \<Rightarrow> (nat \<Rightarrow> addr list) \<Rightarrow> addr \<Rightarrow> nat \<Rightarrow> 'z reb_state_scheme \<Rightarrow> bool" where
  "moved_or_dropped cid s F it busy s' \<longleftrightarrow>
     (let k = item_key (heap s it)
      in if busy = 0 then it_flags (heap s' it) = MOVED_FLAGS \<and>
            (\<exists>v. cache_view s' = (cache_view s)(k \<mapsto> v) \<and> payload v = payload (item_value (heap s it)))
         else cache_view s' = (cache_view s)(k := None) \<and> (mover_dead s it \<or> no_room cid s F))"

lemma from_lru_correct:
  fixes s :: "'z reb_state_scheme"
  assumes c: "cinv s F Q" and it: "it \<in> lru_items Q" and rc: "refcount (heap s it) = 2"
    and v: "1 \<le> cid" "cid \<le> power_largest s" "nat (s_clsid (slab_rebal s)) = cid"
    and sz: "unat (ITEM_ntotal (heap s it)) \<le> sc_size (slabclass s cid)"
  shows "\<exists>busy s' F' Q'. rebalance_from_lru cid it NULL l s = Some (busy, s') \<and> cinv s' F' Q' \<and>
    item_locks s' = (item_locks s)(l := False) \<and> slab_pos (slab_rebal s') = slab_pos (slab_rebal s) \<and>
    snd (geom s') = snd (geom s) \<and> moved_or_dropped cid s F it busy s'"
proof -
  let ?k = "item_key (heap s it)" and ?n = "ITEM_ntotal (heap s it)"
  have ok: "linked_ok s it" using c it by (auto simp: cinv_def)
  then have nc: "\<not> has_flag (it_flags (heap s it)) ITEM_CHUNKED" by (simp add: linked_ok_def)
  obtain p t G where al: "rebalance_target cid it NULL ?n s = Some (p, t)"
    and t: "cinv t G Q" "cache_view t = cache_view s" "item_locks t = item_locks s" "heap t it = heap s it" "hash t = hash s"
      "power_largest t = power_largest s" "s_clsid (slab_rebal t) = s_clsid (slab_rebal s)" "slab_pos (slab_rebal t) = slab_pos (slab_rebal s)"
      "snd (geom t) = snd (geom s)"
    and p: "p \<noteq> NULL \<longrightarrow> p \<notin> free_items G \<and> p \<notin> lru_items Q \<and> it_flags (heap t p) = 0"
      "p = NULL \<longrightarrow> mover_dead s it \<or> no_room cid s F"
  proof (cases "mover_dead s it")
    case True
    then show ?thesis using that [of NULL s F] c by (simp add: rebalance_target_def mover_dead_def)
  next
    case False
    have si: "slabs_inv s F" using c by (simp add: cinv_def)
    obtain q u G where q: "rebalance_alloc_loop (perslab (slabclass s cid)) (unat ?n) cid s = Some (q, u)" "found_chunk cid s F q u G"
      "q = NULL \<longrightarrow> (\<forall>a \<in> set (take (perslab (slabclass s cid)) (F cid)). in_page (slab_rebal s) a)"
      using rebalance_alloc_loop_correct [OF si v(1,2) sz v(3), of "perslab (slabclass s cid)"] by blast
    note fc = found_chunk_cinv [OF c q(2)]
    have u: "cinv u G Q" "cache_view u = cache_view s" "env u = env s" "heap u it = heap s it" using fc it by auto
    have r: "\<exists>n. slab_rebal u = (slab_rebal s)\<lparr>inline_reclaim := n\<rparr>" "snd (geom u) = snd (geom s)" using q(2) by (auto simp: found_chunk_def)
    let ?t = "if q = NULL then upd_rebal (\<lambda>r. r\<lparr>evictions_nomem := evictions_nomem r + 1\<rparr>) u else u"
    have al: "slab_rebalance_alloc (unat ?n) (nat (s_clsid (slab_rebal s))) s = Some (q, u)" using q(1) v(3) by (simp add: slab_rebalance_alloc_def)
    have qf: "q \<noteq> NULL \<longrightarrow> q \<notin> free_items G \<and> q \<notin> lru_items Q \<and> it_flags (heap u q) = 0"
      using q(2) cinv_free_not_linked [OF c, of q] free_itemsI [of q F cid] by (auto simp: found_chunk_def)
    show ?thesis
    proof (rule that [of q ?t G])
      show "rebalance_target cid it NULL ?n s = Some (q, ?t)" using False al by (auto simp: rebalance_target_def mover_dead_def)
    qed (use u r qf q(3) env_fields [OF u(3)] in \<open>auto simp: no_room_def geom_rebal\<close>)
  qed
  have it': "refcount (heap t it) = 2" using rc t by simp
  show ?thesis
  proof (cases "p = NULL")
    case False
    then have q: "p \<notin> free_items G" "p \<notin> lru_items Q" "it_flags (heap t p) = 0" using p by auto
    obtain w Q' where w: "rescue_item it p (hash s ?k) t = Some w" "cinv w G Q'" "it_flags (heap w it) = MOVED_FLAGS"
      "\<exists>v. cache_view w = (cache_view t)(?k \<mapsto> v) \<and> payload v = payload (item_value (heap t it))"
      "item_locks w = item_locks t" "geom w = ((slab_rebal t)\<lparr>rescues := rescues (slab_rebal t) + 1\<rparr>, snd (geom t))"
      using rescue_item_correct [OF t(1) it it' q(1) False q(2,3), unfolded t(4,5)] unfolding t(4) by blast
    note z = unlock_sub [OF w(2), where cid = cid and n = "ucast (ucast ?n :: u32)" and l = l]
    let ?z = "sub_requested cid (ucast (ucast ?n :: u32)) (item_trylock_unlock l w)"
    have ev: "rebalance_from_lru cid it NULL l s = Some (0, ?z)"
      using al w(1) False nc by (simp add: rebalance_from_lru_def Let_def)
    have g: "slab_pos (slab_rebal ?z) = slab_pos (slab_rebal s)" "snd (geom ?z) = snd (geom s)"
      using z(4) w(6) t(8,9) by (auto simp: geom_def)
    have "moved_or_dropped cid s F it 0 ?z" using w(3,4) z(2,5) t(2,4) by (auto simp: moved_or_dropped_def)
    then show ?thesis using ev z(1,3) w(5) t(3) g by auto
  next
    case True
    have vt: "cid \<le> power_largest t" using v t by simp
    obtain w x Q' where w: "do_item_unlink it (hash s ?k) t = Some w" "slabs_free it ?n cid w = Some x" "cinv x (G(cid := it # G cid)) Q'"
      "cache_view x = (cache_view t)(?k := None)" "item_locks x = item_locks t" "geom x = geom t" "geom w = geom t"
      using drop_item_correct [OF t(1) it it' v(1) vt, of ?n, unfolded t(4,5)] by blast
    let ?x = "upd_rebal (\<lambda>r. r\<lparr>busy_items := busy_items r + 1\<rparr>) x"
    have cx: "cinv ?x (G(cid := it # G cid)) Q'" using w(3) by simp
    note z = unlock_sub [OF cx, where cid = cid and n = 0 and l = l]
    let ?z = "sub_requested cid 0 (item_trylock_unlock l ?x)"
    have cl: "s_clsid (slab_rebal w) = s_clsid (slab_rebal s)" using w(7) t(7) by (simp add: geom_def)
    have ev: "rebalance_from_lru cid it NULL l s = Some (1, ?z)"
      using al w(1,2) True nc cl v(3) t(4) by (simp add: rebalance_from_lru_def Let_def)
    have g: "slab_pos (slab_rebal ?z) = slab_pos (slab_rebal s)" "snd (geom ?z) = snd (geom s)"
      using z(4) w(6) t(8,9) by (auto simp: geom_def)
    have "moved_or_dropped cid s F it 1 ?z" using w(4) z(2) t(2) p(2) True by (auto simp: moved_or_dropped_def)
    then show ?thesis using ev z(1,3) w(5) t(3) g by (intro exI [of _ 1] exI [of _ ?z]) auto
  qed
qed

section \<open>One chunk of the page\<close>

text \<open>
  What the mover relies on: it works on class \<open>cid\<close>, and the chunk at its position is a plain chunk
  of the class that is cleared, on the free list, linked, or in some thread's hands.
\<close>

definition mover_ready :: "nat \<Rightarrow> 'z reb_state_scheme \<Rightarrow> (nat \<Rightarrow> addr list) \<Rightarrow> (u8 \<Rightarrow> addr list) \<Rightarrow> bool" where
  "mover_ready cid s F Q \<longleftrightarrow> cinv s F Q \<and> 1 \<le> cid \<and> cid \<le> power_largest s \<and> nat (s_clsid (slab_rebal s)) = cid \<and>
     (let pos = slab_pos (slab_rebal s); i = heap s pos
      in \<not> has_flag (it_flags i) ITEM_CHUNK \<and>
         (has_flag (it_flags i) ITEM_SLABBED \<longrightarrow> it_flags i = MOVED_FLAGS \<or> pos \<in> set (F cid)) \<and>
         (has_flag (it_flags i) ITEM_LINKED \<longrightarrow> unat (ITEM_ntotal i) \<le> sc_size (slabclass s cid) \<and> refcount i \<noteq> - 1))"

text \<open>
  The outcome of one round. Not busy: the chunk is cleared, and the value it held, if any, is
  still in the cache. Busy: the round comes back to it; the only value that can be gone is the
  one in the chunk, and then it was expired or flushed, or no chunk outside the page was found for
  it, or the mover has gone over the page more than a thousand times.
\<close>

definition chunk_done :: "nat \<Rightarrow> 'z reb_state_scheme \<Rightarrow> (nat \<Rightarrow> addr list) \<Rightarrow> nat \<Rightarrow> 'z reb_state_scheme \<Rightarrow> bool" where
  "chunk_done cid s F busy s' \<longleftrightarrow>
     (let pos = slab_pos (slab_rebal s); k = item_key (heap s pos)
      in (busy = 0 \<longrightarrow> it_flags (heap s' pos) = MOVED_FLAGS) \<and>
         (cache_view s' = cache_view s \<or>
          has_flag (it_flags (heap s pos)) ITEM_LINKED \<and>
          (if busy = 0 then (\<exists>v. cache_view s' = (cache_view s)(k \<mapsto> v) \<and> payload v = payload (item_value (heap s pos)))
           else cache_view s' = (cache_view s)(k := None) \<and>
             (mover_dead s pos \<or> no_room cid s F \<or> SLAB_MOVE_MAX_LOOPS < busy_loops (slab_rebal s)))))"

lemma chunk_done_rebal [simp]: "chunk_done cid s F busy (upd_rebal f t) = chunk_done cid s F busy t"
  by (simp add: chunk_done_def)

definition round_ok :: "nat \<Rightarrow> 'z reb_state_scheme \<Rightarrow> (nat \<Rightarrow> addr list) \<Rightarrow> (nat \<times> 'z reb_state_scheme) option \<Rightarrow> bool" where
  "round_ok cid s F r \<longleftrightarrow> (\<exists>busy s' F' Q'. r = Some (busy, s') \<and> cinv s' F' Q' \<and> item_locks s' = item_locks s \<and>
     slab_pos (slab_rebal s') = slab_pos (slab_rebal s) \<and> snd (geom s') = snd (geom s) \<and> chunk_done cid s F busy s')"

lemma round_okI:
  "r = Some (busy, s') \<Longrightarrow> cinv s' F' Q' \<Longrightarrow> item_locks s' = item_locks s \<Longrightarrow>
   slab_pos (slab_rebal s') = slab_pos (slab_rebal s) \<Longrightarrow> snd (geom s') = snd (geom s) \<Longrightarrow> chunk_done cid s F busy s' \<Longrightarrow> round_ok cid s F r"
  by (auto simp: round_ok_def)

lemma busy_round:
  assumes "cinv s F Q"
  shows "round_ok cid s F (Some (1, upd_rebal (\<lambda>r. r\<lparr>busy_items := busy_items r + 1\<rparr>) s))"
  by (rule round_okI [OF refl, of _ F Q]) (use assms in \<open>auto simp: chunk_done_def geom_rebal Let_def\<close>)

lemma free_round:
  assumes m: "mover_ready cid s F Q" and f: "slab_pos (slab_rebal s) \<in> set (F cid)"
  shows "round_ok cid s F (do {
    (st, l, t) \<leftarrow> rebalance_examine cid (slab_pos (slab_rebal s)) NULL s; c_assert (st = MOVE_FROM_SLAB); Some (0, mark_moved (slab_pos (slab_rebal s)) t) })"
proof -
  let ?p = "slab_pos (slab_rebal s)" and ?G = "F(cid := remove1 (slab_pos (slab_rebal s)) (F cid))"
  have c: "cinv s F Q" and si: "slabs_inv s F" using m by (auto simp: mover_ready_def cinv_def)
  have pf: "?p \<in> free_items F" "it_flags (heap s ?p) = ITEM_SLABBED" using free_itemsI [of ?p F cid] slabs_inv_item [OF si f] f by auto
  obtain t where t: "slab_rebalance_cut_free cid ?p s = Some t" "slabs_inv t ?G" "slab_frame s t" "geom t = geom s"
    "heap t ?p = heap s ?p" "\<forall>a. a \<notin> free_items F \<longrightarrow> heap t a = heap s a"
    using cut_free_correct [OF si f] by blast
  have np: "?p \<notin> free_items ?G" using free_items_remove1 [OF si f] by simp
  let ?u = "mark_moved ?p t"
  have su: "slabs_inv ?u ?G" by (rule slabs_inv_cong [OF t(2)]) (use np in auto)
  have fr: "slab_frame s ?u" using t(3) mark_moved_fields(2) slab_frame_trans by blast
  have lq: "a \<notin> free_items F" if "a \<in> lru_items Q" for a using that cinv_free_not_linked [OF c, of a] by auto
  have sm: "heap ?u a = heap s a" if "a \<in> lru_items Q" for a using t(6) lq [OF that] pf(1) by auto
  have fl: "\<not> has_flag (it_flags (heap ?u a)) ITEM_LINKED" if "a \<notin> lru_items Q" for a
  proof (cases "a \<in> free_items ?G")
    case True
    then show ?thesis using slabs_inv_free_item [OF su] by simp
  next
    case False
    then have "a = ?p \<or> a \<notin> free_items F" using free_items_remove1 [OF si f] by blast
    then show ?thesis using t(6) that cinv_linked [OF c, of a] by auto
  qed
  note o = cinv_outside [OF c su fr sm fl]
  have ne: "ITEM_SLABBED \<noteq> MOVED_FLAGS" by (simp add: item_flag_defs)
  have ev: "rebalance_examine cid ?p NULL s = Some (MOVE_FROM_SLAB, 0, t)" using pf(2) t(1) ne by (simp add: rebalance_examine_def)
  have tp: "slab_pos (slab_rebal t) = ?p" "slab_rebal ?u = slab_rebal s" using t(4) by (auto simp: geom_def)
  show ?thesis
    by (rule round_okI [of _ 0 ?u ?G Q]) (use o ev tp t(4) fr in \<open>auto simp: chunk_done_def Let_def slab_frame_def\<close>)
qed

text \<open>The linked item with its lock taken and a reference added.\<close>

definition held :: "nat \<Rightarrow> addr \<Rightarrow> 'z base_state_scheme \<Rightarrow> 'z base_state_scheme" where
  "held l it s = upd_item it (\<lambda>i. i\<lparr>refcount := refcount i + 1\<rparr>) (s\<lparr>item_locks := (item_locks s)(l := True)\<rparr>)"

lemma held_fields [simp]:
  fixes s :: "'z reb_state_scheme"
  shows "slab_rebal (held l it s) = slab_rebal s" "slabclass (held l it s) = slabclass s" "power_largest (held l it s) = power_largest s"
    "heap (held l it s) = (heap s)(it := (heap s it)\<lparr>refcount := refcount (heap s it) + 1\<rparr>)" "hash (held l it s) = hash s"
    "item_locks (held l it s) = (item_locks s)(l := True)" "geom (held l it s) = geom s"
  by (simp_all add: held_def)

lemma held_correct:
  fixes s :: "'z reb_state_scheme"
  assumes c: "cinv s F Q" and it: "it \<in> lru_items Q" and r: "refcount (heap s it) \<noteq> - 1"
  shows "cinv (held l it s) F Q" "cache_view (held l it s) = cache_view s" "1 < refcount (heap (held l it s) it)"
    "mover_dead (held l it s) it = mover_dead s it"
proof -
  let ?s = "s\<lparr>item_locks := (item_locks s)(l := True)\<rparr>"
  have c': "cinv ?s F Q" "assoc_map ?s = assoc_map s" using cinv_same_heap [OF c, of ?s] by (simp_all add: core_def)
  have r': "refcount (heap ?s it) \<noteq> - 1" using r by simp
  note t = refcount_inc [OF c'(1) it r', folded held_def]
  show "cinv (held l it s) F Q" "1 < refcount (heap (held l it s) it)" using t(1,3) by (auto simp: held_def)
  show "cache_view (held l it s) = cache_view s"
    by (rule cache_view_same [OF c]) (use t(2) c'(2) in \<open>auto simp: held_def\<close>)
  have "item_is_flushed it ?s = item_is_flushed it s" by (rule item_is_flushed_cong) simp_all
  then show "mover_dead (held l it s) it = mover_dead s it" using t(4) by (simp add: mover_dead_def held_def)
qed

lemma release_locked:
  assumes "\<not> item_locks s l"
  shows "item_trylock_unlock l (upd_item it (\<lambda>i. i\<lparr>refcount := refcount i - 1\<rparr>) (held l it s)) = s"
proof -
  have h: "(heap s)(it := (heap s it)\<lparr>refcount := refcount (heap s it) + 1 - 1\<rparr>) = heap s" by simp
  have l: "(item_locks s)(l := False) = item_locks s" using assms by (simp add: fun_upd_idem)
  show ?thesis by (cases s) (use h l in \<open>simp add: item_trylock_unlock_def upd_item_def held_def\<close>)
qed

lemma busy_delete:
  fixes s :: "'z reb_state_scheme"
  assumes c: "cinv s F Q" and it: "it \<in> lru_items Q" and r: "2 < refcount (heap s it)" and k: "k = item_key (heap s it)"
  shows "\<exists>t Q'. do_item_unlink it (hash s k) s = Some t \<and>
    (let u = item_trylock_unlock l (upd_item it (\<lambda>i. i\<lparr>refcount := refcount i - 1\<rparr>) t)
     in cinv u F Q' \<and> cache_view u = (cache_view s)(k := None) \<and> item_locks u = (item_locks s)(l := False) \<and> geom u = geom s)"
proof -
  have r1: "refcount (heap s it) \<noteq> 1" using r by auto
  obtain t Q' where t: "do_item_unlink it (hash s k) s = Some t" "cinv t (freed s it F) Q'"
    "assoc_map t = (assoc_map s)(item_key (heap s it) := None)"
    "\<forall>a. a \<noteq> it \<longrightarrow> a \<notin> free_items F \<longrightarrow> strip (heap t a) = strip (heap s a)" "env t = env s"
    "refcount (heap s it) \<noteq> 1 \<longrightarrow> private_item t F it"
    using do_item_unlink_correct [OF c it refl] unfolding k by blast
  have ct: "cinv t F Q'" using t(2) r1 by (simp add: freed_def)
  have p: "it \<notin> free_items F" "it \<notin> lru_items Q'" using t(6) r1 cinv_linked [OF ct, of it] by (auto simp: private_item_def)
  let ?v = "upd_item it (\<lambda>i. i\<lparr>refcount := refcount i - 1\<rparr>) t"
  let ?u = "item_trylock_unlock l ?v"
  have v: "cinv ?v F Q'" "assoc_map ?v = assoc_map t"
    using cinv_upd_item [OF ct _ p(1), of "\<lambda>i. i\<lparr>refcount := refcount i - 1\<rparr>"] p(2) by (auto simp: item_same_def same_key_def)
  have u: "cinv ?u F Q'" "assoc_map ?u = assoc_map ?v"
    using cinv_same_heap [OF v(1), of ?u] by (simp_all add: core_def item_trylock_unlock_def)
  have vt: "cache_view t = (cache_view s)(k := map_option (\<lambda>it. item_value (heap t it)) None)"
    unfolding k by (rule cache_view_upd [OF c t(3)]) (use t(4) other_item [OF c] in \<open>blast intro: item_value_strip\<close>)
  have vu: "cache_view ?u = cache_view t"
    by (rule cache_view_same [OF ct]) (use u v in \<open>auto simp: item_trylock_unlock_def\<close>)
  have "\<not> has_flag (it_flags (heap s it)) ITEM_CHUNKED" using c it by (auto simp: cinv_def linked_ok_def)
  then have "geom t = geom s" by (rule do_item_unlink_geom [OF t(1)])
  then show ?thesis using t(1) u(1) vt vu env_fields(4) [OF t(5)]
    by (intro exI [of _ t] exI [of _ Q']) (simp add: Let_def item_trylock_unlock_def)
qed

text \<open>The part of a round that deals with a linked item.\<close>

definition linked_round :: "nat \<Rightarrow> addr \<Rightarrow> 'z reb_state_scheme \<Rightarrow> (nat \<times> 'z reb_state_scheme) option" where
  "linked_round cid it s = do {
     (status, l, s) \<leftarrow> rebalance_lock_item it s;
     (if status = MOVE_FROM_LRU then rebalance_from_lru cid it NULL l s
      else Some (1, upd_rebal (\<lambda>r. r\<lparr>busy_items := busy_items r + 1\<rparr>) s))
   }"

lemma ref_cases: "1 < r \<Longrightarrow> r = 2 \<or> 2 < r" for r :: u16
  by unat_arith

lemma linked_round_correct:
  fixes s :: "'z reb_state_scheme"
  assumes m: "mover_ready cid s F Q" and lk: "has_flag (it_flags (heap s (slab_pos (slab_rebal s)))) ITEM_LINKED"
  shows "round_ok cid s F (linked_round cid (slab_pos (slab_rebal s)) s)"
proof -
  let ?p = "slab_pos (slab_rebal s)" and ?k = "item_key (heap s (slab_pos (slab_rebal s)))"
  let ?l = "hv_bucket (hash s ?k) (item_lock_hashpower s)" let ?t = "held ?l ?p s"
  have c: "cinv s F Q" and v: "1 \<le> cid" "cid \<le> power_largest s" "nat (s_clsid (slab_rebal s)) = cid"
    and sz: "unat (ITEM_ntotal (heap s ?p)) \<le> sc_size (slabclass s cid)" and r: "refcount (heap s ?p) \<noteq> - 1"
    using m lk by (auto simp: mover_ready_def Let_def)
  have it: "?p \<in> lru_items Q" using lk cinv_linked [OF c] by blast
  note t = held_correct [OF c it r, of ?l]
  have kt: "item_key (heap ?t ?p) = ?k" by (simp add: item_key_def)
  show ?thesis
  proof (cases "item_locks s ?l")
    case True
    then have "linked_round cid ?p s = Some (1, upd_rebal (\<lambda>r. r\<lparr>busy_items := busy_items r + 1\<rparr>) s)"
      by (simp add: linked_round_def rebalance_lock_item_def item_trylock_def Let_def)
    then show ?thesis using busy_round [OF c, of cid] by simp
  next
    case free: False
    then have il: "(item_locks s)(?l := False) = item_locks s" by (simp add: fun_upd_idem)
    have tl: "item_trylock (hash s ?k) s = Some (?l, s\<lparr>item_locks := (item_locks s)(?l := True)\<rparr>)"
      using free by (simp add: item_trylock_def Let_def)
    consider (two) "refcount (heap ?t ?p) = 2" | (kept) "2 < refcount (heap ?t ?p)" "\<not> SLAB_MOVE_MAX_LOOPS < busy_loops (slab_rebal s)"
      | (gone) "2 < refcount (heap ?t ?p)" "SLAB_MOVE_MAX_LOOPS < busy_loops (slab_rebal s)"
    proof -
      have "refcount (heap ?t ?p) = 2 \<or> 2 < refcount (heap ?t ?p)" using t(3) by (rule ref_cases)
      then show ?thesis using that by blast
    qed
    then show ?thesis
    proof cases
      case two
      have ev: "linked_round cid ?p s = rebalance_from_lru cid ?p NULL ?l ?t"
        using two lk by (simp add: linked_round_def rebalance_lock_item_def tl Let_def held_def)
      have ps: "cid \<le> power_largest ?t" "nat (s_clsid (slab_rebal ?t)) = cid" "unat (ITEM_ntotal (heap ?t ?p)) \<le> sc_size (slabclass ?t cid)"
        using v sz by simp_all
      obtain busy u G Q' where u: "rebalance_from_lru cid ?p NULL ?l ?t = Some (busy, u)" "cinv u G Q'"
        "item_locks u = (item_locks ?t)(?l := False)" "slab_pos (slab_rebal u) = slab_pos (slab_rebal ?t)"
        "snd (geom u) = snd (geom ?t)" "moved_or_dropped cid ?t F ?p busy u"
        using from_lru_correct [OF t(1) it two v(1) ps] by blast
      have nr: "no_room cid ?t F = no_room cid s F" by (simp add: no_room_def)
      have iv: "item_value (heap ?t ?p) = item_value (heap s ?p)" by simp
      have "chunk_done cid s F busy u"
        using u(6) lk unfolding moved_or_dropped_def kt t(2,4) nr iv by (auto simp: chunk_done_def Let_def split: if_splits)
      then show ?thesis using u il ev by (intro round_okI [of _ busy u G Q']) simp_all
    next
      case kept
      have "linked_round cid ?p s = Some (1, upd_rebal (\<lambda>r. r\<lparr>busy_items := busy_items r + 1\<rparr>) s)"
        using kept lk release_locked [OF free, of ?p] by (auto simp: linked_round_def rebalance_lock_item_def tl Let_def held_def)
      then show ?thesis using busy_round [OF c, of cid] by simp
    next
      case gone
      let ?g = "upd_rebal (\<lambda>r. r\<lparr>busy_deletes := busy_deletes r + 1\<rparr>) ?t"
      have cg: "cinv ?g F Q" and rg: "2 < refcount (heap ?g ?p)" and kg: "?k = item_key (heap ?g ?p)" using t(1) gone kt by simp_all
      obtain w Q' where w: "do_item_unlink ?p (hash s ?k) ?g = Some w"
        "cinv (item_trylock_unlock ?l (upd_item ?p (\<lambda>i. i\<lparr>refcount := refcount i - 1\<rparr>) w)) F Q'"
        "cache_view (item_trylock_unlock ?l (upd_item ?p (\<lambda>i. i\<lparr>refcount := refcount i - 1\<rparr>) w)) = (cache_view ?g)(?k := None)"
        "item_locks (item_trylock_unlock ?l (upd_item ?p (\<lambda>i. i\<lparr>refcount := refcount i - 1\<rparr>) w)) = (item_locks ?g)(?l := False)"
        "geom (item_trylock_unlock ?l (upd_item ?p (\<lambda>i. i\<lparr>refcount := refcount i - 1\<rparr>) w)) = geom ?g"
        using busy_delete [OF cg it rg kg, of ?l] by (auto simp: Let_def)
      let ?w = "item_trylock_unlock ?l (upd_item ?p (\<lambda>i. i\<lparr>refcount := refcount i - 1\<rparr>) w)"
      let ?z = "upd_rebal (\<lambda>r. r\<lparr>busy_items := busy_items r + 1\<rparr>) ?w"
      have ev: "linked_round cid ?p s = Some (1, ?z)"
        using gone lk w(1) by (auto simp: linked_round_def rebalance_lock_item_def tl Let_def held_def)
      have g: "slab_pos (slab_rebal ?w) = ?p" "snd (geom ?z) = snd (geom s)" using w(5) by (auto simp: geom_def upd_rebal_def)
      have "chunk_done cid s F 1 ?z" using w(3) t(2) lk gone(2) by (simp add: chunk_done_def Let_def)
      then show ?thesis using ev w(2,4) g il by (intro round_okI [of _ 1 ?z F Q']) simp_all
    qed
  qed
qed

lemma rebalance_round:
  assumes "mover_ready cid s F Q"
  shows "\<exists>busy s' F' Q'. rebalance_chunk cid s = Some (busy, s') \<and> cinv s' F' Q' \<and> item_locks s' = item_locks s \<and>
    slab_pos (slab_rebal s') = slab_pos (slab_rebal s) + sc_size (slabclass s cid) \<and> chunk_done cid s F busy s'"
proof -
  let ?p = "slab_pos (slab_rebal s)"
  let ?f = "it_flags (heap s ?p)"
  have c: "cinv s F Q" and nc: "\<not> has_flag ?f ITEM_CHUNK" and sl: "has_flag ?f ITEM_SLABBED \<Longrightarrow> ?f = MOVED_FLAGS \<or> ?p \<in> set (F cid)"
    using assms by (auto simp: mover_ready_def Let_def)
  obtain r where r: "round_ok cid s F r"
    "rebalance_chunk cid s = do { (busy, s) \<leftarrow> r; Some (busy, upd_rebal (\<lambda>r. r\<lparr>slab_pos := slab_pos r + sc_size (slabclass s cid)\<rparr>) s) }"
  proof -
    consider (moved) "?f = MOVED_FLAGS" | (free) "?p \<in> set (F cid)" | (linked) "\<not> has_flag ?f ITEM_SLABBED" "has_flag ?f ITEM_LINKED"
      | (other) "\<not> has_flag ?f ITEM_SLABBED" "\<not> has_flag ?f ITEM_LINKED" using sl by blast
    then show ?thesis
    proof cases
      case moved
      have "round_ok cid s F (Some (0, s))" by (rule round_okI [OF refl c]) (simp_all add: chunk_done_def moved Let_def)
      then show ?thesis by (rule that) (use nc moved in \<open>simp add: rebalance_chunk_def rebalance_examine_def\<close>)
    next
      case free
      have "it_flags (heap s ?p) = ITEM_SLABBED" using slabs_inv_item [of s F ?p cid] c free by (auto simp: cinv_def)
      then have "it_flags (heap s ?p) \<noteq> MOVED_FLAGS" "has_flag (it_flags (heap s ?p)) ITEM_SLABBED" by (simp_all add: item_flag_defs has_flag_def)
      then show ?thesis
        by (intro that [OF free_round [OF assms free]])
          (use nc in \<open>auto simp: rebalance_chunk_def rebalance_examine_def Let_def split: Option.bind_splits\<close>)
    next
      case linked
      then have "?f \<noteq> MOVED_FLAGS" by auto
      then show ?thesis
        by (intro that [OF linked_round_correct [OF assms linked(2)]])
          (use nc linked in \<open>auto simp: rebalance_chunk_def rebalance_examine_def linked_round_def rebalance_lock_item_def Let_def split: Option.bind_splits option.splits move_status.splits\<close>)
    next
      case other
      then have "?f \<noteq> MOVED_FLAGS" by auto
      then show ?thesis
        by (intro that [OF busy_round [OF c]]) (use nc other in \<open>simp add: rebalance_chunk_def rebalance_examine_def Let_def\<close>)
    qed
  qed
  obtain busy t G Q' where t: "r = Some (busy, t)" "cinv t G Q'" "item_locks t = item_locks s" "slab_pos (slab_rebal t) = ?p"
    "snd (geom t) = snd (geom s)" "chunk_done cid s F busy t" using r(1) by (auto simp: round_ok_def)
  have sz: "sc_size (slabclass t cid) = sc_size (slabclass s cid)" using t(5) by (auto simp: geom_def fun_eq_iff)
  show ?thesis using r(2) t sz
    by (intro exI [of _ busy] exI [of _ "upd_rebal (\<lambda>r. r\<lparr>slab_pos := slab_pos r + sc_size (slabclass t cid)\<rparr>) t"] exI [of _ G] exI [of _ Q'])
      simp
qed


text \<open>A cache of one class with item 100 (key 6) in hand, the free chunk 400, and the mover at 100.\<close>

definition ex_reb :: reb_state where
  "ex_reb = lru_state.extend (ex_cache\<lparr>
       heap := (heap ex_cache)(100 := (heap ex_cache 100)\<lparr>refcount := 0\<rparr>, 400 := zero_item\<lparr>it_flags := ITEM_SLABBED\<rparr>),
       slabclass := (slabclass ex_cache)(1 := (slabclass ex_cache 1)\<lparr>slots := 400, sl_curr := 1\<rparr>),
       slab_rebal := (slab_rebal ex_cache)\<lparr>slab_start := 100, slab_end := 196, slab_pos := 100, s_clsid := 1, d_clsid := 2\<rparr>\<rparr>)
     (reb_state.fields 1 False 0 0 0 0 0 0 0 [])"

lemmas ex_reb_defs = ex_reb_def lru_state.defs reb_state.defs ex_cache_defs

lemma ex_reb_cinv: "cinv ex_reb ((\<lambda>_. [])(1 := [400])) (\<lambda>_. [])"
proof -
  have "unat (hashsize 1) = 2" by (subst unat_hashsize) simp_all
  then have "assoc_init 1 True ex_reb = Some ex_reb" by (simp add: assoc_init_def ex_reb_defs numeral_2_eq_2)
  from assoc_init_sys [OF this] have a: "assoc_inv ex_reb \<and> assoc_map ex_reb = Map.empty"
    by (simp add: assoc_sys_def) (simp add: ex_reb_defs)
  have "slabs_inv ex_reb ((\<lambda>_. [])(1 := [400]))"
    by (auto simp: slabs_inv_def free_ok_def dll_def ex_reb_defs empty_class_def zero_item_def)
  with a show ?thesis
    by (simp add: cinv_def lru_inv_def lru_ok_def dll_def lru_items_def assoc_items_def)
      (simp add: ex_reb_defs ex_cache_item_def zero_item_def)
qed

lemma ex_reb_linked:
  "\<exists>s Q. do_item_link 100 6 ex_reb = Some s \<and> mover_ready 1 s ((\<lambda>_. [])(1 := [400])) Q \<and> geom s = geom ex_reb \<and>
     env s = env (ex_reb\<lparr>cas_id := cas_id s\<rparr>) \<and> i_time (heap s 100) = 100 \<and> exptime (heap s 100) = 0"
proof -
  let ?F = "(\<lambda>_. [])(1 := [400 :: addr])"
  have hk: "item_key (heap ex_reb 100) = [6]" "6 = hash ex_reb [6]" by (simp_all add: item_key_def ex_reb_defs ex_cache_item_def)
  have fi: "free_items ?F = {400}" by (auto simp: free_items_def split: if_splits)
  have l: "linkable ex_reb ?F 100"
    unfolding linkable_def fi by (simp add: ex_reb_defs ex_cache_item_def zero_item_def key_wf_def valid_cls_def ITEM_clsid_def CLEAR_LRU_def)
  have "assoc_items ex_reb = {}" using ex_reb_cinv by (simp add: cinv_def lru_items_def)
  then have fr: "assoc_map ex_reb (item_key (heap ex_reb 100)) = None" by (auto simp: assoc_items_def ran_def) (metis option.exhaust)
  have hv: "6 = hash ex_reb (item_key (heap ex_reb 100))" using hk by simp
  obtain s Q where s: "do_item_link 100 6 ex_reb = Some s" "cinv s ?F Q"
    "strip (heap s 100) = strip ((linked_item 100 ex_reb)\<lparr>refcount := refcount (heap ex_reb 100) + 1\<rparr>)"
    "env s = env (ex_reb\<lparr>cas_id := cas_id s\<rparr>)"
    using do_item_link_correct [OF ex_reb_cinv l hv fr] by blast
  note f = strip_fields [OF s(3)]
  have g: "geom s = geom ex_reb" by (rule do_item_link_geom [OF s(1)])
  have i: "it_flags (heap s 100) = set_flag ITEM_CAS ITEM_LINKED" "refcount (heap s 100) = 1" "unat (ITEM_ntotal (heap s 100)) = 61"
    "i_time (heap s 100) = 100" "exptime (heap s 100) = 0"
  proof -
    have h: "heap ex_reb 100 = (ex_cache_item [6] [49, 13, 10] 0)\<lparr>refcount := 0\<rparr>" "current_time ex_reb = 100" by (simp_all add: ex_reb_defs)
    show "it_flags (heap s 100) = set_flag ITEM_CAS ITEM_LINKED" using f(2) by (simp add: h ex_cache_item_def)
    show "refcount (heap s 100) = 1" using f(1) by (simp add: h)
    have "ITEM_ntotal (heap s 100) = ITEM_ntotal (heap ex_reb 100)" using f(9) by simp
    moreover have "ITEM_ntotal (heap ex_reb 100) = 61" by (simp add: h ITEM_ntotal_def sizeof_item_def ex_cache_item_def zero_item_def)
    ultimately show "unat (ITEM_ntotal (heap s 100)) = 61" by simp
    show "i_time (heap s 100) = 100" using f(6) h(2) by simp
    show "exptime (heap s 100) = 0" using f(5) by (simp add: h ex_cache_item_def)
  qed
  have r: "slab_rebal s = slab_rebal ex_reb" "sc_size (slabclass s 1) = sc_size (slabclass ex_reb 1)"
    using g by (auto simp: geom_def fun_eq_iff)
  have "power_largest s = 2" using s(4) by (simp add: env_def) (simp add: ex_reb_defs)
  moreover have "slab_pos (slab_rebal s) = 100" "s_clsid (slab_rebal s) = 1" "sc_size (slabclass s 1) = 96"
    using r by (simp_all add: ex_reb_defs)
  moreover have "\<not> has_flag (set_flag ITEM_CAS ITEM_LINKED) ITEM_CHUNK" "\<not> has_flag (set_flag ITEM_CAS ITEM_LINKED) ITEM_SLABBED"
    by (simp_all add: has_flag_def set_flag_def item_flag_defs)
  ultimately have "mover_ready 1 s ?F Q" using s(2) i by (simp add: mover_ready_def Let_def)
  then show ?thesis using s(1,4) g i by blast
qed


section \<open>There is always room outside the page\<close>

definition room_outside :: "nat \<Rightarrow> 'z reb_state_scheme \<Rightarrow> (nat \<Rightarrow> addr list) \<Rightarrow> bool" where
  "room_outside cid s F \<longleftrightarrow>
     (let r = slab_rebal s; chunks = set (chunk_addrs (slab_start r) (sc_size (slabclass s cid)) (perslab (slabclass s cid)))
      in slab_pos r \<in> chunks \<and> slab_pos r \<notin> set (F cid) \<and> (\<forall>a \<in> set (F cid). in_page r a \<longrightarrow> a \<in> chunks) \<and>
         (\<exists>a \<in> set (F cid). \<not> in_page r a))"

lemma room_outside_found:
  assumes inv: "slabs_inv s F" "1 \<le> cid" "cid \<le> power_largest s" and r: "room_outside cid s F"
  shows "\<not> no_room cid s F"
proof
  let ?n = "perslab (slabclass s cid)" and ?r = "slab_rebal s"
  let ?C = "chunk_addrs (slab_start ?r) (sc_size (slabclass s cid)) ?n"
  assume all: "no_room cid s F"
  have d: "distinct (F cid)" using slabs_inv_free_ok [OF inv] by (auto simp: free_ok_def dll_def)
  have "set (take ?n (F cid)) \<subseteq> set ?C - {slab_pos ?r}"
    using all r by (auto simp: no_room_def room_outside_def Let_def dest: in_set_takeD)
  then have "card (set (take ?n (F cid))) \<le> card (set ?C - {slab_pos ?r})" by (intro card_mono) auto
  also have "\<dots> < card (set ?C)" using r by (intro psubset_card_mono) (auto simp: room_outside_def Let_def)
  also have "card (set ?C) \<le> ?n" using card_length [of ?C] by (simp add: chunk_addrs_def)
  finally have "length (take ?n (F cid)) < ?n" using d by (simp add: distinct_card)
  then have "take ?n (F cid) = F cid" by simp
  then show False using all r by (auto simp: no_room_def room_outside_def Let_def)
qed



section \<open>Handing the page over\<close>

text \<open>The pages of a class.\<close>

definition pages :: "nat \<Rightarrow> 'z slab_state_scheme \<Rightarrow> addr list" where
  "pages c s = take (slabs (slabclass s c)) (slab_list (slabclass s c))"

text \<open>
  A page that may be handed over: the first of its class, its class keeps another one, the lists
  have room for it, and neither a free nor a linked item lies in it.
\<close>

definition page_cleared :: "nat \<Rightarrow> nat \<Rightarrow> 'z reb_state_scheme \<Rightarrow> (nat \<Rightarrow> addr list) \<Rightarrow> (u8 \<Rightarrow> addr list) \<Rightarrow> bool" where
  "page_cleared src dst s F Q \<longleftrightarrow>
     (let p = slab_start (slab_rebal s); len = slab_page_size (settings s); d = slabclass s dst
      in s_clsid (slab_rebal s) = int src \<and> d_clsid (slab_rebal s) = int dst \<and> src \<noteq> dst \<and> src < 64 \<and>
         1 \<le> dst \<and> dst \<le> power_largest s \<and> p \<noteq> NULL \<and>
         2 \<le> slabs (slabclass s src) \<and> slabs (slabclass s src) \<le> length (slab_list (slabclass s src)) \<and>
         p = slab_list (slabclass s src) ! 0 \<and> slabs d < length (slab_list d) \<and>
         0 < sc_size d \<and> perslab d * sc_size d \<le> len \<and>
         (\<forall>a. p \<le> a \<and> a < p + len \<longrightarrow> a \<notin> free_items F \<and> a \<notin> lru_items Q))"

lemma shift_list: "n \<le> length xs \<Longrightarrow> 0 < n \<Longrightarrow> take (n - 1) (take (n - 1) (drop 1 xs) @ drop (n - 1) xs) = tl (take n xs)"
  by (cases xs; cases n) simp_all

lemma zero_page_cinv:
  fixes s :: "'z lru_state_scheme"
  assumes c: "cinv s F Q" and o: "\<forall>a. p \<le> a \<and> a < p + len \<longrightarrow> a \<notin> free_items F \<and> a \<notin> lru_items Q"
  shows "cinv (zero_page p len s) F Q" "cache_view (zero_page p len s) = cache_view s"
proof -
  let ?z = "zero_page p len s"
  have si: "slabs_inv ?z F" by (rule slabs_inv_cong [of s F]) (use c o in \<open>auto simp: cinv_def zero_page_def\<close>)
  have fr: "slab_frame s ?z" by (simp add: zero_page_def slab_frame_def)
  have sm: "heap ?z a = heap s a" if "a \<in> lru_items Q" for a using that o by (auto simp: zero_page_def)
  have fl: "\<not> has_flag (it_flags (heap ?z a)) ITEM_LINKED" if "a \<notin> lru_items Q" for a
    using that cinv_linked [OF c, of a] by (auto simp: zero_page_def zero_item_def)
  from cinv_outside [OF c si fr sm fl] show "cinv ?z F Q" "cache_view ?z = cache_view s" by auto
qed

lemma split_cinv:
  fixes s :: "'z lru_state_scheme"
  assumes c: "cinv s F Q" and v: "1 \<le> d" "d \<le> power_largest s" and sz: "0 < sc_size (slabclass s d)"
    and ch: "\<And>a. a \<in> set (chunk_addrs p (sc_size (slabclass s d)) (perslab (slabclass s d))) \<Longrightarrow>
      a \<noteq> NULL \<and> a \<notin> free_items F \<and> a \<notin> lru_items Q \<and> \<not> has_flag (it_flags (heap s a)) ITEM_CHUNKED"
  shows "\<exists>s'. split_slab_page_into_freelist p d s = Some s' \<and>
    cinv s' (F(d := rev (chunk_addrs p (sc_size (slabclass s d)) (perslab (slabclass s d))) @ F d)) Q \<and> cache_view s' = cache_view s \<and> slab_frame s s' \<and>
    (\<forall>c. slabs (slabclass s' c) = slabs (slabclass s c) \<and> slab_list (slabclass s' c) = slab_list (slabclass s c))"
proof -
  let ?C = "chunk_addrs p (sc_size (slabclass s d)) (perslab (slabclass s d))"
  have si: "slabs_inv s F" using c by (simp add: cinv_def)
  obtain s' where s': "split_slab_page_into_freelist p d s = Some s'" "slabs_inv s' (F(d := rev ?C @ F d))" "slab_frame s s'"
    "\<forall>a. a \<notin> set ?C \<union> free_items F \<longrightarrow> heap s' a = heap s a" "\<forall>c. c \<noteq> d \<longrightarrow> slabclass s' c = slabclass s c"
    "slabs (slabclass s' d) = slabs (slabclass s d)" "slab_list (slabclass s' d) = slab_list (slabclass s d)"
    using split_loop_correct [OF si v refl sz, of p "perslab (slabclass s d)"] ch unfolding split_slab_page_into_freelist_def by blast
  have sm: "heap s' a = heap s a" if "a \<in> lru_items Q" for a
  proof -
    have "a \<notin> set ?C \<union> free_items F" using that ch cinv_free_not_linked [OF c, of a] by auto
    then show ?thesis using s'(4) by blast
  qed
  have fl: "\<not> has_flag (it_flags (heap s' a)) ITEM_LINKED" if "a \<notin> lru_items Q" for a
  proof (cases "a \<in> free_items (F(d := rev ?C @ F d))")
    case True
    then show ?thesis using slabs_inv_free_item [OF s'(2)] by simp
  next
    case False
    then have "a \<notin> set ?C \<union> free_items F" by (simp add: free_items_append)
    then show ?thesis using s'(4) that cinv_linked [OF c, of a] by auto
  qed
  from cinv_outside [OF c s'(2,3) sm fl] s' show ?thesis by metis
qed

lemma cinv_pages:
  fixes s :: "'z lru_state_scheme"
  assumes c: "cinv s F Q" and f: "\<And>p. slots (f p) = slots p \<and> sl_curr (f p) = sl_curr p"
  shows "cinv (upd_class x f s) F Q" "cache_view (upd_class x f s) = cache_view s"
proof -
  have "free_ok (upd_class x f s) c xs = free_ok s c xs" for c xs using f by (simp add: free_ok_def)
  then have si: "slabs_inv (upd_class x f s) F" using c by (simp add: cinv_def slabs_inv_def)
  have fl: "\<not> has_flag (it_flags (heap (upd_class x f s) a)) ITEM_LINKED" if "a \<notin> lru_items Q" for a
    using that cinv_linked [OF c, of a] by simp
  from cinv_outside [OF c si slab_frame_upd(1) _ fl]
  show "cinv (upd_class x f s) F Q" "cache_view (upd_class x f s) = cache_view s" by simp_all
qed


definition ex_handover :: reb_state where
  "ex_handover = upd_rebal (\<lambda>r. r\<lparr>slab_start := 4096, s_clsid := 1, d_clsid := 2\<rparr>)
     (upd_class 2 (\<lambda>p. p\<lparr>slab_list := [0, 0]\<rparr>) (upd_class 1 (\<lambda>p. p\<lparr>slabs := 2, slab_list := [4096, 8192]\<rparr>) ex_reb))"


section \<open>The memory limit\<close>

lemma release_loop_correct:
  assumes "slabs (slabclass s 0) \<le> length (slab_list (slabclass s 0))" "NULL \<notin> set (pages 0 s)"
  shows "\<exists>n \<le> length (pages 0 s). freed_pages (release_loop s) = drop (length (pages 0 s) - n) (pages 0 s) @ freed_pages s \<and>
    pages 0 (release_loop s) = take (length (pages 0 s) - n) (pages 0 s) \<and>
    mem_malloced (release_loop s) = mem_malloced s - of_nat n * of_nat (slab_page_size (settings s)) \<and>
    (mem_malloced (release_loop s) \<le> mem_limit s \<or> pages 0 (release_loop s) = []) \<and>
    mem_limit (release_loop s) = mem_limit s \<and> heap (release_loop s) = heap s \<and> (\<forall>c. c \<noteq> 0 \<longrightarrow> slabclass (release_loop s) c = slabclass s c)"
  using assms
proof (induction s rule: release_loop.induct)
  case (1 s)
  let ?n = "slabs (slabclass s 0)" and ?l = "slab_list (slabclass s 0)"
  have len: "length (pages 0 s) = ?n" using "1.prems"(1) by (simp add: pages_def)
  show ?case
  proof (cases "mem_limit s < mem_malloced s \<and> ?n \<noteq> 0")
    case False
    then have "release_loop s = s" by (auto simp: release_loop.simps [of s] get_page_from_global_pool_def Let_def)
    then show ?thesis using False len by (intro exI [of _ 0]) (auto simp: not_less)
  next
    case True
    then obtain m where m: "?n = Suc m" by (cases ?n) auto
    let ?p = "?l ! m"
    define t where "t = upd_class 0 (\<lambda>p. p\<lparr>slabs := slabs p - 1\<rparr>) s"
    define u where "u = t\<lparr>freed_pages := ?p # freed_pages t, mem_malloced := mem_malloced t - of_nat (slab_page_size (settings t))\<rparr>"
    have pg: "pages 0 s = pages 0 u @ [?p]" using m "1.prems"(1) by (simp add: pages_def take_Suc_conv_app_nth u_def t_def)
    have p0: "?p \<noteq> NULL" using "1.prems"(2) unfolding pg by simp
    have gp: "get_page_from_global_pool s = (?p, t)" using m by (simp add: get_page_from_global_pool_def Let_def t_def)
    have st: "release_loop s = release_loop u" using True p0 by (simp add: release_loop.simps [of s] gp u_def)
    have ih: "slabs (slabclass u 0) \<le> length (slab_list (slabclass u 0))" "NULL \<notin> set (pages 0 u)"
      using "1.prems" m pg by (auto simp: u_def t_def)
    have fr: "freed_pages u = ?p # freed_pages s" "mem_malloced u = mem_malloced s - of_nat (slab_page_size (settings s))"
      "settings u = settings s" "mem_limit u = mem_limit s" "heap u = heap s" "\<forall>c. c \<noteq> 0 \<longrightarrow> slabclass u c = slabclass s c"
      by (simp_all add: u_def t_def upd_class_def)
    from "1.IH" [OF conjunct1 [OF True] gp [symmetric] refl p0, folded u_def, OF ih]
    obtain k where k: "k \<le> length (pages 0 u)"
      "freed_pages (release_loop u) = drop (length (pages 0 u) - k) (pages 0 u) @ freed_pages u"
      "pages 0 (release_loop u) = take (length (pages 0 u) - k) (pages 0 u)"
      "mem_malloced (release_loop u) = mem_malloced u - of_nat k * of_nat (slab_page_size (settings u))"
      "mem_malloced (release_loop u) \<le> mem_limit u \<or> pages 0 (release_loop u) = []"
      "mem_limit (release_loop u) = mem_limit u" "heap (release_loop u) = heap u"
      "\<forall>c. c \<noteq> 0 \<longrightarrow> slabclass (release_loop u) c = slabclass u c" by blast
    have "mem_malloced (release_loop s) = mem_malloced s - of_nat (Suc k) * of_nat (slab_page_size (settings s))"
      unfolding st k(4) fr by (simp add: algebra_simps)
    then show ?thesis using k fr unfolding pg st by (intro exI [of _ "Suc k"]) simp
  qed
qed


definition ex_pool :: reb_state where
  "ex_pool = upd_class 0 (\<lambda>p. p\<lparr>slabs := 3, slab_list := [100, 200, 300, 0]\<rparr>) (ex_reb\<lparr>mem_malloced := 3072\<rparr>)"


end
