(* ===== verification/Slab_Automove.thy ===== *)
theory Slab_Automove
  imports Items_Spec "HOL-Library.Log_Nat"
begin

text \<open>
  The page balancer of \<^verbatim>\<open>memory_lru/slab_automove.c\<close>: once per second the LRU maintainer asks it whether a
  page should move. It keeps, per slab class, a window of the last \<open>window_size\<close> samples (age of the
  oldest item, whether the class evicted, whether it was dirty) and the previous values of the counters.

  \<^verbatim>\<open>max_age_ratio\<close> is a C \<^verbatim>\<open>double\<close>. It is modelled as the pair \<open>(m, e)\<close> that stands for \<open>m / 2 ^ e\<close>, and
  the conversion of an integer to a double and the product of two doubles round to 53 significant bits,
  to nearest and to even on a tie, as IEEE 754 says (no value here leaves the range of the exponent).
\<close>

section \<open>Doubles\<close>

definition double_shift :: "nat \<Rightarrow> nat" where
  "double_shift n = floorlog 2 n - 53"

definition double_round :: "nat \<Rightarrow> nat" where
  "double_round n =
     (let k = double_shift n; q = n div 2 ^ k; r = 2 * (n mod 2 ^ k)
      in (if 2 ^ k < r \<or> (r = 2 ^ k \<and> odd q) then q + 1 else q) * 2 ^ k)"

text \<open>\<open>y < (double)o * ratio\<close> for 64-bit integers \<open>y\<close> and \<open>o\<close>.\<close>

definition double_less_scaled :: "u64 \<Rightarrow> u64 \<Rightarrow> nat \<times> nat \<Rightarrow> bool" where
  "double_less_scaled y o1 ratio =
     (case ratio of (m, e) \<Rightarrow> double_round (unat y) * 2 ^ e < double_round (double_round (unat o1) * m))"

section \<open>Data\<close>

abbreviation (input) MAX_NUMBER_OF_SLAB_CLASSES :: nat where "MAX_NUMBER_OF_SLAB_CLASSES \<equiv> 64"
abbreviation (input) MIN_PAGES_FOR_SOURCE :: nat where "MIN_PAGES_FOR_SOURCE \<equiv> 2"

record item_stats_automove =
  am_evicted :: int
  am_outofmemory :: int
  am_age :: u32

record slab_stats_automove =
  chunks_per_page :: nat
  am_chunk_size :: nat
  free_chunks :: nat
  total_pages :: nat

record window_data =
  wd_age :: u64
  wd_dirty :: u64
  wd_evicted :: u64

definition zero_window :: window_data where
  "zero_window = \<lparr>wd_age = 0, wd_dirty = 0, wd_evicted = 0\<rparr>"

record slab_automove =
  windows :: "window_data list"
  window_size :: u32
  window_cur :: u32
  max_age_ratio :: "nat \<times> nat"
  iam_before :: "nat \<Rightarrow> item_stats_automove"
  iam_after :: "nat \<Rightarrow> item_stats_automove"
  sam_before :: "nat \<Rightarrow> slab_stats_automove"
  sam_after :: "nat \<Rightarrow> slab_stats_automove"

section \<open>Sampling the counters\<close>

definition fill_item_stats_automove :: "'z lru_state_scheme \<Rightarrow> nat \<Rightarrow> item_stats_automove" where
  "fill_item_stats_automove s n =
     (let hot = of_nat n OR HOT_LRU; cold = of_nat n OR COLD_LRU
      in \<lparr>am_evicted = sint (evicted (itemstats s cold)), am_outofmemory = sint (outofmemory (itemstats s hot)),
          am_age = (if tails s cold \<noteq> NULL then current_time s - i_time (heap s (tails s cold)) else 0)\<rparr>)"

definition fill_slab_stats_automove :: "'z slab_state_scheme \<Rightarrow> nat \<Rightarrow> slab_stats_automove" where
  "fill_slab_stats_automove s n =
     (let p = slabclass s n
      in \<lparr>chunks_per_page = perslab p, am_chunk_size = sc_size p, free_chunks = sl_curr p, total_pages = slabs p\<rparr>)"

text \<open>The two flags say whether the allocations of the balancer and of its window succeed. A window is the memory of
\<^verbatim>\<open>calloc\<close>, so all samples are zero; the product of the length is computed in 32 bits.\<close>

definition slab_automove_init :: "bool \<Rightarrow> bool \<Rightarrow> u32 \<Rightarrow> nat \<times> nat \<Rightarrow> 'z lru_state_scheme \<Rightarrow> slab_automove option" where
  "slab_automove_init alloc_a alloc_w wsize ratio s =
     (if \<not> alloc_a then None
      else if \<not> alloc_w then None
      else let z = \<lparr>am_evicted = 0, am_outofmemory = 0, am_age = 0\<rparr>;
               y = \<lparr>chunks_per_page = 0, am_chunk_size = 0, free_chunks = 0, total_pages = 0\<rparr>
           in Some \<lparr>windows = replicate (unat (wsize * of_nat MAX_NUMBER_OF_SLAB_CLASSES)) zero_window, window_size = wsize, window_cur = 0,
                max_age_ratio = ratio, iam_before = fill_item_stats_automove s, iam_after = (\<lambda>_. z),
                sam_before = fill_slab_stats_automove s, sam_after = (\<lambda>_. y)\<rparr>)"

section \<open>The decision\<close>

fun window_sum :: "window_data list \<Rightarrow> window_data \<Rightarrow> window_data" where
  "window_sum [] w = w"
| "window_sum (d # ds) w =
     window_sum ds \<lparr>wd_age = wd_age w + wd_age d, wd_dirty = wd_dirty w + wd_dirty d, wd_evicted = wd_evicted w + wd_evicted d\<rparr>"

record automove_vars =
  oldest :: int
  oldest_age :: u64
  youngest :: int
  youngest_age :: u64
  youngest_evicting :: bool
  am_src :: int
  am_dst :: int

text \<open>One class of the loop; the flag says that the loop is left by \<^verbatim>\<open>break\<close>. \<^const>\<open>None\<close> is a division by zero or an access
outside of the window array.\<close>

definition evicting_now :: "nat \<Rightarrow> slab_automove \<Rightarrow> bool" where
  "evicting_now n a \<longleftrightarrow>
     0 < am_evicted (iam_after a n) - am_evicted (iam_before a n) \<or> 0 < am_outofmemory (iam_after a n) - am_outofmemory (iam_before a n)"

definition automove_class :: "nat \<Rightarrow> slab_automove \<Rightarrow> automove_vars \<Rightarrow> (bool \<times> slab_automove \<times> automove_vars) option" where
  "automove_class n a L = do {
     c_assert (window_size a \<noteq> 0);
     let size = unat (window_size a);
     let w_offset = sint (of_nat n * window_size a);
     let i = unat (of_nat n * window_size a + window_cur a mod window_size a);
     c_assert (i < length (windows a) \<and> 0 \<le> w_offset \<and> nat w_offset + size \<le> length (windows a));
     let wds = (windows a)[i := zero_window];
     let w_sum = window_sum (take size (drop (nat w_offset) wds)) zero_window;
     let ev = evicting_now n a;
     let grown = total_pages (sam_before a n) < total_pages (sam_after a n);
     let wd = \<lparr>wd_age = ucast (am_age (iam_after a n)), wd_dirty = (if ev \<or> grown then 1 else 0), wd_evicted = (if ev then 1 else 0)\<rparr>;
     let a = a\<lparr>windows := wds[i := wd]\<rparr>;
     let age = wd_age w_sum div ucast (window_size a);
     if 5 * chunks_per_page (sam_after a n) < 2 * free_chunks (sam_after a n) \<and> wd_dirty w_sum = 0
     then Some (True, a, L\<lparr>am_src := int n, am_dst := 0\<rparr>)
     else do {
       let L = (if oldest_age L < age \<and> MIN_PAGES_FOR_SOURCE < total_pages (sam_after a n)
                then L\<lparr>oldest := int n, oldest_age := age\<rparr> else L);
       let L = (if age < youngest_age L \<and> ucast (window_size a div 2) < wd_evicted w_sum
                then L\<lparr>youngest := int n, youngest_age := age, youngest_evicting := (wd_evicted wd \<noteq> 0)\<rparr> else L);
       Some (False, a, L)
     }
   }"

fun automove_loop :: "nat list \<Rightarrow> slab_automove \<Rightarrow> automove_vars \<Rightarrow> (slab_automove \<times> automove_vars) option" where
  "automove_loop [] a L = Some (a, L)"
| "automove_loop (n # ns) a L = do {
     (stop, a, L) \<leftarrow> automove_class n a L;
     if stop then Some (a, L) else automove_loop ns a L
   }"

definition automove_start :: automove_vars where
  "automove_start = \<lparr>oldest = -1, oldest_age = 0, youngest = -1, youngest_age = -1, youngest_evicting = False, am_src = -1, am_dst = -1\<rparr>"

definition slab_automove_run :: "'z lru_state_scheme \<Rightarrow> slab_automove \<Rightarrow> (int \<times> int \<times> slab_automove) option" where
  "slab_automove_run s a = do {
     let a = a\<lparr>iam_after := fill_item_stats_automove s, sam_after := fill_slab_stats_automove s, window_cur := window_cur a + 1\<rparr>;
     (a, L) \<leftarrow> automove_loop [POWER_SMALLEST..<MAX_NUMBER_OF_SLAB_CLASSES] a automove_start;
     let a = a\<lparr>iam_before := iam_after a, sam_before := sam_after a\<rparr>;
     let L = (if youngest L \<noteq> -1 \<and> oldest L \<noteq> -1 \<and> window_size a < window_cur a
              then (if double_less_scaled (youngest_age L) (oldest_age L) (max_age_ratio a) \<and> youngest_evicting L
                    then L\<lparr>am_src := oldest L, am_dst := youngest L\<rparr> else L)
              else L);
     Some (am_src L, am_dst L, a)
   }"

section \<open>The maintainer thread\<close>

text \<open>The page balancing step of \<^verbatim>\<open>lru_maintainer_thread\<close>: at most one run per second, unless a page was given back to the global
pool. \<open>ratio\<close> and \<open>wsize\<close> are the current settings, \<open>busy\<close> says that the mover holds its lock, and \<open>alloc\<close> whether the
allocations of a restart of the balancer succeed (a failed one crashes the next run).\<close>

record maintainer =
  m_am :: slab_automove
  m_last_ratio :: "nat \<times> nat"
  m_last_check :: u32
  m_to_sleep :: u32

definition maintainer_automove ::
  "bool \<Rightarrow> bool \<Rightarrow> u32 \<Rightarrow> nat \<times> nat \<Rightarrow> 'z lru_state_scheme \<Rightarrow> maintainer \<Rightarrow> ('z lru_state_scheme \<times> maintainer) option" where
  "maintainer_automove busy alloc wsize ratio s M =
     (if slab_automove (settings s) = 1 \<and> m_last_check M \<noteq> current_time s then do {
        M \<leftarrow> (if m_last_ratio M \<noteq> ratio
              then map_option (\<lambda>am. M\<lparr>m_am := am, m_last_ratio := ratio\<rparr>) (slab_automove_init alloc alloc wsize ratio s)
              else Some M);
        (src, dst, am) \<leftarrow> slab_automove_run s (m_am M);
        let M = M\<lparr>m_am := am\<rparr>;
        let s = (if src \<noteq> -1 \<and> dst \<noteq> -1 then snd (slabs_reassign busy src dst s) else s);
        Some (s, if dst \<noteq> 0 then M\<lparr>m_last_check := current_time s\<rparr> else M\<lparr>m_to_sleep := 1000\<rparr>)
      }
      else Some (s, M))"

text \<open>The sleep of the maintainer: each class has its own delay, which grows by an eighth while the class has nothing to do and halves
when it had. \<open>did_moves\<close> is the result of juggling the queues of the class.\<close>

abbreviation (input) MAX_LRU_MAINTAINER_SLEEP :: u32 where "MAX_LRU_MAINTAINER_SLEEP \<equiv> 1000000"
abbreviation (input) MIN_LRU_MAINTAINER_SLEEP :: u32 where "MIN_LRU_MAINTAINER_SLEEP \<equiv> 1000"

definition next_backoff :: "int \<Rightarrow> u32 \<Rightarrow> u32" where
  "next_backoff did_moves b =
     (if did_moves = 0 then
        (let b = (if b \<noteq> 0 then b + b div 8 else MIN_LRU_MAINTAINER_SLEEP)
         in if MAX_LRU_MAINTAINER_SLEEP < b then MAX_LRU_MAINTAINER_SLEEP else b)
      else if 0 < b then (let b = b div 2 in if b < MIN_LRU_MAINTAINER_SLEEP then 0 else b)
      else b)"

record juggles =
  next_juggles :: "nat \<Rightarrow> u32"
  backoff_juggles :: "nat \<Rightarrow> u32"
  to_sleep :: u32

definition juggle_class :: "(nat \<Rightarrow> int) \<Rightarrow> u32 \<Rightarrow> nat \<Rightarrow> juggles \<Rightarrow> juggles" where
  "juggle_class did_moves last_sleep i J =
     (let nxt = (if last_sleep < next_juggles J i then next_juggles J i - last_sleep else 0);
          J = J\<lparr>next_juggles := (next_juggles J)(i := nxt)\<rparr>
      in if 0 < nxt then (if nxt < to_sleep J then J\<lparr>to_sleep := nxt\<rparr> else J)
         else let b = next_backoff (did_moves i) (backoff_juggles J i);
                  J = J\<lparr>backoff_juggles := (backoff_juggles J)(i := b), next_juggles := (next_juggles J)(i := b)\<rparr>
              in if b < to_sleep J then J\<lparr>to_sleep := b\<rparr> else J)"

definition juggle_pass :: "(nat \<Rightarrow> int) \<Rightarrow> juggles \<Rightarrow> juggles" where
  "juggle_pass did_moves J =
     (let last_sleep = (if 1000 < to_sleep J then to_sleep J else 1000)
      in fold (juggle_class did_moves last_sleep) [POWER_SMALLEST..<MAX_NUMBER_OF_SLAB_CLASSES]
           (J\<lparr>to_sleep := MAX_LRU_MAINTAINER_SLEEP\<rparr>))"

section \<open>Windows\<close>

definition window_segment :: "nat \<Rightarrow> slab_automove \<Rightarrow> window_data list" where
  "window_segment n a = take (unat (window_size a)) (drop (n * unat (window_size a)) (windows a))"

definition sample_ok :: "window_data \<Rightarrow> bool" where
  "sample_ok d \<longleftrightarrow> wd_age d < 2 ^ 32 \<and> wd_dirty d \<le> 1 \<and> wd_evicted d \<le> wd_dirty d"

definition automove_inv :: "slab_automove \<Rightarrow> bool" where
  "automove_inv a \<longleftrightarrow> 0 < window_size a \<and> window_size a < 2 ^ 25 \<and>
     length (windows a) = MAX_NUMBER_OF_SLAB_CLASSES * unat (window_size a) \<and> (\<forall>d \<in> set (windows a). sample_ok d)"

text \<open>The sums the decision for class \<open>n\<close> looks at: the slot of this run is cleared first.\<close>

definition class_window :: "nat \<Rightarrow> slab_automove \<Rightarrow> window_data list" where
  "class_window n a = (window_segment n a)[unat (window_cur a mod window_size a) := zero_window]"

definition class_age :: "nat \<Rightarrow> slab_automove \<Rightarrow> nat" where
  "class_age n a = (\<Sum>d\<leftarrow>class_window n a. unat (wd_age d)) div unat (window_size a)"

definition class_evictions :: "nat \<Rightarrow> slab_automove \<Rightarrow> nat" where
  "class_evictions n a = length [d \<leftarrow> class_window n a. wd_evicted d \<noteq> 0]"

definition class_clean :: "nat \<Rightarrow> slab_automove \<Rightarrow> bool" where
  "class_clean n a \<longleftrightarrow> (\<forall>d \<in> set (class_window n a). wd_dirty d = 0)"

lemma list_update_all: "\<forall>x \<in> set xs. P x \<Longrightarrow> P y \<Longrightarrow> \<forall>x \<in> set (xs[i := y]). P x"
  by (auto dest: subsetD [OF set_update_subset_insert])

lemma sum_list_le_bound: "\<forall>x \<in> set xs. f x \<le> b \<Longrightarrow> (\<Sum>x\<leftarrow>xs. f x) \<le> length xs * (b :: nat)"
  by (induction xs) (auto intro: add_mono)

lemma sample_ok_nat: "sample_ok d \<Longrightarrow> unat (wd_age d) < 2 ^ 32 \<and> unat (wd_dirty d) \<le> 1 \<and> unat (wd_evicted d) \<le> 1"
  by (auto simp: sample_ok_def word_less_nat_alt word_le_nat_alt)

lemma sample_ok_zero [simp]: "sample_ok zero_window"
  by (simp add: sample_ok_def zero_window_def)

lemma word_01_cases: "unat w \<le> 1 \<Longrightarrow> unat w = (if w = 0 then 0 else 1)"
  by (metis le_zero_eq le_SucE One_nat_def unat_0 unat_eq_zero)

lemma window_sum_correct:
  assumes "\<forall>d \<in> set ds. sample_ok d" "unat (wd_age w) + length ds * 2 ^ 32 < 2 ^ 64"
    "unat (wd_dirty w) + length ds < 2 ^ 64" "unat (wd_evicted w) + length ds < 2 ^ 64"
  shows "unat (wd_age (window_sum ds w)) = unat (wd_age w) + (\<Sum>d\<leftarrow>ds. unat (wd_age d)) \<and>
    unat (wd_dirty (window_sum ds w)) = unat (wd_dirty w) + length [d \<leftarrow> ds. wd_dirty d \<noteq> 0] \<and>
    unat (wd_evicted (window_sum ds w)) = unat (wd_evicted w) + length [d \<leftarrow> ds. wd_evicted d \<noteq> 0]"
  using assms
proof (induction ds arbitrary: w)
  case (Cons d ds)
  let ?w = "\<lparr>wd_age = wd_age w + wd_age d, wd_dirty = wd_dirty w + wd_dirty d, wd_evicted = wd_evicted w + wd_evicted d\<rparr>"
  have d: "unat (wd_age d) < 2 ^ 32" "unat (wd_dirty d) \<le> 1" "unat (wd_evicted d) \<le> 1"
    using Cons.prems(1) sample_ok_nat by auto
  have a: "unat (wd_age ?w) = unat (wd_age w) + unat (wd_age d)"
    "unat (wd_dirty ?w) = unat (wd_dirty w) + unat (wd_dirty d)" "unat (wd_evicted ?w) = unat (wd_evicted w) + unat (wd_evicted d)"
    using Cons.prems(2-4) d by (simp_all add: unat_word_ariths)
  have "unat (wd_age (window_sum ds ?w)) = unat (wd_age ?w) + (\<Sum>d\<leftarrow>ds. unat (wd_age d)) \<and>
    unat (wd_dirty (window_sum ds ?w)) = unat (wd_dirty ?w) + length [d \<leftarrow> ds. wd_dirty d \<noteq> 0] \<and>
    unat (wd_evicted (window_sum ds ?w)) = unat (wd_evicted ?w) + length [d \<leftarrow> ds. wd_evicted d \<noteq> 0]"
    using Cons.prems d by (intro Cons.IH; simp only: a; simp)
  then show ?case using word_01_cases [OF d(2)] word_01_cases [OF d(3)] unfolding a by (auto simp del: unat_eq_zero)
qed simp

lemma window_index:
  assumes "n < 64" "0 < ws" "ws < (2 ^ 25 :: u32)"
  shows "unat (of_nat n * ws + c mod ws) = n * unat ws + unat c mod unat ws" "sint (of_nat n * ws) = int (n * unat ws)"
    "n * unat ws + unat c mod unat ws < 64 * unat ws"
proof -
  have w: "unat ws < 33554432" "0 < unat ws" using assms(2,3) by (simp_all add: word_less_nat_alt)
  have "n * unat ws \<le> 63 * unat ws" using assms(1) by simp
  then have b: "n * unat ws + unat ws \<le> 64 * unat ws" by linarith
  moreover have m: "unat c mod unat ws < unat ws" using w by simp
  ultimately show "n * unat ws + unat c mod unat ws < 64 * unat ws" by linarith
  have n: "unat (of_nat n :: u32) = n" using assms(1) by (simp add: unat_of_nat)
  have "n * unat ws < 4294967296" using b w by linarith
  then have p: "unat (of_nat n * ws) = n * unat ws" by (simp add: unat_word_ariths(2) n)
  have "unat (of_nat n * ws) + unat (c mod ws) < 4294967296" unfolding p unat_mod using b w m by linarith
  then show "unat (of_nat n * ws + c mod ws) = n * unat ws + unat c mod unat ws"
    by (simp add: unat_word_ariths(1) p unat_mod)
  have "uint (of_nat n * ws) = int (n * unat ws)" using p by (metis uint_nat)
  moreover have "int (n * unat ws) < 2147483648" using b w by linarith
  ultimately show "sint (of_nat n * ws) = int (n * unat ws)"
    by (simp only: sint_uint) (rule signed_take_bit_int_eq_self; simp add: order.trans [OF _ zero_le_mult_iff [THEN iffD2]])
qed

lemma window_segment_upd:
  assumes "j < unat (window_size a)" "Suc n * unat (window_size a) \<le> length (windows a)"
  shows "window_segment n (a\<lparr>windows := (windows a)[n * unat (window_size a) + j := v]\<rparr>) = (window_segment n a)[j := v]"
    "m \<noteq> n \<Longrightarrow> window_segment m (a\<lparr>windows := (windows a)[n * unat (window_size a) + j := v]\<rparr>) = window_segment m a"
proof -
  let ?k = "unat (window_size a)"
  show "window_segment n (a\<lparr>windows := (windows a)[n * ?k + j := v]\<rparr>) = (window_segment n a)[j := v]"
    by (simp add: window_segment_def drop_update_swap take_update_swap)
  assume "m \<noteq> n"
  then consider "Suc m * ?k \<le> n * ?k" | "Suc n * ?k \<le> m * ?k" by (meson Suc_leI linorder_neqE_nat mult_le_mono1)
  then show "window_segment m (a\<lparr>windows := (windows a)[n * ?k + j := v]\<rparr>) = window_segment m a"
    using assms(1) by cases (simp_all add: window_segment_def drop_update_swap take_update_cancel)
qed

definition reclaimable :: "nat \<Rightarrow> slab_automove \<Rightarrow> bool" where
  "reclaimable n a \<longleftrightarrow> 5 * chunks_per_page (sam_after a n) < 2 * free_chunks (sam_after a n) \<and> class_clean n a"

definition new_sample :: "nat \<Rightarrow> slab_automove \<Rightarrow> window_data" where
  "new_sample n a = \<lparr>wd_age = ucast (am_age (iam_after a n)),
     wd_dirty = (if evicting_now n a \<or> total_pages (sam_before a n) < total_pages (sam_after a n) then 1 else 0),
     wd_evicted = (if evicting_now n a then 1 else 0)\<rparr>"

definition consider_class :: "nat \<Rightarrow> slab_automove \<Rightarrow> automove_vars \<Rightarrow> automove_vars" where
  "consider_class n a L =
     (let age = of_nat (class_age n a);
          L = (if oldest_age L < age \<and> 2 < total_pages (sam_after a n) then L\<lparr>oldest := int n, oldest_age := age\<rparr> else L)
      in if age < youngest_age L \<and> unat (window_size a) div 2 < class_evictions n a
         then L\<lparr>youngest := int n, youngest_age := age, youngest_evicting := evicting_now n a\<rparr> else L)"

definition advance :: "nat \<Rightarrow> slab_automove \<Rightarrow> slab_automove" where
  "advance n a = a\<lparr>windows := (windows a)[n * unat (window_size a) + unat (window_cur a mod window_size a) := new_sample n a]\<rparr>"

lemma new_sample_ok [simp]: "sample_ok (new_sample n a)"
proof -
  have "uint (am_age (iam_after a n)) < 2 ^ 32" using uint_lt2p [of "am_age (iam_after a n)"] by simp
  then show ?thesis by (simp add: new_sample_def sample_ok_def word_less_def uint_up_ucast is_up)
qed

lemma class_window_props:
  assumes "automove_inv a" "n < 64"
  shows "length (class_window n a) = unat (window_size a)" "\<forall>d \<in> set (class_window n a). sample_ok d"
proof -
  have "(n + 1) * unat (window_size a) \<le> 64 * unat (window_size a)" using assms(2) by (intro mult_le_mono1) simp
  then have "unat (window_size a) \<le> 64 * unat (window_size a) - n * unat (window_size a)" by (simp only: add_mult_distrib)
  then show "length (class_window n a) = unat (window_size a)"
    using assms(1) by (simp add: class_window_def window_segment_def automove_inv_def)
  show "\<forall>d \<in> set (class_window n a). sample_ok d"
    using assms(1) unfolding class_window_def window_segment_def automove_inv_def
    by (intro list_update_all) (auto dest!: in_set_takeD in_set_dropD)
qed

lemma class_window_sum:
  assumes "automove_inv a" "n < 64"
  defines "w \<equiv> window_sum (class_window n a) zero_window"
  shows "wd_age w div ucast (window_size a) = of_nat (class_age n a)" "(wd_dirty w = 0) = class_clean n a"
    "(ucast (window_size a div 2) < wd_evicted w) = (unat (window_size a) div 2 < class_evictions n a)"
    "class_age n a < 2 ^ 32"
proof -
  let ?ws = "class_window n a"
  note p = class_window_props [OF assms(1,2)]
  have l: "0 < unat (window_size a)" "unat (window_size a) < 33554432"
    using assms(1) by (simp_all add: automove_inv_def word_less_nat_alt)
  have z: "unat (wd_age zero_window) = 0" "unat (wd_dirty zero_window) = 0" "unat (wd_evicted zero_window) = 0"
    by (simp_all add: zero_window_def)
  have s: "unat (wd_age w) = (\<Sum>d\<leftarrow>?ws. unat (wd_age d))" "unat (wd_dirty w) = length [d \<leftarrow> ?ws. wd_dirty d \<noteq> 0]"
    "unat (wd_evicted w) = class_evictions n a"
    using window_sum_correct [OF p(2), of zero_window] l unfolding w_def z p(1) class_evictions_def by simp_all
  have u: "unat (ucast (window_size a) :: u64) = unat (window_size a)" using l by (simp add: unsigned_ucast_eq take_bit_nat_eq_self)
  have "unat (wd_age w div ucast (window_size a)) = class_age n a" unfolding unat_div u s class_age_def ..
  then have "of_nat (class_age n a) = (of_nat (unat (wd_age w div ucast (window_size a))) :: u64)" by simp
  then show "wd_age w div ucast (window_size a) = of_nat (class_age n a)" by simp
  show "(wd_dirty w = 0) = class_clean n a"
    unfolding class_clean_def unat_eq_zero [symmetric] s(2) by (auto simp: filter_empty_conv simp flip: unat_eq_zero)
  have v: "unat (ucast (window_size a div 2) :: u64) = unat (window_size a) div 2" using l by (simp add: unsigned_ucast_eq take_bit_nat_eq_self unat_div)
  show "(ucast (window_size a div 2) < wd_evicted w) = (unat (window_size a) div 2 < class_evictions n a)"
    unfolding word_less_nat_alt s(3) v ..
  have "(\<Sum>d\<leftarrow>?ws. unat (wd_age d)) \<le> length ?ws * (2 ^ 32 - 1)"
    using p(2) sample_ok_nat by (intro sum_list_le_bound) fastforce
  then have "class_age n a \<le> (2 ^ 32 - 1 :: nat)" unfolding class_age_def p(1)
    by (metis div_le_mono l(1) less_not_refl nonzero_mult_div_cancel_left)
  then show "class_age n a < 2 ^ 32" by simp
qed

lemma automove_class_correct:
  assumes "automove_inv a" "n < 64"
  shows "automove_class n a L =
    (if reclaimable n a then Some (True, advance n a, L\<lparr>am_src := int n, am_dst := 0\<rparr>)
     else Some (False, advance n a, consider_class n a L))"
    "automove_inv (advance n a)" "m \<noteq> n \<Longrightarrow> window_segment m (advance n a) = window_segment m a"
proof -
  let ?k = "unat (window_size a)" and ?j = "unat (window_cur a mod window_size a)"
  have i: "0 < window_size a" "window_size a < 2 ^ 25" "length (windows a) = 64 * ?k" "\<forall>d \<in> set (windows a). sample_ok d"
    using assms(1) by (simp_all add: automove_inv_def)
  have j: "?j = unat (window_cur a) mod ?k" by (simp add: unat_mod)
  note x = window_index(1,3) [OF assms(2) i(1,2), of "window_cur a", folded j] window_index(2) [OF assms(2) i(1,2)]
  have "Suc n * ?k \<le> 64 * ?k" using assms(2) by (intro mult_le_mono1) simp
  then have sk: "Suc n * ?k \<le> length (windows a)" unfolding i(3) .
  have jk: "?j < ?k" using i(1) by (simp add: unat_mod word_less_nat_alt)
  show "m \<noteq> n \<Longrightarrow> window_segment m (advance n a) = window_segment m a"
    unfolding advance_def by (rule window_segment_upd(2) [OF jk sk])
  show "automove_inv (advance n a)"
    using i list_update_all [OF i(4) new_sample_ok] by (simp add: automove_inv_def advance_def)
  have cw: "take ?k (drop (n * ?k) ((windows a)[n * ?k + ?j := zero_window])) = class_window n a"
    using window_segment_upd(1) [OF jk sk, of zero_window] by (simp add: window_segment_def class_window_def)
  note w = class_window_sum [OF assms]
  show "automove_class n a L =
    (if reclaimable n a then Some (True, advance n a, L\<lparr>am_src := int n, am_dst := 0\<rparr>)
     else Some (False, advance n a, consider_class n a L))"
  proof -
    have a1: "window_size a \<noteq> 0" using i(1) by auto
    have a2: "n * ?k + ?j < length (windows a) \<and> 0 \<le> int (n * ?k) \<and> n * ?k + ?k \<le> length (windows a)" using x(2) i(3) sk by simp
    have ev: "(wd_evicted (new_sample n a) \<noteq> 0) = evicting_now n a" by (simp add: new_sample_def)
    have f: "sam_after (a\<lparr>windows := y\<rparr>) = sam_after a" "window_size (a\<lparr>windows := y\<rparr>) = window_size a" for y by simp_all
    show ?thesis
      unfolding automove_class_def Let_def x nat_int c_assert_bind [OF a1] c_assert_bind [OF a2]
        new_sample_def [symmetric] cw list_update_overwrite
      by (simp only: w ev reclaimable_def advance_def consider_class_def Let_def f)
  qed
qed

text \<open>What the loop has found after the classes below \<open>k\<close>.\<close>

definition oldest_ok :: "nat \<Rightarrow> slab_automove \<Rightarrow> automove_vars \<Rightarrow> bool" where
  "oldest_ok k a L \<longleftrightarrow>
     (oldest L = -1 \<and> oldest_age L = 0 \<and> (\<forall>m \<in> {1..<k}. 2 < total_pages (sam_after a m) \<longrightarrow> class_age m a = 0)) \<or>
     (\<exists>p \<in> {1..<k}. oldest L = int p \<and> oldest_age L = of_nat (class_age p a) \<and> 2 < total_pages (sam_after a p) \<and> 0 < class_age p a \<and>
        (\<forall>m \<in> {1..<k}. 2 < total_pages (sam_after a m) \<longrightarrow> class_age m a \<le> class_age p a))"

definition evicting_class :: "nat \<Rightarrow> slab_automove \<Rightarrow> bool" where
  "evicting_class n a \<longleftrightarrow> unat (window_size a) div 2 < class_evictions n a"

definition youngest_ok :: "nat \<Rightarrow> slab_automove \<Rightarrow> automove_vars \<Rightarrow> bool" where
  "youngest_ok k a L \<longleftrightarrow>
     (youngest L = -1 \<and> youngest_age L = -1 \<and> (\<forall>m \<in> {1..<k}. \<not> evicting_class m a)) \<or>
     (\<exists>p \<in> {1..<k}. youngest L = int p \<and> youngest_age L = of_nat (class_age p a) \<and> evicting_class p a \<and>
        (youngest_evicting L \<longleftrightarrow> evicting_now p a) \<and> (\<forall>m \<in> {1..<k}. evicting_class m a \<longrightarrow> class_age p a \<le> class_age m a))"

lemma age_less:
  assumes "x < 2 ^ 32" "y < 2 ^ 32"
  shows "((of_nat x :: u64) < of_nat y) = (x < y)" "(0 < (of_nat y :: u64)) = (0 < y)" "(of_nat y :: u64) < - 1"
proof -
  have "unat (of_nat x :: u64) = x" "unat (of_nat y :: u64) = y" using assms by (simp_all add: unat_of_nat)
  then show "((of_nat x :: u64) < of_nat y) = (x < y)" "(0 < (of_nat y :: u64)) = (0 < y)" "(of_nat y :: u64) < - 1"
    using assms by (simp_all add: word_less_nat_alt unsigned_minus_1_eq_mask mask_eq_exp_minus_1)
qed

lemma consider_class_ok:
  assumes i: "automove_inv a" and k: "1 \<le> k" "k < 64" and o: "oldest_ok k a L" and y: "youngest_ok k a L"
  shows "oldest_ok (Suc k) a (consider_class k a L)" "youngest_ok (Suc k) a (consider_class k a L)"
    "am_src (consider_class k a L) = am_src L" "am_dst (consider_class k a L) = am_dst L"
proof -
  let ?C = "consider_class k a L"
  have S: "{1..<Suc k} = insert k {1..<k}" using k(1) by (simp add: atLeastLessThanSuc)
  have b: "class_age m a < 2 ^ 32" if "m < 64" for m using class_window_sum(4) [OF i that] .
  have lt: "((of_nat (class_age m a) :: u64) < of_nat (class_age k a)) = (class_age m a < class_age k a)" if "m < k" for m
    using age_less(1) [OF b b [OF k(2)]] that k(2) by simp
  note lk = age_less(2,3) [OF b [OF k(2)] b [OF k(2)]]
  have gt: "((of_nat (class_age k a) :: u64) < of_nat (class_age m a)) = (class_age k a < class_age m a)" if "m < k" for m
    using age_less(1) [OF b [OF k(2)] b] that k(2) by simp
  let ?P = "2 < total_pages (sam_after a k)" and ?A = "of_nat (class_age k a) :: u64"
  have f: "oldest ?C = (if oldest_age L < ?A \<and> ?P then int k else oldest L)" "oldest_age ?C = (if oldest_age L < ?A \<and> ?P then ?A else oldest_age L)"
    "youngest ?C = (if ?A < youngest_age L \<and> evicting_class k a then int k else youngest L)"
    "youngest_age ?C = (if ?A < youngest_age L \<and> evicting_class k a then ?A else youngest_age L)"
    "youngest_evicting ?C = (if ?A < youngest_age L \<and> evicting_class k a then evicting_now k a else youngest_evicting L)"
    "am_src ?C = am_src L" "am_dst ?C = am_dst L"
    by (auto simp: consider_class_def Let_def evicting_class_def)
  show "am_src ?C = am_src L" "am_dst ?C = am_dst L" by (fact f)+
  show "oldest_ok (Suc k) a ?C"
  proof (cases "oldest_age L < ?A \<and> ?P")
    case True
    from o have "0 < class_age k a \<and> (\<forall>m \<in> {1..<k}. 2 < total_pages (sam_after a m) \<longrightarrow> class_age m a \<le> class_age k a)"
      unfolding oldest_ok_def
    proof (elim disjE conjE bexE)
      fix p assume "p \<in> {1..<k}" "oldest_age L = of_nat (class_age p a)"
        "\<forall>m \<in> {1..<k}. 2 < total_pages (sam_after a m) \<longrightarrow> class_age m a \<le> class_age p a"
      moreover from this have "class_age p a < class_age k a" using True lt [of p] by simp
      ultimately show ?thesis by fastforce
    qed (use True lk(1) in auto)
    then show ?thesis using True unfolding oldest_ok_def S f by simp
  next
    case False
    from o [unfolded oldest_ok_def] show ?thesis
    proof (elim disjE)
      assume a: "oldest L = -1 \<and> oldest_age L = 0 \<and> (\<forall>m \<in> {1..<k}. 2 < total_pages (sam_after a m) \<longrightarrow> class_age m a = 0)"
      then have "?P \<longrightarrow> class_age k a = 0" using False lk(1) by auto
      then show ?thesis using a False unfolding oldest_ok_def S f by auto
    next
      assume "\<exists>p \<in> {1..<k}. oldest L = int p \<and> oldest_age L = of_nat (class_age p a) \<and> 2 < total_pages (sam_after a p) \<and> 0 < class_age p a \<and>
        (\<forall>m \<in> {1..<k}. 2 < total_pages (sam_after a m) \<longrightarrow> class_age m a \<le> class_age p a)"
      then obtain p where p: "p \<in> {1..<k}" "oldest L = int p" "oldest_age L = of_nat (class_age p a)" "2 < total_pages (sam_after a p)" "0 < class_age p a"
        "\<forall>m \<in> {1..<k}. 2 < total_pages (sam_after a m) \<longrightarrow> class_age m a \<le> class_age p a" by blast
      have "?P \<longrightarrow> class_age k a \<le> class_age p a" using False p(1,3) lt [of p] by auto
      then show ?thesis using p False unfolding oldest_ok_def S f by auto
    qed
  qed
  show "youngest_ok (Suc k) a ?C"
  proof (cases "?A < youngest_age L \<and> evicting_class k a")
    case True
    from y have "\<forall>m \<in> {1..<k}. evicting_class m a \<longrightarrow> class_age k a \<le> class_age m a"
      unfolding youngest_ok_def
    proof (elim disjE conjE bexE)
      fix p assume "p \<in> {1..<k}" "youngest_age L = of_nat (class_age p a)"
        "\<forall>m \<in> {1..<k}. evicting_class m a \<longrightarrow> class_age p a \<le> class_age m a"
      moreover from this have "class_age k a < class_age p a" using True gt [of p] by simp
      ultimately show ?thesis by fastforce
    qed auto
    then show ?thesis using True unfolding youngest_ok_def S f by simp
  next
    case False
    from y [unfolded youngest_ok_def] show ?thesis
    proof (elim disjE)
      assume a: "youngest L = -1 \<and> youngest_age L = -1 \<and> (\<forall>m \<in> {1..<k}. \<not> evicting_class m a)"
      then have "\<not> evicting_class k a" using False lk(2) by auto
      then show ?thesis using a False unfolding youngest_ok_def S f by auto
    next
      assume "\<exists>p \<in> {1..<k}. youngest L = int p \<and> youngest_age L = of_nat (class_age p a) \<and> evicting_class p a \<and>
        (youngest_evicting L \<longleftrightarrow> evicting_now p a) \<and> (\<forall>m \<in> {1..<k}. evicting_class m a \<longrightarrow> class_age p a \<le> class_age m a)"
      then obtain p where p: "p \<in> {1..<k}" "youngest L = int p" "youngest_age L = of_nat (class_age p a)" "evicting_class p a"
        "youngest_evicting L \<longleftrightarrow> evicting_now p a" "\<forall>m \<in> {1..<k}. evicting_class m a \<longrightarrow> class_age p a \<le> class_age m a" by blast
      have "evicting_class k a \<longrightarrow> class_age p a \<le> class_age k a" using False p(1,3) gt [of p] by auto
      then show ?thesis using p False unfolding youngest_ok_def S f by auto
    qed
  qed
qed

text \<open>The whole loop, from class \<open>k\<close> on: it stops at the first reclaimable class, or after the last one.\<close>

lemma class_window_cong:
  assumes "window_segment m b = window_segment m a" "window_cur b = window_cur a" "window_size b = window_size a"
  shows "class_window m b = class_window m a" "class_age m b = class_age m a" "class_evictions m b = class_evictions m a"
    "class_clean m b = class_clean m a" "evicting_class m b = evicting_class m a"
  using assms by (simp_all add: class_window_def class_age_def class_evictions_def class_clean_def evicting_class_def)

definition same_but_windows :: "nat \<Rightarrow> slab_automove \<Rightarrow> slab_automove \<Rightarrow> bool" where
  "same_but_windows k a b \<longleftrightarrow> (\<exists>w. b = a\<lparr>windows := w\<rparr>) \<and> (\<forall>m \<ge> k. window_segment m b = window_segment m a)"

lemma same_but_windows_class:
  assumes "same_but_windows k a b"
  shows "consider_class k b L = consider_class k a L" "reclaimable k b = reclaimable k a"
proof -
  have f: "window_cur b = window_cur a" "window_size b = window_size a" "sam_after b = sam_after a" "evicting_now k b = evicting_now k a"
    "window_segment k b = window_segment k a"
    using assms by (auto simp: same_but_windows_def evicting_now_def)
  note c = class_window_cong [OF f(5,1,2)]
  show "consider_class k b L = consider_class k a L" unfolding consider_class_def f c ..
  show "reclaimable k b = reclaimable k a" unfolding reclaimable_def f c ..
qed

lemma same_but_windows_advance:
  assumes "same_but_windows k a b" "automove_inv b" "k < 64"
  shows "same_but_windows (Suc k) a (advance k b)"
proof -
  have "\<exists>w. advance k b = a\<lparr>windows := w\<rparr>" using assms(1) by (auto simp: same_but_windows_def advance_def)
  moreover have "window_segment m (advance k b) = window_segment m a" if "Suc k \<le> m" for m
    using automove_class_correct(3) [OF assms(2,3), of m] that assms(1) by (auto simp: same_but_windows_def)
  ultimately show ?thesis by (simp add: same_but_windows_def)
qed

lemma automove_loop_correct:
  assumes "automove_inv a" "automove_inv b" "same_but_windows k a b" "1 \<le> k" "k \<le> 64" "oldest_ok k a L" "youngest_ok k a L"
    "\<forall>m \<in> {1..<k}. \<not> reclaimable m a" "am_src L = -1" "am_dst L = -1"
  shows "\<exists>b' L' e. automove_loop [k..<64] b L = Some (b', L') \<and> automove_inv b' \<and> (\<exists>w. b' = a\<lparr>windows := w\<rparr>) \<and>
    e \<le> 64 \<and> (\<forall>m \<in> {1..<e}. \<not> reclaimable m a) \<and> oldest_ok e a L' \<and> youngest_ok e a L' \<and>
    (if e = 64 then am_src L' = -1 \<and> am_dst L' = -1 else 1 \<le> e \<and> reclaimable e a \<and> am_src L' = int e \<and> am_dst L' = 0)"
  using assms(2-)
proof (induction "64 - k" arbitrary: k b L)
  case 0
  then have "k = 64" by simp
  then show ?case using 0 by (intro exI [of _ b] exI [of _ L] exI [of _ "64 :: nat"]) (auto simp: same_but_windows_def)
next
  case (Suc x)
  then have k: "k < 64" by simp
  then have u: "[k..<64] = k # [Suc k..<64]" by (rule upt_conv_Cons)
  note c = automove_class_correct(1,2) [OF Suc.prems(1) k] and e = same_but_windows_class [OF Suc.prems(2)]
  have w: "\<exists>w. advance k b = a\<lparr>windows := w\<rparr>"
    using same_but_windows_advance [OF Suc.prems(2,1) k] by (simp add: same_but_windows_def)
  show ?case
  proof (cases "reclaimable k a")
    case True
    have "oldest_ok k a (L\<lparr>am_src := int k, am_dst := 0\<rparr>)" "youngest_ok k a (L\<lparr>am_src := int k, am_dst := 0\<rparr>)"
      using Suc.prems(5,6) by (simp_all add: oldest_ok_def youngest_ok_def)
    then show ?thesis using True Suc.prems(3,7) c(2) w k unfolding u
      by (intro exI [of _ "advance k b"] exI [of _ "L\<lparr>am_src := int k, am_dst := 0\<rparr>"] exI [of _ k]) (simp add: c(1) e)
  next
    case False
    note o = consider_class_ok [OF assms(1) Suc.prems(3) k Suc.prems(5,6)]
    have s: "automove_loop [k..<64] b L = automove_loop [Suc k..<64] (advance k b) (consider_class k a L)"
      unfolding u using False by (simp add: c(1) e)
    have r: "\<forall>m \<in> {1..<Suc k}. \<not> reclaimable m a" using Suc.prems(7) False by (auto simp: less_Suc_eq)
    show ?thesis unfolding s
      using Suc.hyps(2) Suc.prems(3,8,9) k r o c(2) same_but_windows_advance [OF Suc.prems(2,1) k] by (intro Suc.hyps(1)) simp_all
  qed
qed

section \<open>Doubles, continued\<close>

lemma double_round_exact: "n < 2 ^ 53 \<Longrightarrow> double_round n = n"
proof -
  assume n: "n < 2 ^ 53"
  have "floorlog 2 n \<le> 53"
  proof (rule ccontr)
    assume f: "\<not> floorlog 2 n \<le> 53"
    then have "0 < n" by (cases n) (auto simp: floorlog_def)
    then have "2 ^ (floorlog 2 n - 1) \<le> n" using floorlog_bounds [of n 2] by simp
    moreover have "(2 :: nat) ^ 53 \<le> 2 ^ (floorlog 2 n - 1)" using f by (intro power_increasing) simp_all
    ultimately show False using n by linarith
  qed
  then show ?thesis by (simp add: double_round_def double_shift_def)
qed

text \<open>Rounding never passes a representable value.\<close>

lemma double_round_le:
  assumes le: "n \<le> x * 2 ^ e" and x: "x < 2 ^ 53"
  shows "double_round n \<le> x * 2 ^ e"
proof (cases "double_shift n = 0")
  case True
  then show ?thesis using le by (simp add: double_round_def)
next
  case False
  let ?k = "double_shift n"
  have k: "floorlog 2 n = ?k + 53" using False by (simp add: double_shift_def)
  then have "0 < n" by (cases n) (auto simp: floorlog_def)
  then have "2 ^ (?k + 52) \<le> n" using floorlog_bounds [of n 2] k by (simp add: add.commute)
  also have "n \<le> x * 2 ^ e" by (rule le)
  also have "x * 2 ^ e < 2 ^ (53 + e)" using x by (simp add: power_add)
  finally have "?k + 52 < 53 + e" by (simp only: power_strict_increasing_iff)
  then have "(2 :: nat) ^ ?k dvd x * 2 ^ e" by (simp add: le_imp_power_dvd)
  then obtain y where y: "x * 2 ^ e = y * 2 ^ ?k" by (auto simp: dvd_def mult.commute)
  let ?q = "n div 2 ^ ?k"
  have d: "n = ?q * 2 ^ ?k + n mod 2 ^ ?k" by (rule div_mult_mod_eq [symmetric])
  have "?q \<le> y" using div_le_mono [OF le, of "2 ^ ?k"] unfolding y by simp
  moreover have "Suc ?q \<le> y" if "0 < n mod 2 ^ ?k"
  proof -
    have "?q * 2 ^ ?k < y * 2 ^ ?k" using that d le unfolding y by linarith
    then show ?thesis by simp
  qed
  moreover have "0 < n mod 2 ^ ?k" if "2 ^ ?k < 2 * (n mod 2 ^ ?k) \<or> 2 * (n mod 2 ^ ?k) = 2 ^ ?k" using that by (cases "n mod 2 ^ ?k") auto
  ultimately show ?thesis unfolding y double_round_def Let_def by (auto intro: mult_le_mono1)
qed

lemma double_less_scaled_less:
  assumes "double_less_scaled (of_nat y) (of_nat x) (m, e)" "m \<le> 2 ^ e" "x < 2 ^ 32" "y < 2 ^ 32"
  shows "y < x"
proof -
  have u: "unat (of_nat x :: u64) = x" "unat (of_nat y :: u64) = y" using assms(3,4) by (simp_all add: unat_of_nat)
  have r: "double_round x = x" "double_round y = y" using assms(3,4) by (simp_all add: double_round_exact)
  have "double_round (x * m) \<le> x * 2 ^ e" using assms(2,3) by (intro double_round_le) simp_all
  moreover have "y * 2 ^ e < double_round (x * m)" using assms(1) unfolding double_less_scaled_def by (simp add: u r)
  ultimately have "y * 2 ^ e < x * 2 ^ e" by linarith
  then show ?thesis by simp
qed

section \<open>Properties\<close>

definition automove_sampled :: "'z lru_state_scheme \<Rightarrow> slab_automove \<Rightarrow> slab_automove" where
  "automove_sampled s a =
     a\<lparr>iam_after := fill_item_stats_automove s, sam_after := fill_slab_stats_automove s, window_cur := window_cur a + 1\<rparr>"

lemma automove_sampled_inv [simp]: "automove_inv (automove_sampled s a) = automove_inv a"
  by (simp add: automove_inv_def automove_sampled_def)

lemma slab_automove_init_inv:
  assumes "0 < wsize" "wsize < 2 ^ 25" "slab_automove_init al aw wsize ratio s = Some a"
  shows "automove_inv a"
proof -
  have w: "unat wsize < 33554432" using assms(2) by (simp add: word_less_nat_alt)
  have "unat (wsize * 64) = 64 * unat wsize" using w by (simp add: unat_word_ariths(2))
  then show ?thesis using assms by (auto simp: slab_automove_init_def automove_inv_def Let_def split: if_splits)
qed

lemma slab_automove_run_correct:
  fixes s :: "'z lru_state_scheme"
  assumes "automove_inv a"
  defines "a1 \<equiv> automove_sampled s a"
  obtains src dst a' L e w where "slab_automove_run s a = Some (src, dst, a')" "automove_inv a'"
    "a' = a1\<lparr>windows := w, iam_before := iam_after a1, sam_before := sam_after a1\<rparr>"
    "e \<le> 64" "\<forall>m \<in> {1..<e}. \<not> reclaimable m a1" "oldest_ok e a1 L" "youngest_ok e a1 L"
    "(src, dst) = (if youngest L \<noteq> -1 \<and> oldest L \<noteq> -1 \<and> window_size a1 < window_cur a1 \<and>
         double_less_scaled (youngest_age L) (oldest_age L) (max_age_ratio a1) \<and> youngest_evicting L then (oldest L, youngest L)
       else if e = 64 then (-1, -1) else (int e, 0))"
    "e = 64 \<or> 1 \<le> e \<and> reclaimable e a1"
proof -
  have i: "automove_inv a1" using assms by simp
  have "same_but_windows 1 a1 a1" by (auto simp: same_but_windows_def intro: exI [of _ "windows a1"])
  moreover have "oldest_ok 1 a1 automove_start" "youngest_ok 1 a1 automove_start"
    by (simp_all add: oldest_ok_def youngest_ok_def automove_start_def)
  moreover have "am_src automove_start = -1" "am_dst automove_start = -1" by (simp_all add: automove_start_def)
  ultimately obtain b L e where l: "automove_loop [1..<64] a1 automove_start = Some (b, L)" "automove_inv b" "\<exists>w. b = a1\<lparr>windows := w\<rparr>"
    "e \<le> 64" "\<forall>m \<in> {1..<e}. \<not> reclaimable m a1" "oldest_ok e a1 L" "youngest_ok e a1 L"
    "if e = 64 then am_src L = -1 \<and> am_dst L = -1 else 1 \<le> e \<and> reclaimable e a1 \<and> am_src L = int e \<and> am_dst L = 0"
    using automove_loop_correct [OF i i, of 1 automove_start] by auto
  obtain w where w: "b = a1\<lparr>windows := w\<rparr>" using l(3) by blast
  let ?a = "a1\<lparr>windows := w, iam_before := iam_after a1, sam_before := sam_after a1\<rparr>"
  let ?c = "youngest L \<noteq> -1 \<and> oldest L \<noteq> -1 \<and> window_size a1 < window_cur a1 \<and>
         double_less_scaled (youngest_age L) (oldest_age L) (max_age_ratio a1) \<and> youngest_evicting L"
  have r: "slab_automove_run s a = Some (if ?c then oldest L else am_src L, if ?c then youngest L else am_dst L, ?a)"
    unfolding slab_automove_run_def Let_def automove_sampled_def [symmetric] a1_def [symmetric] l(1) w by (cases ?c) auto
  have ia: "automove_inv ?a" using l(2) by (simp add: w automove_inv_def)
  show ?thesis using that [OF r ia refl l(4-7)] l(8) by (auto split: if_splits)
qed

text \<open>The page balancer as a sequence of runs, one per sampled state of the cache.\<close>

fun automove_runs :: "'z lru_state_scheme list \<Rightarrow> slab_automove \<Rightarrow> ((int \<times> int) list \<times> slab_automove) option" where
  "automove_runs [] a = Some ([], a)"
| "automove_runs (s # ss) a = do {
     (src, dst, a) \<leftarrow> slab_automove_run s a;
     (ds, a) \<leftarrow> automove_runs ss a;
     Some ((src, dst) # ds, a)
   }"

definition move_ok :: "int \<times> int \<Rightarrow> bool" where
  "move_ok d \<longleftrightarrow> d = (-1, -1) \<or> fst d \<in> {1..63} \<and> snd d \<in> {0..63}"

lemma slab_automove_run_typed:
  assumes "automove_inv a"
  shows "\<exists>src dst a'. slab_automove_run s a = Some (src, dst, a') \<and> automove_inv a' \<and> move_ok (src, dst)"
proof -
  obtain src dst a' L e w where r: "slab_automove_run s a = Some (src, dst, a')" "automove_inv a'" "e \<le> 64"
    "oldest_ok e (automove_sampled s a) L" "youngest_ok e (automove_sampled s a) L"
    and d: "(src, dst) = (if youngest L \<noteq> -1 \<and> oldest L \<noteq> -1 \<and> window_size (automove_sampled s a) < window_cur (automove_sampled s a) \<and>
         double_less_scaled (youngest_age L) (oldest_age L) (max_age_ratio (automove_sampled s a)) \<and> youngest_evicting L then (oldest L, youngest L)
       else if e = 64 then (-1, -1) else (int e, 0))" and e: "e = 64 \<or> 1 \<le> e \<and> reclaimable e (automove_sampled s a)"
    by (rule slab_automove_run_correct [OF assms, of s])
  have "oldest L \<noteq> -1 \<longrightarrow> oldest L \<in> {1..63}" "youngest L \<noteq> -1 \<longrightarrow> youngest L \<in> {0..63}"
    using r(3-5) by (auto simp: oldest_ok_def youngest_ok_def)
  then have "move_ok (src, dst)" unfolding d using e r(3) by (auto simp: move_ok_def)
  then show ?thesis using r(1,2) by blast
qed

lemma automove_runs_typed:
  assumes "automove_inv a"
  shows "\<exists>ds a'. automove_runs ss a = Some (ds, a') \<and> automove_inv a' \<and> length ds = length ss \<and> (\<forall>d \<in> set ds. move_ok d)"
  using assms
proof (induction ss arbitrary: a)
  case (Cons s ss)
  obtain src dst b where b: "slab_automove_run s a = Some (src, dst, b)" "automove_inv b" "move_ok (src, dst)"
    using slab_automove_run_typed [OF Cons.prems] by blast
  show ?case using Cons.IH [OF b(2)] b(1,3) by auto
qed simp

text \<open>
  (C34) Well-typedness of the page balancer. Started with a window of 1 to 2^25 - 1 samples, it never divides by zero and never reaches
  outside of its window array in any sequence of runs; every decision is \<open>(-1, -1)\<close> or names a slab class as source and a
  slab class or the global pool as destination.
\<close>

theorem slab_automove_well_typed:
  assumes "0 < wsize" "wsize < 2 ^ 25" "slab_automove_init True True wsize ratio s = Some a"
  shows "\<exists>ds a'. automove_runs ss a = Some (ds, a') \<and> length ds = length ss \<and>
    (\<forall>(src, dst) \<in> set ds. src = -1 \<and> dst = -1 \<or> src \<in> {1..63} \<and> dst \<in> {0..63})"
  using automove_runs_typed [OF slab_automove_init_inv [OF assms], of ss] by (fastforce simp: move_ok_def)

theorem slab_automove_well_typed_witness:
  "\<exists>a ds a'. slab_automove_init True True 10 (7205759403792794, 53) ex_cache = Some a \<and>
     automove_runs [ex_cache, ex_cache\<lparr>current_time := 101\<rparr>] a = Some (ds, a') \<and> length ds = 2"
proof -
  obtain a where a: "slab_automove_init True True 10 (7205759403792794, 53) ex_cache = Some a" by (auto simp: slab_automove_init_def Let_def)
  show ?thesis using slab_automove_well_typed [OF _ _ a, of "[ex_cache, ex_cache\<lparr>current_time := 101\<rparr>]"] a by auto
qed


definition ex_reclaim :: lru_state where
  "ex_reclaim = upd_class 1 (\<lambda>p. p\<lparr>perslab := 10, sl_curr := 26\<rparr>) ex_cache"


text \<open>The delays of the maintainer thread.\<close>

definition juggles_ok :: "juggles \<Rightarrow> bool" where
  "juggles_ok J \<longleftrightarrow> (\<forall>i. next_juggles J i \<le> 1000000 \<and> backoff_juggles J i \<le> 1000000 \<and> (backoff_juggles J i = 0 \<or> 1000 \<le> backoff_juggles J i))"

lemma next_backoff_bounds:
  assumes "b \<le> 1000000"
  shows "next_backoff m b \<le> 1000000" "b = 0 \<or> 1000 \<le> b \<Longrightarrow> next_backoff m b = 0 \<or> 1000 \<le> next_backoff m b"
proof -
  have u: "unat b \<le> 1000000" using assms by (simp add: word_le_nat_alt)
  have s: "unat (b + b div 8) = unat b + unat b div 8" using u by (simp add: unat_word_ariths(1) unat_div)
  have h: "unat (b div 2) = unat b div 2" by (simp add: unat_div)
  show "next_backoff m b \<le> 1000000" using u s h by (auto simp: next_backoff_def Let_def word_le_nat_alt word_less_nat_alt)
  show "b = 0 \<or> 1000 \<le> b \<Longrightarrow> next_backoff m b = 0 \<or> 1000 \<le> next_backoff m b"
    using u s h by (auto simp: next_backoff_def Let_def word_le_nat_alt word_less_nat_alt)
qed

lemma juggle_class_props:
  assumes "juggles_ok J"
  shows "juggles_ok (juggle_class m l i J)" "to_sleep (juggle_class m l i J) = min (to_sleep J) (next_juggles (juggle_class m l i J) i)"
    "k \<noteq> i \<Longrightarrow> next_juggles (juggle_class m l i J) k = next_juggles J k"
proof -
  have b: "next_juggles J k \<le> 1000000" "backoff_juggles J k \<le> 1000000" "backoff_juggles J k = 0 \<or> 1000 \<le> backoff_juggles J k" for k
    using assms by (simp_all add: juggles_ok_def)
  have n: "next_juggles J i - l \<le> 1000000" if "l < next_juggles J i"
    using that b(1) [of i] unfolding word_le_nat_alt unat_sub [OF order_less_imp_le [OF that]] by simp
  note bb = next_backoff_bounds [OF b(2) [of i]]
  show "juggles_ok (juggle_class m l i J)"
    using b n bb(1) bb(2) [OF b(3)] by (auto simp: juggle_class_def juggles_ok_def Let_def)
  show "to_sleep (juggle_class m l i J) = min (to_sleep J) (next_juggles (juggle_class m l i J) i)"
    by (auto simp: juggle_class_def Let_def min_def)
  show "k \<noteq> i \<Longrightarrow> next_juggles (juggle_class m l i J) k = next_juggles J k" by (auto simp: juggle_class_def Let_def)
qed

lemma Min_insert_min: "finite A \<Longrightarrow> Min (insert (min a b) A) = min a (Min (insert b A))"
  by (cases "A = {}") (simp_all add: min.assoc)

lemma juggle_fold:
  fixes m l
  assumes "juggles_ok J" "distinct xs"
  defines "J' \<equiv> fold (juggle_class m l) xs J"
  shows "juggles_ok J' \<and> to_sleep J' = Min (insert (to_sleep J) (next_juggles J' ` set xs)) \<and> (\<forall>k. k \<notin> set xs \<longrightarrow> next_juggles J' k = next_juggles J k)"
  using assms(1,2) unfolding J'_def
proof (induction xs arbitrary: J)
  case (Cons x xs)
  note c = juggle_class_props [OF Cons.prems(1), where m = m and l = l and i = x]
  note ih = Cons.IH [OF c(1)]
  show ?case using ih c Cons.prems(2) by (simp add: Min_insert_min)
qed simp

text \<open>
  The delays of the LRU maintainer stay in their bounds without wrap-around: no class waits longer than a second, a back-off is zero or at
  least a millisecond, and after a pass over the classes the thread sleeps exactly until the first class is due.
\<close>

theorem juggle_pass_sleep:
  assumes "juggles_ok J"
  shows "juggles_ok (juggle_pass m J) \<and> to_sleep (juggle_pass m J) = Min (next_juggles (juggle_pass m J) ` {1..<64})"
proof -
  define l :: u32 where "l = (if 1000 < to_sleep J then to_sleep J else 1000)"
  let ?J = "juggle_pass m J"
  have p: "?J = fold (juggle_class m l) [1..<64] (J\<lparr>to_sleep := 1000000\<rparr>)" by (simp add: juggle_pass_def Let_def l_def)
  have f: "juggles_ok ?J" "to_sleep ?J = Min (insert 1000000 (next_juggles ?J ` {1..<64}))"
    using juggle_fold [of "J\<lparr>to_sleep := 1000000\<rparr>" "[1..<64]" m l] assms unfolding p by (simp_all add: juggles_ok_def)
  have "Min (next_juggles ?J ` {1..<64}) \<le> next_juggles ?J 1" by (rule Min_le) simp_all
  also have "\<dots> \<le> 1000000" using f(1) by (simp add: juggles_ok_def)
  finally have "Min (insert 1000000 (next_juggles ?J ` {1..<64})) = Min (next_juggles ?J ` {1..<64})" by simp
  then show ?thesis using f by simp
qed

theorem juggle_pass_sleep_witness:
  "let J = juggle_pass (\<lambda>_. 0) \<lparr>next_juggles = \<lambda>_. 0, backoff_juggles = \<lambda>_. 0, to_sleep = 1000\<rparr>
   in juggles_ok J \<and> to_sleep J = Min (next_juggles J ` {1..<64})"
  unfolding Let_def by (rule juggle_pass_sleep) (simp add: juggles_ok_def)

end
