(* ===== verification/Tokens.thy ===== *)
theory Tokens
  imports Util
begin

text \<open>
  The tokenizer of the text protocol, \<^verbatim>\<open>tokenize_command\<close> of \<^verbatim>\<open>thread/memcached.c\<close>. It cuts a command line at its spaces,
  in place: a token is an offset into the line and a length, and the space behind a token becomes a NUL byte. At most
  \<open>max_tokens - 1\<close> words are cut off; the terminal token points at the unprocessed rest, or is NULL at the end of the line.
  A line is the list of its bytes in front of the terminating NUL.
\<close>

type_synonym token_t = "nat option \<times> nat"

abbreviation (input) MAX_TOKENS :: nat where "MAX_TOKENS \<equiv> 8"

section \<open>The tokenizer\<close>

text \<open>The loop returns the line, \<^verbatim>\<open>s\<close>, \<^verbatim>\<open>e\<close> and the tokens found.\<close>

function tokenize_loop :: "nat \<Rightarrow> bytes \<Rightarrow> nat \<Rightarrow> nat \<Rightarrow> token_t list \<Rightarrow> bytes \<times> nat \<times> nat \<times> token_t list" where
  "tokenize_loop max_tokens buf s e tokens =
     (if e < length buf then
        (if buf ! e = 32 then
           (if s \<noteq> e then
              (let tokens = tokens @ [(Some s, e - s)];
                   buf = buf[e := 0]
               in if length tokens = max_tokens - 1 then (buf, e + 1, e + 1, tokens)
                  else tokenize_loop max_tokens buf (e + 1) (e + 1) tokens)
            else tokenize_loop max_tokens buf (e + 1) (e + 1) tokens)
         else tokenize_loop max_tokens buf s (e + 1) tokens)
      else (buf, s, e, tokens))"
  by pat_completeness auto
termination by (relation "measure (\<lambda>(_, buf, _, e, _). length buf - e)") auto

declare tokenize_loop.simps [simp del]

definition tokenize_command :: "nat \<Rightarrow> bytes \<Rightarrow> (bytes \<times> token_t list) option" where
  "tokenize_command max_tokens command = do {
     c_assert (1 < max_tokens);
     let (buf, s, e, tokens) = tokenize_loop max_tokens command 0 0 [];
     let tokens = (if s \<noteq> e then tokens @ [(Some s, e - s)] else tokens);
     let tokens = tokens @ [(if e < length buf \<and> buf ! e \<noteq> 0 then Some e else None, 0)];
     Some (buf, tokens)
   }"

text \<open>The bytes of a token, and \<^verbatim>\<open>strcmp\<close> of a token with a literal: the token is a C string of its own.\<close>

definition token_text :: "bytes \<Rightarrow> token_t \<Rightarrow> bytes" where
  "token_text buf t = (case t of (v, l) \<Rightarrow> take l (drop (the v) buf))"

text \<open>\<^verbatim>\<open>set_noreply_maybe\<close>: the last token in front of the terminal one is compared with \<^verbatim>\<open>noreply\<close>.\<close>

definition noreply_word :: bytes where
  "noreply_word = [110, 111, 114, 101, 112, 108, 121]"

definition set_noreply_maybe :: "bytes \<Rightarrow> token_t list \<Rightarrow> bool \<Rightarrow> bool" where
  "set_noreply_maybe buf tokens noreply =
     (let t = tokens ! (length tokens - 2)
      in if fst t \<noteq> None \<and> token_text buf t = noreply_word then True else noreply)"

section \<open>Reference: the words of a line\<close>

function words :: "bytes \<Rightarrow> bytes list" where
  "words [] = []"
| "words (c # cs) = (if c = 32 then words cs else (c # takeWhile (\<lambda>b. b \<noteq> 32) cs) # words (dropWhile (\<lambda>b. b \<noteq> 32) cs))"
  by pat_completeness auto
termination by (relation "measure length") (auto simp: less_Suc_eq_le length_dropWhile_le)

lemma words_space [simp]: "words (32 # ys) = words ys"
  by simp

lemma no_space:
  assumes "32 \<notin> set cs"
  shows "takeWhile (\<lambda>b. b \<noteq> (32 :: 8 word)) cs = cs" "dropWhile (\<lambda>b. b \<noteq> 32) cs = []"
    "takeWhile (\<lambda>b. b \<noteq> 32) (cs @ 32 # ys) = cs" "dropWhile (\<lambda>b. b \<noteq> 32) (cs @ 32 # ys) = 32 # ys"
  using assms by (induction cs) auto

lemma words_last: "xs \<noteq> [] \<Longrightarrow> 32 \<notin> set xs \<Longrightarrow> words xs = [xs]"
  by (cases xs) (simp_all add: no_space)

lemma words_cut: "xs \<noteq> [] \<Longrightarrow> 32 \<notin> set xs \<Longrightarrow> words (xs @ 32 # ys) = xs # words ys"
  by (cases xs) (simp_all add: no_space)

lemma words_nonempty: "w \<in> set (words cs) \<Longrightarrow> w \<noteq> [] \<and> 32 \<notin> set w"
  by (induction cs rule: words.induct) (auto split: if_splits dest: set_takeWhileD)

lemma token_text_mid [simp]: "token_text (xs @ ys @ zs) (Some (length xs), length ys) = ys"
  by (simp add: token_text_def)

text \<open>The loop, with the line as \<open>pre @ xs @ rest\<close>: \<open>xs\<close> is the word under way.\<close>

definition loop_post :: "nat \<Rightarrow> nat \<Rightarrow> bytes \<Rightarrow> bytes \<Rightarrow> bytes \<Rightarrow> token_t list \<Rightarrow> bytes \<times> nat \<times> nat \<times> token_t list \<Rightarrow> bool" where
  "loop_post mx n pre ws line tokens r \<longleftrightarrow>
     (case r of (buf, s, e, tokens') \<Rightarrow>
        length buf = length line \<and> take (length pre) buf = pre \<and> length pre \<le> s \<and> s \<le> e \<and> e \<le> length line \<and> drop s buf = drop s line \<and>
        (\<exists>new. tokens' = tokens @ new \<and> (\<forall>t \<in> set new. \<exists>v. fst t = Some v \<and> 0 < snd t \<and> v + snd t < s \<and> buf ! (v + snd t) = 0) \<and>
           (length new = n \<and> s = e \<and> map (token_text buf) new = take n (words ws) \<and> words (drop e line) = drop n (words ws) \<or>
            length new < n \<and> e = length line \<and> 32 \<notin> set (drop s line) \<and> map (token_text buf) new @ (if s = e then [] else [drop s line]) = words ws)))"

lemma loop_post_step:
  assumes "loop_post mx (n - 1) (pre @ xs @ [0]) rest (pre @ xs @ 0 # rest) (tokens @ [(Some (length pre), length xs)]) r"
    "words (xs @ c # rest) = xs # words rest" "xs \<noteq> []" "n \<noteq> 1" "0 < n"
  shows "loop_post mx n pre (xs @ c # rest) (pre @ xs @ c # rest) tokens r"
proof -
  obtain buf s e tokens' where r: "r = (buf, s, e, tokens')" by (cases r)
  let ?t = "(Some (length pre), length xs)"
  obtain m where m: "n = Suc m" "0 < m" using assms(4,5) by (cases n) auto
  note p = assms(1) [unfolded r loop_post_def m(1), simplified]
  have tk: "take (length pre + Suc (length xs)) buf = pre @ xs @ [0]" using p by simp
  then have b: "buf = pre @ xs @ 0 # drop (length pre + Suc (length xs)) buf"
    by (metis append.assoc append_Cons append_Nil append_take_drop_id)
  have tt: "token_text buf ?t = xs" by (subst b) (rule token_text_mid)
  have z: "buf ! (length pre + length xs) = 0" by (subst b) (simp add: nth_append)
  have d: "drop s (pre @ xs @ 0 # rest) = drop s (pre @ xs @ c # rest)" if "length pre + Suc (length xs) \<le> s" for s
    using that by (simp add: drop_Cons')
  obtain new where new: "tokens' = (tokens @ [?t]) @ new" "\<forall>t \<in> set new. \<exists>v. fst t = Some v \<and> 0 < snd t \<and> v + snd t < s \<and> buf ! (v + snd t) = 0"
    and alt: "length new = m \<and> s = e \<and> map (token_text buf) new = take m (words rest) \<and> words (drop e (pre @ xs @ 0 # rest)) = drop m (words rest) \<or>
      length new < m \<and> e = length (pre @ xs @ 0 # rest) \<and> 32 \<notin> set (drop s (pre @ xs @ 0 # rest)) \<and>
      map (token_text buf) new @ (if s = e then [] else [drop s (pre @ xs @ 0 # rest)]) = words rest"
    using p by auto
  have le: "length pre + Suc (length xs) \<le> s" "s \<le> e" using p by simp_all
  have pre: "take (length pre) buf = pre" by (subst b) simp
  show ?thesis unfolding r loop_post_def prod.case
  proof (intro conjI exI [of _ "?t # new"])
    show "\<forall>t \<in> set (?t # new). \<exists>v. fst t = Some v \<and> 0 < snd t \<and> v + snd t < s \<and> buf ! (v + snd t) = 0"
      using new(2) le z assms(3) by auto
    show "length (?t # new) = n \<and> s = e \<and> map (token_text buf) (?t # new) = take n (words (xs @ c # rest)) \<and>
        words (drop e (pre @ xs @ c # rest)) = drop n (words (xs @ c # rest)) \<or>
      length (?t # new) < n \<and> e = length (pre @ xs @ c # rest) \<and> 32 \<notin> set (drop s (pre @ xs @ c # rest)) \<and>
        map (token_text buf) (?t # new) @ (if s = e then [] else [drop s (pre @ xs @ c # rest)]) = words (xs @ c # rest)"
      using alt d [of s] d [of e] le tt unfolding assms(2) m(1) by auto
  qed (use p new(1) le d [of s] pre in auto)
qed

lemma tokenize_loop_correct:
  assumes "32 \<notin> set xs" "0 < n" "length tokens + n = mx - 1"
  shows "loop_post mx n pre (xs @ rest) (pre @ xs @ rest) tokens
    (tokenize_loop mx (pre @ xs @ rest) (length pre) (length pre + length xs) tokens)"
  using assms
proof (induction rest arbitrary: pre xs tokens n)
  case Nil
  then show ?case
    by (auto simp: tokenize_loop.simps [of mx] loop_post_def words_last)
next
  case (Cons c rest)
  let ?b = "pre @ xs @ c # rest"
  have nth: "?b ! (length pre + length xs) = c" by (simp add: nth_append)
  show ?case
  proof (cases "c = 32")
    case False
    have "loop_post mx n pre ((xs @ [c]) @ rest) (pre @ (xs @ [c]) @ rest) tokens
      (tokenize_loop mx (pre @ (xs @ [c]) @ rest) (length pre) (length pre + length (xs @ [c])) tokens)"
      using Cons.prems False by (intro Cons.IH) auto
    then show ?thesis using False nth by (simp add: tokenize_loop.simps [of mx ?b])
  next
    case True
    show ?thesis
    proof (cases "xs = []")
      case xs: True
      have "loop_post mx n (pre @ [32]) rest (pre @ 32 # rest) tokens
        (tokenize_loop mx (pre @ 32 # rest) (Suc (length pre)) (Suc (length pre)) tokens)"
        using Cons.IH [where xs = "[]" and pre = "pre @ [32]" and tokens = tokens and n = n] Cons.prems by simp
      then have "loop_post mx n pre (32 # rest) (pre @ 32 # rest) tokens
        (tokenize_loop mx (pre @ 32 # rest) (Suc (length pre)) (Suc (length pre)) tokens)"
        by (auto simp: loop_post_def take_Suc_conv_app_nth dest: arg_cong [where f = "take (length pre)"])
      then show ?thesis using True xs by (simp add: tokenize_loop.simps [of mx "pre @ 32 # rest" "length pre" "length pre"])
    next
      case xs: False
      let ?l = "pre @ xs @ 0 # rest" and ?t = "(Some (length pre), length xs)"
      have upd: "?b[length pre + length xs := 0] = ?l" by (simp add: list_update_append)
      have w: "words (xs @ c # rest) = xs # words rest" using Cons.prems(1) xs True by (simp add: words_cut)
      show ?thesis
      proof (cases "n = 1")
        case n: True
        have "tokenize_loop mx ?b (length pre) (length pre + length xs) tokens =
          (?l, Suc (length pre + length xs), Suc (length pre + length xs), tokens @ [?t])"
          using True xs n Cons.prems(3) nth [unfolded True] by (simp add: tokenize_loop.simps [of mx "pre @ xs @ 32 # rest" "length pre"] upd [unfolded True])
        then show ?thesis using n w xs by (auto simp: loop_post_def)
      next
        case n: False
        have eq: "tokenize_loop mx ?b (length pre) (length pre + length xs) tokens =
          tokenize_loop mx ?l (Suc (length pre + length xs)) (Suc (length pre + length xs)) (tokens @ [?t])"
          using True xs n Cons.prems nth [unfolded True] by (simp add: tokenize_loop.simps [of mx "pre @ xs @ 32 # rest" "length pre"] upd [unfolded True])
        have "loop_post mx (n - 1) (pre @ xs @ [0]) rest ?l (tokens @ [?t]) (tokenize_loop mx ?b (length pre) (length pre + length xs) tokens)"
          using Cons.IH [where xs = "[]" and pre = "pre @ xs @ [0]" and tokens = "tokens @ [?t]" and n = "n - 1"] Cons.prems n
          unfolding eq by simp
        then show ?thesis using w xs n Cons.prems(2) by (rule loop_post_step)
      qed
    qed
  qed
qed

definition terminal_ok :: "nat \<Rightarrow> bytes \<Rightarrow> bytes \<Rightarrow> token_t list \<Rightarrow> bool" where
  "terminal_ok n line buf tokens \<longleftrightarrow>
     (case fst (last tokens) of None \<Rightarrow> 0 \<in> set line \<or> length (words line) \<le> n
      | Some e \<Rightarrow> 0 < e \<and> e < length line \<and> drop e buf = drop e line \<and> words (drop e line) = drop n (words line))"

lemma tokenize_command_correct:
  assumes "1 < mx"
  obtains buf tokens where "tokenize_command mx line = Some (buf, tokens)" "length buf = length line" "tokens \<noteq> []" "length tokens \<le> mx"
    "map (token_text buf) (butlast tokens) = take (mx - 1) (words line)" "snd (last tokens) = 0"
    "\<forall>t \<in> set (butlast tokens). \<exists>v. fst t = Some v \<and> 0 < snd t \<and> v + snd t \<le> length line \<and> (v + snd t = length line \<or> buf ! (v + snd t) = 0)"
    "terminal_ok (mx - 1) line buf tokens" "fst (last tokens) \<noteq> None \<longrightarrow> length tokens = mx"
proof -
  obtain buf s e new where l: "tokenize_loop mx line 0 0 [] = (buf, s, e, new)" by (metis prod_cases4)
  have "loop_post mx (mx - 1) [] line line [] (buf, s, e, new)"
    using tokenize_loop_correct [where xs = "[]" and pre = "[]" and tokens = "[]" and n = "mx - 1" and mx = mx and rest = line] assms l by simp
  then have p: "length buf = length line" "s \<le> e" "e \<le> length line" "drop s buf = drop s line"
    "\<forall>t \<in> set new. \<exists>v. fst t = Some v \<and> 0 < snd t \<and> v + snd t < s \<and> buf ! (v + snd t) = 0"
    and alt: "length new = mx - 1 \<and> s = e \<and> map (token_text buf) new = take (mx - 1) (words line) \<and> words (drop e line) = drop (mx - 1) (words line) \<or>
      length new < mx - 1 \<and> e = length line \<and> 32 \<notin> set (drop s line) \<and> map (token_text buf) new @ (if s = e then [] else [drop s line]) = words line"
    by (auto simp: loop_post_def)
  let ?v = "if e < length buf \<and> buf ! e \<noteq> 0 then Some e else None"
  let ?w = "(if s \<noteq> e then new @ [(Some s, e - s)] else new)"
  have t: "tokenize_command mx line = Some (buf, ?w @ [(?v, 0)])"
    using assms by (simp add: tokenize_command_def l Let_def)
  from alt show ?thesis
  proof (elim disjE conjE)
    assume a: "length new = mx - 1" "s = e" "map (token_text buf) new = take (mx - 1) (words line)" "words (drop e line) = drop (mx - 1) (words line)"
    have "new \<noteq> []" using a(1) assms by auto
    then obtain t where "t \<in> set new" by (cases new) auto
    then have e: "0 < e" using p(5) a(2) by fastforce
    have d: "drop e buf = drop e line" using p(4) a(2) by simp
    then have x: "buf ! e = line ! e" if "e < length line" using that p(1) by (metis Cons_nth_drop_Suc list.inject)
    have w: "length (words line) \<le> mx - 1" if "\<not> e < length line" using that a(4) by simp
    have z: "0 \<in> set line" if "e < length line" "line ! e = 0" using that by (metis nth_mem)
    have "terminal_ok (mx - 1) line buf (?w @ [(?v, 0)])"
      using e p(1) d a(4) w x z by (cases "e < length line") (auto simp: terminal_ok_def)
    moreover have "\<forall>t \<in> set new. \<exists>v. fst t = Some v \<and> 0 < snd t \<and> v + snd t \<le> length line \<and> (v + snd t = length line \<or> buf ! (v + snd t) = 0)"
      using p(3,5) a(2) by fastforce
    ultimately show ?thesis using that [OF t p(1)] a assms by simp
  next
    assume a: "length new < mx - 1" "e = length line" "32 \<notin> set (drop s line)" "map (token_text buf) new @ (if s = e then [] else [drop s line]) = words line"
    have w: "map (token_text buf) ?w = words line" using a(2,4) p(1,4) by (auto simp: token_text_def)
    then have len: "length (words line) = length ?w" by (metis length_map)
    then have le: "length (words line) \<le> mx - 1" using a(1) by auto
    have "terminal_ok (mx - 1) line buf (?w @ [(?v, 0)])" using a(2) p(1) le by (simp add: terminal_ok_def)
    moreover have "\<forall>t \<in> set ?w. \<exists>v. fst t = Some v \<and> 0 < snd t \<and> v + snd t \<le> length line \<and> (v + snd t = length line \<or> buf ! (v + snd t) = 0)"
    proof -
      have "\<forall>t \<in> set new. \<exists>v. fst t = Some v \<and> 0 < snd t \<and> v + snd t \<le> length line \<and> (v + snd t = length line \<or> buf ! (v + snd t) = 0)"
        using p(2,3,5) by fastforce
      then show ?thesis using p(2) a(2) by auto
    qed
    ultimately show ?thesis using that [OF t p(1)] w len le a(1,2) p(1) by simp
  qed
qed

section \<open>All keys of a line\<close>

text \<open>The walk of \<^verbatim>\<open>process_get_command\<close> over the keys of a line, from token \<open>i\<close> on: when the tokens are used up, the rest is tokenized again.\<close>

function get_keys :: "nat \<Rightarrow> bytes \<Rightarrow> bytes list" where
  "get_keys i line =
     (case tokenize_command MAX_TOKENS line of
        None \<Rightarrow> []
      | Some (buf, tokens) \<Rightarrow>
          map (token_text buf) (drop i (butlast tokens)) @
          (case fst (last tokens) of None \<Rightarrow> [] | Some e \<Rightarrow> get_keys 0 (drop e buf)))"
  by pat_completeness auto
termination
proof (relation "measure (\<lambda>(_, line). length line)", goal_cases)
  case (2 i line x2 buf tokens e)
  have "1 < (8 :: nat)" by simp
  then obtain b t where "tokenize_command 8 line = Some (b, t)" "length b = length line" "terminal_ok (8 - 1) line b t"
    by (rule tokenize_command_correct [of 8 line])
  with 2 show ?case by (auto simp: terminal_ok_def)
qed simp

declare get_keys.simps [simp del]





end
