(* ===== verification/Conn_Io.thy ===== *)
theory Conn_Io
  imports Tokens
begin

text \<open>
  The buffers of a client connection in \<^verbatim>\<open>thread/memcached.c\<close>: reading from the socket (\<^verbatim>\<open>try_read_network\<close>, \<^verbatim>\<open>try_read_udp\<close>),
  finding a command line in the input (\<^verbatim>\<open>try_read_command\<close>), and queueing output as message headers over one array
  of iovecs (\<^verbatim>\<open>add_msghdr\<close>, \<^verbatim>\<open>add_iov\<close>, \<^verbatim>\<open>ensure_iov_space\<close>, \<^verbatim>\<open>out_string\<close>).

  The limits that the sources use but do not define (\<^verbatim>\<open>IOV_MAX\<close>, \<^verbatim>\<open>UDP_MAX_PAYLOAD_SIZE\<close>, \<^verbatim>\<open>UDP_HEADER_SIZE\<close>) are arguments. A pointer into the iovec array
  is a generation and an offset: growing the array may move it, which starts a new generation, and an access
  through a pointer of an old generation is undefined (\<^const>\<open>None\<close>). \<open>allocs\<close> holds the results of the coming \<^verbatim>\<open>realloc\<close> calls;
  when it is empty they succeed.
\<close>

section \<open>Connections\<close>

datatype conn_states =
  conn_listening | conn_new_cmd | conn_waiting | conn_read | conn_parse_cmd | conn_write | conn_nread | conn_swallow
  | conn_closing | conn_mwrite | conn_closed | conn_watch | conn_max_state

datatype protocol = ascii_prot | binary_prot | negotiating_prot

datatype network_transport = local_transport | tcp_transport | udp_transport

datatype try_read_result = READ_DATA_RECEIVED | READ_NO_DATA_RECEIVED | READ_ERROR | READ_MEMORY_ERROR

record limits =
  IOV_MAX :: nat
  UDP_MAX_PAYLOAD_SIZE :: nat
  UDP_HEADER_SIZE :: nat

record msghdr =
  msg_gen :: nat
  msg_iov :: nat
  msg_iovlen :: nat

record client =
  state :: conn_states
  rbuf :: bytes
  rcurr :: nat
  rbytes :: nat
  wbuf :: bytes
  wcurr :: nat
  wbytes :: nat
  write_and_go :: conn_states
  noreply :: bool
  prot :: protocol
  transport :: network_transport
  rlbytes :: int
  sbytes :: int
  request_id :: nat
  opcode :: u8
  opaque :: u32
  cas :: u64
  cmd :: int
  iov :: "nat \<Rightarrow> bytes"
  iov_gen :: nat
  iovsize :: nat
  iovused :: nat
  msglist :: "msghdr list"
  msgsize :: nat
  msgcurr :: nat
  msgbytes :: nat
  allocs :: "bool list"

definition IS_UDP :: "network_transport \<Rightarrow> bool" where
  "IS_UDP x \<longleftrightarrow> x = udp_transport"

definition c_realloc :: "client \<Rightarrow> bool \<times> client" where
  "c_realloc c = (case allocs c of [] \<Rightarrow> (True, c) | ok # rest \<Rightarrow> (ok, c\<lparr>allocs := rest\<rparr>))"

definition conn_set_state :: "conn_states \<Rightarrow> client \<Rightarrow> client option" where
  "conn_set_state st c = do {
     c_assert (st \<noteq> conn_max_state);
     Some (if st \<noteq> state c then c\<lparr>state := st\<rparr> else c)
   }"

section \<open>Queueing output\<close>

text \<open>When the array moves, every message header is pointed at its part of the new one.\<close>

fun repoint :: "nat \<Rightarrow> nat \<Rightarrow> msghdr list \<Rightarrow> msghdr list" where
  "repoint g iovnum [] = []"
| "repoint g iovnum (m # ms) = m\<lparr>msg_gen := g, msg_iov := iovnum\<rparr> # repoint g (iovnum + msg_iovlen m) ms"

definition ensure_iov_space :: "client \<Rightarrow> bool \<times> client" where
  "ensure_iov_space c =
     (if iovsize c \<le> iovused c then
        (let (ok, c) = c_realloc c
         in if \<not> ok then (False, c)
            else (True, c\<lparr>iov_gen := iov_gen c + 1, iovsize := iovsize c * 2, msglist := repoint (iov_gen c + 1) 0 (msglist c)\<rparr>))
      else (True, c))"

text \<open>The five statements that add an entry to the last message.\<close>

definition put_iov :: "bytes \<Rightarrow> client \<Rightarrow> client option" where
  "put_iov buf c = do {
     c_assert (msglist c \<noteq> []);
     let m = last (msglist c);
     c_assert (msg_gen m = iov_gen c \<and> msg_iov m + msg_iovlen m < iovsize c);
     Some (c\<lparr>iov := (iov c)(msg_iov m + msg_iovlen m := buf), msgbytes := msgbytes c + length buf, iovused := iovused c + 1,
       msglist := butlast (msglist c) @ [m\<lparr>msg_iovlen := msg_iovlen m + 1\<rparr>]\<rparr>)
   }"

text \<open>\<^verbatim>\<open>add_msghdr\<close>; for UDP it ends with \<^verbatim>\<open>add_iov(c, NULL, UDP_HEADER_SIZE)\<close>, which on the fresh, empty message neither starts another one nor
splits the header. The room for the header is filled in later; it is zero here.\<close>

definition add_msghdr :: "limits \<Rightarrow> client \<Rightarrow> (bool \<times> client) option" where
  "add_msghdr lim c =
     (let (ok, c) = (if msgsize c = length (msglist c)
                     then (let (ok, c) = c_realloc c in if ok then (True, c\<lparr>msgsize := msgsize c * 2\<rparr>) else (False, c)) else (True, c))
      in if \<not> ok then Some (False, c)
         else let c = c\<lparr>msglist := msglist c @ [\<lparr>msg_gen = iov_gen c, msg_iov = iovused c, msg_iovlen = 0\<rparr>], msgbytes := 0\<rparr>
              in if IS_UDP (transport c) then
                   (let (ok, c) = ensure_iov_space c
                    in if \<not> ok then Some (False, c) else map_option (Pair True) (put_iov (replicate (UDP_HEADER_SIZE lim) 0) c))
                 else Some (True, c))"

text \<open>The loop over the datagrams a buffer is split into. The result of \<^verbatim>\<open>add_msghdr\<close> is ignored, as in the code.\<close>

partial_function (option) add_iov_udp :: "limits \<Rightarrow> bytes \<Rightarrow> client \<Rightarrow> (bool \<times> client) option" where
  "add_iov_udp lim buf c = do {
     c_assert (msglist c \<noteq> []);
     c \<leftarrow> (if msg_iovlen (last (msglist c)) = IOV_MAX lim \<or> UDP_MAX_PAYLOAD_SIZE lim \<le> msgbytes c
           then map_option snd (add_msghdr lim c) else Some c);
     let (ok, c) = ensure_iov_space c;
     (if \<not> ok then Some (False, c)
      else do {
        let leftover = (if UDP_MAX_PAYLOAD_SIZE lim < length buf + msgbytes c then length buf + msgbytes c - UDP_MAX_PAYLOAD_SIZE lim else 0);
        c_assert (leftover \<le> length buf);
        let len = length buf - leftover;
        c \<leftarrow> put_iov (take len buf) c;
        (if 0 < leftover then add_iov_udp lim (drop len buf) c else Some (True, c))
      })
   }"

definition add_iov :: "limits \<Rightarrow> bytes \<Rightarrow> client \<Rightarrow> (bool \<times> client) option" where
  "add_iov lim buf c =
     (if IS_UDP (transport c) then add_iov_udp lim buf c
      else do {
        c_assert (msglist c \<noteq> []);
        c \<leftarrow> (if msg_iovlen (last (msglist c)) = IOV_MAX lim then map_option snd (add_msghdr lim c) else Some c);
        let (ok, c) = ensure_iov_space c;
        (if \<not> ok then Some (False, c) else map_option (Pair True) (put_iov buf c))
      })"

text \<open>\<^verbatim>\<open>out_string\<close>: the reply goes into \<^verbatim>\<open>wbuf\<close>; it is queued when the state machine gets to \<^verbatim>\<open>conn_write\<close>.\<close>

definition buf_write :: "nat \<Rightarrow> bytes \<Rightarrow> bytes \<Rightarrow> bytes option" where
  "buf_write pos bs buf = (if pos + length bs \<le> length buf then Some (take pos buf @ bs @ drop (pos + length bs) buf) else None)"

definition out_string :: "limits \<Rightarrow> bytes \<Rightarrow> client \<Rightarrow> client option" where
  "out_string lim str c =
     (if noreply c then conn_set_state conn_new_cmd (c\<lparr>noreply := False\<rparr>)
      else do {
        (_, c) \<leftarrow> add_msghdr lim (c\<lparr>msgcurr := 0, msglist := [], iovused := 0\<rparr>);
        let str = (if length (wbuf c) < length str + 2 then ascii ''SERVER_ERROR output line too long'' else str);
        wb \<leftarrow> buf_write 0 (str @ CRLF) (wbuf c);
        c \<leftarrow> conn_set_state conn_write (c\<lparr>wbuf := wb, wbytes := length str + 2, wcurr := 0\<rparr>);
        Some (c\<lparr>write_and_go := conn_new_cmd\<rparr>)
      })"

section \<open>Binary responses\<close>

definition be16 :: "u16 \<Rightarrow> bytes" where "be16 w = [ucast (drop_bit 8 w), ucast w]"
definition be32 :: "u32 \<Rightarrow> bytes" where "be32 w = be16 (ucast (drop_bit 16 w)) @ be16 (ucast w)"
definition be64 :: "u64 \<Rightarrow> bytes" where "be64 w = be32 (ucast (drop_bit 32 w)) @ be32 (ucast w)"

datatype protocol_binary_response_status =
  RESPONSE_SUCCESS | KEY_ENOENT | KEY_EEXISTS | E2BIG | EINVAL | RESPONSE_NOT_STORED | DELTA_BADVAL | AUTH_ERROR | AUTH_CONTINUE
  | UNKNOWN_COMMAND | ENOMEM

fun status_code :: "protocol_binary_response_status \<Rightarrow> u16" where
  "status_code RESPONSE_SUCCESS = 0"
| "status_code KEY_ENOENT = 1"
| "status_code KEY_EEXISTS = 2"
| "status_code E2BIG = 3"
| "status_code EINVAL = 4"
| "status_code RESPONSE_NOT_STORED = 5"
| "status_code DELTA_BADVAL = 6"
| "status_code AUTH_ERROR = 32"
| "status_code AUTH_CONTINUE = 33"
| "status_code UNKNOWN_COMMAND = 129"
| "status_code ENOMEM = 130"

text \<open>The 24 bytes of a response header. The opaque value is copied back as it came.\<close>

definition response_header :: "u16 \<Rightarrow> u8 \<Rightarrow> u16 \<Rightarrow> u32 \<Rightarrow> client \<Rightarrow> bytes" where
  "response_header err hdr_len key_len body_len c =
     [129, opcode c] @ be16 key_len @ [hdr_len, 0] @ be16 err @ be32 body_len @ u32_to_bytes (opaque c) @ be64 (cas c)"

text \<open>\<^verbatim>\<open>add_bin_header\<close>. Its own out-of-memory path answers with another header, the binary branch of \<^verbatim>\<open>out_of_memory\<close> and \<^verbatim>\<open>write_bin_error\<close>.\<close>

partial_function (option) add_bin_header :: "limits \<Rightarrow> u16 \<Rightarrow> u8 \<Rightarrow> u16 \<Rightarrow> u32 \<Rightarrow> client \<Rightarrow> client option" where
  "add_bin_header lim err hdr_len key_len body_len c = do {
     (ok, c) \<leftarrow> add_msghdr lim (c\<lparr>msgcurr := 0, msglist := [], iovused := 0\<rparr>);
     (if \<not> ok then
        (if prot c = binary_prot then do {
           let str = ascii ''out of memory adding binary header'';
           c \<leftarrow> add_bin_header lim (status_code ENOMEM) 0 0 (of_nat (length str)) c;
           (_, c) \<leftarrow> add_iov lim str c;
           c \<leftarrow> conn_set_state conn_mwrite c;
           Some (c\<lparr>write_and_go := conn_new_cmd\<rparr>)
         }
         else out_string lim (ascii ''SERVER_ERROR out of memory adding binary header'') c)
      else do {
        let h = response_header err hdr_len key_len body_len c;
        wb \<leftarrow> buf_write 0 h (wbuf c);
        (_, c) \<leftarrow> add_iov lim h (c\<lparr>wbuf := wb\<rparr>);
        Some c
      })
   }"

fun error_text :: "protocol_binary_response_status \<Rightarrow> bytes option" where
  "error_text ENOMEM = Some (ascii ''Out of memory'')"
| "error_text UNKNOWN_COMMAND = Some (ascii ''Unknown command'')"
| "error_text KEY_ENOENT = Some (ascii ''Not found'')"
| "error_text EINVAL = Some (ascii ''Invalid arguments'')"
| "error_text KEY_EEXISTS = Some (ascii ''Data exists for key. '')"
| "error_text E2BIG = Some (ascii ''Too large.'')"
| "error_text DELTA_BADVAL = Some (ascii ''Non-numeric server-side value for incr or decr'')"
| "error_text RESPONSE_NOT_STORED = Some (ascii ''Not stored.'')"
| "error_text AUTH_ERROR = Some (ascii ''Auth failure.'')"
| "error_text _ = None"

definition write_bin_error :: "limits \<Rightarrow> protocol_binary_response_status \<Rightarrow> bytes option \<Rightarrow> int \<Rightarrow> client \<Rightarrow> client option" where
  "write_bin_error lim err errstr swallow c = do {
     str \<leftarrow> (case errstr of Some str \<Rightarrow> Some str | None \<Rightarrow> error_text err);
     c \<leftarrow> add_bin_header lim (status_code err) 0 0 (of_nat (length str)) c;
     c \<leftarrow> (if 0 < length str then map_option snd (add_iov lim str c) else Some c);
     c \<leftarrow> conn_set_state conn_mwrite c;
     Some (if 0 < swallow then c\<lparr>sbytes := swallow, write_and_go := conn_swallow\<rparr> else c\<lparr>write_and_go := conn_new_cmd\<rparr>)
   }"

text \<open>\<open>hlen\<close>, \<open>keylen\<close> and \<open>dlen\<close> are C ints that are cut to their header fields.\<close>

definition write_bin_response :: "limits \<Rightarrow> bytes \<Rightarrow> int \<Rightarrow> int \<Rightarrow> client \<Rightarrow> client option" where
  "write_bin_response lim d hlen keylen c =
     (if \<not> noreply c \<or> cmd c = 0 \<or> cmd c = 12 then do {
        c \<leftarrow> add_bin_header lim 0 (of_int hlen) (of_int keylen) (of_nat (length d)) c;
        c \<leftarrow> (if d \<noteq> [] then map_option snd (add_iov lim d c) else Some c);
        c \<leftarrow> conn_set_state conn_mwrite c;
        Some (c\<lparr>write_and_go := conn_new_cmd\<rparr>)
      }
      else conn_set_state conn_new_cmd c)"

definition write_bin_miss_response :: "limits \<Rightarrow> bytes \<Rightarrow> client \<Rightarrow> client option" where
  "write_bin_miss_response lim key c =
     (if key \<noteq> [] then do {
        c \<leftarrow> add_bin_header lim (status_code KEY_ENOENT) 0 (of_nat (length key)) (of_nat (length key)) c;
        wb \<leftarrow> buf_write 24 key (wbuf c);
        (_, c) \<leftarrow> add_iov lim key (c\<lparr>wbuf := wb\<rparr>);
        c \<leftarrow> conn_set_state conn_mwrite c;
        Some (c\<lparr>write_and_go := conn_new_cmd\<rparr>)
      }
      else write_bin_error lim KEY_ENOENT None 0 c)"

text \<open>\<^verbatim>\<open>out_of_memory\<close>: for a binary client without the prefix of the text protocol.\<close>

definition out_of_memory :: "limits \<Rightarrow> bytes \<Rightarrow> client \<Rightarrow> client option" where
  "out_of_memory lim ascii_error c =
     (if prot c = binary_prot then
        (let prefix = ascii ''SERVER_ERROR '';
             str = (if take (length prefix) ascii_error = prefix then drop (length prefix) ascii_error else ascii_error)
         in write_bin_error lim ENOMEM (Some str) 0 c)
      else out_string lim ascii_error c)"

section \<open>The socket\<close>

text \<open>What the kernel holds for the connection: bytes that have arrived, then possibly the end of the stream or an error. A read returns
at most the bytes that have arrived.\<close>

datatype socket_event = Arrived bytes | Closed | Failed

datatype read_result = Data bytes | End_of_stream | Would_block | Error

fun sys_read :: "nat \<Rightarrow> socket_event list \<Rightarrow> read_result \<times> socket_event list" where
  "sys_read n [] = (Would_block, [])"
| "sys_read n (Arrived bs # es) =
     (if take n bs = [] then (End_of_stream, Arrived bs # es)
      else (Data (take n bs), if drop n bs = [] then es else Arrived (drop n bs) # es))"
| "sys_read n (Closed # es) = (End_of_stream, Closed # es)"
| "sys_read n (Failed # es) = (Error, es)"

fun arrived :: "socket_event list \<Rightarrow> bytes" where
  "arrived [] = []"
| "arrived (Arrived bs # es) = bs @ arrived es"
| "arrived (Closed # es) = []"
| "arrived (Failed # es) = arrived es"

lemma sys_read_Data_length:
  "sys_read n es = (Data bs, es') \<Longrightarrow> bs \<noteq> [] \<and> length bs \<le> n \<and> arrived es = bs @ arrived es'"
  by (cases "(n, es)" rule: sys_read.cases) (auto split: if_splits simp flip: append_assoc)

fun pending :: "socket_event list \<Rightarrow> nat" where
  "pending [] = 0"
| "pending (Arrived bs # es) = length bs + pending es"
| "pending (e # es) = pending es"

lemma sys_read_pending: "sys_read n es = (Data bs, es') \<Longrightarrow> pending es' < pending es"
  by (cases "(n, es)" rule: sys_read.cases) (auto split: if_splits)

section \<open>Reading\<close>

text \<open>The loop of \<^verbatim>\<open>try_read_network\<close>: at most four times the buffer is doubled, and reading goes on while the socket fills it. The bytes a
larger buffer gains are undefined in C; they are zero here.\<close>

datatype room = Enough | No_memory client | Room nat client

definition make_room :: "nat \<Rightarrow> client \<Rightarrow> room" where
  "make_room num_allocs c =
     (if length (rbuf c) \<le> rbytes c then
        (if num_allocs = 4 then Enough
         else let (ok, c) = c_realloc c
              in if \<not> ok then No_memory c
                 else Room (num_allocs + 1) (c\<lparr>rbuf := rbuf c @ replicate (length (rbuf c)) 0, rcurr := 0\<rparr>))
      else Room num_allocs c)"

definition store_input :: "bytes \<Rightarrow> client \<Rightarrow> client" where
  "store_input bs c =
     c\<lparr>rbuf := take (rbytes c) (rbuf c) @ bs @ drop (rbytes c + length bs) (rbuf c), rbytes := rbytes c + length bs\<rparr>"

definition read_memory_error :: "limits \<Rightarrow> client \<Rightarrow> client option" where
  "read_memory_error lim c =
     map_option (\<lambda>c. c\<lparr>write_and_go := conn_closing\<rparr>)
       (out_of_memory lim (ascii ''SERVER_ERROR out of memory reading request'') (c\<lparr>rbytes := 0\<rparr>))"

partial_function (option) read_loop ::
  "limits \<Rightarrow> nat \<Rightarrow> try_read_result \<Rightarrow> socket_event list \<Rightarrow> client \<Rightarrow> (try_read_result \<times> socket_event list \<times> client) option" where
  "read_loop lim num_allocs gotdata sock c =
     (case make_room num_allocs c of
        Enough \<Rightarrow> Some (gotdata, sock, c)
      | No_memory c \<Rightarrow> map_option (\<lambda>c. (READ_MEMORY_ERROR, sock, c)) (read_memory_error lim c)
      | Room num_allocs c \<Rightarrow>
          (let avail = length (rbuf c) - rbytes c; rs = sys_read avail sock
           in case fst rs of
                Data bs \<Rightarrow>
                  (if length bs = avail then read_loop lim num_allocs READ_DATA_RECEIVED (snd rs) (store_input bs c)
                   else Some (READ_DATA_RECEIVED, snd rs, store_input bs c))
              | End_of_stream \<Rightarrow> Some (READ_ERROR, snd rs, c)
              | Would_block \<Rightarrow> Some (gotdata, snd rs, c)
              | Error \<Rightarrow> Some (READ_ERROR, snd rs, c)))"

definition try_read_network :: "limits \<Rightarrow> socket_event list \<Rightarrow> client \<Rightarrow> (try_read_result \<times> socket_event list \<times> client) option" where
  "try_read_network lim sock c =
     (let c = (if rcurr c \<noteq> 0 then
                 (let c = (if rbytes c \<noteq> 0
                           then c\<lparr>rbuf := take (rbytes c) (drop (rcurr c) (rbuf c)) @ drop (rbytes c) (rbuf c)\<rparr> else c)
                  in c\<lparr>rcurr := 0\<rparr>)
               else c)
      in read_loop lim 0 READ_NO_DATA_RECEIVED sock c)"

text \<open>\<^verbatim>\<open>try_read_udp\<close>: \<open>dgram\<close> is the datagram that \<^verbatim>\<open>recvfrom\<close> puts at the start of the buffer, cut to its size. The header is removed by moving
\<open>res\<close> bytes, where \<open>res\<close> still counts the header.\<close>

definition try_read_udp :: "limits \<Rightarrow> bytes \<Rightarrow> client \<Rightarrow> (try_read_result \<times> client) option" where
  "try_read_udp lim dgram c =
     (let d = take (length (rbuf c)) dgram;
          c = c\<lparr>rbuf := d @ drop (length d) (rbuf c)\<rparr>;
          res = length d
      in if 0 < res then
           (if length (rbuf c) < 6 then None
            else let c = c\<lparr>request_id := unat (rbuf c ! 0) * 256 + unat (rbuf c ! 1)\<rparr>
            in if rbuf c ! 4 \<noteq> 0 \<or> rbuf c ! 5 \<noteq> 1
               then map_option (Pair READ_NO_DATA_RECEIVED) (out_string lim (ascii ''SERVER_ERROR multi-packet request not supported'') c)
               else if length (rbuf c) < 8 + res then None
               else Some (READ_DATA_RECEIVED,
                      c\<lparr>rbuf := take res (drop 8 (rbuf c)) @ drop res (rbuf c), rbytes := res, rcurr := 0\<rparr>))
         else Some (READ_NO_DATA_RECEIVED, c))"

section \<open>Lines\<close>

datatype line_result = Need_more | Nuke | Line bytes

text \<open>The text branch of \<^verbatim>\<open>try_read_command\<close>: the command line it hands to \<^verbatim>\<open>process_command\<close>, and the connection with that line
consumed. Without a line end in more than 1024 bytes it looks for a large get; the skipping of leading spaces is not bounded by the input, and
running over the end of the buffer is undefined (\<^const>\<open>None\<close>).\<close>

definition input :: "client \<Rightarrow> bytes" where
  "input c = take (rbytes c) (drop (rcurr c) (rbuf c))"

definition read_line :: "client \<Rightarrow> (line_result \<times> client) option" where
  "read_line c = do {
     c_assert (rcurr c \<le> length (rbuf c));
     c_assert (0 < rbytes c);
     (if 10 \<notin> set (input c) then
        (if 1024 < rbytes c then
           (let mem = drop (rcurr c) (rbuf c);
                ptr = length (takeWhile (\<lambda>b. b = 32) mem)
            in if ptr = length mem then None
               else if 100 < ptr \<or> (take 4 (drop ptr mem) \<noteq> ascii ''get '' \<and> take 5 (drop ptr mem) \<noteq> ascii ''gets '')
               then map_option (Pair Nuke) (conn_set_state conn_closing c)
               else Some (Need_more, c))
         else Some (Need_more, c))
      else do {
        let el = length (takeWhile (\<lambda>b. b \<noteq> 10) (input c));
        let cont = el + 1;
        let el = (if 1 < el \<and> input c ! (el - 1) = 13 then el - 1 else el);
        let c = c\<lparr>rbuf := (rbuf c)[rcurr c + el := 0]\<rparr>;
        c_assert (cont \<le> rbytes c);
        let line = takeWhile (\<lambda>b. b \<noteq> 0) (drop (rcurr c) (rbuf c));
        let c = c\<lparr>rbytes := rbytes c - cont, rcurr := rcurr c + cont\<rparr>;
        c_assert (rcurr c \<le> length (rbuf c));
        Some (Line line, c)
      })
   }"

end
