(* ===== verification/Conn_Spec.thy ===== *)
theory Conn_Spec
  imports Conn_Io
begin

text \<open>
  Properties of the connection buffers: nothing is lost between the socket and the command lines, and what is queued for output is what
  was asked for, in order, in well-formed messages.
\<close>

section \<open>Input\<close>

definition in_ok :: "client \<Rightarrow> bool" where
  "in_ok c \<longleftrightarrow> 0 < length (rbuf c) \<and> rcurr c + rbytes c \<le> length (rbuf c)"

definition allocs_ok :: "client \<Rightarrow> bool" where
  "allocs_ok c \<longleftrightarrow> False \<notin> set (allocs c)"

lemma c_realloc_ok:
  assumes "allocs_ok c"
  obtains a where "c_realloc c = (True, c\<lparr>allocs := a\<rparr>)" "allocs_ok (c\<lparr>allocs := a\<rparr>)"
proof (cases "allocs c")
  case Nil
  then have "c_realloc c = (True, c\<lparr>allocs := []\<rparr>)" by (simp add: c_realloc_def)
  then show ?thesis using that [of "[]"] by (simp add: allocs_ok_def)
next
  case (Cons ok rest)
  then show ?thesis using assms that [of rest] by (auto simp: c_realloc_def allocs_ok_def)
qed

lemma input_length: "in_ok c \<Longrightarrow> length (input c) = rbytes c"
  by (auto simp: in_ok_def input_def)

lemma make_room_ok:
  assumes "in_ok c" "rcurr c = 0" "allocs_ok c" "k \<le> 4"
  shows "(make_room k c = Enough \<and> k = 4) \<or>
    (\<exists>k' c'. make_room k c = Room k' c' \<and> in_ok c' \<and> rcurr c' = 0 \<and> allocs_ok c' \<and> k' \<le> 4 \<and> input c' = input c \<and> rbytes c' < length (rbuf c') \<and>
       length (rbuf c') * 2 ^ (4 - k') \<le> length (rbuf c) * 2 ^ (4 - k))"
proof (cases "length (rbuf c) \<le> rbytes c")
  case False
  then show ?thesis using assms by (simp add: make_room_def)
next
  case True
  obtain a where a: "c_realloc c = (True, c\<lparr>allocs := a\<rparr>)" "allocs_ok (c\<lparr>allocs := a\<rparr>)" using c_realloc_ok [OF assms(3)] by blast
  show ?thesis
  proof (cases "k = 4")
    case k: False
    let ?c = "c\<lparr>allocs := a, rbuf := rbuf c @ replicate (length (rbuf c)) 0, rcurr := 0\<rparr>"
    have "make_room k c = Room (k + 1) ?c" using True k a(1) by (simp add: make_room_def)
    moreover have "input ?c = input c" using assms(1,2) unfolding in_ok_def input_def by simp
    moreover have "in_ok ?c" "allocs_ok ?c" using assms(1,2) a(2) unfolding in_ok_def allocs_ok_def by simp_all
    moreover have "rbytes c < length (rbuf c) + length (rbuf c)" using assms(1,2) unfolding in_ok_def by linarith
    then have "rbytes ?c < length (rbuf ?c)" by simp
    moreover have "length (rbuf ?c) * 2 ^ (4 - (k + 1)) \<le> length (rbuf c) * 2 ^ (4 - k)"
    proof -
      have "4 - k = Suc (4 - (k + 1))" using k assms(4) by simp
      then have "(2 :: nat) ^ (4 - k) = 2 * 2 ^ (4 - (k + 1))" by (simp only: power_Suc)
      then show ?thesis by simp
    qed
    ultimately show ?thesis using assms(4) k by (intro disjI2 exI [of _ "k + 1"] exI [of _ ?c]) simp
  qed (use True in \<open>simp add: make_room_def\<close>)
qed

lemma store_input_ok:
  assumes "in_ok c" "rcurr c = 0" "bs \<noteq> []" "length bs \<le> length (rbuf c) - rbytes c"
  shows "in_ok (store_input bs c)" "rcurr (store_input bs c) = 0" "input (store_input bs c) = input c @ bs"
    "length (rbuf (store_input bs c)) = length (rbuf c)" "allocs (store_input bs c) = allocs c"
  using assms by (auto simp: in_ok_def store_input_def input_def)

lemma sys_read_arrived:
  "sys_read n es = (r, es') \<Longrightarrow> (case r of Data bs \<Rightarrow> arrived es = bs @ arrived es' | _ \<Rightarrow> arrived es' = arrived es)"
  by (cases "(n, es)" rule: sys_read.cases) (auto split: if_splits simp flip: append_assoc)

text \<open>What the read loop has done.\<close>

definition read_post :: "nat \<Rightarrow> try_read_result \<Rightarrow> socket_event list \<Rightarrow> client \<Rightarrow> (try_read_result \<times> socket_event list \<times> client) option \<Rightarrow> bool" where
  "read_post k g sock c res \<longleftrightarrow>
     (\<exists>r sock' c'. res = Some (r, sock', c') \<and> r \<noteq> READ_MEMORY_ERROR \<and> in_ok c' \<and> rcurr c' = 0 \<and>
        input c' @ arrived sock' = input c @ arrived sock \<and> rbytes c \<le> rbytes c' \<and>
        length (rbuf c') \<le> length (rbuf c) * 2 ^ (4 - k) \<and>
        (r = READ_DATA_RECEIVED \<longrightarrow> g = READ_DATA_RECEIVED \<or> rbytes c < rbytes c') \<and>
        (r = READ_NO_DATA_RECEIVED \<longrightarrow> g = READ_NO_DATA_RECEIVED \<and> rbytes c' = rbytes c))"

lemma read_post_step:
  assumes "read_post k' READ_DATA_RECEIVED sock' e res" "input e @ arrived sock' = input c @ arrived sock" "rbytes c < rbytes e"
    "length (rbuf e) * 2 ^ (4 - k') \<le> length (rbuf c) * 2 ^ (4 - k)"
  shows "read_post k g sock c res"
proof -
  obtain r sock'' d where d: "res = Some (r, sock'', d)" "r \<noteq> READ_MEMORY_ERROR" "in_ok d" "rcurr d = 0"
    "input d @ arrived sock'' = input e @ arrived sock'" "rbytes e \<le> rbytes d" "length (rbuf d) \<le> length (rbuf e) * 2 ^ (4 - k')"
    "r \<noteq> READ_NO_DATA_RECEIVED" using assms(1) unfolding read_post_def by auto
  show ?thesis unfolding read_post_def d(1)
    by (intro exI [of _ r] exI [of _ sock''] exI [of _ d] conjI) (use d assms(2-4) in auto)
qed

lemma read_loop_correct:
  assumes "in_ok c" "rcurr c = 0" "allocs_ok c" "k \<le> 4" "g \<in> {READ_DATA_RECEIVED, READ_NO_DATA_RECEIVED}"
  shows "read_post k g sock c (read_loop lim k g sock c)"
  using assms
proof (induction "pending sock" arbitrary: sock c k g rule: less_induct)
  case less
  show ?case using make_room_ok [OF less.prems(1-4)]
  proof (elim disjE exE conjE)
    assume "make_room k c = Enough" "k = 4"
    then have "read_loop lim k g sock c = Some (g, sock, c)" by (subst read_loop.simps) simp
    then show ?thesis using less.prems by (auto simp: read_post_def)
  next
    fix k' d
    assume m: "make_room k c = Room k' d" and d: "in_ok d" "rcurr d = 0" "allocs_ok d" "k' \<le> 4" "input d = input c" "rbytes d < length (rbuf d)"
      and sz: "length (rbuf d) * 2 ^ (4 - k') \<le> length (rbuf c) * 2 ^ (4 - k)"
    have rb: "rbytes d = rbytes c" using d(1,5) less.prems(1) input_length by metis
    have sd: "length (rbuf d) \<le> length (rbuf c) * 2 ^ (4 - k)" using sz le_trans [of "length (rbuf d)" "length (rbuf d) * 2 ^ (4 - k')"] by simp
    obtain r sock' where rs: "sys_read (length (rbuf d) - rbytes d) sock = (r, sock')" by (cases "sys_read (length (rbuf d) - rbytes d) sock")
    note ar = sys_read_arrived [OF rs]
    note u = read_loop.simps [of lim k g sock c, unfolded m room.case Let_def rs fst_conv snd_conv]
    show ?thesis
    proof (cases r)
      case (Data bs)
      note b = sys_read_Data_length [OF rs [unfolded Data]]
      note st = store_input_ok [OF d(1,2) conjunct1 [OF b]]
      have len: "length bs \<le> length (rbuf d) - rbytes d" using b by simp
      note st = st [OF len]
      have rbs: "rbytes (store_input bs d) = rbytes c + length bs" by (simp add: store_input_def rb)
      show ?thesis
      proof (cases "length bs = length (rbuf d) - rbytes d")
        case True
        have "read_post k' READ_DATA_RECEIVED sock' (store_input bs d) (read_loop lim k' READ_DATA_RECEIVED sock' (store_input bs d))"
          using less.hyps [OF sys_read_pending [OF rs [unfolded Data]] st(1,2) _ d(4)] d(3) st(5) by (simp add: allocs_ok_def)
        then have "read_post k g sock c (read_loop lim k' READ_DATA_RECEIVED sock' (store_input bs d))"
          by (rule read_post_step) (use ar Data st(3,4) d(5) rbs b sz in auto)
        then show ?thesis using True Data u by simp
      next
        case False
        then have "read_loop lim k g sock c = Some (READ_DATA_RECEIVED, sock', store_input bs d)" using Data u by simp
        then show ?thesis using Data ar st(1-4) d(5) rbs b sd by (simp add: read_post_def)
      qed
    qed (use u ar d rb sd less.prems(5) in \<open>auto simp: read_post_def\<close>)
  qed
qed

definition compact :: "client \<Rightarrow> client" where
  "compact c = c\<lparr>rbuf := (if rcurr c \<noteq> 0 \<and> rbytes c \<noteq> 0 then take (rbytes c) (drop (rcurr c) (rbuf c)) @ drop (rbytes c) (rbuf c) else rbuf c), rcurr := 0\<rparr>"

lemma try_read_network_compact: "try_read_network lim sock c = read_loop lim 0 READ_NO_DATA_RECEIVED sock (compact c)"
proof -
  have "(if rcurr c \<noteq> 0 then
      (if rbytes c \<noteq> 0 then c\<lparr>rbuf := take (rbytes c) (drop (rcurr c) (rbuf c)) @ drop (rbytes c) (rbuf c)\<rparr> else c)\<lparr>rcurr := 0\<rparr>
      else c) = compact c" by (cases c) (simp add: compact_def)
  then show ?thesis unfolding try_read_network_def Let_def by (rule arg_cong)
qed

lemma compact_ok:
  assumes "in_ok c"
  shows "in_ok (compact c)" "rcurr (compact c) = 0" "input (compact c) = input c" "rbytes (compact c) = rbytes c"
    "length (rbuf (compact c)) = length (rbuf c)" "allocs (compact c) = allocs c"
  using assms by (auto simp: compact_def in_ok_def input_def min_def)

text \<open>
  (C13) Reading loses nothing. When no allocation fails, \<^verbatim>\<open>try_read_network\<close> returns, and the unparsed input followed by what is still in the socket is
  the same stream of bytes before and after: nothing is dropped, duplicated or reordered by moving the rest to the front, by
  growing the buffer or by reading in several pieces. The buffer is never overrun and grows at most sixteenfold per call;
  data is reported exactly if some arrived.
\<close>

theorem try_read_network_stream:
  assumes "in_ok c" "allocs_ok c"
  shows "\<exists>r sock' c'. try_read_network lim sock c = Some (r, sock', c') \<and> r \<noteq> READ_MEMORY_ERROR \<and>
    input c' @ arrived sock' = input c @ arrived sock \<and> in_ok c' \<and> rcurr c' = 0 \<and> length (rbuf c') \<le> 16 * length (rbuf c) \<and>
    (r = READ_DATA_RECEIVED \<longrightarrow> rbytes c < rbytes c') \<and> (r = READ_NO_DATA_RECEIVED \<longrightarrow> input c' = input c)"
proof -
  note o = compact_ok [OF assms(1)]
  have "allocs_ok (compact c)" using assms(2) o(6) by (simp add: allocs_ok_def)
  then have "read_post 0 READ_NO_DATA_RECEIVED sock (compact c) (try_read_network lim sock c)"
    unfolding try_read_network_compact by (intro read_loop_correct) (use o in auto)
  then obtain r sock' c' where r: "try_read_network lim sock c = Some (r, sock', c')" "r \<noteq> READ_MEMORY_ERROR" "in_ok c'" "rcurr c' = 0"
    "input c' @ arrived sock' = input c @ arrived sock" "length (rbuf c') \<le> 16 * length (rbuf c)"
    "r = READ_DATA_RECEIVED \<longrightarrow> rbytes c < rbytes c'" "r = READ_NO_DATA_RECEIVED \<longrightarrow> rbytes c' = rbytes c"
    unfolding read_post_def o by auto
  have "input c' = input c" if "rbytes c' = rbytes c"
    using r(5) that input_length [OF r(3)] input_length [OF assms(1)] by (metis append_eq_append_conv)
  then show ?thesis using r by blast
qed

definition ex_limits :: limits where
  "ex_limits = \<lparr>IOV_MAX = 1024, UDP_MAX_PAYLOAD_SIZE = 1400, UDP_HEADER_SIZE = 8\<rparr>"

definition ex_client :: client where
  "ex_client = \<lparr>state = conn_read, rbuf = [0, 0, 103, 101, 0, 0, 0, 0], rcurr = 2, rbytes = 2, wbuf = replicate 64 0, wcurr = 0, wbytes = 0,
     write_and_go = conn_new_cmd, noreply = False, prot = ascii_prot, transport = tcp_transport, rlbytes = 0, sbytes = 0, request_id = 0,
     opcode = 0, opaque = 0, cas = 0, cmd = -1, iov = (\<lambda>_. []), iov_gen = 0, iovsize = 4, iovused = 0, msglist = [], msgsize = 2,
     msgcurr = 0, msgbytes = 0, allocs = [True]\<rparr>"

theorem try_read_network_stream_witness:
  "\<exists>r sock' c'. try_read_network ex_limits [Arrived [116, 32, 97], Arrived (replicate 9 98), Closed] ex_client = Some (r, sock', c') \<and>
     input c' @ arrived sock' = [103, 101, 116, 32, 97] @ replicate 9 98"
  using try_read_network_stream [of ex_client ex_limits "[Arrived [116, 32, 97], Arrived (replicate 9 98), Closed]"]
  by (auto simp: ex_client_def in_ok_def allocs_ok_def input_def)

section \<open>Lines\<close>

lemma read_line_found:
  assumes "in_ok c" "input c = l @ 10 # rest" "10 \<notin> set l"
  defines "n \<equiv> (if 1 < length l \<and> last l = 13 then length l - 1 else length l)"
  shows "\<exists>c'. read_line c = Some (Line (takeWhile (\<lambda>b. b \<noteq> 0) (take n l)), c') \<and> input c' = rest \<and> in_ok c' \<and> length (rbuf c') = length (rbuf c)"
proof -
  let ?k = "rcurr c"
  have rb: "rbytes c = Suc (length l + length rest)" using input_length [OF assms(1)] assms(2) by simp
  have fit: "?k + rbytes c \<le> length (rbuf c)" using assms(1) by (simp add: in_ok_def)
  have "drop ?k (rbuf c) = input c @ drop (rbytes c) (drop ?k (rbuf c))" unfolding input_def by (rule append_take_drop_id [symmetric])
  then obtain tl where d: "drop ?k (rbuf c) = l @ 10 # rest @ tl" using assms(2) by simp
  have tw: "takeWhile (\<lambda>b. b \<noteq> 10) (l @ 10 # rest) = l" using assms(3) by (induction l) auto
  have ls: "(1 < length l \<and> (l @ 10 # rest) ! (length l - 1) = 13) = (1 < length l \<and> last l = 13)"
    by (cases "l = []") (auto simp: last_conv_nth nth_append)
  have n: "n \<le> length l" by (simp add: n_def)
  let ?b = "(rbuf c)[?k + n := 0]"
  have db: "drop ?k ?b = take n l @ 0 # drop (Suc n) (l @ 10 # rest @ tl)"
    using n by (simp add: drop_update_swap d upd_conv_take_nth_drop)
  have line: "takeWhile (\<lambda>b. b \<noteq> 0) (drop ?k ?b) = takeWhile (\<lambda>b. b \<noteq> 0) (take n l)" unfolding db by (simp add: takeWhile_tail)
  let ?c = "c\<lparr>rbuf := ?b, rbytes := rbytes c - (length l + 1), rcurr := ?k + (length l + 1)\<rparr>"
  have "drop (?k + (length l + 1)) ?b = drop (length l + 1) (drop ?k (rbuf c))" using n by (simp add: add.commute)
  also have "\<dots> = rest @ tl" by (simp add: d)
  finally have "input ?c = rest" using rb by (simp add: input_def)
  moreover have "in_ok ?c" using fit rb by (auto simp: in_ok_def)
  moreover have "read_line c = Some (Line (takeWhile (\<lambda>b. b \<noteq> 0) (take n l)), ?c)"
    using fit rb line unfolding read_line_def Let_def assms(2) tw ls n_def [symmetric] by (simp add: add.commute)
  ultimately show ?thesis by (intro exI [of _ ?c]) simp
qed

definition line_text :: "bytes \<Rightarrow> bytes" where
  "line_text l = (if 1 < length l \<and> last l = 13 then butlast l else l)"



text \<open>The skipping of leading spaces has no bound: a full buffer of spaces makes it run over the end of the buffer.\<close>

lemma read_line_overrun:
  assumes "1024 < n"
  shows "read_line (c\<lparr>rbuf := replicate n 32, rcurr := 0, rbytes := n\<rparr>) = None"
  using assms by (simp add: read_line_def input_def)

text \<open>A datagram of \<open>n\<close> bytes yields \<open>n\<close> bytes of input, although its first eight are the header: eight stale bytes of the buffer follow the request.\<close>

lemma try_read_udp_stale_bytes:
  assumes "8 \<le> length dgram" "dgram ! 4 = 0" "dgram ! 5 = 1" "length dgram + 8 \<le> length (rbuf c)"
  shows "\<exists>c'. try_read_udp lim dgram c = Some (READ_DATA_RECEIVED, c') \<and> rbytes c' = length dgram \<and>
    input c' = drop 8 dgram @ take 8 (drop (length dgram) (rbuf c))"
proof -
  let ?b = "dgram @ drop (length dgram) (rbuf c)"
  have "?b ! 4 = 0" "?b ! 5 = 1" using assms(1-3) by (simp_all add: nth_append)
  moreover have "take (length dgram) (drop 8 ?b) = drop 8 dgram @ take 8 (drop (length dgram) (rbuf c))" using assms(1) by simp
  ultimately show ?thesis using assms by (auto simp: try_read_udp_def Let_def input_def)
qed

section \<open>Output\<close>

text \<open>The messages tile the used part of the iovec array, with pointers of the current generation. The view of a connection is the entries
of each of its messages.\<close>

definition total :: "msghdr list \<Rightarrow> nat" where
  "total ms = sum_list (map msg_iovlen ms)"

fun tiled :: "nat \<Rightarrow> nat \<Rightarrow> msghdr list \<Rightarrow> bool" where
  "tiled g n [] \<longleftrightarrow> True"
| "tiled g n (m # ms) \<longleftrightarrow> msg_gen m = g \<and> msg_iov m = n \<and> tiled g (n + msg_iovlen m) ms"

definition entries :: "(nat \<Rightarrow> bytes) \<Rightarrow> msghdr \<Rightarrow> bytes list" where
  "entries f m = map f [msg_iov m..<msg_iov m + msg_iovlen m]"

definition view :: "client \<Rightarrow> bytes list list" where
  "view c = map (entries (iov c)) (msglist c)"

definition out_ok :: "client \<Rightarrow> bool" where
  "out_ok c \<longleftrightarrow> tiled (iov_gen c) 0 (msglist c) \<and> iovused c = total (msglist c) \<and> iovused c \<le> iovsize c \<and> 0 < iovsize c \<and>
     length (msglist c) \<le> msgsize c \<and> 0 < msgsize c \<and> allocs_ok c \<and>
     (msglist c \<noteq> [] \<longrightarrow> msgbytes c = length (concat (last (view c))))"

lemma tiled_append [simp]: "tiled g n (ms @ [m]) \<longleftrightarrow> tiled g n ms \<and> msg_gen m = g \<and> msg_iov m = n + total ms"
  by (induction ms arbitrary: n) (simp_all add: total_def add.assoc)

lemma repoint_tiled:
  "tiled g n ms \<Longrightarrow> tiled g' n (repoint g' n ms) \<and> total (repoint g' n ms) = total ms \<and> length (repoint g' n ms) = length ms \<and>
     map (entries f) (repoint g' n ms) = map (entries f) ms"
proof (induction ms arbitrary: n)
  case (Cons m ms)
  then have "tiled g (n + msg_iovlen m) ms" "msg_iov m = n" by simp_all
  with Cons.IH [of "n + msg_iovlen m"] show ?case by (simp add: total_def entries_def)
qed simp

lemma tiled_entries_upd:
  "tiled g n ms \<Longrightarrow> n + total ms \<le> k \<Longrightarrow> map (entries (f(k := b))) ms = map (entries f) ms"
proof (induction ms arbitrary: n)
  case (Cons m ms)
  have "entries (f(k := b)) m = entries f m" using Cons.prems by (auto simp: entries_def total_def)
  moreover have "map (entries (f(k := b))) ms = map (entries f) ms"
    using Cons.prems by (intro Cons.IH [of "n + msg_iovlen m"]) (simp_all add: total_def)
  ultimately show ?case by (simp only: list.map)
qed simp

lemma view_last_length: "msglist c \<noteq> [] \<Longrightarrow> length (last (view c)) = msg_iovlen (last (msglist c))"
  by (simp add: view_def entries_def last_map)

text \<open>What each operation does to the view; everything else of the connection stays.\<close>

definition same_conn :: "client \<Rightarrow> client \<Rightarrow> bool" where
  "same_conn c c' \<longleftrightarrow> transport c' = transport c \<and> prot c' = prot c \<and> wbuf c' = wbuf c \<and> noreply c' = noreply c \<and> state c' = state c \<and>
     rbuf c' = rbuf c \<and> rcurr c' = rcurr c \<and> rbytes c' = rbytes c \<and> opcode c' = opcode c \<and> opaque c' = opaque c \<and> cas c' = cas c \<and> cmd c' = cmd c"

lemma same_conn_refl [simp]: "same_conn c c" by (simp add: same_conn_def)

lemma same_conn_trans [trans]: "same_conn a b \<Longrightarrow> same_conn b c \<Longrightarrow> same_conn a c" by (simp add: same_conn_def)

lemma ensure_iov_space_ok:
  assumes "out_ok c"
  obtains c' where "ensure_iov_space c = (True, c')" "out_ok c'" "iovused c' < iovsize c'" "view c' = view c" "same_conn c c'"
    "msgbytes c' = msgbytes c" "length (msglist c') = length (msglist c)"
proof (cases "iovsize c \<le> iovused c")
  case False
  then show ?thesis using that [of c] assms by (simp add: ensure_iov_space_def)
next
  case True
  have "allocs_ok c" using assms by (simp add: out_ok_def)
  then obtain a where a: "c_realloc c = (True, c\<lparr>allocs := a\<rparr>)" "allocs_ok (c\<lparr>allocs := a\<rparr>)" by (rule c_realloc_ok)
  let ?c = "c\<lparr>allocs := a, iov_gen := iov_gen c + 1, iovsize := iovsize c * 2, msglist := repoint (iov_gen c + 1) 0 (msglist c)\<rparr>"
  have e: "ensure_iov_space c = (True, ?c)" using True a(1) by (simp add: ensure_iov_space_def)
  have t: "tiled (iov_gen c) 0 (msglist c)" using assms by (simp add: out_ok_def)
  note r = repoint_tiled [OF t, of "iov_gen c + 1"]
  have v: "view ?c = view c" using r [of "iov c"] by (simp add: view_def)
  have ne: "repoint (iov_gen c + 1) 0 (msglist c) \<noteq> [] \<longleftrightarrow> msglist c \<noteq> []" using r by (metis length_0_conv)
  have "out_ok ?c" using assms r a(2) v ne unfolding out_ok_def allocs_ok_def by simp
  moreover have "iovused ?c < iovsize ?c" using assms True by (simp add: out_ok_def)
  ultimately show ?thesis using that [OF e] v r by (simp add: same_conn_def)
qed

lemma put_iov_ok:
  assumes "out_ok c" "msglist c \<noteq> []" "iovused c < iovsize c"
  obtains c' where "put_iov b c = Some c'" "out_ok c'" "view c' = butlast (view c) @ [last (view c) @ [b]]" "same_conn c c'"
    "msgbytes c' = msgbytes c + length b" "msglist c' \<noteq> []"
proof -
  obtain ms m where ms: "msglist c = ms @ [m]" using assms(2) by (metis rev_exhaust)
  have o: "tiled (iov_gen c) 0 ms" "msg_gen m = iov_gen c" "msg_iov m = total ms" "iovused c = total ms + msg_iovlen m"
    using assms(1) by (simp_all add: out_ok_def ms) (simp_all add: total_def)
  let ?m = "m\<lparr>msg_iovlen := msg_iovlen m + 1\<rparr>" and ?f = "(iov c)(iovused c := b)"
  let ?c = "c\<lparr>iov := ?f, msgbytes := msgbytes c + length b, iovused := iovused c + 1, msglist := ms @ [?m]\<rparr>"
  have p: "put_iov b c = Some ?c" using assms(3) o by (simp add: put_iov_def ms)
  have "map (entries ?f) ms = map (entries (iov c)) ms" using o(1,4) by (intro tiled_entries_upd) auto
  moreover have "entries ?f ?m = entries (iov c) m @ [b]" using o(3,4) by (simp add: entries_def)
  ultimately have v: "view ?c = butlast (view c) @ [last (view c) @ [b]]" by (simp add: view_def ms)
  have mb: "msgbytes c = length (concat (last (view c)))" using assms(1,2) by (simp add: out_ok_def)
  have al: "allocs_ok ?c" using assms(1) by (simp add: out_ok_def allocs_ok_def)
  have "out_ok ?c" using assms(1,3) o v mb al unfolding out_ok_def ms by (simp add: total_def)
  then show ?thesis using that [OF p] v by (simp add: same_conn_def)
qed

lemma add_msghdr_ok:
  assumes "out_ok c"
  obtains c' where "add_msghdr lim c = Some (True, c')" "out_ok c'" "same_conn c c'" "msglist c' \<noteq> []"
    "view c' = view c @ [if IS_UDP (transport c) then [replicate (UDP_HEADER_SIZE lim) 0] else []]"
    "msgbytes c' = (if IS_UDP (transport c) then UDP_HEADER_SIZE lim else 0)"
proof -
  let ?new = "\<lambda>c. c\<lparr>msglist := msglist c @ [\<lparr>msg_gen = iov_gen c, msg_iov = iovused c, msg_iovlen = 0\<rparr>], msgbytes := 0\<rparr>"
  have "\<exists>d. (if msgsize c = length (msglist c) then (let (ok, c) = c_realloc c in if ok then (True, c\<lparr>msgsize := msgsize c * 2\<rparr>) else (False, c))
      else (True, c)) = (True, d) \<and> out_ok d \<and> view d = view c \<and> same_conn c d \<and> length (msglist d) < msgsize d"
  proof (cases "msgsize c = length (msglist c)")
    case True
    have "allocs_ok c" using assms by (simp add: out_ok_def)
    then obtain a where a: "c_realloc c = (True, c\<lparr>allocs := a\<rparr>)" "allocs_ok (c\<lparr>allocs := a\<rparr>)" by (rule c_realloc_ok)
    let ?d = "c\<lparr>allocs := a, msgsize := msgsize c * 2\<rparr>"
    have v: "view ?d = view c" by (simp add: view_def)
    have "out_ok ?d" using assms a(2) v unfolding out_ok_def allocs_ok_def by simp
    moreover have "length (msglist ?d) < msgsize ?d" using assms True by (simp add: out_ok_def)
    ultimately show ?thesis using True a(1) v by (intro exI [of _ ?d]) (simp add: same_conn_def)
  next
    case False
    then show ?thesis using assms by (intro exI [of _ c]) (simp add: out_ok_def)
  qed
  then obtain d where d: "(if msgsize c = length (msglist c) then (let (ok, c) = c_realloc c in if ok then (True, c\<lparr>msgsize := msgsize c * 2\<rparr>) else (False, c))
      else (True, c)) = (True, d)" "out_ok d" "view d = view c" "same_conn c d" "length (msglist d) < msgsize d" by blast
  let ?e = "?new d"
  have v: "view ?e = view c @ [[]]" using d(3) by (simp add: view_def entries_def)
  have oe: "out_ok ?e" using d(2,5) v unfolding out_ok_def allocs_ok_def by (simp add: total_def)
  have se: "same_conn c ?e" using d(4) by (simp add: same_conn_def)
  have tr: "transport d = transport c" using d(4) by (simp add: same_conn_def)
  show ?thesis
  proof (cases "IS_UDP (transport c)")
    case False
    then have "add_msghdr lim c = Some (True, ?e)" unfolding add_msghdr_def d(1) by (simp add: tr)
    then show ?thesis using that oe se v False by simp
  next
    case True
    obtain f where f: "ensure_iov_space ?e = (True, f)" "out_ok f" "iovused f < iovsize f" "view f = view ?e" "same_conn ?e f"
      "msgbytes f = msgbytes ?e" "length (msglist f) = length (msglist ?e)" by (rule ensure_iov_space_ok [OF oe])
    have ne: "msglist f \<noteq> []" using f(7) by auto
    obtain h where h: "put_iov (replicate (UDP_HEADER_SIZE lim) 0) f = Some h" "out_ok h"
      "view h = butlast (view f) @ [last (view f) @ [replicate (UDP_HEADER_SIZE lim) 0]]" "same_conn f h"
      "msgbytes h = msgbytes f + length (replicate (UDP_HEADER_SIZE lim) (0 :: 8 word))" "msglist h \<noteq> []" by (rule put_iov_ok [OF f(2) ne f(3)])
    have "add_msghdr lim c = Some (True, h)" unfolding add_msghdr_def d(1) using True f(1) h(1) by (simp add: tr)
    moreover have "same_conn c h" using se f(5) h(4) same_conn_trans by blast
    ultimately show ?thesis using that h(2,3,5,6) f(4,6) v True by simp
  qed
qed

text \<open>Well-formed output: no message has more than \<^verbatim>\<open>IOV_MAX\<close> entries; a datagram starts with the room for its header and is no longer than
\<^verbatim>\<open>UDP_MAX_PAYLOAD_SIZE\<close>. The payload is what the client will read.\<close>

definition message_ok :: "limits \<Rightarrow> bool \<Rightarrow> bytes list \<Rightarrow> bool" where
  "message_ok lim udp m \<longleftrightarrow> length m \<le> IOV_MAX lim \<and>
     (udp \<longrightarrow> m \<noteq> [] \<and> length (hd m) = UDP_HEADER_SIZE lim \<and> length (concat m) \<le> UDP_MAX_PAYLOAD_SIZE lim)"

definition queue_ok :: "limits \<Rightarrow> client \<Rightarrow> bool" where
  "queue_ok lim c \<longleftrightarrow> out_ok c \<and> msglist c \<noteq> [] \<and> (\<forall>m \<in> set (view c). message_ok lim (IS_UDP (transport c)) m)"

definition payload :: "client \<Rightarrow> bytes" where
  "payload c = concat (map (\<lambda>m. concat (if IS_UDP (transport c) then tl m else m)) (view c))"

definition limits_ok :: "limits \<Rightarrow> bool" where
  "limits_ok lim \<longleftrightarrow> 1 < IOV_MAX lim \<and> UDP_HEADER_SIZE lim < UDP_MAX_PAYLOAD_SIZE lim"

text \<open>A message with room: the last one, or a new one.\<close>

lemma new_message_ok:
  assumes "queue_ok lim c" "limits_ok lim"
  obtains c' where "add_msghdr lim c = Some (True, c')" "queue_ok lim c'" "payload c' = payload c" "same_conn c c'"
    "length (last (view c')) < IOV_MAX lim" "IS_UDP (transport c) \<longrightarrow> msgbytes c' < UDP_MAX_PAYLOAD_SIZE lim"
proof -
  have "out_ok c" using assms(1) by (simp add: queue_ok_def)
  then obtain c' where c': "add_msghdr lim c = Some (True, c')" "out_ok c'" "same_conn c c'" "msglist c' \<noteq> []"
    "view c' = view c @ [if IS_UDP (transport c) then [replicate (UDP_HEADER_SIZE lim) 0] else []]"
    "msgbytes c' = (if IS_UDP (transport c) then UDP_HEADER_SIZE lim else 0)" by (rule add_msghdr_ok)
  have t: "transport c' = transport c" using c'(3) by (simp add: same_conn_def)
  have "queue_ok lim c'" using assms c'(2,4,5) t by (auto simp: queue_ok_def message_ok_def limits_ok_def)
  moreover have "payload c' = payload c" by (simp add: payload_def c'(5) t)
  ultimately show ?thesis using that c' assms(2) by (simp add: limits_ok_def)
qed

text \<open>Adding a fragment that fits to the last message.\<close>

lemma fragment_ok:
  assumes "queue_ok lim c" "length (last (view c)) < IOV_MAX lim" "IS_UDP (transport c) \<longrightarrow> msgbytes c + length b \<le> UDP_MAX_PAYLOAD_SIZE lim"
  obtains d c' where "ensure_iov_space c = (True, d)" "msgbytes d = msgbytes c" "put_iov b d = Some c'" "queue_ok lim c'"
    "payload c' = payload c @ b" "same_conn c c'"
proof -
  have o: "out_ok c" "msglist c \<noteq> []" using assms(1) by (simp_all add: queue_ok_def)
  obtain d where d: "ensure_iov_space c = (True, d)" "out_ok d" "iovused d < iovsize d" "view d = view c" "same_conn c d"
    "msgbytes d = msgbytes c" "length (msglist d) = length (msglist c)" by (rule ensure_iov_space_ok [OF o(1)])
  have ne: "msglist d \<noteq> []" using d(7) o(2) by auto
  obtain e where e: "put_iov b d = Some e" "out_ok e" "view e = butlast (view d) @ [last (view d) @ [b]]" "same_conn d e"
    "msglist e \<noteq> []" by (rule put_iov_ok [OF d(2) ne d(3)])
  have sc: "same_conn c e" using d(5) e(4) same_conn_trans by blast
  then have t: "transport e = transport c" by (simp add: same_conn_def)
  have "view c \<noteq> []" using o(2) by (simp add: view_def)
  then obtain vs v where v: "view c = vs @ [v]" by (metis rev_exhaust)
  have ve: "view e = vs @ [v @ [b]]" using e(3) d(4) v by simp
  have mv: "message_ok lim (IS_UDP (transport c)) v" using assms(1) v by (simp add: queue_ok_def)
  have mb: "msgbytes c = length (concat v)" using o v by (simp add: out_ok_def)
  have "message_ok lim (IS_UDP (transport c)) (v @ [b])" using mv assms(2,3) mb v by (simp add: message_ok_def hd_append)
  then have "queue_ok lim e" using assms(1) v ve e(2,5) t by (simp add: queue_ok_def)
  moreover have "payload e = payload c @ b" using mv by (simp add: payload_def ve v t message_ok_def)
  ultimately show ?thesis using that d(1,6) e(1) sc by blast
qed

lemma room_ok:
  assumes "queue_ok lim c" "limits_ok lim" "IS_UDP (transport c) \<longrightarrow> \<not> x \<longrightarrow> msgbytes c < UDP_MAX_PAYLOAD_SIZE lim"
  obtains d where "(if msg_iovlen (last (msglist c)) = IOV_MAX lim \<or> x then map_option snd (add_msghdr lim c) else Some c) = Some d"
    "queue_ok lim d" "payload d = payload c" "same_conn c d" "length (last (view d)) < IOV_MAX lim"
    "IS_UDP (transport c) \<longrightarrow> msgbytes d < UDP_MAX_PAYLOAD_SIZE lim"
proof (cases "msg_iovlen (last (msglist c)) = IOV_MAX lim \<or> x")
  case True
  obtain d where "add_msghdr lim c = Some (True, d)" "queue_ok lim d" "payload d = payload c" "same_conn c d"
    "length (last (view d)) < IOV_MAX lim" "IS_UDP (transport c) \<longrightarrow> msgbytes d < UDP_MAX_PAYLOAD_SIZE lim"
    by (rule new_message_ok [OF assms(1,2)])
  then show ?thesis using True that by simp
next
  case False
  have ne: "msglist c \<noteq> []" using assms(1) by (simp add: queue_ok_def)
  then have "last (view c) \<in> set (view c)" by (simp add: view_def last_map)
  then have "length (last (view c)) \<le> IOV_MAX lim" using assms(1) by (auto simp: queue_ok_def message_ok_def)
  then show ?thesis using that [of c] False assms(1,3) view_last_length [OF ne] by simp
qed

lemma add_iov_udp_ok:
  assumes "queue_ok lim c" "limits_ok lim" "IS_UDP (transport c)"
  shows "\<exists>c'. add_iov_udp lim b c = Some (True, c') \<and> queue_ok lim c' \<and> payload c' = payload c @ b \<and> same_conn c c'"
  using assms(1,3)
proof (induction "length b" arbitrary: b c rule: less_induct)
  case less
  let ?M = "UDP_MAX_PAYLOAD_SIZE lim"
  have ne: "msglist c \<noteq> []" using less.prems(1) by (simp add: queue_ok_def)
  have "IS_UDP (transport c) \<longrightarrow> \<not> ?M \<le> msgbytes c \<longrightarrow> msgbytes c < ?M" by auto
  then obtain d where d: "(if msg_iovlen (last (msglist c)) = IOV_MAX lim \<or> ?M \<le> msgbytes c then map_option snd (add_msghdr lim c) else Some c) = Some d"
    "queue_ok lim d" "payload d = payload c" "same_conn c d" "length (last (view d)) < IOV_MAX lim" "IS_UDP (transport c) \<longrightarrow> msgbytes d < ?M"
    by (rule room_ok [OF less.prems(1) assms(2)])
  note d = d(1-5) mp [OF d(6) less.prems(2)]
  define len where "len = (if ?M < length b + msgbytes d then ?M - msgbytes d else length b)"
  have len: "len \<le> length b" "msgbytes d + len \<le> ?M" using d(6) by (auto simp: len_def)
  have fit: "IS_UDP (transport d) \<longrightarrow> msgbytes d + length (take len b) \<le> ?M" using len by simp
  obtain e f where f: "ensure_iov_space d = (True, e)" "msgbytes e = msgbytes d" "put_iov (take len b) e = Some f" "queue_ok lim f"
    "payload f = payload d @ take len b" "same_conn d f" by (rule fragment_ok [OF d(2,5) fit])
  define left where "left = (if ?M < length b + msgbytes e then length b + msgbytes e - ?M else 0)"
  have ll: "left \<le> length b" "length b - left = len" using d(6) f(2) by (auto simp: left_def len_def)
  have step: "add_iov_udp lim b c = (if 0 < left then add_iov_udp lim (drop len b) f else Some (True, f))"
    unfolding add_iov_udp.simps [of lim b c] c_assert_bind [OF ne] d(1) using f(1,3) ll
    by (simp add: left_def [symmetric])
  have sf: "same_conn c f" using d(4) f(6) same_conn_trans by blast
  show ?case
  proof (cases "0 < left")
    case False
    then have "len = length b" using ll by simp
    then show ?thesis using False step f(4,5) d(3) sf by simp
  next
    case True
    have "0 < len" using True d(6) f(2) by (auto simp: left_def len_def split: if_splits)
    then have "length (drop len b) < length b" using len(1) by simp
    moreover have "IS_UDP (transport f)" using sf less.prems(2) by (simp add: same_conn_def)
    ultimately obtain g where "add_iov_udp lim (drop len b) f = Some (True, g)" "queue_ok lim g" "payload g = payload f @ drop len b" "same_conn f g"
      using less.hyps f(4) by blast
    then show ?thesis using True step f(5) d(3) sf same_conn_trans by auto
  qed
qed

lemma add_iov_same:
  assumes "queue_ok lim c" "limits_ok lim"
  shows "\<exists>c'. add_iov lim b c = Some (True, c') \<and> payload c' = payload c @ b \<and> queue_ok lim c' \<and> same_conn c c'"
proof (cases "IS_UDP (transport c)")
  case True
  then show ?thesis using add_iov_udp_ok [OF assms True, of b] by (auto simp: add_iov_def)
next
  case False
  have ne: "msglist c \<noteq> []" using assms(1) by (simp add: queue_ok_def)
  have "IS_UDP (transport c) \<longrightarrow> \<not> False \<longrightarrow> msgbytes c < UDP_MAX_PAYLOAD_SIZE lim" using False by simp
  then obtain d where d: "(if msg_iovlen (last (msglist c)) = IOV_MAX lim \<or> False then map_option snd (add_msghdr lim c) else Some c) = Some d"
    "queue_ok lim d" "payload d = payload c" "same_conn c d" "length (last (view d)) < IOV_MAX lim" by (rule room_ok [OF assms])
  have fit: "IS_UDP (transport d) \<longrightarrow> msgbytes d + length b \<le> UDP_MAX_PAYLOAD_SIZE lim" using False d(4) by (simp add: same_conn_def)
  obtain e f where f: "ensure_iov_space d = (True, e)" "put_iov b e = Some f" "queue_ok lim f" "payload f = payload d @ b" "same_conn d f"
    by (rule fragment_ok [OF d(2,5) fit])
  have "same_conn c f" using d(4) f(5) same_conn_trans by blast
  then show ?thesis using False d(1,3) ne f by (simp add: add_iov_def)
qed

text \<open>
  (C21) Queued output is what was asked for. When no allocation fails, \<^verbatim>\<open>add_iov\<close> appends exactly the given bytes to the payload, for streams and for
  datagrams, however they are split; no message gets more than \<^verbatim>\<open>IOV_MAX\<close> entries, no datagram exceeds its maximum size and each starts
  with the room for its header. The messages keep tiling the iovec array, with no pointer left into an array that has been moved.
\<close>

theorem add_iov_queues:
  assumes "queue_ok lim c" "limits_ok lim"
  shows "\<exists>c'. add_iov lim b c = Some (True, c') \<and> payload c' = payload c @ b \<and> queue_ok lim c' \<and>
    tiled (iov_gen c') 0 (msglist c') \<and> iovused c' \<le> iovsize c'"
  using add_iov_same [OF assms, of b] by (auto simp: queue_ok_def out_ok_def)

definition ex_udp :: client where
  "ex_udp = ex_client\<lparr>transport := udp_transport, iov := (\<lambda>_. replicate 8 0), iovused := 1, iovsize := 1, msgbytes := 8,
     msglist := [\<lparr>msg_gen = 0, msg_iov = 0, msg_iovlen = 1\<rparr>]\<rparr>"

lemma ex_udp_ok: "queue_ok ex_limits ex_udp" "limits_ok ex_limits" "payload ex_udp = []"
  by (simp_all add: queue_ok_def out_ok_def view_def entries_def payload_def message_ok_def limits_ok_def ex_limits_def total_def
      allocs_ok_def IS_UDP_def ex_udp_def ex_client_def)

theorem add_iov_queues_witness:
  "\<exists>c'. add_iov ex_limits (replicate 2000 7) ex_udp = Some (True, c') \<and> payload c' = replicate 2000 7"
  using add_iov_queues [OF ex_udp_ok(1,2), of "replicate 2000 7"] ex_udp_ok(3) by auto

section \<open>Binary responses\<close>

text \<open>What a client reads: the header fields and the body.\<close>

definition dec16 :: "bytes \<Rightarrow> u16" where "dec16 bs = push_bit 8 (ucast (bs ! 0)) OR ucast (bs ! 1)"
definition dec32 :: "bytes \<Rightarrow> u32" where "dec32 bs = push_bit 16 (ucast (dec16 bs)) OR ucast (dec16 (drop 2 bs))"
definition dec64 :: "bytes \<Rightarrow> u64" where "dec64 bs = push_bit 32 (ucast (dec32 bs)) OR ucast (dec32 (drop 4 bs))"

record response =
  r_opcode :: u8
  r_keylen :: u16
  r_extlen :: u8
  r_status :: u16
  r_opaque :: u32
  r_cas :: u64
  r_body :: bytes

definition decode_response :: "bytes \<Rightarrow> response option" where
  "decode_response bs =
     (if length bs < 24 \<or> bs ! 0 \<noteq> 129 \<or> length bs \<noteq> 24 + unat (dec32 (drop 8 bs)) then None
      else Some \<lparr>r_opcode = bs ! 1, r_keylen = dec16 (drop 2 bs), r_extlen = bs ! 4, r_status = dec16 (drop 6 bs),
        r_opaque = bytes_to_u32 (drop 12 bs), r_cas = dec64 (drop 16 bs), r_body = drop 24 bs\<rparr>)"

lemma length_be [simp]: "length (be16 x) = 2" "length (be32 y) = 4" "length (be64 z) = 8" "length (u32_to_bytes y) = 4"
  by (simp_all add: be16_def be32_def be64_def u32_to_bytes_def)

lemma dec16_be16: "dec16 (be16 w @ bs) = w"
proof (rule bit_word_eqI)
  fix n assume "n < LENGTH(16)"
  then show "bit (dec16 (be16 w @ bs)) n = bit w n"
    by (auto simp: dec16_def be16_def bit_or_iff bit_push_bit_iff bit_ucast_iff bit_drop_bit_eq)
qed

lemma dec32_be32: "dec32 (be32 w @ bs) = w"
proof (rule bit_word_eqI)
  fix n assume "n < LENGTH(32)"
  then show "bit (dec32 (be32 w @ bs)) n = bit w n"
    by (auto simp: dec32_def be32_def dec16_be16 bit_or_iff bit_push_bit_iff bit_ucast_iff bit_drop_bit_eq)
qed

lemma dec64_be64: "dec64 (be64 w @ bs) = w"
proof (rule bit_word_eqI)
  fix n assume "n < LENGTH(64)"
  then show "bit (dec64 (be64 w @ bs)) n = bit w n"
    by (auto simp: dec64_def be64_def dec32_be32 bit_or_iff bit_push_bit_iff bit_ucast_iff bit_drop_bit_eq)
qed

text \<open>A connection that can answer: room for one message and for a header in the write buffer.\<close>

definition can_answer :: "client \<Rightarrow> bool" where
  "can_answer c \<longleftrightarrow> 0 < iovsize c \<and> 0 < msgsize c \<and> allocs_ok c \<and> 24 \<le> length (wbuf c)"

lemma add_bin_header_ok:
  assumes "can_answer c" "limits_ok lim"
  obtains c' where "add_bin_header lim err h k b c = Some c'" "queue_ok lim c'" "payload c' = response_header err h k b c"
    "length (wbuf c') = length (wbuf c)" "noreply c' = noreply c"
proof -
  let ?c = "c\<lparr>msgcurr := 0, msglist := [], iovused := 0\<rparr>"
  have "out_ok ?c" using assms(1) by (simp add: out_ok_def can_answer_def total_def allocs_ok_def)
  then obtain d where d: "add_msghdr lim ?c = Some (True, d)" "out_ok d" "same_conn ?c d" "msglist d \<noteq> []"
    "view d = view ?c @ [if IS_UDP (transport ?c) then [replicate (UDP_HEADER_SIZE lim) 0] else []]" by (rule add_msghdr_ok)
  have t: "transport d = transport c" "opcode d = opcode c" "opaque d = opaque c" "cas d = cas c" "wbuf d = wbuf c" "noreply d = noreply c"
    using d(3) by (simp_all add: same_conn_def)
  have v: "view d = [if IS_UDP (transport c) then [replicate (UDP_HEADER_SIZE lim) 0] else []]" using d(5) by (simp add: view_def)
  have h: "response_header err h k b d = response_header err h k b c" by (simp add: response_header_def t)
  have l: "length (response_header err h k b c) = 24" by (simp add: response_header_def)
  then obtain wb where w: "buf_write 0 (response_header err h k b c) (wbuf d) = Some wb" "length wb = length (wbuf c)"
    using assms(1) by (simp add: buf_write_def can_answer_def t)
  let ?d = "d\<lparr>wbuf := wb\<rparr>"
  have vd: "view ?d = view d" by (simp add: view_def)
  have "out_ok ?d" using d(2) vd by (simp add: out_ok_def allocs_ok_def)
  then have q: "queue_ok lim ?d" using d(4) assms(2) vd v t(1) by (auto simp: queue_ok_def message_ok_def limits_ok_def)
  have p: "payload ?d = []" by (simp add: payload_def vd v t)
  obtain e where e: "add_iov lim (response_header err h k b c) ?d = Some (True, e)" "payload e = response_header err h k b c" "queue_ok lim e"
    "same_conn ?d e"
    using add_iov_same [OF q assms(2), of "response_header err h k b c"] p by auto
  have "add_bin_header lim err h k b c = Some e" by (subst add_bin_header.simps) (simp add: d(1) h w(1) e(1) Let_def)
  then show ?thesis using that e w(2) t(6) by (simp add: same_conn_def)
qed

lemma bytes_to_u32_append: "bytes_to_u32 (u32_to_bytes w @ bs) = w"
  using u32_bytes_roundtrip [of w] by (simp add: bytes_to_u32_def u32_to_bytes_def)

lemma decode_response_header:
  assumes "length d < 2 ^ 32"
  shows "decode_response (response_header err h k (of_nat (length d)) c @ d) =
    Some \<lparr>r_opcode = opcode c, r_keylen = k, r_extlen = h, r_status = err, r_opaque = opaque c, r_cas = cas c, r_body = d\<rparr>"
proof -
  let ?b = "response_header err h k (of_nat (length d)) c @ d"
  have b: "?b = [129, opcode c] @ be16 k @ [h, 0] @ be16 err @ be32 (of_nat (length d)) @ u32_to_bytes (opaque c) @ be64 (cas c) @ d"
    by (simp add: response_header_def)
  have n: "?b ! 0 = 129" "?b ! 1 = opcode c" "?b ! 4 = h" "length ?b = 24 + length d"
    unfolding b by (simp_all add: nth_append)
  have dr: "drop 2 ?b = be16 k @ [h, 0] @ be16 err @ be32 (of_nat (length d)) @ u32_to_bytes (opaque c) @ be64 (cas c) @ d"
    "drop 6 ?b = be16 err @ be32 (of_nat (length d)) @ u32_to_bytes (opaque c) @ be64 (cas c) @ d"
    "drop 8 ?b = be32 (of_nat (length d)) @ u32_to_bytes (opaque c) @ be64 (cas c) @ d"
    "drop 12 ?b = u32_to_bytes (opaque c) @ be64 (cas c) @ d" "drop 16 ?b = be64 (cas c) @ d" "drop 24 ?b = d"
    unfolding b by simp_all
  have u: "unat (of_nat (length d) :: u32) = length d" using assms by (simp add: unat_of_nat take_bit_nat_eq_self)
  show ?thesis unfolding decode_response_def n dr dec16_be16 dec32_be32 dec64_be64 bytes_to_u32_append u by simp
qed

lemma response_body_ok:
  assumes "can_answer c" "limits_ok lim" "length d < 2 ^ 32"
  obtains e f where "add_bin_header lim err h k (of_nat (length d)) c = Some e"
    "(if d \<noteq> [] then map_option snd (add_iov lim d e) else Some e) = Some f" "noreply f = noreply c"
    "decode_response (payload f) =
       Some \<lparr>r_opcode = opcode c, r_keylen = k, r_extlen = h, r_status = err, r_opaque = opaque c, r_cas = cas c, r_body = d\<rparr>"
proof -
  obtain e where e: "add_bin_header lim err h k (of_nat (length d)) c = Some e" "queue_ok lim e"
    "payload e = response_header err h k (of_nat (length d)) c" "noreply e = noreply c" by (rule add_bin_header_ok [OF assms(1,2)])
  obtain f where f: "add_iov lim d e = Some (True, f)" "payload f = payload e @ d" "same_conn e f"
    using add_iov_same [OF e(2) assms(2), of d] by blast
  note dec = decode_response_header [OF assms(3), of err h k c]
  show ?thesis
  proof (cases "d = []")
    case True
    then show ?thesis using that [OF e(1), of e] e(3,4) dec by simp
  next
    case False
    then show ?thesis using that [OF e(1), of f] f e(3,4) dec by (simp add: same_conn_def)
  qed
qed

text \<open>What a client decodes from the queued output: an answer of this connection.\<close>

definition bin_answer :: "client \<Rightarrow> u16 \<Rightarrow> u8 \<Rightarrow> u16 \<Rightarrow> bytes \<Rightarrow> client \<Rightarrow> bool" where
  "bin_answer c k h st d c' \<longleftrightarrow> state c' = conn_mwrite \<and> decode_response (payload c') =
     Some \<lparr>r_opcode = opcode c, r_keylen = k, r_extlen = h, r_status = st, r_opaque = opaque c, r_cas = cas c, r_body = d\<rparr>"

lemma write_bin_response_ok:
  assumes "can_answer c" "limits_ok lim" "length d < 2 ^ 32" "\<not> noreply c"
  shows "\<exists>c'. write_bin_response lim d hlen kl c = Some c' \<and> write_and_go c' = conn_new_cmd \<and> bin_answer c (of_int kl) (of_int hlen) 0 d c'"
proof -
  obtain e f where f: "add_bin_header lim 0 (of_int hlen) (of_int kl) (of_nat (length d)) c = Some e"
    "(if d \<noteq> [] then map_option snd (add_iov lim d e) else Some e) = Some f"
    "decode_response (payload f) = Some \<lparr>r_opcode = opcode c, r_keylen = of_int kl, r_extlen = of_int hlen,
      r_status = 0, r_opaque = opaque c, r_cas = cas c, r_body = d\<rparr>" using response_body_ok [OF assms(1-3)] by metis
  let ?g = "(if conn_mwrite \<noteq> state f then f\<lparr>state := conn_mwrite\<rparr> else f)\<lparr>write_and_go := conn_new_cmd\<rparr>"
  have "payload ?g = payload f" by (simp add: payload_def view_def)
  moreover have "write_bin_response lim d hlen kl c = Some ?g" using assms(4) f(1,2) by (simp add: write_bin_response_def conn_set_state_def)
  ultimately show ?thesis using f(3) by (auto simp: bin_answer_def)
qed

lemma write_bin_error_ok:
  assumes "can_answer c" "limits_ok lim" "error_text err = Some str"
  shows "\<exists>c'. write_bin_error lim err None swallow c = Some c' \<and> write_and_go c' = (if 0 < swallow then conn_swallow else conn_new_cmd) \<and>
    bin_answer c 0 0 (status_code err) str c'"
proof -
  have "length str < 2 ^ 32" using assms(3) by (cases err) (auto simp: ascii_def)
  then obtain e f where f: "add_bin_header lim (status_code err) 0 0 (of_nat (length str)) c = Some e"
    "(if str \<noteq> [] then map_option snd (add_iov lim str e) else Some e) = Some f"
    "decode_response (payload f) = Some \<lparr>r_opcode = opcode c, r_keylen = 0, r_extlen = 0,
      r_status = status_code err, r_opaque = opaque c, r_cas = cas c, r_body = str\<rparr>" using response_body_ok [OF assms(1,2)] by metis
  let ?m = "if conn_mwrite \<noteq> state f then f\<lparr>state := conn_mwrite\<rparr> else f"
  let ?g = "if 0 < swallow then ?m\<lparr>sbytes := swallow, write_and_go := conn_swallow\<rparr> else ?m\<lparr>write_and_go := conn_new_cmd\<rparr>"
  have "payload ?g = payload f" by (simp add: payload_def view_def)
  moreover have "write_bin_error lim err None swallow c = Some ?g" using assms(3) f(1,2) by (simp add: write_bin_error_def conn_set_state_def)
  ultimately show ?thesis using f(3) by (auto simp: bin_answer_def)
qed

text \<open>
  (C22) Binary answers can be read back. A client that decodes what \<^verbatim>\<open>write_bin_response\<close> or \<^verbatim>\<open>write_bin_error\<close> has queued, from the network byte
  order of the header, gets the opcode, opaque and CAS values of the connection, the lengths and the status that were given, and exactly the
  body; an error carries the text of its status.
\<close>

theorem bin_response_roundtrip:
  assumes "can_answer c" "limits_ok lim"
  shows "(length d < 2 ^ 32 \<and> \<not> noreply c \<longrightarrow>
      (\<exists>c'. write_bin_response lim d hlen keylen c = Some c' \<and> state c' = conn_mwrite \<and> write_and_go c' = conn_new_cmd \<and>
         decode_response (payload c') = Some \<lparr>r_opcode = opcode c, r_keylen = of_int keylen, r_extlen = of_int hlen,
           r_status = 0, r_opaque = opaque c, r_cas = cas c, r_body = d\<rparr>)) \<and>
    (error_text err = Some str \<longrightarrow>
      (\<exists>c'. write_bin_error lim err None swallow c = Some c' \<and> state c' = conn_mwrite \<and>
         write_and_go c' = (if 0 < swallow then conn_swallow else conn_new_cmd) \<and>
         decode_response (payload c') = Some \<lparr>r_opcode = opcode c, r_keylen = 0, r_extlen = 0,
           r_status = status_code err, r_opaque = opaque c, r_cas = cas c, r_body = str\<rparr>))"
  using write_bin_response_ok [OF assms, of d hlen keylen] write_bin_error_ok [OF assms, of err str swallow] by (auto simp: bin_answer_def)

theorem bin_response_roundtrip_witness:
  "\<exists>c'. write_bin_error ex_limits KEY_ENOENT None 0 (ex_client\<lparr>opcode := 4, opaque := 99\<rparr>) = Some c' \<and>
     map_option r_status (decode_response (payload c')) = Some 1 \<and> map_option r_opaque (decode_response (payload c')) = Some 99"
proof -
  have "can_answer (ex_client\<lparr>opcode := 4, opaque := 99\<rparr>)" by (simp add: can_answer_def ex_client_def allocs_ok_def)
  note r = bin_response_roundtrip [OF this ex_udp_ok(2), of "[]" 0 0 KEY_ENOENT "ascii ''Not found''" 0, THEN conjunct2]
  have "error_text KEY_ENOENT = Some (ascii ''Not found'')" by simp
  then show ?thesis using r by auto
qed

end
