(* ===== verification/Prefix_Stats.thy ===== *)
theory Prefix_Stats
  imports Util
begin

text \<open>
  Statistics by key prefix, \<^verbatim>\<open>thread/stats.c\<close>: a hash of 256 chains, one entry per prefix in front of the delimiter, and its dump as text.
  A pointer to an entry is its chain and its position there; entries are only ever added at the head of a chain or all
  dropped. \<open>pf_allocs\<close> holds the results of the coming allocations; when it is empty they succeed. The two counters are C ints; they
  count allocated memory, so they are natural numbers here.
\<close>

record PREFIX_STATS =
  prefix :: bytes
  prefix_len :: nat
  num_gets :: u64
  num_sets :: u64
  num_deletes :: u64
  num_hits :: u64

abbreviation (input) PREFIX_HASH_SIZE :: nat where "PREFIX_HASH_SIZE \<equiv> 256"

record prefix_state =
  prefix_stats :: "nat \<Rightarrow> PREFIX_STATS list"
  num_prefixes :: nat
  total_prefix_size :: nat
  pf_allocs :: "bool list"

definition pf_alloc :: "prefix_state \<Rightarrow> bool \<times> prefix_state" where
  "pf_alloc st = (case pf_allocs st of [] \<Rightarrow> (True, st) | ok # rest \<Rightarrow> (ok, st\<lparr>pf_allocs := rest\<rparr>))"

section \<open>Operations\<close>

definition stats_prefix_init :: "prefix_state \<Rightarrow> prefix_state" where
  "stats_prefix_init st = st\<lparr>prefix_stats := (\<lambda>_. [])\<rparr>"

definition stats_prefix_clear :: "prefix_state \<Rightarrow> prefix_state" where
  "stats_prefix_clear st =
     st\<lparr>prefix_stats := (\<lambda>i. if i < PREFIX_HASH_SIZE then [] else prefix_stats st i), num_prefixes := 0, total_prefix_size := 0\<rparr>"

text \<open>The scan for the delimiter: the prefix, or nothing when the key has none.\<close>

definition key_prefix :: "8 word \<Rightarrow> bytes \<Rightarrow> bytes option" where
  "key_prefix delim key =
     (let len = length (takeWhile (\<lambda>b. b \<noteq> 0 \<and> b \<noteq> delim) key)
      in if len < length key \<and> key ! len \<noteq> 0 then Some (take len key) else None)"

text \<open>The walk over a chain, with \<^verbatim>\<open>strncmp(pfs->prefix, key, length)\<close>: only the first \<^verbatim>\<open>length\<close> bytes of the entry are compared.\<close>

fun prefix_search :: "bytes \<Rightarrow> PREFIX_STATS list \<Rightarrow> nat option" where
  "prefix_search key [] = None"
| "prefix_search key (p # ps) = (if take (length key) (prefix p) = key then Some 0 else map_option Suc (prefix_search key ps))"

definition stats_prefix_find ::
  "(bytes \<Rightarrow> u32) \<Rightarrow> 8 word \<Rightarrow> bytes \<Rightarrow> prefix_state \<Rightarrow> (nat \<times> nat) option \<times> prefix_state" where
  "stats_prefix_find hash delim key st =
     (case key_prefix delim key of
        None \<Rightarrow> (None, st)
      | Some pre \<Rightarrow>
          (let hashval = unat (hash pre) mod PREFIX_HASH_SIZE
           in (case prefix_search pre (prefix_stats st hashval) of
                 Some i \<Rightarrow> (Some (hashval, i), st)
               | None \<Rightarrow>
                   (let (ok, st) = pf_alloc st;
                        (ok, st) = (if ok then pf_alloc st else (False, st));
                        pfs = \<lparr>prefix = pre, prefix_len = length pre, num_gets = 0, num_sets = 0, num_deletes = 0, num_hits = 0\<rparr>
                    in if \<not> ok then (None, st)
                       else (Some (hashval, 0), st\<lparr>prefix_stats := (prefix_stats st)(hashval := pfs # prefix_stats st hashval),
                              num_prefixes := num_prefixes st + 1, total_prefix_size := total_prefix_size st + length pre\<rparr>)))))"

definition upd_pfs :: "(PREFIX_STATS \<Rightarrow> PREFIX_STATS) \<Rightarrow> (nat \<times> nat) option \<times> prefix_state \<Rightarrow> prefix_state" where
  "upd_pfs f r =
     (case r of (None, st) \<Rightarrow> st
      | (Some (h, i), st) \<Rightarrow> st\<lparr>prefix_stats := (prefix_stats st)(h := (prefix_stats st h)[i := f (prefix_stats st h ! i)])\<rparr>)"

definition stats_prefix_record_get :: "(bytes \<Rightarrow> u32) \<Rightarrow> 8 word \<Rightarrow> bytes \<Rightarrow> bool \<Rightarrow> prefix_state \<Rightarrow> prefix_state" where
  "stats_prefix_record_get hash delim key is_hit st =
     upd_pfs (\<lambda>pfs. let pfs = pfs\<lparr>num_gets := num_gets pfs + 1\<rparr> in if is_hit then pfs\<lparr>num_hits := num_hits pfs + 1\<rparr> else pfs)
       (stats_prefix_find hash delim key st)"

definition stats_prefix_record_delete :: "(bytes \<Rightarrow> u32) \<Rightarrow> 8 word \<Rightarrow> bytes \<Rightarrow> prefix_state \<Rightarrow> prefix_state" where
  "stats_prefix_record_delete hash delim key st =
     upd_pfs (\<lambda>pfs. pfs\<lparr>num_deletes := num_deletes pfs + 1\<rparr>) (stats_prefix_find hash delim key st)"

definition stats_prefix_record_set :: "(bytes \<Rightarrow> u32) \<Rightarrow> 8 word \<Rightarrow> bytes \<Rightarrow> prefix_state \<Rightarrow> prefix_state" where
  "stats_prefix_record_set hash delim key st =
     upd_pfs (\<lambda>pfs. pfs\<lparr>num_sets := num_sets pfs + 1\<rparr>) (stats_prefix_find hash delim key st)"

section \<open>The dump\<close>

text \<open>The line that \<^verbatim>\<open>snprintf\<close> writes for an entry; \<^verbatim>\<open>%s\<close> stops at a NUL.\<close>

definition prefix_line :: "PREFIX_STATS \<Rightarrow> bytes" where
  "prefix_line p = ascii ''PREFIX '' @ takeWhile (\<lambda>b. b \<noteq> 0) (prefix p) @ ascii '' get '' @ print_nat (unat (num_gets p)) @
     ascii '' hit '' @ print_nat (unat (num_hits p)) @ ascii '' set '' @ print_nat (unat (num_sets p)) @
     ascii '' del '' @ print_nat (unat (num_deletes p)) @ CRLF"

definition dump_format :: bytes where
  "dump_format = ascii ''PREFIX %s get %llu hit %llu set %llu del %llu'' @ CRLF"

definition dump_size :: "prefix_state \<Rightarrow> nat" where
  "dump_size st = length dump_format + total_prefix_size st + num_prefixes st * (length dump_format - 2 + 4 * (20 - 4)) + 6"

text \<open>
  The loop over all entries. A line that does not fit would be cut by \<^verbatim>\<open>snprintf\<close>, which still returns its full length, so the assertion
  behind it fails: \<^const>\<open>None\<close>.
\<close>

fun dump_loop :: "nat \<Rightarrow> bytes \<Rightarrow> PREFIX_STATS list \<Rightarrow> bytes option" where
  "dump_loop sz buf [] = Some buf"
| "dump_loop sz buf (p # ps) = do {
     let buf = buf @ prefix_line p;
     c_assert (length buf < sz);
     dump_loop sz buf ps
   }"

definition all_entries :: "prefix_state \<Rightarrow> PREFIX_STATS list" where
  "all_entries st = concat (map (prefix_stats st) [0..<PREFIX_HASH_SIZE])"

text \<open>\<^verbatim>\<open>stats_prefix_dump\<close>: the text, or nothing when there is no memory. The final \<^verbatim>\<open>memcpy\<close> also writes a NUL behind the text; writing
over the end of the buffer is undefined.\<close>

definition stats_prefix_dump :: "prefix_state \<Rightarrow> (bytes option \<times> prefix_state) option" where
  "stats_prefix_dump st =
     (let sz = dump_size st; (ok, st) = pf_alloc st
      in if \<not> ok then Some (None, st)
         else do {
           buf \<leftarrow> dump_loop sz [] (all_entries st);
           c_assert (length buf + 6 \<le> sz);
           Some (Some (buf @ ascii ''END'' @ CRLF), st)
         })"

section \<open>The table\<close>

text \<open>The counters describe the table, and no prefix holds a NUL or is recorded with a wrong length.\<close>

definition prefix_inv :: "prefix_state \<Rightarrow> bool" where
  "prefix_inv st \<longleftrightarrow> num_prefixes st = length (all_entries st) \<and>
     total_prefix_size st = sum_list (map prefix_len (all_entries st)) \<and>
     (\<forall>p \<in> set (all_entries st). prefix_len p = length (prefix p) \<and> 0 \<notin> set (prefix p))"

lemma all_entries_upd:
  assumes "h < PREFIX_HASH_SIZE"
  obtains xs ys where "all_entries st = xs @ prefix_stats st h @ ys"
    "\<forall>zs. all_entries (st\<lparr>prefix_stats := (prefix_stats st)(h := zs)\<rparr>) = xs @ zs @ ys"
proof
  have u: "[0..<PREFIX_HASH_SIZE] = [0..<h] @ h # [Suc h..<PREFIX_HASH_SIZE]"
    using assms upt_add_eq_append [of 0 h "256 - h"] upt_conv_Cons [of h 256] by simp
  show "all_entries st = concat (map (prefix_stats st) [0..<h]) @ prefix_stats st h @ concat (map (prefix_stats st) [Suc h..<PREFIX_HASH_SIZE])"
    unfolding all_entries_def u by simp
  show "\<forall>zs. all_entries (st\<lparr>prefix_stats := (prefix_stats st)(h := zs)\<rparr>) =
    concat (map (prefix_stats st) [0..<h]) @ zs @ concat (map (prefix_stats st) [Suc h..<PREFIX_HASH_SIZE])"
    unfolding all_entries_def u by (simp add: map_fun_upd)
qed

lemma all_entries_simps [simp]:
  "all_entries (st\<lparr>pf_allocs := x\<rparr>) = all_entries st" "all_entries (st\<lparr>num_prefixes := n\<rparr>) = all_entries st"
  "all_entries (st\<lparr>total_prefix_size := n\<rparr>) = all_entries st"
  by (simp_all add: all_entries_def)

lemma pf_alloc_keeps: "pf_alloc st = (ok, st') \<Longrightarrow> \<exists>x. st' = st\<lparr>pf_allocs := x\<rparr> \<and> (pf_allocs st = [] \<longrightarrow> ok \<and> x = [])"
proof -
  assume a: "pf_alloc st = (ok, st')"
  show ?thesis
  proof (cases "pf_allocs st")
    case Nil
    then have "st' = st\<lparr>pf_allocs := []\<rparr>" "ok" using a by (simp_all add: pf_alloc_def)
    then show ?thesis by blast
  qed (use a in \<open>auto simp: pf_alloc_def\<close>)
qed

lemma key_prefix_no_nul: "key_prefix delim key = Some pre \<Longrightarrow> 0 \<notin> set pre \<and> delim \<notin> set pre"
  by (auto simp: key_prefix_def Let_def takeWhile_eq_take [symmetric] split: if_splits dest: set_takeWhileD)

lemma prefix_search_Some: "prefix_search k ps = Some i \<Longrightarrow> i < length ps \<and> take (length k) (prefix (ps ! i)) = k"
  by (induction ps arbitrary: i) (auto split: if_splits)

lemma prefix_search_None: "prefix_search k ps = None \<longleftrightarrow> (\<forall>p \<in> set ps. take (length k) (prefix p) \<noteq> k)"
  by (induction ps) auto

section \<open>Exact attribution\<close>

definition bucket :: "(bytes \<Rightarrow> u32) \<Rightarrow> bytes \<Rightarrow> nat" where
  "bucket hash pre = unat (hash pre) mod PREFIX_HASH_SIZE"

definition fresh_entry :: "bytes \<Rightarrow> PREFIX_STATS" where
  "fresh_entry pre = \<lparr>prefix = pre, prefix_len = length pre, num_gets = 0, num_sets = 0, num_deletes = 0, num_hits = 0\<rparr>"

text \<open>The entry of a prefix, with zero counts if there is none yet.\<close>

definition entry_at :: "(bytes \<Rightarrow> u32) \<Rightarrow> prefix_state \<Rightarrow> bytes \<Rightarrow> PREFIX_STATS" where
  "entry_at hash st pre =
     (case List.find (\<lambda>p. prefix p = pre) (prefix_stats st (bucket hash pre)) of None \<Rightarrow> fresh_entry pre | Some p \<Rightarrow> p)"

text \<open>No prefix in use begins another one of the same chain.\<close>

definition separated :: "(bytes \<Rightarrow> u32) \<Rightarrow> bytes set \<Rightarrow> bool" where
  "separated hash P \<longleftrightarrow> (\<forall>p \<in> P. \<forall>q \<in> P. bucket hash p = bucket hash q \<longrightarrow> take (length p) q = p \<longrightarrow> q = p)"

definition table_ok :: "(bytes \<Rightarrow> u32) \<Rightarrow> bytes set \<Rightarrow> prefix_state \<Rightarrow> bool" where
  "table_ok hash P st \<longleftrightarrow> prefix_inv st \<and> pf_allocs st = [] \<and>
     (\<forall>h. distinct (map prefix (prefix_stats st h)) \<and> (\<forall>p \<in> set (prefix_stats st h). prefix p \<in> P \<and> bucket hash (prefix p) = h))"

lemma find_distinct:
  assumes "distinct (map prefix ps)" "i < length ps"
  shows "List.find (\<lambda>p. prefix p = prefix (ps ! i)) ps = Some (ps ! i)"
  using assms by (induction ps arbitrary: i) (auto simp: nth_Cons split: nat.splits)

lemma find_upd:
  assumes "distinct (map prefix ps)" "i < length ps" "prefix x = prefix (ps ! i)"
  shows "List.find (\<lambda>p. prefix p = q) (ps[i := x]) = (if q = prefix x then Some x else List.find (\<lambda>p. prefix p = q) ps)"
  using assms by (induction ps arbitrary: i) (auto split: nat.splits)

lemma search_exact:
  assumes "separated hash P" "pre \<in> P" "\<forall>p \<in> set ps. prefix p \<in> P \<and> bucket hash (prefix p) = bucket hash pre"
  shows "prefix_search pre ps = Some i \<Longrightarrow> prefix (ps ! i) = pre"
    and "prefix_search pre ps = None \<Longrightarrow> pre \<notin> prefix ` set ps"
proof -
  assume "prefix_search pre ps = Some i"
  then have i: "i < length ps" "take (length pre) (prefix (ps ! i)) = pre" using prefix_search_Some by auto
  then have "ps ! i \<in> set ps" by simp
  then show "prefix (ps ! i) = pre" using assms i(2) unfolding separated_def by metis
qed (auto simp: prefix_search_None)

definition keeps_prefix :: "(PREFIX_STATS \<Rightarrow> PREFIX_STATS) \<Rightarrow> bool" where
  "keeps_prefix f \<longleftrightarrow> (\<forall>p. prefix (f p) = prefix p \<and> prefix_len (f p) = prefix_len p)"

lemma table_ok_put:
  assumes t: "table_ok hash P st" and h: "h = bucket hash pre" and i: "i < length (prefix_stats st h)" "prefix (prefix_stats st h ! i) = pre"
    and f: "keeps_prefix f"
  defines "st' \<equiv> st\<lparr>prefix_stats := (prefix_stats st)(h := (prefix_stats st h)[i := f (prefix_stats st h ! i)])\<rparr>"
  shows "table_ok hash P st' \<and> entry_at hash st' = (entry_at hash st)(pre := f (entry_at hash st pre))"
proof -
  let ?ps = "prefix_stats st h" and ?x = "f (prefix_stats st h ! i)"
  have d: "distinct (map prefix ?ps)" using t by (simp add: table_ok_def)
  have fx: "prefix ?x = pre" "prefix_len ?x = prefix_len (?ps ! i)" using f i by (simp_all add: keeps_prefix_def)
  have m: "map prefix (?ps[i := ?x]) = map prefix ?ps" "map prefix_len (?ps[i := ?x]) = map prefix_len ?ps"
    using fx i by (simp_all add: map_update list_update_same_conv)
  have hb: "h < PREFIX_HASH_SIZE" using h by (simp add: bucket_def)
  obtain xs ys where e: "all_entries st = xs @ ?ps @ ys" "all_entries st' = xs @ ?ps[i := ?x] @ ys"
    using all_entries_upd [OF hb, of st] unfolding st'_def by metis
  have ok: "\<forall>p \<in> set (all_entries st). prefix_len p = length (prefix p) \<and> 0 \<notin> set (prefix p)"
    using t by (simp add: table_ok_def prefix_inv_def)
  have "?ps ! i \<in> set (all_entries st)" using e(1) i by simp
  then have "prefix_len ?x = length (prefix ?x) \<and> 0 \<notin> set (prefix ?x)" using ok fx i by auto
  then have "\<forall>p \<in> set (all_entries st'). prefix_len p = length (prefix p) \<and> 0 \<notin> set (prefix p)"
    using ok e set_update_subset_insert [of ?ps i ?x] by auto
  then have "prefix_inv st'" using t e m by (auto simp: table_ok_def prefix_inv_def st'_def)
  moreover have "\<forall>h'. distinct (map prefix (prefix_stats st' h')) \<and>
      (\<forall>p \<in> set (prefix_stats st' h'). prefix p \<in> P \<and> bucket hash (prefix p) = h')"
  proof (intro allI)
    fix h'
    have o: "distinct (map prefix (prefix_stats st h')) \<and> (\<forall>p \<in> set (map prefix (prefix_stats st h')). p \<in> P \<and> bucket hash p = h')"
      using t by (simp add: table_ok_def)
    have "map prefix (prefix_stats st' h') = map prefix (prefix_stats st h')" using m by (simp add: st'_def)
    then have "distinct (map prefix (prefix_stats st' h')) \<and> (\<forall>p \<in> set (map prefix (prefix_stats st' h')). p \<in> P \<and> bucket hash p = h')"
      using o by simp
    then show "distinct (map prefix (prefix_stats st' h')) \<and> (\<forall>p \<in> set (prefix_stats st' h'). prefix p \<in> P \<and> bucket hash (prefix p) = h')"
      by simp
  qed
  moreover have "entry_at hash st' q = ((entry_at hash st)(pre := f (entry_at hash st pre))) q" for q
    using find_upd [OF d i(1), of ?x q] find_distinct [OF d i(1)] fx i(2) h
    by (auto simp: entry_at_def st'_def split: option.splits)
  ultimately show ?thesis using t by (auto simp: table_ok_def st'_def)
qed

lemma table_ok_insert:
  assumes t: "table_ok hash P st" and h: "h = bucket hash pre" and pre: "pre \<in> P" "0 \<notin> set pre" "pre \<notin> prefix ` set (prefix_stats st h)"
  defines "st' \<equiv> st\<lparr>prefix_stats := (prefix_stats st)(h := fresh_entry pre # prefix_stats st h),
    num_prefixes := num_prefixes st + 1, total_prefix_size := total_prefix_size st + length pre\<rparr>"
  shows "table_ok hash P st' \<and> entry_at hash st' = entry_at hash st"
proof -
  have hb: "h < PREFIX_HASH_SIZE" using h by (simp add: bucket_def)
  obtain xs ys where e: "all_entries st = xs @ prefix_stats st h @ ys"
    "\<forall>zs. all_entries (st\<lparr>prefix_stats := (prefix_stats st)(h := zs)\<rparr>) = xs @ zs @ ys"
    by (rule all_entries_upd [OF hb, of st])
  have e': "all_entries st' = xs @ (fresh_entry pre # prefix_stats st h) @ ys" unfolding st'_def by (simp add: e(2))
  have "prefix_inv st'" using t e(1) e' pre(2) by (auto simp: table_ok_def prefix_inv_def st'_def fresh_entry_def)
  moreover have "entry_at hash st' q = entry_at hash st q" for q
  proof (cases "q = pre")
    case True
    have "List.find (\<lambda>p. prefix p = pre) (prefix_stats st h) = None" using pre(3) by (auto simp: find_None_iff)
    then show ?thesis using True h by (simp add: entry_at_def st'_def fresh_entry_def)
  next
    case False
    then show ?thesis by (simp add: entry_at_def st'_def fresh_entry_def)
  qed
  ultimately show ?thesis using t pre h by (auto simp: table_ok_def st'_def fresh_entry_def fun_eq_iff)
qed

text \<open>What a recording does: the entry of the key's prefix changes, no other.\<close>

lemma record_exact:
  assumes t: "table_ok hash P st" and s: "separated hash P" and k: "\<And>pre. key_prefix delim key = Some pre \<Longrightarrow> pre \<in> P" and f: "keeps_prefix f"
  shows "table_ok hash P (upd_pfs f (stats_prefix_find hash delim key st)) \<and>
    entry_at hash (upd_pfs f (stats_prefix_find hash delim key st)) =
      (case key_prefix delim key of None \<Rightarrow> entry_at hash st | Some pre \<Rightarrow> (entry_at hash st)(pre := f (entry_at hash st pre)))"
proof (cases "key_prefix delim key")
  case None
  then show ?thesis using t by (simp add: stats_prefix_find_def upd_pfs_def)
next
  case (Some pre)
  define h where "h = bucket hash pre"
  have pre: "pre \<in> P" "0 \<notin> set pre" using k Some key_prefix_no_nul by auto
  have al: "pf_alloc st = (True, st)" using t by (simp add: table_ok_def pf_alloc_def)
  have b: "\<forall>p \<in> set (prefix_stats st h). prefix p \<in> P \<and> bucket hash (prefix p) = bucket hash pre"
    using t by (auto simp: table_ok_def h_def)
  show ?thesis
  proof (cases "prefix_search pre (prefix_stats st h)")
    case (Some i)
    have i: "i < length (prefix_stats st h)" "prefix (prefix_stats st h ! i) = pre"
      using prefix_search_Some [OF Some] search_exact(1) [OF s pre(1) b Some] by auto
    from table_ok_put [OF t h_def i f] show ?thesis using Some \<open>key_prefix delim key = Some pre\<close>
      by (simp add: stats_prefix_find_def upd_pfs_def bucket_def [symmetric] h_def [symmetric] Let_def)
  next
    case None
    define u where "u = st\<lparr>prefix_stats := (prefix_stats st)(h := fresh_entry pre # prefix_stats st h),
      num_prefixes := num_prefixes st + 1, total_prefix_size := total_prefix_size st + length pre\<rparr>"
    have u: "table_ok hash P u" "entry_at hash u = entry_at hash st"
      using table_ok_insert [OF t h_def pre search_exact(2) [OF s pre(1) b None]] by (auto simp: u_def)
    have g: "stats_prefix_find hash delim key st = (Some (h, 0), u)"
      using None Some al by (simp add: stats_prefix_find_def bucket_def [symmetric] h_def [symmetric] Let_def u_def fresh_entry_def)
    have i: "0 < length (prefix_stats u h)" "prefix (prefix_stats u h ! 0) = pre" by (simp_all add: u_def fresh_entry_def)
    from table_ok_put [OF u(1) h_def i f] show ?thesis using g u(2) Some by (simp add: upd_pfs_def)
  qed
qed

section \<open>Properties\<close>

datatype pf_op = Record_get bytes bool | Record_set bytes | Record_delete bytes | Clear_prefixes

fun op_key :: "pf_op \<Rightarrow> bytes option" where
  "op_key (Record_get k _) = Some k"
| "op_key (Record_set k) = Some k"
| "op_key (Record_delete k) = Some k"
| "op_key Clear_prefixes = None"

fun run_op :: "(bytes \<Rightarrow> u32) \<Rightarrow> 8 word \<Rightarrow> pf_op \<Rightarrow> prefix_state \<Rightarrow> prefix_state" where
  "run_op hash delim (Record_get k hit) = stats_prefix_record_get hash delim k hit"
| "run_op hash delim (Record_set k) = stats_prefix_record_set hash delim k"
| "run_op hash delim (Record_delete k) = stats_prefix_record_delete hash delim k"
| "run_op hash delim Clear_prefixes = stats_prefix_clear"

text \<open>The specification: a table of counts by prefix.\<close>

definition count_up :: "8 word \<Rightarrow> bytes \<Rightarrow> (PREFIX_STATS \<Rightarrow> PREFIX_STATS) \<Rightarrow> (bytes \<Rightarrow> PREFIX_STATS) \<Rightarrow> bytes \<Rightarrow> PREFIX_STATS" where
  "count_up delim k f m = (case key_prefix delim k of None \<Rightarrow> m | Some pre \<Rightarrow> m(pre := f (m pre)))"

fun spec_op :: "8 word \<Rightarrow> pf_op \<Rightarrow> (bytes \<Rightarrow> PREFIX_STATS) \<Rightarrow> bytes \<Rightarrow> PREFIX_STATS" where
  "spec_op delim (Record_get k hit) m = count_up delim k
     (\<lambda>p. p\<lparr>num_gets := num_gets p + 1, num_hits := num_hits p + (if hit then 1 else 0)\<rparr>) m"
| "spec_op delim (Record_set k) m = count_up delim k (\<lambda>p. p\<lparr>num_sets := num_sets p + 1\<rparr>) m"
| "spec_op delim (Record_delete k) m = count_up delim k (\<lambda>p. p\<lparr>num_deletes := num_deletes p + 1\<rparr>) m"
| "spec_op delim Clear_prefixes m = fresh_entry"

lemma clear_ok: "table_ok hash P st \<Longrightarrow> table_ok hash P (stats_prefix_clear st) \<and> entry_at hash (stats_prefix_clear st) = fresh_entry"
proof -
  assume t: "table_ok hash P st"
  have b: "prefix_stats (stats_prefix_clear st) h = [] \<or> h \<ge> PREFIX_HASH_SIZE \<and> prefix_stats (stats_prefix_clear st) h = prefix_stats st h" for h
    by (simp add: stats_prefix_clear_def)
  have e: "all_entries (stats_prefix_clear st) = []" by (simp add: all_entries_def stats_prefix_clear_def)
  have "bucket hash q < PREFIX_HASH_SIZE" for q by (simp add: bucket_def)
  then have "prefix_stats (stats_prefix_clear st) (bucket hash q) = []" for q by (simp add: stats_prefix_clear_def)
  then have "entry_at hash (stats_prefix_clear st) = fresh_entry" by (simp add: entry_at_def fun_eq_iff)
  moreover have "table_ok hash P (stats_prefix_clear st)"
    using t e b unfolding table_ok_def prefix_inv_def by (auto simp: stats_prefix_clear_def)
  ultimately show ?thesis by blast
qed

lemma run_op_ok:
  assumes "table_ok hash P st" "separated hash P" "\<And>k pre. op_key x = Some k \<Longrightarrow> key_prefix delim k = Some pre \<Longrightarrow> pre \<in> P"
  shows "table_ok hash P (run_op hash delim x st) \<and> entry_at hash (run_op hash delim x st) = spec_op delim x (entry_at hash st)"
proof (cases x)
  case (Record_get k hit)
  have "(\<lambda>pfs. let pfs = pfs\<lparr>num_gets := num_gets pfs + 1\<rparr> in if hit then pfs\<lparr>num_hits := num_hits pfs + 1\<rparr> else pfs) =
     (\<lambda>p. p\<lparr>num_gets := num_gets p + 1, num_hits := num_hits p + (if hit then 1 else 0)\<rparr>)" by (auto simp: fun_eq_iff)
  then show ?thesis using record_exact [OF assms(1,2), of delim k "\<lambda>p. p\<lparr>num_gets := num_gets p + 1, num_hits := num_hits p + (if hit then 1 else 0)\<rparr>"]
    assms(3) Record_get by (auto simp: stats_prefix_record_get_def count_up_def keeps_prefix_def)
next
  case (Record_set k)
  then show ?thesis using record_exact [OF assms(1,2), of delim k "\<lambda>p. p\<lparr>num_sets := num_sets p + 1\<rparr>"]
    assms(3) by (auto simp: stats_prefix_record_set_def count_up_def keeps_prefix_def)
next
  case (Record_delete k)
  then show ?thesis using record_exact [OF assms(1,2), of delim k "\<lambda>p. p\<lparr>num_deletes := num_deletes p + 1\<rparr>"]
    assms(3) by (auto simp: stats_prefix_record_delete_def count_up_def keeps_prefix_def)
next
  case Clear_prefixes
  then show ?thesis using clear_ok [OF assms(1)] by simp
qed

lemma init_ok: "num_prefixes st = 0 \<Longrightarrow> total_prefix_size st = 0 \<Longrightarrow> pf_allocs st = [] \<Longrightarrow>
   table_ok hash P (stats_prefix_init st) \<and> entry_at hash (stats_prefix_init st) = fresh_entry"
  by (simp add: table_ok_def stats_prefix_init_def prefix_inv_def all_entries_def entry_at_def fun_eq_iff)

lemma runs_ok:
  assumes "table_ok hash P st" "separated hash P"
    and "\<forall>x \<in> set ops. \<forall>k. op_key x = Some k \<longrightarrow> (\<forall>pre. key_prefix delim k = Some pre \<longrightarrow> pre \<in> P)"
  shows "table_ok hash P (fold (run_op hash delim) ops st) \<and>
    entry_at hash (fold (run_op hash delim) ops st) = fold (spec_op delim) ops (entry_at hash st)"
  using assms
proof (induction ops arbitrary: st)
  case (Cons x xs)
  have "table_ok hash P (run_op hash delim x st)" "entry_at hash (run_op hash delim x st) = spec_op delim x (entry_at hash st)"
    using run_op_ok [OF Cons.prems(1,2), of x delim] Cons.prems(3) by auto
  with Cons.IH [OF this(1) Cons.prems(2)] Cons.prems(3) show ?case by simp
qed simp


definition ex_prefixes :: prefix_state where
  "ex_prefixes = \<lparr>prefix_stats = (\<lambda>_. []), num_prefixes = 0, total_prefix_size = 0, pf_allocs = []\<rparr>"


text \<open>Without that condition a key is counted for another prefix: the chain is searched for an entry that begins with the prefix of the key.\<close>

lemma prefix_find_misattributes:
  "let st = fold (run_op (\<lambda>_. 7) 58) [Record_set [97, 98, 58], Record_get [97, 58] True] ex_prefixes
   in entry_at (\<lambda>_. 7) st [97] = fresh_entry [97] \<and> num_gets (entry_at (\<lambda>_. 7) st [97, 98]) = 1"
  by (simp add: ex_prefixes_def stats_prefix_record_set_def stats_prefix_record_get_def stats_prefix_find_def upd_pfs_def key_prefix_def
      pf_alloc_def entry_at_def bucket_def fresh_entry_def Let_def)

text \<open>The length of a decimal number.\<close>

lemma print_nat_length: "n < 10 ^ k \<Longrightarrow> 0 < k \<Longrightarrow> length (print_nat n) \<le> k"
proof (induction n arbitrary: k rule: print_nat.induct)
  case (1 n)
  show ?case
  proof (cases "n < 10")
    case True
    then show ?thesis using "1.prems" by (subst print_nat.simps) simp
  next
    case False
    then obtain j where j: "k = Suc j" "0 < j" using "1.prems" by (cases k; cases "k - 1") auto
    have "n div 10 < 10 ^ j" using "1.prems"(1) j by (simp add: div_less_iff_less_mult mult.commute)
    from "1.IH" [OF False this j(2)] show ?thesis using j False by (subst print_nat.simps) simp
  qed
qed

lemma print_u64_length: "length (print_nat (unat (w :: u64))) \<le> 20"
proof (rule print_nat_length)
  have "unat w < 2 ^ 64" using unsigned_less [of w] by simp
  then show "unat w < 10 ^ 20" by simp
qed simp

lemma prefix_line_length: "prefix_len p = length (prefix p) \<Longrightarrow> length (prefix_line p) \<le> prefix_len p + 109"
  using length_takeWhile_le [of "\<lambda>b. b \<noteq> 0" "prefix p"] print_u64_length [of "num_gets p"] print_u64_length [of "num_hits p"]
    print_u64_length [of "num_sets p"] print_u64_length [of "num_deletes p"]
  by (simp add: prefix_line_def ascii_def CRLF_def)

lemma dump_loop_fits:
  "length buf + sum_list (map (\<lambda>p. length (prefix_line p)) ps) < sz \<Longrightarrow> dump_loop sz buf ps = Some (buf @ concat (map prefix_line ps))"
  by (induction ps arbitrary: buf) auto

lemma lines_length:
  "\<forall>p \<in> set ps. prefix_len p = length (prefix p) \<Longrightarrow>
     sum_list (map (\<lambda>p. length (prefix_line p)) ps) \<le> sum_list (map prefix_len ps) + length ps * 109"
proof (induction ps)
  case (Cons p ps)
  have "prefix_len p = length (prefix p)" using Cons.prems by simp
  from prefix_line_length [OF this] show ?case using Cons.IH Cons.prems by simp
qed simp

text \<open>
  (C36) The dump fits into its buffer. With counters that describe the table, as every sequence of recordings leaves them, the buffer that \<^verbatim>\<open>stats_prefix_dump\<close>
  sizes in advance holds every line, whatever the 64-bit counts, with the closing line and its NUL; the assertion in the loop never
  fails, and the text lists every entry once.
\<close>

theorem prefix_dump_fits:
  assumes "prefix_inv st"
  shows "\<exists>r st'. stats_prefix_dump st = Some (r, st') \<and> prefix_stats st' = prefix_stats st \<and>
    (\<forall>text. r = Some text \<longrightarrow> text = concat (map prefix_line (all_entries st)) @ [69, 78, 68, 13, 10] \<and> length text < dump_size st)"
proof -
  let ?ls = "concat (map prefix_line (all_entries st))"
  have "length ?ls \<le> total_prefix_size st + num_prefixes st * 109"
    using lines_length [of "all_entries st"] assms by (simp add: prefix_inv_def length_concat comp_def)
  moreover have s: "dump_size st = 47 + total_prefix_size st + num_prefixes st * 109 + 6"
    by (simp add: dump_size_def dump_format_def ascii_def CRLF_def)
  ultimately have l: "length ?ls + 6 < dump_size st" by simp
  obtain ok st' where a: "pf_alloc st = (ok, st')" by fastforce
  then obtain x where x: "st' = st\<lparr>pf_allocs := x\<rparr>" using pf_alloc_keeps by blast
  have "dump_loop (dump_size st) [] (all_entries st) = Some ?ls"
    using dump_loop_fits [of "[]" "all_entries st" "dump_size st"] l by (simp add: length_concat comp_def)
  then show ?thesis using a x l by (cases ok) (auto simp: stats_prefix_dump_def ascii_def CRLF_def)
qed

theorem prefix_dump_fits_witness:
  "\<exists>r st'. stats_prefix_dump (run_op (\<lambda>_. 7) 58 (Record_set [97, 98, 58]) ex_prefixes) = Some (r, st')"
proof -
  have "all_entries ex_prefixes = []" by (simp add: all_entries_def ex_prefixes_def del: upt.simps)
  then have "table_ok (\<lambda>_. 7) {[97, 98]} ex_prefixes" by (simp add: table_ok_def prefix_inv_def ex_prefixes_def)
  moreover have "separated (\<lambda>_. 7) {[97, 98]}" by (simp add: separated_def)
  moreover have "key_prefix 58 [97, 98, 58] = Some [97, 98]" by (simp add: key_prefix_def)
  ultimately have "table_ok (\<lambda>_. 7) {[97, 98]} (run_op (\<lambda>_. 7) 58 (Record_set [97, 98, 58]) ex_prefixes)"
    by (intro run_op_ok [THEN conjunct1]) simp_all
  then have "prefix_inv (run_op (\<lambda>_. 7) 58 (Record_set [97, 98, 58]) ex_prefixes)" unfolding table_ok_def by blast
  from prefix_dump_fits [OF this] show ?thesis by blast
qed

end
