(* ===== verification/Stats_Buf.thy ===== *)
theory Stats_Buf
  imports Conn_Io
begin

text \<open>
  The buffer in which the answer to \<^verbatim>\<open>stats\<close> is collected, \<^verbatim>\<open>thread/memcached.c\<close>: \<^verbatim>\<open>append_stats\<close> makes room for one statistic and writes it as a line of the
  text protocol or as a binary packet. A key has no NUL and \<^verbatim>\<open>klen\<close>, \<^verbatim>\<open>vlen\<close> are the lengths of the strings, as at every call.
  \<open>sb_allocs\<close> holds the results of the coming \<^verbatim>\<open>realloc\<close> calls; when it is empty they succeed.
\<close>

record stats_buf =
  sb_buffer :: "bytes option"
  sb_size :: nat
  sb_offset :: nat
  sb_allocs :: "bool list"

section \<open>Operations\<close>

definition sb_realloc :: "stats_buf \<Rightarrow> bool \<times> stats_buf" where
  "sb_realloc b = (case sb_allocs b of [] \<Rightarrow> (True, b) | ok # rest \<Rightarrow> (ok, b\<lparr>sb_allocs := rest\<rparr>))"

partial_function (option) grow_loop :: "nat \<Rightarrow> nat \<Rightarrow> nat \<Rightarrow> nat \<Rightarrow> nat option" where
  "grow_loop needed available nsize offset =
     (if available < needed then do {
        c_assert (0 < nsize);
        grow_loop needed (nsize * 2 - offset) (nsize * 2) offset
      }
      else Some nsize)"

text \<open>The bytes a larger buffer gains are undefined in C; they are zero here.\<close>

definition grow_stats_buf :: "nat \<Rightarrow> stats_buf \<Rightarrow> (bool \<times> stats_buf) option" where
  "grow_stats_buf needed b = do {
     let (nsize, available, b) =
       (if sb_buffer b = None then (1024, 0, b\<lparr>sb_size := 0, sb_offset := 0\<rparr>) else (sb_size b, sb_size b - sb_offset b, b));
     nsize \<leftarrow> grow_loop needed available nsize (sb_offset b);
     (if nsize \<noteq> sb_size b then
        (let (ok, b) = sb_realloc b; old = (case sb_buffer b of None \<Rightarrow> [] | Some buf \<Rightarrow> buf)
         in if ok then Some (True, b\<lparr>sb_buffer := Some (take nsize old @ replicate (nsize - length old) 0), sb_size := nsize\<rparr>)
            else Some (False, b))
      else Some (True, b))
   }"

text \<open>\<^verbatim>\<open>snprintf(pos, room, ...)\<close> writes at most \<open>room - 1\<close> bytes and a NUL, and returns the length of the whole text.\<close>

definition sb_snprintf :: "nat \<Rightarrow> bytes \<Rightarrow> stats_buf \<Rightarrow> stats_buf option" where
  "sb_snprintf room text b = do {
     buf \<leftarrow> sb_buffer b;
     buf \<leftarrow> (if room = 0 then Some buf else buf_write (sb_offset b) (take (room - 1) text @ [0]) buf);
     Some (b\<lparr>sb_buffer := Some buf, sb_offset := sb_offset b + length text\<rparr>)
   }"

definition stat_line :: "bytes \<Rightarrow> bytes \<Rightarrow> bytes" where
  "stat_line key val =
     (if key = [] \<and> val = [] then ascii ''END'' @ CRLF
      else if val = [] then ascii ''STAT '' @ key @ CRLF
      else ascii ''STAT '' @ key @ ascii '' '' @ val @ CRLF)"

definition append_ascii_stats :: "bytes \<Rightarrow> bytes \<Rightarrow> stats_buf \<Rightarrow> stats_buf option" where
  "append_ascii_stats key val b =
     (let remaining = sb_size b - sb_offset b; room = remaining - 1 in sb_snprintf room (stat_line key val) b)"

text \<open>The packet of a statistic: status, extras and CAS are zero.\<close>

definition stat_packet :: "u32 \<Rightarrow> bytes \<Rightarrow> bytes \<Rightarrow> bytes" where
  "stat_packet opq key val =
     [129, 16] @ be16 (of_nat (length key)) @ [0, 0, 0, 0] @ be32 (of_nat (length key + length val)) @ u32_to_bytes opq @ replicate 8 0 @
     (if key = [] then [] else key @ val)"

definition append_bin_stats :: "u32 \<Rightarrow> bytes \<Rightarrow> bytes \<Rightarrow> stats_buf \<Rightarrow> stats_buf option" where
  "append_bin_stats opq key val b = do {
     buf \<leftarrow> sb_buffer b;
     buf \<leftarrow> buf_write (sb_offset b) (stat_packet opq key val) buf;
     Some (b\<lparr>sb_buffer := Some buf, sb_offset := sb_offset b + 24 + (length key + length val)\<rparr>)
   }"

definition append_stats :: "protocol \<Rightarrow> u32 \<Rightarrow> bytes \<Rightarrow> bytes \<Rightarrow> stats_buf \<Rightarrow> stats_buf option" where
  "append_stats pr opq key val b =
     (if key = [] \<and> val \<noteq> [] then Some b
      else if pr = binary_prot then do {
        (ok, b) \<leftarrow> grow_stats_buf (length val + length key + 24) b;
        (if \<not> ok then Some b
         else do {
           b \<leftarrow> append_bin_stats opq key val b;
           c_assert (sb_offset b \<le> sb_size b);
           Some b
         })
      }
      else do {
        (ok, b) \<leftarrow> grow_stats_buf (length val + length key + 10) b;
        (if \<not> ok then Some b
         else do {
           b \<leftarrow> append_ascii_stats key val b;
           c_assert (sb_offset b \<le> sb_size b);
           Some b
         })
      })"

section \<open>Growing\<close>

text \<open>A buffer without memory, or with at least one byte and an offset inside.\<close>

definition sb_ok :: "stats_buf \<Rightarrow> bool" where
  "sb_ok b \<longleftrightarrow> sb_allocs b = [] \<and>
     (case sb_buffer b of None \<Rightarrow> True | Some buf \<Rightarrow> length buf = sb_size b \<and> 0 < sb_size b \<and> sb_offset b \<le> sb_size b)"

definition sb_text :: "stats_buf \<Rightarrow> bytes" where
  "sb_text b = (case sb_buffer b of None \<Rightarrow> [] | Some buf \<Rightarrow> take (sb_offset b) buf)"

lemma grow_loop_enough:
  assumes "0 < nsize" "available \<le> nsize - offset" "offset \<le> nsize"
  shows "\<exists>n. grow_loop needed available nsize offset = Some n \<and> nsize \<le> n \<and> (available < needed \<or> needed \<le> n - offset \<longrightarrow> needed \<le> n - offset)"
  using assms
proof (induction "needed + offset - nsize" arbitrary: nsize available rule: less_induct)
  case less
  show ?case
  proof (cases "available < needed")
    case False
    then have "grow_loop needed available nsize offset = Some nsize" by (subst grow_loop.simps) simp
    then show ?thesis using False less.prems by auto
  next
    case True
    then have u: "grow_loop needed available nsize offset = grow_loop needed (nsize * 2 - offset) (nsize * 2) offset"
      using less.prems(1) by (subst grow_loop.simps) simp
    show ?thesis
    proof (cases "nsize * 2 - offset < needed")
      case False
      then have "grow_loop needed (nsize * 2 - offset) (nsize * 2) offset = Some (nsize * 2)" by (subst grow_loop.simps) simp
      then show ?thesis using u False by auto
    next
      case lt: True
      have "needed + offset - nsize * 2 < needed + offset - nsize" using lt less.prems(1) by simp
      from less.hyps [OF this] less.prems obtain n where
        "grow_loop needed (nsize * 2 - offset) (nsize * 2) offset = Some n" "nsize * 2 \<le> n" "needed \<le> n - offset" using lt by auto
      then show ?thesis using u by auto
    qed
  qed
qed

lemma grow_stats_buf_ok:
  assumes "sb_ok b" "0 < needed"
  obtains b' buf where "grow_stats_buf needed b = Some (True, b')" "sb_buffer b' = Some buf" "sb_ok b'" "sb_text b' = sb_text b"
    "sb_offset b' + needed \<le> sb_size b'"
proof -
  define n0 where "n0 = (if sb_buffer b = None then 1024 else sb_size b)"
  define off where "off = (if sb_buffer b = None then 0 else sb_offset b)"
  define av where "av = (if sb_buffer b = None then 0 else sb_size b - sb_offset b)"
  have p: "0 < n0" "av \<le> n0 - off" "off \<le> n0" using assms(1) by (auto simp: n0_def off_def av_def sb_ok_def split: option.splits)
  then obtain n where n: "grow_loop needed av n0 off = Some n" "n0 \<le> n" "av < needed \<or> needed \<le> n - off \<longrightarrow> needed \<le> n - off"
    using grow_loop_enough by blast
  have e: "needed \<le> n - off"
  proof (cases "av < needed")
    case False
    then have "n = n0" "sb_buffer b \<noteq> None" using n(1) assms(2) by (auto simp: av_def grow_loop.simps split: if_splits)
    then show ?thesis using False by (auto simp: av_def n0_def off_def)
  qed (use n(3) in blast)
  then have fit: "off + needed \<le> n" using assms(2) by simp
  show ?thesis
  proof (cases "sb_buffer b")
    case None
    let ?b = "b\<lparr>sb_buffer := Some (replicate n 0), sb_size := n, sb_offset := 0\<rparr>"
    have "grow_stats_buf needed b = Some (True, ?b)"
      using None n(1,2) assms(1) by (simp add: grow_stats_buf_def n0_def off_def av_def sb_realloc_def sb_ok_def)
    then show ?thesis using that [of ?b] None fit assms by (auto simp: sb_ok_def sb_text_def off_def)
  next
    case (Some buf)
    let ?b = "b\<lparr>sb_buffer := Some (take n buf @ replicate (n - length buf) 0), sb_size := n\<rparr>"
    have o: "sb_offset b \<le> length buf" "length buf = sb_size b" "length buf \<le> n"
      using Some assms(1) n(2) by (auto simp: sb_ok_def n0_def)
    have g: "grow_stats_buf needed b = Some (True, if n \<noteq> sb_size b then ?b else b)"
      using Some n(1) assms(1) by (simp add: grow_stats_buf_def n0_def off_def av_def sb_realloc_def sb_ok_def)
    show ?thesis
    proof (cases "n = sb_size b")
      case True
      then show ?thesis using g that Some assms(1) fit by (auto simp: off_def)
    next
      case False
      have "sb_ok ?b" "sb_text ?b = sb_text b" using o Some fit assms by (auto simp: sb_ok_def sb_text_def off_def)
      then show ?thesis using g False that [of ?b] Some fit by (auto simp: off_def)
    qed
  qed
qed

section \<open>Appending\<close>

lemma stat_line_length: "length (stat_line key val) \<le> length val + length key + 8"
  by (simp add: stat_line_def ascii_def CRLF_def)

lemma buf_write_take: "off \<le> length buf \<Longrightarrow> buf_write off (bs @ cs) buf = Some buf' \<Longrightarrow>
   length buf' = length buf \<and> take (off + length bs) buf' = take off buf @ bs"
  by (auto simp: buf_write_def split: if_splits)

lemma append_ascii_ok:
  assumes "sb_ok b" "sb_buffer b = Some buf" "sb_offset b + (length val + length key + 10) \<le> sb_size b"
  shows "\<exists>b'. append_ascii_stats key val b = Some b' \<and> sb_ok b' \<and> sb_offset b' \<le> sb_size b' \<and> sb_text b' = sb_text b @ stat_line key val"
proof -
  let ?room = "sb_size b - sb_offset b - 1" and ?l = "stat_line key val"
  have r: "length ?l < ?room" "0 < ?room" using stat_line_length [of key val] assms(3) by auto
  have o: "sb_offset b \<le> length buf" "length buf = sb_size b" using assms(1,2) by (auto simp: sb_ok_def)
  have "sb_offset b + length (?l @ [0]) \<le> length buf" using r o by simp
  then obtain buf' where w: "buf_write (sb_offset b) (?l @ [0]) buf = Some buf'" unfolding buf_write_def by auto
  have t: "take (?room - 1) ?l = ?l" using r by simp
  have l: "length buf' = length buf" "take (sb_offset b + length ?l) buf' = take (sb_offset b) buf @ ?l"
    using buf_write_take [OF o(1) w] by auto
  have "append_ascii_stats key val b = Some (b\<lparr>sb_buffer := Some buf', sb_offset := sb_offset b + length ?l\<rparr>)"
    using assms(2) w t r by (simp add: append_ascii_stats_def sb_snprintf_def Let_def)
  then show ?thesis using l o r assms by (auto simp: sb_ok_def sb_text_def)
qed

lemma stat_packet_length: "key \<noteq> [] \<or> val = [] \<Longrightarrow> length (stat_packet opq key val) = 24 + (length key + length val)"
  by (auto simp: stat_packet_def be16_def be32_def u32_to_bytes_def)

lemma append_bin_ok:
  assumes "sb_ok b" "sb_buffer b = Some buf" "sb_offset b + (length val + length key + 24) \<le> sb_size b" "key \<noteq> [] \<or> val = []"
  shows "\<exists>b'. append_bin_stats opq key val b = Some b' \<and> sb_ok b' \<and> sb_offset b' \<le> sb_size b' \<and> sb_text b' = sb_text b @ stat_packet opq key val"
proof -
  let ?p = "stat_packet opq key val"
  have o: "sb_offset b \<le> length buf" "length buf = sb_size b" using assms(1,2) by (auto simp: sb_ok_def)
  note n = stat_packet_length [OF assms(4), of opq]
  have "sb_offset b + length ?p \<le> length buf" using assms(3) n o by simp
  then obtain buf' where w: "buf_write (sb_offset b) ?p buf = Some buf'" unfolding buf_write_def by auto
  have "append_bin_stats opq key val b = Some (b\<lparr>sb_buffer := Some buf', sb_offset := sb_offset b + 24 + (length key + length val)\<rparr>)"
    using assms(2) w by (simp add: append_bin_stats_def)
  then show ?thesis using buf_write_take [of "sb_offset b" buf ?p "[]" buf'] w n o assms by (auto simp: sb_ok_def sb_text_def add.assoc)
qed

definition stat_text :: "protocol \<Rightarrow> u32 \<Rightarrow> bytes \<times> bytes \<Rightarrow> bytes" where
  "stat_text pr opq kv = (case kv of (key, val) \<Rightarrow>
     if key = [] \<and> val \<noteq> [] then [] else if pr = binary_prot then stat_packet opq key val else stat_line key val)"

lemma append_stats_ok:
  assumes "sb_ok b"
  shows "\<exists>b'. append_stats pr opq key val b = Some b' \<and> sb_ok b' \<and> sb_text b' = sb_text b @ stat_text pr opq (key, val)"
proof (cases "key = [] \<and> val \<noteq> []")
  case True
  then show ?thesis using assms by (simp add: append_stats_def stat_text_def)
next
  case f: False
  show ?thesis
  proof (cases "pr = binary_prot")
    case True
    obtain b1 buf where g: "grow_stats_buf (length val + length key + 24) b = Some (True, b1)" "sb_buffer b1 = Some buf" "sb_ok b1"
      "sb_text b1 = sb_text b" "sb_offset b1 + (length val + length key + 24) \<le> sb_size b1" by (rule grow_stats_buf_ok [OF assms, of "length val + length key + 24"]) auto
    show ?thesis using append_bin_ok [OF g(3,2,5), of opq] f g True by (auto simp: append_stats_def stat_text_def)
  next
    case False
    obtain b1 buf where g: "grow_stats_buf (length val + length key + 10) b = Some (True, b1)" "sb_buffer b1 = Some buf" "sb_ok b1"
      "sb_text b1 = sb_text b" "sb_offset b1 + (length val + length key + 10) \<le> sb_size b1" by (rule grow_stats_buf_ok [OF assms, of "length val + length key + 10"]) auto
    show ?thesis using append_ascii_ok [OF g(3,2,5)] f g False by (auto simp: append_stats_def stat_text_def)
  qed
qed

section \<open>Property\<close>

fun append_all :: "protocol \<Rightarrow> u32 \<Rightarrow> (bytes \<times> bytes) list \<Rightarrow> stats_buf \<Rightarrow> stats_buf option" where
  "append_all pr opq [] b = Some b"
| "append_all pr opq ((key, val) # kvs) b = do { b \<leftarrow> append_stats pr opq key val b; append_all pr opq kvs b }"

text \<open>
  (C37) Statistics are collected whole. From any well-formed buffer, and when no allocation fails, any sequence of \<^verbatim>\<open>append_stats\<close> calls
  returns: the growing loop ends, every write stays inside the buffer, no line is cut by \<^verbatim>\<open>snprintf\<close> and no assertion fails, and the
  buffer then holds what it held followed by exactly one line or packet per statistic, in order; a value without a key is skipped.
\<close>

theorem stats_collected:
  assumes "sb_ok b"
  shows "\<exists>b'. append_all pr opq kvs b = Some b' \<and> sb_ok b' \<and> sb_text b' = sb_text b @ concat (map (stat_text pr opq) kvs)"
  using assms
proof (induction kvs arbitrary: b)
  case (Cons kv kvs)
  obtain key val where kv: "kv = (key, val)" by fastforce
  obtain b1 where b1: "append_stats pr opq key val b = Some b1" "sb_ok b1" "sb_text b1 = sb_text b @ stat_text pr opq (key, val)"
    using append_stats_ok [OF Cons.prems] by blast
  from Cons.IH [OF b1(2)] show ?case using b1 kv by auto
qed simp

theorem stats_collected_witness:
  "\<exists>b. append_all ascii_prot 0 [(ascii ''pid'', ascii ''7''), ([], [])] \<lparr>sb_buffer = None, sb_size = 99, sb_offset = 98, sb_allocs = []\<rparr> = Some b \<and>
     sb_text b = ascii ''STAT pid 7'' @ CRLF @ ascii ''END'' @ CRLF"
  using stats_collected [of "\<lparr>sb_buffer = None, sb_size = 99, sb_offset = 98, sb_allocs = []\<rparr>" ascii_prot 0 "[(ascii ''pid'', ascii ''7''), ([], [])]"]
  by (auto simp: sb_ok_def sb_text_def stat_text_def stat_line_def ascii_def CRLF_def)

end
