(* ===== verification/Crawler.thy ===== *)
theory Crawler
  imports Items_Ops
begin

text \<open>
  The LRU crawler, \<^verbatim>\<open>memory_lru/crawler.c\<close>, with the queue operations it uses from \<^verbatim>\<open>memory_lru/items.c\<close>. A crawler is a pseudo item that is linked at the tail of
  an LRU queue and swaps places with its predecessor; the item it has passed is examined. Its item part is a cell of the heap at
  \<open>crawler_addr\<close>, like every item; the counters behind it are a record \<open>crawler\<close>. A crawl runs a module: \<^verbatim>\<open>crawler_expired_mod\<close> reclaims dead items and
  gathers statistics, \<^verbatim>\<open>crawler_metadump_mod\<close> prints live items to a client.

  The locks of a queue and of the crawler are held around the statements they protect; item locks are part of the state. \<^verbatim>\<open>uriencode\<close> and the start time
  of the process are not contained in the sources and are fields of a \<open>crawl_lib\<close>. \<open>polls\<close> holds the results of the coming calls of \<^verbatim>\<open>poll\<close>; when it is used
  up the thread waits forever. \<open>callocs\<close> holds the results of the coming allocations; when it is used up they succeed. \<^verbatim>\<open>EXTSTORE\<close> is off.
\<close>

section \<open>Queue operations\<close>

definition do_item_linktail_q :: "addr \<Rightarrow> 'z lru_state_scheme \<Rightarrow> 'z lru_state_scheme option" where
  "do_item_linktail_q it s = do {
     c_assert (it_flags (heap s it) = 1);
     c_assert (nbytes (heap s it) = 0);
     let c = slabs_clsid (heap s it);
     c_assert (it \<noteq> tails s c);
     c_assert ((heads s c \<noteq> NULL \<and> tails s c \<noteq> NULL) \<or> (heads s c = NULL \<and> tails s c = NULL));
     let s = upd_item it (\<lambda>i. i\<lparr>i_prev := tails s c, i_next := NULL\<rparr>) s;
     let pv = i_prev (heap s it);
     c_assert (pv \<noteq> NULL \<longrightarrow> i_next (heap s pv) = NULL);
     let s = (if pv \<noteq> NULL then upd_item pv (\<lambda>i. i\<lparr>i_next := it\<rparr>) s else s);
     let s = s\<lparr>tails := (tails s)(c := it)\<rparr>;
     Some (if heads s c = NULL then s\<lparr>heads := (heads s)(c := it)\<rparr> else s)
   }"

definition do_item_unlinktail_q :: "addr \<Rightarrow> 'z lru_state_scheme \<Rightarrow> 'z lru_state_scheme option" where
  "do_item_unlinktail_q it s = do {
     let c = slabs_clsid (heap s it);
     let nx = i_next (heap s it);
     let pv = i_prev (heap s it);
     c_assert (heads s c = it \<longrightarrow> pv = NULL);
     let s = (if heads s c = it then s\<lparr>heads := (heads s)(c := nx)\<rparr> else s);
     c_assert (tails s c = it \<longrightarrow> nx = NULL);
     let s = (if tails s c = it then s\<lparr>tails := (tails s)(c := pv)\<rparr> else s);
     c_assert (nx \<noteq> it);
     c_assert (pv \<noteq> it);
     let s = (if nx \<noteq> NULL then upd_item nx (\<lambda>i. i\<lparr>i_prev := pv\<rparr>) s else s);
     Some (if pv \<noteq> NULL then upd_item pv (\<lambda>i. i\<lparr>i_next := nx\<rparr>) s else s)
   }"

text \<open>The crawler at the head is taken off the queue, but keeps its own links.\<close>

definition crawl_pop :: "addr \<Rightarrow> u8 \<Rightarrow> 'z lru_state_scheme \<Rightarrow> 'z lru_state_scheme option" where
  "crawl_pop it c s = do {
     c_assert (heads s c = it);
     let nx = i_next (heap s it);
     (if nx \<noteq> NULL then do {
        let s = s\<lparr>heads := (heads s)(c := nx)\<rparr>;
        c_assert (i_prev (heap s nx) = it);
        Some (upd_item nx (\<lambda>i. i\<lparr>i_prev := NULL\<rparr>) s)
      }
      else Some s)
   }"

text \<open>The crawler swaps places with its predecessor.\<close>

definition crawl_swing :: "addr \<Rightarrow> u8 \<Rightarrow> 'z lru_state_scheme \<Rightarrow> 'z lru_state_scheme option" where
  "crawl_swing it c s = do {
     let pv = i_prev (heap s it);
     let nx = i_next (heap s it);
     c_assert (pv \<noteq> it);
     let s = (if heads s c = pv then s\<lparr>heads := (heads s)(c := it)\<rparr> else s);
     let s = (if tails s c = it then s\<lparr>tails := (tails s)(c := pv)\<rparr> else s);
     c_assert (nx \<noteq> it);
     s \<leftarrow> (if nx \<noteq> NULL then do {
            c_assert (i_next (heap s pv) = it);
            let s = upd_item pv (\<lambda>i. i\<lparr>i_next := nx\<rparr>) s;
            Some (upd_item nx (\<lambda>i. i\<lparr>i_prev := pv\<rparr>) s)
          }
          else Some (upd_item pv (\<lambda>i. i\<lparr>i_next := NULL\<rparr>) s));
     let s = upd_item it (\<lambda>i. i\<lparr>i_next := pv\<rparr>) s;
     let pp = i_prev (heap s pv);
     let s = upd_item it (\<lambda>i. i\<lparr>i_prev := pp\<rparr>) s;
     let s = upd_item pv (\<lambda>i. i\<lparr>i_prev := it\<rparr>) s;
     let s = (if pp \<noteq> NULL then upd_item pp (\<lambda>i. i\<lparr>i_next := it\<rparr>) s else s);
     c_assert (i_next (heap s it) \<noteq> it);
     c_assert (i_prev (heap s it) \<noteq> it);
     Some s
   }"

definition do_item_crawl_q :: "addr \<Rightarrow> 'z lru_state_scheme \<Rightarrow> (addr \<times> 'z lru_state_scheme) option" where
  "do_item_crawl_q it s = do {
     c_assert (it_flags (heap s it) = 1);
     c_assert (nbytes (heap s it) = 0);
     let c = slabs_clsid (heap s it);
     (if i_prev (heap s it) = NULL then map_option (Pair NULL) (crawl_pop it c s)
      else map_option (\<lambda>s. (i_next (heap s it), s)) (crawl_swing it c s))
   }"

definition do_item_stats_add_crawl :: "u8 \<Rightarrow> u64 \<Rightarrow> u64 \<Rightarrow> u64 \<Rightarrow> 'z lru_state_scheme \<Rightarrow> 'z lru_state_scheme" where
  "do_item_stats_add_crawl i recl unf chk s =
     upd_itemstats i (\<lambda>st. st\<lparr>crawler_reclaimed := crawler_reclaimed st + recl, expired_unfetched := expired_unfetched st + unf,
       crawler_items_checked := crawler_items_checked st + chk\<rparr>) s"

section \<open>State\<close>

record crawler =
  cr_remaining :: u32
  cr_reclaimed :: u64
  cr_unfetched :: u64
  cr_checked :: u64

record crawlerstats_t =
  histo :: "u64 list"
  ttl_hourplus :: u64
  noexp :: u64
  cs_reclaimed :: u64
  seen :: u64
  cs_start_time :: u32
  cs_end_time :: u32
  run_complete :: bool

record crawler_expired_data =
  crawlerstats :: "u8 \<Rightarrow> crawlerstats_t"
  ed_start_time :: u32
  ed_end_time :: u32
  crawl_complete :: bool
  is_external :: bool

datatype crawler_run_type = CRAWLER_AUTOEXPIRE | CRAWLER_EXPIRED | CRAWLER_METADUMP

datatype crawler_result_type = CRAWLER_OK | CRAWLER_RUNNING | CRAWLER_BADCLASS | CRAWLER_NOTSTARTED | CRAWLER_ERROR

datatype crawler_module_reg_t = crawler_expired_mod | crawler_metadump_mod

definition needs_client :: "crawler_module_reg_t \<Rightarrow> bool" where
  "needs_client md \<longleftrightarrow> md = crawler_metadump_mod"

fun crawler_mod_regs :: "crawler_run_type \<Rightarrow> crawler_module_reg_t" where
  "crawler_mod_regs CRAWLER_AUTOEXPIRE = crawler_expired_mod"
| "crawler_mod_regs CRAWLER_EXPIRED = crawler_expired_mod"
| "crawler_mod_regs CRAWLER_METADUMP = crawler_metadump_mod"

text \<open>\<^verbatim>\<open>cm->data\<close>: nothing, memory of the crawler's own, or the data of the LRU maintainer, which both use.\<close>

datatype module_data = No_data | Own_data crawler_expired_data | Maintainer_data

text \<open>The client of a dump: its connection, the buffer and the space that was handed out last.\<close>

record crawler_client_t =
  cc_conn :: "nat option"
  cc_sfd :: nat
  cc_buf :: "u8 bipbuf option"
  cc_cbuf :: int

text \<open>One call of \<^verbatim>\<open>poll\<close>: failure, time-out, or the events with the result of the \<^verbatim>\<open>write\<close> that follows.\<close>

datatype write_result = Wrote nat | Write_again | Write_failed

datatype poll_result = Poll_failed | Poll_timeout | Poll_events bool bool write_result

record crawl_state = lru_state +
  crawler_addr :: "u8 \<Rightarrow> addr"
  crawlers :: "u8 \<Rightarrow> crawler"
  crawler_count :: int
  active_mod :: "crawler_module_reg_t option"
  active_crawler_type :: crawler_run_type
  cm_data :: module_data
  cdata :: crawler_expired_data
  cm_c :: crawler_client_t
  polls :: "poll_result list"
  callocs :: "bool list"
  client_out :: bytes
  closed_conns :: "nat list"
  redispatched :: "nat list"
  lru_crawler_running :: bool
  lru_crawler_starts :: u64
  block_ae_until :: u32

record crawl_lib =
  uriencode :: "bytes \<Rightarrow> bytes"
  process_started :: int

abbreviation (input) LRU_CRAWLER_WAITEBUF :: int where "LRU_CRAWLER_WAITEBUF \<equiv> 8192"
abbreviation (input) LRU_CRAWLER_CAP_REMAINING :: u32 where "LRU_CRAWLER_CAP_REMAINING \<equiv> - 1"

definition upd_crawler :: "u8 \<Rightarrow> (crawler \<Rightarrow> crawler) \<Rightarrow> crawl_state \<Rightarrow> crawl_state" where
  "upd_crawler i f s = s\<lparr>crawlers := (crawlers s)(i := f (crawlers s i))\<rparr>"

definition get_data :: "crawl_state \<Rightarrow> crawler_expired_data option" where
  "get_data s = (case cm_data s of No_data \<Rightarrow> None | Own_data d \<Rightarrow> Some d | Maintainer_data \<Rightarrow> Some (cdata s))"

definition put_data :: "crawler_expired_data \<Rightarrow> crawl_state \<Rightarrow> crawl_state" where
  "put_data d s = (case cm_data s of No_data \<Rightarrow> s | Own_data _ \<Rightarrow> s\<lparr>cm_data := Own_data d\<rparr> | Maintainer_data \<Rightarrow> s\<lparr>cdata := d\<rparr>)"

definition upd_stats :: "u8 \<Rightarrow> (crawlerstats_t \<Rightarrow> crawlerstats_t) \<Rightarrow> crawler_expired_data \<Rightarrow> crawler_expired_data" where
  "upd_stats i f d = d\<lparr>crawlerstats := (crawlerstats d)(i := f (crawlerstats d i))\<rparr>"

section \<open>The expiry module\<close>

definition zero_stats :: "u32 \<Rightarrow> crawlerstats_t" where
  "zero_stats now = \<lparr>histo = replicate 61 0, ttl_hourplus = 0, noexp = 0, cs_reclaimed = 0, seen = 0, cs_start_time = now, cs_end_time = 0,
     run_complete = False\<rparr>"

text \<open>With \<open>external\<close> the data of the LRU maintainer is used; the number is what the function returns.\<close>

definition crawler_expired_init :: "bool \<Rightarrow> crawl_state \<Rightarrow> int \<times> crawl_state" where
  "crawler_expired_init external s =
     (let now = current_time s; fresh = (\<lambda>_. zero_stats now)
      in if external then (0, s\<lparr>cm_data := Maintainer_data, cdata := (cdata s)\<lparr>is_external := True, crawlerstats := fresh\<rparr>\<rparr>)
         else case callocs s of
           False # rest \<Rightarrow> (- 1, s\<lparr>callocs := rest\<rparr>)
         | rest \<Rightarrow> (0, s\<lparr>callocs := drop 1 rest, cm_data := Own_data
             \<lparr>crawlerstats = fresh, ed_start_time = now, ed_end_time = 0, crawl_complete = False, is_external = False\<rparr>\<rparr>))"

definition crawler_expired_doneclass :: "u8 \<Rightarrow> crawl_state \<Rightarrow> crawl_state option" where
  "crawler_expired_doneclass i s = do {
     d \<leftarrow> get_data s;
     Some (put_data (upd_stats i (\<lambda>t. t\<lparr>cs_end_time := current_time s, run_complete := True\<rparr>) d) s)
   }"

definition crawler_expired_finalize :: "crawl_state \<Rightarrow> crawl_state option" where
  "crawler_expired_finalize s = do {
     d \<leftarrow> get_data s;
     let s = put_data (d\<lparr>ed_end_time := current_time s, crawl_complete := True\<rparr>) s;
     Some (if is_external d then s else s\<lparr>cm_data := No_data\<rparr>)
   }"

definition is_dead :: "addr \<Rightarrow> 'z lru_state_scheme \<Rightarrow> bool" where
  "is_dead it s \<longleftrightarrow> (exptime (heap s it) \<noteq> 0 \<and> exptime (heap s it) < current_time s) \<or> item_is_flushed it s"

definition count_live :: "u32 \<Rightarrow> u32 \<Rightarrow> crawlerstats_t \<Rightarrow> crawlerstats_t" where
  "count_live expt now t =
     (let t = t\<lparr>seen := seen t + 1\<rparr>
      in if expt = 0 then t\<lparr>noexp := noexp t + 1\<rparr>
         else if 3599 < expt - now then t\<lparr>ttl_hourplus := ttl_hourplus t + 1\<rparr>
         else let bucket = unat ((expt - now) div 60)
              in if bucket \<le> 60 then t\<lparr>histo := (histo t)[bucket := histo t ! bucket + 1]\<rparr> else t)"

definition crawler_expired_eval :: "addr \<Rightarrow> u32 \<Rightarrow> u8 \<Rightarrow> crawl_state \<Rightarrow> crawl_state option" where
  "crawler_expired_eval search hv i s = do {
     d \<leftarrow> get_data s;
     (if is_dead search s then do {
        let s = put_data (upd_stats i (\<lambda>t. t\<lparr>cs_reclaimed := cs_reclaimed t + 1\<rparr>) d) s;
        let s = upd_crawler i (\<lambda>c. c\<lparr>cr_reclaimed := cr_reclaimed c + 1\<rparr>) s;
        let s = (if \<not> has_flag (it_flags (heap s search)) ITEM_FETCHED \<and> \<not> item_is_flushed search s
                 then upd_crawler i (\<lambda>c. c\<lparr>cr_unfetched := cr_unfetched c + 1\<rparr>) s else s);
        s \<leftarrow> do_item_unlink_nolock search hv s;
        s \<leftarrow> do_item_remove search s;
        c_assert (slabs_clsid (heap s search) = 0);
        Some s
      }
      else
        Some (upd_item search (\<lambda>it. it\<lparr>refcount := refcount it - 1\<rparr>)
          (put_data (upd_stats i (count_live (exptime (heap s search)) (current_time s)) d) s)))
   }"

section \<open>The client of a dump\<close>

definition client_gone :: "crawl_state \<Rightarrow> crawl_state" where
  "client_gone s = s\<lparr>cm_c := (cm_c s)\<lparr>cc_conn := None, cc_buf := None\<rparr>\<rparr>"

definition lru_crawler_close_client :: "crawl_state \<Rightarrow> crawl_state" where
  "lru_crawler_close_client s =
     client_gone (case cc_conn (cm_c s) of None \<Rightarrow> s | Some c \<Rightarrow> s\<lparr>closed_conns := closed_conns s @ [c]\<rparr>)"

definition lru_crawler_release_client :: "crawl_state \<Rightarrow> crawl_state" where
  "lru_crawler_release_client s =
     client_gone (case cc_conn (cm_c s) of None \<Rightarrow> s | Some c \<Rightarrow> s\<lparr>redispatched := redispatched s @ [c]\<rparr>)"

text \<open>What a \<^verbatim>\<open>write\<close> of the buffered bytes does; it writes at most what it is given.\<close>

definition poll_write :: "write_result \<Rightarrow> u8 bipbuf \<Rightarrow> int \<Rightarrow> int \<Rightarrow> crawl_state \<Rightarrow> int \<times> crawl_state" where
  "poll_write w b off n s =
     (case w of
        Write_again \<Rightarrow> (0, s)
      | Write_failed \<Rightarrow> (- 1, lru_crawler_close_client s)
      | Wrote k \<Rightarrow>
          (let total = min (int k) n
           in if total = 0 then (- 1, lru_crawler_close_client s)
              else (0, s\<lparr>client_out := client_out s @ cells (bb_data b) off (off + total),
                         cm_c := (cm_c s)\<lparr>cc_buf := Some (snd (bipbuf_poll total b))\<rparr>\<rparr>)))"

text \<open>
  \<^verbatim>\<open>lru_crawler_poll\<close>. The test for input looks at the requested events, which are \<^verbatim>\<open>POLLOUT\<close> only, and is never true.
\<close>

definition lru_crawler_poll :: "crawl_state \<Rightarrow> (int \<times> crawl_state) option" where
  "lru_crawler_poll s =
     (case polls s of
        [] \<Rightarrow> None
      | p # ps \<Rightarrow>
          (let s = s\<lparr>polls := ps\<rparr>
           in case p of
                Poll_failed \<Rightarrow> Some (- 1, s)
              | Poll_timeout \<Rightarrow> Some (0, s)
              | Poll_events hup out w \<Rightarrow> do {
                  b \<leftarrow> cc_buf (cm_c s);
                  Some (case bipbuf_peek_all b of
                          None \<Rightarrow> (0, s)
                        | Some (off, n) \<Rightarrow>
                            if hup then (- 1, lru_crawler_close_client s) else if out then poll_write w b off n s else (0, s))
                }))"

partial_function (option) getbuf_loop :: "crawl_state \<Rightarrow> (int \<times> crawl_state) option" where
  "getbuf_loop s = do {
     b \<leftarrow> cc_buf (cm_c s);
     (case bipbuf_request b LRU_CRAWLER_WAITEBUF of
        Some off \<Rightarrow> Some (0, s\<lparr>cm_c := (cm_c s)\<lparr>cc_cbuf := off\<rparr>\<rparr>)
      | None \<Rightarrow> do {
          r \<leftarrow> lru_crawler_poll s;
          (if fst r < 0 then Some r else getbuf_loop (snd r))
        })
   }"

definition lru_crawler_client_getbuf :: "crawl_state \<Rightarrow> (int \<times> crawl_state) option" where
  "lru_crawler_client_getbuf s = (if cc_conn (cm_c s) = None then Some (- 1, s) else getbuf_loop s)"

definition lru_crawler_set_client :: "nat \<Rightarrow> nat \<Rightarrow> u8 bipbuf option \<Rightarrow> crawl_state \<Rightarrow> int \<times> crawl_state" where
  "lru_crawler_set_client c sf mem s =
     (if cc_conn (cm_c s) \<noteq> None then (- 1, s)
      else let b = bipbuf_new (1024 * 1024) mem; s = s\<lparr>cm_c := (cm_c s)\<lparr>cc_conn := Some c, cc_sfd := sf, cc_buf := b\<rparr>\<rparr>
           in if b = None then (- 2, s) else (0, s))"

section \<open>The dump module\<close>

text \<open>Text for one item, and its place in the buffer: \<^verbatim>\<open>snprintf\<close> writes at most 4096 bytes, the last of them a zero.\<close>

definition metadump_line :: "crawl_lib \<Rightarrow> item \<Rightarrow> bytes" where
  "metadump_line L i =
     ascii ''key='' @ uriencode L (item_key i) @ ascii '' exp='' @ print_int (if exptime i = 0 then - 1 else uint (exptime i) + process_started L) @
     ascii '' la='' @ print_int (uint (i_time i) + process_started L) @ ascii '' cas='' @ print_nat (unat (ITEM_get_cas i)) @
     ascii '' fetch='' @ ascii (if has_flag (it_flags i) ITEM_FETCHED then ''yes'' else ''no'') @ ascii '' cls='' @ print_nat (unat (ITEM_clsid i)) @
     ascii '' size='' @ print_nat (unat (ITEM_ntotal i)) @ [10]"

definition put_cbuf :: "bytes \<Rightarrow> crawl_state \<Rightarrow> crawl_state option" where
  "put_cbuf bs s = do {
     b \<leftarrow> cc_buf (cm_c s);
     Some (s\<lparr>cm_c := (cm_c s)\<lparr>cc_buf := Some (bb_memcpy (cc_cbuf (cm_c s)) bs b)\<rparr>\<rparr>)
   }"

definition push_cbuf :: "int \<Rightarrow> crawl_state \<Rightarrow> crawl_state option" where
  "push_cbuf n s = do {
     b \<leftarrow> cc_buf (cm_c s);
     Some (s\<lparr>cm_c := (cm_c s)\<lparr>cc_buf := Some (snd (bipbuf_push n b))\<rparr>\<rparr>)
   }"

definition crawler_metadump_eval :: "crawl_lib \<Rightarrow> addr \<Rightarrow> crawl_state \<Rightarrow> crawl_state option" where
  "crawler_metadump_eval L it s =
     (if is_dead it s then Some (upd_item it (\<lambda>i. i\<lparr>refcount := refcount i - 1\<rparr>) s)
      else do {
        let line = metadump_line L (heap s it);
        s \<leftarrow> put_cbuf (take 4095 line @ [0]) s;
        let total = int (length line);
        let s = upd_item it (\<lambda>i. i\<lparr>refcount := refcount i - 1\<rparr>) s;
        (if LRU_CRAWLER_WAITEBUF - 1 \<le> total \<or> total \<le> 0 then Some s else push_cbuf total s)
      })"

definition crawler_metadump_finalize :: "crawl_state \<Rightarrow> crawl_state option" where
  "crawler_metadump_finalize s =
     (if cc_conn (cm_c s) = None then Some s
      else do {
        (_, s) \<leftarrow> lru_crawler_client_getbuf s;
        s \<leftarrow> put_cbuf (ascii ''END'' @ CRLF) s;
        push_cbuf 5 s
      })"

section \<open>The crawler thread\<close>

definition mod_eval :: "crawl_lib \<Rightarrow> crawler_module_reg_t \<Rightarrow> addr \<Rightarrow> u32 \<Rightarrow> u8 \<Rightarrow> crawl_state \<Rightarrow> crawl_state option" where
  "mod_eval L md search hv i s =
     (case md of crawler_expired_mod \<Rightarrow> crawler_expired_eval search hv i s | crawler_metadump_mod \<Rightarrow> crawler_metadump_eval L search s)"

definition lru_crawler_class_done :: "u8 \<Rightarrow> crawl_state \<Rightarrow> crawl_state option" where
  "lru_crawler_class_done i s = do {
     let a = crawler_addr s i;
     let s = upd_item a (\<lambda>c. c\<lparr>it_flags := 0\<rparr>) s;
     let s = s\<lparr>crawler_count := crawler_count s - 1\<rparr>;
     s \<leftarrow> do_item_unlinktail_q a s;
     let s = do_item_stats_add_crawl i (cr_reclaimed (crawlers s i)) (cr_unfetched (crawlers s i)) (cr_checked (crawlers s i)) s;
     md \<leftarrow> active_mod s;
     (if md = crawler_expired_mod then crawler_expired_doneclass i s else Some s)
   }"

text \<open>The item the crawler has passed, in the middle of the loop: it is locked, referenced and evaluated, or skipped.\<close>

definition crawl_item :: "crawl_lib \<Rightarrow> u8 \<Rightarrow> addr \<Rightarrow> crawl_state \<Rightarrow> crawl_state option" where
  "crawl_item L i search s = do {
     let hv = hash s (item_key (heap s search));
     (case item_trylock hv s of
        None \<Rightarrow> Some s
      | Some (l, s) \<Rightarrow> do {
          let s = upd_item search (\<lambda>it. it\<lparr>refcount := refcount it + 1\<rparr>) s;
          (if refcount (heap s search) \<noteq> 2
           then Some (item_trylock_unlock l (upd_item search (\<lambda>it. it\<lparr>refcount := refcount it - 1\<rparr>) s))
           else do {
             let s = upd_crawler i (\<lambda>c. c\<lparr>cr_checked := cr_checked c + 1\<rparr>) s;
             md \<leftarrow> active_mod s;
             s \<leftarrow> mod_eval L md search hv i s;
             Some (item_trylock_unlock l s)
           })
        })
   }"

text \<open>\<^verbatim>\<open>crawlers[i].remaining && --crawlers[i].remaining < 1\<close>\<close>

definition count_down :: "u8 \<Rightarrow> crawl_state \<Rightarrow> bool \<times> crawl_state" where
  "count_down i s =
     (if cr_remaining (crawlers s i) = 0 then (False, s)
      else let s = upd_crawler i (\<lambda>c. c\<lparr>cr_remaining := cr_remaining c - 1\<rparr>) s in (cr_remaining (crawlers s i) < 1, s))"

definition crawl_step :: "crawl_lib \<Rightarrow> u8 \<Rightarrow> crawl_state \<Rightarrow> crawl_state option" where
  "crawl_step L i s = do {
     (search, s) \<leftarrow> do_item_crawl_q (crawler_addr s i) s;
     (if search = NULL then lru_crawler_class_done i s
      else let (stop, s) = count_down i s in if stop then lru_crawler_class_done i s else crawl_item L i search s)
   }"

text \<open>One turn of the loop over the classes.\<close>

definition crawl_class :: "crawl_lib \<Rightarrow> u8 \<Rightarrow> crawl_state \<Rightarrow> crawl_state option" where
  "crawl_class L i s =
     (if it_flags (heap s (crawler_addr s i)) \<noteq> 1 then Some s
      else if cc_conn (cm_c s) \<noteq> None then do {
        (r, s) \<leftarrow> lru_crawler_client_getbuf s;
        (if r \<noteq> 0 then lru_crawler_class_done i s else crawl_step L i s)
      }
      else do {
        md \<leftarrow> active_mod s;
        (if needs_client md then lru_crawler_class_done i s else crawl_step L i s)
      })"

fun crawl_classes :: "crawl_lib \<Rightarrow> u8 list \<Rightarrow> crawl_state \<Rightarrow> crawl_state option" where
  "crawl_classes L [] s = Some s"
| "crawl_classes L (i # is) s = Option.bind (crawl_class L i s) (crawl_classes L is)"

definition class_ids :: "u8 list" where
  "class_ids = map word_of_nat [1..<256]"

partial_function (option) crawl_loop :: "crawl_lib \<Rightarrow> crawl_state \<Rightarrow> crawl_state option" where
  "crawl_loop L s = (if crawler_count s = 0 then Some s else Option.bind (crawl_classes L class_ids s) (crawl_loop L))"

text \<open>The rest of the buffer is sent, as long as the client is there.\<close>

partial_function (option) drain_client :: "crawl_state \<Rightarrow> crawl_state option" where
  "drain_client s =
     (if cc_conn (cm_c s) = None then Some s
      else do {
        b \<leftarrow> cc_buf (cm_c s);
        (if bipbuf_used b = 0 then Some s
         else do {
           r \<leftarrow> lru_crawler_poll s;
           drain_client (snd r)
         })
      })"

definition crawl_finish :: "crawl_state \<Rightarrow> crawl_state option" where
  "crawl_finish s = do {
     s \<leftarrow> (case active_mod s of
            None \<Rightarrow> Some s
          | Some md \<Rightarrow> do {
              s \<leftarrow> (case md of crawler_expired_mod \<Rightarrow> crawler_expired_finalize s | crawler_metadump_mod \<Rightarrow> crawler_metadump_finalize s);
              s \<leftarrow> drain_client s;
              let s = (if cc_conn (cm_c s) \<noteq> None then lru_crawler_release_client s else s);
              Some (s\<lparr>active_mod := None\<rparr>)
            });
     Some (s\<lparr>lru_crawler_running := False\<rparr>)
   }"

text \<open>What the thread does each time it is woken up.\<close>

definition item_crawler_thread :: "crawl_lib \<Rightarrow> crawl_state \<Rightarrow> crawl_state option" where
  "item_crawler_thread L s = Option.bind (crawl_loop L s) crawl_finish"

section \<open>Starting a crawl\<close>

definition do_lru_crawler_start :: "u8 \<Rightarrow> u32 \<Rightarrow> crawl_state \<Rightarrow> (int \<times> crawl_state) option" where
  "do_lru_crawler_start sid remaining s =
     (let a = crawler_addr s sid
      in if it_flags (heap s a) \<noteq> 0 then Some (0, s)
         else do {
           let s = upd_item a (\<lambda>c. c\<lparr>nbytes := 0, nkey := 0, it_flags := 1, i_next := NULL, i_prev := NULL, i_time := 0\<rparr>) s;
           let remaining = (if remaining = LRU_CRAWLER_CAP_REMAINING then sizes s sid else remaining);
           let remaining = (if remaining \<noteq> 0 then remaining + 1 else remaining);
           let s = upd_crawler sid (\<lambda>_. \<lparr>cr_remaining = remaining, cr_reclaimed = 0, cr_unfetched = 0, cr_checked = 0\<rparr>) s;
           let s = upd_item a (\<lambda>c. c\<lparr>slabs_clsid := sid\<rparr>) s;
           s \<leftarrow> do_item_linktail_q a s;
           Some (1, s\<lparr>crawler_count := crawler_count s + 1, lru_crawler_running := True, lru_crawler_starts := lru_crawler_starts s + 1\<rparr>)
         })"

fun start_classes :: "(u8 \<Rightarrow> bool) \<Rightarrow> u32 \<Rightarrow> u8 list \<Rightarrow> crawl_state \<Rightarrow> (int \<times> crawl_state) option" where
  "start_classes ids remaining [] s = Some (0, s)"
| "start_classes ids remaining (i # is) s = do {
     (n, s) \<leftarrow> (if ids i then do_lru_crawler_start i remaining s else Some (0, s));
     (k, s) \<leftarrow> start_classes ids remaining is s;
     Some (n + k, s)
   }"

text \<open>
  \<open>external\<close>: the data of the LRU maintainer is passed; \<open>c\<close>: the connection and its socket, if any; \<open>mem\<close>: what \<^verbatim>\<open>malloc\<close> returns for the buffer of a client. The result of
  \<^verbatim>\<open>init\<close> is ignored.
\<close>

definition configure_module :: "crawler_run_type \<Rightarrow> bool \<Rightarrow> (nat \<times> nat) option \<Rightarrow> u8 bipbuf option \<Rightarrow> crawl_state \<Rightarrow> bool \<times> crawl_state" where
  "configure_module type external c mem s =
     (let md = crawler_mod_regs type;
          s = s\<lparr>active_mod := Some md, active_crawler_type := type\<rparr>;
          s = (if md = crawler_expired_mod then snd (crawler_expired_init external s) else s)
      in if needs_client md then
           (case c of
              None \<Rightarrow> (False, s)
            | Some (conn, sf) \<Rightarrow>
                if sf = 0 then (False, s) else let (r, s) = lru_crawler_set_client conn sf mem s in (r = 0, s))
         else (True, s))"

definition lru_crawler_start ::
  "(u8 \<Rightarrow> bool) \<Rightarrow> u32 \<Rightarrow> crawler_run_type \<Rightarrow> bool \<Rightarrow> (nat \<times> nat) option \<Rightarrow> u8 bipbuf option \<Rightarrow> crawl_state \<Rightarrow> (int \<times> crawl_state) option" where
  "lru_crawler_start ids remaining type external c mem s =
     (if lru_crawler_running s \<and> \<not> (type = CRAWLER_AUTOEXPIRE \<and> active_crawler_type s = CRAWLER_AUTOEXPIRE)
      then Some (- 1, s\<lparr>block_ae_until := current_time s + 60\<rparr>)
      else if type = CRAWLER_AUTOEXPIRE \<and> current_time s < block_ae_until s then Some (- 1, s)
      else let (ok, s) = (if lru_crawler_running s then (True, s) else configure_module type external c mem s)
           in if \<not> ok then Some (- 2, s) else start_classes ids remaining class_ids s)"

text \<open>
  The class list of a command: \<open>parse\<close> is \<^verbatim>\<open>safe_strtoul\<close>. \<^verbatim>\<open>strtok_r\<close> skips runs of separators.
\<close>

fun split_commas :: "bytes \<Rightarrow> bytes \<Rightarrow> bytes list" where
  "split_commas acc [] = (if acc = [] then [] else [acc])"
| "split_commas acc (b # bs) = (if b = 44 then (if acc = [] then split_commas [] bs else acc # split_commas [] bs) else split_commas (acc @ [b]) bs)"

fun mark_classes :: "(bytes \<Rightarrow> u32 option) \<Rightarrow> bytes list \<Rightarrow> (u8 \<Rightarrow> bool) \<Rightarrow> (u8 \<Rightarrow> bool) option" where
  "mark_classes parse [] ids = Some ids"
| "mark_classes parse (p # ps) ids =
     (case parse p of
        None \<Rightarrow> None
      | Some sid \<Rightarrow>
          if sid < 1 \<or> 64 \<le> sid then None
          else let i = (ucast sid :: u8)
               in mark_classes parse ps (ids(i OR TEMP_LRU := True, i OR HOT_LRU := True, i OR WARM_LRU := True, i OR COLD_LRU := True)))"

definition lru_crawler_crawl ::
  "(bytes \<Rightarrow> u32 option) \<Rightarrow> bytes \<Rightarrow> crawler_run_type \<Rightarrow> (nat \<times> nat) option \<Rightarrow> u8 bipbuf option \<Rightarrow> u32 \<Rightarrow> crawl_state \<Rightarrow>
   (crawler_result_type \<times> crawl_state) option" where
  "lru_crawler_crawl parse arg type c mem remaining s =
     (case (if arg = ascii ''all'' then Some (\<lambda>_. True) else mark_classes parse (split_commas [] arg) (\<lambda>_. False)) of
        None \<Rightarrow> Some (CRAWLER_BADCLASS, s)
      | Some ids \<Rightarrow> do {
          (starts, s) \<leftarrow> lru_crawler_start ids remaining type False c mem s;
          Some (if starts = - 1 then CRAWLER_RUNNING else if starts = - 2 then CRAWLER_ERROR else if starts \<noteq> 0 then CRAWLER_OK else CRAWLER_NOTSTARTED, s)
        })"

end
