(* ===== verification/Commands.thy ===== *)
theory Commands
  imports Conn_Spec Store_Spec Rebalance_Spec Prefix_Stats Stats_Buf Obj_Cache Crawler
begin

text \<open>
  The commands of the text protocol, \<^verbatim>\<open>thread/memcached.c\<close>: from a tokenized line to the cache operations and the reply. The state of a worker
  is a \<open>server\<close>: the connection, the item it is receiving, the items and suffix buffers it is sending, the cache, the settings and counters that only the
  commands use, the prefix statistics and the buffer of a \<^verbatim>\<open>stats\<close> answer.

  Functions that the sources call and do not contain are fields of a \<open>lib\<close>, an argument of the commands: the number parsers beside \<^verbatim>\<open>safe_strtoull\<close>,
  \<^verbatim>\<open>realtime\<close>, \<^verbatim>\<open>limited_get\<close>, the helpers of \<^verbatim>\<open>process_get_command\<close>, \<^verbatim>\<open>item_size_ok\<close> and \<^verbatim>\<open>logger_add_watcher\<close>; so are the calls into the LRU crawler and the
  collectors of statistics, which are components of their own. \<^verbatim>\<open>errno\<close> is never cleared before \<^verbatim>\<open>strtol\<close>, so it is state: \<open>erange\<close> tells that it holds \<^verbatim>\<open>ERANGE\<close>. \<^const>\<open>None\<close> is
  an access through a null pointer, a failed assertion or a command that does not return.
\<close>

section \<open>State\<close>

type_synonym cache = reb_state

text \<open>A C \<^verbatim>\<open>double\<close> that is only stored and compared with zero; \<open>Finite m e\<close> is \<open>m * 2 ^ e\<close>.\<close>

datatype c_double = Finite int int | Infinite bool | NaN

fun double_le_zero :: "c_double \<Rightarrow> bool" where
  "double_le_zero (Finite m e) = (m \<le> 0)"
| "double_le_zero (Infinite neg) = neg"
| "double_le_zero NaN = False"

record server_settings =
  verbose :: u32
  flush_enabled :: bool
  detail_enabled :: bool
  dump_enabled :: bool
  shutdown_command :: bool
  lru_maintainer_thread :: bool
  lru_crawler :: bool
  lru_crawler_tocrawl :: u32
  lru_crawler_sleep :: u32
  hot_max_factor :: c_double
  warm_max_factor :: c_double
  slab_automove_ratio :: c_double
  prefix_delimiter :: u8

record command_stats =
  get_cmds :: u64
  get_misses :: u64
  touch_cmds :: u64
  touch_misses :: u64
  delete_misses :: u64
  incr_misses :: u64
  decr_misses :: u64
  flush_cmds :: u64
  set_cmds :: "u8 \<Rightarrow> u64"
  touch_hits :: "u8 \<Rightarrow> u64"
  delete_hits :: "u8 \<Rightarrow> u64"
  lru_hits :: "u8 \<Rightarrow> u64"

text \<open>Where \<^verbatim>\<open>c->ritem\<close> points: into the read buffer, into the data of a plain item, or at a chunk of a large one.\<close>

datatype read_ptr = In_rbuf nat | In_item nat | In_chunk addr

definition item_ptr :: "addr \<Rightarrow> item \<Rightarrow> read_ptr" where
  "item_ptr it i = (if has_flag (it_flags i) ITEM_CHUNKED then In_chunk (ITEM_data it i) else In_item 0)"

record server =
  cl :: client
  citem :: addr
  ritem :: read_ptr
  ilist :: "addr list"
  suffixlist :: "addr list"
  suffix_cache :: cache_t
  write_and_free :: "bytes option"
  sbuf :: stats_buf
  cache :: cache
  sset :: server_settings
  sstats :: command_stats
  prefixes :: prefix_state
  erange :: bool
  signalled :: bool

datatype watcher_result = LOGGER_ADD_WATCHER_TOO_MANY | LOGGER_ADD_WATCHER_OK | LOGGER_ADD_WATCHER_FAILED

datatype log_flag = LOG_RAWCMDS | LOG_EVICTIONS | LOG_FETCHERS | LOG_MUTATIONS | LOG_SYSEVENTS

record lib =
  safe_strtol :: "bytes \<Rightarrow> int option"
  safe_strtoul :: "bytes \<Rightarrow> u32 option"
  safe_strtod :: "bytes \<Rightarrow> c_double option"
  realtime :: "int \<Rightarrow> u32 \<Rightarrow> u32"
  REALTIME_MAXDELTA :: int
  VERSION :: bytes
  item_size_ok :: "nat \<Rightarrow> u32 \<Rightarrow> int \<Rightarrow> cache \<Rightarrow> bool"
  limited_get :: "bytes \<Rightarrow> u32 \<Rightarrow> bool \<Rightarrow> cache \<Rightarrow> (addr \<times> cache) option"
  expand_ilist :: "nat \<Rightarrow> server \<Rightarrow> bool \<times> server"
  get_suffix_buf :: "nat \<Rightarrow> server \<Rightarrow> addr \<times> server"
  make_ascii_get_suffix :: "item \<Rightarrow> bool \<Rightarrow> int \<Rightarrow> bytes"
  add_chunked_item_iovs :: "addr \<Rightarrow> int \<Rightarrow> server \<Rightarrow> (bool \<times> server) option"
  build_udp_headers :: "server \<Rightarrow> bool \<times> server"
  logger_add_watcher :: "log_flag list \<Rightarrow> server \<Rightarrow> watcher_result"
  crawl :: "bytes \<Rightarrow> bool \<Rightarrow> u32 \<Rightarrow> server \<Rightarrow> crawler_result_type \<times> server"
  start_crawler :: "server \<Rightarrow> bool \<times> server"
  stop_crawler :: "server \<Rightarrow> bool \<times> server"
  rebalance_busy :: bool
  collect_stats :: "bytes option \<Rightarrow> server \<Rightarrow> (bytes \<times> bytes) list option"
  stats_reset :: "server \<Rightarrow> server"
  item_cachedump :: "u32 \<Rightarrow> u32 \<Rightarrow> cache \<Rightarrow> bytes option"

abbreviation (input) KEY_MAX_LENGTH :: nat where "KEY_MAX_LENGTH \<equiv> 250"
abbreviation (input) MAX_VERBOSITY_LEVEL :: u32 where "MAX_VERBOSITY_LEVEL \<equiv> 2"
abbreviation (input) INT_MAX :: int where "INT_MAX \<equiv> 2147483647"

section \<open>Arguments and replies\<close>

type_synonym cmdline = "bytes \<times> token_t list"

definition ntokens :: "cmdline \<Rightarrow> nat" where
  "ntokens l = length (snd l)"

text \<open>The C string at \<^verbatim>\<open>tokens[i].value\<close>. It is missing when the value is NULL or was never written.\<close>

definition arg :: "nat \<Rightarrow> cmdline \<Rightarrow> bytes option" where
  "arg i l = (if i < length (snd l) then map_option (\<lambda>v. takeWhile (\<lambda>b. b \<noteq> 0) (drop v (fst l))) (fst (snd l ! i)) else None)"

text \<open>\<^verbatim>\<open>key\<close> and \<^verbatim>\<open>nkey\<close>: the bytes of the second token.\<close>

definition key_of :: "cmdline \<Rightarrow> bytes" where
  "key_of l = token_text (fst l) (snd l ! 1)"

definition noreply_maybe :: "cmdline \<Rightarrow> server \<Rightarrow> server" where
  "noreply_maybe l s = s\<lparr>cl := (cl s)\<lparr>noreply := set_noreply_maybe (fst l) (snd l) (noreply (cl s))\<rparr>\<rparr>"

definition reply :: "limits \<Rightarrow> string \<Rightarrow> server \<Rightarrow> server option" where
  "reply lim str s = map_option (\<lambda>c. s\<lparr>cl := c\<rparr>) (out_string lim (ascii str) (cl s))"

definition reply_nomem :: "limits \<Rightarrow> string \<Rightarrow> server \<Rightarrow> server option" where
  "reply_nomem lim str s = map_option (\<lambda>c. s\<lparr>cl := c\<rparr>) (out_of_memory lim (ascii str) (cl s))"

definition set_state :: "conn_states \<Rightarrow> server \<Rightarrow> server option" where
  "set_state st s = map_option (\<lambda>c. s\<lparr>cl := c\<rparr>) (conn_set_state st (cl s))"

definition bump :: "u8 \<Rightarrow> (u8 \<Rightarrow> u64) \<Rightarrow> u8 \<Rightarrow> u64" where
  "bump i f = f(i := f i + 1)"

definition upd_sstats :: "(command_stats \<Rightarrow> command_stats) \<Rightarrow> server \<Rightarrow> server" where
  "upd_sstats f s = s\<lparr>sstats := f (sstats s)\<rparr>"

definition upd_settings :: "(settings \<Rightarrow> settings) \<Rightarrow> server \<Rightarrow> server" where
  "upd_settings f s = s\<lparr>cache := (cache s)\<lparr>settings := f (settings (cache s))\<rparr>\<rparr>"

definition record_prefix :: "((bytes \<Rightarrow> u32) \<Rightarrow> u8 \<Rightarrow> bytes \<Rightarrow> prefix_state \<Rightarrow> prefix_state) \<Rightarrow> bytes \<Rightarrow> server \<Rightarrow> server" where
  "record_prefix f key s =
     (if detail_enabled (sset s) then s\<lparr>prefixes := f (hash (cache s)) (prefix_delimiter (sset s)) key (prefixes s)\<rparr> else s)"

text \<open>Lifting an operation of the cache.\<close>

definition on_cache :: "(cache \<Rightarrow> cache option) \<Rightarrow> server \<Rightarrow> server option" where
  "on_cache f s = map_option (\<lambda>m. s\<lparr>cache := m\<rparr>) (f (cache s))"

definition cache_ptr :: "(cache \<Rightarrow> (addr \<times> cache) option) \<Rightarrow> server \<Rightarrow> (addr \<times> server) option" where
  "cache_ptr f s = map_option (\<lambda>(p, m). (p, s\<lparr>cache := m\<rparr>)) (f (cache s))"

text \<open>\<^verbatim>\<open>strtol\<close> with base 10 on a 64-bit \<^verbatim>\<open>long\<close>, and \<^verbatim>\<open>strtoul\<close>; the flag says that \<^verbatim>\<open>errno\<close> becomes \<^verbatim>\<open>ERANGE\<close>.\<close>

definition c_strtol :: "bytes \<Rightarrow> int \<times> bool" where
  "c_strtol str =
     (let r = dropWhile c_isspace str;
          neg = (r \<noteq> [] \<and> hd r = 45);
          r = (if r \<noteq> [] \<and> (hd r = 45 \<or> hd r = 43) then tl r else r);
          v = int (digits_value (takeWhile c_isdigit r));
          v = (if neg then - v else v)
      in if v < - (2 ^ 63) then (- (2 ^ 63), True) else if 2 ^ 63 \<le> v then (2 ^ 63 - 1, True) else (v, False))"

definition strtol :: "bytes \<Rightarrow> server \<Rightarrow> int \<times> server" where
  "strtol str s = (case c_strtol str of (v, e) \<Rightarrow> (v, s\<lparr>erange := erange s \<or> e\<rparr>))"

definition strtoul :: "bytes \<Rightarrow> server \<Rightarrow> u64 \<times> server" where
  "strtoul str s = (case c_strtoull str of (v, _, e) \<Rightarrow> (v, s\<lparr>erange := erange s \<or> e\<rparr>))"

section \<open>Storage commands\<close>

text \<open>What remains of the old value when a \<^verbatim>\<open>set\<close> cannot be stored: it is dropped.\<close>

definition drop_stale :: "bytes \<Rightarrow> server \<Rightarrow> server option" where
  "drop_stale key s = do {
     (it, s) \<leftarrow> cache_ptr (item_get key False) s;
     (if it \<noteq> NULL then do {
        s \<leftarrow> on_cache (item_unlink it) s;
        on_cache (item_remove it) s
      }
      else Some s)
   }"

definition comm_code :: "store_cmd \<Rightarrow> int" where
  "comm_code comm = (case comm of NREAD_ADD \<Rightarrow> 1 | NREAD_SET \<Rightarrow> 2 | NREAD_REPLACE \<Rightarrow> 3 | NREAD_APPEND \<Rightarrow> 4 | NREAD_PREPEND \<Rightarrow> 5 | NREAD_CAS \<Rightarrow> 6)"

definition process_update_command :: "lib \<Rightarrow> limits \<Rightarrow> cmdline \<Rightarrow> store_cmd \<Rightarrow> bool \<Rightarrow> server \<Rightarrow> server option" where
  "process_update_command L lim l comm handle_cas s = do {
     let s = noreply_maybe l s;
     (if KEY_MAX_LENGTH < snd (snd l ! 1) then reply lim ''CLIENT_ERROR bad command line format'' s
      else do {
        a2 \<leftarrow> arg 2 l; a3 \<leftarrow> arg 3 l; a4 \<leftarrow> arg 4 l;
        let key = key_of l;
        (case (safe_strtoul L a2, safe_strtol L a3, safe_strtol L a4) of
           (Some flags, Some expt, Some vlen) \<Rightarrow> do {
             let expt = (if expt < 0 then REALTIME_MAXDELTA L + 1 else expt);
             req_cas \<leftarrow> (if handle_cas then map_option safe_strtoull (arg 5 l) else Some (Some 0));
             (case req_cas of
                None \<Rightarrow> reply lim ''CLIENT_ERROR bad command line format'' s
              | Some req_cas_id \<Rightarrow>
                  (if vlen < 0 \<or> INT_MAX - 2 < vlen then reply lim ''CLIENT_ERROR bad command line format'' s
                   else do {
                     let vlen = vlen + 2;
                     let s = record_prefix stats_prefix_record_set key s;
                     (it, s) \<leftarrow> cache_ptr (item_alloc key flags (realtime L expt (current_time (cache s))) vlen) s;
                     (if it = NULL then do {
                        s \<leftarrow> (if \<not> item_size_ok L (length key) flags vlen (cache s)
                             then reply lim ''SERVER_ERROR object too large for cache'' s
                             else reply_nomem lim ''SERVER_ERROR out of memory storing object'' s);
                        let s = s\<lparr>cl := (cl s)\<lparr>write_and_go := conn_swallow, sbytes := vlen\<rparr>\<rparr>;
                        (if comm = NREAD_SET then drop_stale key s else Some s)
                      }
                      else do {
                        s \<leftarrow> on_cache (\<lambda>m. Some (upd_item it (ITEM_set_cas req_cas_id) m)) s;
                        let s = s\<lparr>citem := it, ritem := item_ptr it (heap (cache s) it), cl := (cl s)\<lparr>rlbytes := nbytes (heap (cache s) it), cmd := comm_code comm\<rparr>\<rparr>;
                        set_state conn_nread s
                      })
                   }))
           }
         | _ \<Rightarrow> reply lim ''CLIENT_ERROR bad command line format'' s)
      })
   }"

text \<open>The last two bytes of the data: of the item, or of its last chunk and, if that holds a single byte, of the one before. For a chunked item \<^verbatim>\<open>c->ritem\<close>
is its last chunk. A chunked item that does not end in CR LF fails the assertion \<^verbatim>\<open>1 == 0\<close>.\<close>

definition data_ends_crlf :: "server \<Rightarrow> bool option" where
  "data_ends_crlf s =
     (let h = heap (cache s); it = h (citem s)
      in if \<not> has_flag (it_flags it) ITEM_CHUNKED then Some (data_read (nat (nbytes it - 2)) 2 (i_data it) = CRLF)
         else do {
           ch \<leftarrow> (case ritem s of In_chunk a \<Rightarrow> Some (h a) | _ \<Rightarrow> None);
           c_assert (ch_used ch \<noteq> 0);
           buf \<leftarrow> (if 1 < ch_used ch then Some (data_read (nat (ch_used ch - 2)) 2 (i_data ch))
                  else do {
                    c_assert (i_prev ch \<noteq> NULL);
                    c_assert (ch_used ch = 1);
                    let pr = h (i_prev ch);
                    Some (data_read (nat (ch_used pr - 1)) 1 (i_data pr) @ data_read (nat (ch_used ch - 1)) 1 (i_data ch))
                  });
           c_assert (buf = CRLF);
           Some True
         })"

definition comm_of_code :: "int \<Rightarrow> store_cmd option" where
  "comm_of_code i = (if i = 1 then Some NREAD_ADD else if i = 2 then Some NREAD_SET else if i = 3 then Some NREAD_REPLACE
     else if i = 4 then Some NREAD_APPEND else if i = 5 then Some NREAD_PREPEND else if i = 6 then Some NREAD_CAS else None)"

definition complete_nread_ascii :: "limits \<Rightarrow> server \<Rightarrow> server option" where
  "complete_nread_ascii lim s = do {
     let it = citem s;
     comm \<leftarrow> comm_of_code (cmd (cl s));
     let s = upd_sstats (\<lambda>t. t\<lparr>set_cmds := bump (ITEM_clsid (heap (cache s) it)) (set_cmds t)\<rparr>) s;
     is_valid \<leftarrow> data_ends_crlf s;
     s \<leftarrow> (if \<not> is_valid then reply lim ''CLIENT_ERROR bad data chunk'' s
          else do {
            (ret, c, m) \<leftarrow> store_item it comm \<lparr>sfd = 0, c_cas = cas (cl s)\<rparr> (cache s);
            let s = s\<lparr>cache := m, cl := (cl s)\<lparr>cas := c_cas c\<rparr>\<rparr>;
            (case ret of
               STORED \<Rightarrow> reply lim ''STORED'' s
             | EXISTS \<Rightarrow> reply lim ''EXISTS'' s
             | NOT_FOUND \<Rightarrow> reply lim ''NOT_FOUND'' s
             | NOT_STORED \<Rightarrow> reply lim ''NOT_STORED'' s
             | _ \<Rightarrow> Some s)
          });
     s \<leftarrow> on_cache (item_remove (citem s)) s;
     Some (s\<lparr>citem := NULL\<rparr>)
   }"

definition process_touch_command :: "lib \<Rightarrow> limits \<Rightarrow> cmdline \<Rightarrow> server \<Rightarrow> server option" where
  "process_touch_command L lim l s = do {
     let s = noreply_maybe l s;
     (if KEY_MAX_LENGTH < snd (snd l ! 1) then reply lim ''CLIENT_ERROR bad command line format'' s
      else do {
        a2 \<leftarrow> arg 2 l;
        (case safe_strtol L a2 of
           None \<Rightarrow> reply lim ''CLIENT_ERROR invalid exptime argument'' s
         | Some expt \<Rightarrow> do {
             (it, s) \<leftarrow> cache_ptr (item_touch (key_of l) (realtime L expt (current_time (cache s)))) s;
             (if it \<noteq> NULL then do {
                let s = upd_sstats (\<lambda>t. t\<lparr>touch_cmds := touch_cmds t + 1, touch_hits := bump (ITEM_clsid (heap (cache s) it)) (touch_hits t)\<rparr>) s;
                s \<leftarrow> reply lim ''TOUCHED'' s;
                on_cache (item_remove it) s
              }
              else reply lim ''NOT_FOUND'' (upd_sstats (\<lambda>t. t\<lparr>touch_cmds := touch_cmds t + 1, touch_misses := touch_misses t + 1\<rparr>) s))
           })
      })
   }"

text \<open>\<open>temp\<close> is the buffer on the stack for the new value; it is printed only when it was written.\<close>

definition process_arithmetic_command :: "limits \<Rightarrow> cmdline \<Rightarrow> bool \<Rightarrow> server \<Rightarrow> server option" where
  "process_arithmetic_command lim l incr s = do {
     let s = noreply_maybe l s;
     (if KEY_MAX_LENGTH < snd (snd l ! 1) then reply lim ''CLIENT_ERROR bad command line format'' s
      else do {
        a2 \<leftarrow> arg 2 l;
        (case safe_strtoull a2 of
           None \<Rightarrow> reply lim ''CLIENT_ERROR invalid numeric delta argument'' s
         | Some delta \<Rightarrow> do {
             (ret, temp, _, m) \<leftarrow> add_delta (key_of l) incr delta [] None (cache s);
             let s = s\<lparr>cache := m\<rparr>;
             (case ret of
                OK \<Rightarrow> map_option (\<lambda>c. s\<lparr>cl := c\<rparr>) (out_string lim temp (cl s))
              | NON_NUMERIC \<Rightarrow> reply lim ''CLIENT_ERROR cannot increment or decrement non-numeric value'' s
              | EOM \<Rightarrow> reply_nomem lim ''SERVER_ERROR out of memory'' s
              | DELTA_ITEM_NOT_FOUND \<Rightarrow>
                  reply lim ''NOT_FOUND''
                    (upd_sstats (\<lambda>t. if incr then t\<lparr>incr_misses := incr_misses t + 1\<rparr> else t\<lparr>decr_misses := decr_misses t + 1\<rparr>) s)
              | DELTA_ITEM_CAS_MISMATCH \<Rightarrow> Some s)
           })
      })
   }"

text \<open>The cache part of \<^verbatim>\<open>process_delete_command\<close>, once the arguments are found good.\<close>

definition delete_key :: "limits \<Rightarrow> bytes \<Rightarrow> server \<Rightarrow> server option" where
  "delete_key lim k s = do {
     let s = record_prefix stats_prefix_record_delete k s;
     (it, s) \<leftarrow> cache_ptr (item_get k False) s;
     (if it \<noteq> NULL then do {
        let s = upd_sstats (\<lambda>t. t\<lparr>delete_hits := bump (ITEM_clsid (heap (cache s) it)) (delete_hits t)\<rparr>) s;
        s \<leftarrow> on_cache (item_unlink it) s;
        s \<leftarrow> on_cache (item_remove it) s;
        reply lim ''DELETED'' s
      }
      else reply lim ''NOT_FOUND'' (upd_sstats (\<lambda>t. t\<lparr>delete_misses := delete_misses t + 1\<rparr>) s))
   }"

definition process_delete_command :: "limits \<Rightarrow> cmdline \<Rightarrow> server \<Rightarrow> server option" where
  "process_delete_command lim l s = do {
     (valid, s) \<leftarrow>
       (if 3 < ntokens l then do {
          a2 \<leftarrow> arg 2 l;
          let hold_is_zero = (a2 = ascii ''0'');
          let s = noreply_maybe l s;
          let sets_noreply = noreply (cl s);
          Some (ntokens l = 4 \<and> (hold_is_zero \<or> sets_noreply) \<or> ntokens l = 5 \<and> hold_is_zero \<and> sets_noreply, s)
        }
        else Some (True, s));
     (if \<not> valid then reply lim ''CLIENT_ERROR bad command line format.  Usage: delete <key> [noreply]'' s
      else if KEY_MAX_LENGTH < snd (snd l ! 1) then reply lim ''CLIENT_ERROR bad command line format'' s
      else delete_key lim (key_of l) s)
   }"

section \<open>Settings at run time\<close>

definition process_verbosity_command :: "limits \<Rightarrow> cmdline \<Rightarrow> server \<Rightarrow> server option" where
  "process_verbosity_command lim l s = do {
     let s = noreply_maybe l s;
     a1 \<leftarrow> arg 1 l;
     let (v, s) = strtoul a1 s;
     let level = (ucast v :: u32);
     reply lim ''OK'' (s\<lparr>sset := (sset s)\<lparr>verbose := (if MAX_VERBOSITY_LEVEL < level then MAX_VERBOSITY_LEVEL else level)\<rparr>\<rparr>)
   }"

definition process_slabs_automove_command :: "lib \<Rightarrow> limits \<Rightarrow> cmdline \<Rightarrow> server \<Rightarrow> server option" where
  "process_slabs_automove_command L lim l s = do {
     let s = noreply_maybe l s;
     a2 \<leftarrow> arg 2 l;
     (if a2 = ascii ''ratio'' then
        (if ntokens l < 5 then reply lim ''ERROR'' s
         else do {
           a3 \<leftarrow> arg 3 l;
           (case safe_strtod L a3 of
              None \<Rightarrow> reply lim ''ERROR'' s
            | Some ratio \<Rightarrow> reply lim ''OK'' (s\<lparr>sset := (sset s)\<lparr>slab_automove_ratio := ratio\<rparr>\<rparr>))
         })
      else do {
        let (v, s) = strtoul a2 s;
        let level = (ucast v :: u32);
        (if level = 0 then reply lim ''OK'' (upd_settings (\<lambda>t. t\<lparr>slab_automove := 0\<rparr>) s)
         else if level = 1 \<or> level = 2 then reply lim ''OK'' (upd_settings (\<lambda>t. t\<lparr>slab_automove := unat level\<rparr>) s)
         else reply lim ''ERROR'' s)
      })
   }"

definition log_flag_of :: "bytes \<Rightarrow> log_flag option" where
  "log_flag_of w =
     (if w = ascii ''rawcmds'' then Some LOG_RAWCMDS else if w = ascii ''evictions'' then Some LOG_EVICTIONS
      else if w = ascii ''fetchers'' then Some LOG_FETCHERS else if w = ascii ''mutations'' then Some LOG_MUTATIONS
      else if w = ascii ''sysevents'' then Some LOG_SYSEVENTS else None)"

text \<open>The flags named by the words \<open>x, x + 1, \<dots>\<close> of the line, up to the first unknown one; \<^const>\<open>Inl\<close> when there is one.\<close>

fun watch_flags :: "cmdline \<Rightarrow> nat list \<Rightarrow> (unit + log_flag list) option" where
  "watch_flags l [] = Some (Inr [])"
| "watch_flags l (x # xs) = do {
     w \<leftarrow> arg x l;
     (case log_flag_of w of
        None \<Rightarrow> Some (Inl ())
      | Some f \<Rightarrow> map_option (map_sum id ((#) f)) (watch_flags l xs))
   }"

definition process_watch_command :: "lib \<Rightarrow> limits \<Rightarrow> cmdline \<Rightarrow> server \<Rightarrow> server option" where
  "process_watch_command L lim l s = do {
     let s = noreply_maybe l s;
     fs \<leftarrow> (if 2 < ntokens l then watch_flags l [1..<ntokens l - 1] else Some (Inr [LOG_FETCHERS]));
     (case fs of
        Inl _ \<Rightarrow> reply lim ''ERROR'' s
      | Inr f \<Rightarrow>
          (case logger_add_watcher L f s of
             LOGGER_ADD_WATCHER_TOO_MANY \<Rightarrow> reply lim ''WATCHER_TOO_MANY log watcher limit reached'' s
           | LOGGER_ADD_WATCHER_FAILED \<Rightarrow> reply lim ''WATCHER_FAILED failed to add log watcher'' s
           | LOGGER_ADD_WATCHER_OK \<Rightarrow> set_state conn_watch s))
   }"

definition process_memlimit_command :: "lib \<Rightarrow> limits \<Rightarrow> cmdline \<Rightarrow> server \<Rightarrow> server option" where
  "process_memlimit_command L lim l s = do {
     let s = noreply_maybe l s;
     a1 \<leftarrow> arg 1 l;
     (case safe_strtoul L a1 of
        None \<Rightarrow> reply lim ''ERROR'' s
      | Some memlimit \<Rightarrow>
          (if memlimit < 8 then reply lim ''MEMLIMIT_TOO_SMALL cannot set maxbytes to less than 8m'' s
           else if 1000000000 < memlimit then reply lim ''MEMLIMIT_ADJUST_FAILED input value is megabytes not bytes'' s
           else case slabs_adjust_mem_limit (ucast memlimit * 1024 * 1024) (cache s) of (ok, m) \<Rightarrow>
             let s = s\<lparr>cache := m\<rparr>
             in if ok then reply lim ''OK'' s
                else reply lim ''MEMLIMIT_ADJUST_FAILED out of bounds or unable to adjust'' s))
   }"

text \<open>The sum of the two percentages is a 32-bit addition.\<close>

definition lru_tune :: "lib \<Rightarrow> limits \<Rightarrow> cmdline \<Rightarrow> server \<Rightarrow> server option" where
  "lru_tune L lim l s = do {
     a2 \<leftarrow> arg 2 l; a3 \<leftarrow> arg 3 l; a4 \<leftarrow> arg 4 l; a5 \<leftarrow> arg 5 l;
     (case (safe_strtoul L a2, safe_strtoul L a3, safe_strtod L a4, safe_strtod L a5) of
        (Some pct_hot, Some pct_warm, Some hot_factor, Some warm_factor) \<Rightarrow>
          (if 80 < pct_hot + pct_warm then reply lim ''ERROR hot and warm pcts must not exceed 80'' s
           else if double_le_zero warm_factor \<or> double_le_zero hot_factor
           then reply lim ''ERROR hot/warm age factors must be greater than 0'' s
           else
             let s = upd_settings (\<lambda>t. t\<lparr>hot_lru_pct := scast pct_hot, warm_lru_pct := scast pct_warm\<rparr>) s
             in reply lim ''OK'' (s\<lparr>sset := (sset s)\<lparr>hot_max_factor := hot_factor, warm_max_factor := warm_factor\<rparr>\<rparr>))
      | _ \<Rightarrow> reply lim ''ERROR'' s)
   }"

text \<open>\<^verbatim>\<open>lru mode\<close> and \<^verbatim>\<open>lru temp_ttl\<close> only ask for three tokens, so their argument may be the terminal token, whose value is NULL.\<close>

definition process_lru_command :: "lib \<Rightarrow> limits \<Rightarrow> cmdline \<Rightarrow> server \<Rightarrow> server option" where
  "process_lru_command L lim l s = do {
     let s = noreply_maybe l s;
     a1 \<leftarrow> arg 1 l;
     (if a1 = ascii ''tune'' \<and> 7 \<le> ntokens l then lru_tune L lim l s
      else if a1 = ascii ''mode'' \<and> 3 \<le> ntokens l \<and> lru_maintainer_thread (sset s) then do {
        a2 \<leftarrow> arg 2 l;
        (if a2 = ascii ''flat'' then reply lim ''OK'' (upd_settings (\<lambda>t. t\<lparr>lru_segmented := False\<rparr>) s)
         else if a2 = ascii ''segmented'' then reply lim ''OK'' (upd_settings (\<lambda>t. t\<lparr>lru_segmented := True\<rparr>) s)
         else reply lim ''ERROR'' s)
      }
      else if a1 = ascii ''temp_ttl'' \<and> 3 \<le> ntokens l \<and> lru_maintainer_thread (sset s) then do {
        a2 \<leftarrow> arg 2 l;
        (case safe_strtol L a2 of
           None \<Rightarrow> reply lim ''ERROR'' s
         | Some ttl \<Rightarrow>
             reply lim ''OK'' (upd_settings (\<lambda>t. if ttl < 0 then t\<lparr>temp_lru := False\<rparr> else t\<lparr>temp_lru := True, temporary_ttl := of_int ttl\<rparr>) s))
      }
      else reply lim ''ERROR'' s)
   }"

text \<open>The \<^verbatim>\<open>flush_all\<close> branch of \<^verbatim>\<open>process_command\<close>.\<close>

definition flush_from :: "u32 \<Rightarrow> server \<Rightarrow> server" where
  "flush_from new_oldest s =
     (let m = cache s
      in if use_cas (settings m) then
           (let m = m\<lparr>settings := (settings m)\<lparr>oldest_live := new_oldest - 1\<rparr>\<rparr>
            in if oldest_live (settings m) \<le> current_time m
               then (let (v, m) = get_cas_id m in s\<lparr>cache := m\<lparr>settings := (settings m)\<lparr>oldest_cas := v\<rparr>\<rparr>\<rparr>)
               else s\<lparr>cache := m\<rparr>)
         else s\<lparr>cache := m\<lparr>settings := (settings m)\<lparr>oldest_live := new_oldest\<rparr>\<rparr>\<rparr>)"

definition process_flush_all :: "lib \<Rightarrow> limits \<Rightarrow> cmdline \<Rightarrow> server \<Rightarrow> server option" where
  "process_flush_all L lim l s = do {
     let s = noreply_maybe l s;
     let s = upd_sstats (\<lambda>t. t\<lparr>flush_cmds := flush_cmds t + 1\<rparr>) s;
     (if \<not> flush_enabled (sset s) then reply lim ''CLIENT_ERROR flush_all not allowed'' s
      else do {
        (expt, bad, s) \<leftarrow>
          (if ntokens l \<noteq> (if noreply (cl s) then 3 else 2) then do {
             a1 \<leftarrow> arg 1 l;
             let (v, s) = strtol a1 s;
             Some (v, erange s, s)
           }
           else Some (0, False, s));
        (if bad then reply lim ''CLIENT_ERROR bad command lien format'' s
         else reply lim ''OK''
           (flush_from (if 0 < expt then realtime L expt (current_time (cache s)) else current_time (cache s)) s))
      })
   }"

definition c_int :: "int \<Rightarrow> int" where
  "c_int v = sint (of_int v :: 32 word)"

definition process_slabs_reassign :: "lib \<Rightarrow> limits \<Rightarrow> cmdline \<Rightarrow> server \<Rightarrow> server option" where
  "process_slabs_reassign L lim l s =
     (if \<not> slab_reassign (settings (cache s)) then reply lim ''CLIENT_ERROR slab reassignment disabled'' s
      else do {
        a2 \<leftarrow> arg 2 l;
        a3 \<leftarrow> arg 3 l;
        let (src, s) = strtol a2 s;
        let (dst, s) = strtol a3 s;
        (if erange s then reply lim ''CLIENT_ERROR bad command line format'' s
         else
           let (rv, m) = slabs_reassign (rebalance_busy L) (c_int src) (c_int dst) (cache s); s = s\<lparr>cache := m\<rparr>
           in case rv of
                REASSIGN_OK \<Rightarrow> reply lim ''OK'' s
              | REASSIGN_RUNNING \<Rightarrow> reply lim ''BUSY currently processing reassign request'' s
              | REASSIGN_BADCLASS \<Rightarrow> reply lim ''BADCLASS invalid src or dst class id'' s
              | REASSIGN_NOSPARE \<Rightarrow> reply lim ''NOSPARE source class has no spare pages'' s
              | REASSIGN_SRC_DST_SAME \<Rightarrow> reply lim ''SAME src and dst class are identica'' s)
      })"

section \<open>The crawler commands\<close>

definition crawler_reply :: "limits \<Rightarrow> bool \<Rightarrow> crawler_result_type \<Rightarrow> server \<Rightarrow> server option" where
  "crawler_reply lim watch rv s =
     (case rv of
        CRAWLER_OK \<Rightarrow> (if watch then Option.bind (reply lim ''OK'' s) (set_state conn_watch) else reply lim ''OK'' s)
      | CRAWLER_RUNNING \<Rightarrow> reply lim ''BUSY currently processing crawler request'' s
      | CRAWLER_BADCLASS \<Rightarrow> reply lim ''BADCLASS invalid class id'' s
      | CRAWLER_NOTSTARTED \<Rightarrow> reply lim ''NOTSTARTED no items to crawl'' s
      | CRAWLER_ERROR \<Rightarrow> reply lim ''ERROR an unknown error happened'' s)"

definition process_lru_crawler :: "lib \<Rightarrow> limits \<Rightarrow> cmdline \<Rightarrow> server \<Rightarrow> server option" where
  "process_lru_crawler L lim l s = do {
     a1 \<leftarrow> (if ntokens l = 4 \<or> ntokens l = 3 then arg 1 l else Some []);
     (if ntokens l = 4 \<and> a1 = ascii ''crawl'' then
        (if \<not> lru_crawler (sset s) then reply lim ''CLIENT_ERROR lru crawler disabled'' s
         else do {
           a2 \<leftarrow> arg 2 l;
           let (rv, s) = crawl L a2 False (lru_crawler_tocrawl (sset s)) s;
           crawler_reply lim False rv s
         })
      else if ntokens l = 4 \<and> a1 = ascii ''metadump'' then
        (if \<not> lru_crawler (sset s) then reply lim ''CLIENT_ERROR lru crawler disabled'' s
         else if \<not> dump_enabled (sset s) then reply lim ''ERROR metadump not allowed'' s
         else do {
           a2 \<leftarrow> arg 2 l;
           let (rv, s) = crawl L a2 True (- 1) s;
           crawler_reply lim True rv s
         })
      else if ntokens l = 4 \<and> a1 = ascii ''tocrawl'' then do {
        a2 \<leftarrow> arg 2 l;
        (case safe_strtoul L a2 of
           None \<Rightarrow> reply lim ''CLIENT_ERROR bad command line format'' s
         | Some tocrawl \<Rightarrow> reply lim ''OK'' (s\<lparr>sset := (sset s)\<lparr>lru_crawler_tocrawl := tocrawl\<rparr>\<rparr>))
      }
      else if ntokens l = 4 \<and> a1 = ascii ''sleep'' then do {
        a2 \<leftarrow> arg 2 l;
        (case safe_strtoul L a2 of
           None \<Rightarrow> reply lim ''CLIENT_ERROR bad command line format'' s
         | Some tosleep \<Rightarrow>
             (if 1000000 < tosleep then reply lim ''CLIENT_ERROR sleep must be one second or less'' s
              else reply lim ''OK'' (s\<lparr>sset := (sset s)\<lparr>lru_crawler_sleep := tosleep\<rparr>\<rparr>)))
      }
      else if ntokens l = 3 then
        (if a1 = ascii ''enable'' then
           (let (ok, s) = start_crawler L s in if ok then reply lim ''OK'' s else reply lim ''ERROR failed to start lru crawler thread'' s)
         else if a1 = ascii ''disable'' then
           (let (ok, s) = stop_crawler L s in if ok then reply lim ''OK'' s else reply lim ''ERROR failed to stop lru crawler thread'' s)
         else reply lim ''ERROR'' s)
      else reply lim ''ERROR'' s)
   }"

section \<open>Statistics\<close>

definition write_and_free_buf :: "limits \<Rightarrow> bytes option \<Rightarrow> nat \<Rightarrow> server \<Rightarrow> server option" where
  "write_and_free_buf lim buf n s =
     (case buf of
        None \<Rightarrow> reply_nomem lim ''SERVER_ERROR out of memory writin stats'' s
      | Some b \<Rightarrow> do {
          s \<leftarrow> set_state conn_write (s\<lparr>write_and_free := Some b, cl := (cl s)\<lparr>wcurr := 0, wbytes := n\<rparr>\<rparr>);
          Some (s\<lparr>cl := (cl s)\<lparr>write_and_go := conn_new_cmd\<rparr>\<rparr>)
        })"

definition process_stats_detail :: "limits \<Rightarrow> bytes \<Rightarrow> server \<Rightarrow> server option" where
  "process_stats_detail lim command s =
     (if command = ascii ''on'' then reply lim ''OK'' (s\<lparr>sset := (sset s)\<lparr>detail_enabled := True\<rparr>\<rparr>)
      else if command = ascii ''off'' then reply lim ''OK'' (s\<lparr>sset := (sset s)\<lparr>detail_enabled := False\<rparr>\<rparr>)
      else if command = ascii ''dump'' then do {
        (text, pf) \<leftarrow> stats_prefix_dump (prefixes s);
        write_and_free_buf lim text (case text of None \<Rightarrow> 0 | Some t \<Rightarrow> length t) (s\<lparr>prefixes := pf\<rparr>)
      }
      else reply lim ''CLIENT_ERROR usage: stats detail on|off|dump'' s)"

definition add_stats :: "(bytes \<times> bytes) list \<Rightarrow> server \<Rightarrow> server option" where
  "add_stats kvs s = map_option (\<lambda>b. s\<lparr>sbuf := b\<rparr>) (append_all (prot (cl s)) (opaque (cl s)) kvs (sbuf s))"

text \<open>Start the transfer of the collected statistics.\<close>

definition send_stats :: "limits \<Rightarrow> server \<Rightarrow> server option" where
  "send_stats lim s =
     (case sb_buffer (sbuf s) of
        None \<Rightarrow> reply_nomem lim ''SERVER_ERROR out of memory writing stats'' s
      | Some b \<Rightarrow> do {
          s \<leftarrow> write_and_free_buf lim (Some b) (sb_offset (sbuf s)) s;
          Some (s\<lparr>sbuf := (sbuf s)\<lparr>sb_buffer := None\<rparr>\<rparr>)
        })"

text \<open>\<open>collect_stats\<close> stands for the collectors: the general statistics without a name, otherwise those of a subcommand, if there are any.\<close>

definition process_stat :: "lib \<Rightarrow> limits \<Rightarrow> cmdline \<Rightarrow> server \<Rightarrow> server option" where
  "process_stat L lim l s =
     (if ntokens l < 2 then reply lim ''CLIENT_ERROR bad command line'' s
      else if ntokens l = 2 then do {
        s \<leftarrow> add_stats (case collect_stats L None s of None \<Rightarrow> [] | Some kvs \<Rightarrow> kvs) s;
        s \<leftarrow> add_stats [([], [])] s;
        send_stats lim s
      }
      else do {
        sub \<leftarrow> arg 1 l;
        (if sub = ascii ''reset'' then reply lim ''RESET '' (stats_reset L s)
         else if sub = ascii ''detail'' then
           (if ntokens l < 4 then process_stats_detail lim [] s else Option.bind (arg 2 l) (\<lambda>a2. process_stats_detail lim a2 s))
         else if sub = ascii ''cachedump'' then
           (if \<not> dump_enabled (sset s) then reply lim ''CLIENT_ERROR stats cachedump not allowed'' s
            else if ntokens l < 5 then reply lim ''CLIENT_ERROR bad command line'' s
            else do {
              a2 \<leftarrow> arg 2 l;
              a3 \<leftarrow> arg 3 l;
              (case (safe_strtoul L a2, safe_strtoul L a3) of
                 (Some cid, Some limit) \<Rightarrow>
                   (if 64 \<le> cid then reply lim ''CLIENT_ERROR Illegal slab id'' s
                    else let text = item_cachedump L cid limit (cache s)
                         in write_and_free_buf lim text (case text of None \<Rightarrow> 0 | Some t \<Rightarrow> length t) s)
               | _ \<Rightarrow> reply lim ''CLIENT_ERROR bad command line format'' s)
            })
         else if sub = ascii ''settings'' \<or> sub = ascii ''conns'' then do {
           s \<leftarrow> add_stats (case collect_stats L (Some sub) s of None \<Rightarrow> [] | Some kvs \<Rightarrow> kvs) s;
           s \<leftarrow> add_stats [([], [])] s;
           send_stats lim s
         }
         else (case collect_stats L (Some sub) s of
                 None \<Rightarrow> reply lim ''ERROR'' s
               | Some kvs \<Rightarrow> Option.bind (add_stats kvs s) (send_stats lim)))
      })"

section \<open>Get\<close>

text \<open>A chain of \<^verbatim>\<open>add_iov\<close> calls that ends with the first failure.\<close>

fun add_iovs :: "limits \<Rightarrow> bytes list \<Rightarrow> server \<Rightarrow> (bool \<times> server) option" where
  "add_iovs lim [] s = Some (True, s)"
| "add_iovs lim (b # bs) s = do {
     (ok, c) \<leftarrow> add_iov lim b (cl s);
     let s = s\<lparr>cl := c\<rparr>;
     (if ok then add_iovs lim bs s else Some (False, s))
   }"

text \<open>
  The answer to a hit. With a separate suffix the keyword is queued as six bytes of the string \<^verbatim>\<open>"VALUE"\<close>, the last of which is its NUL; the result
  of queueing the data of a plain item is ignored there.
\<close>

definition hit_with_suffix :: "lib \<Rightarrow> limits \<Rightarrow> bool \<Rightarrow> addr \<Rightarrow> server \<Rightarrow> (bool \<times> server) option" where
  "hit_with_suffix L lim return_cas it s = do {
     let i = heap (cache s) it;
     (ok, s) \<leftarrow> add_iovs lim ([ascii ''VALUE'' @ [0], item_key i] @
         (if inline_ascii_response (settings (cache s)) then [take (unat (nsuffix i) - 2) (i_suffix i)] else []) @
         [make_ascii_get_suffix L i return_cas (nbytes i)]) s;
     (if \<not> ok then Some (False, s)
      else if \<not> has_flag (it_flags i) ITEM_CHUNKED then
        map_option (\<lambda>(_, s). (True, s)) (add_iovs lim [data_read 0 (nat (nbytes i)) (i_data i)] s)
      else add_chunked_item_iovs L it (nbytes i) s)
   }"

definition hit_inline :: "lib \<Rightarrow> limits \<Rightarrow> addr \<Rightarrow> server \<Rightarrow> (bool \<times> server) option" where
  "hit_inline L lim it s = do {
     let i = heap (cache s) it;
     (ok, s) \<leftarrow> add_iovs lim [ascii ''VALUE '', item_key i] s;
     (if \<not> ok then Some (False, s)
      else if \<not> has_flag (it_flags i) ITEM_CHUNKED then
        add_iovs lim [take (unat (nsuffix i)) (i_suffix i) @ data_read 0 (nat (nbytes i)) (i_data i)] s
      else do {
        (ok, s) \<leftarrow> add_iovs lim [take (unat (nsuffix i)) (i_suffix i)] s;
        (if ok then add_chunked_item_iovs L it (nbytes i) s else Some (False, s))
      })
   }"

text \<open>One key: the items got so far and the number of suffix buffers in use, or a break out of the loop, or the return on a key that is too long.\<close>

datatype get_step = Next "addr list" nat server | Break "addr list" nat server | Return server

fun release_got :: "bool \<Rightarrow> nat \<Rightarrow> addr list \<Rightarrow> server \<Rightarrow> server option" where
  "release_got sfx 0 il s = Some s"
| "release_got sfx (Suc i) il s = do {
     s \<leftarrow> on_cache (item_remove (il ! i)) s;
     s \<leftarrow> (if sfx then do {
            c_assert (i < length (suffixlist s));
            m \<leftarrow> do_cache_free (suffixlist s ! i) (suffix_cache s);
            Some (s\<lparr>suffix_cache := m\<rparr>)
          } else Some s);
     release_got sfx i il s
   }"

definition get_hit_key :: "lib \<Rightarrow> limits \<Rightarrow> bool \<Rightarrow> bool \<Rightarrow> addr \<Rightarrow> addr list \<Rightarrow> nat \<Rightarrow> server \<Rightarrow> get_step option" where
  "get_hit_key L lim return_cas should_touch it il si s =
     (let (ok, s) = expand_ilist L (length il) s
      in if \<not> ok then map_option (Break il si) (on_cache (item_remove it) s)
         else if return_cas \<or> \<not> inline_ascii_response (settings (cache s)) then
           (let (suffix, s) = get_suffix_buf L si s
            in if suffix = NULL then map_option (Break il si) (on_cache (item_remove it) s)
               else do {
                 (ok, s) \<leftarrow> hit_with_suffix L lim return_cas it s;
                 (if ok then Some (Next (il @ [it]) (si + 1) s) else map_option (Break il (si + 1)) (on_cache (item_remove it) s))
               })
         else do {
           (ok, s) \<leftarrow> hit_inline L lim it s;
           (if ok then Some (Next (il @ [it]) si s) else map_option (Break il si) (on_cache (item_remove it) s))
         })"

definition count_hit :: "bool \<Rightarrow> addr \<Rightarrow> server \<Rightarrow> server" where
  "count_hit should_touch it s =
     (let i = heap (cache s) it
      in if should_touch then upd_sstats (\<lambda>t. t\<lparr>touch_cmds := touch_cmds t + 1, touch_hits := bump (ITEM_clsid i) (touch_hits t)\<rparr>) s
         else upd_sstats (\<lambda>t. t\<lparr>lru_hits := bump (slabs_clsid i) (lru_hits t), get_cmds := get_cmds t + 1\<rparr>) s)"

definition count_miss :: "bool \<Rightarrow> server \<Rightarrow> server" where
  "count_miss should_touch s =
     (if should_touch then upd_sstats (\<lambda>t. t\<lparr>touch_cmds := touch_cmds t + 1, touch_misses := touch_misses t + 1\<rparr>) s
      else upd_sstats (\<lambda>t. t\<lparr>get_misses := get_misses t + 1, get_cmds := get_cmds t + 1\<rparr>) s)"

definition get_one_key :: "lib \<Rightarrow> limits \<Rightarrow> bool \<Rightarrow> bool \<Rightarrow> u32 \<Rightarrow> bytes \<Rightarrow> addr list \<Rightarrow> nat \<Rightarrow> server \<Rightarrow> get_step option" where
  "get_one_key L lim return_cas should_touch expt key il si s =
     (if KEY_MAX_LENGTH < length key then do {
        s \<leftarrow> reply lim ''CLIENT_ERROR bad command line format'' s;
        s \<leftarrow> release_got (return_cas \<or> \<not> inline_ascii_response (settings (cache s))) (length il) il s;
        Some (Return s)
      }
      else do {
        (it, s) \<leftarrow> cache_ptr (limited_get L key expt should_touch) s;
        let s = record_prefix (\<lambda>h d k. stats_prefix_record_get h d k (it \<noteq> NULL)) key s;
        (if it \<noteq> NULL then do {
           r \<leftarrow> get_hit_key L lim return_cas should_touch it il si s;
           Some (case r of Next il si s \<Rightarrow> Next il si (count_hit should_touch it s) | _ \<Rightarrow> r)
         }
         else Some (Next il si (count_miss should_touch s)))
      })"

text \<open>
  The walk over the tokens. A break leaves \<^verbatim>\<open>key_token\<close> at the failing key, so the code behind the loop tokenizes that key, alone in its string, and the
  walk goes on with it; it ends only at a token whose value is NULL.
\<close>

datatype get_walk_step = Walked "server + addr list \<times> nat \<times> server" | Walk_on bytes "token_t list" "addr list" nat server

definition get_retokenize :: "bytes \<Rightarrow> nat \<Rightarrow> addr list \<Rightarrow> nat \<Rightarrow> server \<Rightarrow> get_walk_step option" where
  "get_retokenize buf v il si s = do {
     (buf, tokens) \<leftarrow> tokenize_command MAX_TOKENS (takeWhile (\<lambda>b. b \<noteq> 0) (drop v buf));
     Some (if fst (hd tokens) = None then Walked (Inr (il, si, s)) else Walk_on buf tokens il si s)
   }"

definition get_walk_token ::
  "lib \<Rightarrow> limits \<Rightarrow> bool \<Rightarrow> bool \<Rightarrow> u32 \<Rightarrow> bytes \<Rightarrow> token_t list \<Rightarrow> addr list \<Rightarrow> nat \<Rightarrow> server \<Rightarrow> get_walk_step option" where
  "get_walk_token L lim return_cas should_touch expt buf tokens il si s =
     (case tokens of
        [] \<Rightarrow> None
      | (v, len) # rest \<Rightarrow>
          (if len \<noteq> 0 then do {
             v \<leftarrow> v;
             r \<leftarrow> get_one_key L lim return_cas should_touch expt (take len (drop v buf)) il si s;
             (case r of
                Next il si s \<Rightarrow> Some (Walk_on buf rest il si s)
              | Break il si s \<Rightarrow> get_retokenize buf v il si s
              | Return s \<Rightarrow> Some (Walked (Inl s)))
           }
           else (case v of None \<Rightarrow> Some (Walked (Inr (il, si, s))) | Some v \<Rightarrow> get_retokenize buf v il si s)))"

partial_function (option) get_walk ::
  "lib \<Rightarrow> limits \<Rightarrow> bool \<Rightarrow> bool \<Rightarrow> u32 \<Rightarrow> bytes \<Rightarrow> token_t list \<Rightarrow> addr list \<Rightarrow> nat \<Rightarrow> server \<Rightarrow> (server + addr list \<times> nat \<times> server) option" where
  "get_walk L lim return_cas should_touch expt buf tokens il si s = do {
     w \<leftarrow> get_walk_token L lim return_cas should_touch expt buf tokens il si s;
     (case w of
        Walked r \<Rightarrow> Some r
      | Walk_on buf tokens il si s \<Rightarrow> get_walk L lim return_cas should_touch expt buf tokens il si s)
   }"

definition process_get_command :: "lib \<Rightarrow> limits \<Rightarrow> cmdline \<Rightarrow> bool \<Rightarrow> bool \<Rightarrow> server \<Rightarrow> server option" where
  "process_get_command L lim l return_cas should_touch s = do {
     expt \<leftarrow> (if should_touch then map_option (safe_strtol L) (arg 1 l) else Some (Some 0));
     (case expt of
        None \<Rightarrow> reply lim ''CLIENT_ERROR invalid exptime argument'' s
      | Some exptime_int \<Rightarrow> do {
          let expt = (if should_touch then realtime L exptime_int (current_time (cache s)) else 0);
          r \<leftarrow> get_walk L lim return_cas should_touch expt (fst l) (drop (if should_touch then 2 else 1) (snd l)) [] 0 s;
          (case r of
             Inl s \<Rightarrow> Some s
           | Inr (il, si, s) \<Rightarrow> do {
               let s = s\<lparr>ilist := il\<rparr>;
               let s = (if return_cas \<or> \<not> inline_ascii_response (settings (cache s)) then s\<lparr>suffixlist := take si (suffixlist s)\<rparr> else s);
               (ok, s) \<leftarrow> add_iovs lim [ascii ''END'' @ CRLF] s;
               let (ok, s) = (if ok \<and> IS_UDP (transport (cl s)) then build_udp_headers L s else (ok, s));
               (if \<not> ok then reply_nomem lim ''SERVER_ERROR out of memory writing get response'' s
                else do {
                  s \<leftarrow> set_state conn_mwrite s;
                  Some (s\<lparr>cl := (cl s)\<lparr>msgcurr := 0\<rparr>\<rparr>)
                })
             })
        })
   }"

section \<open>Dispatch\<close>

definition store_word :: "bytes \<Rightarrow> store_cmd option" where
  "store_word w =
     (if w = ascii ''add'' then Some NREAD_ADD else if w = ascii ''set'' then Some NREAD_SET
      else if w = ascii ''replace'' then Some NREAD_REPLACE else if w = ascii ''prepend'' then Some NREAD_PREPEND
      else if w = ascii ''append'' then Some NREAD_APPEND else None)"

text \<open>
  The chain of comparisons of \<^verbatim>\<open>process_command\<close>. With fewer than two tokens the line is empty and no condition reads the command; \<^verbatim>\<open>gets\<close> is called with its last
  argument missing, read here as false. The branches of the \<^verbatim>\<open>MEMCACHED_DEBUG\<close> and \<^verbatim>\<open>EXTSTORE\<close> builds are left out.
\<close>

definition dispatch_command :: "lib \<Rightarrow> limits \<Rightarrow> cmdline \<Rightarrow> server \<Rightarrow> server option" where
  "dispatch_command L lim l s = do {
     let n = ntokens l;
     w \<leftarrow> (if n < 2 then Some [] else arg 0 l);
     (if 3 \<le> n \<and> (w = ascii ''get'' \<or> w = ascii ''bget'') then process_get_command L lim l False False s
      else if (n = 6 \<or> n = 7) \<and> store_word w \<noteq> None then process_update_command L lim l (the (store_word w)) False s
      else if (n = 7 \<or> n = 8) \<and> w = ascii ''cas'' then process_update_command L lim l NREAD_CAS True s
      else if (n = 4 \<or> n = 5) \<and> w = ascii ''incr'' then process_arithmetic_command lim l True s
      else if 3 \<le> n \<and> w = ascii ''gets'' then process_get_command L lim l True False s
      else if (n = 4 \<or> n = 5) \<and> w = ascii ''decr'' then process_arithmetic_command lim l False s
      else if 3 \<le> n \<and> n \<le> 5 \<and> w = ascii ''delete'' then process_delete_command lim l s
      else if (n = 4 \<or> n = 5) \<and> w = ascii ''touch'' then process_touch_command L lim l s
      else if 4 \<le> n \<and> w = ascii ''gat'' then process_get_command L lim l False True s
      else if 4 \<le> n \<and> w = ascii ''gats'' then process_get_command L lim l True True s
      else if 2 \<le> n \<and> w = ascii ''stats'' then process_stat L lim l s
      else if 2 \<le> n \<and> n \<le> 4 \<and> w = ascii ''flush_all'' then process_flush_all L lim l s
      else if n = 2 \<and> w = ascii ''version'' then map_option (\<lambda>c. s\<lparr>cl := c\<rparr>) (out_string lim (ascii ''VERSION '' @ VERSION L) (cl s))
      else if n = 2 \<and> w = ascii ''quit'' then set_state conn_closing s
      else if n = 2 \<and> w = ascii ''shutdown'' then
        (if shutdown_command (sset s) then map_option (\<lambda>s. s\<lparr>signalled := True\<rparr>) (set_state conn_closing s)
         else reply lim ''ERROR: shutdown not enabled'' s)
      else if 1 < n \<and> w = ascii ''slabs'' then do {
        a1 \<leftarrow> (if n = 5 \<or> 4 \<le> n then arg 1 l else Some []);
        (if n = 5 \<and> a1 = ascii ''reassign'' then process_slabs_reassign L lim l s
         else if 4 \<le> n \<and> a1 = ascii ''automove'' then process_slabs_automove_command L lim l s
         else reply lim ''ERROR'' s)
      }
      else if 1 < n \<and> w = ascii ''lru_crawler'' then process_lru_crawler L lim l s
      else if 1 < n \<and> w = ascii ''watch'' then process_watch_command L lim l s
      else if (n = 3 \<or> n = 4) \<and> w = ascii ''cache_memlimit'' then process_memlimit_command L lim l s
      else if (n = 3 \<or> n = 4) \<and> w = ascii ''verbosity'' then process_verbosity_command lim l s
      else if 3 \<le> n \<and> w = ascii ''lru'' then process_lru_command L lim l s
      else do {
        http \<leftarrow> (if 2 \<le> n then map_option (\<lambda>a. take 5 a = ascii ''HTTP/'') (arg (n - 2) l) else Some False);
        (if http then set_state conn_closing s else reply lim ''ERROR'' s)
      })
   }"

definition process_command :: "lib \<Rightarrow> limits \<Rightarrow> bytes \<Rightarrow> server \<Rightarrow> server option" where
  "process_command L lim command s = do {
     (ok, c) \<leftarrow> add_msghdr lim ((cl s)\<lparr>msgcurr := 0, msglist := [], iovused := 0\<rparr>);
     let s = s\<lparr>cl := c\<rparr>;
     (if \<not> ok then reply_nomem lim ''SERVER_ERROR out of memory preparing response'' s
      else do {
        l \<leftarrow> tokenize_command MAX_TOKENS command;
        dispatch_command L lim l s
      })
   }"

end
