(* ===== verification/Commands_Spec.thy ===== *)
theory Commands_Spec
  imports Commands
begin

text \<open>
  What the commands of the text protocol do, from the line a client sends to the contents of the cache and the reply.
\<close>

section \<open>Lines\<close>

lemma takeWhile_eq_takeI:
  "n \<le> length xs \<Longrightarrow> (n = length xs \<or> \<not> P (xs ! n)) \<Longrightarrow> (\<forall>x \<in> set (take n xs). P x) \<Longrightarrow> takeWhile P xs = take n xs"
proof (induction xs arbitrary: n)
  case (Cons x xs)
  then show ?case by (cases n) auto
qed simp

lemma set_words: "w \<in> set (words line) \<Longrightarrow> set w \<subseteq> set line"
proof (induction line rule: words.induct)
  case (2 c cs)
  then show ?case using set_takeWhileD [of _ "\<lambda>b. b \<noteq> 32" cs] set_dropWhileD [of _ "\<lambda>b. b \<noteq> 32" cs]
    by (auto split: if_splits)
qed simp

text \<open>The tokens of a line are its words, as long as there are at most seven; an argument behind them is missing if there are fewer.\<close>

lemma command_words:
  assumes "0 \<notin> set line" "words line = ws" "length ws \<le> 7"
  obtains l where "tokenize_command 8 line = Some l" "ntokens l = length ws + 1"
    "\<forall>i < length ws. arg i l = Some (ws ! i) \<and> token_text (fst l) (snd l ! i) = ws ! i \<and> snd (snd l ! i) = length (ws ! i)"
    "length ws < 7 \<longrightarrow> arg (length ws) l = None"
    "ws \<noteq> [] \<longrightarrow> (\<forall>b. set_noreply_maybe (fst l) (snd l) b = (b \<or> last ws = noreply_word))"
proof -
  have "1 < (8 :: nat)" by simp
  then obtain buf tokens where t: "tokenize_command 8 line = Some (buf, tokens)" "length buf = length line" "tokens \<noteq> []"
    "map (token_text buf) (butlast tokens) = take (8 - 1) (words line)"
    "\<forall>t \<in> set (butlast tokens). \<exists>v. fst t = Some v \<and> 0 < snd t \<and> v + snd t \<le> length line \<and> (v + snd t = length line \<or> buf ! (v + snd t) = 0)"
    "fst (last tokens) \<noteq> None \<longrightarrow> length tokens = 8" by (rule tokenize_command_correct [of 8 line])
  have m: "map (token_text buf) (butlast tokens) = ws" using t(4) assms(2,3) by simp
  have len: "length tokens = length ws + 1" using t(3) arg_cong [OF m, of length] by (cases tokens rule: rev_cases) auto
  have bl: "butlast tokens ! i = tokens ! i" if "i < length ws" for i using that len by (simp add: nth_butlast)
  have tok: "arg i (buf, tokens) = Some (ws ! i) \<and> token_text buf (tokens ! i) = ws ! i \<and> snd (tokens ! i) = length (ws ! i) \<and> fst (tokens ! i) \<noteq> None"
    if i: "i < length ws" for i
  proof -
    have "tokens ! i \<in> set (butlast tokens)" using i len bl [OF i] by (metis add_diff_cancel_right' length_butlast nth_mem)
    then obtain v n where v: "tokens ! i = (Some v, n)" "0 < n" "v + n \<le> length line" "v + n = length line \<or> buf ! (v + n) = 0"
      using t(5) by (metis prod.collapse)
    have w: "token_text buf (tokens ! i) = ws ! i" using arg_cong [OF m, of "\<lambda>xs. xs ! i"] i len bl [OF i] by simp
    have tk: "take n (drop v buf) = ws ! i" using w v(1) by (simp add: token_text_def)
    have nz: "0 \<notin> set (ws ! i)" using set_words [of "ws ! i" line] assms(1,2) i by auto
    have "takeWhile (\<lambda>b. b \<noteq> 0) (drop v buf) = take n (drop v buf)"
      by (rule takeWhile_eq_takeI) (use v t(2) nz tk in auto)
    then have "arg i (buf, tokens) = Some (ws ! i)" using i len v(1) tk by (simp add: arg_def)
    moreover have "n = length (ws ! i)" using arg_cong [OF tk, of length] v(3) t(2) by simp
    ultimately show ?thesis using w v(1) by simp
  qed
  have "arg (length ws) (buf, tokens) = None" if "length ws < 7"
    using t(3,6) len that by (simp add: arg_def last_conv_nth)
  moreover have "set_noreply_maybe buf tokens b = (b \<or> last ws = noreply_word)" if "ws \<noteq> []" for b
  proof -
    have "length ws - 1 < length ws" using that by simp
    from tok [OF this] show ?thesis using len that by (auto simp: set_noreply_maybe_def Let_def last_conv_nth)
  qed
  ultimately show ?thesis using that [of "(buf, tokens)"] t(1) len tok by (simp add: ntokens_def)
qed

section \<open>Replies\<close>

text \<open>A connection with room for one message, and for every reply text in the write buffer.\<close>

definition conn_ready :: "client \<Rightarrow> bool" where
  "conn_ready c \<longleftrightarrow> 0 < iovsize c \<and> 0 < msgsize c \<and> allocs_ok c \<and> 128 \<le> length (wbuf c)"

text \<open>The client is sent \<open>txt\<close> as a line, or nothing if it asked for no reply.\<close>

definition answered :: "bytes \<Rightarrow> bool \<Rightarrow> client \<Rightarrow> bool" where
  "answered txt nr c \<longleftrightarrow>
     (if nr then state c = conn_new_cmd
      else state c = conn_write \<and> write_and_go c = conn_new_cmd \<and> take (wbytes c) (drop (wcurr c) (wbuf c)) = txt @ CRLF) \<and> \<not> noreply c"

lemma first_msghdr:
  assumes "0 < iovsize c" "0 < msgsize c" "allocs_ok c"
  obtains d where "add_msghdr lim (c\<lparr>msgcurr := 0, msglist := [], iovused := 0\<rparr>) = Some (True, d)" "out_ok d"
    "same_conn c d" "view d = [if IS_UDP (transport c) then [replicate (UDP_HEADER_SIZE lim) 0] else []]" "msglist d \<noteq> []"
proof -
  let ?c = "c\<lparr>msgcurr := 0, msglist := [], iovused := 0\<rparr>"
  have "out_ok ?c" using assms by (simp add: out_ok_def total_def allocs_ok_def)
  then obtain d where "add_msghdr lim ?c = Some (True, d)" "out_ok d" "same_conn ?c d" "msglist d \<noteq> []"
    "view d = view ?c @ [if IS_UDP (transport ?c) then [replicate (UDP_HEADER_SIZE lim) 0] else []]" by (rule add_msghdr_ok)
  then show ?thesis using that by (simp add: same_conn_def view_def)
qed

lemma out_string_ok:
  assumes "conn_ready c" "length str \<le> 126"
  shows "\<exists>c'. out_string lim str c = Some c' \<and> answered str (noreply c) c' \<and> input c' = input c"
proof (cases "noreply c")
  case True
  then show ?thesis by (simp add: out_string_def conn_set_state_def answered_def input_def)
next
  case False
  obtain d where d: "add_msghdr lim (c\<lparr>msgcurr := 0, msglist := [], iovused := 0\<rparr>) = Some (True, d)" "same_conn c d"
    using first_msghdr [of c lim] assms(1) by (auto simp: conn_ready_def)
  have w: "wbuf d = wbuf c" "\<not> noreply d" "input d = input c" using d(2) False by (simp_all add: same_conn_def input_def)
  have "length str + 2 \<le> length (wbuf d)" using assms w by (simp add: conn_ready_def)
  then have "buf_write 0 (str @ CRLF) (wbuf d) = Some ((str @ CRLF) @ drop (length str + 2) (wbuf d))" "\<not> length (wbuf d) < length str + 2"
    by (simp_all add: buf_write_def CRLF_def)
  then show ?thesis using False d(1) w by (simp add: out_string_def conn_set_state_def answered_def CRLF_def input_def)
qed

lemma reply_ok:
  assumes "conn_ready (cl s)" "length str \<le> 126"
  shows "\<exists>c'. reply lim str s = Some (s\<lparr>cl := c'\<rparr>) \<and> answered (ascii str) (noreply (cl s)) c' \<and> input c' = input (cl s)"
  using out_string_ok [OF assms(1), of "ascii str" lim] assms(2) by (auto simp: reply_def ascii_def)

lemma conn_ready_same: "conn_ready c \<Longrightarrow> out_ok d \<Longrightarrow> same_conn c d \<Longrightarrow> conn_ready (d\<lparr>noreply := b\<rparr>)"
  by (auto simp: conn_ready_def out_ok_def same_conn_def allocs_ok_def)

text \<open>The state in which a command of a tokenized line starts.\<close>

lemma process_command_start:
  assumes "conn_ready (cl s)" "0 \<notin> set line" "words line = ws" "length ws \<le> 7"
  obtains l d where "process_command L lim line s = dispatch_command L lim l (s\<lparr>cl := d\<rparr>)" "conn_ready d" "same_conn (cl s) d" "out_ok d"
    "view d = [if IS_UDP (transport (cl s)) then [replicate (UDP_HEADER_SIZE lim) 0] else []]" "msglist d \<noteq> []" "ntokens l = length ws + 1"
    "\<forall>i < length ws. arg i l = Some (ws ! i) \<and> token_text (fst l) (snd l ! i) = ws ! i \<and> snd (snd l ! i) = length (ws ! i)"
    "length ws < 7 \<longrightarrow> arg (length ws) l = None"
    "ws \<noteq> [] \<longrightarrow> (\<forall>b. set_noreply_maybe (fst l) (snd l) b = (b \<or> last ws = noreply_word))"
proof -
  have p: "0 < iovsize (cl s)" "0 < msgsize (cl s)" "allocs_ok (cl s)" using assms(1) by (simp_all add: conn_ready_def)
  obtain d where d: "add_msghdr lim ((cl s)\<lparr>msgcurr := 0, msglist := [], iovused := 0\<rparr>) = Some (True, d)" "out_ok d" "same_conn (cl s) d"
    "view d = [if IS_UDP (transport (cl s)) then [replicate (UDP_HEADER_SIZE lim) 0] else []]" "msglist d \<noteq> []" by (rule first_msghdr [OF p])
  obtain l where l: "tokenize_command 8 line = Some l" "ntokens l = length ws + 1"
    "\<forall>i < length ws. arg i l = Some (ws ! i) \<and> token_text (fst l) (snd l ! i) = ws ! i \<and> snd (snd l ! i) = length (ws ! i)"
    "length ws < 7 \<longrightarrow> arg (length ws) l = None"
    "ws \<noteq> [] \<longrightarrow> (\<forall>b. set_noreply_maybe (fst l) (snd l) b = (b \<or> last ws = noreply_word))" by (rule command_words [OF assms(2-4)])
  have "process_command L lim line s = dispatch_command L lim l (s\<lparr>cl := d\<rparr>)" using d(1) l(1) by (simp add: process_command_def)
  moreover have "conn_ready d" using conn_ready_same [OF assms(1) d(2,3), of "noreply d"] by simp
  ultimately show ?thesis using that d l by blast
qed

section \<open>Under an item lock\<close>

definition lock_free :: "'z lru_state_scheme \<Rightarrow> bytes \<Rightarrow> bool" where
  "lock_free s k \<longleftrightarrow> \<not> item_locks s (hv_bucket (hash s k) (item_lock_hashpower s))"

lemma same_env_lock: "same_env s t \<Longrightarrow> lock_free t k = lock_free s k" by (simp add: same_env_def lock_free_def)

abbreviation locked :: "bytes \<Rightarrow> 'z lru_state_scheme \<Rightarrow> 'z lru_state_scheme" where
  "locked k s \<equiv> s\<lparr>item_locks := (item_locks s)(hv_bucket (hash s k) (item_lock_hashpower s) := True)\<rparr>"

lemma locks_frame:
  assumes "cinv s F Q"
  shows "cinv (s\<lparr>item_locks := x\<rparr>) F Q" "assoc_map (s\<lparr>item_locks := x\<rparr>) = assoc_map s" "cache_view (s\<lparr>item_locks := x\<rparr>) = cache_view s"
    "lookup (s\<lparr>item_locks := x\<rparr>) = lookup s"
proof -
  have c: "cinv (s\<lparr>item_locks := x\<rparr>) F Q \<and> assoc_map (s\<lparr>item_locks := x\<rparr>) = assoc_map s"
    by (rule cinv_same_heap [OF assms]) (simp_all add: core_def)
  then show "cinv (s\<lparr>item_locks := x\<rparr>) F Q" "assoc_map (s\<lparr>item_locks := x\<rparr>) = assoc_map s" by auto
  show "cache_view (s\<lparr>item_locks := x\<rparr>) = cache_view s" using c by (simp add: cache_view_def fun_eq_iff)
  show "lookup (s\<lparr>item_locks := x\<rparr>) = lookup s" using c by (simp add: lookup_def fun_eq_iff item_live_def split: option.split)
qed

lemma unlock_env:
  assumes "lock_free s k" "same_env (locked k s) t"
  shows "same_env s (item_unlock (hash s k) t)"
proof -
  have "(item_locks s)(hv_bucket (hash s k) (item_lock_hashpower s) := False) = item_locks s"
    using assms(1) by (simp add: lock_free_def fun_upd_idem_iff)
  then show ?thesis using assms(2) by (simp add: same_env_def item_unlock_def)
qed

lemma item_lock_free: "lock_free s k \<Longrightarrow> item_lock (hash s k) s = Some (locked k s)"
  by (simp add: item_lock_def lock_free_def Let_def)

lemma item_get_miss:
  assumes c: "cinv s F Q" and k: "lookup s k = None" "lock_free s k" and r: "\<And>p. assoc_map s k = Some p \<Longrightarrow> refcount (heap s p) \<noteq> - 1"
  shows "\<exists>t. item_get k upd s = Some (NULL, t) \<and> cache_inv t \<and> cache_view t = (cache_view s)(k := None) \<and> same_env s t"
proof -
  let ?s = "locked k s"
  note f = locks_frame [OF c, of "(item_locks s)(hv_bucket (hash s k) (item_lock_hashpower s) := True)"]
  have lk: "lookup ?s k = None" using k(1) f(4) by simp
  obtain t where t: "do_item_get k (hash s k) upd ?s = Some (NULL, t)" "cache_inv t" "cache_view t = (cache_view s)(k := None)" "same_env ?s t"
  proof (cases "assoc_map ?s k")
    case None
    have "assoc_inv ?s" using f(1) by (simp add: cinv_def)
    moreover have "(cache_view s)(k := None) = cache_view s" using None f(2) by (auto simp: cache_view_def)
    ultimately show ?thesis using that [of ?s] do_item_get_miss [of ?s k upd] None f(1,3) by (auto simp: cache_inv_def)
  next
    case (Some p)
    then have dead: "\<not> item_live ?s p" using lk by (auto simp: lookup_def split: if_splits)
    have r': "refcount (heap ?s p) \<noteq> - 1" using r Some f(2) by simp
    obtain t Q' where t: "do_item_get k (hash ?s k) upd ?s = Some (NULL, t)" "env t = env (?s\<lparr>tstats := tstats t\<rparr>)"
      using do_item_get_dead [OF f(1) Some r' dead, of upd] by blast
    have "cache_inv ?s" using f(1) unfolding cache_inv_def by blast
    then have "cache_inv t \<and> cache_view t = (cache_view ?s)(k := None)" using get_view [of ?s k upd] t(1) lk r' Some by auto
    then show ?thesis using that [of t] t f(3) env_same_env [where t = t and s = ?s and x = "tstats t" and y = "cas_id ?s"] by (simp add: env_def)
  qed
  let ?t = "item_unlock (hash s k) t"
  obtain F' Q' where c': "cinv t F' Q'" using t(2) by (auto simp: cache_inv_def)
  have "item_get k upd s = Some (NULL, ?t)" using item_lock_free [OF k(2)] t(1) by (simp add: item_get_def)
  moreover have "cache_inv ?t" "cache_view ?t = cache_view t" unfolding item_unlock_def using locks_frame [OF c'] by (auto simp: cache_inv_def)
  ultimately show ?thesis using t(3) unlock_env [OF k(2) t(4)] by auto
qed

lemma item_get_hit:
  assumes c: "cinv s F Q" and k: "lookup s k = Some it" "lock_free s k" and r: "refcount (heap s it) \<noteq> - 1"
  shows "item_get k False s = Some (it, upd_item it (\<lambda>i. i\<lparr>refcount := refcount i + 1\<rparr>) s)"
proof -
  have m: "assoc_map (locked k s) k = Some it" "item_live (locked k s) it"
    using k(1) locks_frame(2,4) [OF c] by (auto simp: lookup_def item_live_def split: option.splits if_splits)
  have "do_item_get k (hash s k) False (locked k s) = Some (it, upd_item it (\<lambda>i. i\<lparr>refcount := refcount i + 1\<rparr>) (locked k s))"
    using do_item_get_noupdate [OF locks_frame(1) [OF c] m(1) _ m(2)] r by simp
  moreover have "item_unlock (hash s k) (upd_item it f (locked k s)) = upd_item it f s" for f
    using k(2) by (simp add: item_unlock_def upd_item_def lock_free_def fun_upd_idem_iff)
  ultimately show ?thesis using item_lock_free [OF k(2)] by (simp add: item_get_def)
qed

lemma cinv_unlock: "cinv t F Q \<Longrightarrow> cinv (item_unlock hv t) F Q \<and> assoc_map (item_unlock hv t) = assoc_map t \<and> cache_view (item_unlock hv t) = cache_view t"
  unfolding item_unlock_def using locks_frame by blast

lemma item_unlock_simps [simp]: "heap (item_unlock hv t) = heap t" "power_largest (item_unlock hv t) = power_largest t" "hash (item_unlock hv t) = hash t"
  by (simp_all add: item_unlock_def)

lemma private_item_cong: "heap s' it = heap s it \<Longrightarrow> power_largest s' = power_largest s \<Longrightarrow> private_item s' F it = private_item s F it"
  by (simp add: private_item_def valid_cls_def)

lemma item_unlink_held:
  assumes c: "cinv s F Q" and it: "it \<in> lru_items Q" "1 < refcount (heap s it)" and k: "lock_free s (item_key (heap s it))"
  shows "\<exists>t Q'. item_unlink it s = Some t \<and> cinv t F Q' \<and> private_item t F it \<and> refcount (heap t it) = refcount (heap s it) - 1 \<and>
    item_key (heap t it) = item_key (heap s it) \<and> cache_view t = (cache_view s)(item_key (heap s it) := None) \<and> same_env s t"
proof -
  let ?k = "item_key (heap s it)" let ?s = "locked ?k s"
  note f = locks_frame [OF c, of "(item_locks s)(hv_bucket (hash s ?k) (item_lock_hashpower s) := True)"]
  have r: "refcount (heap ?s it) \<noteq> 1" using it(2) by auto
  then have fr: "freed ?s it F = F" by (simp add: freed_def)
  obtain t Q' where t: "do_item_unlink it (hash s ?k) ?s = Some t" "cinv t F Q'" "env t = env ?s" "private_item t F it"
    "strip (heap t it) = strip ((heap s it)\<lparr>it_flags := clr_flag (it_flags (heap s it)) ITEM_LINKED, refcount := refcount (heap s it) - 1\<rparr>)"
    using do_item_unlink_correct [OF f(1) it(1) refl] r fr by auto
  have "cache_inv ?s" using f(1) unfolding cache_inv_def by blast
  moreover have "is_linked ?s it" using cinv_is_linked [OF f(1)] it(1) by blast
  ultimately have v: "cache_view t = (cache_view s)(?k := None)" using unlink_view [of ?s it] t(1) f(3) by auto
  have fld: "refcount (heap t it) = refcount (heap s it) - 1" "item_key (heap t it) = ?k"
    using strip_fields(1,11) [OF t(5)] by (simp_all add: item_key_def)
  let ?t = "item_unlock (hash s ?k) t"
  have "item_unlink it s = Some ?t" using item_lock_free [OF k] t(1) by (simp add: item_unlink_def)
  moreover have "private_item ?t F it" using t(4) private_item_cong [of ?t it t F] by simp
  moreover have "same_env ?s t" using env_same_env [where t = t and s = ?s and x = "tstats ?s" and y = "cas_id ?s"] t(3) by simp
  ultimately show ?thesis using cinv_unlock [OF t(2)] fld v unlock_env [OF k] by (intro exI [of _ ?t] exI [of _ Q']) simp
qed

lemma item_remove_private:
  assumes c: "cinv s F Q" and it: "private_item s F it" "refcount (heap s it) \<noteq> 0" and k: "lock_free s (item_key (heap s it))"
  shows "\<exists>t. item_remove it s = Some t \<and> cache_inv t \<and> cache_view t = cache_view s \<and> same_env s t"
proof -
  let ?k = "item_key (heap s it)" let ?s = "locked ?k s"
  note f = locks_frame [OF c, of "(item_locks s)(hv_bucket (hash s ?k) (item_lock_hashpower s) := True)"]
  have p: "private_item ?s F it" using it(1) private_item_cong [of ?s it s F] by simp
  obtain t where t: "do_item_remove it ?s = Some t" "cinv t (freed ?s it F) Q" "env t = env ?s"
    using do_item_remove_private [OF f(1) p] it(2) by auto
  have "can_release ?s it" using f(1) p it(2) unfolding can_release_def by auto
  then have v: "cache_view t = cache_view s" using release_view [of ?s it] t(1) f(3) by auto
  have "item_remove it s = Some (item_unlock (hash s ?k) t)" using item_lock_free [OF k] t(1) by (simp add: item_remove_def)
  moreover have "same_env ?s t" using env_same_env [where t = t and s = ?s and x = "tstats ?s" and y = "cas_id ?s"] t(3) by simp
  ultimately show ?thesis using cinv_unlock [OF t(2)] v unlock_env [OF k] unfolding cache_inv_def by auto
qed

text \<open>Looking up, unlinking and releasing, as \<^verbatim>\<open>delete\<close> does it.\<close>

lemma delete_hit:
  assumes c: "cinv s F Q" and k: "lookup s k = Some it" "lock_free s k" and r: "refcount (heap s it) \<noteq> - 1"
  shows "\<exists>t u v. item_get k False s = Some (it, t) \<and> item_unlink it t = Some u \<and> item_remove it u = Some v \<and> cache_inv v \<and>
    cache_view v = (cache_view s)(k := None) \<and> same_env s v \<and> it \<noteq> NULL"
proof -
  let ?t = "upd_item it (\<lambda>i. i\<lparr>refcount := refcount i + 1\<rparr>) s"
  have m: "assoc_map s k = Some it" using k(1) by (auto simp: lookup_def split: option.splits if_splits)
  have it: "it \<in> lru_items Q" "item_key (heap s it) = k" using cinv_map_item [OF c m] by auto
  have nn: "it \<noteq> NULL" using lru_inv_nonnull it(1) c unfolding cinv_def by metis
  note t = refcount_inc [OF c it(1) r]
  have vt: "cache_view ?t = cache_view s" by (rule cache_view_same [OF c t(2)]) simp
  have kt: "item_key (heap ?t it) = k" using it(2) by (simp add: item_key_def)
  have et: "same_env s ?t" by (simp add: same_env_def upd_item_def)
  have lt: "lock_free ?t (item_key (heap ?t it))" using k(2) kt same_env_lock [OF et] by simp
  obtain u Q' where u: "item_unlink it ?t = Some u" "cinv u F Q'" "private_item u F it" "refcount (heap u it) = refcount (heap ?t it) - 1"
    "item_key (heap u it) = k" "cache_view u = (cache_view s)(k := None)" "same_env ?t u"
    using item_unlink_held [OF t(1) it(1) t(3) lt] kt vt by auto
  have lu: "lock_free u (item_key (heap u it))" using u(5) same_env_lock [OF u(7)] lt kt by simp
  have "refcount (heap u it) \<noteq> 0" using u(4) t(3) by auto
  from item_remove_private [OF u(2,3) this lu] obtain v where "item_remove it u = Some v" "cache_inv v" "cache_view v = cache_view u" "same_env u v"
    by blast
  then show ?thesis using item_get_hit [OF c k r] u(1,6) nn same_env_trans [OF et same_env_trans [OF u(7)]] by auto
qed

section \<open>Commands by name\<close>

lemma of_char_byte: "(of_char c :: 8 word) = of_nat (of_char c)"
  by (cases c) (simp add: of_char_def)

lemma ascii_eq_iff [simp]: "ascii a = ascii b \<longleftrightarrow> a = b"
proof -
  have "inj (of_char :: char \<Rightarrow> 8 word)"
  proof (rule injI)
    fix x y assume "(of_char x :: 8 word) = of_char y"
    then have "unat (of_nat (of_char x) :: 8 word) = unat (of_nat (of_char y) :: 8 word)" by (simp add: of_char_byte)
    moreover have "of_char c < (256 :: nat)" for c :: char by (cases c) (simp add: of_char_def)
    ultimately show "x = y" by (simp add: unsigned_of_nat take_bit_nat_eq_self)
  qed
  then show ?thesis unfolding ascii_def by (simp add: inj_map_eq_map)
qed

lemma noreply_word_ascii: "noreply_word = ascii ''noreply''"
  by (simp add: noreply_word_def ascii_def)

lemma delete_key_ok:
  assumes "conn_ready (cl s)" "cache_inv (cache s)" "lock_free (cache s) k"
    "\<forall>p. assoc_map (cache s) k = Some p \<longrightarrow> refcount (heap (cache s) p) \<noteq> - 1"
  shows "\<exists>s'. delete_key lim k s = Some s' \<and> cache_inv (cache s') \<and> cache_view (cache s') = (cache_view (cache s))(k := None) \<and>
    answered (ascii (if lookup (cache s) k = None then ''NOT_FOUND'' else ''DELETED'')) (noreply (cl s)) (cl s')"
proof -
  obtain F Q where c: "cinv (cache s) F Q" using assms(2) by (auto simp: cache_inv_def)
  define r where "r = record_prefix stats_prefix_record_delete k s"
  have r: "cache r = cache s" "cl r = cl s" by (simp_all add: r_def record_prefix_def)
  have rep: "\<exists>c'. reply lim str s0 = Some (s0\<lparr>cl := c'\<rparr>) \<and> answered (ascii str) (noreply (cl s)) c'" if "length str \<le> 126" "cl s0 = cl s" for str s0
    using reply_ok [of s0 str lim] that assms(1) by auto
  show ?thesis
  proof (cases "lookup (cache s) k")
    case None
    obtain t where t: "item_get k False (cache s) = Some (NULL, t)" "cache_inv t" "cache_view t = (cache_view (cache s))(k := None)"
      using item_get_miss [OF c None assms(3)] assms(4) by blast
    define x where "x = (sstats r)\<lparr>delete_misses := delete_misses (sstats r) + 1\<rparr>"
    obtain c' where "reply lim ''NOT_FOUND'' (r\<lparr>cache := t, sstats := x\<rparr>) = Some (r\<lparr>cache := t, sstats := x\<rparr>\<lparr>cl := c'\<rparr>)"
      "answered (ascii ''NOT_FOUND'') (noreply (cl s)) c'" using rep [of "''NOT_FOUND''" "r\<lparr>cache := t, sstats := x\<rparr>"] r by auto
    then show ?thesis using t None r by (simp add: delete_key_def r_def [symmetric] cache_ptr_def upd_sstats_def x_def Let_def)
  next
    case (Some it)
    have "assoc_map (cache s) k = Some it" using Some by (auto simp: lookup_def split: option.splits if_splits)
    with assms(4) obtain t u v where v: "item_get k False (cache s) = Some (it, t)" "item_unlink it t = Some u" "item_remove it u = Some v" "cache_inv v"
      "cache_view v = (cache_view (cache s))(k := None)" "it \<noteq> NULL" using delete_hit [OF c Some assms(3)] by blast
    define x where "x = (sstats r)\<lparr>delete_hits := bump (ITEM_clsid (heap t it)) (delete_hits (sstats r))\<rparr>"
    obtain c' where "reply lim ''DELETED'' (r\<lparr>sstats := x, cache := v\<rparr>) = Some (r\<lparr>sstats := x, cache := v\<rparr>\<lparr>cl := c'\<rparr>)"
      "answered (ascii ''DELETED'') (noreply (cl s)) c'" using rep [of "''DELETED''" "r\<lparr>sstats := x, cache := v\<rparr>"] r by auto
    then show ?thesis using v Some r by (simp add: delete_key_def r_def [symmetric] cache_ptr_def on_cache_def upd_sstats_def x_def Let_def)
  qed
qed

text \<open>
  (C11) The \<^verbatim>\<open>delete\<close> command, from the line to the reply. Whatever the blanks around its words, \<^verbatim>\<open>delete <key>\<close> removes the key from the cache, keeps every other value
  and the cache invariant, gives back the reference it took, and answers \<^verbatim>\<open>DELETED\<close> exactly when a live item was stored under the key and \<^verbatim>\<open>NOT_FOUND\<close>
  otherwise; with \<^verbatim>\<open>noreply\<close> nothing is sent.
\<close>

theorem delete_command_spec:
  assumes "conn_ready (cl s)" "\<not> noreply (cl s)" "cache_inv (cache s)" "lock_free (cache s) k"
    and "\<forall>p. assoc_map (cache s) k = Some p \<longrightarrow> refcount (heap (cache s) p) \<noteq> - 1"
    and "0 \<notin> set line" "words line = [ascii ''delete'', k] @ (if nr then [noreply_word] else [])" "length k \<le> 250"
  shows "\<exists>s'. process_command L lim line s = Some s' \<and> cache_inv (cache s') \<and> cache_view (cache s') = (cache_view (cache s))(k := None) \<and>
    answered (ascii (if lookup (cache s) k = None then ''NOT_FOUND'' else ''DELETED'')) nr (cl s')"
proof -
  have "length (words line) \<le> 7" using assms(7) by simp
  from process_command_start [OF assms(1,6) refl this] obtain l d where l: "process_command L lim line s = dispatch_command L lim l (s\<lparr>cl := d\<rparr>)"
    "conn_ready d" "same_conn (cl s) d" "ntokens l = length (words line) + 1"
    "\<forall>i < length (words line). arg i l = Some (words line ! i) \<and> token_text (fst l) (snd l ! i) = words line ! i \<and> snd (snd l ! i) = length (words line ! i)"
    "words line \<noteq> [] \<longrightarrow> (\<forall>b. set_noreply_maybe (fst l) (snd l) b = (b \<or> last (words line) = noreply_word))" by metis
  have n: "ntokens l = (if nr then 4 else 3)" using l(4) assms(7) by simp
  have a0: "arg 0 l = Some (ascii ''delete'')" and key: "key_of l = k" "snd (snd l ! 1) = length k" and a2: "nr \<Longrightarrow> arg 2 l = Some noreply_word"
    using l(5) assms(7) by (auto simp: key_of_def numeral_2_eq_2 all_conj_distrib)
  have nd: "\<not> noreply d" using l(3) assms(2) by (simp add: same_conn_def)
  let ?t = "s\<lparr>cl := if nr then d\<lparr>noreply := True\<rparr> else d\<rparr>"
  have "dispatch_command L lim l (s\<lparr>cl := d\<rparr>) = process_delete_command lim l (s\<lparr>cl := d\<rparr>)"
    using a0 n by (simp add: dispatch_command_def store_word_def)
  also have "\<dots> = delete_key lim k ?t"
    using n key a2 nd l(6) assms(7,8) by (cases nr) (simp_all add: process_delete_command_def noreply_maybe_def noreply_word_ascii)
  finally have "process_command L lim line s = delete_key lim k ?t" using l(1) by simp
  moreover have "conn_ready (cl ?t)" using l(2) by (simp add: conn_ready_def allocs_ok_def)
  ultimately show ?thesis using delete_key_ok [of ?t k lim] assms(3-5) nd by (cases nr) simp_all
qed

section \<open>flush\_all\<close>

lemma word_sub1_less: "y \<noteq> 0 \<Longrightarrow> y - 1 < y" for y :: "'a :: len word"
  by unat_arith

lemma word_less_plus1: "x \<noteq> - 1 \<Longrightarrow> x < x + 1" for x :: "'a :: len word"
  using word_sub1_less [of "x + 1"] by (auto simp: add_eq_0_iff2)

lemma flush_from_lookup:
  assumes "cinv (cache s) F Q" "0 < current_time (cache s)" "1 < current_time (cache s) \<or> \<not> use_cas (settings (cache s))" "cas_id (cache s) \<noteq> - 1"
    and "\<And>a. a \<in> lru_items Q \<Longrightarrow> i_time (heap (cache s) a) \<le> current_time (cache s) \<and>
      (use_cas (settings (cache s)) \<longrightarrow> 0 < ITEM_get_cas (heap (cache s) a) \<and> ITEM_get_cas (heap (cache s) a) \<le> cas_id (cache s))"
  defines "s' \<equiv> flush_from (current_time (cache s)) s"
  shows "cinv (cache s') F Q \<and> assoc_map (cache s') = assoc_map (cache s) \<and> heap (cache s') = heap (cache s) \<and> lookup (cache s') k = None \<and>
    (use_cas (settings (cache s)) \<longrightarrow> (\<forall>i. cas_id (cache s') < ITEM_get_cas i \<and> i_time i = current_time (cache s) \<and> exptime i = 0 \<longrightarrow>
      item_live ((cache s')\<lparr>heap := (heap (cache s'))(a := i)\<rparr>) a))"
proof -
  let ?m = "cache s" and ?t = "current_time (cache s)"
  have f: "core (cache s') = core ?m" "heap (cache s') = heap ?m" "current_time (cache s') = ?t"
    by (simp_all add: s'_def flush_from_def get_cas_id_def core_def Let_def)
  have t: "?t - 1 < ?t" "?t - 1 \<noteq> 0 \<or> \<not> use_cas (settings ?m)" using assms(2,3) by unat_arith+
  have st: "oldest_live (settings (cache s')) = (if use_cas (settings ?m) then ?t - 1 else ?t)"
    "use_cas (settings ?m) \<longrightarrow> oldest_cas (settings (cache s')) = cas_id ?m + 1 \<and> cas_id (cache s') = cas_id ?m + 1"
    using order.strict_implies_order [OF t(1)] by (simp_all add: s'_def flush_from_def get_cas_id_def Let_def)
  have c: "cinv (cache s') F Q" "assoc_map (cache s') = assoc_map ?m" using cinv_same_heap [OF assms(1) f(1,2)] by simp_all
  have n: "cas_id ?m < cas_id ?m + 1" using word_less_plus1 [OF assms(4)] .
  have "\<not> item_live (cache s') a" if "assoc_map ?m k = Some a" for a
  proof -
    have "a \<in> lru_items Q" using cinv_map_item [OF assms(1) that] by simp
    from assms(5) [OF this] show ?thesis using f st t n assms(2) by (auto simp: item_live_def split: if_splits)
  qed
  then have "lookup (cache s') k = None" using c(2) by (auto simp: lookup_def split: option.splits)
  moreover have "item_live ((cache s')\<lparr>heap := (heap (cache s'))(a := i)\<rparr>) a"
    if "use_cas (settings ?m)" "cas_id (cache s') < ITEM_get_cas i" "i_time i = ?t" "exptime i = 0" for i
    using that st t f by (auto simp: item_live_def)
  ultimately show ?thesis using c f by blast
qed

text \<open>
  (C12) \<^verbatim>\<open>flush_all\<close> hides every item stored so far: after it no key finds an item, although the items stay in the table until they are
  found or pulled from their queue. With CAS, the clock of which the seconds are too coarse does not hide the items stored later
  in the same second: an item that is linked after the command, with the next CAS value, is live.
\<close>

theorem flush_all_hides:
  assumes "conn_ready (cl s)" "\<not> noreply (cl s)" "cinv (cache s) F Q" "flush_enabled (sset s)"
    and "0 \<notin> set line" "words line = [ascii ''flush_all''] @ (if nr then [noreply_word] else [])"
    and "1 < current_time (cache s)" "cas_id (cache s) \<noteq> - 1"
    and "\<forall>a \<in> lru_items Q. i_time (heap (cache s) a) \<le> current_time (cache s) \<and>
      (use_cas (settings (cache s)) \<longrightarrow> 0 < ITEM_get_cas (heap (cache s) a) \<and> ITEM_get_cas (heap (cache s) a) \<le> cas_id (cache s))"
  shows "\<exists>s'. process_command L lim line s = Some s' \<and> answered (ascii ''OK'') nr (cl s') \<and> cinv (cache s') F Q \<and>
    cache_view (cache s') = cache_view (cache s) \<and> (\<forall>k. lookup (cache s') k = None) \<and>
    (use_cas (settings (cache s)) \<longrightarrow> (\<forall>a i. cas_id (cache s') < ITEM_get_cas i \<and> i_time i = current_time (cache s) \<and> exptime i = 0 \<longrightarrow>
      item_live ((cache s')\<lparr>heap := (heap (cache s'))(a := i)\<rparr>) a))"
proof -
  have "length (words line) \<le> 7" using assms(6) by simp
  from process_command_start [OF assms(1,5) refl this] obtain l d where l: "process_command L lim line s = dispatch_command L lim l (s\<lparr>cl := d\<rparr>)"
    "conn_ready d" "same_conn (cl s) d" "ntokens l = length (words line) + 1"
    "\<forall>i < length (words line). arg i l = Some (words line ! i) \<and> token_text (fst l) (snd l ! i) = words line ! i \<and> snd (snd l ! i) = length (words line ! i)"
    "words line \<noteq> [] \<longrightarrow> (\<forall>b. set_noreply_maybe (fst l) (snd l) b = (b \<or> last (words line) = noreply_word))" by metis
  have n: "ntokens l = (if nr then 3 else 2)" using l(4) assms(6) by simp
  have a0: "arg 0 l = Some (ascii ''flush_all'')" using l(5) assms(6) by auto
  have nd: "\<not> noreply d" using l(3) assms(2) by (simp add: same_conn_def)
  let ?d = "if nr then d\<lparr>noreply := True\<rparr> else d"
  let ?t = "upd_sstats (\<lambda>t. t\<lparr>flush_cmds := flush_cmds t + 1\<rparr>) (s\<lparr>cl := ?d\<rparr>)"
  have nm: "noreply_maybe l (s\<lparr>cl := d\<rparr>) = s\<lparr>cl := ?d\<rparr>"
    using nd l(6) assms(6) by (cases nr) (simp_all add: noreply_maybe_def noreply_word_ascii)
  have t: "cache ?t = cache s" "cl ?t = ?d" "sset ?t = sset s" by (simp_all add: upd_sstats_def)
  have "dispatch_command L lim l (s\<lparr>cl := d\<rparr>) = process_flush_all L lim l (s\<lparr>cl := d\<rparr>)"
    using a0 n by (simp add: dispatch_command_def store_word_def)
  also have "\<dots> = reply lim ''OK'' (flush_from (current_time (cache s)) ?t)"
    using n nd assms(4) t by (cases nr) (simp_all add: process_flush_all_def nm)
  finally have p: "process_command L lim line s = reply lim ''OK'' (flush_from (current_time (cache s)) ?t)" using l(1) by simp
  have "cl (flush_from (current_time (cache s)) ?t) = ?d" by (simp add: flush_from_def upd_sstats_def Let_def split: prod.splits)
  moreover have "conn_ready ?d" using l(2) by (simp add: conn_ready_def allocs_ok_def)
  ultimately obtain c where c: "process_command L lim line s = Some ((flush_from (current_time (cache s)) ?t)\<lparr>cl := c\<rparr>)" "answered (ascii ''OK'') nr c"
    using reply_ok [of "flush_from (current_time (cache s)) ?t" "''OK''" lim] p nd by (cases nr) auto
  have pos: "0 < current_time (cache s)" using assms(7) by unat_arith
  note fl = flush_from_lookup [where s = ?t, unfolded t(1), OF assms(3) pos _ assms(8)]
  show ?thesis using c fl assms(7,9) by (auto simp: cache_view_def fun_eq_iff)
qed

section \<open>Unchecked arguments\<close>

text \<open>\<^verbatim>\<open>lru mode\<close> without an argument passes the three-token check, as the terminal token is counted, and compares NULL with a string.\<close>

lemma lru_mode_null_argument:
  assumes "conn_ready (cl s)" "lru_maintainer_thread (sset s)" "0 \<notin> set line" "words line = [ascii ''lru'', ascii sub]" "sub \<in> {''mode'', ''temp_ttl''}"
  shows "process_command L lim line s = None"
proof -
  have "length (words line) \<le> 7" using assms(4) by simp
  from process_command_start [OF assms(1,3) refl this] obtain l d where l: "process_command L lim line s = dispatch_command L lim l (s\<lparr>cl := d\<rparr>)"
    "ntokens l = length (words line) + 1"
    "\<forall>i < length (words line). arg i l = Some (words line ! i) \<and> token_text (fst l) (snd l ! i) = words line ! i \<and> snd (snd l ! i) = length (words line ! i)"
    "length (words line) < 7 \<longrightarrow> arg (length (words line)) l = None" by metis
  have a: "arg 0 l = Some (ascii ''lru'')" "arg 1 l = Some (ascii sub)" "arg 2 l = None" "ntokens l = 3"
    using l(2-4) assms(4) by (auto simp: numeral_2_eq_2 all_conj_distrib)
  have "dispatch_command L lim l (s\<lparr>cl := d\<rparr>) = process_lru_command L lim l (s\<lparr>cl := d\<rparr>)"
    using a by (simp add: dispatch_command_def store_word_def)
  also have "\<dots> = None" using a assms(2) assms(5) by (elim insertE emptyE) (simp_all add: process_lru_command_def noreply_maybe_def)
  finally show ?thesis using l(1) by simp
qed

text \<open>\<^verbatim>\<open>lru tune\<close> adds the percentages in 32 bits, so \<^verbatim>\<open>lru tune 4294967295 1 ...\<close> is accepted, and the first becomes -1 as an int.\<close>

lemma lru_tune_wraps:
  assumes "arg 2 l = Some h" "arg 3 l = Some w" "arg 4 l = Some a" "arg 5 l = Some b"
    and "safe_strtoul L h = Some 4294967295" "safe_strtoul L w = Some 1" "safe_strtod L a = Some x" "safe_strtod L b = Some y"
    and "\<not> double_le_zero x" "\<not> double_le_zero y" "conn_ready (cl s)"
  shows "\<exists>s'. lru_tune L lim l s = Some s' \<and> hot_lru_pct (settings (cache s')) = - 1"
  using reply_ok [of "(upd_settings (\<lambda>t. t\<lparr>hot_lru_pct := scast (4294967295 :: u32), warm_lru_pct := 1\<rparr>) s)\<lparr>sset := (sset s)\<lparr>hot_max_factor := x, warm_max_factor := y\<rparr>\<rparr>" "''OK''" lim] assms
  by (auto simp: lru_tune_def upd_settings_def)

section \<open>Example server\<close>

definition ex_lib :: lib where
  "ex_lib = \<lparr>safe_strtol = (\<lambda>a. map_option uint (safe_strtoull a)), safe_strtoul = (\<lambda>a. map_option ucast (safe_strtoull a)), safe_strtod = (\<lambda>_. None),
     realtime = (\<lambda>e now. if e = 0 then 0 else of_int e + now), REALTIME_MAXDELTA = 60 * 60 * 24 * 30, VERSION = ascii ''1.5.4'',
     item_size_ok = (\<lambda>_ _ _ _. True), limited_get = (\<lambda>k e touch m. if touch then item_touch k e m else item_get k True m),
     expand_ilist = (\<lambda>_ s. (True, s)), get_suffix_buf = (\<lambda>_ s. (64, s)), make_ascii_get_suffix = (\<lambda>_ _ _. CRLF),
     add_chunked_item_iovs = (\<lambda>_ _ s. Some (True, s)), build_udp_headers = (\<lambda>s. (True, s)), logger_add_watcher = (\<lambda>_ _. LOGGER_ADD_WATCHER_OK),
     crawl = (\<lambda>_ _ _ s. (CRAWLER_NOTSTARTED, s)), start_crawler = (\<lambda>s. (True, s)), stop_crawler = (\<lambda>s. (True, s)), rebalance_busy = False,
     collect_stats = (\<lambda>_ _. Some []), stats_reset = id, item_cachedump = (\<lambda>_ _ _. None)\<rparr>"

definition ex_server :: "cache \<Rightarrow> server" where
  "ex_server m = \<lparr>cl = ex_client\<lparr>wbuf := replicate 128 0\<rparr>, citem = NULL, ritem = In_rbuf 0, ilist = [], suffixlist = [],
     suffix_cache = \<lparr>c_ptr = [], bufsize = 40, freetotal = 0, freecurr = 0, ctor = None, dtor = False, c_words = (\<lambda>_. 0), c_mallocs = [],
       realloc_ok = True, destroyed = [], released = []\<rparr>,
     write_and_free = None, sbuf = \<lparr>sb_buffer = None, sb_size = 0, sb_offset = 0, sb_allocs = []\<rparr>, cache = m,
     sset = \<lparr>verbose = 0, flush_enabled = True, detail_enabled = False, dump_enabled = True, shutdown_command = False, lru_maintainer_thread = True,
       lru_crawler = False, lru_crawler_tocrawl = 0, lru_crawler_sleep = 100, hot_max_factor = Finite 1 0, warm_max_factor = Finite 1 0,
       slab_automove_ratio = Finite 1 0, prefix_delimiter = 58\<rparr>,
     sstats = \<lparr>get_cmds = 0, get_misses = 0, touch_cmds = 0, touch_misses = 0, delete_misses = 0, incr_misses = 0, decr_misses = 0, flush_cmds = 0,
       set_cmds = (\<lambda>_. 0), touch_hits = (\<lambda>_. 0), delete_hits = (\<lambda>_. 0), lru_hits = (\<lambda>_. 0)\<rparr>,
     prefixes = ex_prefixes, erange = False, signalled = False\<rparr>"

lemma ex_server_simps [simp]:
  "cache (ex_server m) = m" "conn_ready (cl (ex_server m))" "noreply (cl (ex_server m)) = False" "flush_enabled (sset (ex_server m))"
  "transport (cl (ex_server m)) = tcp_transport" "lru_maintainer_thread (sset (ex_server m))"
  by (simp_all add: ex_server_def conn_ready_def ex_client_def allocs_ok_def)

lemma ex_reb_fields: "settings ex_reb = ex_settings\<lparr>slab_page_size := 1024, slab_chunk_size_max := 512\<rparr>" "current_time ex_reb = 100"
  "item_locks ex_reb = (\<lambda>_. False)" "hash ex_reb = (\<lambda>k. word_of_nat (sum_list (map unat k)))" "cas_id ex_reb = 7"
  by (simp_all add: ex_reb_defs)

text \<open>A cache with the value \<^verbatim>\<open>1\<close> stored under the key 6.\<close>

lemma ex_linked_server:
  obtains m F Q where "do_item_link 100 6 ex_reb = Some m" "cinv m F Q" "assoc_map m [6] = Some 100" "lookup m [6] = Some 100" "refcount (heap m 100) = 1"
    "lru_items Q = {100}" "item_locks m = (\<lambda>_. False)" "settings m = settings ex_reb" "current_time m = 100" "cas_id m = 8" "i_time (heap m 100) = 100"
    "ITEM_get_cas (heap m 100) = 8" "hash m = hash ex_reb" "exptime (heap m 100) = 0" "item_value (heap m 100) = ([49, 13, 10], 3, 0, 8)"
proof -
  let ?F = "(\<lambda>_. [])(1 := [400 :: addr])"
  have hk: "item_key (heap ex_reb 100) = [6]" "6 = hash ex_reb (item_key (heap ex_reb 100))" by (simp_all add: item_key_def ex_reb_defs ex_cache_item_def)
  have fi: "free_items ?F = {400}" by (auto simp: free_items_def split: if_splits)
  have l: "linkable ex_reb ?F 100"
    unfolding linkable_def fi by (simp add: ex_reb_defs ex_cache_item_def zero_item_def key_wf_def valid_cls_def ITEM_clsid_def CLEAR_LRU_def)
  have "assoc_items ex_reb = {}" using ex_reb_cinv by (simp add: cinv_def lru_items_def)
  then have fr: "assoc_map ex_reb (item_key (heap ex_reb 100)) = None" by (auto simp: assoc_items_def ran_def) (metis option.exhaust)
  have h: "heap ex_reb 100 = (ex_cache_item [6] [49, 13, 10] 0)\<lparr>refcount := 0\<rparr>" by (simp add: ex_reb_defs)
  let ?Q = "(\<lambda>_. [])(slabs_clsid (heap ex_reb 100) := [100])"
  obtain s where s: "do_item_link 100 6 ex_reb = Some s" "cinv s ?F ?Q" "assoc_map s = (assoc_map ex_reb)([6] \<mapsto> 100)"
    "strip (heap s 100) = strip ((linked_item 100 ex_reb)\<lparr>refcount := refcount (heap ex_reb 100) + 1\<rparr>)"
    "env s = env (ex_reb\<lparr>cas_id := cas_id s\<rparr>)" "link_cas 100 ex_reb \<noteq> 0 \<longrightarrow> link_cas 100 ex_reb = cas_id s"
    using do_item_link_correct [OF ex_reb_cinv l hk(2) fr] hk(1) by auto
  have lc: "link_cas 100 ex_reb = 8" by (simp add: link_cas_def h ex_reb_fields ex_settings_def ex_cache_item_def)
  note f = strip_fields [OF s(4)]
  have e: "settings s = settings ex_reb" "current_time s = 100" "item_locks s = (\<lambda>_. False)" "hash s = hash ex_reb" "cas_id s = 8"
    using s(5,6) lc by (simp_all add: env_def ex_reb_fields)
  have i: "refcount (heap s 100) = 1" "i_time (heap s 100) = 100" "exptime (heap s 100) = 0" "i_data (heap s 100) = [49, 13, 10]" "nbytes (heap s 100) = 3"
    using f by (simp_all add: h ex_reb_fields ex_cache_item_def)
  have ca: "ITEM_get_cas (heap s 100) = 8"
    using f(10) lc by (simp add: ITEM_get_cas_def linked_item_def ITEM_set_cas_def h ex_cache_item_def item_flag_defs has_flag_def set_flag_def)
  have m: "assoc_map s [6] = Some 100" using s(3) by simp
  have "lookup s [6] = Some 100" using m e i by (simp add: lookup_def item_live_def ex_reb_fields ex_settings_def)
  moreover have "lru_items ?Q = {100}" by (auto simp: lru_items_def split: if_splits)
  ultimately show ?thesis using that [OF s(1,2) m] e i ca by (simp add: item_value_def)
qed

lemma lock_free_ex: "item_locks m = (\<lambda>_. False) \<Longrightarrow> lock_free m k" by (simp add: lock_free_def)

theorem delete_command_spec_witness:
  "\<exists>m s'. do_item_link 100 6 ex_reb = Some m \<and> process_command ex_lib ex_limits (ascii ''delete  '' @ [6]) (ex_server m) = Some s' \<and>
     cache_view m [6] \<noteq> None \<and> cache_view (cache s') [6] = None \<and> answered (ascii ''DELETED'') False (cl s')"
proof -
  obtain m F Q where m: "do_item_link 100 6 ex_reb = Some m" "cinv m F Q" "assoc_map m [6] = Some 100" "lookup m [6] = Some 100" "refcount (heap m 100) = 1"
    "item_locks m = (\<lambda>_. False)" by (rule ex_linked_server)
  have w: "words (ascii ''delete  '' @ [6]) = [ascii ''delete'', [6]] @ (if False then [noreply_word] else [])" "0 \<notin> set (ascii ''delete  '' @ [6 :: 8 word])"
    by (simp_all add: ascii_def)
  have "cache_inv (cache (ex_server m))" using m(2) by (auto simp: cache_inv_def)
  moreover have "cache_view m [6] \<noteq> None" by (simp add: cache_view_def m(3))
  ultimately show ?thesis using delete_command_spec [OF _ _ _ _ _ w(2,1), where L = ex_lib and lim = ex_limits and s = "ex_server m"] m(1) lock_free_ex [OF m(6)] m(3-5)
    by auto
qed

theorem flush_all_hides_witness:
  "\<exists>m s'. do_item_link 100 6 ex_reb = Some m \<and> process_command ex_lib ex_limits (ascii ''flush_all'') (ex_server m) = Some s' \<and>
     lookup m [6] = Some 100 \<and> lookup (cache s') [6] = None"
proof -
  obtain m F Q where m: "do_item_link 100 6 ex_reb = Some m" "cinv m F Q" "lookup m [6] = Some 100" "lru_items Q = {100}" "current_time m = 100" "cas_id m = 8"
    "i_time (heap m 100) = 100" "ITEM_get_cas (heap m 100) = 8" by (rule ex_linked_server)
  have w: "words (ascii ''flush_all'') = [ascii ''flush_all''] @ (if False then [noreply_word] else [])" "0 \<notin> set (ascii ''flush_all'' :: bytes)"
    by (simp_all add: ascii_def)
  show ?thesis using flush_all_hides [where L = ex_lib and lim = ex_limits and s = "ex_server m" and F = F and Q = Q, OF _ _ _ _ w(2,1)] m by auto
qed

end
