(* ===== verification/Bin_Commands.thy ===== *)
theory Bin_Commands
  imports Commands_Spec
begin

text \<open>
  The binary protocol, \<^verbatim>\<open>thread/memcached.c\<close>: dispatch of a request header, reading of its extras and key, and the handlers that run when they have
  arrived. A \<open>session\<close> is a \<open>server\<close> with the request header and the state of the binary protocol.

  \<^verbatim>\<open>binary_get_key\<close> and \<^verbatim>\<open>binary_get_request\<close> are called and not contained in the sources; they are fields of a \<open>bin_lib\<close> and give positions in the
  read buffer. So are the calls of the SASL library. The byte order is that of a little-endian host, where \<^verbatim>\<open>ntohl\<close> reverses the bytes of a word, also of one
  that is converted in place. \<^verbatim>\<open>PROTOCOL_BINARY_CMD_X\<close> is written \<open>CMD_X\<close>.
\<close>

section \<open>State\<close>

datatype bin_substates =
  bin_no_state | bin_reading_set_header | bin_reading_cas_header | bin_read_set_value | bin_reading_get_key | bin_reading_stat
  | bin_reading_del_header | bin_reading_incr_header | bin_read_flush_exptime | bin_reading_sasl_auth | bin_reading_sasl_auth_data
  | bin_reading_touch_key

record request_header =
  magic :: u8
  extlen :: u8
  keylen :: u16
  bodylen :: u32
  req_cas :: u64

record session =
  srv :: server
  binary_header :: request_header
  substate :: bin_substates
  c_keylen :: int
  sasl :: bool
  sasl_conn :: bool
  auth_done :: bool
  auth_cmds :: u64
  auth_errors :: u64

datatype sasl_result = SASL_OK | SASL_CONTINUE bytes | SASL_FAIL

record bin_lib =
  binary_get_key :: "request_header \<Rightarrow> client \<Rightarrow> nat"
  binary_get_request :: "request_header \<Rightarrow> client \<Rightarrow> nat"
  sasl_server_new :: bool
  sasl_listmech :: "bytes option"
  sasl_server_start :: "bytes \<Rightarrow> bytes option \<Rightarrow> sasl_result"
  sasl_server_step :: "bytes option \<Rightarrow> sasl_result"

abbreviation (input) PROTOCOL_BINARY_REQ :: u8 where "PROTOCOL_BINARY_REQ \<equiv> 128"
abbreviation (input) MAX_SASL_MECH_LEN :: int where "MAX_SASL_MECH_LEN \<equiv> 32"

abbreviation (input) CMD_GET :: int where "CMD_GET \<equiv> 0"
abbreviation (input) CMD_SET :: int where "CMD_SET \<equiv> 1"
abbreviation (input) CMD_ADD :: int where "CMD_ADD \<equiv> 2"
abbreviation (input) CMD_REPLACE :: int where "CMD_REPLACE \<equiv> 3"
abbreviation (input) CMD_DELETE :: int where "CMD_DELETE \<equiv> 4"
abbreviation (input) CMD_INCREMENT :: int where "CMD_INCREMENT \<equiv> 5"
abbreviation (input) CMD_DECREMENT :: int where "CMD_DECREMENT \<equiv> 6"
abbreviation (input) CMD_QUIT :: int where "CMD_QUIT \<equiv> 7"
abbreviation (input) CMD_FLUSH :: int where "CMD_FLUSH \<equiv> 8"
abbreviation (input) CMD_GETQ :: int where "CMD_GETQ \<equiv> 9"
abbreviation (input) CMD_NOOP :: int where "CMD_NOOP \<equiv> 10"
abbreviation (input) CMD_VERSION :: int where "CMD_VERSION \<equiv> 11"
abbreviation (input) CMD_GETK :: int where "CMD_GETK \<equiv> 12"
abbreviation (input) CMD_GETKQ :: int where "CMD_GETKQ \<equiv> 13"
abbreviation (input) CMD_APPEND :: int where "CMD_APPEND \<equiv> 14"
abbreviation (input) CMD_PREPEND :: int where "CMD_PREPEND \<equiv> 15"
abbreviation (input) CMD_STAT :: int where "CMD_STAT \<equiv> 16"
abbreviation (input) CMD_SETQ :: int where "CMD_SETQ \<equiv> 17"
abbreviation (input) CMD_ADDQ :: int where "CMD_ADDQ \<equiv> 18"
abbreviation (input) CMD_REPLACEQ :: int where "CMD_REPLACEQ \<equiv> 19"
abbreviation (input) CMD_DELETEQ :: int where "CMD_DELETEQ \<equiv> 20"
abbreviation (input) CMD_INCREMENTQ :: int where "CMD_INCREMENTQ \<equiv> 21"
abbreviation (input) CMD_DECREMENTQ :: int where "CMD_DECREMENTQ \<equiv> 22"
abbreviation (input) CMD_QUITQ :: int where "CMD_QUITQ \<equiv> 23"
abbreviation (input) CMD_FLUSHQ :: int where "CMD_FLUSHQ \<equiv> 24"
abbreviation (input) CMD_APPENDQ :: int where "CMD_APPENDQ \<equiv> 25"
abbreviation (input) CMD_PREPENDQ :: int where "CMD_PREPENDQ \<equiv> 26"
abbreviation (input) CMD_TOUCH :: int where "CMD_TOUCH \<equiv> 28"
abbreviation (input) CMD_GAT :: int where "CMD_GAT \<equiv> 29"
abbreviation (input) CMD_GATQ :: int where "CMD_GATQ \<equiv> 30"
abbreviation (input) CMD_SASL_LIST_MECHS :: int where "CMD_SASL_LIST_MECHS \<equiv> 32"
abbreviation (input) CMD_SASL_AUTH :: int where "CMD_SASL_AUTH \<equiv> 33"
abbreviation (input) CMD_SASL_STEP :: int where "CMD_SASL_STEP \<equiv> 34"
abbreviation (input) CMD_GATK :: int where "CMD_GATK \<equiv> 35"
abbreviation (input) CMD_GATKQ :: int where "CMD_GATKQ \<equiv> 36"

section \<open>Helpers\<close>

definition on_srv :: "(server \<Rightarrow> server option) \<Rightarrow> session \<Rightarrow> session option" where
  "on_srv f x = map_option (\<lambda>s. x\<lparr>srv := s\<rparr>) (f (srv x))"

definition on_cl :: "(client \<Rightarrow> client option) \<Rightarrow> session \<Rightarrow> session option" where
  "on_cl f x = on_srv (\<lambda>s. map_option (\<lambda>c. s\<lparr>cl := c\<rparr>) (f (cl s))) x"

definition upd_cl :: "(client \<Rightarrow> client) \<Rightarrow> session \<Rightarrow> session" where
  "upd_cl f x = x\<lparr>srv := (srv x)\<lparr>cl := f (cl (srv x))\<rparr>\<rparr>"

definition count :: "(command_stats \<Rightarrow> command_stats) \<Rightarrow> session \<Rightarrow> session" where
  "count f x = x\<lparr>srv := upd_sstats f (srv x)\<rparr>"

definition sess_ptr :: "(cache \<Rightarrow> (addr \<times> cache) option) \<Rightarrow> session \<Rightarrow> (addr \<times> session) option" where
  "sess_ptr f x = map_option (\<lambda>(p, s). (p, x\<lparr>srv := s\<rparr>)) (cache_ptr f (srv x))"

definition go :: "conn_states \<Rightarrow> session \<Rightarrow> session" where
  "go st x = upd_cl (\<lambda>c. c\<lparr>write_and_go := st\<rparr>) x"

text \<open>Bytes of the read buffer; an access outside it is undefined.\<close>

definition rbuf_at :: "nat \<Rightarrow> nat \<Rightarrow> client \<Rightarrow> bytes option" where
  "rbuf_at off n c = (if off + n \<le> length (rbuf c) then Some (take n (drop off (rbuf c))) else None)"

text \<open>\<^verbatim>\<open>x = ntohl(x)\<close> and \<^verbatim>\<open>x = ntohll(x)\<close> for a field at \<open>off\<close> in the buffer: the bytes are reversed where they are.\<close>

definition fix_order :: "nat \<Rightarrow> nat \<Rightarrow> client \<Rightarrow> (bytes \<times> client) option" where
  "fix_order off n c = do {
     bs \<leftarrow> rbuf_at off n c;
     Some (bs, c\<lparr>rbuf := take off (rbuf c) @ rev bs @ drop (off + n) (rbuf c)\<rparr>)
   }"

definition req_key :: "bin_lib \<Rightarrow> session \<Rightarrow> bytes option" where
  "req_key B x = (let h = binary_header x; c = cl (srv x) in rbuf_at (binary_get_key B h c) (unat (keylen h)) c)"

definition req_pos :: "bin_lib \<Rightarrow> session \<Rightarrow> nat" where
  "req_pos B x = binary_get_request B (binary_header x) (cl (srv x))"

definition bin_error :: "limits \<Rightarrow> protocol_binary_response_status \<Rightarrow> int \<Rightarrow> session \<Rightarrow> session option" where
  "bin_error lim err swallow x = on_cl (write_bin_error lim err None swallow) x"

definition bin_response :: "limits \<Rightarrow> bytes \<Rightarrow> session \<Rightarrow> session option" where
  "bin_response lim d x = on_cl (write_bin_response lim d 0 0) x"

definition bin_nomem :: "limits \<Rightarrow> string \<Rightarrow> session \<Rightarrow> session option" where
  "bin_nomem lim str x = on_cl (out_of_memory lim (ascii str)) x"

definition sess_state :: "conn_states \<Rightarrow> session \<Rightarrow> session option" where
  "sess_state st x = on_cl (conn_set_state st) x"

text \<open>A value in the body of the response under construction, behind its header in \<^verbatim>\<open>wbuf\<close>.\<close>

definition put_body :: "bytes \<Rightarrow> session \<Rightarrow> session option" where
  "put_body bs x = on_cl (\<lambda>c. map_option (\<lambda>wb. c\<lparr>wbuf := wb\<rparr>) (buf_write 24 bs (wbuf c))) x"

section \<open>Increment and decrement\<close>

text \<open>A missing counter is created with the initial value, unless its expiration is \<^verbatim>\<open>0xffffffff\<close>.\<close>

definition incr_create :: "lib \<Rightarrow> limits \<Rightarrow> bytes \<Rightarrow> u64 \<Rightarrow> u32 \<Rightarrow> session \<Rightarrow> session option" where
  "incr_create L lim key initial expiration x = do {
     x \<leftarrow> put_body (be64 initial) x;
     let tmpbuf = print_nat (unat initial);
     let res = int (length tmpbuf);
     (it, x) \<leftarrow> sess_ptr (\<lambda>m. item_alloc key 0 (realtime L (uint expiration) (current_time m)) (res + 2) m) x;
     (if it \<noteq> NULL then do {
        x \<leftarrow> on_srv (on_cache (\<lambda>m. Some (upd_item it (\<lambda>i. i\<lparr>i_data := data_write 0 (tmpbuf @ CRLF) (i_data i)\<rparr>) m))) x;
        (ret, c, m) \<leftarrow> store_item it NREAD_ADD \<lparr>sfd = 0, c_cas = cas (cl (srv x))\<rparr> (cache (srv x));
        let x = upd_cl (\<lambda>k. k\<lparr>cas := c_cas c\<rparr>) (x\<lparr>srv := (srv x)\<lparr>cache := m\<rparr>\<rparr>);
        x \<leftarrow> (if ret \<noteq> NOT_STORED
             then bin_response lim (be64 initial) (upd_cl (\<lambda>k. k\<lparr>cas := ITEM_get_cas (heap m it)\<rparr>) x)
             else bin_error lim RESPONSE_NOT_STORED 0 x);
        on_srv (on_cache (item_remove it)) x
      }
      else bin_nomem lim ''SERVER_ERROR Out of memory allocating new item'' x)
   }"

definition complete_incr_bin :: "lib \<Rightarrow> bin_lib \<Rightarrow> limits \<Rightarrow> session \<Rightarrow> session option" where
  "complete_incr_bin L B lim x = do {
     let req = req_pos B x;
     c_assert (32 \<le> length (wbuf (cl (srv x))));
     (d, c) \<leftarrow> fix_order (req + 24) 8 (cl (srv x));
     (i, c) \<leftarrow> fix_order (req + 32) 8 c;
     (e, c) \<leftarrow> fix_order (req + 40) 4 c;
     let x = upd_cl (\<lambda>_. c) x;
     let delta = dec64 d;
     let initial = dec64 i;
     let expiration = dec32 e;
     let incr = (cmd c = CMD_INCREMENT);
     key \<leftarrow> req_key B x;
     (ret, tmpbuf, v, m) \<leftarrow> add_delta key incr delta [] (Some (req_cas (binary_header x))) (cache (srv x));
     let x = x\<lparr>srv := (srv x)\<lparr>cache := m\<rparr>\<rparr>;
     (case ret of
        OK \<Rightarrow> do {
          let val = be64 (fst (c_strtoull tmpbuf));
          x \<leftarrow> put_body val x;
          let x = (case v of Some u \<Rightarrow> if u \<noteq> 0 then upd_cl (\<lambda>k. k\<lparr>cas := u\<rparr>) x else x | None \<Rightarrow> x);
          bin_response lim val x
        }
      | NON_NUMERIC \<Rightarrow> bin_error lim DELTA_BADVAL 0 x
      | EOM \<Rightarrow> bin_nomem lim ''SERVER_ERROR Out of memory incrementing value'' x
      | DELTA_ITEM_NOT_FOUND \<Rightarrow>
          (if expiration \<noteq> - 1 then incr_create L lim key initial expiration x
           else bin_error lim KEY_ENOENT 0
             (count (\<lambda>t. if incr then t\<lparr>incr_misses := incr_misses t + 1\<rparr> else t\<lparr>decr_misses := decr_misses t + 1\<rparr>) x))
      | DELTA_ITEM_CAS_MISMATCH \<Rightarrow> bin_error lim KEY_EEXISTS 0 x)
   }"

section \<open>Storage commands\<close>

text \<open>The CR LF that ends a stored value and that a binary client does not send.\<close>

definition add_crlf :: "session \<Rightarrow> session option" where
  "add_crlf x =
     (let s = srv x; h = heap (cache s); it = citem s
      in if \<not> has_flag (it_flags (h it)) ITEM_CHUNKED
         then on_srv (on_cache (\<lambda>m. Some (upd_item it (\<lambda>i. i\<lparr>i_data := data_write (nat (nbytes i - 2)) CRLF (i_data i)\<rparr>) m))) x
         else do {
           ch \<leftarrow> (case ritem s of In_chunk a \<Rightarrow> Some a | _ \<Rightarrow> None);
           c_assert (ch \<noteq> NULL);
           let ch = (if ch_size (h ch) = ch_used (h ch) then i_next (h ch) else ch);
           c_assert (2 \<le> ch_size (h ch) - ch_used (h ch));
           on_srv (on_cache (\<lambda>m. Some (upd_item ch
             (\<lambda>i. i\<lparr>i_data := data_write (nat (ch_used i)) CRLF (i_data i), ch_used := ch_used i + 2\<rparr>) m))) x
         })"

definition complete_update_bin :: "limits \<Rightarrow> session \<Rightarrow> session option" where
  "complete_update_bin lim x = do {
     let it = citem (srv x);
     let x = count (\<lambda>t. t\<lparr>set_cmds := bump (ITEM_clsid (heap (cache (srv x)) it)) (set_cmds t)\<rparr>) x;
     x \<leftarrow> add_crlf x;
     comm \<leftarrow> comm_of_code (cmd (cl (srv x)));
     (ret, c, m) \<leftarrow> store_item it comm \<lparr>sfd = 0, c_cas = cas (cl (srv x))\<rparr> (cache (srv x));
     let x = upd_cl (\<lambda>k. k\<lparr>cas := c_cas c\<rparr>) (x\<lparr>srv := (srv x)\<lparr>cache := m\<rparr>\<rparr>);
     x \<leftarrow> (case ret of
             STORED \<Rightarrow> bin_response lim [] x
           | EXISTS \<Rightarrow> bin_error lim KEY_EEXISTS 0 x
           | NOT_FOUND \<Rightarrow> bin_error lim KEY_ENOENT 0 x
           | _ \<Rightarrow> bin_error lim (if comm = NREAD_ADD then KEY_EEXISTS else if comm = NREAD_REPLACE then KEY_ENOENT else RESPONSE_NOT_STORED) 0 x);
     x \<leftarrow> on_srv (on_cache (item_remove (citem (srv x)))) x;
     Some (x\<lparr>srv := (srv x)\<lparr>citem := NULL\<rparr>\<rparr>)
   }"

text \<open>The data of the item is read next.\<close>

definition await_value :: "addr \<Rightarrow> int \<Rightarrow> bin_substates \<Rightarrow> session \<Rightarrow> session option" where
  "await_value it vlen st x = do {
     let x = x\<lparr>srv := (srv x)\<lparr>citem := it, ritem := item_ptr it (heap (cache (srv x)) it)\<rparr>\<rparr>;
     x \<leftarrow> sess_state conn_nread (upd_cl (\<lambda>c. c\<lparr>rlbytes := vlen\<rparr>) x);
     Some (x\<lparr>substate := st\<rparr>)
   }"

definition process_bin_update :: "lib \<Rightarrow> bin_lib \<Rightarrow> limits \<Rightarrow> session \<Rightarrow> session option" where
  "process_bin_update L B lim x = do {
     let req = req_pos B x;
     (f, c) \<leftarrow> fix_order (req + 24) 4 (cl (srv x));
     (e, c) \<leftarrow> fix_order (req + 28) 4 c;
     let x = upd_cl (\<lambda>_. c) x;
     let flags = dec32 f;
     let expiration = dec32 e;
     let h = binary_header x;
     key \<leftarrow> req_key B x;
     let vlen = sint (bodylen h - (ucast (keylen h) + ucast (extlen h)));
     let x = x\<lparr>srv := record_prefix stats_prefix_record_set key (srv x)\<rparr>;
     (it, x) \<leftarrow> sess_ptr (\<lambda>m. item_alloc key flags (realtime L (uint expiration) (current_time m)) (vlen + 2) m) x;
     (if it = NULL then do {
        x \<leftarrow> (if \<not> item_size_ok L (length key) flags (vlen + 2) (cache (srv x)) then bin_error lim E2BIG vlen x
             else do {
               x \<leftarrow> bin_nomem lim ''SERVER_ERROR Out of mmeory allocating item'' x;
               Some (upd_cl (\<lambda>c. c\<lparr>sbytes := vlen\<rparr>) x)
             });
        x \<leftarrow> (if cmd c = CMD_SET then on_srv (drop_stale key) x else Some x);
        Some (go conn_swallow x)
      }
      else do {
        x \<leftarrow> on_srv (on_cache (\<lambda>m. Some (upd_item it (ITEM_set_cas (req_cas h)) m))) x;
        comm \<leftarrow> (if cmd c = CMD_ADD then Some NREAD_ADD else if cmd c = CMD_SET then Some NREAD_SET
                else if cmd c = CMD_REPLACE then Some NREAD_REPLACE else None);
        let comm = (if ITEM_get_cas (heap (cache (srv x)) it) \<noteq> 0 then NREAD_CAS else comm);
        await_value it vlen bin_read_set_value (upd_cl (\<lambda>c. c\<lparr>cmd := comm_code comm\<rparr>) x)
      })
   }"

definition process_bin_append_prepend :: "lib \<Rightarrow> bin_lib \<Rightarrow> limits \<Rightarrow> session \<Rightarrow> session option" where
  "process_bin_append_prepend L B lim x = do {
     let h = binary_header x;
     key \<leftarrow> req_key B x;
     let vlen = sint (bodylen h - ucast (keylen h));
     let x = x\<lparr>srv := record_prefix stats_prefix_record_set key (srv x)\<rparr>;
     (it, x) \<leftarrow> sess_ptr (item_alloc key 0 0 (vlen + 2)) x;
     (if it = NULL then do {
        x \<leftarrow> (if \<not> item_size_ok L (length key) 0 (vlen + 2) (cache (srv x)) then bin_error lim E2BIG vlen x
             else do {
               x \<leftarrow> bin_nomem lim ''SERVER_ERROR Out of memory allocating item'' x;
               Some (upd_cl (\<lambda>c. c\<lparr>sbytes := vlen\<rparr>) x)
             });
        Some (go conn_swallow x)
      }
      else do {
        x \<leftarrow> on_srv (on_cache (\<lambda>m. Some (upd_item it (ITEM_set_cas (req_cas h)) m))) x;
        let k = cmd (cl (srv x));
        comm \<leftarrow> (if k = CMD_APPEND then Some NREAD_APPEND else if k = CMD_PREPEND then Some NREAD_PREPEND else None);
        await_value it vlen bin_read_set_value (upd_cl (\<lambda>c. c\<lparr>cmd := comm_code comm\<rparr>) x)
      })
   }"

section \<open>Get and touch\<close>

text \<open>
  The answer to a hit. \<^verbatim>\<open>rsp->message.header.response.cas\<close> is written into the queued header after \<^verbatim>\<open>add_bin_header\<close> has built it from \<^verbatim>\<open>c->cas\<close>; here the
  header is built with that value. Results of queueing are ignored, as in the code. Without external storage the answer cannot fail.
\<close>

definition bin_hit_reply :: "lib \<Rightarrow> limits \<Rightarrow> bool \<Rightarrow> bool \<Rightarrow> bytes \<Rightarrow> addr \<Rightarrow> session \<Rightarrow> session option" where
  "bin_hit_reply L lim return_key return_value key it x = do {
     let i = heap (cache (srv x)) it;
     let bodylen = 4 + (nbytes i - 2);
     let bodylen = (if cmd (cl (srv x)) = CMD_TOUCH then bodylen - (nbytes i - 2) else if return_key then bodylen + int (length key) else bodylen);
     let kl = (if cmd (cl (srv x)) \<noteq> CMD_TOUCH \<and> return_key then length key else 0);
     let old = cas (cl (srv x));
     x \<leftarrow> on_cl (add_bin_header lim 0 4 (of_nat kl) (of_int bodylen)) (upd_cl (\<lambda>c. c\<lparr>cas := ITEM_get_cas i\<rparr>) x);
     let x = upd_cl (\<lambda>c. c\<lparr>cas := old\<rparr>) x;
     let flags = be32 (suffix_flags (settings (cache (srv x))) i);
     x \<leftarrow> put_body flags x;
     x \<leftarrow> on_cl (\<lambda>c. map_option snd (add_iov lim flags c)) x;
     x \<leftarrow> (if return_key then on_cl (\<lambda>c. map_option snd (add_iov lim (item_key i) c)) x else Some x);
     x \<leftarrow> (if return_value then
            (if \<not> has_flag (it_flags i) ITEM_CHUNKED
             then on_cl (\<lambda>c. map_option snd (add_iov lim (data_read 0 (nat (nbytes i - 2)) (i_data i)) c)) x
             else on_srv (\<lambda>s. map_option snd (add_chunked_item_iovs L it (nbytes i - 2) s)) x)
          else Some x);
     x \<leftarrow> sess_state conn_mwrite x;
     Some ((go conn_new_cmd x)\<lparr>srv := (srv (go conn_new_cmd x))\<lparr>citem := it\<rparr>\<rparr>)
   }"

definition bin_miss_reply :: "limits \<Rightarrow> bool \<Rightarrow> bytes \<Rightarrow> session \<Rightarrow> session option" where
  "bin_miss_reply lim return_key key x =
     (if noreply (cl (srv x)) then sess_state conn_new_cmd x
      else on_cl (write_bin_miss_response lim (if return_key then key else [])) x)"

definition process_bin_get_or_touch :: "lib \<Rightarrow> bin_lib \<Rightarrow> limits \<Rightarrow> session \<Rightarrow> session option" where
  "process_bin_get_or_touch L B lim x = do {
     key \<leftarrow> req_key B x;
     let k = cmd (cl (srv x));
     let should_touch = (k = CMD_TOUCH \<or> k = CMD_GAT \<or> k = CMD_GATK);
     let return_key = (k = CMD_GETK \<or> k = CMD_GATK);
     (it, x) \<leftarrow>
       (if should_touch then do {
          e \<leftarrow> rbuf_at (req_pos B x + 24) 4 (cl (srv x));
          sess_ptr (\<lambda>m. item_touch key (realtime L (uint (dec32 e)) (current_time m)) m) x
        }
        else sess_ptr (item_get key True) x);
     x \<leftarrow>
       (if it \<noteq> NULL then do {
          let i = heap (cache (srv x)) it;
          let x = count (\<lambda>t. if should_touch then t\<lparr>touch_cmds := touch_cmds t + 1, touch_hits := bump (ITEM_clsid i) (touch_hits t)\<rparr>
                             else t\<lparr>get_cmds := get_cmds t + 1, lru_hits := bump (slabs_clsid i) (lru_hits t)\<rparr>) x;
          bin_hit_reply L lim return_key (k \<noteq> CMD_TOUCH) key it x
        }
        else do {
          let x = count (\<lambda>t. if should_touch then t\<lparr>touch_cmds := touch_cmds t + 1, touch_misses := touch_misses t + 1\<rparr>
                             else t\<lparr>get_cmds := get_cmds t + 1, get_misses := get_misses t + 1\<rparr>) x;
          bin_miss_reply lim return_key key x
        });
     Some (x\<lparr>srv := record_prefix (\<lambda>h d k. stats_prefix_record_get h d k (it \<noteq> NULL)) key (srv x)\<rparr>)
   }"

section \<open>Statistics\<close>

text \<open>\<^verbatim>\<open>strncmp\<close> with a string literal on memory that need not hold a terminator; \<^const>\<open>None\<close> if it reads over the end.\<close>

fun strn_eq :: "nat \<Rightarrow> bytes \<Rightarrow> bytes \<Rightarrow> bool option" where
  "strn_eq 0 lit mem = Some True"
| "strn_eq (Suc n) [] [] = None"
| "strn_eq (Suc n) [] (m # mem) = Some (m = 0)"
| "strn_eq (Suc n) (l # lit) [] = None"
| "strn_eq (Suc n) (l # lit) (m # mem) = (if l = m then strn_eq n lit mem else Some False)"

definition send_bin_stats :: "limits \<Rightarrow> string \<Rightarrow> session \<Rightarrow> session option" where
  "send_bin_stats lim nomem x =
     (case sb_buffer (sbuf (srv x)) of
        None \<Rightarrow> bin_nomem lim nomem x
      | Some b \<Rightarrow> do {
          x \<leftarrow> on_srv (\<lambda>s. write_and_free_buf lim (Some b) (sb_offset (sbuf s)) s) x;
          Some (x\<lparr>srv := (srv x)\<lparr>sbuf := (sbuf (srv x))\<lparr>sb_buffer := None\<rparr>\<rparr>\<rparr>)
        })"

text \<open>Append the terminating packet and start the transfer.\<close>

definition end_bin_stats :: "limits \<Rightarrow> session \<Rightarrow> session option" where
  "end_bin_stats lim x = do {
     x \<leftarrow> on_srv (add_stats [([], [])]) x;
     send_bin_stats lim ''SERVER_ERROR Out of memory preparing to send stats'' x
   }"

definition bin_stat_detail :: "limits \<Rightarrow> bytes \<Rightarrow> session \<Rightarrow> session option" where
  "bin_stat_detail lim mem x = do {
     dump \<leftarrow> strn_eq 5 (ascii ''dump'') mem;
     (if dump then do {
        (text, pf) \<leftarrow> stats_prefix_dump (prefixes (srv x));
        let x = x\<lparr>srv := (srv x)\<lparr>prefixes := pf\<rparr>\<rparr>;
        (case text of
           None \<Rightarrow> bin_nomem lim ''SERVER_ERROR Out of memory generating stats'' x
         | Some t \<Rightarrow>
             (if t = [] then bin_nomem lim ''SERVER_ERROR Out of memory generating stats'' x
              else do {
                x \<leftarrow> on_srv (add_stats [(ascii ''detailed'', t)]) x;
                end_bin_stats lim x
              }))
      }
      else do {
        on \<leftarrow> strn_eq 3 (ascii '' on'') mem;
        (if on then end_bin_stats lim (x\<lparr>srv := (srv x)\<lparr>sset := (sset (srv x))\<lparr>detail_enabled := True\<rparr>\<rparr>\<rparr>)
         else do {
           off \<leftarrow> strn_eq 4 (ascii '' off'') mem;
           (if off then end_bin_stats lim (x\<lparr>srv := (srv x)\<lparr>sset := (sset (srv x))\<lparr>detail_enabled := False\<rparr>\<rparr>\<rparr>)
            else bin_error lim KEY_ENOENT 0 x)
         })
      })
   }"

definition process_bin_stat :: "lib \<Rightarrow> bin_lib \<Rightarrow> limits \<Rightarrow> session \<Rightarrow> session option" where
  "process_bin_stat L B lim x = do {
     key \<leftarrow> req_key B x;
     let mem = drop (binary_get_key B (binary_header x) (cl (srv x))) (rbuf (cl (srv x)));
     (if keylen (binary_header x) = 0 then do {
        x \<leftarrow> on_srv (\<lambda>s. add_stats (case collect_stats L None s of None \<Rightarrow> [] | Some kvs \<Rightarrow> kvs) s) x;
        end_bin_stats lim x
      }
      else do {
        reset \<leftarrow> strn_eq 5 (ascii ''reset'') mem;
        (if reset then end_bin_stats lim (x\<lparr>srv := stats_reset L (srv x)\<rparr>)
         else do {
           sett \<leftarrow> strn_eq 8 (ascii ''settings'') mem;
           (if sett then do {
              x \<leftarrow> on_srv (\<lambda>s. add_stats (case collect_stats L (Some (ascii ''settings'')) s of None \<Rightarrow> [] | Some kvs \<Rightarrow> kvs) s) x;
              end_bin_stats lim x
            }
            else do {
              detail \<leftarrow> strn_eq 6 (ascii ''detail'') mem;
              (if detail then bin_stat_detail lim (drop 6 mem) x
               else (case collect_stats L (Some key) (srv x) of
                       None \<Rightarrow> bin_error lim KEY_ENOENT 0 x
                     | Some kvs \<Rightarrow> do {
                         x \<leftarrow> on_srv (add_stats kvs) x;
                         send_bin_stats lim ''SERVER_ERROR Out of memory generating stats'' x
                       }))
            })
         })
      })
   }"

section \<open>Flush and delete\<close>

definition process_bin_flush :: "lib \<Rightarrow> bin_lib \<Rightarrow> limits \<Rightarrow> session \<Rightarrow> session option" where
  "process_bin_flush L B lim x =
     (if \<not> flush_enabled (sset (srv x)) then bin_error lim AUTH_ERROR 0 x
      else do {
        expt \<leftarrow> (if extlen (binary_header x) = 4 then map_option (\<lambda>e. uint (dec32 e)) (rbuf_at (req_pos B x + 24) 4 (cl (srv x))) else Some 0);
        let now = current_time (cache (srv x));
        let x = x\<lparr>srv := flush_from (if 0 < expt then realtime L expt now else now) (srv x)\<rparr>;
        bin_response lim [] (count (\<lambda>t. t\<lparr>flush_cmds := flush_cmds t + 1\<rparr>) x)
      })"

definition process_bin_delete :: "bin_lib \<Rightarrow> limits \<Rightarrow> session \<Rightarrow> session option" where
  "process_bin_delete B lim x = do {
     key \<leftarrow> req_key B x;
     let x = x\<lparr>srv := record_prefix stats_prefix_record_delete key (srv x)\<rparr>;
     (it, x) \<leftarrow> sess_ptr (item_get key False) x;
     (if it \<noteq> NULL then do {
        u \<leftarrow> rbuf_at (req_pos B x + 16) 8 (cl (srv x));
        x \<leftarrow> (if dec64 u = 0 \<or> dec64 u = ITEM_get_cas (heap (cache (srv x)) it) then do {
               let x = count (\<lambda>t. t\<lparr>delete_hits := bump (ITEM_clsid (heap (cache (srv x)) it)) (delete_hits t)\<rparr>) x;
               x \<leftarrow> on_srv (on_cache (item_unlink it)) x;
               bin_response lim [] x
             }
             else bin_error lim KEY_EEXISTS 0 x);
        on_srv (on_cache (item_remove it)) x
      }
      else do {
        x \<leftarrow> bin_error lim KEY_ENOENT 0 x;
        Some (count (\<lambda>t. t\<lparr>delete_misses := delete_misses t + 1\<rparr>) x)
      })
   }"

section \<open>Reading the key\<close>

text \<open>The doubling of \<^verbatim>\<open>nsize\<close>, which does not end if the buffer has no bytes.\<close>

partial_function (option) grow_rbuf :: "nat \<Rightarrow> nat \<Rightarrow> nat option" where
  "grow_rbuf sz nsize =
     (if nsize < sz then do {
        c_assert (0 < nsize);
        grow_rbuf sz (nsize * 2)
      }
      else Some nsize)"

definition bin_read_key :: "bin_substates \<Rightarrow> int \<Rightarrow> session \<Rightarrow> session option" where
  "bin_read_key next_substate extra x = do {
     let x = upd_cl (\<lambda>c. c\<lparr>rlbytes := c_keylen x + extra\<rparr>) (x\<lparr>substate := next_substate\<rparr>);
     let c = cl (srv x);
     let offset = rcurr c + 24;
     (ok, c) \<leftarrow>
       (if int (length (rbuf c)) - int offset < rlbytes c then do {
          nsize \<leftarrow> grow_rbuf (nat (rlbytes c) + 24) (length (rbuf c));
          let (ok, c) =
            (if nsize \<noteq> length (rbuf c) then
               (let (ok, c) = c_realloc c
                in if ok then (True, c\<lparr>rbuf := rbuf c @ replicate (nsize - length (rbuf c)) 0, rcurr := offset - 24\<rparr>) else (False, c))
             else (True, c));
          Some (ok, if ok \<and> rcurr c \<noteq> 0 then c\<lparr>rbuf := take (rbytes c) (drop (rcurr c) (rbuf c)) @ drop (rbytes c) (rbuf c), rcurr := 0\<rparr> else c)
        }
        else Some (True, c));
     let x = upd_cl (\<lambda>_. c) x;
     (if \<not> ok then sess_state conn_closing x
      else sess_state conn_nread (x\<lparr>srv := (srv x)\<lparr>ritem := In_rbuf (rcurr c + 24)\<rparr>\<rparr>))
   }"

definition handle_binary_protocol_error :: "limits \<Rightarrow> session \<Rightarrow> session option" where
  "handle_binary_protocol_error lim x = map_option (go conn_closing) (bin_error lim EINVAL 0 x)"

section \<open>SASL\<close>

definition init_sasl_conn :: "bin_lib \<Rightarrow> session \<Rightarrow> session" where
  "init_sasl_conn B x =
     (if \<not> sasl x then x
      else let x = x\<lparr>auth_done := False\<rparr>
           in if sasl_conn x then x else x\<lparr>sasl_conn := sasl_server_new B\<rparr>)"

definition sasl_body_rest :: "session \<Rightarrow> int" where
  "sasl_body_rest x = sint (bodylen (binary_header x) - ucast (keylen (binary_header x)))"

definition bin_list_sasl_mechs :: "bin_lib \<Rightarrow> limits \<Rightarrow> session \<Rightarrow> session option" where
  "bin_list_sasl_mechs B lim x =
     (if \<not> sasl x then bin_error lim UNKNOWN_COMMAND (sasl_body_rest x) x
      else let x = init_sasl_conn B x
           in case sasl_listmech B of
                None \<Rightarrow> bin_error lim AUTH_ERROR 0 x
              | Some str \<Rightarrow> bin_response lim str x)"

definition process_bin_sasl_auth :: "bin_lib \<Rightarrow> limits \<Rightarrow> session \<Rightarrow> session option" where
  "process_bin_sasl_auth B lim x =
     (if \<not> sasl x then bin_error lim UNKNOWN_COMMAND (sasl_body_rest x) x
      else do {
        c_assert (extlen (binary_header x) = 0);
        let vlen = sasl_body_rest x;
        (if MAX_SASL_MECH_LEN < uint (keylen (binary_header x)) then map_option (go conn_swallow) (bin_error lim EINVAL vlen x)
         else do {
           key \<leftarrow> req_key B x;
           (it, x) \<leftarrow> sess_ptr (item_alloc key 0 0 (vlen + 2)) x;
           (if it = NULL \<or> has_flag (it_flags (heap (cache (srv x)) it)) ITEM_CHUNKED
            then map_option (go conn_swallow) (bin_error lim ENOMEM vlen x)
            else await_value it vlen bin_reading_sasl_auth_data x)
         })
      })"

definition sasl_outcome :: "limits \<Rightarrow> sasl_result \<Rightarrow> session \<Rightarrow> session option" where
  "sasl_outcome lim r x =
     (case r of
        SASL_OK \<Rightarrow> do {
          x \<leftarrow> bin_response lim (ascii ''Authenticated'') (x\<lparr>auth_done := True\<rparr>);
          Some (x\<lparr>auth_cmds := auth_cmds x + 1\<rparr>)
        }
      | SASL_CONTINUE out \<Rightarrow> do {
          x \<leftarrow> on_cl (add_bin_header lim (status_code AUTH_CONTINUE) 0 0 (of_nat (length out))) x;
          x \<leftarrow> (if out \<noteq> [] then on_cl (\<lambda>c. map_option snd (add_iov lim out c)) x else Some x);
          x \<leftarrow> sess_state conn_mwrite x;
          Some (go conn_new_cmd x)
        }
      | SASL_FAIL \<Rightarrow> do {
          x \<leftarrow> bin_error lim AUTH_ERROR 0 x;
          Some (x\<lparr>auth_cmds := auth_cmds x + 1, auth_errors := auth_errors x + 1\<rparr>)
        })"

definition process_bin_complete_sasl_auth :: "bin_lib \<Rightarrow> limits \<Rightarrow> session \<Rightarrow> session option" where
  "process_bin_complete_sasl_auth B lim x = do {
     c_assert (sasl x);
     let it = citem (srv x);
     c_assert (it \<noteq> NULL);
     let x = init_sasl_conn B x;
     let i = heap (cache (srv x)) it;
     let nk = uint (keylen (binary_header x));
     let vlen = sasl_body_rest x;
     let refuse = (\<lambda>x. do {
       x \<leftarrow> map_option (go conn_swallow) (bin_error lim EINVAL vlen x);
       on_srv (on_cache (item_unlink it)) x
     });
     (if uint (nkey i) < nk then refuse x
      else do {
        let mech = take (nat nk) (item_key i);
        let challenge = (if vlen = 0 then None else Some (data_read 0 (nat vlen) (i_data i)));
        (if nbytes i < vlen then refuse x
         else do {
           let k = cmd (cl (srv x));
           c_assert (k = CMD_SASL_AUTH \<or> k = CMD_SASL_STEP);
           let r = (if k = CMD_SASL_AUTH then sasl_server_start B mech challenge else sasl_server_step B challenge);
           x \<leftarrow> on_srv (on_cache (item_unlink it)) x;
           sasl_outcome lim r x
         })
      })
   }"

definition authenticated :: "session \<Rightarrow> bool option" where
  "authenticated x = do {
     c_assert (sasl x);
     Some (cmd (cl (srv x)) \<in> {CMD_SASL_LIST_MECHS, CMD_SASL_AUTH, CMD_SASL_STEP, CMD_VERSION} \<or> auth_done x)
   }"

section \<open>Dispatch\<close>

text \<open>The command that a quiet command stands for; \<^verbatim>\<open>noreply\<close> is kept for these only.\<close>

definition quiet_command :: "int \<Rightarrow> int option" where
  "quiet_command k =
     (if k = CMD_SETQ then Some CMD_SET else if k = CMD_ADDQ then Some CMD_ADD else if k = CMD_REPLACEQ then Some CMD_REPLACE
      else if k = CMD_DELETEQ then Some CMD_DELETE else if k = CMD_INCREMENTQ then Some CMD_INCREMENT
      else if k = CMD_DECREMENTQ then Some CMD_DECREMENT else if k = CMD_QUITQ then Some CMD_QUIT else if k = CMD_FLUSHQ then Some CMD_FLUSH
      else if k = CMD_APPENDQ then Some CMD_APPEND else if k = CMD_PREPENDQ then Some CMD_PREPEND else if k = CMD_GETQ then Some CMD_GET
      else if k = CMD_GETKQ then Some CMD_GETK else if k = CMD_GATQ then Some CMD_GAT else if k = CMD_GATKQ then Some CMD_GATK else None)"

text \<open>The second \<^verbatim>\<open>switch\<close>: \<open>e\<close>, \<open>k\<close> and \<open>b\<close> are the lengths of the header.\<close>

definition bin_command :: "lib \<Rightarrow> bin_lib \<Rightarrow> limits \<Rightarrow> session \<Rightarrow> session option" where
  "bin_command L B lim x =
     (let c = cmd (cl (srv x)); e = uint (extlen (binary_header x)); k = uint (keylen (binary_header x)); b = uint (bodylen (binary_header x));
          check = (\<lambda>ok r. if ok then r else handle_binary_protocol_error lim x)
      in if c = CMD_VERSION then check (e = 0 \<and> k = 0 \<and> b = 0) (bin_response lim (VERSION L) x)
         else if c = CMD_FLUSH then check (k = 0 \<and> b = e \<and> (e = 0 \<or> e = 4)) (bin_read_key bin_read_flush_exptime e x)
         else if c = CMD_NOOP then check (e = 0 \<and> k = 0 \<and> b = 0) (bin_response lim [] x)
         else if c = CMD_SET \<or> c = CMD_ADD \<or> c = CMD_REPLACE then
           check (e = 0 \<and> k \<noteq> 0 \<and> k + 8 \<le> b) (bin_read_key bin_reading_set_header 8 x)
         else if c = CMD_GETQ \<or> c = CMD_GET \<or> c = CMD_GETKQ \<or> c = CMD_GETK then
           check (e = 0 \<and> b = k \<and> 0 < k) (bin_read_key bin_reading_get_key 0 x)
         else if c = CMD_DELETE then check (0 < k \<and> e = 0 \<and> b = k) (bin_read_key bin_reading_del_header e x)
         else if c = CMD_INCREMENT \<or> c = CMD_DECREMENT then
           check (0 < k \<and> e = 20 \<and> b = k + e) (bin_read_key bin_reading_incr_header 20 x)
         else if c = CMD_APPEND \<or> c = CMD_PREPEND then check (0 < k \<and> e = 0) (bin_read_key bin_reading_set_header 0 x)
         else if c = CMD_STAT then check (e = 0) (bin_read_key bin_reading_stat 0 x)
         else if c = CMD_QUIT then
           check (k = 0 \<and> e = 0 \<and> b = 0) (do {
             x \<leftarrow> bin_response lim [] x;
             let x = go conn_closing x;
             (if noreply (cl (srv x)) then sess_state conn_closing x else Some x)
           })
         else if c = CMD_SASL_LIST_MECHS then check (e = 0 \<and> k = 0 \<and> b = 0) (bin_list_sasl_mechs B lim x)
         else if c = CMD_SASL_AUTH \<or> c = CMD_SASL_STEP then check (e = 0 \<and> k \<noteq> 0) (bin_read_key bin_reading_sasl_auth 0 x)
         else if c = CMD_TOUCH \<or> c = CMD_GAT \<or> c = CMD_GATQ \<or> c = CMD_GATK \<or> c = CMD_GATKQ then
           check (e = 4 \<and> k \<noteq> 0) (bin_read_key bin_reading_touch_key 4 x)
         else bin_error lim UNKNOWN_COMMAND (sint (bodylen (binary_header x))) x)"

definition dispatch_bin_command :: "lib \<Rightarrow> bin_lib \<Rightarrow> limits \<Rightarrow> session \<Rightarrow> session option" where
  "dispatch_bin_command L B lim x =
     (let h = binary_header x; k = uint (keylen h); b = uint (bodylen h)
      in if b < k \<or> b < k + uint (extlen h) then map_option (go conn_closing) (bin_error lim UNKNOWN_COMMAND 0 x)
         else do {
           auth \<leftarrow> (if sasl x then authenticated x else Some True);
           (if \<not> auth then map_option (go conn_closing) (bin_error lim AUTH_ERROR 0 x)
            else if int KEY_MAX_LENGTH < k then handle_binary_protocol_error lim (upd_cl (\<lambda>c. c\<lparr>noreply := True\<rparr>) x)
            else bin_command L B lim
              (case quiet_command (cmd (cl (srv x))) of
                 Some q \<Rightarrow> upd_cl (\<lambda>c. c\<lparr>noreply := True, cmd := q\<rparr>) x
               | None \<Rightarrow> upd_cl (\<lambda>c. c\<lparr>noreply := False\<rparr>) x))
         })"

definition complete_nread_binary :: "lib \<Rightarrow> bin_lib \<Rightarrow> limits \<Rightarrow> session \<Rightarrow> session option" where
  "complete_nread_binary L B lim x = do {
     c_assert (0 \<le> cmd (cl (srv x)));
     (case substate x of
        bin_reading_set_header \<Rightarrow>
          (if cmd (cl (srv x)) = CMD_APPEND \<or> cmd (cl (srv x)) = CMD_PREPEND then process_bin_append_prepend L B lim x
           else process_bin_update L B lim x)
      | bin_read_set_value \<Rightarrow> complete_update_bin lim x
      | bin_reading_get_key \<Rightarrow> process_bin_get_or_touch L B lim x
      | bin_reading_touch_key \<Rightarrow> process_bin_get_or_touch L B lim x
      | bin_reading_stat \<Rightarrow> process_bin_stat L B lim x
      | bin_reading_del_header \<Rightarrow> process_bin_delete B lim x
      | bin_reading_incr_header \<Rightarrow> complete_incr_bin L B lim x
      | bin_read_flush_exptime \<Rightarrow> process_bin_flush L B lim x
      | bin_reading_sasl_auth \<Rightarrow> process_bin_sasl_auth B lim x
      | bin_reading_sasl_auth_data \<Rightarrow> process_bin_complete_sasl_auth B lim x
      | _ \<Rightarrow> None)
   }"

end
