(* ===== verification/Drive.thy ===== *)
theory Drive
  imports Bin_Commands
begin

text \<open>
  The state machine of a connection, \<^verbatim>\<open>drive_machine\<close> of \<^verbatim>\<open>thread/memcached.c\<close>, with the release and closing of a connection from \<^verbatim>\<open>network/memcached.c\<close>.
  One turn of its loop is \<open>drive_step\<close>; the loop itself is \<open>drive_machine\<close>, whose value is \<^const>\<open>None\<close> when it does not return.

  A \<open>machine\<close> is the session of the connection, its socket, and what the machine itself keeps. Calls that the sources do not contain are fields of a
  \<open>net_lib\<close>: \<^verbatim>\<open>transmit\<close> and \<^verbatim>\<open>read_into_chunked_item\<close>; the buffer limits are a \<open>conn_limits\<close>. \<open>ev_results\<close> holds the results of the coming libevent
  calls, \<open>accepts\<close> those of \<^verbatim>\<open>accept\<close>; without an entry they succeed, or there is no connection to accept.
\<close>

section \<open>State\<close>

record conn_limits =
  READ_BUFFER_HIGHWAT :: nat
  DATA_BUFFER_SIZE :: nat
  ITEM_LIST_HIGHWAT :: nat
  ITEM_LIST_INITIAL :: nat
  MSG_LIST_HIGHWAT :: nat
  MSG_LIST_INITIAL :: nat
  IOV_LIST_HIGHWAT :: nat
  IOV_LIST_INITIAL :: nat

datatype transmit_result = TRANSMIT_COMPLETE | TRANSMIT_INCOMPLETE | TRANSMIT_SOFT_ERROR | TRANSMIT_HEAD_ERROR

datatype chunk_read = Chunk_data | Chunk_end | Chunk_again | Chunk_nomem | Chunk_error

datatype accept_result = Accepted nat | No_accept4 | Accept_again | Too_many_files | Accept_error

datatype ev_flags = EV_NONE | EV_READ | EV_WRITE

record machine =
  ses :: session
  sock :: "socket_event list"
  dgrams :: "bytes list"
  isize :: nat
  events :: ev_flags
  ev_results :: "bool list"
  accepts :: "accept_result list"
  use_accept4 :: bool
  nonblocking :: "bool list"
  reqs_per_event :: int
  maxconns_fast :: bool
  maxconns :: int
  reserved_fds :: int
  curr_conns :: int
  conn_yields :: u64
  bytes_read :: u64
  rejected_conns :: u64
  dispatched :: "nat list"
  accepting :: bool
  allow_new_conns :: bool
  sfd_open :: bool

record net_lib =
  transmit :: "machine \<Rightarrow> (transmit_result \<times> machine) option"
  read_into_chunked_item :: "machine \<Rightarrow> chunk_read \<times> machine"

definition on_ses :: "(session \<Rightarrow> session option) \<Rightarrow> machine \<Rightarrow> machine option" where
  "on_ses f m = map_option (\<lambda>x. m\<lparr>ses := x\<rparr>) (f (ses m))"

abbreviation conn_of :: "machine \<Rightarrow> client" where
  "conn_of m \<equiv> cl (srv (ses m))"

definition enter :: "conn_states \<Rightarrow> machine \<Rightarrow> machine option" where
  "enter st m = on_ses (sess_state st) m"

definition set_conn :: "client \<Rightarrow> machine \<Rightarrow> machine" where
  "set_conn c m = m\<lparr>ses := upd_cl (\<lambda>_. c) (ses m)\<rparr>"

section \<open>Events\<close>

definition ev_call :: "machine \<Rightarrow> bool \<times> machine" where
  "ev_call m = (case ev_results m of [] \<Rightarrow> (True, m) | ok # rest \<Rightarrow> (ok, m\<lparr>ev_results := rest\<rparr>))"

definition update_event :: "ev_flags \<Rightarrow> machine \<Rightarrow> bool \<times> machine" where
  "update_event new_flags m =
     (if events m = new_flags then (True, m)
      else let (ok, m) = ev_call m
           in if \<not> ok then (False, m) else ev_call (m\<lparr>events := new_flags\<rparr>))"

text \<open>Wait for an event and leave the loop, or close the connection; the flag says that the loop stops.\<close>

definition wait_for :: "ev_flags \<Rightarrow> machine \<Rightarrow> (bool \<times> machine) option" where
  "wait_for f m =
     (let (ok, m) = update_event f m
      in if ok then Some (True, m) else map_option (Pair False) (enter conn_closing m))"

section \<open>Releasing and closing\<close>

fun release_list :: "addr list \<Rightarrow> cache \<Rightarrow> cache option" where
  "release_list [] m = Some m"
| "release_list (it # its) m = do {
     c_assert (\<not> has_flag (it_flags (heap m it)) ITEM_SLABBED);
     m \<leftarrow> item_remove it m;
     release_list its m
   }"

fun free_suffixes :: "addr list \<Rightarrow> cache_t \<Rightarrow> cache_t option" where
  "free_suffixes [] c = Some c"
| "free_suffixes (p # ps) c = Option.bind (do_cache_free p c) (free_suffixes ps)"

text \<open>The reference to \<^verbatim>\<open>c->item\<close>.\<close>

definition release_item :: "server \<Rightarrow> server option" where
  "release_item s =
     (if citem s \<noteq> NULL then map_option (\<lambda>s. s\<lparr>citem := NULL\<rparr>) (on_cache (item_remove (citem s)) s) else Some s)"

definition conn_release_items :: "server \<Rightarrow> server option" where
  "conn_release_items s = do {
     s \<leftarrow> release_item s;
     s \<leftarrow> on_cache (release_list (ilist s)) s;
     sc \<leftarrow> free_suffixes (suffixlist s) (suffix_cache s);
     Some (s\<lparr>ilist := [], suffixlist := [], suffix_cache := sc\<rparr>)
   }"

definition conn_cleanup :: "session \<Rightarrow> session option" where
  "conn_cleanup x = do {
     x \<leftarrow> on_srv conn_release_items x;
     let x = x\<lparr>srv := (srv x)\<lparr>write_and_free := None\<rparr>\<rparr>;
     x \<leftarrow> (if sasl_conn x then do { c_assert (sasl x); Some (x\<lparr>sasl_conn := False\<rparr>) } else Some x);
     (if IS_UDP (transport (cl (srv x))) then sess_state conn_read x else Some x)
   }"

definition conn_close :: "machine \<Rightarrow> machine option" where
  "conn_close m = do {
     m \<leftarrow> on_ses conn_cleanup (snd (ev_call m));
     m \<leftarrow> enter conn_closed m;
     Some (m\<lparr>sfd_open := False, allow_new_conns := True, curr_conns := curr_conns m - 1\<rparr>)
   }"

text \<open>\<^verbatim>\<open>conn_shrink\<close>: a \<^verbatim>\<open>realloc\<close> may move the iovec array, and the message headers are not pointed at the new one.\<close>

definition shrink_rbuf :: "conn_limits \<Rightarrow> client \<Rightarrow> client" where
  "shrink_rbuf K c =
     (if READ_BUFFER_HIGHWAT K < length (rbuf c) \<and> rbytes c < DATA_BUFFER_SIZE K then
        (let c = (if rcurr c \<noteq> 0 then c\<lparr>rbuf := take (rbytes c) (drop (rcurr c) (rbuf c)) @ drop (rbytes c) (rbuf c)\<rparr> else c);
             (ok, c) = c_realloc c;
             c = (if ok then c\<lparr>rbuf := take (DATA_BUFFER_SIZE K) (rbuf c) @ replicate (DATA_BUFFER_SIZE K - length (rbuf c)) 0\<rparr> else c)
         in c\<lparr>rcurr := 0\<rparr>)
      else c)"

definition conn_shrink :: "conn_limits \<Rightarrow> machine \<Rightarrow> machine" where
  "conn_shrink K m =
     (if IS_UDP (transport (conn_of m)) then m
      else
        let c = shrink_rbuf K (conn_of m);
            (n, c) = (if ITEM_LIST_HIGHWAT K < isize m then (let (ok, c) = c_realloc c in (if ok then ITEM_LIST_INITIAL K else isize m, c)) else (isize m, c));
            c = (if MSG_LIST_HIGHWAT K < msgsize c
                 then (let (ok, c) = c_realloc c in if ok then c\<lparr>msglist := take (MSG_LIST_INITIAL K) (msglist c), msgsize := MSG_LIST_INITIAL K\<rparr> else c) else c);
            c = (if IOV_LIST_HIGHWAT K < iovsize c
                 then (let (ok, c) = c_realloc c in if ok then c\<lparr>iov_gen := iov_gen c + 1, iovsize := IOV_LIST_INITIAL K\<rparr> else c) else c)
        in set_conn c (m\<lparr>isize := n\<rparr>))"

definition reset_cmd_handler :: "conn_limits \<Rightarrow> machine \<Rightarrow> machine option" where
  "reset_cmd_handler K m = do {
     let m = m\<lparr>ses := (upd_cl (\<lambda>c. c\<lparr>cmd := - 1\<rparr>) (ses m))\<lparr>substate := bin_no_state\<rparr>\<rparr>;
     m \<leftarrow> on_ses (on_srv release_item) m;
     let m = conn_shrink K m;
     enter (if 0 < rbytes (conn_of m) then conn_parse_cmd else conn_waiting) m
   }"

section \<open>Commands\<close>

definition complete_nread :: "lib \<Rightarrow> bin_lib \<Rightarrow> limits \<Rightarrow> session \<Rightarrow> session option" where
  "complete_nread L B lim x =
     (case prot (cl (srv x)) of
        ascii_prot \<Rightarrow> on_srv (complete_nread_ascii lim) x
      | binary_prot \<Rightarrow> complete_nread_binary L B lim x
      | negotiating_prot \<Rightarrow> None)"

definition negotiate :: "client \<Rightarrow> client" where
  "negotiate c =
     (if prot c = negotiating_prot \<or> transport c = udp_transport
      then c\<lparr>prot := (if rbuf c ! 0 = PROTOCOL_BINARY_REQ then binary_prot else ascii_prot)\<rparr> else c)"

definition parse_header :: "bytes \<Rightarrow> request_header" where
  "parse_header bs = \<lparr>magic = bs ! 0, extlen = bs ! 4, keylen = dec16 (drop 2 bs), bodylen = dec32 (drop 8 bs), req_cas = dec64 (drop 16 bs)\<rparr>"

text \<open>The binary branch of \<^verbatim>\<open>try_read_command\<close>; the number is what it returns.\<close>

definition read_packet :: "lib \<Rightarrow> bin_lib \<Rightarrow> limits \<Rightarrow> session \<Rightarrow> (int \<times> session) option" where
  "read_packet L B lim x =
     (let c = cl (srv x)
      in if rbytes c < 24 then Some (0, x)
         else do {
           bs \<leftarrow> rbuf_at (rcurr c) 24 c;
           let x = upd_cl (\<lambda>c. c\<lparr>opcode := bs ! 1\<rparr>) (x\<lparr>binary_header := parse_header bs\<rparr>);
           (if magic (binary_header x) \<noteq> PROTOCOL_BINARY_REQ then map_option (Pair (- 1)) (sess_state conn_closing x)
            else do {
              (ok, c) \<leftarrow> add_msghdr lim ((cl (srv x))\<lparr>msgcurr := 0, msglist := [], iovused := 0\<rparr>);
              let x = upd_cl (\<lambda>_. c) x;
              (if \<not> ok then map_option (Pair 0) (bin_nomem lim ''SERVER_ERROR Out of memory allocating headers'' x)
               else do {
                 let x = upd_cl (\<lambda>c. c\<lparr>cmd := uint (bs ! 1), opaque := bytes_to_u32 (drop 12 bs), cas := 0\<rparr>)
                   (x\<lparr>c_keylen := uint (keylen (binary_header x))\<rparr>);
                 x \<leftarrow> dispatch_bin_command L B lim x;
                 c_assert (24 \<le> rbytes (cl (srv x)));
                 Some (1, upd_cl (\<lambda>c. c\<lparr>rbytes := rbytes c - 24, rcurr := rcurr c + 24\<rparr>) x)
               })
            })
         })"

text \<open>
  \<^verbatim>\<open>try_read_command\<close>. \<^const>\<open>read_line\<close> takes the line out of the buffer before it is processed, where the code does so afterwards; the
  commands use neither position. The tokenizer works on a copy of the line, which the code never looks at again.
\<close>

definition try_read_command :: "lib \<Rightarrow> bin_lib \<Rightarrow> limits \<Rightarrow> session \<Rightarrow> (int \<times> session) option" where
  "try_read_command L B lim x = do {
     c_assert (rcurr (cl (srv x)) \<le> length (rbuf (cl (srv x))));
     c_assert (0 < rbytes (cl (srv x)));
     let x = upd_cl negotiate x;
     (if prot (cl (srv x)) = binary_prot then read_packet L B lim x
      else do {
        (r, c) \<leftarrow> read_line (cl (srv x));
        let x = upd_cl (\<lambda>_. c) x;
        (case r of
           Need_more \<Rightarrow> Some (0, x)
         | Nuke \<Rightarrow> Some (1, x)
         | Line line \<Rightarrow> map_option (Pair 1) (on_srv (process_command L lim line) x))
      })
   }"

section \<open>Reading data\<close>

text \<open>Bytes at \<^verbatim>\<open>c->ritem\<close>, and \<^verbatim>\<open>c->ritem += n\<close>. A write over the end of the read buffer or of the item is undefined.\<close>

definition put_ritem :: "bytes \<Rightarrow> server \<Rightarrow> server option" where
  "put_ritem bs s =
     (case ritem s of
        In_rbuf off \<Rightarrow> map_option (\<lambda>b. s\<lparr>cl := (cl s)\<lparr>rbuf := b\<rparr>\<rparr>) (buf_write off bs (rbuf (cl s)))
      | In_item off \<Rightarrow> do {
          c_assert (citem s \<noteq> NULL \<and> int (off + length bs) \<le> nbytes (heap (cache s) (citem s)));
          Some (s\<lparr>cache := upd_item (citem s) (\<lambda>i. i\<lparr>i_data := data_write off bs (i_data i)\<rparr>) (cache s)\<rparr>)
        }
      | In_chunk a \<Rightarrow> None)"

definition advance_ritem :: "nat \<Rightarrow> server \<Rightarrow> server" where
  "advance_ritem n s = s\<lparr>ritem := (case ritem s of In_rbuf off \<Rightarrow> In_rbuf (off + n) | In_item off \<Rightarrow> In_item (off + n) | In_chunk a \<Rightarrow> In_chunk a)\<rparr>"

definition take_leftover :: "server \<Rightarrow> server option" where
  "take_leftover s =
     (let c = cl s; n = min (rbytes c) (nat (rlbytes c))
      in do {
        c_assert (rcurr c + n \<le> length (rbuf c));
        s \<leftarrow> (if ritem s \<noteq> In_rbuf (rcurr c) then put_ritem (take n (drop (rcurr c) (rbuf c))) s else Some s);
        let s = advance_ritem n s;
        Some (s\<lparr>cl := (cl s)\<lparr>rlbytes := rlbytes c - int n, rcurr := rcurr c + n, rbytes := rbytes c - n\<rparr>\<rparr>)
      })"

definition take_input :: "bytes \<Rightarrow> server \<Rightarrow> server option" where
  "take_input bs s = do {
     let at_curr = (ritem s = In_rbuf (rcurr (cl s)));
     s \<leftarrow> put_ritem bs s;
     let s = (if at_curr then s\<lparr>cl := (cl s)\<lparr>rcurr := rcurr (cl s) + length bs\<rparr>\<rparr> else s);
     let s = advance_ritem (length bs) s;
     Some (s\<lparr>cl := (cl s)\<lparr>rlbytes := rlbytes (cl s) - int (length bs)\<rparr>\<rparr>)
   }"

text \<open>What is left when \<^verbatim>\<open>read\<close> has returned no data.\<close>

definition no_data :: "read_result \<Rightarrow> machine \<Rightarrow> (bool \<times> machine) option" where
  "no_data r m = (if r = Would_block then wait_for EV_READ m else map_option (Pair False) (enter conn_closing m))"

definition nread_plain :: "machine \<Rightarrow> (bool \<times> machine) option" where
  "nread_plain m = do {
     m \<leftarrow> (if 0 < rbytes (conn_of m) then on_ses (on_srv take_leftover) m else Some m);
     (if rlbytes (conn_of m) = 0 then Some (False, m)
      else do {
        let (r, sk) = sys_read (nat (rlbytes (conn_of m))) (sock m);
        let m = m\<lparr>sock := sk\<rparr>;
        (case r of
           Data bs \<Rightarrow> map_option (Pair False) (on_ses (on_srv (take_input bs)) (m\<lparr>bytes_read := bytes_read m + of_nat (length bs)\<rparr>))
         | _ \<Rightarrow> no_data r m)
      })
   }"

definition nread_chunked :: "net_lib \<Rightarrow> limits \<Rightarrow> machine \<Rightarrow> (bool \<times> machine) option" where
  "nread_chunked N lim m =
     (let (r, m) = read_into_chunked_item N m
      in case r of
           Chunk_data \<Rightarrow> Some (False, m)
         | Chunk_end \<Rightarrow> map_option (Pair False) (enter conn_closing m)
         | Chunk_again \<Rightarrow> wait_for EV_READ m
         | Chunk_nomem \<Rightarrow> do {
             m \<leftarrow> on_ses (bin_nomem lim ''SERVER_ERROR Out of memory during read'') m;
             Some (False, set_conn ((conn_of m)\<lparr>sbytes := rlbytes (conn_of m), write_and_go := conn_swallow\<rparr>) m)
           }
         | Chunk_error \<Rightarrow> map_option (Pair False) (enter conn_closing m))"

definition drive_nread :: "lib \<Rightarrow> bin_lib \<Rightarrow> net_lib \<Rightarrow> limits \<Rightarrow> machine \<Rightarrow> (bool \<times> machine) option" where
  "drive_nread L B N lim m =
     (let s = srv (ses m)
      in if rlbytes (cl s) = 0 then map_option (Pair False) (on_ses (complete_nread L B lim) m)
         else if rlbytes (cl s) < 0 then map_option (Pair False) (enter conn_closing m)
         else if citem s = NULL \<or> \<not> has_flag (it_flags (heap (cache s) (citem s))) ITEM_CHUNKED then nread_plain m
         else nread_chunked N lim m)"

definition drive_swallow :: "machine \<Rightarrow> (bool \<times> machine) option" where
  "drive_swallow m =
     (let c = conn_of m
      in if sbytes c \<le> 0 then map_option (Pair False) (enter conn_new_cmd m)
         else if 0 < rbytes c then
           (let n = min (rbytes c) (nat (sbytes c))
            in Some (False, set_conn (c\<lparr>sbytes := sbytes c - int n, rcurr := rcurr c + n, rbytes := rbytes c - n\<rparr>) m))
         else
           (let (r, sk) = sys_read (min (length (rbuf c)) (nat (sbytes c))) (sock m); m = m\<lparr>sock := sk\<rparr>
            in case r of
                 Data bs \<Rightarrow> Some (False, set_conn (c\<lparr>sbytes := sbytes c - int (length bs), rbuf := bs @ drop (length bs) (rbuf c)\<rparr>)
                   (m\<lparr>bytes_read := bytes_read m + of_nat (length bs)\<rparr>))
               | _ \<Rightarrow> no_data r m))"

section \<open>Writing\<close>

text \<open>\<^verbatim>\<open>c->wcurr\<close> points into \<^verbatim>\<open>wbuf\<close> or at the buffer that is freed after writing.\<close>

definition simple_response :: "server \<Rightarrow> bytes" where
  "simple_response s = take (wbytes (cl s)) (drop (wcurr (cl s)) (case write_and_free s of Some b \<Rightarrow> b | None \<Rightarrow> wbuf (cl s)))"

definition transmit_done :: "machine \<Rightarrow> machine option" where
  "transmit_done m =
     (if state (conn_of m) = conn_mwrite then do {
        m \<leftarrow> on_ses (on_srv conn_release_items) m;
        enter (if prot (conn_of m) = binary_prot then write_and_go (conn_of m) else conn_new_cmd) m
      }
      else if state (conn_of m) = conn_write then
        enter (write_and_go (conn_of m)) (m\<lparr>ses := (ses m)\<lparr>srv := (srv (ses m))\<lparr>write_and_free := None\<rparr>\<rparr>\<rparr>)
      else enter conn_closing m)"

definition drive_mwrite :: "lib \<Rightarrow> net_lib \<Rightarrow> machine \<Rightarrow> (bool \<times> machine) option" where
  "drive_mwrite L N m =
     (let (ok, s) = (if IS_UDP (transport (conn_of m)) \<and> msgcurr (conn_of m) = 0 then build_udp_headers L (srv (ses m)) else (True, srv (ses m)));
          m = m\<lparr>ses := (ses m)\<lparr>srv := s\<rparr>\<rparr>
      in if \<not> ok then map_option (Pair False) (enter conn_closing m)
         else do {
           (r, m) \<leftarrow> transmit N m;
           (case r of
              TRANSMIT_COMPLETE \<Rightarrow> map_option (Pair False) (transmit_done m)
            | TRANSMIT_INCOMPLETE \<Rightarrow> Some (False, m)
            | TRANSMIT_HEAD_ERROR \<Rightarrow> Some (False, m)
            | TRANSMIT_SOFT_ERROR \<Rightarrow> Some (True, m))
         })"

definition drive_write :: "lib \<Rightarrow> net_lib \<Rightarrow> limits \<Rightarrow> machine \<Rightarrow> (bool \<times> machine) option" where
  "drive_write L N lim m = do {
     (ok, m) \<leftarrow>
       (if iovused (conn_of m) = 0 \<or> IS_UDP (transport (conn_of m)) \<and> iovused (conn_of m) = 1
        then map_option (\<lambda>(ok, c). (ok, set_conn c m)) (add_iov lim (simple_response (srv (ses m))) (conn_of m)) else Some (True, m));
     (if \<not> ok then map_option (Pair False) (enter conn_closing m) else drive_mwrite L N m)
   }"

section \<open>Accepting\<close>

text \<open>A listening connection; the flag says that the loop stops. \<open>dispatched\<close> are the sockets handed to \<^verbatim>\<open>dispatch_conn_new\<close>.\<close>

definition drive_listening :: "machine \<Rightarrow> bool \<times> machine" where
  "drive_listening m =
     (case accepts m of
        [] \<Rightarrow> (True, m)
      | a # rest \<Rightarrow>
          (let m = m\<lparr>accepts := rest\<rparr>
           in case a of
                No_accept4 \<Rightarrow> if use_accept4 m then (False, m\<lparr>use_accept4 := False\<rparr>) else (True, m)
              | Accept_again \<Rightarrow> (True, m)
              | Too_many_files \<Rightarrow> (True, m\<lparr>accepting := False, allow_new_conns := False\<rparr>)
              | Accept_error \<Rightarrow> (True, m)
              | Accepted fd \<Rightarrow>
                  (let (ok, m) = (if use_accept4 m then (True, m)
                                  else case nonblocking m of [] \<Rightarrow> (True, m) | ok # rest \<Rightarrow> (ok, m\<lparr>nonblocking := rest\<rparr>))
                   in if \<not> ok then (False, m)
                      else if maxconns_fast m \<and> maxconns m - 1 \<le> curr_conns m + reserved_fds m then (True, m\<lparr>rejected_conns := rejected_conns m + 1\<rparr>)
                      else (True, m\<lparr>dispatched := dispatched m @ [fd]\<rparr>))))"

section \<open>The loop\<close>

definition drive_read :: "limits \<Rightarrow> machine \<Rightarrow> machine option" where
  "drive_read lim m = do {
     (res, m) \<leftarrow>
       (if IS_UDP (transport (conn_of m)) then
          (case dgrams m of
             [] \<Rightarrow> Some (READ_NO_DATA_RECEIVED, m)
           | d # ds \<Rightarrow> map_option (\<lambda>(r, c). (r, set_conn c (m\<lparr>dgrams := ds\<rparr>))) (try_read_udp lim d (conn_of m)))
        else map_option (\<lambda>(r, sk, c). (r, set_conn c (m\<lparr>sock := sk\<rparr>))) (try_read_network lim (sock m) (conn_of m)));
     (case res of
        READ_NO_DATA_RECEIVED \<Rightarrow> enter conn_waiting m
      | READ_DATA_RECEIVED \<Rightarrow> enter conn_parse_cmd m
      | READ_ERROR \<Rightarrow> enter conn_closing m
      | READ_MEMORY_ERROR \<Rightarrow> Some m)
   }"

definition drive_new_cmd :: "conn_limits \<Rightarrow> int \<Rightarrow> machine \<Rightarrow> (bool \<times> machine) option" where
  "drive_new_cmd K nreqs m =
     (if 0 \<le> nreqs then map_option (Pair False) (reset_cmd_handler K m)
      else let m = m\<lparr>conn_yields := conn_yields m + 1\<rparr>
           in if 0 < rbytes (conn_of m) then wait_for EV_WRITE m else Some (True, m))"

definition drive_step ::
  "lib \<Rightarrow> bin_lib \<Rightarrow> net_lib \<Rightarrow> conn_limits \<Rightarrow> limits \<Rightarrow> int \<times> machine \<Rightarrow> (bool \<times> int \<times> machine) option" where
  "drive_step L B N K lim = (\<lambda>(nreqs, m).
     (let go_on = map_option (\<lambda>m. (False, nreqs, m)); may_stop = map_option (\<lambda>(stop, m). (stop, nreqs, m))
      in case state (conn_of m) of
           conn_listening \<Rightarrow> may_stop (Some (drive_listening m))
         | conn_waiting \<Rightarrow>
             (let (ok, m) = update_event EV_READ m
              in if ok then map_option (\<lambda>m. (True, nreqs, m)) (enter conn_read m) else go_on (enter conn_closing m))
         | conn_read \<Rightarrow> go_on (drive_read lim m)
         | conn_parse_cmd \<Rightarrow> do {
             (r, x) \<leftarrow> try_read_command L B lim (ses m);
             go_on (if r = 0 then enter conn_waiting (m\<lparr>ses := x\<rparr>) else Some (m\<lparr>ses := x\<rparr>))
           }
         | conn_new_cmd \<Rightarrow> map_option (\<lambda>(stop, m). (stop, nreqs - 1, m)) (drive_new_cmd K (nreqs - 1) m)
         | conn_nread \<Rightarrow> may_stop (drive_nread L B N lim m)
         | conn_swallow \<Rightarrow> may_stop (drive_swallow m)
         | conn_write \<Rightarrow> may_stop (drive_write L N lim m)
         | conn_mwrite \<Rightarrow> may_stop (drive_mwrite L N m)
         | conn_closing \<Rightarrow>
             map_option (\<lambda>m. (True, nreqs, m)) (if IS_UDP (transport (conn_of m)) then on_ses conn_cleanup m else conn_close m)
         | conn_closed \<Rightarrow> None
         | conn_watch \<Rightarrow> Some (True, nreqs, m)
         | conn_max_state \<Rightarrow> None))"

partial_function (option) drive_loop ::
  "lib \<Rightarrow> bin_lib \<Rightarrow> net_lib \<Rightarrow> conn_limits \<Rightarrow> limits \<Rightarrow> int \<times> machine \<Rightarrow> machine option" where
  "drive_loop L B N K lim nm = do {
     r \<leftarrow> drive_step L B N K lim nm;
     (if fst r then Some (snd (snd r)) else drive_loop L B N K lim (snd r))
   }"

definition drive_machine :: "lib \<Rightarrow> bin_lib \<Rightarrow> net_lib \<Rightarrow> conn_limits \<Rightarrow> limits \<Rightarrow> machine \<Rightarrow> machine option" where
  "drive_machine L B N K lim m = drive_loop L B N K lim (reqs_per_event m, m)"

end
