(* ===== verification/Commands_Store.thy ===== *)
theory Commands_Store
  imports Commands_Spec
begin

text \<open>
  The second half of a storage command: what happens when its data has arrived.
\<close>

section \<open>Storing a value that has been read\<close>

lemma can_release_locks: "can_release s it \<Longrightarrow> can_release (s\<lparr>item_locks := x\<rparr>) it"
proof -
  assume "can_release s it"
  then obtain F Q where c: "cinv s F Q" "refcount (heap s it) \<noteq> 0" "private_item s F it \<or> it \<in> lru_items Q \<and> refcount (heap s it) \<noteq> 1"
    unfolding can_release_def by blast
  moreover have "private_item s F it \<Longrightarrow> private_item (s\<lparr>item_locks := x\<rparr>) F it" using private_item_cong [of "s\<lparr>item_locks := x\<rparr>" it s F] by simp
  ultimately show ?thesis unfolding can_release_def using locks_frame(1) [OF c(1), of x] by (intro exI [of _ F] exI [of _ Q]) auto
qed

lemma item_remove_release:
  assumes "can_release s it" "lock_free s (item_key (heap s it))"
  shows "\<exists>t. item_remove it s = Some t \<and> cache_inv t \<and> cache_view t = cache_view s"
proof -
  let ?k = "item_key (heap s it)" let ?s = "locked ?k s"
  obtain F Q where c: "cinv s F Q" using assms(1) by (auto simp: can_release_def)
  obtain t where t: "do_item_remove it ?s = Some t" "cache_inv t" "cache_view t = cache_view ?s"
    using release_view [OF can_release_locks [OF assms(1)]] by blast
  have "item_remove it s = Some (item_unlock (hash s ?k) t)" using item_lock_free [OF assms(2)] t(1) by (simp add: item_remove_def)
  moreover obtain F' Q' where "cinv t F' Q'" using t(2) by (auto simp: cache_inv_def)
  note cinv_unlock [OF this, of "hash s ?k"]
  ultimately show ?thesis using t(3) locks_frame(3) [OF c] unfolding cache_inv_def by auto
qed

text \<open>\<^verbatim>\<open>store_item\<close> takes and gives back the lock of the key.\<close>

lemma store_item_ok:
  assumes c: "cinv s F Q" and l: "linkable s F it" and cm: "comm \<notin> {NREAD_APPEND, NREAD_PREPEND}"
    and r: "\<forall>p. assoc_map s (item_key (heap s it)) = Some p \<longrightarrow> refcount (heap s p) \<noteq> - 1"
    and k: "k = item_key (heap s it)" "lock_free s k" and r0: "refcount (heap s it) \<noteq> 0"
    and res: "res = store_outcome comm (map_option (\<lambda>p. ITEM_get_cas (heap s p)) (lookup s k)) (ITEM_get_cas (heap s it))"
  shows "\<exists>c' u. store_item it comm cn s = Some (res, c', u) \<and> can_release u it \<and> item_key (heap u it) = k \<and> lock_free u k \<and>
    cache_view u = (if res = STORED then (cache_view s)(k \<mapsto> item_value (linked_item it s))
      else if lookup s k = None then (cache_view s)(k := None) else cache_view s)"
proof -
  let ?s = "locked k s"
  note f = locks_frame [OF c, of "(item_locks s)(hv_bucket (hash s k) (item_lock_hashpower s) := True)"]
  have ls: "linkable ?s F it" using l by (simp add: linkable_def valid_cls_def)
  have li: "linked_item it ?s = linked_item it s" by (simp add: linked_item_def link_cas_def)
  have rs: "refcount (heap ?s p) \<noteq> - 1" if "assoc_map ?s (item_key (heap ?s it)) = Some p" for p using r that f(2) by simp
  obtain t F' Q' where t: "do_item_get k (hash s k) False ?s = Some (opt_ptr (lookup ?s k), t)" "store_ready ?s it t F' Q'"
    using get_for_store [OF f(1) ls rs] k(1) by auto
  have "do_item_get (item_key (heap ?s it)) (hash s k) False ?s = Some (opt_ptr (lookup ?s (item_key (heap ?s it))), t)" using t(1) k(1) by simp
  moreover have ks: "item_key (heap ?s it) = k" using k(1) by simp
  ultimately have g: "do_item_get (item_key (heap ?s it)) (hash s k) False ?s = Some (opt_ptr (lookup ?s (item_key (heap ?s it))), t)"
    "hash s k = hash ?s (item_key (heap ?s it))" by simp_all
  from store_after_get [OF g(1) t(2) g(2) cm, of cn] obtain c' u where u: "do_store_item it comm cn (hash s k) ?s = Some (res, c', u)"
    "cache_view u = (if res = STORED then (cache_view s)(k \<mapsto> item_value (linked_item it s))
      else if lookup s k = None then (cache_view s)(k := None) else cache_view s)" "still_held ?s it u"
    unfolding res li f(3,4) ks by auto
  then obtain G R where g: "cinv u G R" "item_key (heap u it) = k" "same_env ?s u"
    "private_item u G it \<and> refcount (heap u it) = refcount (heap s it) \<or> it \<in> lru_items R \<and> refcount (heap u it) = refcount (heap s it) + 1"
    unfolding still_held_def using k(1) by auto
  have "refcount (heap s it) + 1 \<noteq> 0" using l by (metis add_eq_0_iff2 linkable_def)
  then have "can_release u it" using g(1,4) r0 unfolding can_release_def by fastforce
  then have "can_release (item_unlock (hash s k) u) it" unfolding item_unlock_def by (rule can_release_locks)
  moreover have "store_item it comm cn s = Some (res, c', item_unlock (hash s k) u)"
    using item_lock_free [OF k(2)] u(1) k(1) by (simp add: store_item_def)
  moreover have "lock_free (item_unlock (hash s k) u) k" using unlock_env [OF k(2) g(3)] same_env_lock k(2) by blast
  ultimately show ?thesis using u(2) g(2) cinv_unlock [OF g(1), of "hash s k"] by simp
qed

definition store_reply :: "store_item_type \<Rightarrow> string" where
  "store_reply r = (case r of STORED \<Rightarrow> ''STORED'' | EXISTS \<Rightarrow> ''EXISTS'' | NOT_FOUND \<Rightarrow> ''NOT_FOUND'' | _ \<Rightarrow> ''NOT_STORED'')"

lemma store_outcome_cases: "store_outcome comm r v \<in> {STORED, EXISTS, NOT_FOUND, NOT_STORED}"
  by (cases comm) (auto split: option.splits)

lemma comm_of_code_comm [simp]: "comm_of_code (comm_code comm) = Some comm"
  by (cases comm) (simp_all add: comm_code_def comm_of_code_def)

lemma item_unlock_key [simp]: "item_key (heap (item_unlock hv u) it) = item_key (heap u it)"
  by (simp add: item_unlock_def)

lemma complete_nread_unfold:
  assumes "\<not> has_flag (it_flags (heap (cache s) (citem s))) ITEM_CHUNKED" "cmd (cl s) = comm_code comm"
    and "valid = (data_read (nat (nbytes (heap (cache s) (citem s)) - 2)) 2 (i_data (heap (cache s) (citem s))) = CRLF)"
  defines "s' \<equiv> upd_sstats (\<lambda>t. t\<lparr>set_cmds := bump (ITEM_clsid (heap (cache s) (citem s))) (set_cmds t)\<rparr>) s"
  shows "complete_nread_ascii lim s = (if \<not> valid then reply lim ''CLIENT_ERROR bad data chunk'' s'
      else do {
        (ret, c, m) \<leftarrow> store_item (citem s) comm \<lparr>sfd = 0, c_cas = cas (cl s)\<rparr> (cache s);
        let s = s'\<lparr>cache := m, cl := (cl s)\<lparr>cas := c_cas c\<rparr>\<rparr>;
        (case ret of STORED \<Rightarrow> reply lim ''STORED'' s | EXISTS \<Rightarrow> reply lim ''EXISTS'' s | NOT_FOUND \<Rightarrow> reply lim ''NOT_FOUND'' s
         | NOT_STORED \<Rightarrow> reply lim ''NOT_STORED'' s | _ \<Rightarrow> Some s)
      }) \<bind> (\<lambda>s. on_cache (item_remove (citem s)) s \<bind> (\<lambda>s. Some (s\<lparr>citem := NULL\<rparr>)))"
proof -
  have f: "cache s' = cache s" "citem s' = citem s" "cl s' = cl s" by (simp_all add: s'_def upd_sstats_def)
  then have "data_ends_crlf s' = Some valid" using assms(1,3) by (simp add: data_ends_crlf_def Let_def)
  then show ?thesis using f assms(2) by (simp add: complete_nread_ascii_def s'_def [symmetric] Let_def)
qed

text \<open>
  The end of a storage command of the text protocol. When the value of a plain item has arrived, \<^verbatim>\<open>complete_nread_ascii\<close> looks at its last two bytes.
  If they are CR LF the command is carried out: the item is stored under its key exactly when \<^verbatim>\<open>add\<close>, \<^verbatim>\<open>set\<close>, \<^verbatim>\<open>replace\<close> or \<^verbatim>\<open>cas\<close> asks for it, no
  other key changes, and the client is told the outcome. If they are not, nothing is stored and the client is told so. In both cases the
  connection gives its reference back and holds no item, and the rest of its input is untouched.
\<close>

lemma complete_nread_stores:
  assumes "conn_ready (cl s)" "cinv (cache s) F Q" "linkable (cache s) F (citem s)" "refcount (heap (cache s) (citem s)) \<noteq> 0"
    and "cmd (cl s) = comm_code comm" "comm \<notin> {NREAD_APPEND, NREAD_PREPEND}" "k = item_key (heap (cache s) (citem s))" "lock_free (cache s) k"
    and "\<forall>p. assoc_map (cache s) k = Some p \<longrightarrow> refcount (heap (cache s) p) \<noteq> - 1"
    and "valid = (data_read (nat (nbytes (heap (cache s) (citem s)) - 2)) 2 (i_data (heap (cache s) (citem s))) = CRLF)"
    and "res = store_outcome comm (map_option (\<lambda>p. ITEM_get_cas (heap (cache s) p)) (lookup (cache s) k)) (ITEM_get_cas (heap (cache s) (citem s)))"
  shows "\<exists>s'. complete_nread_ascii lim s = Some s' \<and> cache_inv (cache s') \<and> citem s' = NULL \<and>
    answered (ascii (if valid then store_reply res else ''CLIENT_ERROR bad data chunk'')) (noreply (cl s)) (cl s') \<and>
    input (cl s') = input (cl s) \<and>
    cache_view (cache s') =
      (if valid \<and> res = STORED then (cache_view (cache s))(k \<mapsto> item_value (linked_item (citem s) (cache s)))
       else if valid \<and> lookup (cache s) k = None then (cache_view (cache s))(k := None) else cache_view (cache s))"
proof -
  let ?it = "citem s"
  let ?s = "upd_sstats (\<lambda>t. t\<lparr>set_cmds := bump (ITEM_clsid (heap (cache s) ?it)) (set_cmds t)\<rparr>) s"
  have sf: "cache ?s = cache s" "citem ?s = ?it" "cl ?s = cl s" by (simp_all add: upd_sstats_def)
  have nc: "\<not> has_flag (it_flags (heap (cache s) ?it)) ITEM_CHUNKED" using assms(3) by (simp add: linkable_def)
  note unf = complete_nread_unfold [OF nc assms(5,10), of lim]
  show ?thesis
  proof (cases valid)
    case False
    obtain c where c: "reply lim ''CLIENT_ERROR bad data chunk'' ?s = Some (?s\<lparr>cl := c\<rparr>)" "answered (ascii ''CLIENT_ERROR bad data chunk'') (noreply (cl s)) c"
      "input c = input (cl s)"
      using reply_ok [of ?s "''CLIENT_ERROR bad data chunk''" lim] assms(1) sf by auto
    have "can_release (cache s) ?it" using assms(2,4) linkable_private [OF assms(3)] unfolding can_release_def by blast
    from item_remove_release [OF this] obtain m where "item_remove ?it (cache s) = Some m" "cache_inv m" "cache_view m = cache_view (cache s)"
      using assms(7,8) by blast
    then show ?thesis using False c sf unfolding unf by (simp add: on_cache_def)
  next
    case True
    obtain c' u where u: "store_item ?it comm \<lparr>sfd = 0, c_cas = cas (cl s)\<rparr> (cache s) = Some (res, c', u)" "can_release u ?it" "item_key (heap u ?it) = k" "lock_free u k"
      "cache_view u = (if res = STORED then (cache_view (cache s))(k \<mapsto> item_value (linked_item ?it (cache s)))
        else if lookup (cache s) k = None then (cache_view (cache s))(k := None) else cache_view (cache s))"
      using store_item_ok [OF assms(2,3,6) _ assms(7,8,4,11), of "\<lparr>sfd = 0, c_cas = cas (cl s)\<rparr>"] assms(7,9) by auto
    let ?u = "?s\<lparr>cache := u, cl := (cl s)\<lparr>cas := c_cas c'\<rparr>\<rparr>"
    have rd: "conn_ready (cl ?u)" using assms(1) by (simp add: conn_ready_def allocs_ok_def)
    have "length (store_reply res) \<le> 126" by (simp add: store_reply_def split: store_item_type.split)
    from reply_ok [OF rd this, of lim] obtain c where c: "reply lim (store_reply res) ?u = Some (?u\<lparr>cl := c\<rparr>)" "answered (ascii (store_reply res)) (noreply (cl s)) c"
      "input c = input (cl s)" by (auto simp: input_def)
    have "res \<in> {STORED, EXISTS, NOT_FOUND, NOT_STORED}" using store_outcome_cases assms(11) by blast
    then have rp: "(case res of STORED \<Rightarrow> reply lim ''STORED'' ?u | EXISTS \<Rightarrow> reply lim ''EXISTS'' ?u | NOT_FOUND \<Rightarrow> reply lim ''NOT_FOUND'' ?u
         | NOT_STORED \<Rightarrow> reply lim ''NOT_STORED'' ?u | _ \<Rightarrow> Some ?u) = Some (?u\<lparr>cl := c\<rparr>)" using c(1) by (auto simp: store_reply_def)
    obtain m where m: "item_remove ?it u = Some m" "cache_inv m" "cache_view m = cache_view u" using item_remove_release [OF u(2)] u(3,4) by blast
    have "complete_nread_ascii lim s = Some (?u\<lparr>cl := c, cache := m, citem := NULL\<rparr>)"
      unfolding unf using True u(1) rp m(1) sf by (simp add: on_cache_def)
    then show ?thesis using True m(2,3) c(2,3) u(5) by simp
  qed
qed

section \<open>Example\<close>

text \<open>A cache with an item that a connection has allocated for the key 6 and not stored yet.\<close>

definition ex_private :: cache where
  "ex_private = upd_item 100 (\<lambda>i. i\<lparr>refcount := 1\<rparr>) ex_reb"

lemma ex_private_item: "heap ex_private 100 = (ex_cache_item [6] [49, 13, 10] 0)\<lparr>refcount := 1\<rparr>" by (simp add: ex_private_def ex_reb_defs)

lemma ex_private_facts:
  defines "F \<equiv> (\<lambda>_. [])(1 := [400 :: addr])"
  shows "cinv ex_private F (\<lambda>_. [])" "linkable ex_private F 100" "assoc_map ex_private [6] = None" "item_key (heap ex_private 100) = [6]"
    "item_locks ex_private = (\<lambda>_. False)" "ITEM_get_cas (linked_item 100 ex_private) = 8" "free_items F = {400}"
proof -
  show fi: "free_items F = {400}" by (auto simp: F_def free_items_def split: if_splits)
  have "item_same ((heap ex_reb 100)\<lparr>refcount := 1\<rparr>) (heap ex_reb 100)" by (simp add: item_same_def same_key_def ITEM_ntotal_def ITEM_clsid_def)
  moreover have "100 \<notin> free_items F" unfolding fi by simp
  ultimately show c: "cinv ex_private F (\<lambda>_. [])" and m: "assoc_map ex_private [6] = None"
  proof -
    assume "item_same ((heap ex_reb 100)\<lparr>refcount := 1\<rparr>) (heap ex_reb 100)" "100 \<notin> free_items F"
    then have "cinv ex_private F (\<lambda>_. []) \<and> assoc_map ex_private = assoc_map ex_reb"
      unfolding ex_private_def F_def using cinv_upd_item [OF ex_reb_cinv, of "\<lambda>i. i\<lparr>refcount := 1\<rparr>" 100] by (simp add: lru_items_def)
    moreover have "assoc_items ex_reb = {}" using ex_reb_cinv by (simp add: cinv_def lru_items_def)
    ultimately show "cinv ex_private F (\<lambda>_. [])" "assoc_map ex_private [6] = None"
      by (auto simp: assoc_items_def ran_def) (metis option.exhaust)
  qed
  show "linkable ex_private F 100" unfolding linkable_def fi ex_private_item
    by (simp add: ex_private_def ex_reb_defs ex_cache_item_def zero_item_def key_wf_def valid_cls_def ITEM_clsid_def CLEAR_LRU_def)
  show "item_key (heap ex_private 100) = [6]" unfolding ex_private_item by (simp add: item_key_def ex_cache_item_def)
  show "item_locks ex_private = (\<lambda>_. False)" by (simp add: ex_private_def ex_reb_fields)
  have "link_cas 100 ex_private = 8" unfolding link_cas_def ex_private_item by (simp add: ex_private_def ex_reb_fields ex_settings_def ex_cache_item_def)
  then show "ITEM_get_cas (linked_item 100 ex_private) = 8" unfolding linked_item_cas ex_private_item by (simp add: ex_cache_item_def zero_item_def)
qed

end
