(* ===== verification/Drive_Spec.thy ===== *)
theory Drive_Spec
  imports Drive Commands_Store
begin

text \<open>
  What the state machine of a connection guarantees, however the input is cut into packets.
\<close>

section \<open>Runs\<close>

text \<open>Turns of the loop that do not leave it.\<close>

inductive drives :: "lib \<Rightarrow> bin_lib \<Rightarrow> net_lib \<Rightarrow> conn_limits \<Rightarrow> limits \<Rightarrow> int \<times> machine \<Rightarrow> int \<times> machine \<Rightarrow> bool"
  for L B N K lim where
  stay: "drives L B N K lim a a"
| turn: "drive_step L B N K lim a = Some (False, b) \<Longrightarrow> drives L B N K lim b c \<Longrightarrow> drives L B N K lim a c"

lemma drives_trans: "drives L B N K lim a b \<Longrightarrow> drives L B N K lim b c \<Longrightarrow> drives L B N K lim a c"
  by (induction rule: drives.induct) (auto intro: drives.intros)

lemma drives_one: "drive_step L B N K lim a = Some (False, b) \<Longrightarrow> drives L B N K lim a b"
  by (auto intro: drives.intros)

lemma drives_loop: "drives L B N K lim a b \<Longrightarrow> drive_loop L B N K lim a = drive_loop L B N K lim b"
proof (induction rule: drives.induct)
  case (turn a b c)
  have "drive_loop L B N K lim a = drive_loop L B N K lim b" by (subst drive_loop.simps) (simp add: turn(1))
  then show ?case using turn by simp
qed simp

section \<open>The value of a storage command\<close>

text \<open>The bytes that the client has sent and the server has not used yet.\<close>

definition unread :: "machine \<Rightarrow> bytes" where
  "unread m = input (conn_of m) @ arrived (sock m)"

text \<open>All of the input is data: no end of the stream and no error.\<close>

definition only_data :: "socket_event list \<Rightarrow> bool" where
  "only_data es \<longleftrightarrow> (\<exists>ps. es = map Arrived ps \<and> [] \<notin> set ps)"

lemma only_data_cases: "only_data es \<Longrightarrow> (es = [] \<Longrightarrow> P) \<Longrightarrow> (\<And>bs es'. es = Arrived bs # es' \<Longrightarrow> bs \<noteq> [] \<Longrightarrow> only_data es' \<Longrightarrow> P) \<Longrightarrow> P"
proof -
  assume es: "only_data es" and P: "es = [] \<Longrightarrow> P" "\<And>bs es'. es = Arrived bs # es' \<Longrightarrow> bs \<noteq> [] \<Longrightarrow> only_data es' \<Longrightarrow> P"
  obtain ps where ps: "es = map Arrived ps" "[] \<notin> set ps" using es by (auto simp: only_data_def)
  show P
  proof (cases ps)
    case (Cons q qs)
    then show P using ps by (intro P(2) [of q "map Arrived qs"]) (auto simp: only_data_def)
  qed (use P(1) ps in simp)
qed

lemma sys_read_data:
  assumes "only_data es" "arrived es \<noteq> []" "0 < n"
  obtains bs es' where "sys_read n es = (Data bs, es')" "bs \<noteq> []" "length bs \<le> n" "only_data es'" "arrived es = bs @ arrived es'"
proof (cases rule: only_data_cases [OF assms(1)])
  case (2 bs es')
  have "only_data (if drop n bs = [] then es' else Arrived (drop n bs) # es')"
    using 2(3) by (auto simp: only_data_def intro: exI [of _ "drop n bs # _"])
  then show ?thesis using that [of "take n bs"] 2 assms(3) by (auto split: if_splits)
qed (use assms(2) in simp)

lemma data_write_length: "length (data_write off bs d) = max (length d) (off + length bs)"
  by (simp add: data_write_def Let_def)

lemma data_write_nth:
  "i < length (data_write off bs d) \<Longrightarrow>
   data_write off bs d ! i = (if off \<le> i \<and> i < off + length bs then bs ! (i - off) else if i < length d then d ! i else 0)"
  by (auto simp: data_write_def Let_def nth_append min_def)

lemma data_write_append: "data_write (off + length bs) cs (data_write off bs d) = data_write off (bs @ cs) d"
proof (rule nth_equalityI)
  fix i assume i: "i < length (data_write (off + length bs) cs (data_write off bs d))"
  then show "data_write (off + length bs) cs (data_write off bs d) ! i = data_write off (bs @ cs) d ! i"
    by (auto simp: data_write_nth data_write_length nth_append)
qed (auto simp: data_write_length)

lemma data_write_nil: "off \<le> length d \<Longrightarrow> data_write off [] d = d"
  by (simp add: data_write_def)

text \<open>A connection that waits for \<open>n\<close> bytes of the value of a plain item, \<open>off\<close> bytes of which have come.\<close>

definition awaits :: "addr \<Rightarrow> nat \<Rightarrow> nat \<Rightarrow> machine \<Rightarrow> bool" where
  "awaits it off n m \<longleftrightarrow>
     (let s = srv (ses m); c = cl s
      in state c = conn_nread \<and> citem s = it \<and> it \<noteq> NULL \<and> \<not> has_flag (it_flags (heap (cache s) it)) ITEM_CHUNKED \<and> ritem s = In_item off \<and>
         rlbytes c = int n \<and> int (off + n) \<le> nbytes (heap (cache s) it) \<and> off \<le> length (i_data (heap (cache s) it)) \<and>
         rcurr c + rbytes c \<le> length (rbuf c))"

text \<open>The machine after \<open>bs\<close> has been put into the item: nothing but the item, the positions and the socket differs.\<close>

definition received :: "addr \<Rightarrow> nat \<Rightarrow> bytes \<Rightarrow> machine \<Rightarrow> machine \<Rightarrow> bool" where
  "received it off bs m m' \<longleftrightarrow>
     (\<exists>c sk n. m' = m\<lparr>sock := sk, bytes_read := n, ses := (ses m)\<lparr>srv := (srv (ses m))\<lparr>cl := c, ritem := In_item (off + length bs),
         cache := upd_item it (\<lambda>i. i\<lparr>i_data := data_write off bs (i_data i)\<rparr>) (cache (srv (ses m)))\<rparr>\<rparr>\<rparr> \<and>
       c = (conn_of m)\<lparr>rlbytes := rlbytes c, rcurr := rcurr c, rbytes := rbytes c\<rparr>)"

lemma upd_item_twice: "upd_item a f (upd_item a g s) = upd_item a (\<lambda>i. f (g i)) s"
  by (simp add: upd_item_def fun_upd_def fun_eq_iff)

lemma received_trans:
  assumes "received it off bs m m1" "received it (off + length bs) cs m1 m2"
  shows "received it off (bs @ cs) m m2"
proof -
  obtain c sk n where 1: "m1 = m\<lparr>sock := sk, bytes_read := n, ses := (ses m)\<lparr>srv := (srv (ses m))\<lparr>cl := c, ritem := In_item (off + length bs),
      cache := upd_item it (\<lambda>i. i\<lparr>i_data := data_write off bs (i_data i)\<rparr>) (cache (srv (ses m)))\<rparr>\<rparr>\<rparr>"
    "c = (conn_of m)\<lparr>rlbytes := rlbytes c, rcurr := rcurr c, rbytes := rbytes c\<rparr>" using assms(1) unfolding received_def by blast
  obtain c' sk' n' where 2: "m2 = m1\<lparr>sock := sk', bytes_read := n', ses := (ses m1)\<lparr>srv := (srv (ses m1))\<lparr>cl := c', ritem := In_item (off + length bs + length cs),
      cache := upd_item it (\<lambda>i. i\<lparr>i_data := data_write (off + length bs) cs (i_data i)\<rparr>) (cache (srv (ses m1)))\<rparr>\<rparr>\<rparr>"
    "c' = (conn_of m1)\<lparr>rlbytes := rlbytes c', rcurr := rcurr c', rbytes := rbytes c'\<rparr>" using assms(2) unfolding received_def by blast
  have c': "c' = (conn_of m)\<lparr>rlbytes := rlbytes c', rcurr := rcurr c', rbytes := rbytes c'\<rparr>"
  proof -
    have "c' = c\<lparr>rlbytes := rlbytes c', rcurr := rcurr c', rbytes := rbytes c'\<rparr>" using 2(2) 1(1) by simp
    also have "\<dots> = (conn_of m)\<lparr>rlbytes := rlbytes c', rcurr := rcurr c', rbytes := rbytes c'\<rparr>" by (subst 1(2)) simp
    finally show ?thesis .
  qed
  have "m2 = m\<lparr>sock := sk', bytes_read := n', ses := (ses m)\<lparr>srv := (srv (ses m))\<lparr>cl := c', ritem := In_item (off + length (bs @ cs)),
      cache := upd_item it (\<lambda>i. i\<lparr>i_data := data_write off (bs @ cs) (i_data i)\<rparr>) (cache (srv (ses m)))\<rparr>\<rparr>\<rparr>"
    using 2(1) 1(1) by (simp add: upd_item_twice data_write_append add.assoc)
  with c' show ?thesis unfolding received_def by blast
qed

lemma received_nil:
  assumes "off \<le> length (i_data (heap (cache (srv (ses m))) it))" "ritem (srv (ses m)) = In_item off"
  shows "received it off [] m m"
proof -
  have "upd_item it (\<lambda>i. i\<lparr>i_data := data_write off [] (i_data i)\<rparr>) (cache (srv (ses m))) = cache (srv (ses m))"
    using assms(1) by (simp add: upd_item_def data_write_nil)
  then show ?thesis unfolding received_def using assms(2)
    by (intro exI [of _ "conn_of m"] exI [of _ "sock m"] exI [of _ "bytes_read m"]) simp
qed

lemma take_leftover_ok:
  assumes "awaits it off n m" "0 < rbytes (conn_of m)" "0 < n"
  defines "k \<equiv> min (rbytes (conn_of m)) n"
  shows "\<exists>m1. on_ses (on_srv take_leftover) m = Some m1 \<and> received it off (take k (input (conn_of m))) m m1 \<and> awaits it (off + k) (n - k) m1 \<and>
    sock m1 = sock m \<and> input (conn_of m1) = drop k (input (conn_of m)) \<and> rbytes (conn_of m1) = rbytes (conn_of m) - k"
proof -
  let ?s = "srv (ses m)" and ?c = "conn_of m"
  have a: "ritem ?s = In_item off" "citem ?s = it" "it \<noteq> NULL" "rlbytes ?c = int n" "int (off + n) \<le> nbytes (heap (cache ?s) it)"
    "rcurr ?c + rbytes ?c \<le> length (rbuf ?c)" using assms(1) by (simp_all add: awaits_def Let_def)
  have k: "k \<le> rbytes ?c" "k \<le> n" by (simp_all add: k_def)
  have tk: "take k (drop (rcurr ?c) (rbuf ?c)) = take k (input ?c)" using k(1) by (simp add: input_def min_def)
  have lk: "length (take k (input ?c)) = k" using k(1) a(6) by (simp add: input_def)
  define c1 where "c1 = ?c\<lparr>rlbytes := int n - int k, rcurr := rcurr ?c + k, rbytes := rbytes ?c - k\<rparr>"
  let ?s1 = "?s\<lparr>cl := c1, ritem := In_item (off + k), cache := upd_item it (\<lambda>i. i\<lparr>i_data := data_write off (take k (input ?c)) (i_data i)\<rparr>) (cache ?s)\<rparr>"
  have "take_leftover ?s = Some ?s1"
    using a k lk by (simp add: take_leftover_def Let_def put_ritem_def advance_ritem_def tk c1_def flip: k_def)
  then have 1: "on_ses (on_srv take_leftover) m = Some (m\<lparr>ses := (ses m)\<lparr>srv := ?s1\<rparr>\<rparr>)" by (simp add: on_ses_def on_srv_def)
  have 2: "received it off (take k (input ?c)) m (m\<lparr>ses := (ses m)\<lparr>srv := ?s1\<rparr>\<rparr>)"
    unfolding received_def lk by (intro exI [of _ c1] exI [of _ "sock m"] exI [of _ "bytes_read m"]) (simp add: c1_def)
  have "awaits it (off + k) (n - k) (m\<lparr>ses := (ses m)\<lparr>srv := ?s1\<rparr>\<rparr>)"
    using assms(1) k lk by (simp add: awaits_def Let_def c1_def data_write_length)
  moreover have "input c1 = drop k (input ?c)" by (simp add: c1_def input_def drop_take add.commute)
  ultimately show ?thesis using 1 2 by (auto simp: c1_def)
qed

lemma take_input_ok:
  assumes "awaits it off n m" "length bs \<le> n"
  shows "\<exists>m1. on_ses (on_srv (take_input bs)) (m\<lparr>sock := sk, bytes_read := b\<rparr>) = Some m1 \<and> received it off bs m m1 \<and>
    awaits it (off + length bs) (n - length bs) m1 \<and> sock m1 = sk \<and> input (conn_of m1) = input (conn_of m) \<and> rbytes (conn_of m1) = rbytes (conn_of m)"
proof -
  let ?s = "srv (ses m)" and ?c = "conn_of m"
  have a: "ritem ?s = In_item off" "citem ?s = it" "it \<noteq> NULL" "rlbytes ?c = int n" "int (off + n) \<le> nbytes (heap (cache ?s) it)"
    using assms(1) by (simp_all add: awaits_def Let_def)
  define c1 where "c1 = ?c\<lparr>rlbytes := int n - int (length bs)\<rparr>"
  let ?s1 = "?s\<lparr>cl := c1, ritem := In_item (off + length bs), cache := upd_item it (\<lambda>i. i\<lparr>i_data := data_write off bs (i_data i)\<rparr>) (cache ?s)\<rparr>"
  let ?m1 = "m\<lparr>sock := sk, bytes_read := b, ses := (ses m)\<lparr>srv := ?s1\<rparr>\<rparr>"
  have "take_input bs ?s = Some ?s1" using a assms(2) by (simp add: take_input_def Let_def put_ritem_def advance_ritem_def c1_def)
  then have 1: "on_ses (on_srv (take_input bs)) (m\<lparr>sock := sk, bytes_read := b\<rparr>) = Some ?m1" by (simp add: on_ses_def on_srv_def)
  have 2: "received it off bs m ?m1"
    unfolding received_def by (intro exI [of _ c1] exI [of _ sk] exI [of _ b]) (simp add: c1_def)
  have "awaits it (off + length bs) (n - length bs) ?m1"
    using assms by (simp add: awaits_def Let_def c1_def data_write_length)
  then show ?thesis using 1 2 by (auto simp: c1_def input_def)
qed

lemma drive_step_nread:
  assumes "awaits it off n m" "0 < n" "nread_plain m = Some (False, m')"
  shows "drive_step L B N K lim (q, m) = Some (False, q, m')"
  using assms by (simp add: awaits_def Let_def drive_step_def drive_nread_def)

text \<open>One turn of the loop takes what the buffer and one read give.\<close>

lemma nread_turn:
  assumes "awaits it off n m" "0 < n" "only_data (sock m)" "n \<le> length (unread m)"
  obtains k m1 where "nread_plain m = Some (False, m1)" "0 < k" "k \<le> n" "received it off (take k (unread m)) m m1" "awaits it (off + k) (n - k) m1"
    "only_data (sock m1)" "unread m1 = drop k (unread m)"
proof -
  let ?c = "conn_of m"
  define j where "j = min (rbytes ?c) n"
  have il: "length (input ?c) = rbytes ?c" using assms(1) by (auto simp: awaits_def Let_def input_def)
  obtain m1 where m1: "(if 0 < rbytes ?c then on_ses (on_srv take_leftover) m else Some m) = Some m1" "received it off (take j (input ?c)) m m1"
    "awaits it (off + j) (n - j) m1" "sock m1 = sock m" "input (conn_of m1) = drop j (input ?c)"
  proof (cases "0 < rbytes ?c")
    case True
    then show ?thesis using take_leftover_ok [OF assms(1) True assms(2)] that by (auto simp: j_def)
  next
    case False
    have "off \<le> length (i_data (heap (cache (srv (ses m))) it))" "ritem (srv (ses m)) = In_item off" using assms(1) by (simp_all add: awaits_def Let_def)
    then have "received it off [] m m" by (rule received_nil)
    then show ?thesis using that [of m] False assms(1) by (simp add: j_def)
  qed
  have rl: "rlbytes (conn_of m1) = int (n - j)" using m1(3) by (simp add: awaits_def Let_def)
  show ?thesis
  proof (cases "n \<le> rbytes ?c")
    case True
    then have "nread_plain m = Some (False, m1)" using m1(1) rl by (simp add: nread_plain_def j_def)
    moreover have "take n (unread m) = take j (input ?c)" "unread m1 = drop n (unread m)" using True il m1(4,5) by (simp_all add: unread_def j_def)
    ultimately show ?thesis using that [of m1 n] m1 assms(2,3) True by (auto simp: j_def)
  next
    case False
    then have j: "j = rbytes ?c" "input (conn_of m1) = []" using il m1(5) by (simp_all add: j_def)
    have "arrived (sock m) \<noteq> []" using assms(4) False il by (auto simp: unread_def)
    moreover have "0 < n - j" using False j by simp
    ultimately obtain bs sk where r: "sys_read (n - j) (sock m) = (Data bs, sk)" "bs \<noteq> []" "length bs \<le> n - j" "only_data sk" "arrived (sock m) = bs @ arrived sk"
      using sys_read_data [OF assms(3)] by metis
    obtain m2 where m2: "on_ses (on_srv (take_input bs)) (m1\<lparr>sock := sk, bytes_read := bytes_read m1 + of_nat (length bs)\<rparr>) = Some m2"
      "received it (off + j) bs m1 m2" "awaits it (off + j + length bs) (n - j - length bs) m2" "sock m2 = sk" "input (conn_of m2) = []"
      using take_input_ok [OF m1(3) r(3), where sk = sk and b = "bytes_read m1 + of_nat (length bs)"] j(2) by auto
    have "nat (rlbytes (conn_of m1)) = n - j" "rlbytes (conn_of m1) \<noteq> 0" using rl \<open>0 < n - j\<close> by simp_all
    then have "nread_plain m = Some (False, m2)" using m1(1,4) r(1) m2(1) by (simp add: nread_plain_def)
    moreover have "take (j + length bs) (unread m) = take j (input ?c) @ bs" "unread m2 = drop (j + length bs) (unread m)"
      using il j m2(4,5) r(5) by (simp_all add: unread_def)
    moreover have "received it off (take j (input ?c) @ bs) m m2" using received_trans [OF m1(2)] m2(2) il j(1) by simp
    ultimately show ?thesis using that [of m2 "j + length bs"] m2(3,4) r(2-4) \<open>0 < n - j\<close> by (auto simp: add.assoc)
  qed
qed

lemma nread_collects:
  assumes "awaits it off n m" "only_data (sock m)" "n \<le> length (unread m)"
  shows "\<exists>m'. drives L B N K lim (q, m) (q, m') \<and> received it off (take n (unread m)) m m' \<and> awaits it (off + n) 0 m' \<and>
    only_data (sock m') \<and> unread m' = drop n (unread m)"
  using assms
proof (induction n arbitrary: off m rule: less_induct)
  case (less n)
  show ?case
  proof (cases "n = 0")
    case True
    then have "received it off (take n (unread m)) m m" using less.prems(1) by (simp add: awaits_def Let_def received_nil)
    then show ?thesis using True less.prems by (auto intro: drives.stay)
  next
    case False
    then have "0 < n" by simp
    from nread_turn [OF less.prems(1) this less.prems(2,3)] obtain k m1 where 1: "nread_plain m = Some (False, m1)" "0 < k" "k \<le> n"
      "received it off (take k (unread m)) m m1" "awaits it (off + k) (n - k) m1" "only_data (sock m1)" "unread m1 = drop k (unread m)" by metis
    have "n - k < n" "n - k \<le> length (unread m1)" using 1(2,3,7) less.prems(3) by auto
    from less.IH [OF this(1) 1(5,6) this(2)] obtain m' where 2: "drives L B N K lim (q, m1) (q, m')"
      "received it (off + k) (take (n - k) (unread m1)) m1 m'" "awaits it (off + k + (n - k)) 0 m'" "only_data (sock m')" "unread m' = drop (n - k) (unread m1)" by metis
    have k: "length (take k (unread m)) = k" using 1(3) less.prems(3) by simp
    have "drives L B N K lim (q, m) (q, m')" using drives.turn [OF drive_step_nread [OF less.prems(1) \<open>0 < n\<close> 1(1)] 2(1)] .
    moreover have "received it off (take k (unread m) @ take (n - k) (unread m1)) m m'" using received_trans [OF 1(4)] 2(2) k by simp
    moreover have "take k (unread m) @ take (n - k) (unread m1) = take n (unread m)" using 1(3,7) by (simp flip: take_add)
    ultimately show ?thesis using 2(3-5) 1(3,7) by auto
  qed
qed

lemma fill_item:
  fixes g :: "item \<Rightarrow> bytes"
  assumes c: "cinv s F Q" and l: "linkable s F it"
  defines "t \<equiv> upd_item it (\<lambda>i. i\<lparr>i_data := g i\<rparr>) s"
  shows "cinv t F Q" "linkable t F it" "assoc_map t = assoc_map s" "cache_view t = cache_view s" "lookup t = lookup s"
    "\<And>k p. assoc_map s k = Some p \<Longrightarrow> heap t p = heap s p"
    "item_value (linked_item it t) = (take (nat (nbytes (heap s it))) (g (heap s it)), nbytes (heap s it), exptime (heap s it), ITEM_get_cas (linked_item it s))"
proof -
  have nl: "it \<notin> lru_items Q" "it \<notin> free_items F" using l cinv_linked [OF c, of it] by (auto simp: linkable_def)
  have "item_same ((heap s it)\<lparr>i_data := g (heap s it)\<rparr>) (heap s it)" by (simp add: item_same_def same_key_def ITEM_ntotal_def ITEM_clsid_def)
  then show ct: "cinv t F Q" and a: "assoc_map t = assoc_map s" using cinv_upd_item [OF c _ nl(2)] nl(1) by (auto simp: t_def)
  show "linkable t F it" using l by (simp add: linkable_def t_def key_wf_def valid_cls_def ITEM_clsid_def upd_item_def)
  show h: "heap t p = heap s p" if "assoc_map s k = Some p" for k p using cinv_map_item [OF c that] nl(1) by (auto simp: t_def)
  show "cache_view t = cache_view s" by (rule cache_view_same [OF c a]) (use nl(1) in \<open>auto simp: t_def\<close>)
  have e: "settings t = settings s" "current_time t = current_time s" by (simp_all add: t_def upd_item_def)
  show "lookup t = lookup s"
  proof
    fix k show "lookup t k = lookup s k"
      using h [of k] e by (cases "assoc_map s k") (simp_all add: lookup_def a item_live_def)
  qed
  have "link_cas it t = link_cas it s" by (simp add: link_cas_def t_def upd_item_def)
  then show "item_value (linked_item it t) = (take (nat (nbytes (heap s it))) (g (heap s it)), nbytes (heap s it), exptime (heap s it), ITEM_get_cas (linked_item it s))"
    unfolding item_value_def linked_item_cas by (simp add: t_def upd_item_def)
qed

lemma received_fields:
  assumes "received it 0 bs m m'"
  shows "cache (srv (ses m')) = upd_item it (\<lambda>i. i\<lparr>i_data := data_write 0 bs (i_data i)\<rparr>) (cache (srv (ses m)))"
    "citem (srv (ses m')) = citem (srv (ses m))" "prot (conn_of m') = prot (conn_of m)" "cmd (conn_of m') = cmd (conn_of m)"
    "noreply (conn_of m') = noreply (conn_of m)" "conn_ready (conn_of m') = conn_ready (conn_of m)"
proof -
  obtain c sk n where 1: "m' = m\<lparr>sock := sk, bytes_read := n, ses := (ses m)\<lparr>srv := (srv (ses m))\<lparr>cl := c, ritem := In_item (0 + length bs),
      cache := upd_item it (\<lambda>i. i\<lparr>i_data := data_write 0 bs (i_data i)\<rparr>) (cache (srv (ses m)))\<rparr>\<rparr>\<rparr>"
    "c = (conn_of m)\<lparr>rlbytes := rlbytes c, rcurr := rcurr c, rbytes := rbytes c\<rparr>" using assms unfolding received_def by blast
  show "cache (srv (ses m')) = upd_item it (\<lambda>i. i\<lparr>i_data := data_write 0 bs (i_data i)\<rparr>) (cache (srv (ses m)))"
    "citem (srv (ses m')) = citem (srv (ses m))" using 1(1) by simp_all
  have c: "conn_of m' = c" using 1(1) by simp
  show "prot (conn_of m') = prot (conn_of m)" unfolding c by (subst 1(2)) simp
  show "cmd (conn_of m') = cmd (conn_of m)" unfolding c by (subst 1(2)) simp
  show "noreply (conn_of m') = noreply (conn_of m)" unfolding c by (subst 1(2)) simp
  show "conn_ready (conn_of m') = conn_ready (conn_of m)" unfolding c by (subst 1(2)) (simp add: conn_ready_def allocs_ok_def)
qed

lemma data_write_whole: "length bs = n \<Longrightarrow> take n (data_write 0 bs d) = bs"
  by (simp add: data_write_def)

lemma last_two: "2 \<le> n \<Longrightarrow> length bs = n \<Longrightarrow> data_read (n - 2) 2 (data_write 0 bs d) = drop (n - 2) bs"
  by (simp add: data_read_def data_write_def)

text \<open>
  (C10) A storage command, from the bytes on the wire to the cache and the reply. A text connection waits for the \<open>n\<close> bytes of a value; the client sends them
  cut into any number of packets, some of which may already be in the read buffer, and may send more behind them. The machine then takes exactly these
  \<open>n\<close> bytes and carries the command out: if they end in CR LF and the command asks for it, the key is mapped to precisely these bytes, with the size, expiration
  time and CAS value of the item; otherwise nothing is stored. The client is told, the connection holds no item, and the bytes
  behind the value remain as input.
\<close>

theorem value_stored_from_wire:
  assumes "awaits it 0 n m" "only_data (sock m)" "n \<le> length (unread m)" "prot (conn_of m) = ascii_prot" "conn_ready (conn_of m)"
    and "cinv (cache (srv (ses m))) F Q" "linkable (cache (srv (ses m))) F it" "refcount (heap (cache (srv (ses m))) it) \<noteq> 0"
    and "nbytes (heap (cache (srv (ses m))) it) = int n" "2 \<le> n"
    and "cmd (conn_of m) = comm_code comm" "comm \<notin> {NREAD_APPEND, NREAD_PREPEND}" "k = item_key (heap (cache (srv (ses m))) it)"
    and "lock_free (cache (srv (ses m))) k" "\<forall>p. assoc_map (cache (srv (ses m))) k = Some p \<longrightarrow> refcount (heap (cache (srv (ses m))) p) \<noteq> - 1"
    and "val = take n (unread m)" "valid = (drop (n - 2) val = CRLF)"
    and "res = store_outcome comm (map_option (\<lambda>p. ITEM_get_cas (heap (cache (srv (ses m))) p)) (lookup (cache (srv (ses m))) k))
      (ITEM_get_cas (heap (cache (srv (ses m))) it))"
  shows "\<exists>m'. drives L B N K lim (q, m) (q, m') \<and> unread m' = drop n (unread m) \<and> cache_inv (cache (srv (ses m'))) \<and> citem (srv (ses m')) = NULL \<and>
    answered (ascii (if valid then store_reply res else ''CLIENT_ERROR bad data chunk'')) (noreply (conn_of m)) (conn_of m') \<and>
    cache_view (cache (srv (ses m'))) =
      (if valid \<and> res = STORED then (cache_view (cache (srv (ses m))))(k \<mapsto>
         (val, int n, exptime (heap (cache (srv (ses m))) it), ITEM_get_cas (linked_item it (cache (srv (ses m))))))
       else if valid \<and> lookup (cache (srv (ses m))) k = None then (cache_view (cache (srv (ses m))))(k := None) else cache_view (cache (srv (ses m))))"
proof -
  let ?s = "cache (srv (ses m))"
  obtain m1 where 1: "drives L B N K lim (q, m) (q, m1)" "received it 0 val m m1" "awaits it n 0 m1" "unread m1 = drop n (unread m)"
    using nread_collects [OF assms(1-3), of L B N K lim q] assms(16) by auto
  note f = received_fields [OF 1(2)] and r = fill_item [OF assms(6,7), where g = "\<lambda>i. data_write 0 val (i_data i)"]
  let ?t = "cache (srv (ses m1))"
  have lv: "length val = n" using assms(3,16) by simp
  have w: "i_data (heap ?t it) = data_write 0 val (i_data (heap ?s it))" "nbytes (heap ?t it) = int n" using f(1) assms(9) by (simp_all add: upd_item_def)
  have it: "citem (srv (ses m1)) = it" "state (conn_of m1) = conn_nread" "rlbytes (conn_of m1) = 0" using 1(3) by (simp_all add: awaits_def Let_def)
  have h: "item_key (heap ?t it) = k" "refcount (heap ?t it) \<noteq> 0" "ITEM_get_cas (heap ?t it) = ITEM_get_cas (heap ?s it)"
    using f(1) assms(8,13) by (simp_all add: upd_item_def item_key_def ITEM_get_cas_def)
  have vd: "valid = (data_read (nat (nbytes (heap ?t it) - 2)) 2 (i_data (heap ?t it)) = CRLF)"
    using last_two [OF assms(10) lv] assms(10,17) w by (simp add: nat_diff_distrib)
  have lk: "lock_free ?t k" using assms(14) f(1) by (simp add: lock_free_def upd_item_def)
  have rs: "res = store_outcome comm (map_option (\<lambda>p. ITEM_get_cas (heap ?t p)) (lookup ?t k)) (ITEM_get_cas (heap ?t it))"
    using assms(18) r(5,6) h(3) unfolding f(1) by (auto simp: lookup_def split: option.splits)
  have rf: "\<forall>p. assoc_map ?t k = Some p \<longrightarrow> refcount (heap ?t p) \<noteq> - 1" using assms(15) r(3,6) f(1) by auto
  from complete_nread_stores [where s = "srv (ses m1)" and lim = lim, unfolded it(1), OF _ r(1,2)[folded f(1)] h(2) _ assms(12) h(1)[symmetric] lk rf vd rs]
  obtain s' where s': "complete_nread_ascii lim (srv (ses m1)) = Some s'" "cache_inv (cache s')" "citem s' = NULL"
    "answered (ascii (if valid then store_reply res else ''CLIENT_ERROR bad data chunk'')) (noreply (conn_of m)) (cl s')" "input (cl s') = input (conn_of m1)"
    "cache_view (cache s') = (if valid \<and> res = STORED then (cache_view ?t)(k \<mapsto> item_value (linked_item it ?t))
       else if valid \<and> lookup ?t k = None then (cache_view ?t)(k := None) else cache_view ?t)"
    using f(4-6) assms(5,11) by auto
  let ?m = "m1\<lparr>ses := (ses m1)\<lparr>srv := s'\<rparr>\<rparr>"
  have "drive_step L B N K lim (q, m1) = Some (False, q, ?m)"
    using it(2,3) f(3) assms(4) s'(1) by (simp add: drive_step_def drive_nread_def Let_def complete_nread_def on_ses_def on_srv_def)
  with 1(1) have "drives L B N K lim (q, m) (q, ?m)" by (blast intro: drives_trans drives_one)
  moreover have "unread ?m = drop n (unread m)" using 1(4) s'(5) by (simp add: unread_def)
  moreover have "cache_view ?t = cache_view ?s" "lookup ?t = lookup ?s"
    "item_value (linked_item it ?t) = (val, int n, exptime (heap ?s it), ITEM_get_cas (linked_item it ?s))"
    using r(4,5,7) assms(9) lv unfolding f(1) by (simp_all add: data_write_whole)
  ultimately show ?thesis using s'(2-4,6) by (intro exI [of _ ?m]) simp
qed

section \<open>Swallowing\<close>

text \<open>A connection that throws away the next \<open>n\<close> bytes.\<close>

definition swallows :: "nat \<Rightarrow> machine \<Rightarrow> bool" where
  "swallows n m \<longleftrightarrow> (let c = conn_of m in state c = conn_swallow \<and> sbytes c = int n \<and> rcurr c + rbytes c \<le> length (rbuf c) \<and> 0 < length (rbuf c))"

text \<open>Only the buffer, its positions and the socket differ.\<close>

definition skipped :: "machine \<Rightarrow> machine \<Rightarrow> bool" where
  "skipped m m' \<longleftrightarrow>
     (\<exists>c. m' = set_conn c (m\<lparr>sock := sock m', bytes_read := bytes_read m'\<rparr>) \<and>
       c = (conn_of m)\<lparr>sbytes := sbytes c, rbuf := rbuf c, rcurr := rcurr c, rbytes := rbytes c\<rparr> \<and> length (rbuf c) = length (rbuf (conn_of m)))"

lemma set_conn_simps [simp]:
  "conn_of (set_conn c m) = c" "sock (set_conn c m) = sock m" "bytes_read (set_conn c m) = bytes_read m" "set_conn d (set_conn c m) = set_conn d m"
  "(set_conn c m)\<lparr>sock := sk\<rparr> = set_conn c (m\<lparr>sock := sk\<rparr>)" "(set_conn c m)\<lparr>bytes_read := b\<rparr> = set_conn c (m\<lparr>bytes_read := b\<rparr>)"
  by (simp_all add: set_conn_def upd_cl_def)

lemma set_conn_same [simp]: "set_conn (conn_of m) m = m"
  by (simp add: set_conn_def upd_cl_def)

lemma skipped_refl: "skipped m m"
  unfolding skipped_def by (intro exI [of _ "conn_of m"]) simp

lemma skipped_trans: "skipped m m1 \<Longrightarrow> skipped m1 m2 \<Longrightarrow> skipped m m2"
proof -
  assume "skipped m m1" "skipped m1 m2"
  then obtain c d where c: "m1 = set_conn c (m\<lparr>sock := sock m1, bytes_read := bytes_read m1\<rparr>)" "length (rbuf c) = length (rbuf (conn_of m))"
      "c = (conn_of m)\<lparr>sbytes := sbytes c, rbuf := rbuf c, rcurr := rcurr c, rbytes := rbytes c\<rparr>"
    and d: "m2 = set_conn d (m1\<lparr>sock := sock m2, bytes_read := bytes_read m2\<rparr>)" "length (rbuf d) = length (rbuf (conn_of m1))"
      "d = (conn_of m1)\<lparr>sbytes := sbytes d, rbuf := rbuf d, rcurr := rcurr d, rbytes := rbytes d\<rparr>" unfolding skipped_def by blast
  have m1: "conn_of m1 = c" by (subst c(1)) simp
  have "d = c\<lparr>sbytes := sbytes d, rbuf := rbuf d, rcurr := rcurr d, rbytes := rbytes d\<rparr>" using d(3) m1 by simp
  also have "\<dots> = (conn_of m)\<lparr>sbytes := sbytes d, rbuf := rbuf d, rcurr := rcurr d, rbytes := rbytes d\<rparr>" by (subst c(3)) simp
  finally have "d = (conn_of m)\<lparr>sbytes := sbytes d, rbuf := rbuf d, rcurr := rcurr d, rbytes := rbytes d\<rparr>" .
  moreover have "m2 = set_conn d (m\<lparr>sock := sock m2, bytes_read := bytes_read m2\<rparr>)" by (subst d(1), subst c(1)) simp
  ultimately show "skipped m m2" unfolding skipped_def using c(2) d(2) m1 by auto
qed

lemma skipped_keeps: "skipped m m' \<Longrightarrow> cache (srv (ses m')) = cache (srv (ses m)) \<and> write_and_go (conn_of m') = write_and_go (conn_of m)"
proof -
  assume "skipped m m'"
  then obtain c where c: "m' = set_conn c (m\<lparr>sock := sock m', bytes_read := bytes_read m'\<rparr>)"
    "c = (conn_of m)\<lparr>sbytes := sbytes c, rbuf := rbuf c, rcurr := rcurr c, rbytes := rbytes c\<rparr>" unfolding skipped_def by blast
  have "cache (srv (ses m')) = cache (srv (ses m))" by (subst c(1)) (simp add: set_conn_def upd_cl_def)
  moreover have "conn_of m' = c" by (subst c(1)) simp
  moreover have "write_and_go c = write_and_go (conn_of m)" by (subst c(2)) simp
  ultimately show ?thesis by simp
qed

lemma swallow_turn:
  assumes "swallows n m" "0 < n" "only_data (sock m)" "n \<le> length (unread m)"
  obtains k m1 where "drive_swallow m = Some (False, m1)" "0 < k" "k \<le> n" "skipped m m1" "swallows (n - k) m1" "only_data (sock m1)" "unread m1 = drop k (unread m)"
proof -
  let ?c = "conn_of m"
  have a: "sbytes ?c = int n" "rcurr ?c + rbytes ?c \<le> length (rbuf ?c)" "0 < length (rbuf ?c)" "state ?c = conn_swallow"
    using assms(1) by (simp_all add: swallows_def Let_def)
  have il: "length (input ?c) = rbytes ?c" using a(2) by (simp add: input_def)
  show ?thesis
  proof (cases "0 < rbytes ?c")
    case True
    define k where "k = min (rbytes ?c) n"
    define c1 where "c1 = ?c\<lparr>sbytes := int n - int k, rcurr := rcurr ?c + k, rbytes := rbytes ?c - k\<rparr>"
    have k: "0 < k" "k \<le> n" "k \<le> rbytes ?c" using True assms(2) by (simp_all add: k_def)
    have st: "drive_swallow m = Some (False, set_conn c1 m)" using a True assms(2) by (simp add: drive_swallow_def Let_def c1_def k_def)
    have sk: "skipped m (set_conn c1 m)" unfolding skipped_def by (intro exI [of _ c1]) (simp add: c1_def)
    have sw: "swallows (n - k) (set_conn c1 m)" using a k by (simp add: swallows_def c1_def)
    have "input c1 = drop k (input ?c)" using k(3) by (simp add: c1_def input_def drop_take add.commute)
    then have "unread (set_conn c1 m) = drop k (unread m)" using k(3) il by (simp add: unread_def)
    then show ?thesis using that [OF st k(1,2) sk sw] assms(3) by simp
  next
    case False
    then have i: "input ?c = []" using il by simp
    then have ar: "arrived (sock m) = unread m" by (simp add: unread_def)
    have ne: "arrived (sock m) \<noteq> []" using ar assms(2,4) by auto
    have "0 < min (length (rbuf ?c)) n" using a(3) assms(2) by simp
    from sys_read_data [OF assms(3) ne this] obtain bs sk where r: "sys_read (min (length (rbuf ?c)) n) (sock m) = (Data bs, sk)" "bs \<noteq> []"
      "length bs \<le> min (length (rbuf ?c)) n" "only_data sk" "arrived (sock m) = bs @ arrived sk" by metis
    define c1 where "c1 = ?c\<lparr>sbytes := int n - int (length bs), rbuf := bs @ drop (length bs) (rbuf ?c)\<rparr>"
    define m1 where "m1 = set_conn c1 (m\<lparr>sock := sk, bytes_read := bytes_read m + of_nat (length bs)\<rparr>)"
    have st: "drive_swallow m = Some (False, m1)" using a False assms(2) r(1) by (simp add: drive_swallow_def Let_def c1_def m1_def)
    have lr: "length (rbuf c1) = length (rbuf ?c)" using r(3) by (simp add: c1_def)
    have sp: "skipped m m1" unfolding skipped_def by (intro exI [of _ c1]) (simp add: m1_def c1_def lr [unfolded c1_def, simplified])
    have sw: "swallows (n - length bs) m1" using a r(3) lr False by (simp add: swallows_def m1_def c1_def)
    have "unread m1 = drop (length bs) (unread m)" using ar r(5) False by (simp add: unread_def m1_def c1_def input_def)
    then show ?thesis using that [OF st _ _ sp sw] r(2-4) by (simp add: m1_def)
  qed
qed

lemma swallow_run:
  assumes "swallows n m" "only_data (sock m)" "n \<le> length (unread m)"
  shows "\<exists>m'. drives L B N K lim (q, m) (q, m') \<and> skipped m m' \<and> swallows 0 m' \<and> unread m' = drop n (unread m)"
  using assms
proof (induction n arbitrary: m rule: less_induct)
  case (less n)
  show ?case
  proof (cases "n = 0")
    case True
    then show ?thesis using less.prems skipped_refl drives.stay by (intro exI [of _ m]) simp
  next
    case False
    then have "0 < n" by simp
    from swallow_turn [OF less.prems(1) this less.prems(2,3)] obtain k m1 where 1: "drive_swallow m = Some (False, m1)" "0 < k" "k \<le> n"
      "skipped m m1" "swallows (n - k) m1" "only_data (sock m1)" "unread m1 = drop k (unread m)" by metis
    have "n - k < n" "n - k \<le> length (unread m1)" using 1(2,3,7) less.prems(3) by auto
    from less.IH [OF this(1) 1(5,6) this(2)] obtain m' where 2: "drives L B N K lim (q, m1) (q, m')" "skipped m1 m'" "swallows 0 m'"
      "unread m' = drop (n - k) (unread m1)" by metis
    have "drive_step L B N K lim (q, m) = Some (False, q, m1)" using 1(1) less.prems(1) by (simp add: drive_step_def swallows_def Let_def)
    from drives.turn [OF this 2(1)] show ?thesis using 2(3,4) skipped_trans [OF 1(4) 2(2)] 1(3,7) by auto
  qed
qed

text \<open>
  (C14) A value that is refused is skipped exactly. From \<^verbatim>\<open>conn_swallow\<close> with \<open>n\<close> bytes to throw away, and however these bytes are cut into packets, the machine
  gets to \<^verbatim>\<open>conn_new_cmd\<close> with precisely the next \<open>n\<close> bytes gone: the next command starts where the value ended. The cache and everything
  else the connection holds are untouched.
\<close>

theorem swallow_exact:
  assumes "swallows n m" "only_data (sock m)" "n \<le> length (unread m)"
  shows "\<exists>m'. drives L B N K lim (q, m) (q, m') \<and> state (conn_of m') = conn_new_cmd \<and> unread m' = drop n (unread m) \<and>
    cache (srv (ses m')) = cache (srv (ses m)) \<and> write_and_go (conn_of m') = write_and_go (conn_of m)"
proof -
  obtain m1 where 1: "drives L B N K lim (q, m) (q, m1)" "skipped m m1" "swallows 0 m1" "unread m1 = drop n (unread m)"
    using swallow_run [OF assms] by blast
  let ?m = "set_conn ((conn_of m1)\<lparr>state := conn_new_cmd\<rparr>) m1"
  have "drive_step L B N K lim (q, m1) = Some (False, q, ?m)" using 1(3)
    by (simp add: drive_step_def drive_swallow_def swallows_def Let_def enter_def on_ses_def sess_state_def on_cl_def on_srv_def conn_set_state_def set_conn_def upd_cl_def)
  with 1(1) have "drives L B N K lim (q, m) (q, ?m)" by (blast intro: drives_trans drives_one)
  moreover have "unread ?m = drop n (unread m)" using 1(4) by (simp add: unread_def input_def)
  ultimately show ?thesis by (intro exI [of _ ?m]) (simp add: set_conn_def upd_cl_def skipped_keeps [OF 1(2)])
qed

section \<open>Example machine\<close>

definition ex_session :: "server \<Rightarrow> session" where
  "ex_session s = \<lparr>srv = s, binary_header = \<lparr>magic = 0, extlen = 0, keylen = 0, bodylen = 0, req_cas = 0\<rparr>, substate = bin_no_state, c_keylen = 0,
     sasl = False, sasl_conn = False, auth_done = False, auth_cmds = 0, auth_errors = 0\<rparr>"

definition ex_machine :: "server \<Rightarrow> socket_event list \<Rightarrow> machine" where
  "ex_machine s es = \<lparr>ses = ex_session s, sock = es, dgrams = [], isize = 200, events = EV_READ, ev_results = [], accepts = [], use_accept4 = True,
     nonblocking = [], reqs_per_event = 20, maxconns_fast = False, maxconns = 1024, reserved_fds = 0, curr_conns = 1, conn_yields = 0, bytes_read = 0,
     rejected_conns = 0, dispatched = [], accepting = True, allow_new_conns = True, sfd_open = True\<rparr>"

lemma ex_machine_simps [simp]: "srv (ses (ex_machine s es)) = s" "sock (ex_machine s es) = es"
  by (simp_all add: ex_machine_def ex_session_def)

text \<open>A client has asked to set the key 6 to a value of three bytes with the line end, the first of which is in the read buffer.\<close>

definition ex_setting :: server where
  "ex_setting = (ex_server ex_private)\<lparr>citem := 100, ritem := In_item 0,
     cl := (cl (ex_server ex_private))\<lparr>state := conn_nread, cmd := 2, rlbytes := 3, rbuf := [115, 50, 0, 0], rcurr := 1, rbytes := 1\<rparr>\<rparr>"

theorem value_stored_from_wire_witness:
  "\<forall>L B N K lim q. \<exists>m'. drives L B N K lim (q, ex_machine ex_setting [Arrived [13], Arrived [10, 103]]) (q, m') \<and> unread m' = [103] \<and>
     answered (ascii ''STORED'') False (conn_of m') \<and> cache_view (cache (srv (ses m'))) [6] = Some ([50, 13, 10], 3, 0, 8)"
proof (intro allI)
  fix L B N K lim q
  let ?m = "ex_machine ex_setting [Arrived [13], Arrived [10, 103]]"
  note p = ex_private_facts
  have c: "cache ex_setting = ex_private" by (simp add: ex_setting_def)
  have h: "nbytes (heap ex_private 100) = 3" "refcount (heap ex_private 100) = 1" "exptime (heap ex_private 100) = 0" "i_data (heap ex_private 100) = [49, 13, 10]"
    unfolding ex_private_item by (simp_all add: ex_cache_item_def)
  have nc: "\<not> has_flag (it_flags (heap ex_private 100)) ITEM_CHUNKED" using p(2) by (simp add: linkable_def)
  have u: "unread ?m = [50, 13, 10, 103]" by (simp add: unread_def input_def ex_setting_def)
  have od: "only_data (sock ?m)" unfolding only_data_def by (intro exI [of _ "[[13], [10, 103]]"]) simp
  have aw: "awaits 100 0 3 ?m" using h nc by (simp add: awaits_def c) (simp add: ex_setting_def)
  have f: "conn_ready (conn_of ?m)" "prot (conn_of ?m) = ascii_prot" "cmd (conn_of ?m) = comm_code NREAD_SET" "noreply (conn_of ?m) = False"
    by (simp_all add: ex_setting_def conn_ready_def comm_code_def ex_server_def ex_client_def allocs_ok_def)
  have lf: "lock_free ex_private [6]" by (rule lock_free_ex) (rule p(5))
  have lk: "lookup ex_private [6] = None" using p(3) by (simp add: lookup_def)
  have "\<exists>m'. drives L B N K lim (q, ?m) (q, m') \<and> unread m' = drop 3 (unread ?m) \<and> cache_inv (cache (srv (ses m'))) \<and> citem (srv (ses m')) = NULL \<and>
    answered (ascii (if True then store_reply STORED else ''CLIENT_ERROR bad data chunk'')) (noreply (conn_of ?m)) (conn_of m') \<and>
    cache_view (cache (srv (ses m'))) =
      (if True \<and> STORED = STORED then (cache_view (cache (srv (ses ?m))))([6] \<mapsto>
         ([50, 13, 10], int 3, exptime (heap (cache (srv (ses ?m))) 100), ITEM_get_cas (linked_item 100 (cache (srv (ses ?m))))))
       else if True \<and> lookup (cache (srv (ses ?m))) [6] = None then (cache_view (cache (srv (ses ?m))))([6] := None) else cache_view (cache (srv (ses ?m))))"
    by (rule value_stored_from_wire [where F = "(\<lambda>_. [])(1 := [400])" and Q = "\<lambda>_. []" and comm = NREAD_SET, OF aw od _ f(2,1)])
       (use u f(3) h c p lf in \<open>simp_all add: CRLF_def\<close>)
  then show "\<exists>m'. drives L B N K lim (q, ?m) (q, m') \<and> unread m' = [103] \<and>
     answered (ascii ''STORED'') False (conn_of m') \<and> cache_view (cache (srv (ses m'))) [6] = Some ([50, 13, 10], 3, 0, 8)"
    using u f(4) h(3) c p(6) by (auto simp: store_reply_def)
qed

definition ex_refusing :: server where
  "ex_refusing = (ex_server ex_private)\<lparr>
     cl := (cl (ex_server ex_private))\<lparr>state := conn_swallow, sbytes := 4, rbuf := [115, 50, 0, 0], rcurr := 1, rbytes := 1\<rparr>\<rparr>"

theorem swallow_exact_witness:
  "\<forall>L B N K lim q. \<exists>m'. drives L B N K lim (q, ex_machine ex_refusing [Arrived [51, 13], Arrived [10, 103]]) (q, m') \<and>
     state (conn_of m') = conn_new_cmd \<and> unread m' = [103]"
proof (intro allI)
  fix L B N K lim q
  let ?m = "ex_machine ex_refusing [Arrived [51, 13], Arrived [10, 103]]"
  have "swallows 4 ?m" by (simp add: swallows_def ex_refusing_def)
  moreover have "only_data (sock ?m)" unfolding only_data_def by (intro exI [of _ "[[51, 13], [10, 103]]"]) simp
  moreover have "unread ?m = [50, 51, 13, 10, 103]" by (simp add: unread_def input_def ex_refusing_def)
  ultimately show "\<exists>m'. drives L B N K lim (q, ?m) (q, m') \<and> state (conn_of m') = conn_new_cmd \<and> unread m' = [103]"
    using swallow_exact [of 4 ?m L B N K lim q] by auto
qed

end
