(* ===== verification/Drive_Close.thy ===== *)
theory Drive_Close
  imports Drive_Spec
begin

text \<open>
  Closing a connection: every reference to an item that it holds is given back, and nothing else changes.
\<close>

section \<open>Giving references back\<close>

text \<open>The references in the list \<open>H\<close> are counted in the items: a linked item has one more, that of the cache.\<close>

definition refs_held :: "'z lru_state_scheme \<Rightarrow> (nat \<Rightarrow> addr list) \<Rightarrow> (u8 \<Rightarrow> addr list) \<Rightarrow> addr list \<Rightarrow> bool" where
  "refs_held s F Q H \<longleftrightarrow> (\<forall>it \<in> set H. it \<in> lru_items Q \<and> count_list H it < unat (refcount (heap s it)) \<or>
     private_item s F it \<and> count_list H it \<le> unat (refcount (heap s it)))"

lemma locks_item: "item_locks s = (\<lambda>_. False) \<Longrightarrow> lock_free s k"
  by (simp add: lock_free_def)

lemma same_env_locks: "same_env s t \<Longrightarrow> item_locks s = (\<lambda>_. False) \<Longrightarrow> item_locks t = (\<lambda>_. False)"
  by (simp add: same_env_def)

lemma unat_gt_1: "1 < unat (r :: u16) \<Longrightarrow> 1 < r"
  by (simp add: word_less_nat_alt)

lemma unat_dec: "0 < unat (r :: u16) \<Longrightarrow> unat (r - 1) = unat r - 1"
  using unat_minus_one [of r] by (auto simp: unat_gt_0)

lemma item_remove_frame:
  assumes c: "cinv s F Q" and k: "lock_free s (item_key (heap s it))"
    and it: "it \<in> lru_items Q \<and> 1 < refcount (heap s it) \<or> private_item s F it \<and> refcount (heap s it) \<noteq> 0"
  shows "\<exists>t. item_remove it s = Some t \<and> cinv t (freed s it F) Q \<and> same_env s t \<and> cache_view t = cache_view s \<and>
    (\<forall>a. a \<notin> insert it (free_items F) \<longrightarrow> heap t a = heap s a) \<and>
    (refcount (heap s it) \<noteq> 1 \<longrightarrow> heap t it = (heap s it)\<lparr>refcount := refcount (heap s it) - 1\<rparr>)"
proof -
  let ?k = "item_key (heap s it)" let ?s = "locked ?k s"
  note f = locks_frame [OF c, of "(item_locks s)(hv_bucket (hash s ?k) (item_lock_hashpower s) := True)"]
  have fs: "freed ?s it F = freed s it F" by (simp add: freed_def)
  obtain t where t: "do_item_remove it ?s = Some t" "cinv t (freed s it F) Q" "env t = env ?s" "\<forall>a. a \<notin> insert it (free_items F) \<longrightarrow> heap t a = heap s a"
    "refcount (heap s it) \<noteq> 1 \<longrightarrow> heap t it = (heap s it)\<lparr>refcount := refcount (heap s it) - 1\<rparr>"
  proof (cases "it \<in> lru_items Q \<and> 1 < refcount (heap s it)")
    case True
    have "it \<notin> free_items F" "\<not> has_flag (it_flags (heap s it)) ITEM_SLABBED"
      using cinv_free_not_linked [OF c] True c by (auto simp: cinv_def linked_ok_def)
    moreover have "freed s it F = F" using True by (auto simp: freed_def)
    ultimately show ?thesis using do_item_remove_keep [OF f(1), of it] True that by auto
  next
    case False
    then have p: "private_item ?s F it" "refcount (heap ?s it) \<noteq> 0" using it private_item_cong [of ?s it s F] by auto
    show ?thesis using do_item_remove_private [OF f(1) p] that fs by auto
  qed
  have "can_release ?s it" using f(1) it private_item_cong [of ?s it s F] unfolding can_release_def by (intro exI [of _ F] exI [of _ Q]) auto
  then have v: "cache_view t = cache_view s" using release_view [of ?s it] t(1) f(3) by auto
  have "item_remove it s = Some (item_unlock (hash s ?k) t)" using item_lock_free [OF k] t(1) by (simp add: item_remove_def)
  moreover have "same_env s (item_unlock (hash s ?k) t)" using unlock_env [OF k] env_eq_same_env [OF t(3)] by blast
  ultimately show ?thesis using cinv_unlock [OF t(2), of "hash s ?k"] v t(4,5) by auto
qed

text \<open>One reference less.\<close>

lemma refs_step:
  assumes c: "cinv s F Q" and h: "refs_held s F Q (it # H)" and k: "item_locks s = (\<lambda>_. False)"
  shows "\<exists>t. item_remove it s = Some t \<and> cinv t (freed s it F) Q \<and> refs_held t (freed s it F) Q H \<and> same_env s t \<and> cache_view t = cache_view s \<and>
    (\<forall>a. a \<notin> insert it (free_items F) \<longrightarrow> heap t a = heap s a) \<and>
    (refcount (heap s it) \<noteq> 1 \<longrightarrow> heap t it = (heap s it)\<lparr>refcount := refcount (heap s it) - 1\<rparr>)"
proof -
  have i: "it \<in> lru_items Q \<and> Suc (count_list H it) < unat (refcount (heap s it)) \<or> private_item s F it \<and> Suc (count_list H it) \<le> unat (refcount (heap s it))"
    using h by (simp add: refs_held_def)
  then have "it \<in> lru_items Q \<and> 1 < refcount (heap s it) \<or> private_item s F it \<and> refcount (heap s it) \<noteq> 0"
    using unat_gt_1 [of "refcount (heap s it)"] by (auto simp: unat_gt_0)
  from item_remove_frame [OF c locks_item [OF k] this] obtain t where t: "item_remove it s = Some t" "cinv t (freed s it F) Q" "same_env s t"
    "cache_view t = cache_view s" "\<forall>a. a \<notin> insert it (free_items F) \<longrightarrow> heap t a = heap s a"
    "refcount (heap s it) \<noteq> 1 \<longrightarrow> heap t it = (heap s it)\<lparr>refcount := refcount (heap s it) - 1\<rparr>" by blast
  have pl: "power_largest t = power_largest s" using t(3) by (simp add: same_env_def)
  have "refs_held t (freed s it F) Q H"
    unfolding refs_held_def
  proof
    fix a assume a: "a \<in> set H"
    show "a \<in> lru_items Q \<and> count_list H a < unat (refcount (heap t a)) \<or> private_item t (freed s it F) a \<and> count_list H a \<le> unat (refcount (heap t a))"
    proof (cases "a = it")
      case True
      have pos: "0 < count_list H it" using a True by (simp add: count_list_0_iff zero_less_iff_neq_zero)
      then have r: "1 < unat (refcount (heap s it))" using i by auto
      then have ne: "refcount (heap s it) \<noteq> 1" by auto
      then have ht: "heap t it = (heap s it)\<lparr>refcount := refcount (heap s it) - 1\<rparr>" "freed s it F = F" using t(6) by (auto simp: freed_def)
      have "unat (refcount (heap t it)) = unat (refcount (heap s it)) - 1" using ht(1) r unat_dec by simp
      moreover have "private_item s F it \<Longrightarrow> private_item t F it" using ht(1) pl by (simp add: private_item_def valid_cls_def ITEM_clsid_def)
      ultimately show ?thesis using i r True ht(2) by auto
    next
      case False
      have ha: "a \<in> lru_items Q \<and> count_list H a < unat (refcount (heap s a)) \<or> private_item s F a \<and> count_list H a \<le> unat (refcount (heap s a))"
        using h a False by (auto simp: refs_held_def)
      have nf: "a \<notin> free_items F" using ha cinv_free_not_linked [OF c] by (auto simp: private_item_def)
      then have "heap t a = heap s a" using t(5) False by simp
      moreover have "private_item s F a \<Longrightarrow> private_item t (freed s it F) a"
        using calculation nf False pl by (simp add: private_item_def valid_cls_def freed_items)
      ultimately show ?thesis using ha by auto
    qed
  qed
  then show ?thesis using t by blast
qed

text \<open>The items after the references in \<open>H\<close> are gone: a linked item, and one that someone else still holds, lost exactly these; an item that nobody holds is free again.\<close>

definition refs_dropped :: "'z lru_state_scheme \<Rightarrow> (nat \<Rightarrow> addr list) \<Rightarrow> addr list \<Rightarrow> 'z lru_state_scheme \<Rightarrow> (nat \<Rightarrow> addr list) \<Rightarrow> bool" where
  "refs_dropped s F H t G \<longleftrightarrow> free_items F \<subseteq> free_items G \<and> (\<forall>a. a \<notin> free_items F \<longrightarrow>
     (if a \<in> set H \<and> unat (refcount (heap s a)) = count_list H a then a \<in> free_items G
      else a \<notin> free_items G \<and> heap t a = (heap s a)\<lparr>refcount := refcount (heap s a) - of_nat (count_list H a)\<rparr>))"

lemma refs_dropped_Cons:
  assumes h: "refs_held s F Q (it # H)" and t: "\<forall>a. a \<notin> insert it (free_items F) \<longrightarrow> heap t a = heap s a"
    "refcount (heap s it) \<noteq> 1 \<longrightarrow> heap t it = (heap s it)\<lparr>refcount := refcount (heap s it) - 1\<rparr>"
    and u: "refs_dropped t (freed s it F) H u G"
  shows "refs_dropped s F (it # H) u G"
proof -
  let ?r = "refcount (heap s it)"
  have le: "Suc (count_list H it) \<le> unat ?r" using h by (auto simp: refs_held_def)
  have sub: "free_items F \<subseteq> free_items G" using u by (auto simp: refs_dropped_def freed_items split: if_splits)
  have "(if a \<in> set (it # H) \<and> unat (refcount (heap s a)) = count_list (it # H) a then a \<in> free_items G
      else a \<notin> free_items G \<and> heap u a = (heap s a)\<lparr>refcount := refcount (heap s a) - of_nat (count_list (it # H) a)\<rparr>)"
    if a: "a \<notin> free_items F" for a
  proof (cases "a = it")
    case False
    then have "heap t a = heap s a" "a \<notin> free_items (freed s it F)" using t(1) a by (auto simp: freed_items)
    then show ?thesis using u False by (auto simp: refs_dropped_def)
  next
    case True
    show ?thesis
    proof (cases "?r = 1")
      case one: True
      then have "it \<in> free_items G" using u by (auto simp: refs_dropped_def freed_items)
      moreover have "count_list H it = 0" using le one by simp
      ultimately show ?thesis using True one by simp
    next
      case ne: False
      have ht: "heap t it = (heap s it)\<lparr>refcount := ?r - 1\<rparr>" and ff: "freed s it F = F" using t(2) ne by (auto simp: freed_def)
      have d: "unat (?r - 1) = unat ?r - 1" using le unat_dec [of ?r] by simp
      have "unat ?r \<noteq> 1" using ne by (metis unat_1 word_unat_eq_iff)
      moreover have "it \<in> set H \<longleftrightarrow> count_list H it \<noteq> 0" by (simp add: count_list_0_iff)
      ultimately have e: "(it \<in> set H \<and> unat (?r - 1) = count_list H it) = (unat ?r = Suc (count_list H it))" using d le by auto
      have "(if unat ?r = Suc (count_list H it) then it \<in> free_items G
          else it \<notin> free_items G \<and> heap u it = (heap s it)\<lparr>refcount := ?r - 1 - of_nat (count_list H it)\<rparr>)"
        using u a True ff ht e by (auto simp: refs_dropped_def)
      then show ?thesis using True by (simp add: diff_diff_eq)
    qed
  qed
  then show ?thesis using sub unfolding refs_dropped_def by blast
qed

lemma refs_release:
  assumes "cinv s F Q" "refs_held s F Q H" "item_locks s = (\<lambda>_. False)"
  shows "\<exists>t G. release_list H s = Some t \<and> cinv t G Q \<and> same_env s t \<and> cache_view t = cache_view s \<and> refs_dropped s F H t G"
  using assms
proof (induction H arbitrary: s F)
  case Nil
  then show ?case by (auto simp: refs_dropped_def)
next
  case (Cons it H)
  from refs_step [OF Cons.prems] obtain t where t: "item_remove it s = Some t" "cinv t (freed s it F) Q" "refs_held t (freed s it F) Q H" "same_env s t"
    "cache_view t = cache_view s" "\<forall>a. a \<notin> insert it (free_items F) \<longrightarrow> heap t a = heap s a"
    "refcount (heap s it) \<noteq> 1 \<longrightarrow> heap t it = (heap s it)\<lparr>refcount := refcount (heap s it) - 1\<rparr>" by blast
  have ns: "\<not> has_flag (it_flags (heap s it)) ITEM_SLABBED"
    using Cons.prems(1,2) by (auto simp: refs_held_def private_item_def cinv_def linked_ok_def)
  obtain u G where u: "release_list H t = Some u" "cinv u G Q" "same_env t u" "cache_view u = cache_view t" "refs_dropped t (freed s it F) H u G"
    using Cons.IH [OF t(2,3) same_env_locks [OF t(4) Cons.prems(3)]] by blast
  have "refs_dropped s F (it # H) u G" by (rule refs_dropped_Cons [OF Cons.prems(2) t(6,7) u(5)])
  then show ?case using t(1,4,5) u ns same_env_trans [OF t(4) u(3)] by auto
qed

section \<open>Closing\<close>

definition items_of :: "server \<Rightarrow> addr list" where
  "items_of s = (if citem s = NULL then [] else [citem s]) @ ilist s"

lemma release_list_append: "release_list (xs @ ys) s = Option.bind (release_list xs s) (release_list ys)"
  by (induction xs arbitrary: s) (auto simp: c_assert_def split: if_splits option.splits bind_splits)

lemma refs_held_nonslabbed: "cinv s F Q \<Longrightarrow> refs_held s F Q H \<Longrightarrow> it \<in> set H \<Longrightarrow> \<not> has_flag (it_flags (heap s it)) ITEM_SLABBED"
  by (auto simp: refs_held_def private_item_def cinv_def linked_ok_def)

lemma release_items_ok:
  assumes "cinv (cache s) F Q" "refs_held (cache s) F Q (items_of s)" "item_locks (cache s) = (\<lambda>_. False)" "free_suffixes (suffixlist s) (suffix_cache s) = Some sc"
  shows "\<exists>t G. conn_release_items s = Some (s\<lparr>cache := t, citem := NULL, ilist := [], suffixlist := [], suffix_cache := sc\<rparr>) \<and> cinv t G Q \<and>
    same_env (cache s) t \<and> cache_view t = cache_view (cache s) \<and> refs_dropped (cache s) F (items_of s) t G"
proof -
  obtain t G where t: "release_list (items_of s) (cache s) = Some t" "cinv t G Q" "same_env (cache s) t" "cache_view t = cache_view (cache s)"
    "refs_dropped (cache s) F (items_of s) t G" using refs_release [OF assms(1-3)] by blast
  have "conn_release_items s = Some (s\<lparr>cache := t, citem := NULL, ilist := [], suffixlist := [], suffix_cache := sc\<rparr>)"
  proof (cases "citem s = NULL")
    case True
    then show ?thesis using t(1) assms(4) by (simp add: conn_release_items_def release_item_def items_of_def on_cache_def)
  next
    case False
    then have ns: "\<not> has_flag (it_flags (heap (cache s) (citem s))) ITEM_SLABBED"
      using refs_held_nonslabbed [OF assms(1,2), of "citem s"] by (simp add: items_of_def)
    then obtain u where "item_remove (citem s) (cache s) = Some u" "release_list (ilist s) u = Some t"
      using t(1) False by (auto simp: items_of_def split: bind_splits)
    then show ?thesis using False assms(4) by (simp add: conn_release_items_def release_item_def on_cache_def)
  qed
  then show ?thesis using t by blast
qed



end
