(* ===== verification/Evict.thy ===== *)
theory Evict
  imports Items_Get Crawler
begin

text \<open>
  Making room: \<^verbatim>\<open>lru_pull_tail\<close> of \<^verbatim>\<open>slabs_curd/items.c\<close> looks at the last items of a queue and frees, moves or evicts them. Whatever it does, the cache invariant holds
  afterwards, what is left keeps its value, and an item leaves the cache only for one of the reasons the code names.
\<close>

section \<open>The table after items have gone\<close>

text \<open>The hash table is determined by the items that are left.\<close>

lemma map_of_items:
  assumes "cinv s F Q" "cinv s' F' Q'" "lru_items Q' \<subseteq> lru_items Q" "\<And>x. x \<in> lru_items Q' \<Longrightarrow> item_key (heap s' x) = item_key (heap s x)"
  shows "assoc_map s' = (\<lambda>k. Option.bind (assoc_map s k) (\<lambda>x. if x \<in> lru_items Q' then Some x else None))"
proof
  fix k
  have in_map: "assoc_map s k = Some x" if "assoc_map s' k = Some x" for x
  proof -
    have "x \<in> lru_items Q'" using that assms(2) unfolding cinv_def assoc_items_def by (auto intro: ranI)
    then show ?thesis using cinv_item_map [OF assms(1), of x] assms(3,4) assoc_map_key [OF _ that] assms(2) by (auto simp: cinv_def)
  qed
  have keep: "assoc_map s' k = Some x" if "assoc_map s k = Some x" "x \<in> lru_items Q'" for x
    using cinv_item_map [OF assms(2) that(2)] assms(4) [OF that(2)] assoc_map_key [OF _ that(1)] assms(1) by (simp add: cinv_def)
  show "assoc_map s' k = Option.bind (assoc_map s k) (\<lambda>x. if x \<in> lru_items Q' then Some x else None)"
  proof (cases "assoc_map s' k")
    case None
    then show ?thesis using keep by (cases "assoc_map s k") auto
  next
    case (Some x)
    moreover have "x \<in> lru_items Q'" using Some assms(2) unfolding cinv_def assoc_items_def by (auto intro: ranI)
    ultimately show ?thesis using in_map by simp
  qed
qed

section \<open>What pulling may do\<close>

text \<open>The reasons for which an item may be dropped: it is dead, eviction was asked for, or a lost reference is repaired.\<close>

definition droppable :: "u8 \<Rightarrow> u8 \<Rightarrow> 'z lru_state_scheme \<Rightarrow> addr \<Rightarrow> bool" where
  "droppable cur_lru flags s a \<longleftrightarrow> is_dead a s \<or> (cur_lru = COLD_LRU \<and> has_flag flags LRU_PULL_EVICT \<and> evict_to_free (settings s)) \<or>
     (tail_repair_time (settings s) \<noteq> 0 \<and> refcount (heap s a) \<noteq> 1)"

text \<open>The same stored item; the links of the hash chain and of the queue, the time of the last use and the flags of the LRU may differ.\<close>

definition kept :: "item \<Rightarrow> item \<Rightarrow> bool" where
  "kept i j \<longleftrightarrow> same_key i j \<and> i_data i = i_data j \<and> nbytes i = nbytes j \<and> exptime i = exptime j \<and> ITEM_get_cas i = ITEM_get_cas j \<and>
     refcount i = refcount j \<and> ITEM_clsid i = ITEM_clsid j \<and> ITEM_ntotal i = ITEM_ntotal j"

lemma kept_fields:
  assumes "kept i j"
  shows "item_key i = item_key j" "i_data i = i_data j" "nbytes i = nbytes j" "exptime i = exptime j" "refcount i = refcount j" "ITEM_get_cas i = ITEM_get_cas j"
  using assms by (simp_all add: kept_def same_key_def item_key_def)

lemma kept_refl [simp]: "kept i i" by (simp add: kept_def same_key_def)

lemma kept_trans: "kept i j \<Longrightarrow> kept j k \<Longrightarrow> kept i k"
  by (simp add: kept_def same_key_def)

lemma kept_same_value: "same_value i j \<Longrightarrow> kept i j"
  by (simp add: kept_def same_value_def)

lemma kept_strip: "strip i = strip j \<Longrightarrow> kept i j"
  using strip_fields [of i j] by (simp add: kept_def same_key_def ITEM_clsid_def)

text \<open>A dropped item is free, or it is kept for those who hold it.\<close>

definition gone_ok :: "'z lru_state_scheme \<Rightarrow> 'z lru_state_scheme \<Rightarrow> (nat \<Rightarrow> addr list) \<Rightarrow> addr \<Rightarrow> bool" where
  "gone_ok s s' F' a \<longleftrightarrow>
     (if a \<in> free_items F' then refcount (heap s a) = 1 \<or> tail_repair_time (settings s) \<noteq> 0
      else private_item s' F' a \<and> i_data (heap s' a) = i_data (heap s a) \<and> item_key (heap s' a) = item_key (heap s a) \<and> nbytes (heap s' a) = nbytes (heap s a) \<and>
        refcount (heap s' a) = refcount (heap s a) - 1)"

definition pulled ::
  "(addr \<Rightarrow> bool) \<Rightarrow> 'z lru_state_scheme \<Rightarrow> (nat \<Rightarrow> addr list) \<Rightarrow> (u8 \<Rightarrow> addr list) \<Rightarrow> 'z lru_state_scheme \<Rightarrow> (nat \<Rightarrow> addr list) \<Rightarrow> (u8 \<Rightarrow> addr list) \<Rightarrow> bool" where
  "pulled P s F Q s' F' Q' \<longleftrightarrow> cinv s' F' Q' \<and> lru_items Q' \<subseteq> lru_items Q \<and> free_items F \<subseteq> free_items F' \<and> free_items F' \<subseteq> free_items F \<union> lru_items Q \<and>
     (\<forall>a \<in> lru_items Q - lru_items Q'. P a \<and> gone_ok s s' F' a) \<and>
     (\<forall>a \<in> lru_items Q'. kept (heap s' a) (heap s a) \<and> (is_dead a s' \<longrightarrow> is_dead a s)) \<and>
     (\<forall>a. a \<notin> lru_items Q \<longrightarrow> a \<notin> free_items F' \<longrightarrow> heap s' a = heap s a) \<and> env s' = env s"

lemma pulled_refl: "cinv s F Q \<Longrightarrow> pulled P s F Q s F Q"
  by (simp add: pulled_def)

lemma pulled_trans:
  assumes 1: "pulled P s F Q t F1 Q1" and 2: "pulled P' t F1 Q1 u F2 Q2" and P: "\<And>a. a \<in> lru_items Q1 \<Longrightarrow> P' a \<Longrightarrow> P a"
  shows "pulled P s F Q u F2 Q2"
proof -
  have "P a \<and> gone_ok s u F2 a" if a: "a \<in> lru_items Q" "a \<notin> lru_items Q2" for a
  proof (cases "a \<in> lru_items Q1")
    case True
    then have sv: "kept (heap t a) (heap s a)" and g: "P' a" "gone_ok t u F2 a" using 1 2 a by (auto simp: pulled_def)
    have "settings t = settings s" using 1 by (simp add: pulled_def env_def)
    then show ?thesis using g P [OF True] kept_fields [OF sv] by (simp add: gone_ok_def split: if_splits)
  next
    case False
    then have g: "P a" "gone_ok s t F1 a" using 1 a by (auto simp: pulled_def)
    show ?thesis
    proof (cases "a \<in> free_items F2")
      case True
      then have "a \<in> free_items F1" using 2 False by (auto simp: pulled_def)
      then show ?thesis using g True by (simp add: gone_ok_def)
    next
      case nf: False
      then have "heap u a = heap t a" "a \<notin> free_items F1" "power_largest u = power_largest t" using 2 False by (auto simp: pulled_def env_def)
      then show ?thesis using g nf by (simp add: gone_ok_def private_item_def valid_cls_def)
    qed
  qed
  moreover have "kept (heap u a) (heap s a) \<and> (is_dead a u \<longrightarrow> is_dead a s)" if "a \<in> lru_items Q2" for a
    using 1 2 that kept_trans [of "heap u a" "heap t a" "heap s a"] unfolding pulled_def by blast
  moreover have "heap u a = heap s a" if "a \<notin> lru_items Q" "a \<notin> free_items F2" for a
  proof -
    have "heap u a = heap t a" "heap t a = heap s a" using 1 2 that unfolding pulled_def by blast+
    then show ?thesis by simp
  qed
  moreover have "cinv u F2 Q2" "lru_items Q2 \<subseteq> lru_items Q" "free_items F \<subseteq> free_items F2" "free_items F2 \<subseteq> free_items F \<union> lru_items Q" "env u = env s"
    using 1 2 unfolding pulled_def by auto
  ultimately show ?thesis unfolding pulled_def by blast
qed

lemma is_dead_bumped:
  assumes "kept (heap s' a) (heap s a)" "settings s' = settings s" "current_time s' = current_time s"
    and "i_time (heap s' a) = i_time (heap s a) \<or> i_time (heap s a) \<le> i_time (heap s' a)"
  shows "is_dead a s' \<Longrightarrow> is_dead a s"
  using assms(2-4) kept_fields [OF assms(1)] by (auto simp: is_dead_def item_is_flushed_def Let_def split: if_splits)


section \<open>Steps\<close>

text \<open>An item is dropped.\<close>

lemma pulled_drop:
  assumes c: "cinv s F Q" and x: "x \<in> lru_items Q" "cl = slabs_clsid (heap s x)"
    and c': "cinv s' F' (Q(cl := remove1 x (Q cl)))" and F': "free_items F' = free_items F \<or> free_items F' = insert x (free_items F)"
    and str: "\<And>a. a \<noteq> x \<Longrightarrow> a \<notin> free_items F \<Longrightarrow> strip (heap s' a) = strip (heap s a)"
    and out: "\<And>a. a \<notin> lru_items Q \<Longrightarrow> a \<notin> free_items F \<Longrightarrow> heap s' a = heap s a"
    and e: "env s' = env s" and P: "P x" "gone_ok s s' F' x"
  shows "pulled P s F Q s' F' (Q(cl := remove1 x (Q cl)))" "lru_items (Q(cl := remove1 x (Q cl))) = lru_items Q - {x}"
proof -
  let ?Q = "Q(cl := remove1 x (Q cl))"
  show i: "lru_items ?Q = lru_items Q - {x}"
    using lru_items_remove [of s Q x cl] lru_items_cls [of s Q x] x c by (simp add: cinv_def)
  have "kept (heap s' a) (heap s a) \<and> (is_dead a s' \<longrightarrow> is_dead a s)" if "a \<in> lru_items ?Q" for a
  proof -
    have "a \<noteq> x" "a \<notin> free_items F" using that i cinv_free_not_linked [OF c] by auto
    note st = str [OF this]
    show ?thesis using kept_strip [OF st] is_dead_bumped [OF kept_strip [OF st]] strip_fields [OF st] env_fields [OF e] by auto
  qed
  then show "pulled P s F Q s' F' ?Q" unfolding pulled_def i using c' F' x(1) out e P by auto
qed

text \<open>An item is moved within or between queues.\<close>

lemma pulled_bumped:
  assumes c: "cinv s F Q" and x: "x \<in> lru_items Q" and b: "bumped s F Q x s' Q'"
    and t: "i_time (heap s' x) = i_time (heap s x) \<or> i_time (heap s x) \<le> i_time (heap s' x)"
  shows "pulled P s F Q s' F Q'"
proof -
  note bd = b [unfolded bumped_def]
  have e: "env s' = env s" using bd by blast
  have "kept (heap s' a) (heap s a) \<and> (is_dead a s' \<longrightarrow> is_dead a s)" for a
  proof (cases "a = x")
    case True
    have "kept (heap s' x) (heap s x)" using bd kept_same_value by blast
    then show ?thesis using is_dead_bumped [OF _ env_fields(1,2) [OF e] t] True by auto
  next
    case False
    then have st: "strip (heap s' a) = strip (heap s a)" using bd by blast
    show ?thesis using kept_strip [OF st] is_dead_bumped [OF kept_strip [OF st] env_fields(1,2) [OF e]] strip_fields [OF st] by auto
  qed
  then show ?thesis using bd unfolding pulled_def by auto
qed


section \<open>An item under a reference of one's own\<close>

definition held :: "addr \<Rightarrow> 'z lru_state_scheme \<Rightarrow> 'z lru_state_scheme" where
  "held x s = upd_item x (\<lambda>i. i\<lparr>refcount := refcount i + 1\<rparr>) s"

lemma core_upd_item [simp]: "core (upd_item a f s) = core s" by (simp add: core_def upd_item_def)

lemma pin_fields [simp]:
  "heap (held x s) = (heap s)(x := (heap s x)\<lparr>refcount := refcount (heap s x) + 1\<rparr>)" "env (held x s) = env s" "core (held x s) = core s"
  "settings (held x s) = settings s" "current_time (held x s) = current_time s" "hash (held x s) = hash s" "sizes_bytes (held x s) = sizes_bytes s"
  by (simp_all add: held_def upd_item_def core_def env_def)

text \<open>The reference is given back; the item has at most been moved.\<close>

lemma release_bumped:
  assumes c: "cinv s F Q" and x: "x \<in> lru_items Q" and r: "refcount (heap s x) \<noteq> - 1" and b: "bumped (held x s) F Q x t Q'"
  shows "\<exists>v. do_item_remove x t = Some v \<and> bumped s F Q x v Q' \<and> i_time (heap v x) = i_time (heap t x)"
proof -
  let ?v = "upd_item x (\<lambda>i. i\<lparr>refcount := refcount i - 1\<rparr>) t"
  note h = refcount_inc [OF c x r, folded held_def]
  note bd = b [unfolded bumped_def]
  have sv: "same_value (heap t x) (heap (held x s) x)" using bd by blast
  have rt: "refcount (heap t x) = refcount (heap s x) + 1" "1 < refcount (heap t x)" using sv h(3) by (simp_all add: same_value_def)
  have xq: "x \<in> lru_items Q'" using bd x by blast
  have ct: "cinv t F Q'" using bd by blast
  have "\<not> has_flag (it_flags (heap t x)) ITEM_SLABBED" using ct xq by (auto simp: cinv_def linked_ok_def)
  then have rm: "do_item_remove x t = Some ?v" "cinv ?v F Q'" "assoc_map ?v = assoc_map t"
    using do_item_remove_keep [OF ct _ _ rt(2)] cinv_free_not_linked [OF ct] xq by blast+
  have "same_value (heap ?v x) (heap s x)" using sv rt(1) by (auto simp: same_value_def same_key_def ITEM_get_cas_def ITEM_clsid_def)
  moreover have "assoc_map t = assoc_map s" using bd h(2) by metis
  ultimately have "bumped s F Q x ?v Q'" using bd rm(2,3) by (auto simp: bumped_def)
  then show ?thesis using rm(1) by simp
qed

text \<open>An item with references is unlinked and then released: it is freed if nobody else holds it. \<open>w\<close> may differ from \<open>u\<close> outside of the cache.\<close>

lemma drop_held:
  fixes s t :: "'z lru_state_scheme"
  assumes c: "cinv s F Q" and x: "x \<in> lru_items Q" and r: "refcount (heap s x) \<noteq> - 1" and P: "P x"
    and t: "core t = core (held x s)" "heap t = heap (held x s)" "env t = env s"
  shows "\<exists>u. do_item_unlink_nolock x (hash s (item_key (heap s x))) t = Some u \<and>
    (\<forall>w. core w = core u \<longrightarrow> heap w = heap u \<longrightarrow> env w = env u \<longrightarrow>
      (\<exists>v F' Q'. do_item_remove x w = Some v \<and> pulled P s F Q v F' Q' \<and> lru_items Q' = lru_items Q - {x}))"
proof -
  note h = refcount_inc [OF c x r, folded held_def]
  have ct: "cinv t F Q" "assoc_map t = assoc_map s" using cinv_same_heap [OF h(1) t(1,2)] h(2) by simp_all
  have k: "item_key (heap t x) = item_key (heap s x)" "slabs_clsid (heap t x) = slabs_clsid (heap s x)" "hash t = hash s"
    using env_fields(3) [OF t(3)] by (simp_all add: t(2) item_key_def)
  let ?cl = "slabs_clsid (heap s x)" let ?Q = "Q(?cl := remove1 x (Q ?cl))"
  have r1: "refcount (heap t x) \<noteq> 1" "refcount (heap t x) = refcount (heap s x) + 1" using h(3) by (auto simp: t(2))
  have hv: "hash s (item_key (heap s x)) = hash t (item_key (heap t x))" by (simp add: k)
  have fr: "freed t x F = F" using r1(1) by (simp add: freed_def)
  obtain u where u: "do_item_unlink x (hash s (item_key (heap s x))) t = Some u" "cinv u F ?Q" "env u = env s" "private_item u F x"
    "\<forall>a. a \<notin> lru_items Q \<longrightarrow> a \<notin> free_items F \<longrightarrow> heap u a = heap t a" "\<forall>a. a \<noteq> x \<longrightarrow> a \<notin> free_items F \<longrightarrow> strip (heap u a) = strip (heap t a)"
    "strip (heap u x) = strip ((heap t x)\<lparr>it_flags := clr_flag (it_flags (heap t x)) ITEM_LINKED, refcount := refcount (heap t x) - 1\<rparr>)"
    using do_item_unlink_correct [OF ct(1) x hv] r1(1) unfolding fr k(2) t(3) by blast
  have ux: "refcount (heap u x) = refcount (heap s x)" "i_data (heap u x) = i_data (heap s x)" "item_key (heap u x) = item_key (heap s x)" "nbytes (heap u x) = nbytes (heap s x)"
    using strip_fields [OF u(7)] r1(2) by (simp_all add: item_key_def t(2))
  have fn: "x \<notin> free_items F" using cinv_free_not_linked [OF c] x by blast
  have rp: "refcount (heap s x) \<noteq> 0" using c x by (auto simp: cinv_def linked_ok_def)
  have "\<exists>v F' Q'. do_item_remove x w = Some v \<and> pulled P s F Q v F' Q' \<and> lru_items Q' = lru_items Q - {x}"
    if w: "core w = core u" "heap w = heap u" "env w = env u" for w :: "'z lru_state_scheme"
  proof -
    have cw: "cinv w F ?Q" using cinv_same_heap [OF u(2) w(1,2)] by simp
    have pw: "private_item w F x" using u(4) env_fields(6) [OF w(3)] by (simp add: private_item_def w(2) valid_cls_def)
    have rw: "refcount (heap w x) \<noteq> 0" using ux(1) rp by (simp add: w(2))
    obtain v where v: "do_item_remove x w = Some v" "cinv v (freed w x F) ?Q" "\<forall>a. a \<notin> insert x (free_items F) \<longrightarrow> heap v a = heap w a" "env v = env w"
      "refcount (heap w x) \<noteq> 1 \<longrightarrow> private_item v F x \<and> heap v x = (heap w x)\<lparr>refcount := refcount (heap w x) - 1\<rparr>"
      using do_item_remove_private [OF cw pw rw] by blast
    have fi: "free_items (freed w x F) = (if refcount (heap s x) = 1 then insert x (free_items F) else free_items F)" using ux(1) by (simp add: freed_items w(2))
    have "gone_ok s v (freed w x F) x"
      using v(5) ux fn unfolding gone_ok_def fi by (auto simp: w(2) item_key_def freed_def)
    note dr = pulled_drop [where x = x and P = P, OF c x refl v(2) _ _ _ _ P this]
    have "free_items (freed w x F) = free_items F \<or> free_items (freed w x F) = insert x (free_items F)" using fi by auto
    moreover have "strip (heap v a) = strip (heap s a)" if "a \<noteq> x" "a \<notin> free_items F" for a using v(3) u(6) that by (simp add: w(2) t(2))
    moreover have "heap v a = heap s a" if "a \<notin> lru_items Q" "a \<notin> free_items F" for a using v(3) u(5) that x by (auto simp: w(2) t(2))
    moreover have "env v = env s" using v(4) u(3) w(3) by simp
    ultimately show ?thesis using v(1) dr by blast
  qed
  then show ?thesis using u(1) by (auto simp: do_item_unlink_nolock_eq)
qed


text \<open>A lost reference is repaired: the count is set to one, and the item goes.\<close>

lemma drop_repaired:
  fixes s t :: "'z lru_state_scheme"
  assumes c: "cinv s F Q" and x: "x \<in> lru_items Q" and P: "P x" and tr: "tail_repair_time (settings s) \<noteq> 0"
    and t: "core t = core s" "heap t = (heap s)(x := (heap s x)\<lparr>refcount := 1\<rparr>)" "env t = env s"
  shows "\<exists>v F' Q'. do_item_unlink_nolock x (hash s (item_key (heap s x))) t = Some v \<and> pulled P s F Q v F' Q' \<and> lru_items Q' = lru_items Q - {x}"
proof -
  have fn: "x \<notin> free_items F" using cinv_free_not_linked [OF c] x by blast
  have "cinv t F Q \<and> assoc_map t = assoc_map s"
  proof (rule cinv_cong [OF c t(1)])
    show "0 < refcount (heap t a)" if "a \<in> lru_items Q" for a using c that by (auto simp: t(2) cinv_def linked_ok_def)
  qed (auto simp: t(2) item_same_def same_key_def)
  then have ct: "cinv t F Q" by blast
  have k: "item_key (heap t x) = item_key (heap s x)" "slabs_clsid (heap t x) = slabs_clsid (heap s x)" "hash t = hash s" "refcount (heap t x) = 1"
    using env_fields(3) [OF t(3)] by (simp_all add: t(2) item_key_def)
  let ?cl = "slabs_clsid (heap s x)" let ?Q = "Q(?cl := remove1 x (Q ?cl))"
  have hv: "hash s (item_key (heap s x)) = hash t (item_key (heap t x))" by (simp add: k)
  obtain v where v: "do_item_unlink x (hash s (item_key (heap s x))) t = Some v" "cinv v (freed t x F) ?Q" "env v = env s"
    "\<forall>a. a \<notin> lru_items Q \<longrightarrow> a \<notin> free_items F \<longrightarrow> heap v a = heap t a" "\<forall>a. a \<noteq> x \<longrightarrow> a \<notin> free_items F \<longrightarrow> strip (heap v a) = strip (heap t a)"
    using do_item_unlink_correct [OF ct x hv] unfolding k(2) t(3) by blast
  have fi: "free_items (freed t x F) = insert x (free_items F)" using k(4) by (simp add: freed_items)
  have "gone_ok s v (freed t x F) x" using tr by (simp add: gone_ok_def fi)
  note dr = pulled_drop [where x = x and P = P, OF c x refl v(2) _ _ _ v(3) P this]
  have "strip (heap v a) = strip (heap s a)" if "a \<noteq> x" "a \<notin> free_items F" for a using v(5) that by (simp add: t(2))
  moreover have "heap v a = heap s a" if "a \<notin> lru_items Q" "a \<notin> free_items F" for a using v(4) that x by (auto simp: t(2))
  ultimately show ?thesis using v(1) dr fi by (auto simp: do_item_unlink_nolock_eq)
qed

text \<open>An item is taken off its queue and put into another segment; \<open>t\<close> is the state with the reference taken.\<close>

lemma unlink_q_time: "do_item_unlink_q it s = Some t \<Longrightarrow> i_time (heap t a) = i_time (heap s a)"
  by (auto simp: do_item_unlink_q_def Let_def split: if_splits)

lemma link_q_time: "do_item_link_q it s = Some t \<Longrightarrow> i_time (heap t a) = i_time (heap s a)"
  by (auto simp: do_item_link_q_def Let_def split: if_splits)

lemma move_held:
  fixes s t :: "'z lru_state_scheme"
  assumes c: "cinv s F Q" and x: "x \<in> lru_items Q" and r: "refcount (heap s x) \<noteq> - 1"
    and b: "bumped (held x s) F Q x t Q" "i_time (heap t x) = i_time (heap s x)" and m: "m \<in> {WARM_LRU, COLD_LRU}"
  shows "\<exists>u v w Q'. do_item_unlink_q x t = Some u \<and> item_link_q x (upd_item x (\<lambda>j. j\<lparr>slabs_clsid := ITEM_clsid j OR m\<rparr>) u) = Some v \<and>
    do_item_remove x v = Some w \<and> pulled P s F Q w F Q' \<and> lru_items Q' = lru_items Q"
proof -
  let ?f = "\<lambda>j. j\<lparr>slabs_clsid := ITEM_clsid j OR m\<rparr>"
  have ct: "cinv t F Q" using b(1) by (simp add: bumped_def)
  have "CLEAR_LRU (CLEAR_LRU c OR m) = CLEAR_LRU c" for c using m ITEM_clsid_or_lru by auto
  then have sv: "same_value (?f (heap t x)) (heap t x)"
    by (simp add: same_value_def same_key_def ITEM_get_cas_def ITEM_clsid_def ITEM_ntotal_def)
  obtain u v Q' where u: "do_item_unlink_q x t = Some u" "do_item_link_q x (upd_item x ?f u) = Some v" "bumped t F Q x v Q'"
    using requeue_correct [OF ct x, of ?f, OF sv] by blast
  have bv: "bumped (held x s) F Q x v Q'" by (rule bumped_trans [OF b(1) u(3)])
  obtain w where w: "do_item_remove x v = Some w" "bumped s F Q x w Q'" "i_time (heap w x) = i_time (heap v x)"
    using release_bumped [OF c x r bv] by blast
  have "i_time (heap w x) = i_time (heap s x)" using w(3) link_q_time [OF u(2), of x] unlink_q_time [OF u(1), of x] b(2) by simp
  then have "pulled P s F Q w F Q'" using pulled_bumped [OF c x w(2)] by simp
  moreover have "lru_items Q' = lru_items Q" using w(2) by (simp add: bumped_def)
  ultimately show ?thesis using u w(1) by (auto simp: item_link_q_def)
qed


section \<open>The loop\<close>

text \<open>What \<^const>\<open>lru_pull_tail\<close> does with the outcome of its loop.\<close>

definition pull_finish ::
  "u8 \<Rightarrow> addr \<times> nat \<times> u8 \<times> nat \<times> (addr \<times> u32) option \<times> bool \<Rightarrow> 'z lru_state_scheme \<Rightarrow> (nat \<times> (addr \<times> u32) option \<times> 'z lru_state_scheme) option" where
  "pull_finish flags r s = (case r of (it, removed, move_to_lru, lock, ret_it, blocked) \<Rightarrow>
     (if blocked then Some (0, None, s)
      else if it = NULL then Some (removed, ret_it, s)
      else do {
        s \<leftarrow> (if move_to_lru \<noteq> 0 then item_link_q it (upd_item it (\<lambda>j. j\<lparr>slabs_clsid := ITEM_clsid j OR move_to_lru\<rparr>) s) else Some s);
        s \<leftarrow> (if \<not> has_flag flags LRU_PULL_RETURN_ITEM then do { s \<leftarrow> do_item_remove it s; Some (item_trylock_unlock lock s) } else Some s);
        Some (removed, ret_it, s)
      }))"

lemma lru_pull_tail_eq:
  "orig_id \<noteq> 0 \<Longrightarrow> lru_pull_tail orig_id cur_lru tb flags age s =
     Option.bind (pull_loop orig_id (word_of_nat orig_id OR cur_lru) cur_lru tb flags age 5 (tails s (word_of_nat orig_id OR cur_lru)) 0 s)
       (\<lambda>(r, s). pull_finish flags r s)"
  by (cases "pull_loop orig_id (word_of_nat orig_id OR cur_lru) cur_lru tb flags age 5 (tails s (word_of_nat orig_id OR cur_lru)) 0 s")
    (auto simp: lru_pull_tail_def pull_finish_def Let_def)

text \<open>One item that could be locked.\<close>

lemma pull_loop_visit:
  fixes s sl :: "'z lru_state_scheme" and i :: u8
  assumes x: "x \<noteq> NULL" "\<not> is_crawler (heap s x)" and l: "item_trylock (hash s (item_key (heap s x))) s = Some (l, sl)"
  defines "nx \<equiv> i_prev (heap s x)" and "hv \<equiv> hash s (item_key (heap s x))"
    and "rl \<equiv> refcount (heap (held x sl) x) \<noteq> 2"
    and "s2 \<equiv> (if refcount (heap (held x sl) x) \<noteq> 2 then upd_itemstats i (\<lambda>st. st\<lparr>lrutail_reflocked := lrutail_reflocked st + 1\<rparr>) (held x sl) else held x sl)"
  shows "pull_loop orig_id i cur_lru tb flags age (Suc n) x removed s =
    (if rl \<and> tail_repair_time (settings s2) \<noteq> 0 \<and> i_time (heap s2 x) + tail_repair_time (settings s2) < current_time s2 then
       Option.bind (do_item_unlink_nolock x hv (upd_item x (\<lambda>it. it\<lparr>refcount := 1\<rparr>) (upd_itemstats i (\<lambda>st. st\<lparr>tailrepairs := tailrepairs st + 1\<rparr>) s2)))
         (\<lambda>s. pull_loop orig_id i cur_lru tb flags age n nx removed (item_trylock_unlock l s))
     else if is_dead x s2 then
       Option.bind (do_item_unlink_nolock x hv (upd_itemstats i (\<lambda>st. st\<lparr>reclaimed := reclaimed st + 1,
           expired_unfetched := (if has_flag (it_flags (heap s2 x)) ITEM_FETCHED then expired_unfetched st else expired_unfetched st + 1)\<rparr>) s2))
         (\<lambda>s. Option.bind (do_item_remove x s) (\<lambda>s. pull_loop orig_id i cur_lru tb flags age n nx (removed + 1) (item_trylock_unlock l s)))
     else if cur_lru = HOT_LRU \<or> cur_lru = WARM_LRU then
       Option.bind (pull_hot_warm i cur_lru tb age x l s2)
         (\<lambda>(k, m, s). case k of Walk \<Rightarrow> pull_loop orig_id i cur_lru tb flags age n nx (removed + m) s | Stop d \<Rightarrow> Some ((x, removed + m, d, l, None, False), s))
     else if cur_lru = COLD_LRU then
       Option.bind (pull_cold orig_id i flags hv x s2)
         (\<lambda>(k, m, ret, s). case k of Walk \<Rightarrow> None | Stop d \<Rightarrow> Some ((x, removed + m, d, l, if ret then Some (x, hv) else None, False), s))
     else Some ((x, removed, 0, l, None, False), s2))"
  unfolding nx_def hv_def rl_def s2_def
  by (subst pull_loop.simps) (simp only: x l Let_def held_def [symmetric] is_dead_def option.case if_False simp_thms nat.distinct diff_Suc_1 split_conv prod.case if_cancel)


text \<open>Taking the item's lock changes nothing else.\<close>

definition locked :: "nat \<Rightarrow> 'z lru_state_scheme \<Rightarrow> 'z lru_state_scheme" where
  "locked l s = s\<lparr>item_locks := (item_locks s)(l := True)\<rparr>"

lemma locked_fields [simp]:
  "core (locked l s) = core s" "heap (locked l s) = heap s" "settings (locked l s) = settings s" "current_time (locked l s) = current_time s"
  "hash (locked l s) = hash s" "is_dead a (locked l s) = is_dead a s" "droppable c f (locked l s) a = droppable c f s a"
  by (simp_all add: locked_def core_def is_dead_def item_is_flushed_def droppable_def)

lemma pulled_unlock:
  assumes "\<not> item_locks s l" "pulled P (locked l s) F Q v F' Q'"
  shows "pulled P s F Q (item_trylock_unlock l v) F' Q'"
proof -
  let ?u = "item_trylock_unlock l v"
  have h: "heap ?u = heap v" "core ?u = core v" by (simp_all add: item_trylock_unlock_def core_def)
  have "cinv ?u F' Q'" using cinv_same_heap [OF _ h(2,1)] assms(2) by (simp add: pulled_def)
  moreover have "env ?u = env s" using assms by (simp add: pulled_def env_def item_trylock_unlock_def locked_def fun_upd_idem)
  moreover have "is_dead a ?u = is_dead a v" for a by (simp add: is_dead_def item_is_flushed_def item_trylock_unlock_def)
  moreover have "gone_ok (locked l s) v F' a = gone_ok s ?u F' a" for a
    by (simp add: gone_ok_def h private_item_def valid_cls_def) (simp add: item_trylock_unlock_def)
  ultimately show ?thesis using assms(2) by (simp add: pulled_def h)
qed

definition settles :: "u8 \<Rightarrow> (addr \<Rightarrow> bool) \<Rightarrow> 'z lru_state_scheme \<Rightarrow> (nat \<Rightarrow> addr list) \<Rightarrow> (u8 \<Rightarrow> addr list) \<Rightarrow>
    ((addr \<times> nat \<times> u8 \<times> nat \<times> (addr \<times> u32) option \<times> bool) \<times> 'z lru_state_scheme) option \<Rightarrow> bool" where
  "settles flags P s F Q k \<longleftrightarrow> (\<exists>r t n v F' Q'. k = Some (r, t) \<and> pull_finish flags r t = Some (n, None, v) \<and> pulled P s F Q v F' Q')"

lemma settles_trans:
  assumes 1: "pulled P s F Q t F1 Q1" and 2: "settles flags P' t F1 Q1 k" and P: "\<And>a. a \<in> lru_items Q1 \<Longrightarrow> P' a \<Longrightarrow> P a"
  shows "settles flags P s F Q k"
proof -
  obtain r u n v F' Q' where k: "k = Some (r, u)" "pull_finish flags r u = Some (n, None, v)" "pulled P' t F1 Q1 v F' Q'"
    using 2 unfolding settles_def by blast
  then show ?thesis using pulled_trans [OF 1 k(3) P] unfolding settles_def by blast
qed

lemma settles_stop:
  assumes "\<not> has_flag flags LRU_PULL_RETURN_ITEM" "x \<noteq> NULL" "\<not> item_locks s l"
    and "(if m \<noteq> 0 then item_link_q x (upd_item x (\<lambda>j. j\<lparr>slabs_clsid := ITEM_clsid j OR m\<rparr>) t) else Some t) = Some v" "do_item_remove x v = Some w"
    "pulled P (locked l s) F Q w F' Q'"
  shows "settles flags P s F Q (Some ((x, n, m, l, None, False), t))"
  unfolding settles_def using assms pulled_unlock [OF assms(3,6)] by (auto simp: pull_finish_def)

lemma droppable_pulled:
  assumes "pulled (droppable c f s) s F Q t F1 Q1" "a \<in> lru_items Q1" "droppable c f t a"
  shows "droppable c f s a"
proof -
  have "kept (heap t a) (heap s a)" "is_dead a t \<longrightarrow> is_dead a s" "settings t = settings s" using assms(1,2) by (auto simp: pulled_def env_def)
  then show ?thesis using assms(3) kept_fields(5) by (auto simp: droppable_def)
qed

text \<open>The items of a cache that pulling can cope with: no reference count is about to wrap, and none has the shape of a crawler.\<close>

definition pull_ready :: "'z lru_state_scheme \<Rightarrow> (u8 \<Rightarrow> addr list) \<Rightarrow> bool" where
  "pull_ready s Q \<longleftrightarrow> (\<forall>a \<in> lru_items Q. refcount (heap s a) \<noteq> - 1 \<and> nbytes (heap s a) \<noteq> 0) \<and> ITEM_UPDATE_INTERVAL \<le> current_time s"

lemma pull_ready_pulled:
  assumes p: "pulled P s F Q t F' Q'" and r: "pull_ready s Q"
  shows "pull_ready t Q'"
proof -
  have "refcount (heap t a) = refcount (heap s a)" "nbytes (heap t a) = nbytes (heap s a)" "a \<in> lru_items Q" if "a \<in> lru_items Q'" for a
  proof -
    have "kept (heap t a) (heap s a)" "a \<in> lru_items Q" using p that unfolding pulled_def by blast+
    then show "refcount (heap t a) = refcount (heap s a)" "nbytes (heap t a) = nbytes (heap s a)" "a \<in> lru_items Q" by (simp_all add: kept_fields)
  qed
  moreover have "current_time t = current_time s" using p by (simp add: pulled_def env_def)
  ultimately show ?thesis using r by (simp add: pull_ready_def)
qed

lemma prev_item:
  assumes c: "cinv s F Q" and x: "x \<in> lru_items Q"
  shows "i_prev (heap s x) = NULL \<or> i_prev (heap s x) \<in> lru_items Q - {x}"
proof -
  obtain k where "x \<in> set (Q k)" using x by (auto simp: lru_items_def)
  then obtain ps ns where q: "Q k = ps @ x # ns" by (metis split_list)
  have d: "dll (heap s) (heads s k) (tails s k) (ps @ x # ns)" using c unfolding cinv_def lru_inv_def lru_ok_def q [symmetric] by blast
  show ?thesis using dll_neighbours(6,8) [OF d] lru_itemsI [of _ Q k] q by auto
qed


lemma update_nolock_time:
  assumes "do_item_update_nolock x t = Some u" "ITEM_UPDATE_INTERVAL \<le> current_time t"
  shows "i_time (heap u x) = i_time (heap t x) \<or> i_time (heap t x) \<le> i_time (heap u x)"
proof (cases "i_time (heap t x) < current_time t - ITEM_UPDATE_INTERVAL")
  case True
  then obtain v where v: "do_item_unlink_q x t = Some v \<and> do_item_link_q x (upd_item x (\<lambda>i. i\<lparr>i_time := current_time v\<rparr>) v) = Some u \<or> u = t"
    using assms(1) by (auto simp: do_item_update_nolock_def split: Option.bind_splits if_splits)
  show ?thesis
  proof (cases "u = t")
    case False
    then have q: "do_item_unlink_q x t = Some v" "do_item_link_q x (upd_item x (\<lambda>i. i\<lparr>i_time := current_time v\<rparr>) v) = Some u" using v by auto
    have "current_time v = current_time t" using q(1) by (auto simp: do_item_unlink_q_def Let_def split: if_splits)
    moreover have "i_time (heap t x) \<le> current_time t"
      by (rule order.trans [OF less_imp_le [OF True]]) (use assms(2) in \<open>simp add: word_sub_le\<close>)
    ultimately show ?thesis using link_q_time [OF q(2), of x] by simp
  qed simp
next
  case False
  then show ?thesis using assms(1) by (simp add: do_item_update_nolock_def)
qed


text \<open>Clearing the activity mark and counting are bumps of their own.\<close>

lemma bumped_stats: "bumped s F Q x t Q' \<Longrightarrow> bumped s F Q x (upd_itemstats i g t) Q'"
  by (rule bumped_frame) simp_all

lemma bumped_inactive:
  assumes b: "bumped s F Q x t Q" and x: "x \<in> lru_items Q"
  shows "bumped s F Q x (upd_item x (\<lambda>i. i\<lparr>it_flags := clr_flag (it_flags i) ITEM_ACTIVE\<rparr>) t) Q"
proof -
  have "cinv t F Q" using b by (simp add: bumped_def)
  from bumped_trans [OF b bumped_flag(2) [OF this x, of ITEM_ACTIVE]] show ?thesis by simp
qed

lemma pick_any_frame:
  "core (snd (pick_any_loop n dst s)) = core s \<and> heap (snd (pick_any_loop n dst s)) = heap s \<and> env (snd (pick_any_loop n dst s)) = env s"
  by (induction n arbitrary: s) (simp_all add: Let_def core_def env_def)

lemma reassign_frame:
  fixes s :: "'z lru_state_scheme" and src dst :: int and busy :: bool
  defines "t \<equiv> snd (slabs_reassign busy src dst s)"
  shows "core t = core s" "heap t = heap s" "env t = env s"
proof -
  have c: "core (u\<lparr>slab_rebal := r, slab_rebalance_signal := g\<rparr>) = core u" "heap (u\<lparr>slab_rebal := r, slab_rebalance_signal := g\<rparr>) = heap u"
    "env (u\<lparr>slab_rebal := r, slab_rebalance_signal := g\<rparr>) = env u" for u :: "'z lru_state_scheme" and r g by (simp_all add: core_def env_def)
  have p: "core (snd (slab_reassign_pick_any dst s)) = core s" "heap (snd (slab_reassign_pick_any dst s)) = heap s"
    "env (snd (slab_reassign_pick_any dst s)) = env s" by (simp_all only: slab_reassign_pick_any_def pick_any_frame)
  show "core t = core s" "heap t = heap s" "env t = env s"
    using p by (simp_all add: t_def slabs_reassign_def do_slabs_reassign_def split_beta Let_def c)
qed

text \<open>The visit of an item ends the loop or leaves a cache in which it can go on.\<close>

lemma pull_visit_cold:
  fixes s t :: "'z lru_state_scheme"
  assumes c: "cinv s F Q" and x: "x \<in> lru_items Q" and r: "refcount (heap s x) \<noteq> - 1" and fl: "\<not> has_flag flags LRU_PULL_RETURN_ITEM"
    and P: "has_flag flags LRU_PULL_EVICT \<and> evict_to_free (settings s) \<longrightarrow> P x"
    and t: "core t = core (held x s)" "heap t = heap (held x s)" "env t = env s"
  shows "\<exists>d m u v w F' Q'. pull_cold orig_id i flags (hash s (item_key (heap s x))) x t = Some (Stop d, m, False, u) \<and>
    (if d \<noteq> 0 then item_link_q x (upd_item x (\<lambda>j. j\<lparr>slabs_clsid := ITEM_clsid j OR d\<rparr>) u) else Some u) = Some v \<and>
    do_item_remove x v = Some w \<and> pulled P s F Q w F' Q'"
proof -
  have st: "settings t = settings s" using t(3) by (rule env_fields)
  have tb: "bumped (held x s) F Q x t Q" using bumped_same_heap [of "held x s" F Q t x] refcount_inc(1) [OF c x r, folded held_def] t by simp
  have keep: ?thesis if "pull_cold orig_id i flags (hash s (item_key (heap s x))) x t = Some (Stop 0, 0, False, t)"
  proof -
    obtain w where "do_item_remove x t = Some w" "bumped s F Q x w Q" "i_time (heap w x) = i_time (heap t x)" using release_bumped [OF c x r tb] by blast
    then show ?thesis using that pulled_bumped [OF c x] t(2) by (intro exI [of _ 0] exI [of _ t] exI [of _ w] exI [of _ F] exI [of _ Q]) simp
  qed
  show ?thesis
  proof (cases "has_flag flags LRU_PULL_EVICT")
    case ev: True
    show ?thesis
    proof (cases "evict_to_free (settings s)")
      case True
      define t1 where "t1 = upd_itemstats i (\<lambda>st. st\<lparr>evicted := evicted st + 1,
                     evicted_time := current_time t - i_time (heap t x),
                     evicted_nonzero := (if exptime (heap t x) \<noteq> 0 then evicted_nonzero st + 1 else evicted_nonzero st),
                     evicted_unfetched := (if has_flag (it_flags (heap t x)) ITEM_FETCHED then evicted_unfetched st
                                           else evicted_unfetched st + 1),
                     evicted_active := (if has_flag (it_flags (heap t x)) ITEM_ACTIVE then evicted_active st + 1
                                        else evicted_active st)\<rparr>) t"
      have "core t1 = core (held x s)" "heap t1 = heap (held x s)" "env t1 = env s" using t by (simp_all add: t1_def)
      from drop_held [OF c x r, of P, OF _ this] obtain u where u: "do_item_unlink_nolock x (hash s (item_key (heap s x))) t1 = Some u"
        "\<And>w. core w = core u \<Longrightarrow> heap w = heap u \<Longrightarrow> env w = env u \<Longrightarrow>
           \<exists>v F' Q'. do_item_remove x w = Some v \<and> pulled P s F Q v F' Q' \<and> lru_items Q' = lru_items Q - {x}" using P ev True by blast
      define w where "w = (if slab_automove (settings u) = 2 then snd (slabs_reassign False (- 1) (int orig_id) u) else u)"
      have "core w = core u" "heap w = heap u" "env w = env u"
        using reassign_frame [of False "- 1" "int orig_id" u] by (auto simp: w_def)
      from u(2) [OF this] obtain v F' Q' where "do_item_remove x w = Some v" "pulled P s F Q v F' Q'" by blast
      moreover have "pull_cold orig_id i flags (hash s (item_key (heap s x))) x t = Some (Stop 0, 1, False, w)"
        using ev True u(1) by (simp add: pull_cold_def st Let_def t1_def [symmetric] w_def [symmetric])
      ultimately show ?thesis
        by (intro exI [of _ 0] exI [of _ "1 :: nat"] exI [of _ w] exI [of _ w] exI [of _ v] exI [of _ F'] exI [of _ Q']) simp
    qed (use keep ev in \<open>simp add: pull_cold_def st\<close>)
  next
    case nev: False
    show ?thesis
    proof (cases "has_flag (it_flags (heap t x)) ITEM_ACTIVE \<and> lru_segmented (settings t)")
      case True
      define t1 where "t1 = upd_item x (\<lambda>it. it\<lparr>it_flags := clr_flag (it_flags it) ITEM_ACTIVE\<rparr>) (upd_itemstats i (\<lambda>st. st\<lparr>moves_to_warm := moves_to_warm st + 1\<rparr>) t)"
      have b1: "bumped (held x s) F Q x t1 Q" unfolding t1_def by (rule bumped_inactive [OF bumped_stats [OF tb] x])
      have "i_time (heap t1 x) = i_time (heap s x)" by (simp add: t1_def t(2))
      from move_held [OF c x r b1 this, of WARM_LRU P] obtain u v w Q' where "do_item_unlink_q x t1 = Some u"
        "item_link_q x (upd_item x (\<lambda>j. j\<lparr>slabs_clsid := ITEM_clsid j OR WARM_LRU\<rparr>) u) = Some v" "do_item_remove x v = Some w" "pulled P s F Q w F Q'" by auto
      moreover have "(WARM_LRU :: u8) \<noteq> 0" by (simp add: lru_id_defs)
      ultimately show ?thesis using nev True fl
        by (intro exI [of _ WARM_LRU] exI [of _ "1 :: nat"] exI [of _ u] exI [of _ v] exI [of _ w] exI [of _ F] exI [of _ Q']) (simp add: pull_cold_def t1_def Let_def)
    qed (use keep nev fl in \<open>auto simp: pull_cold_def\<close>)
  qed
qed


lemma pull_visit_hot_warm:
  fixes s t :: "'z lru_state_scheme"
  assumes c: "cinv s F Q" and x: "x \<in> lru_items Q" and r: "refcount (heap s x) \<noteq> - 1" and tm: "ITEM_UPDATE_INTERVAL \<le> current_time s"
    and t: "core t = core (held x s)" "heap t = heap (held x s)" "env t = env s"
  shows "(\<exists>m u Q'. pull_hot_warm i cur_lru tb age x l t = Some (Walk, m, item_trylock_unlock l u) \<and> pulled P s F Q u F Q' \<and> lru_items Q' = lru_items Q) \<or>
    (\<exists>d m u v w Q'. pull_hot_warm i cur_lru tb age x l t = Some (Stop d, m, u) \<and>
      (if d \<noteq> 0 then item_link_q x (upd_item x (\<lambda>j. j\<lparr>slabs_clsid := ITEM_clsid j OR d\<rparr>) u) else Some u) = Some v \<and>
      do_item_remove x v = Some w \<and> pulled P s F Q w F Q')"
proof -
  have tb: "bumped (held x s) F Q x t Q" using bumped_same_heap [of "held x s" F Q t x] refcount_inc(1) [OF c x r, folded held_def] t by simp
  have mv: "\<exists>u v w Q'. do_item_unlink_q x t1 = Some u \<and> item_link_q x (upd_item x (\<lambda>j. j\<lparr>slabs_clsid := ITEM_clsid j OR d\<rparr>) u) = Some v \<and>
      do_item_remove x v = Some w \<and> pulled P s F Q w F Q' \<and> d \<noteq> 0"
    if b: "bumped (held x s) F Q x t1 Q" "i_time (heap t1 x) = i_time (heap s x)" and d: "d \<in> {WARM_LRU, COLD_LRU}" for t1 d
  proof -
    have "d \<noteq> 0" using d by (auto simp: lru_id_defs)
    then show ?thesis using move_held [OF c x r b d, of P] by auto
  qed
  let ?ta = "upd_item x (\<lambda>it. it\<lparr>it_flags := clr_flag (it_flags it) ITEM_ACTIVE\<rparr>) t"
  have ba: "bumped (held x s) F Q x ?ta Q" by (rule bumped_inactive [OF tb x])
  show ?thesis
  proof (cases "has_flag (it_flags (heap t x)) ITEM_ACTIVE")
    case act: True
    show ?thesis
    proof (cases "cur_lru = WARM_LRU")
      case True
      let ?t1 = "upd_itemstats i (\<lambda>st. st\<lparr>moves_within_lru := moves_within_lru st + 1\<rparr>) ?ta"
      have b1: "bumped (held x s) F Q x ?t1 Q" by (rule bumped_stats [OF ba])
      then have c1: "cinv ?t1 F Q" by (simp add: bumped_def)
      obtain u Q' where u: "do_item_update_nolock x ?t1 = Some u" "bumped ?t1 F Q x u Q'" using do_item_update_nolock_correct [OF c1 x] by blast
      obtain v where v: "do_item_remove x u = Some v" "bumped s F Q x v Q'" "i_time (heap v x) = i_time (heap u x)"
        using release_bumped [OF c x r bumped_trans [OF b1 u(2)]] by blast
      have "current_time ?t1 = current_time s" using env_fields(2) [OF t(3)] by (simp add: upd_itemstats_def)
      then have "i_time (heap u x) = i_time (heap s x) \<or> i_time (heap s x) \<le> i_time (heap u x)"
        using update_nolock_time [OF u(1)] tm by (simp add: t(2))
      then have "pulled P s F Q v F Q'" using pulled_bumped [OF c x v(2)] v(3) by simp
      moreover have "lru_items Q' = lru_items Q" using v(2) by (simp add: bumped_def)
      moreover have "pull_hot_warm i cur_lru tb age x l t = Some (Walk, 1, item_trylock_unlock l v)"
        using act True u(1) v(1) by (simp add: pull_hot_warm_def Let_def)
      ultimately show ?thesis by blast
    next
      case False
      let ?t1 = "upd_itemstats i (\<lambda>st. st\<lparr>moves_to_warm := moves_to_warm st + 1\<rparr>) ?ta"
      have it: "i_time (heap ?t1 x) = i_time (heap s x)" by (simp add: t(2))
      obtain u v w Q' where u: "do_item_unlink_q x ?t1 = Some u" "item_link_q x (upd_item x (\<lambda>j. j\<lparr>slabs_clsid := ITEM_clsid j OR WARM_LRU\<rparr>) u) = Some v"
        "do_item_remove x v = Some w" "pulled P s F Q w F Q'" "WARM_LRU \<noteq> (0 :: u8)"
        using mv [OF bumped_stats [OF ba] it, of WARM_LRU] by blast
      have "pull_hot_warm i cur_lru tb age x l t = Some (Stop WARM_LRU, 1, u)" using act False u(1) by (simp add: pull_hot_warm_def Let_def)
      then show ?thesis using u by (intro disjI2 exI [of _ WARM_LRU] exI [of _ 1] exI [of _ u] exI [of _ v] exI [of _ w] exI [of _ Q']) simp
    qed
  next
    case na: False
    show ?thesis
    proof (cases "lru_limit cur_lru tb (settings t) < sizes_bytes t i \<or> age < current_time t - i_time (heap t x)")
      case True
      let ?t1 = "upd_itemstats i (\<lambda>st. st\<lparr>moves_to_cold := moves_to_cold st + 1\<rparr>) t"
      have it: "i_time (heap ?t1 x) = i_time (heap s x)" by (simp add: t(2))
      obtain u v w Q' where u: "do_item_unlink_q x ?t1 = Some u" "item_link_q x (upd_item x (\<lambda>j. j\<lparr>slabs_clsid := ITEM_clsid j OR COLD_LRU\<rparr>) u) = Some v"
        "do_item_remove x v = Some w" "pulled P s F Q w F Q'" "COLD_LRU \<noteq> (0 :: u8)"
        using mv [OF bumped_stats [OF tb] it, of COLD_LRU] by blast
      have "pull_hot_warm i cur_lru tb age x l t = Some (Stop COLD_LRU, 1, u)" using na True u(1) by (simp add: pull_hot_warm_def Let_def)
      then show ?thesis using u by (intro disjI2 exI [of _ COLD_LRU] exI [of _ 1] exI [of _ u] exI [of _ v] exI [of _ w] exI [of _ Q']) simp
    next
      case False
      obtain w where "do_item_remove x t = Some w" "bumped s F Q x w Q" "i_time (heap w x) = i_time (heap t x)" using release_bumped [OF c x r tb] by blast
      moreover have "pull_hot_warm i cur_lru tb age x l t = Some (Stop 0, 0, t)" using na False by (auto simp: pull_hot_warm_def Let_def)
      ultimately show ?thesis using pulled_bumped [OF c x] t(2)
        by (intro disjI2 exI [of _ 0] exI [of _ t] exI [of _ w] exI [of _ Q]) simp
    qed
  qed
qed

lemma is_dead_cong:
  assumes "exptime (heap s' x) = exptime (heap s x)" "i_time (heap s' x) = i_time (heap s x)" "ITEM_get_cas (heap s' x) = ITEM_get_cas (heap s x)"
    "settings s' = settings s" "current_time s' = current_time s"
  shows "is_dead x s' = is_dead x s"
  using assms by (simp add: is_dead_def item_is_flushed_def)

text \<open>The whole loop.\<close>

lemma pull_loop_correct:
  fixes s :: "'z lru_state_scheme"
  assumes "cinv s F Q" "pull_ready s Q" "x = NULL \<or> x \<in> lru_items Q" "\<not> has_flag flags LRU_PULL_RETURN_ITEM"
  shows "settles flags (droppable cur_lru flags s) s F Q (pull_loop orig_id i cur_lru tb flags age tries x removed s)"
  using assms(1-3)
proof (induction tries arbitrary: s F Q x removed)
  case 0
  then show ?case by (subst pull_loop.simps) (auto simp: settles_def pull_finish_def intro: pulled_refl)
next
  case (Suc n)
  show ?case
  proof (cases "x = NULL")
    case True
    then show ?thesis using Suc.prems by (subst pull_loop.simps) (auto simp: settles_def pull_finish_def intro: pulled_refl)
  next
    case nn: False
    then have x: "x \<in> lru_items Q" using Suc.prems(3) by simp
    note c = Suc.prems(1)
    have rd: "refcount (heap s x) \<noteq> - 1" "\<not> is_crawler (heap s x)" "ITEM_UPDATE_INTERVAL \<le> current_time s"
      using Suc.prems(2) x by (auto simp: pull_ready_def is_crawler_def)
    let ?D = "droppable cur_lru flags s" let ?nx = "i_prev (heap s x)" let ?hv = "hash s (item_key (heap s x))"
    define l where "l = hv_bucket ?hv (item_lock_hashpower s)"
    show ?thesis
    proof (cases "item_locks s l")
      case True
      then have "item_trylock ?hv s = None" by (simp add: item_trylock_def l_def Let_def)
      then have "pull_loop orig_id i cur_lru tb flags age (Suc n) x removed s = pull_loop orig_id i cur_lru tb flags age n ?nx removed s"
        using nn rd(2) by (subst pull_loop.simps) simp
      then show ?thesis using Suc.IH [OF c Suc.prems(2), of ?nx removed] prev_item [OF c x] by auto
    next
      case free: False
      let ?sl = "locked l s"
      have lk: "item_trylock ?hv s = Some (l, ?sl)" using free by (simp add: item_trylock_def l_def locked_def Let_def)
      have cl: "cinv ?sl F Q" using cinv_same_heap [OF c, of ?sl] by simp
      have rl: "refcount (heap ?sl x) \<noteq> - 1" "ITEM_UPDATE_INTERVAL \<le> current_time ?sl" using rd by simp_all
      text \<open>After a visit that goes on: \<open>u\<close> before the unlock.\<close>
      have go: "settles flags ?D s F Q (pull_loop orig_id i cur_lru tb flags age n ?nx m (item_trylock_unlock l u))"
        if u: "pulled ?D ?sl F Q u F' Q'" "lru_items Q - {x} \<subseteq> lru_items Q'" for u F' Q' m
      proof -
        have p: "pulled ?D s F Q (item_trylock_unlock l u) F' Q'" by (rule pulled_unlock [OF free u(1)])
        have "?nx = NULL \<or> ?nx \<in> lru_items Q'" using prev_item [OF c x] u(2) by auto
        moreover have "cinv (item_trylock_unlock l u) F' Q'" using p by (simp add: pulled_def)
        ultimately show ?thesis using settles_trans [OF p Suc.IH [OF _ pull_ready_pulled [OF p Suc.prems(2)]]] droppable_pulled [OF p] by blast
      qed
      have stop: "settles flags ?D s F Q (Some ((x, m, d, l, None, False), u))"
        if "(if d \<noteq> 0 then item_link_q x (upd_item x (\<lambda>j. j\<lparr>slabs_clsid := ITEM_clsid j OR d\<rparr>) u) else Some u) = Some v"
          "do_item_remove x v = Some w" "pulled ?D ?sl F Q w F' Q'" for d m u v w F' Q'
        by (rule settles_stop [OF assms(4) nn free that])
      define s2 where "s2 = (if refcount (heap (held x ?sl) x) \<noteq> 2
        then upd_itemstats i (\<lambda>st. st\<lparr>lrutail_reflocked := lrutail_reflocked st + 1\<rparr>) (held x ?sl) else held x ?sl)"
      have s2: "core s2 = core (held x ?sl)" "heap s2 = heap (held x ?sl)" "env s2 = env ?sl" by (simp_all add: s2_def)
      have e2: "settings s2 = settings s" "current_time s2 = current_time s" using env_fields(1,2) [OF s2(3)] by simp_all
      have d2: "is_dead x s2 = is_dead x s" by (rule is_dead_cong) (simp_all add: s2(2) e2 ITEM_get_cas_def)
      note visit = pull_loop_visit [OF nn rd(2) lk, of orig_id i cur_lru tb flags age n removed, folded s2_def]
      consider (repair) "refcount (heap (held x ?sl) x) \<noteq> 2" "tail_repair_time (settings s2) \<noteq> 0" "i_time (heap s2 x) + tail_repair_time (settings s2) < current_time s2"
        | (dead) "\<not> (refcount (heap (held x ?sl) x) \<noteq> 2 \<and> tail_repair_time (settings s2) \<noteq> 0 \<and> i_time (heap s2 x) + tail_repair_time (settings s2) < current_time s2)" "is_dead x s2"
        | (live) "\<not> (refcount (heap (held x ?sl) x) \<noteq> 2 \<and> tail_repair_time (settings s2) \<noteq> 0 \<and> i_time (heap s2 x) + tail_repair_time (settings s2) < current_time s2)" "\<not> is_dead x s2"
        by blast
      then show ?thesis
      proof cases
        case repair
        let ?t = "upd_item x (\<lambda>it. it\<lparr>refcount := 1\<rparr>) (upd_itemstats i (\<lambda>st. st\<lparr>tailrepairs := tailrepairs st + 1\<rparr>) s2)"
        have "core ?t = core ?sl" "heap ?t = (heap ?sl)(x := (heap ?sl x)\<lparr>refcount := 1\<rparr>)" "env ?t = env ?sl" using s2 by simp_all
        moreover have "?D x" "tail_repair_time (settings ?sl) \<noteq> 0" using repair(1,2) e2 by (auto simp: droppable_def)
        ultimately obtain v F' Q' where v: "do_item_unlink_nolock x ?hv ?t = Some v" "pulled ?D ?sl F Q v F' Q'" "lru_items Q' = lru_items Q - {x}"
          using drop_repaired [OF cl x, of ?D ?t] by auto
        then show ?thesis using go [OF v(2), of removed] repair unfolding visit by simp
      next
        case dead
        let ?t = "upd_itemstats i (\<lambda>st. st\<lparr>reclaimed := reclaimed st + 1,
          expired_unfetched := (if has_flag (it_flags (heap s2 x)) ITEM_FETCHED then expired_unfetched st else expired_unfetched st + 1)\<rparr>) s2"
        have t: "core ?t = core (held x ?sl)" "heap ?t = heap (held x ?sl)" "env ?t = env ?sl" using s2 by simp_all
        have "?D x" using dead(2) d2 by (simp add: droppable_def)
        then obtain u v F' Q' where v: "do_item_unlink_nolock x ?hv ?t = Some u" "do_item_remove x u = Some v" "pulled ?D ?sl F Q v F' Q'" "lru_items Q' = lru_items Q - {x}"
          using drop_held [OF cl x rl(1), of ?D, OF _ t] by auto
        show ?thesis unfolding visit if_not_P [OF dead(1)] if_P [OF dead(2)] v(1) using v(2) go [OF v(3), of "removed + 1"] v(4) by simp
      next
        case live
        show ?thesis
        proof (cases "cur_lru = HOT_LRU \<or> cur_lru = WARM_LRU")
          case hw: True
          show ?thesis unfolding visit if_not_P [OF live(1)] if_not_P [OF live(2)] if_P [OF hw]
            using pull_visit_hot_warm [OF cl x rl s2, of i cur_lru tb age l ?D] go stop by fastforce
        next
          case nhw: False
          show ?thesis
          proof (cases "cur_lru = COLD_LRU")
            case True
            have P: "has_flag flags LRU_PULL_EVICT \<and> evict_to_free (settings ?sl) \<longrightarrow> ?D x" using True by (simp add: droppable_def)
            obtain d m u v w F' Q' where p: "pull_cold orig_id i flags ?hv x s2 = Some (Stop d, m, False, u)"
              "(if d \<noteq> 0 then item_link_q x (upd_item x (\<lambda>j. j\<lparr>slabs_clsid := ITEM_clsid j OR d\<rparr>) u) else Some u) = Some v"
              "do_item_remove x v = Some w" "pulled ?D ?sl F Q w F' Q'"
              using pull_visit_cold [where P = ?D, OF cl x rl(1) assms(4) P s2, of orig_id i] by (simp only: locked_fields) blast
            show ?thesis unfolding visit if_not_P [OF live(1)] if_not_P [OF live(2)] if_not_P [OF nhw] if_P [OF True]
              using p(1) stop [OF p(2-4)] by simp
          next
            case False
            have tb: "bumped (held x ?sl) F Q x s2 Q" using bumped_same_heap [of "held x ?sl" F Q s2 x] refcount_inc(1) [OF cl x rl(1), folded held_def] s2 by simp
            obtain w where w: "do_item_remove x s2 = Some w" "bumped ?sl F Q x w Q" "i_time (heap w x) = i_time (heap s2 x)" using release_bumped [OF cl x rl(1) tb] by blast
            have "pulled ?D ?sl F Q w F Q" using pulled_bumped [OF cl x w(2)] w(3) s2(2) by simp
            then show ?thesis unfolding visit if_not_P [OF live(1)] if_not_P [OF live(2)] if_not_P [OF nhw] if_not_P [OF False]
              using stop [of 0 s2 s2 w F Q removed] w(1) by simp
          qed
        qed
      qed
    qed
  qed
qed


section \<open>Pulling the tail\<close>

lemma tail_item:
  assumes "cinv s F Q"
  shows "tails s k = NULL \<or> tails s k \<in> lru_items Q"
proof -
  have d: "dll (heap s) (heads s k) (tails s k) (Q k)" using assms by (auto simp: cinv_def lru_inv_def lru_ok_def)
  then show ?thesis using last_or_in [of "Q k" NULL] lru_itemsI [of _ Q k] by (cases "Q k") (auto simp: dll_def)
qed

lemma lru_pull_tail_correct:
  assumes c: "cinv s F Q" and r: "pull_ready s Q" and fl: "\<not> has_flag flags LRU_PULL_RETURN_ITEM"
  shows "\<exists>n s' F' Q'. lru_pull_tail orig_id cur_lru tb flags age s = Some (n, None, s') \<and> pulled (droppable cur_lru flags s) s F Q s' F' Q'"
proof (cases "orig_id = 0")
  case True
  then show ?thesis using pulled_refl [OF c] by (auto simp: lru_pull_tail_def)
next
  case False
  let ?i = "word_of_nat orig_id OR cur_lru"
  have "settles flags (droppable cur_lru flags s) s F Q (pull_loop orig_id ?i cur_lru tb flags age 5 (tails s ?i) 0 s)"
    by (rule pull_loop_correct [OF c r tail_item [OF c] fl])
  then obtain k t n v F' Q' where "pull_loop orig_id ?i cur_lru tb flags age 5 (tails s ?i) 0 s = Some (k, t)" "pull_finish flags k t = Some (n, None, v)"
    "pulled (droppable cur_lru flags s) s F Q v F' Q'" unfolding settles_def by blast
  then show ?thesis unfolding lru_pull_tail_eq [OF False] by auto
qed

end
