(* ===== verification/Maintainer.thy ===== *)
theory Maintainer
  imports Evict Store Rebalance Slab_Automove
begin

text \<open>
  The work of the LRU maintainer thread of \<^verbatim>\<open>memory_lru/items.c\<close> on the queues: sizing the segments of a class, applying the bumps that readers have queued, and deciding
  when the crawler should look for expired items. \<^verbatim>\<open>Slab_Automove\<close> models the schedule of the thread and the page balancing.

  One bump buffer is modelled. The ages of the tails are multiplied with factors of type \<^verbatim>\<open>double\<close> and converted back; the two products are parameters.
\<close>

section \<open>Sizing the segments\<close>

text \<open>The number of turns that pulled something, with the state.\<close>

fun temp_pulls :: "nat \<Rightarrow> nat \<Rightarrow> 'z lru_state_scheme \<Rightarrow> (nat \<times> 'z lru_state_scheme) option" where
  "temp_pulls 0 cid s = Some (0, s)"
| "temp_pulls (Suc n) cid s = do {
     (r, _, s) \<leftarrow> lru_pull_tail cid TEMP_LRU 0 0 0 s;
     (if r = 0 then Some (0, s)
      else do {
        (k, s) \<leftarrow> temp_pulls n cid s;
        Some (Suc k, s)
      })
   }"

fun juggle_pulls :: "nat \<Rightarrow> nat \<Rightarrow> u64 \<Rightarrow> u32 \<Rightarrow> u32 \<Rightarrow> 'z lru_state_scheme \<Rightarrow> (nat \<times> 'z lru_state_scheme) option" where
  "juggle_pulls 0 cid tb hot_age warm_age s = Some (0, s)"
| "juggle_pulls (Suc n) cid tb hot_age warm_age s = do {
     (h, _, s) \<leftarrow> lru_pull_tail cid HOT_LRU tb LRU_PULL_CRAWL_BLOCKS hot_age s;
     (w, s) \<leftarrow> (if h \<noteq> 0 then Some (h, s)
       else do {
         (w, _, s) \<leftarrow> lru_pull_tail cid WARM_LRU tb LRU_PULL_CRAWL_BLOCKS warm_age s;
         Some (w, s)
       });
     let do_more = (if w \<noteq> 0 then 1 else 0 :: nat);
     (do_more, s) \<leftarrow> (if lru_segmented (settings s)
       then do {
         (c, _, s) \<leftarrow> lru_pull_tail cid COLD_LRU tb LRU_PULL_CRAWL_BLOCKS 0 s;
         Some (do_more + c, s)
       }
       else Some (do_more, s));
     (if do_more = 0 then Some (0, s)
      else do {
        (k, s) \<leftarrow> juggle_pulls n cid tb hot_age warm_age s;
        Some (Suc k, s)
      })
   }"

text \<open>The ages at which items of the other segments are moved, from the age of the cold tail.\<close>

definition juggle_ages :: "(u32 \<Rightarrow> u32) \<Rightarrow> (u32 \<Rightarrow> u32) \<Rightarrow> nat \<Rightarrow> 'z lru_state_scheme \<Rightarrow> u32 \<times> u32" where
  "juggle_ages hot_factor warm_factor cid s =
     (if lru_segmented (settings s) then
        let tl = tails s (word_of_nat cid OR COLD_LRU);
            cold_age = (if tl \<noteq> NULL then current_time s - i_time (heap s tl) else 0)
        in (hot_factor cold_age, warm_factor cold_age)
      else (0, 0))"

text \<open>\<open>hot_factor\<close> and \<open>warm_factor\<close> give the products of the cold age.\<close>

definition lru_maintainer_juggle ::
  "(u32 \<Rightarrow> u32) \<Rightarrow> (u32 \<Rightarrow> u32) \<Rightarrow> nat \<Rightarrow> 'z lru_state_scheme \<Rightarrow> (nat \<times> 'z lru_state_scheme) option" where
  "lru_maintainer_juggle hot_factor warm_factor cid s = do {
     let (_, _, total_bytes, _) = slabs_available_chunks cid s;
     (moves, total_bytes, s) \<leftarrow> (if temp_lru (settings s)
       then do {
         (k, s) \<leftarrow> temp_pulls 100 cid s;
         Some (k, total_bytes - ucast (temp_lru_size cid s), s)
       }
       else Some (0, total_bytes, s));
     let (hot_age, warm_age) = juggle_ages hot_factor warm_factor cid s;
     (k, s) \<leftarrow> juggle_pulls 500 cid total_bytes hot_age warm_age s;
     Some (moves + k, s)
   }"

section \<open>Applying the queued bumps\<close>

text \<open>\<^verbatim>\<open>lru_bump_async\<close> of this directory; the copy in \<^verbatim>\<open>slabs_curd/items.c\<close> reports every bump as dropped.\<close>

definition lru_bump_queue :: "addr \<Rightarrow> u32 \<Rightarrow> 'z lru_state_scheme \<Rightarrow> bool \<times> 'z lru_state_scheme" where
  "lru_bump_queue it hv s =
     (let s = upd_item it (\<lambda>i. i\<lparr>refcount := refcount i + 1\<rparr>) s;
          (ret, s) = (case bipbuf_request (bump_buf s) sizeof_lru_bump_entry of
             Some off \<Rightarrow>
               (let (n, b) = bipbuf_push sizeof_lru_bump_entry (bb_memcpy off [(it, hv)] (bump_buf s))
                in if n = 0 then (False, s\<lparr>bump_buf := b, bump_dropped := bump_dropped s + 1\<rparr>) else (True, s\<lparr>bump_buf := b\<rparr>))
           | None \<Rightarrow> (False, s\<lparr>bump_dropped := bump_dropped s + 1\<rparr>));
          s = (if \<not> ret then upd_item it (\<lambda>i. i\<lparr>refcount := refcount i - 1\<rparr>) s else s)
      in (ret, s))"

fun apply_bumps :: "(addr \<times> u32) list \<Rightarrow> 'z lru_state_scheme \<Rightarrow> 'z lru_state_scheme option" where
  "apply_bumps [] s = Some s"
| "apply_bumps ((it, hv) # es) s = do {
     s \<leftarrow> Store.item_lock hv s;
     s \<leftarrow> do_item_update it s;
     s \<leftarrow> do_item_remove it s;
     apply_bumps es (Store.item_unlock hv s)
   }"

text \<open>The entries of a region; each takes sixteen bytes.\<close>

definition bump_entries :: "(addr \<times> u32) bipbuf \<Rightarrow> int \<Rightarrow> int \<Rightarrow> (addr \<times> u32) list" where
  "bump_entries b off sz = map (\<lambda>n. bb_data b (off + sizeof_lru_bump_entry * int n)) [0..<nat (sz div sizeof_lru_bump_entry)]"

definition lru_maintainer_bumps :: "'z lru_state_scheme \<Rightarrow> (bool \<times> 'z lru_state_scheme) option" where
  "lru_maintainer_bumps s =
     (case bipbuf_peek_all (bump_buf s) of
        None \<Rightarrow> Some (False, s)
      | Some (off, sz) \<Rightarrow> do {
          s \<leftarrow> apply_bumps (bump_entries (bump_buf s) off sz) s;
          Some (True, s\<lparr>bump_buf := snd (bipbuf_poll sz (bump_buf s))\<rparr>)
        })"

section \<open>When to crawl\<close>

record crawl_plan =
  next_crawls :: "u8 \<Rightarrow> u32"
  next_crawl_wait :: "u8 \<Rightarrow> u32"

abbreviation (input) MAX_MAINTCRAWL_WAIT :: u32 where "MAX_MAINTCRAWL_WAIT \<equiv> 3600"

text \<open>The minutes of the histogram are summed up until more than the watermark can be reclaimed; the result is the minute, if there is one, and the sum.\<close>

fun reclaim_minute :: "nat \<Rightarrow> u64 list \<Rightarrow> u64 \<Rightarrow> u64 \<Rightarrow> nat option \<times> u64" where
  "reclaim_minute x [] low avail = (None, avail)"
| "reclaim_minute x (h # hs) low avail = (if low < avail + h then (Some x, avail + h) else reclaim_minute (x + 1) hs low (avail + h))"

definition crawl_wait :: "crawlerstats_t \<Rightarrow> u32 \<Rightarrow> u32" where
  "crawl_wait st w =
     (let (minute, avail) = reclaim_minute 0 (take 60 (histo st)) ((seen st - noexp st) div 100 + 1) 0;
          w = (case minute of None \<Rightarrow> w | Some x \<Rightarrow> if w < of_nat (x * 60) then w + 60 else if 60 \<le> w then w - 60 else w);
          w = (if avail = 0 then w + 60 else w)
      in if MAX_MAINTCRAWL_WAIT < w then MAX_MAINTCRAWL_WAIT else w)"

text \<open>One class: the classes to crawl so far and the limit are passed on.\<close>

definition check_class :: "u8 \<Rightarrow> (u8 \<Rightarrow> bool) \<times> u32 \<times> crawl_plan \<times> crawl_state \<Rightarrow> (u8 \<Rightarrow> bool) \<times> u32 \<times> crawl_plan \<times> crawl_state" where
  "check_class i = (\<lambda>(todo, limit, p, s).
     (let st = crawlerstats (cdata s) i;
          (p, s) = (if run_complete st
            then let w = crawl_wait st (next_crawl_wait p i)
                 in (p\<lparr>next_crawl_wait := (next_crawl_wait p)(i := w), next_crawls := (next_crawls p)(i := current_time s + w + 5)\<rparr>,
                     s\<lparr>cdata := upd_stats i (\<lambda>t. t\<lparr>run_complete := False\<rparr>) (cdata s)\<rparr>)
            else (p, s))
      in if next_crawls p i < current_time s
         then (todo(i := True), if limit < sizes s i then sizes s i else limit, p\<lparr>next_crawls := (next_crawls p)(i := current_time s + 5)\<rparr>, s)
         else (todo, limit, p, s)))"

text \<open>\<open>tocrawl\<close> is \<^verbatim>\<open>settings.lru_crawler_tocrawl\<close>.\<close>

definition lru_maintainer_crawler_check :: "u32 \<Rightarrow> crawl_plan \<times> crawl_state \<Rightarrow> (crawl_plan \<times> crawl_state) option" where
  "lru_maintainer_crawler_check tocrawl = (\<lambda>(p, s).
     (let (todo, limit, p, s) = fold check_class class_ids (\<lambda>_. False, 0, p, s)
      in if \<exists>i \<in> set class_ids. todo i
         then let limit = (if tocrawl \<noteq> 0 \<and> tocrawl < limit then tocrawl else limit)
              in map_option (\<lambda>(_, s). (p, s)) (lru_crawler_start todo limit CRAWLER_AUTOEXPIRE True None None s)
         else Some (p, s)))"


section \<open>Juggling evicts nothing that is alive\<close>

text \<open>The reasons to drop an item without being asked to evict.\<close>

definition lapsed :: "'z lru_state_scheme \<Rightarrow> addr \<Rightarrow> bool" where
  "lapsed s a \<longleftrightarrow> is_dead a s \<or> (tail_repair_time (settings s) \<noteq> 0 \<and> refcount (heap s a) \<noteq> 1)"

lemma lapsed_pulled: "pulled P s F Q t F1 Q1 \<Longrightarrow> a \<in> lru_items Q1 \<Longrightarrow> lapsed t a \<Longrightarrow> lapsed s a"
proof -
  assume p: "pulled P s F Q t F1 Q1" "a \<in> lru_items Q1" "lapsed t a"
  then have "kept (heap t a) (heap s a)" "is_dead a t \<longrightarrow> is_dead a s" "settings t = settings s" by (auto simp: pulled_def env_def)
  then show ?thesis using p(3) kept_fields(5) by (auto simp: lapsed_def)
qed

lemma pulled_more:
  assumes p: "pulled (lapsed s) s F Q t F1 Q1" and q: "pulled (lapsed t) t F1 Q1 u F2 Q2"
  shows "pulled (lapsed s) s F Q u F2 Q2"
  by (rule pulled_trans [OF p q]) (rule lapsed_pulled [OF p])

lemma pull_no_evict:
  fixes s :: "'z lru_state_scheme"
  assumes c: "cinv s F Q" and r: "pull_ready s Q" and fl: "flags \<in> {0, LRU_PULL_CRAWL_BLOCKS}"
  obtains n s' F' Q' where "lru_pull_tail cid cur_lru tb flags age s = Some (n, None, s')" "pulled (lapsed s) s F Q s' F' Q'"
    "cinv s' F' Q'" "pull_ready s' Q'"
proof -
  have f: "\<not> has_flag flags LRU_PULL_RETURN_ITEM" "\<not> has_flag flags LRU_PULL_EVICT" using fl by (auto simp: has_flag_def)
  obtain n s' F' Q' where p: "lru_pull_tail cid cur_lru tb flags age s = Some (n, None, s')" "pulled (droppable cur_lru flags s) s F Q s' F' Q'"
    using lru_pull_tail_correct [OF c r f(1)] by blast
  have "droppable cur_lru flags s = lapsed s" using f(2) by (auto simp: droppable_def lapsed_def)
  then have "pulled (lapsed s) s F Q s' F' Q'" using p(2) by simp
  then show ?thesis using that p(1) pull_ready_pulled [OF _ r] by (auto simp: pulled_def)
qed

lemma temp_pulls_correct:
  assumes "cinv s F Q" "pull_ready s Q"
  shows "\<exists>n s' F' Q'. temp_pulls k cid s = Some (n, s') \<and> pulled (lapsed s) s F Q s' F' Q' \<and> cinv s' F' Q' \<and> pull_ready s' Q'"
  using assms
proof (induction k arbitrary: s F Q)
  case 0
  then show ?case using pulled_refl [OF 0(1)] by simp blast
next
  case (Suc k)
  obtain n t F1 Q1 where 1: "lru_pull_tail cid TEMP_LRU 0 0 0 s = Some (n, None, t)" "pulled (lapsed s) s F Q t F1 Q1" "cinv t F1 Q1" "pull_ready t Q1"
    by (rule pull_no_evict [OF Suc.prems, of 0]) simp_all
  obtain m u F2 Q2 where 2: "temp_pulls k cid t = Some (m, u)" "pulled (lapsed t) t F1 Q1 u F2 Q2" "cinv u F2 Q2" "pull_ready u Q2"
    using Suc.IH [OF 1(3,4)] by blast
  show ?case
  proof (cases "n = 0")
    case True
    then have "temp_pulls (Suc k) cid s = Some (0, t)" using 1(1) by simp
    then show ?thesis using 1 by blast
  next
    case False
    then have "temp_pulls (Suc k) cid s = Some (Suc m, u)" using 1(1) 2(1) by simp
    then show ?thesis using pulled_more [OF 1(2) 2(2)] 2(3,4) by blast
  qed
qed

lemma juggle_pulls_correct:
  assumes "cinv s F Q" "pull_ready s Q"
  shows "\<exists>n s' F' Q'. juggle_pulls k cid tb ha wa s = Some (n, s') \<and> pulled (lapsed s) s F Q s' F' Q' \<and> cinv s' F' Q' \<and> pull_ready s' Q'"
  using assms
proof (induction k arbitrary: s F Q)
  case 0
  then show ?case using pulled_refl [OF 0(1)] by simp blast
next
  case (Suc k)
  let ?B = "LRU_PULL_CRAWL_BLOCKS"
  obtain h t F1 Q1 where h: "lru_pull_tail cid HOT_LRU tb ?B ha s = Some (h, None, t)" "pulled (lapsed s) s F Q t F1 Q1" "cinv t F1 Q1" "pull_ready t Q1"
    by (rule pull_no_evict [OF Suc.prems, of ?B]) simp_all
  obtain w u F2 Q2 where w: "(if h \<noteq> 0 then Some (h, t) else Option.bind (lru_pull_tail cid WARM_LRU tb ?B wa t) (\<lambda>(w, _, s). Some (w, s))) = Some (w, u)"
    "pulled (lapsed s) s F Q u F2 Q2" "cinv u F2 Q2" "pull_ready u Q2"
  proof (cases "h = 0")
    case True
    obtain w u F2 Q2 where w: "lru_pull_tail cid WARM_LRU tb ?B wa t = Some (w, None, u)" "pulled (lapsed t) t F1 Q1 u F2 Q2" "cinv u F2 Q2" "pull_ready u Q2"
      by (rule pull_no_evict [OF h(3,4), of ?B]) simp_all
    show ?thesis by (rule that [of w u F2 Q2]) (use True w pulled_more [OF h(2) w(2)] in simp_all)
  qed (rule that [of h t F1 Q1]; use h in simp)
  define d where "d = (if w \<noteq> 0 then 1 else 0 :: nat)"
  obtain m v F3 Q3 where m: "(if lru_segmented (settings u) then Option.bind (lru_pull_tail cid COLD_LRU tb ?B 0 u) (\<lambda>(c, _, s). Some (d + c, s)) else Some (d, u)) = Some (m, v)"
    "pulled (lapsed s) s F Q v F3 Q3" "cinv v F3 Q3" "pull_ready v Q3"
  proof (cases "lru_segmented (settings u)")
    case True
    obtain c v F3 Q3 where c: "lru_pull_tail cid COLD_LRU tb ?B 0 u = Some (c, None, v)" "pulled (lapsed u) u F2 Q2 v F3 Q3" "cinv v F3 Q3" "pull_ready v Q3"
      by (rule pull_no_evict [OF w(3,4), of ?B]) simp_all
    show ?thesis by (rule that [of "d + c" v F3 Q3]) (use True c pulled_more [OF w(2) c(2)] in simp_all)
  qed (rule that [of d u F2 Q2]; use w in simp)
  have step: "juggle_pulls (Suc k) cid tb ha wa s =
    (if m = 0 then Some (0, v) else Option.bind (juggle_pulls k cid tb ha wa v) (\<lambda>(k, s). Some (Suc k, s)))"
    using h(1) w(1) m(1) unfolding d_def by (cases "lru_segmented (settings u)"; cases "w = 0") (simp_all add: Let_def split del: if_split)
  obtain n x F4 Q4 where n: "juggle_pulls k cid tb ha wa v = Some (n, x)" "pulled (lapsed v) v F3 Q3 x F4 Q4" "cinv x F4 Q4" "pull_ready x Q4"
    using Suc.IH [OF m(3,4)] by blast
  show ?case
  proof (cases "m = 0")
    case True
    then have "juggle_pulls (Suc k) cid tb ha wa s = Some (0, v)" unfolding step by simp
    then show ?thesis using m by blast
  next
    case False
    then have "juggle_pulls (Suc k) cid tb ha wa s = Some (Suc n, x)" unfolding step using n(1) by simp
    then show ?thesis using pulled_more [OF m(2) n(2)] n(3,4) by blast
  qed
qed

lemma lru_maintainer_juggle_correct:
  assumes c: "cinv s F Q" and r: "pull_ready s Q"
  shows "\<exists>n s' F' Q'. lru_maintainer_juggle hfac wfac cid s = Some (n, s') \<and> pulled (lapsed s) s F Q s' F' Q'"
proof -
  obtain b0 b1 tb b2 where b: "slabs_available_chunks cid s = (b0, b1, tb, b2)" by (cases "slabs_available_chunks cid s")
  obtain m tb' t F1 Q1 where t: "(if temp_lru (settings s) then Option.bind (temp_pulls 100 cid s) (\<lambda>(k, s). Some (k, tb - ucast (temp_lru_size cid s), s)) else Some (0, tb, s))
      = Some (m, tb', t)" "pulled (lapsed s) s F Q t F1 Q1" "cinv t F1 Q1" "pull_ready t Q1"
  proof (cases "temp_lru (settings s)")
    case True
    obtain n t F1 Q1 where "temp_pulls 100 cid s = Some (n, t)" "pulled (lapsed s) s F Q t F1 Q1" "cinv t F1 Q1" "pull_ready t Q1"
      using temp_pulls_correct [OF c r] by blast
    then show ?thesis using that True by simp
  qed (use that [of 0 tb s F Q] pulled_refl [OF c] c r in simp)
  obtain ha wa where a: "juggle_ages hfac wfac cid t = (ha, wa)" by (cases "juggle_ages hfac wfac cid t")
  obtain n u F2 Q2 where u: "juggle_pulls 500 cid tb' ha wa t = Some (n, u)" "pulled (lapsed t) t F1 Q1 u F2 Q2"
    using juggle_pulls_correct [OF t(3,4)] by blast
  have "lru_maintainer_juggle hfac wfac cid s = Some (m + n, u)"
    using t(1) u(1) a by (simp add: lru_maintainer_juggle_def b Let_def split del: if_split)
  then show ?thesis using pulled_more [OF t(2) u(2)] by blast
qed


section \<open>Bumps give back what they hold\<close>

text \<open>Entries whose items are linked, whose locks are free and whose references are all there.\<close>

definition bumps_ok :: "(addr \<times> u32) list \<Rightarrow> 'z lru_state_scheme \<Rightarrow> (u8 \<Rightarrow> addr list) \<Rightarrow> bool" where
  "bumps_ok es s Q \<longleftrightarrow> (\<forall>(it, hv) \<in> set es. it \<in> lru_items Q \<and> hv = hash s (item_key (heap s it)) \<and> \<not> item_locks s (hv_bucket hv (item_lock_hashpower s)) \<and>
     count_list (map fst es) it < unat (refcount (heap s it)))"

lemma kept_refcount: "kept i j \<Longrightarrow> kept (i\<lparr>refcount := r\<rparr>) (j\<lparr>refcount := r\<rparr>)"
proof -
  have "ITEM_get_cas (i\<lparr>refcount := r\<rparr>) = ITEM_get_cas i" for i by (simp add: ITEM_get_cas_def)
  then show "kept i j \<Longrightarrow> kept (i\<lparr>refcount := r\<rparr>) (j\<lparr>refcount := r\<rparr>)" by (simp add: kept_def same_key_def ITEM_clsid_def)
qed

lemma lock_fields:
  assumes "\<not> item_locks s (hv_bucket hv (item_lock_hashpower s))"
  shows "Store.item_lock hv s = Some (locked (hv_bucket hv (item_lock_hashpower s)) s)"
  using assms by (simp add: Store.item_lock_def locked_def Let_def)

lemma one_bump:
  fixes s :: "'z lru_state_scheme"
  assumes c: "cinv s F Q" and it: "it \<in> lru_items Q" and l: "\<not> item_locks s (hv_bucket hv (item_lock_hashpower s))" and r: "1 < refcount (heap s it)"
  shows "\<exists>s' Q'. apply_bumps ((it, hv) # es) s = apply_bumps es s' \<and> cinv s' F Q' \<and> lru_items Q' = lru_items Q \<and> assoc_map s' = assoc_map s \<and> env s' = env s \<and>
    (\<forall>a. kept (heap s' a) ((heap s a)\<lparr>refcount := if a = it then refcount (heap s a) - 1 else refcount (heap s a)\<rparr>))"
proof -
  define b where "b = hv_bucket hv (item_lock_hashpower s)"
  let ?s = "locked b s"
  have cl: "cinv ?s F Q" "assoc_map ?s = assoc_map s" using cinv_same_heap [OF c, of ?s] by simp_all
  obtain t Q' where t: "do_item_update it ?s = Some t" "bumped ?s F Q it t Q'" using do_item_update_correct [OF cl(1) it] by blast
  note bd = t(2) [unfolded bumped_def]
  have ct: "cinv t F Q'" "lru_items Q' = lru_items Q" "env t = env ?s" using bd by blast+
  have sv: "same_value (heap t it) (heap s it)" using bd by simp
  have rt: "1 < refcount (heap t it)" using sv r by (simp add: same_value_def)
  have sl: "\<not> has_flag (it_flags (heap t it)) ITEM_SLABBED" using ct(1,2) it by (auto simp: cinv_def linked_ok_def)
  let ?u = "upd_item it (\<lambda>i. i\<lparr>refcount := refcount i - 1\<rparr>) t"
  have rm: "do_item_remove it t = Some ?u" "cinv ?u F Q'" "assoc_map ?u = assoc_map t"
    using do_item_remove_keep [OF ct(1) _ sl rt] cinv_free_not_linked [OF ct(1), of it] ct(2) it by blast+
  let ?v = "Store.item_unlock hv ?u"
  have hp: "item_lock_hashpower t = item_lock_hashpower s" using ct(3) by (simp add: env_def locked_def)
  have v: "core ?v = core ?u" "heap ?v = heap ?u" by (simp_all add: Store.item_unlock_def core_def)
  have "env ?v = env s" using ct(3) l by (simp add: env_def Store.item_unlock_def hp b_def [symmetric] locked_def fun_upd_idem)
  moreover have "cinv ?v F Q' \<and> assoc_map ?v = assoc_map s" using cinv_same_heap [OF rm(2) v] rm(3) bd cl(2) by simp
  moreover have "kept (heap ?v a) ((heap s a)\<lparr>refcount := if a = it then refcount (heap s a) - 1 else refcount (heap s a)\<rparr>)" for a
  proof (cases "a = it")
    case True
    have "refcount (heap t it) = refcount (heap s it)" using sv by (simp add: same_value_def)
    then show ?thesis using True kept_refcount [OF kept_same_value [OF sv], of "refcount (heap s it) - 1"] by (simp add: v)
  next
    case False
    have "strip (heap t a) = strip (heap s a)" using bd False by simp
    from kept_strip [OF this] show ?thesis using False by (simp add: v)
  qed
  moreover have "apply_bumps ((it, hv) # es) s = apply_bumps es ?v" using lock_fields [OF l, folded b_def] t(1) rm(1) by simp
  ultimately show ?thesis using ct(2) by blast
qed

lemma apply_bumps_correct:
  fixes s :: "'z lru_state_scheme"
  assumes "cinv s F Q" "bumps_ok es s Q"
  shows "\<exists>s' Q'. apply_bumps es s = Some s' \<and> cinv s' F Q' \<and> lru_items Q' = lru_items Q \<and> assoc_map s' = assoc_map s \<and> env s' = env s \<and>
    (\<forall>a. kept (heap s' a) ((heap s a)\<lparr>refcount := refcount (heap s a) - of_nat (count_list (map fst es) a)\<rparr>))"
  using assms
proof (induction es arbitrary: s Q)
  case Nil
  then show ?case by auto
next
  case (Cons e es)
  obtain it hv where e: "e = (it, hv)" by (cases e)
  have ok: "it \<in> lru_items Q" "hv = hash s (item_key (heap s it))" "\<not> item_locks s (hv_bucket hv (item_lock_hashpower s))"
    "Suc (count_list (map fst es) it) < unat (refcount (heap s it))" using Cons.prems(2) by (auto simp: bumps_ok_def e)
  have r: "1 < refcount (heap s it)" using ok(4) by (simp add: word_less_nat_alt)
  obtain t Q1 where t: "apply_bumps (e # es) s = apply_bumps es t" "cinv t F Q1" "lru_items Q1 = lru_items Q" "assoc_map t = assoc_map s" "env t = env s"
    "\<And>a. kept (heap t a) ((heap s a)\<lparr>refcount := if a = it then refcount (heap s a) - 1 else refcount (heap s a)\<rparr>)"
    using one_bump [OF Cons.prems(1) ok(1,3) r, of es] unfolding e by blast
  have u1: "unat (refcount (heap s it) - 1) = unat (refcount (heap s it)) - 1" using r by (subst unat_minus_one) auto
  have "count_list (map fst es) x < unat (refcount (heap t x))" if "x \<in> lru_items Q" "count_list (map fst (e # es)) x < unat (refcount (heap s x))" for x
    using kept_fields(5) [OF t(6), of x] that u1 by (auto simp: e split: if_splits)
  moreover have "item_key (heap t x) = item_key (heap s x)" for x using kept_fields(1) [OF t(6), of x] by (simp add: item_key_def)
  ultimately have "bumps_ok es t Q1"
    using Cons.prems(2) env_fields(3,4,8) [OF t(5)] by (fastforce simp: bumps_ok_def t(3) simp del: list.map)
  from Cons.IH [OF t(2) this] obtain u Q2 where u: "apply_bumps es t = Some u" "cinv u F Q2" "lru_items Q2 = lru_items Q" "assoc_map u = assoc_map s" "env u = env s"
    "\<And>a. kept (heap u a) ((heap t a)\<lparr>refcount := refcount (heap t a) - of_nat (count_list (map fst es) a)\<rparr>)" using t(3-5) by auto
  have "kept (heap u a) ((heap s a)\<lparr>refcount := refcount (heap s a) - of_nat (count_list (map fst (e # es)) a)\<rparr>)" for a
  proof -
    let ?n = "of_nat (count_list (map fst es) a)"
    have "refcount (heap t a) - ?n = refcount (heap s a) - of_nat (count_list (map fst (e # es)) a)"
      using kept_fields(5) [OF t(6), of a] by (simp add: e)
    then show ?thesis using kept_trans [OF u(6) kept_refcount [OF t(6) [of a], of "refcount (heap t a) - ?n"]] by simp
  qed
  then show ?case using t(1) u by auto
qed

end
