(* ===== verification/Crawler_Queue.thy ===== *)
theory Crawler_Queue
  imports Crawler
begin

text \<open>
  The queue operations of the crawler on a well-formed queue: linking at the tail, swapping places with the predecessor, leaving the queue. Each changes the
  links of one queue only.
\<close>

section \<open>One queue\<close>

lemma do_item_linktail_q_dll:
  assumes d: "dll (heap s) (heads s c) (tails s c) xs" and it: "it \<notin> set xs" "it \<noteq> NULL"
    and f: "it_flags (heap s it) = 1" "nbytes (heap s it) = 0" "slabs_clsid (heap s it) = c"
  shows "\<exists>s'. do_item_linktail_q it s = Some s' \<and> dll (heap s') (heads s' c) (tails s' c) (xs @ [it]) \<and>
    one_queue c (insert it (set xs)) s s' \<and> sizes s' = sizes s \<and> sizes_bytes s' = sizes_bytes s"
proof -
  let ?tp = "tails s c" and ?hp = "heads s c"
  have nn: "NULL \<notin> set xs" using d by (rule dll_nonnull)
  have tp: "?tp = last_or xs NULL" "?tp \<noteq> NULL \<Longrightarrow> ?tp \<in> set xs" using d by (auto simp: dll_def intro: last_or_eqD)
  have ne: "it \<noteq> ?tp" using it tp by auto
  have as: "(?hp \<noteq> NULL \<and> ?tp \<noteq> NULL) \<or> (?hp = NULL \<and> ?tp = NULL)" using dll_head_NULL [OF d] dll_tail_NULL [OF d] by auto
  have tn: "?tp \<noteq> NULL \<Longrightarrow> i_next (heap s ?tp) = NULL"
  proof -
    assume "?tp \<noteq> NULL"
    then obtain ys where "xs = ys @ [?tp]" using tp by (cases xs rule: rev_cases) auto
    then show ?thesis using d dll_split_links(2) [of "heap s" ?hp ?tp ys ?tp "[]"] by simp
  qed
  define h where "h = (\<lambda>a. if a = it then (heap s it)\<lparr>i_prev := ?tp, i_next := NULL\<rparr>
    else if a = ?tp \<and> ?tp \<noteq> NULL then (heap s a)\<lparr>i_next := it\<rparr> else heap s a)"
  define s' where "s' = s\<lparr>heap := h, heads := (heads s)(c := if ?hp = NULL then it else ?hp), tails := (tails s)(c := it)\<rparr>"
  have st: "do_item_linktail_q it s = Some s'"
    using f ne as tn unfolding do_item_linktail_q_def Let_def
    by (auto simp: s'_def h_def upd_item_def fun_eq_iff)
  have "dll h (if ?hp = NULL then it else ?hp) it (xs @ [it])"
    by (rule dll_link_tail [OF d it]) (use it nn ne in \<open>auto simp: h_def\<close>)
  then have "dll (heap s') (heads s' c) (tails s' c) (xs @ [it])" by (simp add: s'_def)
  moreover have "one_queue c (insert it (set xs)) s s'"
    by (rule one_queue_intro) (use tp in \<open>auto simp: s'_def h_def\<close>)
  ultimately show ?thesis using st by (intro exI [of _ s']) (simp add: s'_def)
qed

lemma do_item_unlinktail_q_dll:
  assumes d: "dll (heap s) (heads s c) (tails s c) (ps @ it # ns)" and c: "slabs_clsid (heap s it) = c"
  shows "\<exists>s'. do_item_unlinktail_q it s = Some s' \<and> dll (heap s') (heads s' c) (tails s' c) (ps @ ns) \<and>
    one_queue c (set (ps @ ns)) s s' \<and> sizes s' = sizes s \<and> sizes_bytes s' = sizes_bytes s"
proof -
  let ?nx = "i_next (heap s it)" and ?pv = "i_prev (heap s it)"
  note n = dll_neighbours [OF d]
  have nn: "NULL \<notin> set ps" "NULL \<notin> set ns" "distinct (ps @ it # ns)" using dll_nonnull [OF d] d by (auto simp: dll_def)
  define h where "h = (\<lambda>a. if a = ?nx \<and> ?nx \<noteq> NULL then (heap s a)\<lparr>i_prev := ?pv\<rparr>
     else if a = ?pv \<and> ?pv \<noteq> NULL then (heap s a)\<lparr>i_next := ?nx\<rparr> else heap s a)"
  define s' where "s' = s\<lparr>heap := h, heads := (heads s)(c := if heads s c = it then ?nx else heads s c),
     tails := (tails s)(c := if tails s c = it then ?pv else tails s c)\<rparr>"
  have a1: "heads s c = it \<longrightarrow> ?pv = NULL" "tails s c = it \<longrightarrow> ?nx = NULL" using n(1-4) by auto
  have st: "do_item_unlinktail_q it s = Some s'"
    using a1 n(5,6,9) unfolding do_item_unlinktail_q_def Let_def c
    by (auto simp: s'_def h_def upd_item_def fun_eq_iff)
  have dl: "dll h (if heads s c = it then ?nx else heads s c) (if tails s c = it then ?pv else tails s c) (ps @ ns)"
    by (rule dll_unlink [OF d]) (use nn n(5,6,9) in \<open>auto simp: h_def\<close>)
  moreover have "one_queue c (set (ps @ ns)) s s'"
    by (rule one_queue_intro) (use n(7,8) in \<open>auto simp: s'_def h_def\<close>)
  ultimately show ?thesis using st by (intro exI [of _ s']) (simp add: s'_def)
qed

lemma end_upd:
  "(if P then s\<lparr>heads := (heads s)(c := v)\<rparr> else s) = s\<lparr>heads := (heads s)(c := if P then v else heads s c)\<rparr>"
  "(if P then s\<lparr>tails := (tails s)(c := v)\<rparr> else s) = s\<lparr>tails := (tails s)(c := if P then v else tails s c)\<rparr>"
  by simp_all

lemma crawl_swing_run:
  assumes l: "i_prev (heap s it) = p" "i_next (heap s it) = nx" "i_prev (heap s p) = pp" "i_next (heap s p) = it"
    and ne: "p \<noteq> it" "nx \<noteq> it" "nx \<noteq> p" "pp \<noteq> it" "pp \<noteq> p" "it \<noteq> NULL" "nx \<noteq> NULL \<Longrightarrow> nx \<noteq> pp"
  shows "crawl_swing it c s = Some (s\<lparr>heap := (\<lambda>a. if a = it then (heap s it)\<lparr>i_next := p, i_prev := pp\<rparr>
      else if a = p then (heap s p)\<lparr>i_next := nx, i_prev := it\<rparr> else if a = nx \<and> nx \<noteq> NULL then (heap s a)\<lparr>i_prev := p\<rparr>
      else if a = pp \<and> pp \<noteq> NULL then (heap s a)\<lparr>i_next := it\<rparr> else heap s a),
    heads := (heads s)(c := if heads s c = p then it else heads s c), tails := (tails s)(c := if tails s c = it then p else tails s c)\<rparr>)"
proof -
  note n = ne(1-6) ne(1-6) [symmetric]
  show ?thesis
  proof (cases "nx = NULL")
    case True
    then show ?thesis unfolding crawl_swing_def Let_def l end_upd
      by (cases "pp = NULL") (simp_all add: l n upd_item_def fun_eq_iff)
  next
    case False
    then have m: "nx \<noteq> pp" "pp \<noteq> nx" using ne(7) by auto
    show ?thesis unfolding crawl_swing_def Let_def l end_upd
      using False by (cases "pp = NULL") (simp_all add: l n m upd_item_def fun_eq_iff)
  qed
qed

lemma crawl_swing_dll:
  assumes d: "dll (heap s) (heads s c) (tails s c) (ps @ p # it # ns)"
  shows "\<exists>s'. crawl_swing it c s = Some s' \<and> i_next (heap s' it) = p \<and> dll (heap s') (heads s' c) (tails s' c) (ps @ it # p # ns) \<and>
    one_queue c (set (ps @ it # p # ns)) s s' \<and> sizes s' = sizes s \<and> sizes_bytes s' = sizes_bytes s"
proof -
  let ?nx = "first_or ns NULL" and ?pp = "last_or ps NULL"
  have d2: "dll (heap s) (heads s c) (tails s c) ((ps @ [p]) @ it # ns)" using d by simp
  note n = dll_neighbours [OF d2] and m = dll_neighbours [OF d]
  have dt: "distinct (ps @ p # it # ns)" and nn: "NULL \<notin> set (ps @ p # it # ns)" using d dll_nonnull [OF d] by (auto simp: dll_def)
  have pv: "i_prev (heap s it) = p" "i_next (heap s it) = ?nx" "i_prev (heap s p) = ?pp" "i_next (heap s p) = it" using n(1,2) m(1,2) by auto
  have nx: "?nx \<noteq> NULL \<Longrightarrow> ?nx \<in> set ns" "?pp \<noteq> NULL \<Longrightarrow> ?pp \<in> set ps" by (auto intro: first_or_eqD last_or_eqD)
  have ne: "p \<noteq> it" "p \<noteq> NULL" "it \<noteq> NULL" "?nx \<noteq> it" "?nx \<noteq> p" "?pp \<noteq> it" "?pp \<noteq> p" "?nx \<noteq> NULL \<Longrightarrow> ?nx \<noteq> ?pp"
    using dt nn nx by (auto simp: disjoint_iff)
  define h where "h = (\<lambda>a. if a = it then (heap s it)\<lparr>i_next := p, i_prev := ?pp\<rparr> else if a = p then (heap s p)\<lparr>i_next := ?nx, i_prev := it\<rparr>
    else if a = ?nx \<and> ?nx \<noteq> NULL then (heap s a)\<lparr>i_prev := p\<rparr> else if a = ?pp \<and> ?pp \<noteq> NULL then (heap s a)\<lparr>i_next := it\<rparr> else heap s a)"
  define s' where "s' = s\<lparr>heap := h, heads := (heads s)(c := if heads s c = p then it else heads s c),
     tails := (tails s)(c := if tails s c = it then p else tails s c)\<rparr>"
  have st: "crawl_swing it c s = Some s'"
    unfolding s'_def h_def by (rule crawl_swing_run) (use pv ne in auto)
  have e: "dseg (heap s) NULL ps p" "dseg (heap s) it ns NULL" "heads s c = first_or (ps @ [p]) NULL" "tails s c = last_or (it # ns) NULL"
    using d by (auto simp: dll_def dseg_append)
  have s1: "dseg h NULL ps it" by (rule dseg_relink_next [OF e(1)]) (use dt nn ne nx in \<open>auto simp: h_def disjoint_iff\<close>)
  have s2: "dseg h p ns NULL" by (rule dseg_relink_prev [OF e(2)]) (use dt nn ne nx in \<open>auto simp: h_def disjoint_iff\<close>)
  have hd: "(if heads s c = p then it else heads s c) = first_or (ps @ [it]) NULL" using e(3) dt by (cases ps) auto
  have tl: "(if tails s c = it then p else tails s c) = last_or ns p" using e(4) dt by (cases ns rule: rev_cases) auto
  have "dll h (if heads s c = p then it else heads s c) (if tails s c = it then p else tails s c) (ps @ it # p # ns)"
    unfolding dll_def dseg_append hd tl using s1 s2 dt ne by (auto simp: h_def)
  then have "dll (heap s') (heads s' c) (tails s' c) (ps @ it # p # ns)" by (simp add: s'_def)
  moreover have "one_queue c (set (ps @ it # p # ns)) s s'"
    by (rule one_queue_intro) (use nx in \<open>auto simp: s'_def h_def\<close>)
  ultimately show ?thesis using st by (intro exI [of _ s']) (simp add: s'_def h_def)
qed

text \<open>A crawler at the head first leaves the queue and then, when its class is done, is unlinked a second time.\<close>

lemma crawl_pop_dll:
  assumes d: "dll (heap s) (heads s c) (tails s c) (it # ns)" and c: "slabs_clsid (heap s it) = c"
  shows "\<exists>t. crawl_pop it c s = Some t \<and> i_prev (heap t it) = NULL \<and> heap t it = heap s it \<and> one_queue c (set ns) s t \<and> sizes t = sizes s \<and> sizes_bytes t = sizes_bytes s \<and>
    (ns = [] \<longrightarrow> t = s) \<and> (ns \<noteq> [] \<longrightarrow> dll (heap t) (heads t c) (tails t c) ns \<and> i_next (heap t it) = hd ns)"
proof (cases ns)
  case Nil
  then have "crawl_pop it c s = Some s" using d by (simp add: crawl_pop_def dll_def)
  then show ?thesis using Nil d by (intro exI [of _ s]) (auto simp: dll_def intro: one_queue_intro)
next
  case (Cons x xs)
  have l: "heads s c = it" "i_next (heap s it) = x" "i_prev (heap s x) = it" "x \<noteq> NULL" "x \<noteq> it" "i_prev (heap s it) = NULL"
    and tl: "tails s c = last_or xs x" and sx: "dseg (heap s) x xs NULL" "distinct (it # x # xs)" "i_next (heap s x) = first_or xs NULL"
    using d Cons by (auto simp: dll_def)
  define t where "t = upd_item x (\<lambda>i. i\<lparr>i_prev := NULL\<rparr>) (s\<lparr>heads := (heads s)(c := x)\<rparr>)"
  have "crawl_pop it c s = Some t" using l by (simp add: crawl_pop_def t_def Let_def)
  moreover have "dll (heap t) (heads t c) (tails t c) ns" using sx tl l(4) Cons by (simp add: dll_def t_def)
  moreover have "one_queue c (set ns) s t" by (rule one_queue_intro) (use Cons in \<open>auto simp: t_def upd_item_def\<close>)
  moreover have "i_prev (heap t it) = NULL \<and> heap t it = heap s it \<and> i_next (heap t it) = x" using l by (simp add: t_def)
  ultimately show ?thesis using Cons by (intro exI [of _ t]) (simp add: t_def l)
qed

end
