(* ===== verification/Crawler_Inv.thy ===== *)
theory Crawler_Inv
  imports Crawler_Queue
begin

text \<open>
  The invariant of a cache that is being crawled: the cache invariant with crawlers in the queues. \<open>Q c\<close> are the items of queue \<open>c\<close>, and \<open>W c\<close> says whether it has a
  crawler and how many items are in front of it. The queue on the heap is the one of \<open>crawl_view\<close>; the counters and the hash table know the items only.
\<close>

section \<open>The invariant\<close>

definition crawl_view :: "(u8 \<Rightarrow> addr) \<Rightarrow> (u8 \<Rightarrow> nat option) \<Rightarrow> (u8 \<Rightarrow> addr list) \<Rightarrow> u8 \<Rightarrow> addr list" where
  "crawl_view A W Q c = (case W c of None \<Rightarrow> Q c | Some n \<Rightarrow> take n (Q c) @ A c # drop n (Q c))"

definition queues_ok :: "crawl_state \<Rightarrow> (u8 \<Rightarrow> addr list) \<Rightarrow> (u8 \<Rightarrow> nat option) \<Rightarrow> bool" where
  "queues_ok s Q W \<longleftrightarrow> (\<forall>c. dll (heap s) (heads s c) (tails s c) (crawl_view (crawler_addr s) W Q c) \<and>
     (\<forall>x \<in> set (Q c). slabs_clsid (heap s x) = c) \<and> sizes s c = of_nat (length (Q c)) \<and>
     sizes_bytes s c = sum_list (map (\<lambda>x. ITEM_ntotal (heap s x)) (Q c)))"

definition crawler_cell :: "u8 \<Rightarrow> nat option \<Rightarrow> nat \<Rightarrow> item \<Rightarrow> bool" where
  "crawler_cell c w len i \<longleftrightarrow>
     (case w of None \<Rightarrow> it_flags i = 0 | Some n \<Rightarrow> n \<le> len \<and> it_flags i = 1 \<and> nbytes i = 0 \<and> slabs_clsid i = c)"

lemma crawler_cell_simps [simp]:
  "crawler_cell c None len i \<longleftrightarrow> it_flags i = 0"
  "crawler_cell c (Some n) len i \<longleftrightarrow> n \<le> len \<and> it_flags i = 1 \<and> nbytes i = 0 \<and> slabs_clsid i = c"
  by (simp_all add: crawler_cell_def)

lemma crawler_cell_cong:
  "crawler_cell c w len i \<Longrightarrow> it_flags j = it_flags i \<Longrightarrow> nbytes j = nbytes i \<Longrightarrow> slabs_clsid j = slabs_clsid i \<Longrightarrow> crawler_cell c w len j"
  by (cases w) auto

definition crawlers_ok :: "crawl_state \<Rightarrow> (nat \<Rightarrow> addr list) \<Rightarrow> (u8 \<Rightarrow> addr list) \<Rightarrow> (u8 \<Rightarrow> nat option) \<Rightarrow> bool" where
  "crawlers_ok s F Q W \<longleftrightarrow> inj (crawler_addr s) \<and>
     (\<forall>c. crawler_addr s c \<notin> free_items F \<and> crawler_addr s c \<notin> lru_items Q \<and> crawler_addr s c \<noteq> NULL \<and>
       crawler_cell c (W c) (length (Q c)) (heap s (crawler_addr s c)))"

definition crawl_inv :: "crawl_state \<Rightarrow> (nat \<Rightarrow> addr list) \<Rightarrow> (u8 \<Rightarrow> addr list) \<Rightarrow> (u8 \<Rightarrow> nat option) \<Rightarrow> bool" where
  "crawl_inv s F Q W \<longleftrightarrow> assoc_inv s \<and> slabs_inv s F \<and> queues_ok s Q W \<and> crawlers_ok s F Q W \<and> assoc_items s = lru_items Q \<and>
     (\<forall>a. a \<notin> range (crawler_addr s) \<longrightarrow> has_flag (it_flags (heap s a)) ITEM_LINKED = (a \<in> lru_items Q)) \<and>
     (\<forall>a \<in> lru_items Q. linked_ok s a) \<and>
     curr_items s = of_nat (card (lru_items Q)) \<and> curr_bytes s = (\<Sum>a \<in> lru_items Q. ITEM_ntotal (heap s a))"

text \<open>Crawlers that are not crawling.\<close>

definition crawlers_idle :: "crawl_state \<Rightarrow> (nat \<Rightarrow> addr list) \<Rightarrow> bool" where
  "crawlers_idle s F \<longleftrightarrow> inj (crawler_addr s) \<and>
     (\<forall>c. crawler_addr s c \<notin> free_items F \<and> crawler_addr s c \<noteq> NULL \<and> it_flags (heap s (crawler_addr s c)) = 0)"

lemma crawl_inv_idle: "crawl_inv s F Q (\<lambda>_. None) \<longleftrightarrow> cinv s F Q \<and> crawlers_idle s F"
proof
  assume c: "crawl_inv s F Q (\<lambda>_. None)"
  then have i: "crawlers_idle s F" by (auto simp: crawl_inv_def crawlers_ok_def crawler_cell_def crawlers_idle_def)
  have "has_flag (it_flags (heap s a)) ITEM_LINKED = (a \<in> lru_items Q)" for a
    using c by (cases "a \<in> range (crawler_addr s)") (auto simp: crawl_inv_def crawlers_ok_def crawler_cell_def)
  then show "cinv s F Q \<and> crawlers_idle s F"
    using c i by (simp add: crawl_inv_def cinv_def lru_inv_def lru_ok_def queues_ok_def crawl_view_def)
next
  assume c: "cinv s F Q \<and> crawlers_idle s F"
  then have "crawler_addr s a \<notin> lru_items Q" for a
    using cinv_linked [of s F Q "crawler_addr s a"] by (auto simp: crawlers_idle_def)
  then show "crawl_inv s F Q (\<lambda>_. None)"
    using c by (simp add: crawl_inv_def cinv_def lru_inv_def lru_ok_def queues_ok_def crawl_view_def crawlers_ok_def crawlers_idle_def crawler_cell_def)
qed

lemma take_drop_set: "set (take n xs) \<union> set (drop n xs) = set xs"
  by (metis append_take_drop_id set_append)

lemma crawl_view_set: "set (crawl_view A W Q c) = set (Q c) \<union> (if W c = None then {} else {A c})"
  using take_drop_set [of _ "Q c"] by (cases "W c") (auto simp: crawl_view_def)

lemma crawl_view_other: "W' d = W d \<Longrightarrow> Q' d = Q d \<Longrightarrow> crawl_view A W' Q' d = crawl_view A W Q d"
  by (simp add: crawl_view_def split: option.split)

lemma crawl_inv_item:
  assumes "crawl_inv s F Q W" "x \<in> lru_items Q"
  shows "has_flag (it_flags (heap s x)) ITEM_LINKED" "linked_ok s x" "x \<noteq> crawler_addr s c" "x \<notin> free_items F" "x \<noteq> NULL"
proof -
  show nc: "x \<noteq> crawler_addr s c" for c using assms by (auto simp: crawl_inv_def crawlers_ok_def)
  have nr: "x \<notin> range (crawler_addr s)" using nc by auto
  then show l: "has_flag (it_flags (heap s x)) ITEM_LINKED" "linked_ok s x" using assms by (auto simp: crawl_inv_def)
  show "x \<notin> free_items F"
    using l(1) slabs_inv_free_item [of s F x] assms(1) by (auto simp: crawl_inv_def)
  obtain c where "x \<in> set (crawl_view (crawler_addr s) W Q c)" using assms(2) by (auto simp: lru_items_def crawl_view_set)
  moreover have "dll (heap s) (heads s c) (tails s c) (crawl_view (crawler_addr s) W Q c)" using assms(1) by (simp add: crawl_inv_def queues_ok_def)
  ultimately show "x \<noteq> NULL" using dll_nonnull by metis
qed

lemma crawl_inv_crawler:
  assumes "crawl_inv s F Q W"
  shows "crawler_addr s c \<notin> lru_items Q" "crawler_addr s c \<notin> free_items F" "crawler_addr s c \<noteq> NULL"
    "crawler_cell c (W c) (length (Q c)) (heap s (crawler_addr s c))" "crawler_addr s c = crawler_addr s d \<longleftrightarrow> c = d"
  using assms by (auto simp: crawl_inv_def crawlers_ok_def inj_def)

lemma crawl_inv_map: "crawl_inv s F Q W \<Longrightarrow> x \<in> lru_items Q \<Longrightarrow> assoc_map s (item_key (heap s x)) = Some x"
proof -
  assume c: "crawl_inv s F Q W" "x \<in> lru_items Q"
  then have "x \<in> ran (assoc_map s)" by (simp add: crawl_inv_def assoc_items_def)
  then obtain k where k: "assoc_map s k = Some x" by (auto simp: ran_def)
  moreover have "item_key (heap s x) = k" using assoc_map_key [OF _ k] c(1) by (simp add: crawl_inv_def)
  ultimately show ?thesis by simp
qed

lemma crawl_inv_queue: "crawl_inv s F Q W \<Longrightarrow> dll (heap s) (heads s c) (tails s c) (crawl_view (crawler_addr s) W Q c)"
  by (simp add: crawl_inv_def queues_ok_def)

lemma crawl_inv_cls: "crawl_inv s F Q W \<Longrightarrow> x \<in> set (Q c) \<Longrightarrow> slabs_clsid (heap s x) = c"
  by (simp add: crawl_inv_def queues_ok_def)

lemma crawl_inv_disjoint: "crawl_inv s F Q W \<Longrightarrow> x \<in> set (Q c) \<Longrightarrow> d \<noteq> c \<Longrightarrow> x \<notin> set (Q d)"
  using crawl_inv_cls by metis

section \<open>Moving a crawler\<close>

text \<open>The variables the invariant speaks of, apart from the heap and the ends of the queues.\<close>

definition tables :: "crawl_state \<Rightarrow> _" where
  "tables s = (hash s, hashpower s, primary_hashtable s, old_hashtable s, expanding s, expand_bucket s,
     slabclass s, power_largest s, (sizes s, sizes_bytes s, curr_items s, curr_bytes s, crawler_addr s))"

lemma crawl_inv_relink:
  assumes inv: "crawl_inv s F Q W" and tab: "tables s' = tables s"
    and hp: "\<And>a. a \<noteq> crawler_addr s i \<Longrightarrow> heap s' a = (heap s a)\<lparr>i_next := i_next (heap s' a), i_prev := i_prev (heap s' a)\<rparr>"
    and out: "\<And>a. a \<noteq> crawler_addr s i \<Longrightarrow> a \<notin> set (Q i) \<Longrightarrow> heap s' a = heap s a"
    and ends: "\<And>d. d \<noteq> i \<Longrightarrow> heads s' d = heads s d \<and> tails s' d = tails s d"
    and new: "dll (heap s') (heads s' i) (tails s' i) (crawl_view (crawler_addr s) (W(i := w)) Q i)"
    and cell: "crawler_cell i w (length (Q i)) (heap s' (crawler_addr s i))"
  shows "crawl_inv s' F Q (W(i := w)) \<and> assoc_map s' = assoc_map s"
proof -
  let ?A = "crawler_addr s"
  have f: "hash s' = hash s" "hashpower s' = hashpower s" "primary_hashtable s' = primary_hashtable s"
    "old_hashtable s' = old_hashtable s" "expanding s' = expanding s" "expand_bucket s' = expand_bucket s"
    "slabclass s' = slabclass s" "power_largest s' = power_largest s"
    "sizes s' = sizes s" "sizes_bytes s' = sizes_bytes s" "curr_items s' = curr_items s" "curr_bytes s' = curr_bytes s" "crawler_addr s' = ?A"
    using tab by (simp_all add: tables_def)
  have ai: "assoc_items s = lru_items Q" and ck: "crawlers_ok s F Q W" using inv by (auto simp: crawl_inv_def)
  have nc: "x \<noteq> ?A c" if "x \<in> lru_items Q" for x c using crawl_inv_item(3) [OF inv that] .
  have fld: "it_flags (heap s' x) = it_flags (heap s x)" "slabs_clsid (heap s' x) = slabs_clsid (heap s x)"
    "ITEM_ntotal (heap s' x) = ITEM_ntotal (heap s x)" "refcount (heap s' x) = refcount (heap s x)" "nbytes (heap s' x) = nbytes (heap s x)"
    "h_next (heap s' x) = h_next (heap s x)" "same_key (heap s' x) (heap s x)" if "x \<noteq> ?A i" for x
    by (subst hp [OF that], simp add: same_key_def)+
  have st: "same_table s s'" by (simp add: same_table_def f)
  have a: "assoc_inv s' \<and> assoc_map s' = assoc_map s"
    by (rule assoc_heap_cong [OF _ st f(3,4)]) (use inv ai fld nc in \<open>auto simp: crawl_inv_def\<close>)
  have other: "heap s' x = heap s x" if "x \<in> set (crawl_view ?A W Q d)" "d \<noteq> i" for x d
  proof -
    have "x \<noteq> ?A i \<and> x \<notin> set (Q i)"
    proof (cases "x \<in> set (Q d)")
      case True
      then show ?thesis using crawl_inv_disjoint [OF inv True] nc lru_itemsI [of x Q d] that(2) by metis
    next
      case False
      then have "x = ?A d" using that(1) by (simp add: crawl_view_set split: if_splits)
      moreover have "?A d \<noteq> ?A i" using ck that(2) by (auto simp: crawlers_ok_def inj_def)
      ultimately show ?thesis using nc lru_itemsI [of x Q i] by metis
    qed
    then show ?thesis using out by blast
  qed
  have q: "queues_ok s' Q (W(i := w))"
    unfolding queues_ok_def f
  proof (intro allI conjI ballI)
    fix c
    show "dll (heap s') (heads s' c) (tails s' c) (crawl_view ?A (W(i := w)) Q c)"
    proof (cases "c = i")
      case False
      have "dll (heap s') (heads s c) (tails s c) (crawl_view ?A W Q c) = dll (heap s) (heads s c) (tails s c) (crawl_view ?A W Q c)"
        by (rule dll_cong) (use other False in auto)
      then show ?thesis using crawl_inv_queue [OF inv, of c] ends False crawl_view_other [of "W(i := w)" c W Q Q ?A] by simp
    qed (use new in simp)
    show "slabs_clsid (heap s' x) = c" if "x \<in> set (Q c)" for x
      using that crawl_inv_cls [OF inv that] fld(2) [of x] nc lru_itemsI [of x Q c] by metis
    show "sizes s c = of_nat (length (Q c))" using inv by (simp add: crawl_inv_def queues_ok_def)
    have m: "map (\<lambda>x. ITEM_ntotal (heap s' x)) (Q c) = map (\<lambda>x. ITEM_ntotal (heap s x)) (Q c)"
      using fld(3) nc lru_itemsI [of _ Q c] by (intro map_cong) auto
    show "sizes_bytes s c = sum_list (map (\<lambda>x. ITEM_ntotal (heap s' x)) (Q c))" unfolding m using inv by (simp add: crawl_inv_def queues_ok_def)
  qed
  have k: "crawlers_ok s' F Q (W(i := w))"
    unfolding crawlers_ok_def f
  proof (intro conjI allI)
    fix c
    show "crawler_cell c ((W(i := w)) c) (length (Q c)) (heap s' (?A c))"
    proof (cases "c = i")
      case False
      then have n: "?A c \<noteq> ?A i" using ck by (auto simp: crawlers_ok_def inj_def)
      have "crawler_cell c (W c) (length (Q c)) (heap s (?A c))" using ck by (simp add: crawlers_ok_def)
      from crawler_cell_cong [OF this fld(1) [OF n] fld(5) [OF n] fld(2) [OF n]] show ?thesis using False by simp
    qed (use cell in simp)
  qed (use ck in \<open>auto simp: crawlers_ok_def\<close>)
  have sl: "slabs_inv s' F"
  proof (rule slabs_inv_cong [of s F])
    fix x assume x: "x \<in> free_items F"
    then have "x \<noteq> ?A i" "x \<notin> set (Q i)" using ck crawl_inv_item(4) [OF inv lru_itemsI [of x Q i]] by (auto simp: crawlers_ok_def)
    then have "heap s' x = heap s x" by (rule out)
    then show "i_prev (heap s' x) = i_prev (heap s x) \<and> i_next (heap s' x) = i_next (heap s x) \<and>
       it_flags (heap s' x) = it_flags (heap s x) \<and> slabs_clsid (heap s' x) = slabs_clsid (heap s x)" by simp
  qed (use inv f in \<open>simp_all add: crawl_inv_def\<close>)
  have lk: "has_flag (it_flags (heap s' x)) ITEM_LINKED = (x \<in> lru_items Q)" if "x \<notin> range ?A" for x
  proof -
    have "x \<noteq> ?A i" using that by auto
    then show ?thesis using that inv fld(1) [of x] by (simp add: crawl_inv_def)
  qed
  have "linked_ok s' x" if "x \<in> lru_items Q" for x
    using crawl_inv_item(2) [OF inv that] fld [OF nc [OF that]] by (simp add: linked_ok_def valid_cls_def f ITEM_clsid_def)
  moreover have "(\<Sum>x \<in> lru_items Q. ITEM_ntotal (heap s' x)) = (\<Sum>x \<in> lru_items Q. ITEM_ntotal (heap s x))"
    using fld(3) nc by (intro sum.cong) auto
  moreover have "assoc_items s' = lru_items Q" using a ai by (simp add: assoc_items_def)
  ultimately show ?thesis using a sl q k lk inv by (simp add: crawl_inv_def f)
qed

text \<open>What a step of a crawler leaves alone, and that it changes no item but for its links.\<close>

definition ctl :: "crawl_state \<Rightarrow> _" where
  "ctl s = (env s, crawler_addr s, active_mod s, cm_c s, cm_data s = No_data)"

definition keeps_items :: "crawl_state \<Rightarrow> crawl_state \<Rightarrow> bool" where
  "keeps_items s s' \<longleftrightarrow> ctl s' = ctl s \<and> assoc_map s' = assoc_map s \<and>
     (\<forall>a. a \<notin> range (crawler_addr s) \<longrightarrow> strip (heap s' a) = strip (heap s a))"

lemma ctl_fields:
  "ctl s' = ctl s \<Longrightarrow> env s' = env s" "ctl s' = ctl s \<Longrightarrow> crawler_addr s' = crawler_addr s" "ctl s' = ctl s \<Longrightarrow> active_mod s' = active_mod s"
  "ctl s' = ctl s \<Longrightarrow> cm_c s' = cm_c s" "ctl s' = ctl s \<Longrightarrow> (cm_data s' = No_data) = (cm_data s = No_data)"
  by (simp_all add: ctl_def)

lemma keeps_items_trans: "keeps_items s t \<Longrightarrow> keeps_items t u \<Longrightarrow> keeps_items s u"
  by (auto simp: keeps_items_def ctl_def)

lemma crawl_more_fields:
  assumes "lru_state.more s' = lru_state.more (s :: crawl_state)"
  shows "crawler_addr s' = crawler_addr s" "crawlers s' = crawlers s" "crawler_count s' = crawler_count s" "active_mod s' = active_mod s"
    "cm_data s' = cm_data s" "cdata s' = cdata s" "cm_c s' = cm_c s" "lru_crawler_running s' = lru_crawler_running s"
  using assms by (cases s; cases s'; simp)+

lemma one_queue_same:
  fixes s s' :: crawl_state
  assumes q: "one_queue c X s s'" and sz: "sizes s' = sizes s" "sizes_bytes s' = sizes_bytes s"
  shows "tables s' = tables s" "ctl s' = ctl s" "crawlers s' = crawlers s" "crawler_count s' = crawler_count s" "cm_data s' = cm_data s" "cdata s' = cdata s"
    "itemstats s' = itemstats s" "lru_crawler_running s' = lru_crawler_running s"
proof -
  have f: "queue_frame s s'" using q by (simp add: one_queue_def)
  have e: "s' = s\<lparr>heap := heap s', heads := heads s', tails := tails s', sizes := sizes s', sizes_bytes := sizes_bytes s'\<rparr>"
    using f by (simp add: queue_frame_def)
  have more: "lru_state.more s' = lru_state.more s" by (subst e) simp
  note m = crawl_more_fields [OF more] and g = queue_frame_fields [OF f]
  show "tables s' = tables s" "ctl s' = ctl s" by (simp_all add: tables_def ctl_def env_def get_data_def m g sz)
  show "crawlers s' = crawlers s" "crawler_count s' = crawler_count s" "cm_data s' = cm_data s" "cdata s' = cdata s"
    "lru_crawler_running s' = lru_crawler_running s" by (fact m)+
  show "itemstats s' = itemstats s" by (subst e) simp
qed

lemma one_queue_heap:
  assumes "one_queue c X s s'"
  shows "heap s' a = (heap s a)\<lparr>i_next := i_next (heap s' a), i_prev := i_prev (heap s' a)\<rparr>" "a \<notin> X \<Longrightarrow> heap s' a = heap s a"
    "d \<noteq> c \<Longrightarrow> heads s' d = heads s d \<and> tails s' d = tails s d"
  using assms by (auto simp: one_queue_def queue_frame_def qlinks_only_def)

text \<open>A step that moves one crawler only.\<close>

lemma crawler_moved:
  assumes inv: "crawl_inv s F Q W" and q: "one_queue i X t u" and X: "X \<subseteq> insert (crawler_addr s i) (set (Q i))"
    and sz: "sizes u = sizes t" "sizes_bytes u = sizes_bytes t"
    and st: "tables t = tables s" "heads t = heads s" "tails t = tails s" "\<And>a. a \<noteq> crawler_addr s i \<Longrightarrow> heap t a = heap s a"
    and fin: "tables s' = tables u" "heap s' = heap u" "heads s' = heads u" "tails s' = tails u" "ctl s' = ctl s"
    and new: "dll (heap u) (heads u i) (tails u i) (crawl_view (crawler_addr s) (W(i := w)) Q i)"
    and cell: "crawler_cell i w (length (Q i)) (heap t (crawler_addr s i))"
  shows "crawl_inv s' F Q (W(i := w)) \<and> keeps_items s s'"
proof -
  note h = one_queue_heap [OF q]
  have a: "heap s' a = (heap s a)\<lparr>i_next := i_next (heap s' a), i_prev := i_prev (heap s' a)\<rparr>" if "a \<noteq> crawler_addr s i" for a
    using h(1) [of a] st(4) [OF that] fin(2) by simp
  have c: "crawler_cell i w (length (Q i)) (heap s' (crawler_addr s i))"
    unfolding fin(2) by (rule crawler_cell_cong [OF cell]; subst h(1); simp)
  have "crawl_inv s' F Q (W(i := w)) \<and> assoc_map s' = assoc_map s"
  proof (rule crawl_inv_relink [OF inv])
    show "tables s' = tables s" using fin(1) st(1) one_queue_same(1) [OF q sz] by simp
    show "heap s' a = heap s a" if "a \<noteq> crawler_addr s i" "a \<notin> set (Q i)" for a
      using h(2) [of a] X that st(4) fin(2) by auto
    show "heads s' d = heads s d \<and> tails s' d = tails s d" if "d \<noteq> i" for d using h(3) [OF that] st(2,3) fin(3,4) by simp
  qed (use a c new fin(2-4) in simp_all)
  moreover have "strip (heap s' a) = strip (heap s a)" if "a \<notin> range (crawler_addr s)" for a
  proof -
    have n: "a \<noteq> crawler_addr s i" using that by auto
    show ?thesis by (subst a [OF n]) simp
  qed
  ultimately show ?thesis using fin(5) by (simp add: keeps_items_def)
qed

lemma crawl_start_correct:
  assumes inv: "crawl_inv s F Q W" and w: "W i = None"
  shows "\<exists>s'. do_lru_crawler_start i r s = Some (1, s') \<and> crawl_inv s' F Q (W(i := Some (length (Q i)))) \<and> keeps_items s s' \<and>
    crawler_count s' = crawler_count s + 1 \<and> lru_crawler_running s' \<and> itemstats s' = itemstats s \<and>
    crawlers s' = (crawlers s)(i := \<lparr>cr_remaining = (let r = (if r = - 1 then of_nat (length (Q i)) else r) in if r = 0 then 0 else r + 1),
      cr_reclaimed = 0, cr_unfetched = 0, cr_checked = 0\<rparr>)"
proof -
  let ?a = "crawler_addr s i"
  have ck: "?a \<notin> lru_items Q" "?a \<noteq> NULL" "it_flags (heap s ?a) = 0"
    using crawl_inv_crawler [OF inv, of i] w by simp_all
  define r' where "r' = (let r = (if r = - 1 then sizes s i else r) in if r \<noteq> 0 then r + 1 else r)"
  define t where "t = upd_item ?a (\<lambda>c. c\<lparr>slabs_clsid := i\<rparr>) (upd_crawler i (\<lambda>_. \<lparr>cr_remaining = r', cr_reclaimed = 0, cr_unfetched = 0, cr_checked = 0\<rparr>)
    (upd_item ?a (\<lambda>c. c\<lparr>nbytes := 0, nkey := 0, it_flags := 1, i_next := NULL, i_prev := NULL, i_time := 0\<rparr>) s))"
  have tt: "tables t = tables s" "heads t = heads s" "tails t = tails s" "ctl t = ctl s" "crawler_count t = crawler_count s" "itemstats t = itemstats s"
    "crawler_addr t = crawler_addr s"
    by (simp_all add: t_def upd_item_def upd_crawler_def tables_def ctl_def env_def get_data_def)
  have th: "heap t a = heap s a" if "a \<noteq> ?a" for a using that by (simp add: t_def upd_crawler_def upd_item_def)
  have ta: "it_flags (heap t ?a) = 1" "nbytes (heap t ?a) = 0" "slabs_clsid (heap t ?a) = i" by (simp_all add: t_def upd_crawler_def)
  have nq: "?a \<notin> set (Q i)" using ck(1) lru_itemsI by metis
  have v: "crawl_view (crawler_addr s) W Q i = Q i" using w by (simp add: crawl_view_def)
  have "dll (heap t) (heads t i) (tails t i) (Q i) = dll (heap s) (heads s i) (tails s i) (Q i)"
    unfolding tt by (rule dll_cong) (use th nq in metis)
  then have d: "dll (heap t) (heads t i) (tails t i) (Q i)" using crawl_inv_queue [OF inv, of i] v by simp
  obtain u where u: "do_item_linktail_q ?a t = Some u" "dll (heap u) (heads u i) (tails u i) (Q i @ [?a])" "one_queue i (insert ?a (set (Q i))) t u"
    "sizes u = sizes t" "sizes_bytes u = sizes_bytes t"
    using do_item_linktail_q_dll [OF d nq ck(2) ta] by blast
  note same = one_queue_same [OF u(3-5)]
  define s' where "s' = u\<lparr>crawler_count := crawler_count u + 1, lru_crawler_running := True, lru_crawler_starts := lru_crawler_starts u + 1\<rparr>"
  have run: "do_lru_crawler_start i r s = Some (1, s')"
    using ck(3) u(1) by (cases "r = - 1"; cases "r = 0"; cases "sizes s i = 0")
      (simp_all add: do_lru_crawler_start_def Let_def t_def r'_def s'_def upd_item_def upd_crawler_def)
  have c': "ctl s' = ctl u" by (simp add: s'_def ctl_def env_def get_data_def)
  have t': "tables s' = tables u" by (simp add: s'_def tables_def)
  have "crawl_inv s' F Q (W(i := Some (length (Q i)))) \<and> keeps_items s s'"
    by (rule crawler_moved [OF inv u(3) _ u(4,5) tt(1-3) th t'])
      (use c' same(2) tt(4) u(2) ta in \<open>simp_all add: s'_def crawl_view_def crawler_cell_def\<close>)
  moreover have "sizes s i = of_nat (length (Q i))" using inv by (simp add: crawl_inv_def queues_ok_def)
  ultimately show ?thesis
    using run same tt by (intro exI [of _ s']) (simp add: s'_def, simp add: t_def r'_def upd_crawler_def upd_item_def Let_def)
qed

text \<open>The crawler passes the item in front of it.\<close>

lemma crawl_q_correct:
  assumes inv: "crawl_inv s F Q W" and w: "W i = Some (Suc n)"
  shows "\<exists>s'. do_item_crawl_q (crawler_addr s i) s = Some (Q i ! n, s') \<and> crawl_inv s' F Q (W(i := Some n)) \<and> keeps_items s s' \<and>
    crawlers s' = crawlers s \<and> crawler_count s' = crawler_count s \<and> itemstats s' = itemstats s \<and> Q i ! n \<in> set (Q i) \<and> cm_data s' = cm_data s \<and> cdata s' = cdata s"
proof -
  let ?a = "crawler_addr s i" and ?x = "Q i ! n" and ?ps = "take n (Q i)" and ?ns = "drop (Suc n) (Q i)"
  have cc: "n < length (Q i)" "it_flags (heap s ?a) = 1" "nbytes (heap s ?a) = 0" "slabs_clsid (heap s ?a) = i"
    using crawl_inv_crawler(4) [OF inv, of i] w by auto
  have v: "crawl_view (crawler_addr s) W Q i = ?ps @ ?x # ?a # ?ns" using w cc(1) by (simp add: crawl_view_def take_Suc_conv_app_nth)
  then have d: "dll (heap s) (heads s i) (tails s i) (?ps @ ?x # ?a # ?ns)" using crawl_inv_queue [OF inv, of i] by simp
  obtain u where u: "crawl_swing ?a i s = Some u" "i_next (heap u ?a) = ?x" "dll (heap u) (heads u i) (tails u i) (?ps @ ?a # ?x # ?ns)"
    "one_queue i (set (?ps @ ?a # ?x # ?ns)) s u" "sizes u = sizes s" "sizes_bytes u = sizes_bytes s"
    using crawl_swing_dll [OF d] by blast
  note same = one_queue_same [OF u(4-6)]
  have "i_prev (heap s ?a) = ?x" using dll_neighbours(1) [of "heap s" _ _ "?ps @ [?x]" ?a ?ns] d by simp
  moreover have "?x \<noteq> NULL" using dll_nonnull [OF d] by auto
  ultimately have run: "do_item_crawl_q ?a s = Some (?x, u)" using cc u(1,2) by (simp add: do_item_crawl_q_def)
  have X: "set (?ps @ ?a # ?x # ?ns) \<subseteq> insert ?a (set (Q i))" using cc(1) by (auto dest: in_set_takeD in_set_dropD)
  have v': "crawl_view (crawler_addr s) (W(i := Some n)) Q i = ?ps @ ?a # ?x # ?ns"
    using cc(1) by (simp add: crawl_view_def Cons_nth_drop_Suc)
  have "crawl_inv u F Q (W(i := Some n)) \<and> keeps_items s u"
    by (rule crawler_moved [OF inv u(4) X u(5,6)]) (use same u(3) v' cc in simp_all)
  then show ?thesis using run same cc(1) by (intro exI [of _ u]) simp
qed

section \<open>The end of a class\<close>

text \<open>The statistics of a class that is done.\<close>

definition add_crawl :: "crawler \<Rightarrow> itemstats_t \<Rightarrow> itemstats_t" where
  "add_crawl k st = st\<lparr>crawler_reclaimed := crawler_reclaimed st + cr_reclaimed k, expired_unfetched := expired_unfetched st + cr_unfetched k,
     crawler_items_checked := crawler_items_checked st + cr_checked k\<rparr>"

text \<open>What \<^const>\<open>lru_crawler_class_done\<close> does after the crawler has left the queue.\<close>

definition class_closed :: "u8 \<Rightarrow> crawl_state \<Rightarrow> crawl_state option" where
  "class_closed i s = do {
     let s = do_item_stats_add_crawl i (cr_reclaimed (crawlers s i)) (cr_unfetched (crawlers s i)) (cr_checked (crawlers s i)) s;
     md \<leftarrow> active_mod s;
     (if md = crawler_expired_mod then crawler_expired_doneclass i s else Some s)
   }"

lemma class_closed_run:
  assumes "active_mod s \<noteq> None" "cm_data s \<noteq> No_data"
  shows "\<exists>s'. class_closed i s = Some s' \<and> tables s' = tables s \<and> heap s' = heap s \<and> heads s' = heads s \<and> tails s' = tails s \<and> ctl s' = ctl s \<and>
    crawlers s' = crawlers s \<and> crawler_count s' = crawler_count s \<and> itemstats s' = (itemstats s)(i := add_crawl (crawlers s i) (itemstats s i))"
proof -
  obtain md where md: "active_mod s = Some md" using assms(1) by auto
  have gd: "\<exists>d. get_data t = Some d" if "cm_data t = cm_data s" for t :: crawl_state
    using assms(2) that by (cases "cm_data s") (simp_all add: get_data_def)
  let ?t = "do_item_stats_add_crawl i (cr_reclaimed (crawlers s i)) (cr_unfetched (crawlers s i)) (cr_checked (crawlers s i)) s"
  have tf: "cm_data ?t = cm_data s" by (simp add: do_item_stats_add_crawl_def upd_itemstats_def)
  obtain d where d: "get_data ?t = Some d" using gd [OF tf] by blast
  have p: "tables (put_data e u) = tables u \<and> heap (put_data e u) = heap u \<and> heads (put_data e u) = heads u \<and> tails (put_data e u) = tails u \<and> ctl (put_data e u) = ctl u \<and>
    crawlers (put_data e u) = crawlers u \<and> crawler_count (put_data e u) = crawler_count u \<and> itemstats (put_data e u) = itemstats u" for e u
    by (cases "cm_data u") (simp_all add: put_data_def tables_def ctl_def env_def)
  have t: "tables ?t = tables s \<and> heap ?t = heap s \<and> heads ?t = heads s \<and> tails ?t = tails s \<and> ctl ?t = ctl s \<and>
    crawlers ?t = crawlers s \<and> crawler_count ?t = crawler_count s \<and> itemstats ?t = (itemstats s)(i := add_crawl (crawlers s i) (itemstats s i)) \<and> active_mod ?t = Some md"
    using md by (simp add: do_item_stats_add_crawl_def upd_itemstats_def tables_def ctl_def env_def add_crawl_def)
  show ?thesis
  proof (cases "md = crawler_expired_mod")
    case True
    then show ?thesis using t p d by (simp add: class_closed_def Let_def crawler_expired_doneclass_def)
  next
    case False
    then show ?thesis using t by (simp add: class_closed_def Let_def)
  qed
qed

lemma class_done_unfold:
  "lru_crawler_class_done i s = Option.bind (do_item_unlinktail_q (crawler_addr s i)
     ((upd_item (crawler_addr s i) (\<lambda>c. c\<lparr>it_flags := 0\<rparr>) s)\<lparr>crawler_count := crawler_count s - 1\<rparr>)) (class_closed i)"
  by (simp add: lru_crawler_class_done_def class_closed_def [abs_def] Let_def upd_item_def)

text \<open>The class is given up where its crawler is.\<close>

lemma class_done_correct:
  assumes inv: "crawl_inv s F Q W" and w: "W i = Some n" and act: "active_mod s \<noteq> None" "cm_data s \<noteq> No_data"
  shows "\<exists>s'. lru_crawler_class_done i s = Some s' \<and> crawl_inv s' F Q (W(i := None)) \<and> keeps_items s s' \<and>
    crawlers s' = crawlers s \<and> crawler_count s' = crawler_count s - 1 \<and> itemstats s' = (itemstats s)(i := add_crawl (crawlers s i) (itemstats s i))"
proof -
  let ?a = "crawler_addr s i" and ?ps = "take n (Q i)" and ?ns = "drop n (Q i)"
  define t where "t = (upd_item ?a (\<lambda>c. c\<lparr>it_flags := 0\<rparr>) s)\<lparr>crawler_count := crawler_count s - 1\<rparr>"
  have tt: "tables t = tables s" "heads t = heads s" "tails t = tails s" "ctl t = ctl s" "crawlers t = crawlers s" "itemstats t = itemstats s"
    "crawler_count t = crawler_count s - 1" "crawler_addr t = crawler_addr s" "active_mod t = active_mod s" "cm_data t = cm_data s"
    by (simp_all add: t_def upd_item_def tables_def ctl_def env_def)
  have th: "heap t a = heap s a" if "a \<noteq> ?a" for a using that by (simp add: t_def)
  have cc: "slabs_clsid (heap t ?a) = i" using crawl_inv_crawler(4) [OF inv, of i] w by (simp add: t_def)
  have "dll (heap s) (heads s i) (tails s i) (?ps @ ?a # ?ns)" using crawl_inv_queue [OF inv, of i] w by (simp add: crawl_view_def)
  moreover have "dll (heap t) hp tp xs = dll (heap s) hp tp xs" for hp tp xs by (rule dll_cong) (simp add: t_def)
  ultimately have d: "dll (heap t) (heads t i) (tails t i) (?ps @ ?a # ?ns)" by (simp add: tt)
  obtain u where u: "do_item_unlinktail_q ?a t = Some u" "dll (heap u) (heads u i) (tails u i) (?ps @ ?ns)" "one_queue i (set (?ps @ ?ns)) t u"
    "sizes u = sizes t" "sizes_bytes u = sizes_bytes t" using do_item_unlinktail_q_dll [OF d cc] by blast
  note same = one_queue_same [OF u(3-5)]
  have ua: "active_mod u \<noteq> None" "cm_data u \<noteq> No_data" using act tt same(5) ctl_fields(3) [OF same(2)] by simp_all
  obtain s' where s': "class_closed i u = Some s'" "tables s' = tables u" "heap s' = heap u" "heads s' = heads u" "tails s' = tails u" "ctl s' = ctl u"
    "crawlers s' = crawlers u" "crawler_count s' = crawler_count u" "itemstats s' = (itemstats u)(i := add_crawl (crawlers u i) (itemstats u i))"
    using class_closed_run [OF ua] by blast
  have "crawl_inv s' F Q (W(i := None)) \<and> keeps_items s s'"
    by (rule crawler_moved [OF inv u(3) _ u(4,5) tt(1-3) th s'(2-5)])
      (use s'(6) same tt u(2) in \<open>auto simp: crawl_view_def t_def dest: in_set_takeD in_set_dropD\<close>)
  then show ?thesis using u(1) s' same tt by (simp add: class_done_unfold t_def [symmetric])
qed

text \<open>The crawler has reached the head: it leaves the queue, and the class is done.\<close>

lemma crawl_pop_disable:
  fixes s :: crawl_state
  assumes "crawl_pop a c s = Some t" "i_next (heap s a) \<noteq> a"
  shows "crawl_pop a c ((upd_item a (\<lambda>c. c\<lparr>it_flags := 0\<rparr>) s)\<lparr>crawler_count := n\<rparr>) = Some ((upd_item a (\<lambda>c. c\<lparr>it_flags := 0\<rparr>) t)\<lparr>crawler_count := n\<rparr>)"
  using assms by (auto simp: crawl_pop_def Let_def upd_item_def fun_upd_twist split: if_splits)

lemma class_done_at_head:
  assumes inv: "crawl_inv s F Q W" and w: "W i = Some 0" and act: "active_mod s \<noteq> None" "cm_data s \<noteq> No_data"
  shows "\<exists>t s'. do_item_crawl_q (crawler_addr s i) s = Some (NULL, t) \<and> lru_crawler_class_done i t = Some s' \<and> crawl_inv s' F Q (W(i := None)) \<and>
    keeps_items s s' \<and> crawlers s' = crawlers s \<and> crawler_count s' = crawler_count s - 1 \<and>
    itemstats s' = (itemstats s)(i := add_crawl (crawlers s i) (itemstats s i))"
proof -
  let ?a = "crawler_addr s i"
  have cc: "it_flags (heap s ?a) = 1" "nbytes (heap s ?a) = 0" "slabs_clsid (heap s ?a) = i" using crawl_inv_crawler(4) [OF inv, of i] w by auto
  have d: "dll (heap s) (heads s i) (tails s i) (?a # Q i)" using crawl_inv_queue [OF inv, of i] w by (simp add: crawl_view_def)
  have l: "i_prev (heap s ?a) = NULL" "i_next (heap s ?a) \<noteq> ?a" using dll_neighbours(1,5) [of "heap s" _ _ "[]" ?a "Q i"] d by auto
  obtain t where t: "crawl_pop ?a i s = Some t" "Q i = [] \<longrightarrow> t = s" "one_queue i (set (Q i)) s t" "sizes t = sizes s" "sizes_bytes t = sizes_bytes s"
    using crawl_pop_dll [OF d cc(3)] by blast
  have q: "do_item_crawl_q ?a s = Some (NULL, t)" using cc l t(1) by (simp add: do_item_crawl_q_def)
  show ?thesis
  proof (cases "Q i = []")
    case True
    then show ?thesis using q t(2) class_done_correct [OF inv w act] by auto
  next
    case False
    note ts = one_queue_same [OF t(3-5)]
    define f where "f = (\<lambda>s :: crawl_state. (upd_item ?a (\<lambda>c. c\<lparr>it_flags := 0\<rparr>) s)\<lparr>crawler_count := crawler_count t - 1\<rparr>)"
    have ff: "tables (f s) = tables s" "heads (f s) = heads s" "tails (f s) = tails s" "ctl (f s) = ctl s" "crawlers (f s) = crawlers s" "itemstats (f s) = itemstats s"
      "crawler_count (f s) = crawler_count s - 1" "active_mod (f s) = active_mod s" "cm_data (f s) = cm_data s"
      by (simp_all add: f_def upd_item_def tables_def ctl_def env_def ts(4))
    have fh: "heap (f s) a = heap s a" if "a \<noteq> ?a" for a using that by (simp add: f_def)
    have "dll (heap (f s)) hp tp xs = dll (heap s) hp tp xs" for hp tp xs by (rule dll_cong) (simp add: f_def)
    then have fd: "dll (heap (f s)) (heads (f s) i) (tails (f s) i) (?a # Q i)" "slabs_clsid (heap (f s) ?a) = i" using d cc by (simp_all add: ff f_def)
    have pf: "crawl_pop ?a i (f s) = Some (f t)" unfolding f_def by (rule crawl_pop_disable [OF t(1) l(2)])
    have u: "i_prev (heap (f t) ?a) = NULL" "one_queue i (set (Q i)) (f s) (f t)" "sizes (f t) = sizes (f s)" "sizes_bytes (f t) = sizes_bytes (f s)"
      "dll (heap (f t)) (heads (f t) i) (tails (f t) i) (Q i)" "i_next (heap (f t) ?a) = hd (Q i)" "heap (f t) ?a = heap (f s) ?a"
      using crawl_pop_dll [OF fd] pf False by auto
    note same = one_queue_same [OF u(2-4)]
    have nq: "?a \<notin> set (Q i)" using d by (simp add: dll_def)
    obtain x xs where Qi: "Q i = x # xs" using False by (cases "Q i") auto
    have hx: "heads (f t) i = x" "tails (f t) i \<in> set (Q i)" "i_prev (heap (f t) x) = NULL" "x \<noteq> NULL"
      using u(5) Qi last_or_in [of "Q i" NULL] by (auto simp: dll_def)
    have "upd_item x (\<lambda>j. j\<lparr>i_prev := NULL\<rparr>) (f t) = f t" using hx(3) by (simp add: upd_item_def fun_upd_idem)
    then have un: "do_item_unlinktail_q ?a (f t) = Some (f t)"
      using hx nq u(1,6,7) fd(2) Qi crawl_inv_crawler(3) [OF inv, of i] by (auto simp: do_item_unlinktail_q_def Let_def)
    have ua: "active_mod (f t) \<noteq> None" "cm_data (f t) \<noteq> No_data" using act ff same(5) ctl_fields(3) [OF same(2)] by simp_all
    obtain s' where s': "class_closed i (f t) = Some s'" "tables s' = tables (f t)" "heap s' = heap (f t)" "heads s' = heads (f t)" "tails s' = tails (f t)"
      "ctl s' = ctl (f t)" "crawlers s' = crawlers (f t)" "crawler_count s' = crawler_count (f t)"
      "itemstats s' = (itemstats (f t))(i := add_crawl (crawlers (f t) i) (itemstats (f t) i))"
      using class_closed_run [OF ua] by blast
    have "crawl_inv s' F Q (W(i := None)) \<and> keeps_items s s'"
      by (rule crawler_moved [OF inv u(2) _ u(3,4) ff(1-3) fh s'(2-5)]) (use s'(6) same ff u(5) in \<open>auto simp: crawl_view_def f_def\<close>)
    moreover have "lru_crawler_class_done i t = Some s'"
      using un s'(1) by (simp add: class_done_unfold ctl_fields(2) [OF ts(2)] f_def)
    ultimately show ?thesis using q s' same ff by (intro exI [of _ t] exI [of _ s']) simp
  qed
qed

end
