(* ===== verification/Crawler_Reclaim.thy ===== *)
theory Crawler_Reclaim
  imports Crawler_Inv
begin

text \<open>
  An item that the crawler has passed is examined. Most are left alone; one that is dead and that nobody uses is unlinked and freed, while the crawler stays in the
  queue.
\<close>

section \<open>An item less\<close>

lemma remove_nth:
  assumes "n < length xs" "distinct xs"
  shows "remove1 (xs ! n) xs = take n xs @ drop (Suc n) xs"
proof -
  have e: "xs = take n xs @ xs ! n # drop (Suc n) xs" using assms(1) by (rule id_take_nth_drop)
  have "xs ! n \<notin> set (take n xs)" using assms e by (metis distinct_append disjoint_iff list.set_intros(1))
  then show ?thesis using e remove1_split by metis
qed

lemma crawl_view_distinct:
  assumes inv: "crawl_inv s F Q W"
  shows "distinct (Q c)"
proof -
  have d: "distinct (crawl_view (crawler_addr s) W Q c)" using crawl_inv_queue [OF inv, of c] by (rule dll_distinct)
  show ?thesis
  proof (cases "W c")
    case None
    then show ?thesis using d by (simp add: crawl_view_def)
  next
    case (Some n)
    then have "distinct (take n (Q c))" "distinct (drop n (Q c))" "set (take n (Q c)) \<inter> set (drop n (Q c)) = {}"
      using d unfolding crawl_view_def by auto
    then show ?thesis by (metis append_take_drop_id distinct_append)
  qed
qed

text \<open>The invariant after the item behind the crawler is gone.\<close>

lemma crawl_inv_drop:
  fixes s u :: crawl_state
  assumes inv: "crawl_inv s F Q W" and w: "W i = Some n" "n < length (Q i)" "Q i ! n = x"
  defines "Q' \<equiv> Q(i := remove1 x (Q i))" and "v \<equiv> take n (Q i) @ crawler_addr s i # drop (Suc n) (Q i)"
  assumes as: "assoc_inv u" "assoc_map u = (assoc_map s)(item_key (heap s x) := None)"
    and sl: "slabs_inv u F'" "free_items F' = insert x (free_items F)"
    and q: "dll (heap u) (heads u i) (tails u i) v" "\<And>d. d \<noteq> i \<Longrightarrow> heads u d = heads s d \<and> tails u d = tails s d"
    and sz: "sizes u = (sizes s)(i := sizes s i - 1)" "sizes_bytes u = (sizes_bytes s)(i := sizes_bytes s i - ITEM_ntotal (heap s x))"
    and cu: "curr_items u = curr_items s - 1" "curr_bytes u = curr_bytes s - ITEM_ntotal (heap s x)"
    and fx: "power_largest u = power_largest s" "crawler_addr u = crawler_addr s"
    and str: "\<And>a. a \<noteq> x \<Longrightarrow> a \<notin> free_items F \<Longrightarrow> strip (heap u a) = strip (heap s a)"
    and lnk: "\<And>a. a \<noteq> x \<Longrightarrow> a \<notin> free_items F \<Longrightarrow> a \<notin> set v \<Longrightarrow> i_next (heap u a) = i_next (heap s a) \<and> i_prev (heap u a) = i_prev (heap s a)"
  shows "crawl_inv u F' Q' W"
proof -
  let ?A = "crawler_addr s"
  have xq: "x \<in> set (Q i)" using w by auto
  have xl: "x \<in> lru_items Q" using xq by (rule lru_itemsI)
  have di: "distinct (Q c)" for c using crawl_view_distinct [OF inv] .
  have rm: "remove1 x (Q i) = take n (Q i) @ drop (Suc n) (Q i)" using remove_nth [OF w(2) di] w(3) by simp
  have ni: "x \<notin> set (Q d)" if "d \<noteq> i" for d using crawl_inv_disjoint [OF inv xq that] .
  have Qs: "set (Q' c) = set (Q c) - {x}" for c using di [of i] ni [of c] by (cases "c = i") (auto simp: Q'_def)
  have items: "lru_items Q' = lru_items Q - {x}" using Qs by (auto simp: lru_items_def)
  have nf: "a \<notin> free_items F" "a \<noteq> ?A c" if "a \<in> lru_items Q" for a c using crawl_inv_item(3,4) [OF inv that] by auto
  have sf: "it_flags (heap u a) = it_flags (heap s a)" "slabs_clsid (heap u a) = slabs_clsid (heap s a)" "nbytes (heap u a) = nbytes (heap s a)"
    "ITEM_ntotal (heap u a) = ITEM_ntotal (heap s a)" "refcount (heap u a) = refcount (heap s a)" if "a \<noteq> x" "a \<notin> free_items F" for a
    using strip_fields [OF str [OF that]] by simp_all
  have Q'l: "a \<in> lru_items Q \<and> a \<noteq> x \<and> a \<notin> free_items F" if "a \<in> set (Q' c)" for a c
    using that Qs [of c] lru_itemsI [of a Q c] nf(1) by auto
  have len: "length (Q i) = Suc (length (Q' i))" using xq w(2) by (simp add: Q'_def length_remove1)
  have view: "crawl_view ?A W Q' i = v"
  proof -
    have "min (length (Q i)) n = n" using w(2) by simp
    then show ?thesis using w(1) by (simp add: crawl_view_def Q'_def rm v_def)
  qed
  have q': "queues_ok u Q' W"
    unfolding queues_ok_def fx
  proof (intro allI conjI ballI)
    fix c
    show "dll (heap u) (heads u c) (tails u c) (crawl_view ?A W Q' c)"
    proof (cases "c = i")
      case False
      have vc: "crawl_view ?A W Q' c = crawl_view ?A W Q c" by (rule crawl_view_other) (simp_all add: Q'_def False)
      have "dll (heap u) (heads s c) (tails s c) (crawl_view ?A W Q c) = dll (heap s) (heads s c) (tails s c) (crawl_view ?A W Q c)"
      proof (rule dll_cong)
        fix a assume "a \<in> set (crawl_view ?A W Q c)"
        then consider "a \<in> set (Q c)" | "a = ?A c" by (auto simp: crawl_view_set split: if_splits)
        then have a: "a \<noteq> x \<and> a \<notin> free_items F \<and> a \<notin> set (Q i) \<and> a \<noteq> ?A i"
        proof cases
          case 1
          then show ?thesis using nf [OF lru_itemsI [of a Q c]] ni [OF False] crawl_inv_disjoint [OF inv 1] False by metis
        next
          case 2
          then show ?thesis using crawl_inv_crawler [OF inv, of c] crawl_inv_crawler(5) [OF inv, of c i] xl lru_itemsI [of _ Q i] False by metis
        qed
        then have "a \<notin> set v" by (auto simp: v_def dest: in_set_takeD in_set_dropD)
        then show "i_prev (heap u a) = i_prev (heap s a) \<and> i_next (heap u a) = i_next (heap s a)" using lnk a by blast
      qed
      then show ?thesis using crawl_inv_queue [OF inv, of c] q(2) [OF False] vc by simp
    qed (use q(1) view in simp)
    show "slabs_clsid (heap u a) = c" if "a \<in> set (Q' c)" for a
      using Q'l [OF that] sf(2) [of a] crawl_inv_cls [OF inv, of a c] that Qs [of c] by auto
    have szs: "sizes s c = of_nat (length (Q c))" "sizes_bytes s c = sum_list (map (\<lambda>x. ITEM_ntotal (heap s x)) (Q c))"
      using inv by (simp_all add: crawl_inv_def queues_ok_def)
    show "sizes u c = of_nat (length (Q' c))" using szs(1) sz(1) len by (cases "c = i") (auto simp: Q'_def)
    have m: "map (\<lambda>x. ITEM_ntotal (heap u x)) (Q' c) = map (\<lambda>x. ITEM_ntotal (heap s x)) (Q' c)"
      using Q'l [of _ c] sf(4) by (intro map_cong) auto
    show "sizes_bytes u c = sum_list (map (\<lambda>x. ITEM_ntotal (heap u x)) (Q' c))"
      unfolding m using szs(2) sz(2) sum_list_remove1 [OF xq, of "\<lambda>a. ITEM_ntotal (heap s a)"] by (cases "c = i") (auto simp: Q'_def)
  qed
  have k: "crawlers_ok u F' Q' W"
    unfolding crawlers_ok_def fx
  proof (intro conjI allI)
    fix c
    note cr = crawl_inv_crawler [OF inv, of c]
    have ne: "?A c \<noteq> x" using cr(1) xl by metis
    show "?A c \<notin> free_items F'" "?A c \<notin> lru_items Q'" "?A c \<noteq> NULL" using cr ne sl(2) items by auto
    have "crawler_cell c (W c) (length (Q' c)) (heap s (?A c))"
      using cr(4) w len by (cases "c = i") (auto simp: Q'_def)
    then show "crawler_cell c (W c) (length (Q' c)) (heap u (?A c))"
      by (rule crawler_cell_cong) (use sf [OF ne cr(2)] in simp_all)
  qed (use inv in \<open>simp add: crawl_inv_def crawlers_ok_def\<close>)
  have lk: "has_flag (it_flags (heap u a)) ITEM_LINKED = (a \<in> lru_items Q')" if "a \<notin> range ?A" for a
  proof (cases "a \<in> free_items F'")
    case True
    then show ?thesis using slabs_inv_free_item [OF sl(1) True] sl(2) items nf(1) [of a] by auto
  next
    case False
    have "has_flag (it_flags (heap s a)) ITEM_LINKED = (a \<in> lru_items Q)" using inv that unfolding crawl_inv_def by blast
    then show ?thesis using sf(1) [of a] sl(2) items False by simp
  qed
  have ok: "linked_ok u a" if "a \<in> lru_items Q'" for a
    using that items sf [of a] nf(1) [of a] crawl_inv_item(2) [OF inv, of a] by (simp add: linked_ok_def valid_cls_def fx ITEM_clsid_def)
  have fin: "finite (lru_items Q)" by (rule lru_items_finite)
  have cd: "curr_items u = of_nat (card (lru_items Q'))"
  proof -
    have "card (lru_items Q) = Suc (card (lru_items Q'))" unfolding items using card.remove [OF fin xl] .
    then show ?thesis using cu(1) inv by (simp add: crawl_inv_def)
  qed
  have "(\<Sum>a \<in> lru_items Q'. ITEM_ntotal (heap u a)) = (\<Sum>a \<in> lru_items Q'. ITEM_ntotal (heap s a))"
    using items sf(4) nf(1) by (intro sum.cong) auto
  also have "\<dots> = curr_bytes s - ITEM_ntotal (heap s x)" using inv xl fin by (simp add: crawl_inv_def items sum_diff1)
  finally have cb: "curr_bytes u = (\<Sum>a \<in> lru_items Q'. ITEM_ntotal (heap u a))" using cu(2) by simp
  have ai: "assoc_items u = lru_items Q'"
    using assoc_delete_items [OF _ crawl_inv_map [OF inv xl] as(2)] inv items by (simp add: crawl_inv_def)
  show ?thesis unfolding crawl_inv_def using as(1) sl(1) q' k lk ok cd cb ai fx by simp
qed

section \<open>Reclaiming\<close>

lemma more_of_slab_more: "slab_state.more s' = slab_state.more (s :: 'z lru_state_scheme) \<Longrightarrow> lru_state.more s' = lru_state.more s"
  by (cases s; cases s') simp

lemma reclaim_item:
  assumes inv: "crawl_inv s F Q W" and w: "W i = Some n" "n < length (Q i)" "Q i ! n = x"
    and r: "refcount (heap s x) = 2" and hv: "hv = hash s (item_key (heap s x))"
  defines "k \<equiv> unat (ITEM_clsid (heap s x))"
  shows "\<exists>v s'. do_item_unlink_nolock x hv s = Some v \<and> do_item_remove x v = Some s' \<and> slabs_clsid (heap s' x) = 0 \<and>
    crawl_inv s' (F(k := x # F k)) (Q(i := remove1 x (Q i))) W \<and> assoc_map s' = (assoc_map s)(item_key (heap s x) := None) \<and>
    (\<forall>a. a \<noteq> x \<longrightarrow> a \<notin> free_items F \<longrightarrow> strip (heap s' a) = strip (heap s a)) \<and> env s' = env s \<and> lru_state.more s' = lru_state.more s \<and>
    itemstats s' = itemstats s"
proof -
  let ?p = "unlink_prepare x s" and ?k = "item_key (heap s x)" and ?ps = "take n (Q i) @ [crawler_addr s i]" and ?ns = "drop (Suc n) (Q i)"
  note h = unlink_prepare_heap [of x s] and f = unlink_prepare_fields [of x s]
  have xq: "x \<in> set (Q i)" using w by auto
  have xl: "x \<in> lru_items Q" using xq by (rule lru_itemsI)
  note it = crawl_inv_item [OF inv xl]
  have ai: "assoc_inv s" "assoc_items s = lru_items Q" "slabs_inv s F" using inv by (simp_all add: crawl_inv_def)
  have st: "same_table s ?p" by (simp add: same_table_def f)
  have a: "assoc_inv ?p \<and> assoc_map ?p = assoc_map s"
    by (rule assoc_heap_cong [OF ai(1) st f(3,4)]) (auto simp: h same_key_def)
  have m: "assoc_map ?p ?k = Some x" using a crawl_inv_map [OF inv xl] by simp
  obtain t where t: "assoc_delete ?k hv ?p = Some t" "assoc_inv t" "assoc_map t = (assoc_map s)(?k := None)" "assoc_frame ?p t" "same_table ?p t"
    "\<forall>y. y \<notin> assoc_items ?p \<longrightarrow> heap t y = heap ?p y"
    using assoc_delete_correct [OF _ m] a hv f(1) by auto
  have hl: "hlinks_only (heap ?p) (heap t)" and mo: "assoc_state.more t = assoc_state.more ?p" using t(4) by (auto simp: assoc_frame_def)
  note sf = assoc_more_fields [OF mo] and lf = slab_more_fields [OF assoc_more_fields(3) [OF mo]]
  have tl: "i_prev (heap t y) = i_prev (heap s y)" "i_next (heap t y) = i_next (heap s y)" "slabs_clsid (heap t y) = slabs_clsid (heap s y)"
    "ITEM_ntotal (heap t y) = ITEM_ntotal (heap s y)" "refcount (heap t y) = refcount (heap s y)" for y
    by (subst hlinks_only_field [OF hl]; simp add: h)+
  have ts: "strip (heap t y) = strip (heap ?p y)" for y by (rule hlinks_only_strip [OF hl])
  have vw: "crawl_view (crawler_addr s) W Q i = ?ps @ x # ?ns" using w(1,3) Cons_nth_drop_Suc [OF w(2)] by (simp add: crawl_view_def)
  have ds: "dll (heap s) (heads s i) (tails s i) (?ps @ x # ?ns)" using crawl_inv_queue [OF inv, of i] vw by simp
  have "dll (heap t) (heads t i) (tails t i) (?ps @ x # ?ns) = dll (heap s) (heads s i) (tails s i) (?ps @ x # ?ns)"
    unfolding lf(1,2) f by (rule dll_cong) (simp add: tl)
  then have d: "dll (heap t) (heads t i) (tails t i) (?ps @ x # ?ns)" using ds by simp
  have cx: "slabs_clsid (heap s x) = i" using crawl_inv_cls [OF inv xq] .
  obtain u where u: "do_item_unlink_q x t = Some u" "dll (heap u) (heads u i) (tails u i) (?ps @ ?ns)" "one_queue i (set (?ps @ ?ns)) t u"
    "sizes u = (sizes t)(i := sizes t i - 1)" "sizes_bytes u = (sizes_bytes t)(i := sizes_bytes t i - ITEM_ntotal (heap t x))"
    using do_item_unlink_q_dll [OF d] tl(3) cx by auto
  have qf: "queue_frame t u" using u(3) by (simp add: one_queue_def)
  note qg = queue_frame_fields [OF qf] and uh = one_queue_heap [OF u(3)]
  have umore: "lru_state.more u = lru_state.more t" "itemstats u = itemstats t"
    by (subst qf [unfolded queue_frame_def, THEN conjunct1], simp)+
  have us: "strip (heap u y) = strip (heap ?p y)" for y using queue_frame_strip [OF qf, of y] ts by simp
  have ua: "assoc_inv u \<and> assoc_map u = (assoc_map s)(?k := None)" using queue_frame_assoc [OF t(2) qf] t(3) by simp
  define v where "v = upd_item x (\<lambda>i. i\<lparr>refcount := refcount i - 1\<rparr>) u"
  have lk: "has_flag (it_flags (heap s x)) ITEM_LINKED" by (rule it(1))
  have lok: "\<not> has_flag (it_flags (heap s x)) ITEM_SLABBED" "\<not> has_flag (it_flags (heap s x)) ITEM_CHUNKED" "valid_cls s k"
    using it(2) by (simp_all add: linked_ok_def k_def)
  have xf: "it_flags (heap u x) = clr_flag (it_flags (heap s x)) ITEM_LINKED" "refcount (heap u x) = 2" "slabs_clsid (heap u x) = i" "ITEM_ntotal (heap u x) = ITEM_ntotal (heap s x)"
    using strip_fields [OF us [of x]] r cx by (simp_all add: h)
  have un: "do_item_unlink_nolock x hv s = Some v"
    using u(1) t(1) xf lok by (simp add: do_item_unlink_nolock_eq do_item_unlink_unfold [OF lk] do_item_remove_def v_def)
  let ?w = "upd_item x (\<lambda>i. i\<lparr>refcount := refcount i - 1\<rparr>) v"
  have wx: "it_flags (heap ?w x) = clr_flag (it_flags (heap s x)) ITEM_LINKED" "refcount (heap ?w x) = 0" "slabs_clsid (heap ?w x) = i"
    "ITEM_ntotal (heap ?w x) = ITEM_ntotal (heap s x)" using xf by (simp_all add: v_def)
  have kx: "unat (ITEM_clsid (heap ?w x)) = k" using wx(3) cx by (simp add: k_def ITEM_clsid_def)
  have wo: "heap ?w y = heap u y" if "y \<noteq> x" for y using that by (simp add: v_def)
  have wf: "heads ?w = heads u" "tails ?w = tails u" "sizes ?w = sizes u" "sizes_bytes ?w = sizes_bytes u" "power_largest ?w = power_largest s" "slabclass ?w = slabclass s"
    "curr_items ?w = curr_items s - 1" "curr_bytes ?w = curr_bytes s - ITEM_ntotal (heap s x)"
    by (simp_all add: v_def qg(7-10) sf(1,2) lf(5,6) f)
  have xnv: "x \<notin> set (?ps @ ?ns)" using dll_split_links(3,4) [OF ds] by simp
  have free_same: "heap ?w y = heap s y" if "y \<in> free_items F" for y
  proof -
    have n: "y \<notin> lru_items Q" "y \<noteq> crawler_addr s i" "y \<noteq> x" using that crawl_inv_item(4) [OF inv] crawl_inv_crawler(2) [OF inv] xl by metis+
    then have "y \<notin> set (?ps @ ?ns)" using lru_itemsI [of y Q i] by (auto dest: in_set_takeD in_set_dropD)
    moreover have "y \<notin> assoc_items ?p" using n ai(2) a by (simp add: assoc_items_def)
    ultimately show ?thesis using uh(2) t(6) wo [OF n(3)] n(3) by (simp add: h)
  qed
  have ws: "slabs_inv ?w F" by (rule slabs_inv_cong [OF ai(3) wf(6,5)]) (simp only: free_same)
  have kk: "1 \<le> k" "k \<le> power_largest ?w" using lok(3) wf(5) by (simp_all add: valid_cls_def)
  have nc: "\<not> has_flag (it_flags (heap ?w x)) ITEM_CHUNKED" using wx(1) lok(2) by simp
  obtain s' where s': "do_slabs_free x (ITEM_ntotal (heap ?w x)) k ?w = Some s'" "slabs_inv s' (F(k := x # F k))" "slab_frame ?w s'"
    "\<forall>a. a \<notin> insert x (free_items F) \<longrightarrow> heap s' a = heap ?w a" "slabs_clsid (heap s' x) = 0"
    using do_slabs_free_correct [OF ws kk it(4,5) nc, of "ITEM_ntotal (heap ?w x)"] by auto
  have sm: "slab_state.more s' = slab_state.more ?w" using s'(3) by (simp add: slab_frame_def)
  note gf = slab_more_fields [OF sm]
  have ends: "x \<noteq> heads ?w i" "x \<noteq> tails ?w i"
    using u(2) xnv it(5) first_or_eqD [of "?ps @ ?ns" x] last_or_eqD [of "?ps @ ?ns" x] wf(1,2) by (metis dll_def)+
  have rm: "do_item_remove x v = Some s'"
    using wx ends s'(1) kx lok(1) xf by (simp add: do_item_remove_def item_free_def slabs_free_def v_def)
  have str: "strip (heap s' y) = strip (heap s y)" if "y \<noteq> x" "y \<notin> free_items F" for y
    using s'(4) that wo [OF that(1)] us [of y] by (simp add: h)
  have free: "free_items (F(k := x # F k)) = insert x (free_items F)" by (simp add: free_items_upd)
  have ma: "assoc_inv s' \<and> assoc_map s' = (assoc_map s)(?k := None)"
  proof -
    have nx: "x \<notin> ran (assoc_map u)"
      using assoc_delete_items [OF ai(1) crawl_inv_map [OF inv xl], of u] ua by (simp add: assoc_items_def)
    have stu: "same_table u s'" "primary_hashtable s' = primary_hashtable u" "old_hashtable s' = old_hashtable u"
      using s'(3) by (simp_all add: same_table_def slab_frame_def v_def)
    have "heap s' y = heap u y" if "y \<in> assoc_items u" for y
    proof -
      have "y \<in> lru_items Q" "y \<noteq> x" using that nx assoc_delete_items [OF ai(1) crawl_inv_map [OF inv xl], of u] ua ai(2) by (auto simp: assoc_items_def)
      then have "y \<notin> insert x (free_items F)" using crawl_inv_item(4) [OF inv, of y] by blast
      then show ?thesis using s'(4) wo [of y] by simp
    qed
    then show ?thesis using assoc_heap_cong [OF _ stu] ua by simp
  qed
  have more: "lru_state.more s' = lru_state.more s"
    using more_of_slab_more [OF sm] umore(1) more_of_slab_more [OF assoc_more_fields(3) [OF mo]]
    by (simp add: v_def upd_item_def unlink_prepare_def Let_def item_stats_sizes_remove_def split: option.split)
  have ist: "itemstats s' = itemstats s"
    using gf(8) umore(2) lf(8) by (simp add: v_def upd_item_def unlink_prepare_def Let_def item_stats_sizes_remove_def split: option.split)
  have env: "env s' = env s"
  proof -
    have "settings t = settings ?p" "current_time t = current_time ?p" "hash t = hash ?p" "item_locks t = item_locks ?p"
      "item_lock_hashpower t = item_lock_hashpower ?p" using t(4) by (auto simp: assoc_frame_def)
    then have "env u = env s" using qg(11,12,1,13,14,16) f(15,16,1,17,18,20) lf(9) by (simp add: env_def qg(8,15) sf(2) f(8,19) lf(7))
    moreover have "env s' = env ?w" using s'(3) by (simp add: slab_frame_def env_def gf)
    ultimately show ?thesis by (simp add: v_def)
  qed
  have "crawl_inv s' (F(k := x # F k)) (Q(i := remove1 x (Q i))) W"
  proof (rule crawl_inv_drop [OF inv w conjunct1 [OF ma] conjunct2 [OF ma] s'(2) free])
    have same: "heap s' y = heap ?w y" if "y \<in> set (?ps @ ?ns)" for y
    proof -
      have "y \<noteq> x" using that xnv by metis
      moreover have "y \<notin> free_items F"
        using that crawl_inv_item(4) [OF inv lru_itemsI [of y Q i]] crawl_inv_crawler(2) [OF inv, of i] by (auto dest: in_set_takeD in_set_dropD)
      ultimately show ?thesis using s'(4) by simp
    qed
    have "dll (heap s') (heads s' i) (tails s' i) (?ps @ ?ns) = dll (heap u) (heads u i) (tails u i) (?ps @ ?ns)"
      unfolding gf(1,2) wf(1,2)
    proof (rule dll_cong)
      fix y assume y: "y \<in> set (?ps @ ?ns)"
      have "y \<noteq> x" using y xnv by metis
      from trans [OF same [OF y] wo [OF this]] have "heap s' y = heap u y" .
      then show "i_prev (heap s' y) = i_prev (heap u y) \<and> i_next (heap s' y) = i_next (heap u y)" by (simp only:)
    qed
    then show "dll (heap s') (heads s' i) (tails s' i) (take n (Q i) @ crawler_addr s i # ?ns)" using u(2) by simp
    show "heads s' d = heads s d \<and> tails s' d = tails s d" if "d \<noteq> i" for d using uh(3) [OF that] gf(1,2) wf(1,2) lf(1,2) f by simp
    show "i_next (heap s' y) = i_next (heap s y) \<and> i_prev (heap s' y) = i_prev (heap s y)"
      if y: "y \<noteq> x" "y \<notin> free_items F" "y \<notin> set (take n (Q i) @ crawler_addr s i # ?ns)" for y
      using s'(4) y wo [OF y(1)] uh(2) [of y] tl by simp
  qed (use str gf wf u(4,5) lf f tl s'(3) crawl_more_fields(1) [OF more] in \<open>simp_all add: slab_frame_def\<close>)
  then show ?thesis using un rm s'(5) ma str env more ist by blast
qed

end
