(* ===== verification/Crawler_Spec.thy ===== *)
theory Crawler_Spec
  imports Crawler_Reclaim Items_Spec Evict
begin

text \<open>
  A whole crawl of the expiry module: every item of the selected queues is visited once, from the tail towards the head, dead items that nobody holds are freed and
  all others stay where they are.
\<close>

section \<open>One item\<close>

lemma crawl_inv_refcount:
  assumes inv: "crawl_inv s F Q W" and tab: "tables s' = tables s" "heads s' = heads s" "tails s' = tails s"
    and hp: "heap s' = (heap s)(x := (heap s x)\<lparr>refcount := r\<rparr>)" and x: "x \<in> lru_items Q" "r \<noteq> 0"
  shows "crawl_inv s' F Q W"
proof -
  have f: "hash s' = hash s" "hashpower s' = hashpower s" "primary_hashtable s' = primary_hashtable s"
    "old_hashtable s' = old_hashtable s" "expanding s' = expanding s" "expand_bucket s' = expand_bucket s"
    "slabclass s' = slabclass s" "power_largest s' = power_largest s"
    "sizes s' = sizes s" "sizes_bytes s' = sizes_bytes s" "curr_items s' = curr_items s" "curr_bytes s' = curr_bytes s" "crawler_addr s' = crawler_addr s"
    using tab(1) by (simp_all add: tables_def)
  have fld: "it_flags (heap s' a) = it_flags (heap s a)" "slabs_clsid (heap s' a) = slabs_clsid (heap s a)" "i_next (heap s' a) = i_next (heap s a)"
    "i_prev (heap s' a) = i_prev (heap s a)" "nbytes (heap s' a) = nbytes (heap s a)" "ITEM_ntotal (heap s' a) = ITEM_ntotal (heap s a)"
    "same_key (heap s' a) (heap s a)" "h_next (heap s' a) = h_next (heap s a)" for a by (simp_all add: hp same_key_def)
  have st: "same_table s s'" by (simp add: same_table_def f)
  have a: "assoc_inv s' \<and> assoc_map s' = assoc_map s"
    by (rule assoc_heap_cong [OF _ st f(3,4)]) (use inv fld in \<open>auto simp: crawl_inv_def\<close>)
  have sl: "slabs_inv s' F" by (rule slabs_inv_cong [of s F]) (use inv f fld in \<open>auto simp: crawl_inv_def\<close>)
  have "dll (heap s') hp tp xs = dll (heap s) hp tp xs" for hp tp xs by (rule dll_cong) (simp add: fld)
  then have q: "queues_ok s' Q W" using inv by (simp add: crawl_inv_def queues_ok_def f tab fld)
  have "crawler_cell c w n (heap s' a) = crawler_cell c w n (heap s a)" for c w n a by (cases w) (simp_all add: fld)
  then have k: "crawlers_ok s' F Q W" using inv by (simp add: crawl_inv_def crawlers_ok_def f)
  have "linked_ok s' a" if "a \<in> lru_items Q" for a
    using crawl_inv_item(2) [OF inv that] x(2) by (auto simp: linked_ok_def valid_cls_def f fld ITEM_clsid_def hp word_neq_0_conv)
  moreover have "assoc_items s' = lru_items Q" using a inv by (simp add: assoc_items_def crawl_inv_def)
  ultimately show ?thesis using a sl q k inv by (simp add: crawl_inv_def f fld)
qed

text \<open>An item that the crawler frees: its lock is free, no one else refers to it, and it is dead.\<close>

definition reclaimable :: "crawl_state \<Rightarrow> addr \<Rightarrow> bool" where
  "reclaimable s x \<longleftrightarrow> \<not> item_locks s (hv_bucket (hash s (item_key (heap s x))) (item_lock_hashpower s)) \<and>
     refcount (heap s x) = 1 \<and> is_dead x s"

lemma reclaimable_cong:
  assumes "strip (heap s' x) = strip (heap s x)" "env s' = env s"
  shows "reclaimable s' x = reclaimable s x"
  using strip_fields [OF assms(1)] env_fields [OF assms(2)] is_dead_cong [of s' x s] by (simp add: reclaimable_def)

text \<open>What an examination leaves alone.\<close>

definition examined :: "crawl_state \<Rightarrow> (u8 \<Rightarrow> addr list) \<Rightarrow> crawl_state \<Rightarrow> bool" where
  "examined s Q s' \<longleftrightarrow> ctl s' = ctl s \<and> crawler_count s' = crawler_count s \<and> (\<forall>j. cr_remaining (crawlers s' j) = cr_remaining (crawlers s j)) \<and>
     (\<forall>a \<in> lru_items Q. strip (heap s' a) = strip (heap s a))"

lemma put_data_fields [simp]:
  "heap (put_data d s) = heap s" "heads (put_data d s) = heads s" "tails (put_data d s) = tails s" "tables (put_data d s) = tables s"
  "ctl (put_data d s) = ctl s" "crawlers (put_data d s) = crawlers s" "crawler_count (put_data d s) = crawler_count s"
  "settings (put_data d s) = settings s" "current_time (put_data d s) = current_time s" "item_locks (put_data d s) = item_locks s"
  "item_lock_hashpower (put_data d s) = item_lock_hashpower s" "hash (put_data d s) = hash s"
  by (simp_all add: put_data_def tables_def ctl_def env_def split: module_data.split)

lemma upd_crawler_fields [simp]:
  "heap (upd_crawler i f s) = heap s" "heads (upd_crawler i f s) = heads s" "tails (upd_crawler i f s) = tails s" "tables (upd_crawler i f s) = tables s"
  "ctl (upd_crawler i f s) = ctl s" "crawler_count (upd_crawler i f s) = crawler_count s" "settings (upd_crawler i f s) = settings s"
  "current_time (upd_crawler i f s) = current_time s" "cm_data (upd_crawler i f s) = cm_data s" "active_mod (upd_crawler i f s) = active_mod s"
  "hash (upd_crawler i f s) = hash s" "crawlers (upd_crawler i f s) = (crawlers s)(i := f (crawlers s i))"
  by (simp_all add: upd_crawler_def tables_def ctl_def env_def)

lemma crawl_inv_same:
  assumes inv: "crawl_inv s F Q W" and "tables s' = tables s" "heap s' = heap s" "heads s' = heads s" "tails s' = tails s"
  shows "crawl_inv s' F Q W" "assoc_map s' = assoc_map s"
proof -
  have "crawl_inv s' F Q (W(0 := W 0)) \<and> assoc_map s' = assoc_map s"
    by (rule crawl_inv_relink [OF inv assms(2)])
      (use assms(3-5) crawl_inv_queue [OF inv, of 0] crawl_inv_crawler(4) [OF inv, of 0] in simp_all)
  then show "crawl_inv s' F Q W" "assoc_map s' = assoc_map s" by simp_all
qed

lemma lock_unlock:
  "\<not> item_locks s l \<Longrightarrow> item_trylock_unlock l (s\<lparr>item_locks := (item_locks s)(l := True), heap := heap s\<rparr>) = (s :: crawl_state)"
  by (simp add: item_trylock_unlock_def fun_upd_idem)

text \<open>The item is locked and referenced; \<open>t\<close> is the state the module then sees.\<close>

lemma eval_dead:
  fixes t :: crawl_state
  assumes inv: "crawl_inv t F Q W" and w: "W i = Some n" "n < length (Q i)" "Q i ! n = x" and r: "refcount (heap t x) = 2"
    and d: "cm_data t \<noteq> No_data" and dead: "is_dead x t"
  shows "\<exists>s' F'. crawler_expired_eval x (hash t (item_key (heap t x))) i t = Some s' \<and> crawl_inv s' F' (Q(i := remove1 x (Q i))) W \<and>
    examined t (Q(i := remove1 x (Q i))) s'"
proof -
  obtain e where e: "get_data t = Some e" using d by (cases "cm_data t") (auto simp: get_data_def)
  define t1 where "t1 = upd_crawler i (\<lambda>c. c\<lparr>cr_reclaimed := cr_reclaimed c + 1\<rparr>) (put_data (upd_stats i (\<lambda>t. t\<lparr>cs_reclaimed := cs_reclaimed t + 1\<rparr>) e) t)"
  define u where "u = (if \<not> has_flag (it_flags (heap t1 x)) ITEM_FETCHED \<and> \<not> item_is_flushed x t1
    then upd_crawler i (\<lambda>c. c\<lparr>cr_unfetched := cr_unfetched c + 1\<rparr>) t1 else t1)"
  have uf: "tables u = tables t" "heap u = heap t" "heads u = heads t" "tails u = tails t" "ctl u = ctl t" "crawler_count u = crawler_count t" "hash u = hash t"
    "cr_remaining (crawlers u j) = cr_remaining (crawlers t j)" for j by (simp_all add: u_def t1_def)
  have iu: "crawl_inv u F Q W" by (rule crawl_inv_same(1) [OF inv uf(1-4)])
  obtain v s' where s': "do_item_unlink_nolock x (hash t (item_key (heap t x))) u = Some v" "do_item_remove x v = Some s'" "slabs_clsid (heap s' x) = 0"
    "crawl_inv s' (F(unat (ITEM_clsid (heap u x)) := x # F (unat (ITEM_clsid (heap u x))))) (Q(i := remove1 x (Q i))) W"
    "\<forall>a. a \<noteq> x \<longrightarrow> a \<notin> free_items F \<longrightarrow> strip (heap s' a) = strip (heap u a)" "env s' = env u" "lru_state.more s' = lru_state.more u"
    using reclaim_item [OF iu w, of "hash t (item_key (heap t x))"] r uf by auto
  note m = crawl_more_fields [OF s'(7)]
  have run: "crawler_expired_eval x (hash t (item_key (heap t x))) i t = Some s'"
  proof -
    have "crawler_expired_eval x hv i t = Option.bind (do_item_unlink_nolock x hv u) (\<lambda>s. Option.bind (do_item_remove x s)
        (\<lambda>s. Option.bind (c_assert (slabs_clsid (heap s x) = 0)) (\<lambda>_. Some s)))" for hv
      unfolding u_def t1_def using e dead by (simp add: crawler_expired_eval_def Let_def split del: if_split)
    then show ?thesis using s'(1-3) by simp
  qed
  have di: "distinct (Q i)" by (rule crawl_view_distinct [OF inv])
  have xq: "x \<in> set (Q i)" using w by auto
  have "strip (heap s' a) = strip (heap t a)" if a: "a \<in> lru_items (Q(i := remove1 x (Q i)))" for a
  proof -
    obtain c where c: "a \<in> set ((Q(i := remove1 x (Q i))) c)" using a by (auto simp: lru_items_def)
    then have "a \<in> set (Q c)" "a \<noteq> x" using di crawl_inv_disjoint [OF inv xq, of c] by (cases "c = i"; auto)+
    then show ?thesis using s'(5) crawl_inv_item(4) [OF inv lru_itemsI, of a c] uf(2) by simp
  qed
  moreover have "ctl s' = ctl u" using s'(6) m by (simp add: ctl_def)
  ultimately have "examined t (Q(i := remove1 x (Q i))) s'" using m uf by (simp add: examined_def)
  then show ?thesis using run s'(4) by blast
qed

lemma eval_live:
  fixes t :: crawl_state
  assumes d: "cm_data t \<noteq> No_data" and live: "\<not> is_dead x t"
  shows "\<exists>e. crawler_expired_eval x hv i t = Some (upd_item x (\<lambda>it. it\<lparr>refcount := refcount it - 1\<rparr>) (put_data e t))"
proof -
  obtain e where "get_data t = Some e" using d by (cases "cm_data t") (auto simp: get_data_def)
  then have "crawler_expired_eval x hv i t = Some (upd_item x (\<lambda>it. it\<lparr>refcount := refcount it - 1\<rparr>)
      (put_data (upd_stats i (count_live (exptime (heap t x)) (current_time t)) e) t))"
    using live by (simp add: crawler_expired_eval_def)
  then show ?thesis by (rule exI)
qed

lemma crawl_item_correct:
  assumes inv: "crawl_inv s F Q W" and w: "W i = Some n" "n < length (Q i)" "Q i ! n = x"
    and act: "active_mod s = Some crawler_expired_mod" "cm_data s \<noteq> No_data"
  defines "Q' \<equiv> (if reclaimable s x then Q(i := remove1 x (Q i)) else Q)"
  shows "\<exists>s' F'. crawl_item L i x s = Some s' \<and> crawl_inv s' F' Q' W \<and> examined s Q' s'"
proof -
  let ?hv = "hash s (item_key (heap s x))"
  define l where "l = hv_bucket ?hv (item_lock_hashpower s)"
  have xl: "x \<in> lru_items Q" using w lru_itemsI [of x Q i] by auto
  show ?thesis
  proof (cases "item_locks s l")
    case True
    then have "Q' = Q" "crawl_item L i x s = Some s" by (simp_all add: Q'_def reclaimable_def crawl_item_def Let_def item_trylock_def l_def)
    then show ?thesis using inv by (auto simp: examined_def)
  next
    case False
    define s2 where "s2 = upd_item x (\<lambda>it. it\<lparr>refcount := refcount it + 1\<rparr>) (s\<lparr>item_locks := (item_locks s)(l := True)\<rparr>)"
    have tl: "item_trylock ?hv s = Some (l, s\<lparr>item_locks := (item_locks s)(l := True)\<rparr>)" using False by (simp add: item_trylock_def Let_def l_def)
    show ?thesis
    proof (cases "refcount (heap s x) = 1")
      case n1: False
      have "refcount (heap s2 x) \<noteq> 2" using n1 by (simp add: s2_def)
      moreover have "item_trylock_unlock l (upd_item x (\<lambda>it. it\<lparr>refcount := refcount it - 1\<rparr>) s2) = s"
        using lock_unlock [OF False] by (simp add: s2_def upd_item_def)
      ultimately have "crawl_item L i x s = Some s" using tl by (simp add: crawl_item_def Let_def s2_def)
      moreover have "Q' = Q" using n1 by (simp add: Q'_def reclaimable_def)
      ultimately show ?thesis using inv by (auto simp: examined_def)
    next
      case r1: True
      define t where "t = upd_crawler i (\<lambda>c. c\<lparr>cr_checked := cr_checked c + 1\<rparr>) s2"
      have tf: "tables t = tables s" "heads t = heads s" "tails t = tails s" "heap t = (heap s)(x := (heap s x)\<lparr>refcount := 2\<rparr>)" "hash t = hash s" "cm_data t = cm_data s"
        "active_mod t = active_mod s" "crawler_count t = crawler_count s" "crawler_addr t = crawler_addr s" "cm_c t = cm_c s"
        "settings t = settings s" "current_time t = current_time s" "item_locks t = (item_locks s)(l := True)" "item_lock_hashpower t = item_lock_hashpower s"
        "tstats t = tstats s" "power_largest t = power_largest s" "cas_id t = cas_id s"
        by (simp_all add: t_def s2_def upd_crawler_def upd_item_def tables_def r1)
      have tr: "cr_remaining (crawlers t j) = cr_remaining (crawlers s j)" for j by (simp add: t_def s2_def upd_item_def)
      have it: "crawl_inv t F Q W" by (rule crawl_inv_refcount [OF inv tf(1-4) xl]) simp
      have dd: "is_dead x t = is_dead x s" by (rule is_dead_cong) (simp_all add: tf ITEM_get_cas_def)
      have hv: "hash t (item_key (heap t x)) = ?hv" by (simp add: tf item_key_def)
      have "crawl_item L i x s = Option.bind (crawler_expired_eval x ?hv i t) (\<lambda>s. Some (item_trylock_unlock l s))"
        using tl r1 act(1) tf(7) by (simp add: crawl_item_def Let_def s2_def t_def mod_eval_def)
      moreover have "\<exists>u F'. crawler_expired_eval x ?hv i t = Some u \<and> crawl_inv u F' Q' W \<and> ctl u = ctl t \<and> crawler_count u = crawler_count s \<and>
        (\<forall>j. cr_remaining (crawlers u j) = cr_remaining (crawlers s j)) \<and> (\<forall>a \<in> lru_items Q'. strip (heap u a) = strip (heap s a))"
      proof (cases "is_dead x s")
        case True
        have q: "Q' = Q(i := remove1 x (Q i))" using True False r1 by (simp add: Q'_def reclaimable_def l_def)
        obtain u F' where u: "crawler_expired_eval x ?hv i t = Some u" "crawl_inv u F' Q' W" "examined t Q' u"
          using eval_dead [OF it w _ _ dd [THEN iffD2, OF True]] act(2) tf(4,6) hv unfolding q by auto
        have "x \<notin> lru_items Q'"
        proof
          assume "x \<in> lru_items Q'"
          then obtain c where "x \<in> set (Q' c)" by (auto simp: lru_items_def)
          then show False using crawl_view_distinct [OF inv, of i] crawl_inv_disjoint [OF inv, of x i c] w by (cases "c = i") (auto simp: q)
        qed
        then show ?thesis using u tf tr by (auto simp: examined_def)
      next
        case live: False
        then have q: "Q' = Q" by (simp add: Q'_def reclaimable_def)
        obtain e where e: "crawler_expired_eval x ?hv i t = Some (upd_item x (\<lambda>it. it\<lparr>refcount := refcount it - 1\<rparr>) (put_data e t))" (is "_ = Some ?u")
          using eval_live [of t x ?hv i] act(2) tf(6) dd live by auto
        have "(heap s x)\<lparr>refcount := 1\<rparr> = heap s x" using r1 by (cases "heap s x") simp
        then have hu: "heap ?u = heap s" by (simp add: tf upd_item_def fun_upd_idem)
        have "heads ?u = heads s" "tails ?u = tails s" "tables ?u = tables s"
          using tf(1-3) put_data_fields(4) [of e t] by (simp_all add: upd_item_def tables_def)
        from crawl_inv_same(1) [OF inv this(3) hu this(1,2)] have iu: "crawl_inv ?u F Q W" .
        have "ctl ?u = ctl t" using put_data_fields(5) [of e t] by (simp add: ctl_def env_def upd_item_def)
        moreover have "crawler_count ?u = crawler_count t" "crawlers ?u = crawlers t" by (simp_all add: upd_item_def)
        ultimately show ?thesis using e iu hu tf tr q by (intro exI [of _ ?u] exI [of _ F]) simp
      qed
      then obtain u F' where u: "crawler_expired_eval x ?hv i t = Some u" "crawl_inv u F' Q' W" "ctl u = ctl t" "crawler_count u = crawler_count s"
        "\<forall>j. cr_remaining (crawlers u j) = cr_remaining (crawlers s j)" "\<forall>a \<in> lru_items Q'. strip (heap u a) = strip (heap s a)" by blast
      let ?s' = "item_trylock_unlock l u"
      have fu: "heap ?s' = heap u" "heads ?s' = heads u" "tails ?s' = tails u" "tables ?s' = tables u" "crawlers ?s' = crawlers u" "crawler_count ?s' = crawler_count u"
        by (simp_all add: item_trylock_unlock_def tables_def)
      have "ctl ?s' = ctl s"
        using u(3) tf False by (simp add: ctl_def env_def item_trylock_unlock_def fun_upd_idem)
      moreover have "crawl_inv ?s' F' Q' W" by (rule crawl_inv_same(1) [OF u(2) fu(4,1,2,3)])
      ultimately show ?thesis using u fu by (auto simp: examined_def)
    qed
  qed
qed

section \<open>A crawl\<close>

text \<open>
  A crawler with \<open>m\<close> items in front of it stops when \<open>crawl_target r m\<close> items are left in front of it; \<open>r\<close> is its counter, and zero means no limit. The items it has passed are
  filtered.
\<close>

definition crawl_target :: "u32 \<Rightarrow> nat \<Rightarrow> nat" where
  "crawl_target r m = (if r = 0 then 0 else m - (unat r - 1))"

definition swept :: "crawl_state \<Rightarrow> nat \<Rightarrow> addr list \<Rightarrow> addr list" where
  "swept s m xs = take m xs @ filter (\<lambda>x. \<not> reclaimable s x) (drop m xs)"

text \<open>A crawl in progress: it began at \<open>s0\<close> with the queues \<open>Q0\<close>, and ends where \<open>lim\<close> says.\<close>

definition crawl_run ::
  "crawl_state \<Rightarrow> (u8 \<Rightarrow> addr list) \<Rightarrow> (u8 \<Rightarrow> nat) \<Rightarrow> crawl_state \<Rightarrow> (nat \<Rightarrow> addr list) \<Rightarrow> (u8 \<Rightarrow> addr list) \<Rightarrow> (u8 \<Rightarrow> nat option) \<Rightarrow> bool" where
  "crawl_run s0 Q0 lim s F Q W \<longleftrightarrow> crawl_inv s F Q W \<and> active_mod s = Some crawler_expired_mod \<and> cm_data s \<noteq> No_data \<and> cc_conn (cm_c s) = None \<and>
     env s = env s0 \<and> (\<forall>a \<in> lru_items Q. strip (heap s a) = strip (heap s0 a)) \<and> crawler_count s = int (card {i. W i \<noteq> None}) \<and> W 0 = None \<and>
     (\<forall>i. case W i of None \<Rightarrow> Q i = swept s0 (lim i) (Q0 i)
        | Some m \<Rightarrow> Q i = swept s0 m (Q0 i) \<and> m \<le> length (Q0 i) \<and> lim i = crawl_target (cr_remaining (crawlers s i)) m)"

lemma crawl_runD:
  assumes "crawl_run s0 Q0 lim s F Q W"
  shows "crawl_inv s F Q W" "active_mod s = Some crawler_expired_mod" "cm_data s \<noteq> No_data" "cc_conn (cm_c s) = None" "env s = env s0"
    "a \<in> lru_items Q \<Longrightarrow> strip (heap s a) = strip (heap s0 a)" "crawler_count s = int (card {i. W i \<noteq> None})" "W 0 = None"
    "W i = None \<Longrightarrow> Q i = swept s0 (lim i) (Q0 i)"
    "W i = Some m \<Longrightarrow> Q i = swept s0 m (Q0 i) \<and> m \<le> length (Q0 i) \<and> lim i = crawl_target (cr_remaining (crawlers s i)) m"
proof -
  note d = assms [unfolded crawl_run_def]
  have "case W i of None \<Rightarrow> Q i = swept s0 (lim i) (Q0 i)
    | Some m \<Rightarrow> Q i = swept s0 m (Q0 i) \<and> m \<le> length (Q0 i) \<and> lim i = crawl_target (cr_remaining (crawlers s i)) m" using d by blast
  then show "W i = None \<Longrightarrow> Q i = swept s0 (lim i) (Q0 i)"
    "W i = Some m \<Longrightarrow> Q i = swept s0 m (Q0 i) \<and> m \<le> length (Q0 i) \<and> lim i = crawl_target (cr_remaining (crawlers s i)) m" by simp_all
qed (use assms in \<open>simp_all add: crawl_run_def\<close>)

lemma swept_pass:
  assumes "n < length xs"
  shows "swept s (Suc n) xs ! n = xs ! n" "n < length (swept s (Suc n) xs)"
    "swept s n xs = take n (swept s (Suc n) xs) @ (if reclaimable s (xs ! n) then [] else [xs ! n]) @ drop (Suc n) (swept s (Suc n) xs)"
  using assms by (simp_all add: swept_def nth_append take_Suc_conv_app_nth min_def flip: Cons_nth_drop_Suc)

lemma lru_items_mono: "(\<And>c. set (Q' c) \<subseteq> set (Q c)) \<Longrightarrow> lru_items Q' \<subseteq> lru_items Q"
  by (auto simp: lru_items_def)

lemma card_unset: "W i \<noteq> None \<Longrightarrow> card {j :: u8. W j \<noteq> None} = Suc (card {j. (W(i := None)) j \<noteq> None})"
proof -
  assume w: "W i \<noteq> None"
  have "{j. (W(i := None)) j \<noteq> None} = {j. W j \<noteq> None} - {i}" by auto
  then show ?thesis using w card.remove [of "{j. W j \<noteq> None}" i] by simp
qed

lemma card_set_same: "W i \<noteq> None \<Longrightarrow> {j :: u8. (W(i := Some n)) j \<noteq> None} = {j. W j \<noteq> None}"
  by auto

text \<open>A crawler gives up its class.\<close>

lemma crawl_run_done:
  assumes run: "crawl_run s0 Q0 lim s F Q W" and w: "W i \<noteq> None" and q: "Q i = swept s0 (lim i) (Q0 i)"
    and s': "crawl_inv s' F Q (W(i := None))" "keeps_items s s'" "\<And>j. j \<noteq> i \<Longrightarrow> crawlers s' j = crawlers s j" "crawler_count s' = crawler_count s - 1"
  shows "crawl_run s0 Q0 lim s' F Q (W(i := None))"
proof -
  note r = crawl_runD [OF run]
  have c: "ctl s' = ctl s" using s'(2) by (simp add: keeps_items_def)
  note cf = ctl_fields [OF c]
  have st: "strip (heap s' a) = strip (heap s0 a)" if "a \<in> lru_items Q" for a
  proof -
    have "a \<notin> range (crawler_addr s)" using crawl_inv_item(3) [OF r(1) that] by auto
    then show ?thesis using s'(2) r(6) [OF that] by (simp add: keeps_items_def)
  qed
  have cnt: "crawler_count s' = int (card {j. (W(i := None)) j \<noteq> None})" using s'(4) r(7) card_unset [of W, OF w] by simp
  have "case (W(i := None)) j of None \<Rightarrow> Q j = swept s0 (lim j) (Q0 j)
    | Some m \<Rightarrow> Q j = swept s0 m (Q0 j) \<and> m \<le> length (Q0 j) \<and> lim j = crawl_target (cr_remaining (crawlers s' j)) m" for j
    using q r(9,10) [of j] s'(3) by (cases "j = i"; cases "W j") auto
  then show ?thesis unfolding crawl_run_def using s'(1) cf r(2-5,8) st cnt by simp
qed


lemma reclaimable_run:
  assumes run: "crawl_run s0 Q0 lim s F Q W" and x: "x \<in> lru_items Q"
  shows "reclaimable s x = reclaimable s0 x"
  by (rule reclaimable_cong [OF crawl_runD(6) [OF run x] crawl_runD(5) [OF run]])

text \<open>A crawler passes an item and the item is examined, with \<open>t\<close> the state in between.\<close>

lemma crawl_run_item:
  assumes run: "crawl_run s0 Q0 lim s F Q W" and w: "W i = Some (Suc n)"
    and t: "crawl_inv t F Q (W(i := Some n))" "keeps_items s t" "crawler_count t = crawler_count s" "cm_data t = cm_data s"
    "\<And>j. j \<noteq> i \<Longrightarrow> crawlers t j = crawlers s j" "lim i = crawl_target (cr_remaining (crawlers t i)) n"
  shows "\<exists>s' F' Q'. crawl_item L i (Q i ! n) t = Some s' \<and> crawl_run s0 Q0 lim s' F' Q' (W(i := Some n))"
proof -
  note r = crawl_runD [OF run]
  have Q: "Q i = swept s0 (Suc n) (Q0 i)" and n: "n < length (Q0 i)" using r(10) [OF w] by auto
  note sp = swept_pass [OF n, of s0, folded Q]
  let ?x = "Q i ! n"
  have c: "ctl t = ctl s" using t(2) by (simp add: keeps_items_def)
  note cf = ctl_fields [OF c]
  have st: "strip (heap t a) = strip (heap s0 a)" if "a \<in> lru_items Q" for a
  proof -
    have "a \<notin> range (crawler_addr s)" using crawl_inv_item(3) [OF r(1) that] by auto
    then show ?thesis using t(2) r(6) [OF that] by (simp add: keeps_items_def)
  qed
  have xl: "?x \<in> lru_items Q" using sp(2) lru_itemsI [of ?x Q i] by simp
  have rc: "reclaimable t ?x = reclaimable s0 ?x" by (rule reclaimable_cong [OF st [OF xl]]) (use cf(1) r(5) in simp)
  define Q' where "Q' = (if reclaimable t ?x then Q(i := remove1 ?x (Q i)) else Q)"
  obtain s' F' where s': "crawl_item L i ?x t = Some s'" "crawl_inv s' F' Q' (W(i := Some n))" "examined t Q' s'"
    using crawl_item_correct [OF t(1) _ sp(2) refl, of L] cf(3) r(2,3) t(4) unfolding Q'_def by auto
  have di: "distinct (Q i)" by (rule crawl_view_distinct [OF r(1)])
  have qi: "Q' i = swept s0 n (Q0 i)"
    using sp(1,3) remove_nth [OF sp(2) di] rc id_take_nth_drop [OF sp(2)] by (auto simp: Q'_def)
  have qj: "Q' j = Q j" if "j \<noteq> i" for j using that by (simp add: Q'_def)
  have sub: "lru_items Q' \<subseteq> lru_items Q" by (rule lru_items_mono) (use set_remove1_subset [of ?x "Q i"] in \<open>auto simp: Q'_def\<close>)
  have e: "ctl s' = ctl t" "crawler_count s' = crawler_count t" "cr_remaining (crawlers s' j) = cr_remaining (crawlers t j)" for j
    using s'(3) by (simp_all add: examined_def)
  note ef = ctl_fields [OF e(1)]
  have "strip (heap s' a) = strip (heap s0 a)" if "a \<in> lru_items Q'" for a
    using that sub st [of a] s'(3) by (auto simp: examined_def)
  moreover have "case (W(i := Some n)) j of None \<Rightarrow> Q' j = swept s0 (lim j) (Q0 j)
    | Some m \<Rightarrow> Q' j = swept s0 m (Q0 j) \<and> m \<le> length (Q0 j) \<and> lim j = crawl_target (cr_remaining (crawlers s' j)) m" for j
    using qi n t(5,6) e(3) r(9,10) [of j] qj [of j] by (cases "j = i"; cases "W j") auto
  moreover have "card {j. (W(i := Some n)) j \<noteq> None} = card {j. W j \<noteq> None}" using w by (subst card_set_same) simp_all
  moreover have "(W(i := Some n)) 0 = None" using r(8) w by auto
  ultimately have "crawl_run s0 Q0 lim s' F' Q' (W(i := Some n))"
    unfolding crawl_run_def using s'(2) ef e cf r(2-5,7) t(3,4) by simp
  then show ?thesis using s'(1) by blast
qed


lemma count_down_cases:
  "count_down i s = (if cr_remaining (crawlers s i) = 0 then (False, s)
     else (cr_remaining (crawlers s i) = 1, upd_crawler i (\<lambda>c. c\<lparr>cr_remaining := cr_remaining c - 1\<rparr>) s))"
  by (simp add: count_down_def Let_def)

lemma keeps_upd_crawler: "crawl_inv t F Q W \<Longrightarrow> keeps_items s t \<Longrightarrow> keeps_items s (upd_crawler i f t)"
  using crawl_inv_same(2) [of t F Q W "upd_crawler i f t"] by (simp add: keeps_items_def)

text \<open>One step of the crawler of a class, and what is left for it to do.\<close>

definition passes :: "nat option \<Rightarrow> nat option \<Rightarrow> bool" where
  "passes w w' \<longleftrightarrow> (\<exists>n. w = Some n \<and> (w' = None \<or> (\<exists>m < n. w' = Some m)))"

lemma crawl_target_step:
  assumes "r \<noteq> 0" "r \<noteq> 1"
  shows "crawl_target r (Suc n) = crawl_target (r - 1) n"
proof -
  have "unat (r - 1) = unat r - 1" using assms(1) by (simp add: unat_minus_one)
  moreover have "1 < unat r" using assms by (metis One_nat_def less_one linorder_neqE_nat unat_eq_zero unat_1 word_unat_eq_iff)
  moreover have "r - 1 \<noteq> 0" using assms(2) by simp
  ultimately show ?thesis using assms(1) by (simp add: crawl_target_def)
qed

lemma crawl_step_correct:
  assumes run: "crawl_run s0 Q0 lim s F Q W" and w: "W i = Some m"
  shows "\<exists>s' F' Q' w'. crawl_step L i s = Some s' \<and> crawl_run s0 Q0 lim s' F' Q' (W(i := w')) \<and> passes (W i) w'"
proof -
  note r = crawl_runD [OF run]
  have act: "active_mod s \<noteq> None" using r(2) by simp
  have Q: "Q i = swept s0 m (Q0 i)" "m \<le> length (Q0 i)" "lim i = crawl_target (cr_remaining (crawlers s i)) m" using r(10) [OF w] by auto
  show ?thesis
  proof (cases m)
    case 0
    obtain t s' where t: "do_item_crawl_q (crawler_addr s i) s = Some (NULL, t)" "lru_crawler_class_done i t = Some s'" "crawl_inv s' F Q (W(i := None))"
      "keeps_items s s'" "crawlers s' = crawlers s" "crawler_count s' = crawler_count s - 1"
      using class_done_at_head [OF r(1) _ act r(3)] w 0 by blast
    have "crawl_run s0 Q0 lim s' F Q (W(i := None))"
      by (rule crawl_run_done [OF run _ _ t(3,4) _ t(6)]) (use w Q 0 t(5) in \<open>simp_all add: crawl_target_def\<close>)
    moreover have "crawl_step L i s = Some s'" using t by (simp add: crawl_step_def)
    moreover have "passes (W i) None" using w by (simp add: passes_def)
    ultimately show ?thesis by blast
  next
    case (Suc n)
    have w': "W i = Some (Suc n)" using w Suc by simp
    obtain t where t: "do_item_crawl_q (crawler_addr s i) s = Some (Q i ! n, t)" "crawl_inv t F Q (W(i := Some n))" "keeps_items s t" "crawlers t = crawlers s"
      "crawler_count t = crawler_count s" "Q i ! n \<in> set (Q i)" "cm_data t = cm_data s"
      using crawl_q_correct [OF r(1) w'] by blast
    have nn: "Q i ! n \<noteq> NULL" using crawl_inv_item(5) [OF r(1) lru_itemsI [of _ Q i]] t(6) by blast
    let ?r = "cr_remaining (crawlers s i)"
    have ct: "ctl t = ctl s" using t(3) by (simp add: keeps_items_def)
    have ps: "passes (W i) (Some n)" "passes (W i) None" using w' by (simp_all add: passes_def)
    consider "?r = 0" | "?r = 1" | "?r \<noteq> 0" "?r \<noteq> 1" by blast
    then show ?thesis
    proof cases
      case 1
      have l: "lim i = crawl_target (cr_remaining (crawlers t i)) n" using Q(3) 1 t(4) by (simp add: crawl_target_def)
      obtain s' F' Q' where "crawl_item L i (Q i ! n) t = Some s'" "crawl_run s0 Q0 lim s' F' Q' (W(i := Some n))"
        using crawl_run_item [OF run w' t(2,3,5,7) _ l, of L] t(4) by auto
      then show ?thesis using t(1,4) nn 1 ps by (auto simp: crawl_step_def count_down_cases)
    next
      case 2
      define u where "u = upd_crawler i (\<lambda>c. c\<lparr>cr_remaining := cr_remaining c - 1\<rparr>) t"
      have iu: "crawl_inv u F Q (W(i := Some n))" by (rule crawl_inv_same(1) [OF t(2)]) (simp_all add: u_def)
      have au: "active_mod u \<noteq> None" "cm_data u \<noteq> No_data" using ctl_fields(3) [OF ct] t(7) r(2,3) by (simp_all add: u_def)
      obtain s' where s': "lru_crawler_class_done i u = Some s'" "crawl_inv s' F Q (W(i := Some n, i := None))" "keeps_items u s'"
        "crawlers s' = crawlers u" "crawler_count s' = crawler_count u - 1"
        using class_done_correct [OF iu _ au, of i n] by auto
      have ks: "keeps_items s s'" using keeps_items_trans [OF keeps_upd_crawler [OF t(2,3)]] s'(3) unfolding u_def .
      have "crawl_run s0 Q0 lim s' F Q (W(i := None))"
        by (rule crawl_run_done [OF run _ _ _ ks]) (use w Q 2 s' t in \<open>simp_all add: crawl_target_def u_def\<close>)
      moreover have "crawl_step L i s = Some s'" using t(1,4) nn 2 s'(1) by (simp add: crawl_step_def count_down_cases u_def)
      ultimately show ?thesis using ps(2) by blast
    next
      case 3
      define u where "u = upd_crawler i (\<lambda>c. c\<lparr>cr_remaining := cr_remaining c - 1\<rparr>) t"
      have iu: "crawl_inv u F Q (W(i := Some n))" by (rule crawl_inv_same(1) [OF t(2)]) (simp_all add: u_def)
      have l: "lim i = crawl_target (cr_remaining (crawlers u i)) n" using Q(3) Suc crawl_target_step [OF 3] t(4) by (simp add: u_def)
      obtain s' F' Q' where "crawl_item L i (Q i ! n) u = Some s'" "crawl_run s0 Q0 lim s' F' Q' (W(i := Some n))"
        using crawl_run_item [OF run w' iu _ _ _ _ l, of L] keeps_upd_crawler [OF t(2,3)] t by (auto simp: u_def)
      then show ?thesis using t(1,4) nn 3 ps by (auto simp: crawl_step_def count_down_cases u_def)
    qed
  qed
qed


section \<open>The loop\<close>

definition todo :: "(u8 \<Rightarrow> nat option) \<Rightarrow> nat" where
  "todo W = (\<Sum>i \<in> UNIV. case W i of None \<Rightarrow> 0 | Some m \<Rightarrow> Suc m)"

lemma todo_less: "passes (W i) w' \<Longrightarrow> todo (W(i := w')) < todo W"
  unfolding todo_def by (rule sum_strict_mono_ex1) (auto simp: passes_def)

lemma crawl_class_off:
  assumes run: "crawl_run s0 Q0 lim s F Q W" and w: "W i = None"
  shows "crawl_class L i s = Some s"
  using crawl_inv_crawler(4) [OF crawl_runD(1) [OF run], of i] w by (simp add: crawl_class_def)

lemma crawl_class_on:
  assumes run: "crawl_run s0 Q0 lim s F Q W" and w: "W i = Some m"
  shows "crawl_class L i s = crawl_step L i s"
  using crawl_inv_crawler(4) [OF crawl_runD(1) [OF run], of i] w crawl_runD(2,4) [OF run] by (simp add: crawl_class_def needs_client_def)

lemma crawl_classes_correct:
  assumes "crawl_run s0 Q0 lim s F Q W"
  shows "\<exists>s' F' Q' W'. crawl_classes L is s = Some s' \<and> crawl_run s0 Q0 lim s' F' Q' W' \<and> todo W' \<le> todo W \<and>
    ((\<exists>i \<in> set is. W i \<noteq> None) \<longrightarrow> todo W' < todo W)"
  using assms
proof (induction "is" arbitrary: s F Q W)
  case (Cons i "is")
  show ?case
  proof (cases "W i")
    case None
    then show ?thesis using Cons.IH [OF Cons.prems] crawl_class_off [OF Cons.prems None, of L] by simp
  next
    case (Some m)
    obtain s1 F1 Q1 w where 1: "crawl_step L i s = Some s1" "crawl_run s0 Q0 lim s1 F1 Q1 (W(i := w))" "passes (W i) w"
      using crawl_step_correct [OF Cons.prems Some] by blast
    obtain s' F' Q' W' where 2: "crawl_classes L is s1 = Some s'" "crawl_run s0 Q0 lim s' F' Q' W'" "todo W' \<le> todo (W(i := w))"
      using Cons.IH [OF 1(2)] by blast
    have "todo W' < todo W" using todo_less [of W i w, OF 1(3)] 2(3) by simp
    moreover have "crawl_classes L (i # is) s = Some s'" using crawl_class_on [OF Cons.prems Some] 1(1) 2(1) by simp
    ultimately show ?thesis using 2(2) less_imp_le by blast
  qed
qed auto

lemma u8_of_nat: "n < 256 \<Longrightarrow> unat (word_of_nat n :: u8) = n"
  by (simp add: unsigned_of_nat take_bit_nat_eq_self)

lemma distinct_class_ids: "distinct class_ids"
  unfolding class_ids_def distinct_map by (intro conjI inj_on_inverseI [where g = unat]) (use u8_of_nat in simp_all)

lemma set_class_ids: "set class_ids = {i. i \<noteq> 0}"
proof -
  have "(i :: u8) \<in> word_of_nat ` {1..<256}" if "i \<noteq> 0" for i
  proof (rule image_eqI)
    show "i = word_of_nat (unat i)" by simp
    have "unat i < 256" using unsigned_less [of i, where 'a = nat] by simp
    moreover have "unat i \<noteq> 0" using that by (simp add: unat_eq_zero)
    ultimately show "unat i \<in> {1..<256}" by simp
  qed
  moreover have "word_of_nat n \<noteq> (0 :: u8)" if "1 \<le> n" "n < 256" for n :: nat
    using u8_of_nat [OF that(2)] that(1) by (metis not_one_le_zero unsigned_0)
  ultimately show ?thesis by (auto simp: class_ids_def)
qed

lemma crawl_loop_correct:
  assumes "crawl_run s0 Q0 lim s F Q W"
  shows "\<exists>s' F' Q'. crawl_loop L s = Some s' \<and> crawl_run s0 Q0 lim s' F' Q' (\<lambda>_. None)"
  using assms
proof (induction "todo W" arbitrary: s F Q W rule: less_induct)
  case less
  note r = crawl_runD [OF less.prems]
  show ?case
  proof (cases "crawler_count s = 0")
    case True
    have "finite {i. W i \<noteq> None}" by (rule finite_subset [OF subset_UNIV]) simp
    then have "{i. W i \<noteq> None} = {}" using True r(7) by simp
    then have "W = (\<lambda>_. None)" by auto
    then show ?thesis using less.prems True by (subst crawl_loop.simps) auto
  next
    case False
    then obtain i where i: "W i \<noteq> None" using r(7) by (cases "{i. W i \<noteq> None} = {}") auto
    then have "i \<in> set class_ids" using r(8) by (auto simp: set_class_ids)
    then obtain s1 F1 Q1 W1 where 1: "crawl_classes L class_ids s = Some s1" "crawl_run s0 Q0 lim s1 F1 Q1 W1" "todo W1 < todo W"
      using crawl_classes_correct [OF less.prems, of L class_ids] i by blast
    then show ?thesis using less.hyps [OF 1(3,2)] False by (subst crawl_loop.simps) simp
  qed
qed

text \<open>The module's final call, and the thread goes back to sleep.\<close>

lemma crawl_finish_correct:
  assumes run: "crawl_run s0 Q0 lim s F Q W"
  shows "\<exists>s'. crawl_finish s = Some s' \<and> crawl_inv s' F Q W \<and> heap s' = heap s \<and> env s' = env s \<and> \<not> lru_crawler_running s' \<and> active_mod s' = None \<and>
    crawler_count s' = crawler_count s"
proof -
  note r = crawl_runD [OF run]
  obtain d where d: "get_data s = Some d" using r(3) by (cases "cm_data s") (auto simp: get_data_def)
  define u where "u = put_data (d\<lparr>ed_end_time := current_time s, crawl_complete := True\<rparr>) s"
  define v where "v = (if is_external d then u else u\<lparr>cm_data := No_data\<rparr>)"
  define s' where "s' = v\<lparr>active_mod := None, lru_crawler_running := False\<rparr>"
  have uf: "tables u = tables s" "heap u = heap s" "heads u = heads s" "tails u = tails s" "ctl u = ctl s" by (simp_all add: u_def)
  have vf: "tables v = tables u" "heap v = heap u" "heads v = heads u" "tails v = tails u" "env v = env u" "cm_c v = cm_c u" "crawler_count v = crawler_count s"
    by (simp_all add: v_def u_def tables_def env_def)
  have "crawler_expired_finalize s = Some v" using d by (simp add: crawler_expired_finalize_def Let_def u_def v_def)
  moreover have "drain_client v = Some v" using r(4) ctl_fields(4) [OF uf(5)] vf(6) by (subst drain_client.simps) simp
  ultimately have "crawl_finish s = Some s'"
    using r(2,4) ctl_fields(4) [OF uf(5)] vf(6) by (simp add: crawl_finish_def s'_def Let_def)
  moreover have "crawl_inv s' F Q W" by (rule crawl_inv_same(1) [OF r(1)]) (simp_all add: s'_def vf uf tables_def [of "v\<lparr>active_mod := None, lru_crawler_running := False\<rparr>"] tables_def [of v, symmetric])
  moreover have "env s' = env s" using vf(5) ctl_fields(1) [OF uf(5)] by (simp add: s'_def env_def)
  ultimately show ?thesis using vf uf by (simp add: s'_def)
qed


section \<open>Starting\<close>

text \<open>How many items are left in front of a crawler at its end, by its request \<open>r\<close>: zero is no limit, and \<^const>\<open>LRU_CRAWLER_CAP_REMAINING\<close> is the size of the queue.\<close>

definition start_remaining :: "u32 \<Rightarrow> nat \<Rightarrow> u32" where
  "start_remaining r n = (let r = (if r = - 1 then of_nat n else r) in if r = 0 then 0 else r + 1)"

definition crawl_stop :: "u32 \<Rightarrow> nat \<Rightarrow> nat" where
  "crawl_stop r n = crawl_target (start_remaining r n) n"

lemma crawl_stop_all: "crawl_stop 0 n = 0"
  by (simp add: crawl_stop_def start_remaining_def crawl_target_def)

lemma crawl_stop_last: "r \<noteq> 0 \<Longrightarrow> r \<noteq> - 1 \<Longrightarrow> crawl_stop r n = n - unat r"
proof -
  assume r: "r \<noteq> 0" "r \<noteq> - 1"
  then have "r + 1 \<noteq> 0" by (metis add.inverse_unique add.commute)
  moreover have "unat (r + 1) = Suc (unat r)" using r calculation by (metis unatSuc add.commute)
  ultimately show ?thesis using r by (simp add: crawl_stop_def start_remaining_def crawl_target_def)
qed

lemma start_classes_correct:
  assumes "crawl_run s0 Q0 lim s F Q0 W" "distinct is" "\<And>i. i \<in> set is \<Longrightarrow> W i = None \<and> i \<noteq> 0"
  shows "\<exists>s' W'. start_classes ids r is s = Some (int (length (filter ids is)), s') \<and>
    crawl_run s0 Q0 (\<lambda>i. if i \<in> set is \<and> ids i then crawl_stop r (length (Q0 i)) else lim i) s' F Q0 W'"
  using assms
proof (induction "is" arbitrary: s W lim)
  case (Cons i "is")
  show ?case
  proof (cases "ids i")
    case False
    then have "(\<lambda>j. if j \<in> set (i # is) \<and> ids j then crawl_stop r (length (Q0 j)) else lim j) =
        (\<lambda>j. if j \<in> set is \<and> ids j then crawl_stop r (length (Q0 j)) else lim j)" by auto
    then show ?thesis using Cons.IH [OF Cons.prems(1)] Cons.prems(2,3) False by auto
  next
    case True
    note r = crawl_runD [OF Cons.prems(1)]
    have w: "W i = None" "i \<noteq> 0" using Cons.prems(3) by auto
    let ?n = "length (Q0 i)"
    obtain s1 where 1: "do_lru_crawler_start i r s = Some (1, s1)" "crawl_inv s1 F Q0 (W(i := Some ?n))" "keeps_items s s1" "crawler_count s1 = crawler_count s + 1"
      "crawlers s1 = (crawlers s)(i := \<lparr>cr_remaining = start_remaining r ?n, cr_reclaimed = 0, cr_unfetched = 0, cr_checked = 0\<rparr>)"
      using crawl_start_correct [OF r(1) w(1)] unfolding start_remaining_def by blast
    have c: "ctl s1 = ctl s" using 1(3) by (simp add: keeps_items_def)
    note cf = ctl_fields [OF c]
    have st: "strip (heap s1 a) = strip (heap s0 a)" if "a \<in> lru_items Q0" for a
    proof -
      have "a \<notin> range (crawler_addr s)" using crawl_inv_item(3) [OF r(1) that] by auto
      then show ?thesis using 1(3) r(6) [OF that] by (simp add: keeps_items_def)
    qed
    have "crawler_count s1 = int (card {j. (W(i := Some ?n)) j \<noteq> None})"
      using 1(4) r(7) card_unset [of "W(i := Some ?n)" i] w(1) by (simp add: fun_upd_idem)
    moreover have "case (W(i := Some ?n)) j of None \<Rightarrow> Q0 j = swept s0 ((lim(i := crawl_stop r ?n)) j) (Q0 j)
      | Some m \<Rightarrow> Q0 j = swept s0 m (Q0 j) \<and> m \<le> length (Q0 j) \<and> (lim(i := crawl_stop r ?n)) j = crawl_target (cr_remaining (crawlers s1 j)) m" for j
      using r(9,10) [of j] 1(5) by (cases "j = i"; cases "W j") (auto simp: swept_def crawl_stop_def)
    ultimately have run: "crawl_run s0 Q0 (lim(i := crawl_stop r ?n)) s1 F Q0 (W(i := Some ?n))"
      unfolding crawl_run_def using 1(2) cf r(2-5,8) w st by simp
    have "(\<lambda>j. if j \<in> set (i # is) \<and> ids j then crawl_stop r (length (Q0 j)) else lim j) =
        (\<lambda>j. if j \<in> set is \<and> ids j then crawl_stop r (length (Q0 j)) else (lim(i := crawl_stop r ?n)) j)" using True by auto
    moreover have "\<And>j. j \<in> set is \<Longrightarrow> (W(i := Some ?n)) j = None \<and> j \<noteq> 0" using Cons.prems(2,3) by auto
    ultimately show ?thesis using Cons.IH [OF run] Cons.prems(2) 1(1) True by auto
  qed
qed auto


lemma configure_expired:
  assumes inv: "cinv s F Q" "crawlers_idle s F" and s: "crawler_count s = 0" "cc_conn (cm_c s) = None"
    and type: "type \<noteq> CRAWLER_METADUMP" and mem: "external \<or> callocs s = [] \<or> hd (callocs s)"
  shows "\<exists>t. configure_module type external c m s = (True, t) \<and> crawl_run s Q (\<lambda>i. length (Q i)) t F Q (\<lambda>_. None)"
proof -
  have md: "crawler_mod_regs type = crawler_expired_mod" using type by (cases type) auto
  let ?s = "s\<lparr>active_mod := Some crawler_expired_mod, active_crawler_type := type\<rparr>"
  define t where "t = snd (crawler_expired_init external ?s)"
  have f: "tables t = tables s" "heap t = heap s" "heads t = heads s" "tails t = tails s" "env t = env s" "active_mod t = Some crawler_expired_mod"
    "cm_c t = cm_c s" "crawler_count t = crawler_count s" "cm_data t \<noteq> No_data"
    using mem by (auto simp: t_def crawler_expired_init_def Let_def tables_def env_def split: list.split bool.split)
  have "crawl_inv t F Q (\<lambda>_. None)" by (rule crawl_inv_same(1) [OF crawl_inv_idle [THEN iffD2, OF conjI [OF inv]] f(1-4)])
  then have "crawl_run s Q (\<lambda>i. length (Q i)) t F Q (\<lambda>_. None)" unfolding crawl_run_def using f s by (simp add: swept_def)
  moreover have "configure_module type external c m s = (True, t)" using md by (simp add: configure_module_def Let_def needs_client_def t_def)
  ultimately show ?thesis by blast
qed

text \<open>The queues after a crawl of the classes \<open>ids\<close>.\<close>

definition crawled :: "(u8 \<Rightarrow> bool) \<Rightarrow> u32 \<Rightarrow> crawl_state \<Rightarrow> (u8 \<Rightarrow> addr list) \<Rightarrow> u8 \<Rightarrow> addr list" where
  "crawled ids r s Q i = (if ids i \<and> i \<noteq> 0 then swept s (crawl_stop r (length (Q i))) (Q i) else Q i)"

lemma crawled_sub: "lru_items (crawled ids r s Q) \<subseteq> lru_items Q"
  by (rule lru_items_mono) (auto simp: crawled_def swept_def dest: in_set_takeD in_set_dropD)

text \<open>
  (C16) A crawl frees exactly the dead. With the cache in order and no crawl under way, starting the expiry crawler on the classes \<open>ids\<close> reports how many were started, and the
  thread then runs to its end. Every queue that was named has lost the items that are expired or flushed and that nobody has locked or holds, among the
  last \<open>r\<close> items of the queue (all of them when \<open>r\<close> is zero), and no other item; all else is in its old order and every value is as it was. The cache
  invariant holds again, all crawlers are off the queues, and a key is found afterwards if and only if its item was not freed.
\<close>

theorem crawl_reclaims_exactly:
  assumes "cinv s F Q" "crawlers_idle s F" "crawler_count s = 0" "cc_conn (cm_c s) = None" "\<not> lru_crawler_running s"
    and "type \<noteq> CRAWLER_METADUMP" "type = CRAWLER_AUTOEXPIRE \<longrightarrow> block_ae_until s \<le> current_time s" "external \<or> callocs s = [] \<or> hd (callocs s)"
  shows "\<exists>t s' F'. lru_crawler_start ids r type external c m s = Some (int (length (filter ids class_ids)), t) \<and> item_crawler_thread L t = Some s' \<and>
    cinv s' F' (crawled ids r s Q) \<and> crawlers_idle s' F' \<and> \<not> lru_crawler_running s' \<and> crawler_count s' = 0 \<and>
    (\<forall>a \<in> lru_items (crawled ids r s Q). strip (heap s' a) = strip (heap s a)) \<and>
    assoc_map s' = (\<lambda>k. Option.bind (assoc_map s k) (\<lambda>x. if x \<in> lru_items (crawled ids r s Q) then Some x else None))"
proof -
  obtain t0 where t0: "configure_module type external c m s = (True, t0)" "crawl_run s Q (\<lambda>i. length (Q i)) t0 F Q (\<lambda>_. None)"
    using configure_expired [OF assms(1-4,6,8), of c m] by blast
  define lim where "lim = (\<lambda>i. if i \<in> set class_ids \<and> ids i then crawl_stop r (length (Q i)) else length (Q i))"
  obtain t W where t: "start_classes ids r class_ids t0 = Some (int (length (filter ids class_ids)), t)" "crawl_run s Q lim t F Q W"
    using start_classes_correct [OF t0(2) distinct_class_ids, of ids r] set_class_ids unfolding lim_def by auto
  obtain u F' Q' where u: "crawl_loop L t = Some u" "crawl_run s Q lim u F' Q' (\<lambda>_. None)" using crawl_loop_correct [OF t(2)] by blast
  obtain s' where s': "crawl_finish u = Some s'" "crawl_inv s' F' Q' (\<lambda>_. None)" "heap s' = heap u" "env s' = env u" "\<not> lru_crawler_running s'"
    "crawler_count s' = crawler_count u" using crawl_finish_correct [OF u(2)] by blast
  have Q': "Q' = crawled ids r s Q"
  proof
    fix i
    show "Q' i = crawled ids r s Q i" using crawl_runD(9) [OF u(2), of i] set_class_ids by (simp add: lim_def crawled_def swept_def)
  qed
  have i: "cinv s' F' (crawled ids r s Q)" "crawlers_idle s' F'" using s'(2) crawl_inv_idle Q' by auto
  have st: "strip (heap s' a) = strip (heap s a)" if "a \<in> lru_items (crawled ids r s Q)" for a
    using crawl_runD(6) [OF u(2)] that s'(3) Q' by simp
  have "lru_crawler_start ids r type external c m s = Some (int (length (filter ids class_ids)), t)"
    using assms(5,7) t0(1) t(1) by (auto simp: lru_crawler_start_def)
  moreover have "item_crawler_thread L t = Some s'" using u(1) s'(1) by (simp add: item_crawler_thread_def)
  moreover have "assoc_map s' = (\<lambda>k. Option.bind (assoc_map s k) (\<lambda>x. if x \<in> lru_items (crawled ids r s Q) then Some x else None))"
    by (rule map_of_items [OF assms(1) i(1) crawled_sub]) (use st in \<open>auto dest: strip_fields\<close>)
  moreover have "crawler_count s' = 0" using s'(6) crawl_runD(7) [OF u(2)] by simp
  ultimately show ?thesis using i s'(5) st by blast
qed

section \<open>Example\<close>

text \<open>An idle crawler over the cache of the earlier examples, with the live item 100 and the expired item 300 not yet linked.\<close>

definition ex_crawl :: crawl_state where
  "ex_crawl = lru_state.extend (ex_cache\<lparr>heap := (heap ex_cache)(100 := (heap ex_cache 100)\<lparr>refcount := 0\<rparr>, 300 := (heap ex_cache 300)\<lparr>refcount := 0\<rparr>)\<rparr>)
     (crawl_state.fields (\<lambda>c. 1000 + unat c) (\<lambda>_. \<lparr>cr_remaining = 0, cr_reclaimed = 0, cr_unfetched = 0, cr_checked = 0\<rparr>) 0 None CRAWLER_EXPIRED No_data
        \<lparr>crawlerstats = \<lambda>_. zero_stats 0, ed_start_time = 0, ed_end_time = 0, crawl_complete = False, is_external = False\<rparr>
        \<lparr>cc_conn = None, cc_sfd = 0, cc_buf = None, cc_cbuf = 0\<rparr> [] [] [] [] [] False 0 0)"

lemmas ex_crawl_defs = ex_crawl_def crawl_state.defs lru_state.defs ex_cache_defs

lemma ex_crawl_fields:
  "heap ex_crawl = (heap ex_cache)(100 := (ex_cache_item [6] [49, 13, 10] 0)\<lparr>refcount := 0\<rparr>, 300 := (ex_cache_item [8] [51, 13, 10] 50)\<lparr>refcount := 0\<rparr>)"
  "current_time ex_crawl = 100" "hash ex_crawl = (\<lambda>k. word_of_nat (sum_list (map unat k)))" "item_locks ex_crawl = (\<lambda>_. False)"
  "power_largest ex_crawl = 2" "crawler_addr ex_crawl = (\<lambda>c. 1000 + unat c)" "crawler_count ex_crawl = 0" "cc_conn (cm_c ex_crawl) = None"
  "lru_crawler_running ex_crawl = False" "callocs ex_crawl = []" "item_lock_hashpower ex_crawl = item_lock_hashpower ex_cache"
  "settings ex_crawl = ex_settings\<lparr>slab_page_size := 1024, slab_chunk_size_max := 512\<rparr>"
  by (simp_all add: ex_crawl_defs)

lemma ex_crawl_cinv: "cinv ex_crawl (\<lambda>_. []) (\<lambda>_. [])"
proof -
  have "unat (hashsize 1) = 2" by (subst unat_hashsize) simp_all
  then have "assoc_init 1 True ex_crawl = Some ex_crawl" by (simp add: assoc_init_def ex_crawl_defs numeral_2_eq_2)
  from assoc_init_sys [OF this] have a: "assoc_inv ex_crawl \<and> assoc_map ex_crawl = Map.empty"
    by (simp add: assoc_sys_def) (simp add: ex_crawl_defs)
  have "slabs_inv ex_crawl (\<lambda>_. [])" by (auto simp: slabs_inv_def free_ok_def dll_def ex_crawl_defs empty_class_def zero_item_def)
  with a show ?thesis
    by (simp add: cinv_def lru_inv_def lru_ok_def dll_def lru_items_def assoc_items_def)
      (simp add: ex_crawl_defs ex_cache_item_def zero_item_def)
qed

lemma do_item_link_more:
  assumes "do_item_link it hv s = Some t"
  shows "lru_state.more t = lru_state.more s"
proof -
  have f: "\<not> has_flag (it_flags (heap s it)) ITEM_LINKED" "\<not> has_flag (it_flags (heap s it)) ITEM_SLABBED"
    using assms by (auto simp: do_item_link_def has_flag_or)
  obtain u where u: "do_item_link_q it (assoc_insert it hv (link_prepare it s)) = Some u"
    "t = item_stats_sizes_add it (upd_item it (\<lambda>i. i\<lparr>refcount := refcount i + 1\<rparr>) u)"
    using assms by (auto simp: do_item_link_unfold [OF f] item_link_q_def split: Option.bind_splits)
  have "lru_state.more u = lru_state.more (assoc_insert it hv (link_prepare it s))"
    using u(1) by (auto simp: do_item_link_q_def Let_def upd_item_def split: if_splits)
  moreover have "lru_state.more (assoc_insert it hv (link_prepare it s)) = lru_state.more s"
    by (simp add: assoc_insert_def Let_def upd_item_def link_prepare_def get_cas_id_def hpos_write_def split: hpos.split)
  ultimately show ?thesis unfolding u(2) by (simp add: item_stats_sizes_add_def upd_item_def Let_def split: option.split)
qed

lemma ex_crawl_linked:
  obtains s t F Q where "do_item_link 300 8 ex_crawl = Some s" "do_item_link 100 6 s = Some t" "cinv t F Q" "crawlers_idle t F" "Q = (\<lambda>_. [])(1 := [100, 300])"
    "assoc_map t [6] = Some 100" "assoc_map t [8] = Some 300" "lru_state.more t = lru_state.more ex_crawl" "env t = env (ex_crawl\<lparr>cas_id := cas_id t\<rparr>)"
    "exptime (heap t 100) = 0" "i_time (heap t 100) = 100" "exptime (heap t 300) = 50" "refcount (heap t 300) = 1" "item_key (heap t 300) = [8]" "refcount (heap t 100) = 1"
    "nbytes (heap t 100) = 3" "nbytes (heap t 300) = 3"
proof -
  let ?F = "\<lambda>_ :: nat. [] :: addr list"
  have e: "assoc_map ex_crawl = Map.empty"
    using ex_crawl_cinv by (auto simp: cinv_def lru_items_def assoc_items_def ran_def) (metis option.exhaust)
  have l: "linkable ex_crawl ?F 100" "linkable ex_crawl ?F 300"
    by (simp_all add: linkable_def free_items_def ex_crawl_fields ex_cache_item_def zero_item_def key_wf_def valid_cls_def ITEM_clsid_def CLEAR_LRU_def)
  have k: "item_key (heap ex_crawl 300) = [8]" "item_key (heap ex_crawl 100) = [6]" "slabs_clsid (heap ex_crawl 300) = 1" "slabs_clsid (heap ex_crawl 100) = 1"
    by (simp_all add: ex_crawl_fields ex_cache_item_def item_key_def)
  obtain s where s: "do_item_link 300 8 ex_crawl = Some s" "cinv s ?F ((\<lambda>_. [])(1 := [300]))" "assoc_map s = [[8] \<mapsto> 300]"
    "strip (heap s 300) = strip ((linked_item 300 ex_crawl)\<lparr>refcount := refcount (heap ex_crawl 300) + 1\<rparr>)" "\<forall>a. a \<noteq> 300 \<longrightarrow> heap s a = heap ex_crawl a"
    "env s = env (ex_crawl\<lparr>cas_id := cas_id s\<rparr>)"
    using do_item_link_correct [OF ex_crawl_cinv l(2), of 8] k e by (auto simp: ex_crawl_fields(3) lru_items_def)
  have h: "heap s 100 = heap ex_crawl 100" using s(5) by simp
  have l2: "linkable s ?F 100" using l(1) s(6) by (simp add: linkable_def h valid_cls_def env_def)
  have hs: "hash s = hash ex_crawl" using s(6) by (simp add: env_def)
  let ?Q = "(\<lambda>_. [])(1 := [100, 300])"
  obtain t where t: "do_item_link 100 6 s = Some t" "cinv t ?F ?Q" "assoc_map t = [[8] \<mapsto> 300, [6] \<mapsto> 100]"
    "strip (heap t 100) = strip ((linked_item 100 s)\<lparr>refcount := refcount (heap s 100) + 1\<rparr>)" "\<forall>a. a \<notin> {100, 300} \<longrightarrow> heap t a = heap s a"
    "strip (heap t 300) = strip (heap s 300)" "env t = env (s\<lparr>cas_id := cas_id t\<rparr>)"
    using do_item_link_correct [OF s(2) l2, of 6] k(2,4) s(3) unfolding h by (auto simp: hs ex_crawl_fields(3) lru_items_def split: if_splits)
  have m: "lru_state.more t = lru_state.more ex_crawl" using do_item_link_more [OF t(1)] do_item_link_more [OF s(1)] by simp
  note f100 = strip_fields [OF t(4)] and f300 = strip_fields [OF trans [OF t(6) s(4)]]
  have i: "exptime (heap t 100) = 0" "i_time (heap t 100) = 100" "exptime (heap t 300) = 50" "refcount (heap t 300) = 1" "item_key (heap t 300) = [8]"
    "refcount (heap t 100) = 1" "nbytes (heap t 100) = 3" "nbytes (heap t 300) = 3" using f100 f300 s(6) by (simp_all add: h ex_crawl_fields ex_cache_item_def item_key_def env_def)
  have ca: "crawler_addr t c = 1000 + unat c" for c using crawl_more_fields(1) [OF m] by (simp add: ex_crawl_fields)
  have "heap t (crawler_addr t c) = zero_item" for c
    using t(5) s(5) by (simp add: ca ex_crawl_fields ex_cache_fields)
  then have "crawlers_idle t ?F"
    by (simp add: crawlers_idle_def ca inj_def free_items_def zero_item_def word_unat_eq_iff)
  moreover have "env t = env (ex_crawl\<lparr>cas_id := cas_id t\<rparr>)" using s(6) t(7) by (simp add: env_def)
  ultimately show ?thesis using that [OF s(1) t(1,2) _ refl _ _ m _ i] t(3) by simp
qed


theorem crawl_reclaims_exactly_witness:
  "\<exists>s0 s t s'. do_item_link 300 8 ex_crawl = Some s0 \<and> do_item_link 100 6 s0 = Some s \<and>
     lru_crawler_start (\<lambda>i. i = 1) 0 CRAWLER_EXPIRED False None None s = Some (1, t) \<and>
     item_crawler_thread (crawl_lib.make id 0) t = Some s' \<and> assoc_map s [8] = Some 300 \<and> assoc_map s' = [[6] \<mapsto> 100]"
proof -
  obtain s0 s F Q where s: "do_item_link 300 8 ex_crawl = Some s0" "do_item_link 100 6 s0 = Some s" "cinv s F Q" "crawlers_idle s F" "Q = (\<lambda>_. [])(1 := [100, 300])"
    "assoc_map s [6] = Some 100" "assoc_map s [8] = Some 300" "lru_state.more s = lru_state.more ex_crawl" "env s = env (ex_crawl\<lparr>cas_id := cas_id s\<rparr>)"
    "exptime (heap s 100) = 0" "i_time (heap s 100) = 100" "exptime (heap s 300) = 50" "refcount (heap s 300) = 1" "item_key (heap s 300) = [8]"
    by (rule ex_crawl_linked) (rule that)
  have m: "crawler_count s = 0" "cc_conn (cm_c s) = None" "\<not> lru_crawler_running s" "callocs s = []"
    using s(8) by (cases s; cases ex_crawl; auto simp: ex_crawl_defs)+
  have r: "reclaimable s 300" "\<not> reclaimable s 100"
    using s(9-13) by (simp_all add: reclaimable_def is_dead_def env_def ex_crawl_fields item_is_flushed_def ex_settings_def)
  have "crawled (\<lambda>i. i = 1) 0 s Q = (\<lambda>_. [])(1 := [100])"
    using r by (auto simp: crawled_def crawl_stop_all swept_def s(5))
  then have q: "lru_items (crawled (\<lambda>i. i = 1) 0 s Q) = {100}" by (auto simp: lru_items_def split: if_splits)
  have "{i. i = 1} \<inter> {i :: u8. i \<noteq> 0} = {1}" by auto
  then have n: "length (filter (\<lambda>i. i = 1) class_ids) = 1" by (simp add: distinct_length_filter [OF distinct_class_ids] set_class_ids)
  obtain t s' where "lru_crawler_start (\<lambda>i. i = 1) 0 CRAWLER_EXPIRED False None None s = Some (1, t)"
    "item_crawler_thread (crawl_lib.make id 0) t = Some s'"
    "assoc_map s' = (\<lambda>k. Option.bind (assoc_map s k) (\<lambda>x. if x \<in> {100} then Some x else None))"
    using crawl_reclaims_exactly [OF s(3,4) m(1-3), of CRAWLER_EXPIRED False "\<lambda>i. i = 1" 0 None None "crawl_lib.make id 0"] m(4) q n by auto
  moreover have "(\<lambda>k. Option.bind (assoc_map s k) (\<lambda>x. if x \<in> {100} then Some x else None)) = [[6] \<mapsto> 100]"
  proof
    fix k
    show "Option.bind (assoc_map s k) (\<lambda>x. if x \<in> {100} then Some x else None) = [[6] \<mapsto> 100] k"
      using cinv_map_item [OF s(3), of k 100] cinv_map_item [OF s(3,6)] s(6) by (cases "assoc_map s k") auto
  qed
  ultimately show ?thesis using s(1,2,7) by (intro exI [of _ s0] exI [of _ s] exI [of _ t] exI [of _ s']) simp
qed

end
