(* ===== verification/Maintainer_Spec.thy ===== *)
theory Maintainer_Spec
  imports Maintainer Crawler_Spec
begin

text \<open>
  What pulling the tail of a queue, sizing the segments and applying queued bumps mean for a client of the cache.
\<close>


lemma ex_crawl_pull_ready:
  assumes "Q = (\<lambda>_. [])(1 := [100, 300])" "env t = env (ex_crawl\<lparr>cas_id := cas_id t\<rparr>)" "refcount (heap t 100) = 1" "refcount (heap t 300) = 1"
    "nbytes (heap t 100) = 3" "nbytes (heap t 300) = 3"
  shows "pull_ready t Q" "lru_items Q = {100, 300}"
proof -
  show q: "lru_items Q = {100, 300}" unfolding assms(1) by (auto simp: lru_items_def split: if_splits)
  have "current_time t = 100" using assms(2) by (simp add: env_def ex_crawl_fields)
  then show "pull_ready t Q" using assms(3-6) by (simp add: pull_ready_def q)
qed

lemma ex_crawl_lapsed:
  assumes "env t = env (ex_crawl\<lparr>cas_id := cas_id t\<rparr>)" "exptime (heap t 100) = 0" "i_time (heap t 100) = 100"
  shows "\<not> is_dead 100 t" "tail_repair_time (settings t) = 0"
  using assms by (simp_all add: is_dead_def item_is_flushed_def env_def ex_crawl_fields ex_settings_def)





lemma do_item_link_bump_buf:
  assumes "do_item_link it hv s = Some t"
  shows "bump_buf t = bump_buf s"
proof -
  have f: "\<not> has_flag (it_flags (heap s it)) ITEM_LINKED" "\<not> has_flag (it_flags (heap s it)) ITEM_SLABBED"
    using assms by (auto simp: do_item_link_def has_flag_or)
  obtain u where u: "do_item_link_q it (assoc_insert it hv (link_prepare it s)) = Some u"
    "t = item_stats_sizes_add it (upd_item it (\<lambda>i. i\<lparr>refcount := refcount i + 1\<rparr>) u)"
    using assms by (auto simp: do_item_link_unfold [OF f] item_link_q_def split: Option.bind_splits)
  have "bump_buf u = bump_buf (assoc_insert it hv (link_prepare it s))"
    using u(1) by (auto simp: do_item_link_q_def Let_def upd_item_def split: if_splits)
  moreover have "bump_buf (assoc_insert it hv (link_prepare it s)) = bump_buf s"
    by (simp add: assoc_insert_def Let_def upd_item_def link_prepare_def get_cas_id_def hpos_write_def split: hpos.split)
  ultimately show ?thesis unfolding u(2) by (simp add: item_stats_sizes_add_def upd_item_def Let_def split: option.split)
qed


end
