(* ===== verification/Spec2Isabelle.thy ===== *)
theory Spec2Isabelle
  imports Assoc_Sys Slabs_Spec Bipbuffer Util Items_Spec Store_Spec Hash Obj_Cache Rebalance_Spec Slab_Automove Drive_Close Maintainer_Spec
begin

text \<open>
  A verification of the core of memcached, as the repository's sources have it. The repository studies memcached in
  steps, one directory per step, with near-identical copies of the same files; the model follows one copy of each
  part and names it.

  \<^bold>\<open>The program.\<close> A cache maps keys to items. An item lives in a chunk of a slab page; a hash table finds it by key, an
  LRU queue of its slab class orders it by use, and a reference count keeps its memory while a client is using it.
  Background threads expand the hash table, move pages between slab classes and trim the LRU queues.

  \<^bold>\<open>State.\<close> All parts share one record that grows along the layers, as the C code's globals do: \<open>base_state\<close> (the heap of
  items, settings, clock, lock table; \<open>Mc_Heap\<close>), \<open>assoc_state\<close> (hash tables; \<open>Assoc\<close>), \<open>slab_state\<close> (classes, pages, memory limit;
  \<open>Slabs\<close>), \<open>lru_state\<close> (queues, statistics, CAS counter; \<open>Items\<close>), \<open>reb_state\<close> (counters of the page mover; \<open>Rebalance\<close>). Pointers are
  natural numbers, \<open>NULL\<close> is 0, and the heap maps an address to an item; machine integers are words of their C width wherever
  they can wrap. An operation with an assertion or with a loop over linked memory returns an option: \<open>None\<close> is an abort
  or a loop that does not end, so a theorem that it returns \<open>Some\<close> is also a proof of termination and of all its assertions.

  \<^bold>\<open>Theories.\<close>
  \<^item> \<open>Mc_Prelude\<close>, \<open>Mc_Heap\<close>: words, flags, the failure monad; items, item locks (\<^verbatim>\<open>slabs_curd/memcached.h\<close>, \<^verbatim>\<open>thread.c\<close>) and doubly
    linked lists in the heap.
  \<^item> \<open>Assoc\<close>, \<open>Assoc_Sys\<close>: \<^verbatim>\<open>slabs_curd/assoc.c\<close>. Locale \<open>assoc_array\<close> is the contract of an associative array, interpreted by the
    table with its incremental expansion; every run of operations and maintenance turns refines a map, the expansion
    ends, and the lock the migration takes covers every chain it moves.
  \<^item> \<open>Slabs\<close>, \<open>Slabs_Spec\<close>: \<^verbatim>\<open>slabs_curd/slabs.c\<close>. Locale \<open>chunk_store\<close> is the contract of an allocator (a chunk handed out is not free, a
    chunk given back comes next); the slab allocator and the object cache interpret it.
  \<^item> \<open>Bipbuffer\<close>: \<^verbatim>\<open>memory_lru/bipbuffer.c\<close>, with locale \<open>fifo\<close>: request, push and poll are a queue.
  \<^item> \<open>Util\<close>: \<^verbatim>\<open>slabs_curd/util.c\<close>, number parsing with its C library base.
  \<^item> \<open>Items\<close>, \<open>Items_Inv\<close>, \<open>Items_Ops\<close>, \<open>Items_Get\<close>, \<open>Items_Spec\<close>: \<^verbatim>\<open>slabs_curd/items.c\<close>. The cache invariant \<open>cinv\<close> ties the hash table, the
    LRU queues, the free lists and the counters together; locale \<open>value_map\<close> is the contract of the item layer, and
    the whole layer refines a map from keys to values.
  \<^item> \<open>Store\<close>, \<open>Store_Spec\<close>: \<^verbatim>\<open>slabs_curd/memcached.c\<close> and \<^verbatim>\<open>thread.c\<close>: set, add, replace, append, prepend, cas, incr and decr, and the size of the
    lock table.
  \<^item> \<open>Hash\<close>: \<^verbatim>\<open>slabs_curd/jenkins_hash.c\<close> and \<^verbatim>\<open>murmur3_hash.c\<close> on a memory of bytes.
  \<^item> \<open>Obj_Cache\<close>: \<^verbatim>\<open>network/cache.c\<close>.
  \<^item> \<open>Rebalance\<close>, \<open>Rebalance_Inv\<close>, \<open>Rebalance_Spec\<close>: the page mover and the run-time memory limit of \<^verbatim>\<open>memory_lru/slabs.c\<close>: clearing a chunk keeps the
    cache invariant and every stored value (a key keeps its value or is evicted), and a cleared page ends in its new class.
  \<^item> \<open>Slab_Automove\<close>: the page balancer of \<^verbatim>\<open>memory_lru/slab_automove.c\<close> and the schedule of the LRU maintainer of \<^verbatim>\<open>memory_lru/items.c\<close>, with IEEE
    rounding of its double arithmetic.
  \<^item> \<open>Tokens\<close>: the tokenizer of \<^verbatim>\<open>thread/memcached.c\<close>, equal to cutting the line into its words.
  \<^item> \<open>Conn_Io\<close>, \<open>Conn_Spec\<close>: the buffers of a connection in \<^verbatim>\<open>thread/memcached.c\<close>: reading a stream loses nothing, lines are framed, output queued over
    message headers and iovecs is what was asked for and every pointer into the iovec array stays valid when it moves, and
    the binary responses decode to what was answered.
  \<^item> \<open>Prefix_Stats\<close>: \<^verbatim>\<open>thread/stats.c\<close>, the counters kept by key prefix and the dump of them, which fits the buffer computed for it.
  \<^item> \<open>Stats_Buf\<close>: the growing buffer the answers of \<^verbatim>\<open>stats\<close> are collected in (\<^verbatim>\<open>thread/memcached.c\<close>).
  \<^item> \<open>Commands\<close>, \<open>Commands_Spec\<close>: \<^verbatim>\<open>process_command\<close> of \<^verbatim>\<open>thread/memcached.c\<close> and every handler of the text protocol it calls, on a record \<open>server\<close> of one
    connection, the cache, the settings and the statistics. What the handlers call outside the repository's sources, or in parts not modelled
    (time conversion, \<^verbatim>\<open>strtod\<close>, the crawler, the log watchers, \<^verbatim>\<open>limited_get\<close>), is the record \<open>lib\<close> of functions. The theorems go from the
    line the client sends to the cache and the reply.
  \<^item> \<open>Bin_Commands\<close>: the binary protocol of \<^verbatim>\<open>thread/memcached.c\<close>: dispatch of a request, reading of its key, every handler, and SASL on the results of its library.
    A \<open>session\<close> is a \<open>server\<close> with the request header and the fields of the binary protocol.
  \<^item> \<open>Commands_Store\<close>: what \<^verbatim>\<open>complete_nread_ascii\<close> does to the cache once the data block of a storage command has arrived.
  \<^item> \<open>Drive\<close>, \<open>Drive_Spec\<close>, \<open>Drive_Close\<close>: \<^verbatim>\<open>drive_machine\<close> of \<^verbatim>\<open>thread/memcached.c\<close> with every state of a connection, and releasing and closing it
    (\<^verbatim>\<open>network/memcached.c\<close>). A \<open>machine\<close> is a session with its socket and events. A value is stored exactly as it came over the wire however it was cut
    into packets, a refused one is skipped exactly, and a connection that is closed gives back all it holds.
  \<^item> \<open>Crawler\<close>, \<open>Crawler_Queue\<close>, \<open>Crawler_Inv\<close>, \<open>Crawler_Reclaim\<close>, \<open>Crawler_Spec\<close>: the LRU crawler of \<^verbatim>\<open>memory_lru/crawler.c\<close>, a pseudo item that walks up a queue of
    \<^verbatim>\<open>memory_lru/items.c\<close> while the queue is in use. The invariant \<open>crawl_inv\<close> is \<open>cinv\<close> with crawlers in the queues; every step keeps it, and a whole crawl ends with exactly
    the dead items gone.
  \<^item> \<open>Evict\<close>: what \<open>lru_pull_tail\<close> of \<open>Items\<close> drops, moves and keeps. \<open>Maintainer\<close>, \<open>Maintainer_Spec\<close>: the work of the LRU maintainer thread of
    \<^verbatim>\<open>memory_lru/items.c\<close> on the queues (sizing the segments, applying queued bumps, deciding when to crawl); it loses no live value and gives
    back the references of the bumps.

  \<^bold>\<open>Loops and bounds.\<close> Nothing runs on fuel. A loop over a linked structure, which the C code ends only on a well-formed list, is a
  \<open>partial_function (option)\<close>, and the theorems show that it returns under the invariant; a counted loop is a structural
  recursion or has a measure. Constants of the code bound the retries (5 tries in \<open>lru_pull_tail\<close>, 10 in \<open>do_item_alloc_pull\<close>, 63 classes in
  \<open>slabs_init\<close> and in the balancer).

  \<^bold>\<open>What is not modelled.\<close> Sockets, libevent, threads and signals; logging and printing; external storage; the glue to the SASL library;
  \<^verbatim>\<open>transmit\<close>, \<^verbatim>\<open>read_into_chunked_item\<close> and the helpers that find key and request in the read buffer, which the sources call and do not contain, are
  parameters of the model.
  Locks are part of the model where a property depends on them (the lock of a bucket under migration, the
  locks of items being moved); other critical sections are single steps. Results of \<^verbatim>\<open>malloc\<close> and \<^verbatim>\<open>realloc\<close> are inputs of the state.
\<close>

end
